(* ===== verification/SatPrelude.thy ===== *)
theory SatPrelude
  imports Main "HOL-Library.Word"
begin

unbundle bit_operations_syntax

text \<open>
  Shared vocabulary of the development: the integer types of \<^verbatim>\<open>src/src/sattypes.h\<close>, the
  \<open>datacast_t\<close> view of a 64-bit word as two 32-bit halves, the error values that stand for
  undefined behaviour and failed \<open>sat_assert\<close>s, checked array accesses, and the list and
  word lemmas the components use.
\<close>

section \<open>Theorem collections\<close>

named_theorems res_simps
  \<open>rewriting of computations that may fail\<close>

section \<open>Machine integers\<close>

type_synonym u64 = "64 word"
type_synonym u32 = "32 word"

text \<open>
  \<open>union datacast_t\<close>: the two 32-bit halves of a 64-bit word. The layout is that of the
  little-endian targets the program is built for (x86, ARM).
\<close>

definition l32_l :: "u64 \<Rightarrow> u32" where
  "l32_l w = ucast w"

definition l32_h :: "u64 \<Rightarrow> u32" where
  "l32_h w = ucast (drop_bit 32 w)"

definition l64_of :: "u32 \<Rightarrow> u32 \<Rightarrow> u64" where
  "l64_of l h = ucast l OR push_bit 32 (ucast h)"

lemma l32_l_l64_of [simp]: "l32_l (l64_of l h) = l"
  by (rule bit_eqI) (auto simp: l32_l_def l64_of_def bit_simps)

lemma l32_h_l64_of [simp]: "l32_h (l64_of l h) = h"
  by (rule bit_eqI) (auto simp: l32_h_def l64_of_def bit_simps dest: bit_imp_le_length)

lemma l64_of_halves [simp]: "l64_of (l32_l w) (l32_h w) = w"
  by (rule bit_eqI) (auto simp: l32_l_def l32_h_def l64_of_def bit_simps)

lemma NOT_neq: "NOT (w :: u64) \<noteq> w"
proof
  assume "NOT w = w"
  then have "bit (NOT w) 0 = bit w 0" by simp
  then show False by (simp add: bit_simps)
qed

lemma l64_of_inject [simp]: "l64_of l h = l64_of l' h' \<longleftrightarrow> l = l' \<and> h = h'"
  by (metis l32_l_l64_of l32_h_l64_of)

lemma halves_eq_iff: "w = w' \<longleftrightarrow> l32_l w = l32_l w' \<and> l32_h w = l32_h w'"
  by (metis l64_of_halves)

lemma unat_ucast_u32_u64 [simp]: "unat (ucast (w :: u32) :: u64) = unat w"
  using unsigned_less [of w, where 'a = nat]
  by (simp add: unsigned_ucast_eq take_bit_nat_eq_self_iff)

lemma unat_u32_less: "unat (w :: u32) < 2 ^ 32"
  using unsigned_less [of w] by simp

lemma unat_u64_less: "unat (w :: u64) < 2 ^ 64"
  using unsigned_less [of w] by simp

section \<open>Failure as a value\<close>

text \<open>
  What the C++ program does not define or does not survive: an access outside an array, a
  division by zero, a call through a null pointer, the \<open>exit(1)\<close> of a failed \<open>sat_assert\<close>, and a
  loop that does not end, the use of a variable that was not set, the use of an object that was deleted,
  and signed arithmetic out of range. \<open>StillRunning\<close> is a \<open>pthread_join\<close> that has not returned yet: the steps of a schedule
  ended before the thread did.
\<close>

datatype sat_error = OutOfBounds | DivisionByZero | NullPointer | AssertFailed | Diverged | Uninitialised | UseAfterFree |
  SignedOverflow | StillRunning

type_synonym 'a res = "sat_error + 'a"

definition res_bind :: "'a res \<Rightarrow> ('a \<Rightarrow> 'b res) \<Rightarrow> 'b res" where
  "res_bind x f = (case x of Inl e \<Rightarrow> Inl e | Inr a \<Rightarrow> f a)"

lemma res_bind_Inl [simp, res_simps]: "res_bind (Inl e) f = Inl e"
  by (simp add: res_bind_def)

lemma res_bind_Inr [simp, res_simps]: "res_bind (Inr a) f = f a"
  by (simp add: res_bind_def)

lemma res_bind_cong [fundef_cong]:
  "x = y \<Longrightarrow> (\<And>a. y = Inr a \<Longrightarrow> f a = g a) \<Longrightarrow> res_bind x f = res_bind y g"
  by (cases y) auto

lemma res_bind_eq_Inr:
  "res_bind x f = Inr b \<longleftrightarrow> (\<exists>a. x = Inr a \<and> f a = Inr b)"
  by (cases x) auto

definition sat_assert :: "bool \<Rightarrow> unit res" where
  "sat_assert b = (if b then Inr () else Inl AssertFailed)"

lemma sat_assert_simps [simp, res_simps]:
  "sat_assert True = Inr ()" "sat_assert False = Inl AssertFailed"
  by (simp_all add: sat_assert_def)

section \<open>Checked arrays\<close>

definition rd :: "'a list \<Rightarrow> nat \<Rightarrow> 'a res" where
  "rd xs i = (if i < length xs then Inr (xs ! i) else Inl OutOfBounds)"

definition wr :: "'a list \<Rightarrow> nat \<Rightarrow> 'a \<Rightarrow> 'a list res" where
  "wr xs i v = (if i < length xs then Inr (xs[i := v]) else Inl OutOfBounds)"

lemma rd_Inr [simp, res_simps]: "i < length xs \<Longrightarrow> rd xs i = Inr (xs ! i)"
  by (simp add: rd_def)

lemma wr_Inr [simp, res_simps]: "i < length xs \<Longrightarrow> wr xs i v = Inr (xs[i := v])"
  by (simp add: wr_def)

lemma rd_Inl [simp, res_simps]: "length xs \<le> i \<Longrightarrow> rd xs i = Inl OutOfBounds"
  by (simp add: rd_def)

lemma wr_Inl [simp, res_simps]: "length xs \<le> i \<Longrightarrow> wr xs i v = Inl OutOfBounds"
  by (simp add: wr_def)

section \<open>Lists\<close>

lemma take_Suc_update:
  "i < length xs \<Longrightarrow> take (Suc i) (xs[i := v]) = take i xs @ [v]"
  by (simp add: take_Suc_conv_app_nth)

lemma update_append_drop:
  "i < length xs \<Longrightarrow> xs[i := v] = take i xs @ v # drop (Suc i) xs"
  by (rule upd_conv_take_nth_drop)

lemma drop_two_Cons:
  "Suc i < length xs \<Longrightarrow> drop i xs = xs ! i # xs ! Suc i # drop (i + 2) xs"
  by (simp add: Cons_nth_drop_Suc)

text \<open>\<open>copied dst src i n\<close>: the elements \<open>i..<n\<close> of \<open>dst\<close> replaced by those of \<open>src\<close>.\<close>

definition copied :: "'a list \<Rightarrow> 'a list \<Rightarrow> nat \<Rightarrow> nat \<Rightarrow> 'a list" where
  "copied dst src i n = take i dst @ drop i (take n src) @ drop n dst"

lemma length_copied [simp]:
  "\<lbrakk>n \<le> length dst; n \<le> length src; i \<le> n\<rbrakk> \<Longrightarrow> length (copied dst src i n) = length dst"
  by (simp add: copied_def)

lemma copied_refl [simp]: "copied dst src n n = dst"
  by (simp add: copied_def)

lemma copied_all [simp]: "length dst \<le> n \<Longrightarrow> length src \<le> n \<Longrightarrow> copied dst src 0 n = src"
  by (simp add: copied_def)

lemma copied_step:
  assumes "i < n" "n \<le> length src" "n \<le> length dst"
  shows "copied (dst[i := src ! i]) src (Suc i) n = copied dst src i n"
proof -
  have "drop i (take n src) = src ! i # drop (Suc i) (take n src)"
    using assms by (simp add: Cons_nth_drop_Suc [symmetric])
  then show ?thesis
    using assms by (simp add: copied_def take_Suc_update)
qed

lemma copied_step2:
  assumes "Suc i < n" "n \<le> length src" "n \<le> length dst"
  shows "copied (dst[i := src ! i, Suc i := src ! Suc i]) src (Suc (Suc i)) n = copied dst src i n"
  using assms copied_step [of "Suc i" n src "dst[i := src ! i]"] copied_step [of i n src dst]
  by simp

section \<open>Ring arithmetic\<close>

lemma mod_two_laps: "x < 2 * n \<Longrightarrow> x mod n = (if x < n then x else x - (n :: nat))"
  by (simp add: le_mod_geq)

lemma mod_add_inj:
  assumes "j < n" "k < n" "(c + j) mod n = (c + k) mod (n :: nat)"
  shows "j = k"
proof -
  define r where "r = c mod n"
  have r: "r < n" using assms(1) by (simp add: r_def)
  have "(r + j) mod n = (r + k) mod n"
    using assms(3) by (simp add: r_def mod_add_left_eq)
  then show ?thesis
    using r assms(1,2) mod_two_laps [of "r + j" n] mod_two_laps [of "r + k" n]
    by (auto split: if_splits)
qed

end
