(* ===== verification/PauseBarrier.thy ===== *)
theory PauseBarrier
  imports SatPrelude
begin

text \<open>
  Pausing and stopping the workers: class \<open>WorkerStatus\<close> (\<^verbatim>\<open>src/src/worker.h\<close>, \<^verbatim>\<open>src/src/worker.cc\<close>). The control thread and the workers
  share a status under a read-write lock and meet at a barrier for one more thread than there are workers; a worker that leaves
  shrinks the barrier. A step is a stretch of code between two points where a thread can be held up: a call of the interface, the reading of
  the status, an arrival at the barrier. The last arrival wakes all that wait.
\<close>

section \<open>State\<close>

datatype Status = RUN | PAUSE | STOP

text \<open>
  A worker works (\<open>paused\<close>: what the last \<open>ContinueRunning\<close> reported), is about to read the status (for \<open>RemoveSelf\<close> if the first flag is set),
  is about to wait at the barrier or waits there for the first or the second time, was told to stop, or has removed itself.
\<close>

datatype worker_pc =
    Working bool
  | Checking bool bool
  | AtFirst bool
  | InFirst bool
  | AtSecond bool
  | InSecond bool
  | Stopped
  | Gone

datatype control_pc = CRunning | CAtFirst | CInFirst | CPaused | CAtSecond | CInSecond | CStopped

record WorkerStatus =
  status :: Status
  num_workers :: nat
  barrier_size :: nat
  arrived :: nat
  workers :: "worker_pc list"
  control :: control_pc

text \<open>\<open>AddWorkers\<close> for each of the workers, then \<open>Initialize\<close>.\<close>

definition WorkerStatus_Initialize :: "nat \<Rightarrow> WorkerStatus" where
  "WorkerStatus_Initialize n = \<lparr>status = RUN, num_workers = n, barrier_size = n + 1, arrived = 0,
     workers = replicate n (Working False), control = CRunning\<rparr>"

section \<open>The barrier\<close>

fun wake :: "worker_pc \<Rightarrow> worker_pc" where
  "wake (InFirst r) = AtSecond r"
| "wake (InSecond r) = Checking r True"
| "wake x = x"

fun wake_control :: "Status \<Rightarrow> control_pc \<Rightarrow> control_pc" where
  "wake_control st CInFirst = CPaused"
| "wake_control st CInSecond = (if st = STOP then CStopped else CRunning)"
| "wake_control st c = c"

text \<open>\<open>WaitOnPauseBarrier\<close>, for a thread whose place is already set to waiting.\<close>

definition WaitOnPauseBarrier :: "WorkerStatus \<Rightarrow> WorkerStatus" where
  "WaitOnPauseBarrier s =
     (if arrived s + 1 = barrier_size s
      then s\<lparr>arrived := 0, workers := map wake (workers s), control := wake_control (status s) (control s)\<rparr>
      else s\<lparr>arrived := arrived s + 1\<rparr>)"

section \<open>Control thread\<close>

definition SetStatus :: "Status \<Rightarrow> WorkerStatus \<Rightarrow> Status \<times> WorkerStatus" where
  "SetStatus st s = (status s, s\<lparr>status := st\<rparr>)"

definition PauseWorkers :: "WorkerStatus \<Rightarrow> WorkerStatus" where
  "PauseWorkers s = (case SetStatus PAUSE s of (prev, s') \<Rightarrow> if prev \<noteq> PAUSE then s'\<lparr>control := CAtFirst\<rparr> else s')"

definition ResumeWorkers :: "WorkerStatus \<Rightarrow> WorkerStatus" where
  "ResumeWorkers s = (case SetStatus RUN s of (prev, s') \<Rightarrow> if prev = PAUSE then s'\<lparr>control := CAtSecond\<rparr> else s')"

definition StopWorkers :: "WorkerStatus \<Rightarrow> WorkerStatus" where
  "StopWorkers s = (case SetStatus STOP s of (prev, s') \<Rightarrow> s'\<lparr>control := if prev = PAUSE then CAtSecond else CStopped\<rparr>)"

section \<open>Workers\<close>

text \<open>One round of the loop of \<open>ContinueRunning\<close>.\<close>

definition ContinueRunning :: "nat \<Rightarrow> bool \<Rightarrow> WorkerStatus \<Rightarrow> WorkerStatus" where
  "ContinueRunning i paused s = s\<lparr>workers := (workers s)[i :=
     (case status s of RUN \<Rightarrow> Working paused | PAUSE \<Rightarrow> AtFirst False | STOP \<Rightarrow> Stopped)]\<rparr>"

definition ContinueRunningNoPause :: "WorkerStatus \<Rightarrow> bool" where
  "ContinueRunningNoPause s \<longleftrightarrow> status s \<noteq> STOP"

text \<open>
  One round of the loop of \<open>RemoveSelf\<close>, and the removal under the read lock when the status is not \<open>PAUSE\<close>. A barrier with waiting threads
  must not be destroyed.
\<close>

definition RemoveSelf :: "nat \<Rightarrow> WorkerStatus \<Rightarrow> WorkerStatus res" where
  "RemoveSelf i s =
     (if status s = PAUSE then Inr (s\<lparr>workers := (workers s)[i := AtFirst True]\<rparr>)
      else res_bind (sat_assert (arrived s = 0)) (\<lambda>_.
           res_bind (sat_assert (num_workers s \<noteq> 0)) (\<lambda>_.
             Inr (s\<lparr>barrier_size := num_workers s, num_workers := num_workers s - 1, workers := (workers s)[i := Gone]\<rparr>))))"

section \<open>Interleaving\<close>

text \<open>
  \<open>Call i r\<close>: worker \<open>i\<close> calls \<open>RemoveSelf\<close> if \<open>r\<close>, else \<open>ContinueRunning\<close>. \<open>Go i\<close> and \<open>ControlGo\<close>: a thread goes on with its call.
\<close>

datatype ws_event = Call nat bool | Go nat | Pause | Resume | StopAll | ControlGo

fun enabled :: "ws_event \<Rightarrow> WorkerStatus \<Rightarrow> bool" where
  "enabled (Call i r) s \<longleftrightarrow> i < length (workers s) \<and>
     (case workers s ! i of Working _ \<Rightarrow> True | Stopped \<Rightarrow> r | _ \<Rightarrow> False)"
| "enabled (Go i) s \<longleftrightarrow> i < length (workers s) \<and>
     (case workers s ! i of Checking _ _ \<Rightarrow> True | AtFirst _ \<Rightarrow> True | AtSecond _ \<Rightarrow> True | _ \<Rightarrow> False)"
| "enabled Pause s \<longleftrightarrow> control s = CRunning \<or> control s = CPaused"
| "enabled Resume s \<longleftrightarrow> control s = CRunning \<or> control s = CPaused"
| "enabled StopAll s \<longleftrightarrow> control s = CRunning \<or> control s = CPaused"
| "enabled ControlGo s \<longleftrightarrow> control s = CAtFirst \<or> control s = CAtSecond"

fun ws_step :: "ws_event \<Rightarrow> WorkerStatus \<Rightarrow> WorkerStatus res" where
  "ws_step (Call i r) s = Inr (s\<lparr>workers := (workers s)[i := Checking r False]\<rparr>)"
| "ws_step (Go i) s =
     (case workers s ! i of
        Checking r p \<Rightarrow> if r then RemoveSelf i s else Inr (ContinueRunning i p s)
      | AtFirst r \<Rightarrow> Inr (WaitOnPauseBarrier (s\<lparr>workers := (workers s)[i := InFirst r]\<rparr>))
      | AtSecond r \<Rightarrow> Inr (WaitOnPauseBarrier (s\<lparr>workers := (workers s)[i := InSecond r]\<rparr>))
      | _ \<Rightarrow> Inr s)"
| "ws_step Pause s = Inr (PauseWorkers s)"
| "ws_step Resume s = Inr (ResumeWorkers s)"
| "ws_step StopAll s = Inr (StopWorkers s)"
| "ws_step ControlGo s =
     Inr (WaitOnPauseBarrier (s\<lparr>control := if control s = CAtFirst then CInFirst else CInSecond\<rparr>))"

inductive ws_reach :: "nat \<Rightarrow> WorkerStatus \<Rightarrow> bool" for n where
  init: "ws_reach n (WorkerStatus_Initialize n)"
| step: "\<lbrakk>ws_reach n s; enabled e s; ws_step e s = Inr s'\<rbrakk> \<Longrightarrow> ws_reach n s'"

section \<open>The invariant\<close>

lemma count_update:
  "i < length xs \<Longrightarrow> length (filter P (xs[i := v])) + of_bool (P (xs ! i)) = length (filter P xs) + of_bool (P v)"
proof (induction xs arbitrary: i)
  case (Cons x xs)
  show ?case
  proof (cases i)
    case (Suc j)
    then show ?thesis using Cons.IH [of j] Cons.prems by simp
  qed simp
qed simp

lemma count_all:
  assumes "length (filter P xs) = length (filter Q xs)" "\<And>x. x \<in> set xs \<Longrightarrow> P x \<Longrightarrow> Q x" "x \<in> set xs" "Q x"
  shows "P x"
proof -
  have "filter P xs = filter P (filter Q xs)" using assms(2) by (auto intro: filter_cong)
  then have "length (filter P (filter Q xs)) = length (filter Q xs)" using assms(1) by simp
  then have "filter P (filter Q xs) = filter Q xs" by (metis filter_id_conv length_filter_less nat_neq_iff)
  then have "x \<in> set (filter P (filter Q xs))" using assms(3,4) by simp
  then show "P x" by simp
qed

fun waits :: "worker_pc \<Rightarrow> bool" where
  "waits (InFirst _) = True"
| "waits (InSecond _) = True"
| "waits _ = False"

fun control_waits :: "control_pc \<Rightarrow> bool" where
  "control_waits CInFirst = True"
| "control_waits CInSecond = True"
| "control_waits _ = False"

abbreviation live :: "WorkerStatus \<Rightarrow> nat" where
  "live s \<equiv> length (filter (\<lambda>w. w \<noteq> Gone) (workers s))"

abbreviation waiting :: "WorkerStatus \<Rightarrow> nat" where
  "waiting s \<equiv> length (filter waits (workers s)) + (if control_waits (control s) then 1 else 0)"

text \<open>Where the workers can be, by the place of the control thread.\<close>

fun place_ok :: "control_pc \<Rightarrow> worker_pc \<Rightarrow> bool" where
  "place_ok c Gone \<longleftrightarrow> True"
| "place_ok c Stopped \<longleftrightarrow> c = CStopped"
| "place_ok c (Working _) \<longleftrightarrow> c = CRunning \<or> c = CAtFirst \<or> c = CInFirst \<or> c = CStopped"
| "place_ok c (Checking _ _) \<longleftrightarrow> c = CRunning \<or> c = CAtFirst \<or> c = CInFirst \<or> c = CStopped"
| "place_ok c (AtFirst _) \<longleftrightarrow> c = CAtFirst \<or> c = CInFirst"
| "place_ok c (InFirst _) \<longleftrightarrow> c = CAtFirst \<or> c = CInFirst"
| "place_ok c (AtSecond _) \<longleftrightarrow> c = CPaused \<or> c = CAtSecond \<or> c = CInSecond"
| "place_ok c (InSecond _) \<longleftrightarrow> c = CPaused \<or> c = CAtSecond \<or> c = CInSecond"

fun status_ok :: "control_pc \<Rightarrow> Status \<Rightarrow> bool" where
  "status_ok CRunning st \<longleftrightarrow> st = RUN"
| "status_ok CStopped st \<longleftrightarrow> st = STOP"
| "status_ok CAtSecond st \<longleftrightarrow> st \<noteq> PAUSE"
| "status_ok CInSecond st \<longleftrightarrow> st \<noteq> PAUSE"
| "status_ok c st \<longleftrightarrow> st = PAUSE"

definition ws_inv :: "WorkerStatus \<Rightarrow> bool" where
  "ws_inv s \<longleftrightarrow> list_all (place_ok (control s)) (workers s) \<and> status_ok (control s) (status s) \<and> num_workers s = live s \<and>
     barrier_size s = live s + 1 \<and> arrived s = waiting s \<and> arrived s < barrier_size s"

lemma ws_invD:
  assumes "ws_inv s"
  shows "\<And>w. w \<in> set (workers s) \<Longrightarrow> place_ok (control s) w" "status_ok (control s) (status s)" "num_workers s = live s"
    "barrier_size s = live s + 1" "arrived s = waiting s" "arrived s < barrier_size s"
  using assms by (auto simp: ws_inv_def list_all_iff)

text \<open>A worker moves to another place without entering or leaving the barrier.\<close>

lemma ws_inv_move:
  assumes inv: "ws_inv s" and i: "i < length (workers s)" and at: "\<not> waits (workers s ! i)" "workers s ! i \<noteq> Gone"
    and to: "\<not> waits w" "w \<noteq> Gone" "place_ok (control s) w"
  shows "ws_inv (s\<lparr>workers := (workers s)[i := w]\<rparr>)"
proof -
  note d = ws_invD [OF inv]
  have "length (filter waits ((workers s)[i := w])) = length (filter waits (workers s))"
    "length (filter (\<lambda>w. w \<noteq> Gone) ((workers s)[i := w])) = live s"
    using count_update [OF i, of waits w] count_update [OF i, of "\<lambda>w. w \<noteq> Gone" w] at to by simp_all
  then show ?thesis
    using inv to(3) by (auto simp: ws_inv_def list_all_iff dest!: set_update_subset_insert [THEN subsetD])
qed

text \<open>An arrival, before the test whether it is the last.\<close>

definition arriving :: "WorkerStatus \<Rightarrow> bool" where
  "arriving s \<longleftrightarrow> list_all (place_ok (control s)) (workers s) \<and> status_ok (control s) (status s) \<and> num_workers s = live s \<and>
     barrier_size s = live s + 1 \<and> arrived s + 1 = waiting s"

lemma waits_live: "length (filter waits xs) \<le> length (filter (\<lambda>w. w \<noteq> Gone) xs)"
  by (induction xs) auto

lemma waits_not_Gone: "waits w \<Longrightarrow> w \<noteq> Gone"
  by (cases w) auto

lemma arrival_ok:
  assumes "arriving s"
  shows "ws_inv (WaitOnPauseBarrier s)"
proof (cases "arrived s + 1 = barrier_size s")
  case False
  have "waiting s \<le> live s + 1" using waits_live [of "workers s"] by simp
  then show ?thesis using assms False by (auto simp: WaitOnPauseBarrier_def ws_inv_def arriving_def)
next
  case True
  have a: "\<And>w. w \<in> set (workers s) \<Longrightarrow> place_ok (control s) w" "status_ok (control s) (status s)" "num_workers s = live s"
    "barrier_size s = live s + 1" "arrived s + 1 = waiting s" using assms by (auto simp: arriving_def list_all_iff)
  have lw: "length (filter waits (workers s)) = live s" and cw: "control_waits (control s)"
    using True a(4,5) waits_live [of "workers s"] by (auto split: if_splits)
  have c: "control s = CInFirst \<or> control s = CInSecond" using cw by (cases "control s") auto
  have all: "waits w" if "w \<in> set (workers s)" "w \<noteq> Gone" for w
    using count_all [of waits "workers s" "\<lambda>w. w \<noteq> Gone" w] lw that waits_not_Gone by simp
  let ?c = "wake_control (status s) (control s)"
  have woken: "place_ok ?c (wake w) \<and> \<not> waits (wake w) \<and> (wake w = Gone \<longleftrightarrow> w = Gone)" if "w \<in> set (workers s)" for w
    using a(1) [OF that] all [OF that] c a(2) by (cases w; cases "status s") auto
  have "filter waits (map wake (workers s)) = []" using woken by (auto simp: filter_empty_conv)
  moreover have "length (filter (\<lambda>w. w \<noteq> Gone) (map wake (workers s))) = live s"
    unfolding filter_map length_map using woken by (intro arg_cong [where f = length] filter_cong) auto
  moreover have "status_ok ?c (status s) \<and> \<not> control_waits ?c" using c a(2) by (cases "status s") auto
  moreover have "list_all (place_ok ?c) (map wake (workers s))" using woken by (simp add: list_all_iff)
  ultimately show ?thesis using True a(3,4) by (simp add: WaitOnPauseBarrier_def ws_inv_def)
qed

lemma worker_arriving:
  assumes inv: "ws_inv s" and i: "i < length (workers s)" and at: "\<not> waits (workers s ! i)" "workers s ! i \<noteq> Gone"
    and to: "waits w" "place_ok (control s) w"
  shows "arriving (s\<lparr>workers := (workers s)[i := w]\<rparr>)"
proof -
  note d = ws_invD [OF inv]
  have "length (filter waits ((workers s)[i := w])) = length (filter waits (workers s)) + 1"
    "length (filter (\<lambda>w. w \<noteq> Gone) ((workers s)[i := w])) = live s"
    using count_update [OF i, of waits w] count_update [OF i, of "\<lambda>w. w \<noteq> Gone" w] at to waits_not_Gone [OF to(1)] by simp_all
  then show ?thesis
    using d to(2) by (auto simp: arriving_def list_all_iff dest!: set_update_subset_insert [THEN subsetD])
qed

lemmas worker_arrives = arrival_ok [OF worker_arriving]

lemma control_arriving:
  assumes inv: "ws_inv s" and at: "control s = CAtFirst \<or> control s = CAtSecond"
  shows "arriving (s\<lparr>control := if control s = CAtFirst then CInFirst else CInSecond\<rparr>)"
proof -
  let ?s = "s\<lparr>control := if control s = CAtFirst then CInFirst else CInSecond\<rparr>"
  have "place_ok (control ?s) w" if "w \<in> set (workers s)" for w using ws_invD(1) [OF inv that] at by (cases w) auto
  then show ?thesis using ws_invD [OF inv] at by (auto simp: arriving_def list_all_iff)
qed

lemma step_ok:
  assumes inv: "ws_inv s" and en: "enabled e s"
  shows "\<exists>s'. ws_step e s = Inr s' \<and> ws_inv s'"
proof (cases e)
  case (Call i r)
  then have i: "i < length (workers s)" "\<not> waits (workers s ! i)" "workers s ! i \<noteq> Gone" "place_ok (control s) (Checking r False)"
    using en ws_invD(1) [OF inv, of "workers s ! i"] by (auto split: worker_pc.splits)
  then show ?thesis using Call ws_inv_move [OF inv] by simp
next
  case (Go i)
  have i: "i < length (workers s)" using en Go by simp
  have ok: "place_ok (control s) (workers s ! i)" using ws_invD(1) [OF inv] i by simp
  show ?thesis
  proof (cases "workers s ! i")
    case (Checking r p)
    note d = ws_invD [OF inv]
    show ?thesis
    proof (cases "r \<and> status s \<noteq> PAUSE")
      case True
      have c: "control s = CRunning \<or> control s = CStopped" using ok Checking d(2) True by (auto elim: status_ok.elims)
      then have "\<not> waits w" if "w \<in> set (workers s)" for w using d(1) [OF that] by (cases w) auto
      then have "filter waits (workers s) = []" by (simp add: filter_empty_conv)
      then have arr: "arrived s = 0" using d(5) c by auto
      have "length (filter waits ((workers s)[i := Gone])) = 0" "length (filter (\<lambda>w. w \<noteq> Gone) ((workers s)[i := Gone])) + 1 = live s"
        using count_update [OF i, of waits Gone] count_update [OF i, of "\<lambda>w. w \<noteq> Gone" Gone] Checking \<open>filter waits (workers s) = []\<close> by simp_all
      then have n: "num_workers s - 1 = length (filter (\<lambda>w. w \<noteq> Gone) ((workers s)[i := Gone]))" "num_workers s \<noteq> 0"
        "filter waits ((workers s)[i := Gone]) = []" "num_workers s = length (filter (\<lambda>w. w \<noteq> Gone) ((workers s)[i := Gone])) + 1"
        using d(3) by auto
      let ?s = "s\<lparr>barrier_size := num_workers s, num_workers := num_workers s - 1, workers := (workers s)[i := Gone]\<rparr>"
      have "list_all (place_ok (control s)) ((workers s)[i := Gone])"
        using d(1) by (auto simp: list_all_iff dest!: set_update_subset_insert [THEN subsetD])
      then have "ws_inv ?s" using arr d(2) c n(1,3,4) by (auto simp: ws_inv_def)
      then show ?thesis using Go Checking True arr n(2) by (simp add: RemoveSelf_def)
    next
      case False
      let ?w = "if r then AtFirst True else case status s of RUN \<Rightarrow> Working p | PAUSE \<Rightarrow> AtFirst False | STOP \<Rightarrow> Stopped"
      have "place_ok (control s) ?w" using ok Checking d(2) False by (cases "control s"; cases "status s") auto
      moreover have "\<not> waits ?w" "?w \<noteq> Gone" by (cases "status s"; simp)+
      ultimately have "ws_inv (s\<lparr>workers := (workers s)[i := ?w]\<rparr>)" using Checking by (intro ws_inv_move [OF inv i]) auto
      then show ?thesis using Go Checking False by (auto simp: RemoveSelf_def ContinueRunning_def split: if_splits)
    qed
  qed (use Go en ok worker_arrives [OF inv i] in \<open>auto simp: inv\<close>)
next
  case Pause
  then show ?thesis
    using en inv by (auto simp: PauseWorkers_def SetStatus_def ws_inv_def list_all_iff elim!: place_ok.elims)
next
  case Resume
  then show ?thesis
    using en inv by (auto simp: ResumeWorkers_def SetStatus_def ws_inv_def list_all_iff elim!: place_ok.elims)
next
  case StopAll
  then show ?thesis
    using en inv by (auto simp: StopWorkers_def SetStatus_def ws_inv_def list_all_iff elim!: place_ok.elims)
next
  case ControlGo
  then show ?thesis using arrival_ok [OF control_arriving [OF inv]] en by simp
qed

lemma ws_inv_init: "ws_inv (WorkerStatus_Initialize n)"
  by (simp add: ws_inv_def WorkerStatus_Initialize_def list_all_iff)

lemma reach_inv: "ws_reach n s \<Longrightarrow> ws_inv s"
proof (induction rule: ws_reach.induct)
  case (step s e s')
  then show ?case using step_ok by fastforce
qed (rule ws_inv_init)

section \<open>Progress\<close>

text \<open>The run of a sequence of events, \<open>None\<close> if one of them is not possible when its turn comes.\<close>

fun ws_run :: "ws_event list \<Rightarrow> WorkerStatus \<Rightarrow> WorkerStatus option" where
  "ws_run [] s = Some s"
| "ws_run (e # es) s =
     (if enabled e s then case ws_step e s of Inl _ \<Rightarrow> None | Inr s' \<Rightarrow> ws_run es s' else None)"

lemma ws_run_reach: "ws_run es s = Some s' \<Longrightarrow> ws_reach n s \<Longrightarrow> ws_reach n s'"
  by (induction es arbitrary: s) (auto split: if_splits sum.splits intro: ws_reach.step)

text \<open>The control thread is inside \<open>PauseWorkers\<close>, \<open>ResumeWorkers\<close> or \<open>StopWorkers\<close>.\<close>

fun in_call :: "control_pc \<Rightarrow> bool" where
  "in_call CAtFirst = True"
| "in_call CInFirst = True"
| "in_call CAtSecond = True"
| "in_call CInSecond = True"
| "in_call _ = False"

text \<open>How many steps a thread can still take before it waits.\<close>

fun steps_to_wait :: "worker_pc \<Rightarrow> nat" where
  "steps_to_wait (Working _) = 3"
| "steps_to_wait (Checking _ _) = 2"
| "steps_to_wait (AtFirst _) = 1"
| "steps_to_wait (AtSecond _) = 1"
| "steps_to_wait _ = 0"

fun control_to_wait :: "control_pc \<Rightarrow> nat" where
  "control_to_wait CAtFirst = 1"
| "control_to_wait CAtSecond = 1"
| "control_to_wait _ = 0"

definition call_left :: "WorkerStatus \<Rightarrow> nat" where
  "call_left s = sum_list (map steps_to_wait (workers s)) + control_to_wait (control s)"

lemma sum_update:
  "i < length xs \<Longrightarrow> sum_list (map f (xs[i := v])) + f (xs ! i) = sum_list (map f xs) + (f v :: nat)"
proof (induction xs arbitrary: i)
  case (Cons x xs)
  show ?case
  proof (cases i)
    case (Suc j)
    then show ?thesis using Cons.IH [of j] Cons.prems by simp
  qed simp
qed simp

lemma last_arrival:
  assumes "arriving s" "arrived s + 1 = barrier_size s"
  shows "control_waits (control s)"
  using assms waits_live [of "workers s"] by (auto simp: arriving_def split: if_splits)

lemma wait_progress:
  assumes "arriving s" "in_call (control s)" "call_left s < k"
  shows "\<not> in_call (control (WaitOnPauseBarrier s)) \<or> call_left (WaitOnPauseBarrier s) < k"
proof (cases "arrived s + 1 = barrier_size s")
  case True
  then show ?thesis using last_arrival [OF assms(1)] by (cases "control s") (auto simp: WaitOnPauseBarrier_def)
qed (use assms(3) in \<open>simp add: WaitOnPauseBarrier_def call_left_def\<close>)

lemma arrives_progress:
  assumes inv: "ws_inv s" and c: "in_call (control s)" and i: "i < length (workers s)"
    and at: "steps_to_wait (workers s ! i) = 1" "\<not> waits (workers s ! i)" "workers s ! i \<noteq> Gone" and to: "waits w" "place_ok (control s) w"
  defines "s' \<equiv> WaitOnPauseBarrier (s\<lparr>workers := (workers s)[i := w]\<rparr>)"
  shows "\<not> in_call (control s') \<or> call_left s' < call_left s"
  unfolding s'_def
proof (rule wait_progress)
  show "arriving (s\<lparr>workers := (workers s)[i := w]\<rparr>)" using worker_arriving [OF inv i at(2,3) to] .
  have "steps_to_wait w = 0" using to(1) by (cases w) auto
  then show "call_left (s\<lparr>workers := (workers s)[i := w]\<rparr>) < call_left s"
    using sum_update [OF i, of steps_to_wait w] at(1) by (simp add: call_left_def)
qed (use c in simp)

lemma call_progress:
  assumes inv: "ws_inv s" and c: "in_call (control s)" and en: "enabled e s" and step: "ws_step e s = Inr s'"
  shows "\<not> in_call (control s') \<or> call_left s' < call_left s"
proof (cases e)
  case (Call i r)
  have i: "i < length (workers s)" and ok: "place_ok (control s) (workers s ! i)" using en Call ws_invD(1) [OF inv] by auto
  then have "steps_to_wait (workers s ! i) = 3" using en Call c by (auto split: worker_pc.splits)
  then show ?thesis using Call step sum_update [OF i, of steps_to_wait "Checking r False"] by (auto simp: call_left_def)
next
  case (Go i)
  have i: "i < length (workers s)" and ok: "place_ok (control s) (workers s ! i)" using en Go ws_invD(1) [OF inv] by auto
  show ?thesis
  proof (cases "workers s ! i")
    case (Checking r p)
    then have "status s = PAUSE" using ok c ws_invD(2) [OF inv] by (cases "control s") auto
    then have "s' = s\<lparr>workers := (workers s)[i := AtFirst r]\<rparr>"
      using Go Checking step by (auto simp: RemoveSelf_def ContinueRunning_def split: if_splits)
    then show ?thesis using sum_update [OF i, of steps_to_wait "AtFirst r"] Checking by (simp add: call_left_def)
  next
    case (AtFirst r)
    then show ?thesis using Go step ok arrives_progress [OF inv c i, of "InFirst r"] by auto
  next
    case (AtSecond r)
    then show ?thesis using Go step ok arrives_progress [OF inv c i, of "InSecond r"] by auto
  qed (use en Go in auto)
next
  case ControlGo
  let ?s = "s\<lparr>control := if control s = CAtFirst then CInFirst else CInSecond\<rparr>"
  have at: "control s = CAtFirst \<or> control s = CAtSecond" using en ControlGo by simp
  then have "in_call (control ?s)" "call_left ?s < call_left s" by (auto simp: call_left_def)
  then show ?thesis using wait_progress [OF control_arriving [OF inv at]] ControlGo step by auto
qed (use en c in auto)

lemma call_enabled:
  assumes inv: "ws_inv s" and c: "in_call (control s)"
  shows "\<exists>e. enabled e s"
proof (cases "\<exists>i<length (workers s). \<not> waits (workers s ! i) \<and> workers s ! i \<noteq> Gone")
  case True
  then obtain i where i: "i < length (workers s)" "\<not> waits (workers s ! i)" "workers s ! i \<noteq> Gone" by blast
  have ok: "place_ok (control s) (workers s ! i)" using ws_invD(1) [OF inv] i by simp
  have "enabled (Call i True) s \<or> enabled (Go i) s" using i ok c by (cases "workers s ! i") auto
  then show ?thesis by blast
next
  case False
  then have "filter waits (workers s) = filter (\<lambda>w. w \<noteq> Gone) (workers s)"
    by (intro filter_cong) (auto simp: in_set_conv_nth waits_not_Gone)
  then have "\<not> control_waits (control s)" using ws_invD(4-6) [OF inv] by (auto split: if_splits)
  then have "enabled ControlGo s" using c by (cases "control s") auto
  then show ?thesis by blast
qed

lemma call_left_bound: "call_left s \<le> 3 * live s + 1"
proof -
  have "sum_list (map steps_to_wait ws) \<le> 3 * length (filter (\<lambda>w. w \<noteq> Gone) ws)" for ws
  proof (induction ws)
    case (Cons w ws)
    then show ?case by (cases w) auto
  qed simp
  moreover have "control_to_wait c \<le> 1" for c by (cases c) auto
  ultimately show ?thesis unfolding call_left_def by (meson add_mono)
qed

lemma call_returns:
  assumes "ws_inv s" "in_call (control s)" "ws_run es s = Some s'" "call_left s < length es"
  shows "\<exists>es1 es2 s1. es = es1 @ es2 \<and> ws_run es1 s = Some s1 \<and> \<not> in_call (control s1)"
  using assms
proof (induction es arbitrary: s)
  case (Cons e es)
  obtain s1 where s1: "enabled e s" "ws_step e s = Inr s1" "ws_run es s1 = Some s'"
    using Cons.prems(3) by (auto split: if_splits sum.splits)
  show ?case
  proof (cases "in_call (control s1)")
    case False
    then show ?thesis using s1 by (intro exI [of _ "[e]"] exI [of _ es] exI [of _ s1]) simp
  next
    case True
    then have "call_left s1 < length es" using call_progress [OF Cons.prems(1,2) s1(1,2)] Cons.prems(4) by simp
    moreover have "ws_inv s1" using step_ok [OF Cons.prems(1) s1(1)] s1(2) by simp
    ultimately obtain es1 es2 s2 where "es = es1 @ es2" "ws_run es1 s1 = Some s2" "\<not> in_call (control s2)"
      using Cons.IH [OF _ True s1(3)] by blast
    then show ?thesis using s1(1,2) by (intro exI [of _ "e # es1"] exI [of _ es2] exI [of _ s2]) simp
  qed
qed simp

text \<open>The steps of a worker after the stop.\<close>

fun steps_to_leave :: "worker_pc \<Rightarrow> nat" where
  "steps_to_leave (Working _) = 4"
| "steps_to_leave (Checking r _) = (if r then 1 else 3)"
| "steps_to_leave Stopped = 2"
| "steps_to_leave _ = 0"

lemma stop_progress:
  assumes inv: "ws_inv s" and c: "control s = CStopped" and en: "enabled e s" and step: "ws_step e s = Inr s'"
  shows "control s' = CStopped \<and> sum_list (map steps_to_leave (workers s')) < sum_list (map steps_to_leave (workers s))"
proof -
  have st: "status s = STOP" using ws_invD(2) [OF inv] c by simp
  show ?thesis
  proof (cases e)
    case (Call i r)
    have i: "i < length (workers s)" using en Call by simp
    have "steps_to_leave (Checking r False) < steps_to_leave (workers s ! i)" using en Call by (auto split: worker_pc.splits)
    then show ?thesis using Call step c sum_update [OF i, of steps_to_leave "Checking r False"] by auto
  next
    case (Go i)
    have i: "i < length (workers s)" and ok: "place_ok CStopped (workers s ! i)" using en Go ws_invD(1) [OF inv] c by auto
    then obtain r p where rp: "workers s ! i = Checking r p" using en Go by (cases "workers s ! i") auto
    let ?w = "if r then Gone else Stopped"
    have "workers s' = (workers s)[i := ?w]" "control s' = CStopped"
      using Go step rp st c by (auto simp: RemoveSelf_def ContinueRunning_def res_bind_eq_Inr split: if_splits)
    then show ?thesis using sum_update [OF i, of steps_to_leave ?w] rp by (auto split: if_splits)
  qed (use en c in auto)
qed

lemma stop_run:
  assumes "ws_inv s" "control s = CStopped" "ws_run es s = Some s'"
  shows "length es + sum_list (map steps_to_leave (workers s')) \<le> sum_list (map steps_to_leave (workers s)) \<and> ws_inv s' \<and> control s' = CStopped"
  using assms
proof (induction es arbitrary: s)
  case (Cons e es)
  obtain s1 where s1: "enabled e s" "ws_step e s = Inr s1" "ws_run es s1 = Some s'"
    using Cons.prems(3) by (auto split: if_splits sum.splits)
  have "ws_inv s1" using step_ok [OF Cons.prems(1) s1(1)] s1(2) by simp
  then show ?case using Cons.IH [of s1] s1(3) stop_progress [OF Cons.prems(1,2) s1(1,2)] by auto
qed simp

section \<open>Properties\<close>

text \<open>
  C37. The pause is a rendezvous. In every interleaving of the control thread and the workers no barrier is destroyed while a thread waits
  at it and no assertion fails; the barrier is always set up for the workers that have not removed themselves and the control thread; and
  while \<open>PauseWorkers\<close> has returned and neither \<open>ResumeWorkers\<close> nor \<open>StopWorkers\<close> was called, every such worker is held between the two waits.
\<close>

theorem pause_barrier_safe:
  assumes "ws_reach n s"
  shows "(\<forall>e. enabled e s \<longrightarrow> (\<exists>s'. ws_step e s = Inr s')) \<and> num_workers s = live s \<and> barrier_size s = num_workers s + 1 \<and>
    (control s = CPaused \<longrightarrow> list_all (\<lambda>w. w = Gone \<or> (\<exists>r. w = AtSecond r \<or> w = InSecond r)) (workers s))"
proof (intro conjI allI impI)
  note inv = reach_inv [OF assms]
  show "\<exists>s'. ws_step e s = Inr s'" if "enabled e s" for e using step_ok [OF inv that] by blast
  show "num_workers s = live s" "barrier_size s = num_workers s + 1" using ws_invD(3,4) [OF inv] by simp_all
  assume c: "control s = CPaused"
  have "w = Gone \<or> (\<exists>r. w = AtSecond r \<or> w = InSecond r)" if "w \<in> set (workers s)" for w
    using ws_invD(1) [OF inv that] c by (cases w) auto
  then show "list_all (\<lambda>w. w = Gone \<or> (\<exists>r. w = AtSecond r \<or> w = InSecond r)) (workers s)" by (simp add: list_all_iff)
qed

text \<open>
  C38. A call of \<open>PauseWorkers\<close>, \<open>ResumeWorkers\<close> or \<open>StopWorkers\<close> returns: as long as it has not returned some thread can go on, and it
  returns within \<open>3 m + 2\<close> steps of all threads together, for \<open>m\<close> workers that have not removed themselves, whatever they do and in
  whatever order.
\<close>

theorem pause_returns:
  assumes "ws_reach n s" "in_call (control s)"
  shows "(\<exists>e. enabled e s) \<and>
    (ws_run es s = Some s' \<and> 3 * live s + 2 \<le> length es \<longrightarrow>
      (\<exists>es1 es2 s1. es = es1 @ es2 \<and> ws_run es1 s = Some s1 \<and> \<not> in_call (control s1)))"
  using call_enabled [OF reach_inv [OF assms(1)] assms(2)] call_returns [OF reach_inv [OF assms(1)] assms(2)] call_left_bound [of s]
  by force

text \<open>
  C39. After the stop the workers leave: at most four more steps per worker are possible, and when no step is possible any more every worker
  has removed itself and the barrier can be destroyed.
\<close>

theorem stop_terminates:
  assumes "ws_reach n s" "control s = CStopped" "ws_run es s = Some s'"
  shows "length es \<le> 4 * live s \<and>
    ((\<forall>e. \<not> enabled e s') \<longrightarrow> list_all (\<lambda>w. w = Gone) (workers s') \<and> num_workers s' = 0 \<and> arrived s' = 0)"
proof -
  have "sum_list (map steps_to_leave ws) \<le> 4 * length (filter (\<lambda>w. w \<noteq> Gone) ws)" for ws
  proof (induction ws)
    case (Cons w ws)
    then show ?case by (cases w) auto
  qed simp
  note bound = this [of "workers s"]
  note run = stop_run [OF reach_inv [OF assms(1)] assms(2,3)]
  have "list_all (\<lambda>w. w = Gone) (workers s') \<and> num_workers s' = 0 \<and> arrived s' = 0" if stuck: "\<forall>e. \<not> enabled e s'"
  proof -
    have inv: "ws_inv s'" and c: "control s' = CStopped" using run by auto
    have "workers s' ! i = Gone" if i: "i < length (workers s')" for i
    proof -
      have ok: "place_ok CStopped (workers s' ! i)" using ws_invD(1) [OF inv] i c by simp
      have "\<not> enabled (Call i True) s'" "\<not> enabled (Go i) s'" using stuck by auto
      then show ?thesis using i ok by (cases "workers s' ! i") auto
    qed
    then have gone: "w = Gone" if "w \<in> set (workers s')" for w using that by (auto simp: in_set_conv_nth)
    then have "filter (\<lambda>w. w \<noteq> Gone) (workers s') = []" "filter waits (workers s') = []"
      by (auto simp: filter_empty_conv dest: waits_not_Gone)
    then show ?thesis using ws_invD(3,5) [OF inv] c gone by (simp add: list_all_iff)
  qed
  moreover have "length es \<le> 4 * live s" using run bound by linarith
  ultimately show ?thesis by blast
qed

section \<open>Concrete instances\<close>

text \<open>One worker.\<close>

lemmas ws_simps = WorkerStatus_Initialize_def PauseWorkers_def ResumeWorkers_def StopWorkers_def SetStatus_def ContinueRunning_def
  RemoveSelf_def WaitOnPauseBarrier_def

theorem pause_barrier_safe_witness:
  "\<exists>s. ws_run [Pause, Call 0 False, Go 0, Go 0, ControlGo] (WorkerStatus_Initialize 1) = Some s \<and> control s = CPaused \<and>
     list_all (\<lambda>w. w = Gone \<or> (\<exists>r. w = AtSecond r \<or> w = InSecond r)) (workers s)"
proof -
  obtain s where s: "ws_run [Pause, Call 0 False, Go 0, Go 0, ControlGo] (WorkerStatus_Initialize 1) = Some s" "control s = CPaused"
    by (simp add: ws_simps)
  show ?thesis using pause_barrier_safe [OF ws_run_reach [OF s(1) ws_reach.init]] s by blast
qed

theorem pause_returns_witness:
  "\<exists>s s' es1 es2 s1. ws_run [Pause] (WorkerStatus_Initialize 1) = Some s \<and> ws_run [Call 0 False, Go 0, Go 0, ControlGo, Resume] s = Some s' \<and>
     [Call 0 False, Go 0, Go 0, ControlGo, Resume] = es1 @ es2 \<and> ws_run es1 s = Some s1 \<and> \<not> in_call (control s1)"
proof -
  let ?es = "[Call 0 False, Go 0, Go 0, ControlGo, Resume]"
  obtain s s' where s: "ws_run [Pause] (WorkerStatus_Initialize 1) = Some s" "in_call (control s)" "live s = 1" "ws_run ?es s = Some s'"
    by (simp add: ws_simps)
  show ?thesis using pause_returns [OF ws_run_reach [OF s(1) ws_reach.init] s(2), of ?es s'] s by auto
qed

theorem stop_terminates_witness:
  "\<exists>s s'. ws_run [StopAll] (WorkerStatus_Initialize 1) = Some s \<and> ws_run [Call 0 True, Go 0] s = Some s' \<and> num_workers s' = 0"
proof -
  obtain s s' where s: "ws_run [StopAll] (WorkerStatus_Initialize 1) = Some s" "control s = CStopped" "ws_run [Call 0 True, Go 0] s = Some s'"
      "workers s' = [Gone]" "control s' = CStopped"
    by (simp add: ws_simps)
  have "\<not> enabled e s'" for e using s(4,5) by (cases e) auto
  then show ?thesis using stop_terminates [OF ws_run_reach [OF s(1) ws_reach.init] s(2,3)] s by blast
qed

end
