(* ===== verification/Checksum.thy ===== *)
theory Checksum
  imports SatPrelude
begin

text \<open>
  The modified Adler checksum and the copy routines that compute it on the fly:
  \<^verbatim>\<open>src/src/adler32memcpy.h\<close> and \<^verbatim>\<open>src/src/adler32memcpy.cc\<close>. The data is a list of
  64-bit words; the 64-bit words at even positions feed the stream \<open>(a1, b1)\<close>, those at
  odd positions the stream \<open>(a2, b2)\<close>. A result \<open>Inr None\<close> is the C++ routine's
  \<open>return false\<close>, which leaves the checksum object alone; an access outside the buffers
  is \<open>Inl OutOfBounds\<close>.
\<close>

section \<open>The checksum object\<close>

record AdlerChecksum =
  ck_a1 :: u64
  ck_a2 :: u64
  ck_b1 :: u64
  ck_b2 :: u64

definition adler_equals :: "AdlerChecksum \<Rightarrow> AdlerChecksum \<Rightarrow> bool" where
  "adler_equals c d \<longleftrightarrow> ck_a1 c = ck_a1 d \<and> ck_a2 c = ck_a2 d \<and> ck_b1 c = ck_b1 d \<and> ck_b2 c = ck_b2 d"

definition adler_set :: "AdlerChecksum \<Rightarrow> u64 \<Rightarrow> u64 \<Rightarrow> u64 \<Rightarrow> u64 \<Rightarrow> AdlerChecksum" where
  "adler_set c a1 a2 b1 b2 = c\<lparr>ck_a1 := a1, ck_a2 := a2, ck_b1 := b1, ck_b2 := b2\<rparr>"

lemma adler_equals_iff [simp]: "adler_equals c d \<longleftrightarrow> c = (d :: AdlerChecksum)"
  by (auto simp: adler_equals_def)

text \<open>\<open>ToHexString\<close>: four \<open>%016llx\<close> fields separated by blanks.\<close>

definition hex_digit :: "nat \<Rightarrow> char" where
  "hex_digit n = (if n < 10 then char_of (48 + n) else char_of (87 + n))"

fun hex_fixed :: "nat \<Rightarrow> u64 \<Rightarrow> string" where
  "hex_fixed 0 w = ''''"
| "hex_fixed (Suc k) w = hex_fixed k (drop_bit 4 w) @ [hex_digit (unat (take_bit 4 w))]"

definition adler_to_hex_string :: "AdlerChecksum \<Rightarrow> string" where
  "adler_to_hex_string c =
     hex_fixed 16 (ck_a1 c) @ '' '' @ hex_fixed 16 (ck_a2 c) @ '' '' @
     hex_fixed 16 (ck_b1 c) @ '' '' @ hex_fixed 16 (ck_b2 c)"

section \<open>The loops\<close>

text \<open>
  One 64-bit word entering one stream: \<open>a += low; b += a; a += high; b += a\<close>.
\<close>

type_synonym stream = "u64 \<times> u64"

definition adler_add :: "stream \<Rightarrow> u64 \<Rightarrow> stream" where
  "adler_add s w =
     (let a = fst s + ucast (l32_l w);
          b = snd s + a;
          a' = a + ucast (l32_h w);
          b' = b + a'
      in (a', b'))"

text \<open>The counter is an \<open>unsigned int\<close> that stays below \<open>2 ^ 19 + 2\<close>: it never wraps.\<close>

definition size_guard :: "u32 \<Rightarrow> bool" where
  "size_guard size_in_bytes \<longleftrightarrow> size_in_bytes div 8 > push_bit 19 1"

function adler_loop :: "u64 list \<Rightarrow> nat \<Rightarrow> nat \<Rightarrow> stream \<Rightarrow> stream \<Rightarrow> (stream \<times> stream) res" where
  "adler_loop data i count s1 s2 =
     (if i < count then
        res_bind (rd data i) (\<lambda>x.
        res_bind (rd data (i + 1)) (\<lambda>y.
          adler_loop data (i + 2) count (adler_add s1 x) (adler_add s2 y)))
      else Inr (s1, s2))"
  by pat_completeness auto
termination
  by (relation "measure (\<lambda>(data, i, count, s1, s2). count - i)") auto

definition checksum_of :: "stream \<times> stream \<Rightarrow> AdlerChecksum" where
  "checksum_of ss = \<lparr>ck_a1 = fst (fst ss), ck_a2 = fst (snd ss), ck_b1 = snd (fst ss), ck_b2 = snd (snd ss)\<rparr>"

definition CalculateAdlerChecksum :: "u64 list \<Rightarrow> u32 \<Rightarrow> AdlerChecksum option res" where
  "CalculateAdlerChecksum data64 size_in_bytes =
     (if size_guard size_in_bytes then Inr None
      else res_bind (adler_loop data64 0 (unat (size_in_bytes div 8)) (1, 0) (1, 0))
             (\<lambda>ss. Inr (Some (checksum_of ss))))"

function memcpy_loop ::
  "u64 list \<Rightarrow> u64 list \<Rightarrow> nat \<Rightarrow> nat \<Rightarrow> stream \<Rightarrow> stream \<Rightarrow> (u64 list \<times> stream \<times> stream) res" where
  "memcpy_loop dst src i count s1 s2 =
     (if i < count then
        res_bind (rd src i) (\<lambda>x.
        res_bind (wr dst i x) (\<lambda>dst'.
        res_bind (rd src (i + 1)) (\<lambda>y.
        res_bind (wr dst' (i + 1) y) (\<lambda>dst''.
          memcpy_loop dst'' src (i + 2) count (adler_add s1 x) (adler_add s2 y)))))
      else Inr (dst, s1, s2))"
  by pat_completeness auto
termination
  by (relation "measure (\<lambda>(dst, src, i, count, s1, s2). count - i)") auto

type_synonym copy_result = "(u64 list \<times> AdlerChecksum option) res"

definition AdlerMemcpyC :: "u64 list \<Rightarrow> u64 list \<Rightarrow> u32 \<Rightarrow> copy_result" where
  "AdlerMemcpyC dstmem64 srcmem64 size_in_bytes =
     (if size_guard size_in_bytes then Inr (dstmem64, None)
      else res_bind (memcpy_loop dstmem64 srcmem64 0 (unat (size_in_bytes div 8)) (1, 0) (1, 0))
             (\<lambda>(dst, s1, s2). Inr (dst, Some (checksum_of (s1, s2)))))"

text \<open>
  \<open>AdlerMemcpyWarmC\<close> mixes floating point work into the copy; its value decides only whether
  one log line is printed. IEEE arithmetic is a parameter: the theorems hold for every choice
  of its operations. The result carries whether the line was printed.
\<close>

record 'f fp =
  fp_of_u64 :: "u64 \<Rightarrow> 'f"
  fp_const :: "nat \<Rightarrow> 'f"
  fp_mul :: "'f \<Rightarrow> 'f \<Rightarrow> 'f"
  fp_add :: "'f \<Rightarrow> 'f \<Rightarrow> 'f"
  fp_eq :: "'f \<Rightarrow> 'f \<Rightarrow> bool"

type_synonym 'f warm_regs = "'f \<times> 'f \<times> 'f \<times> 'f"

definition warm_init :: "'f fp \<Rightarrow> u64 \<Rightarrow> 'f warm_regs" where
  "warm_init F w =
     (fp_mul F (fp_const F 2) (fp_of_u64 F w), fp_mul F (fp_const F 5) (fp_of_u64 F w),
      fp_mul F (fp_const F 7) (fp_of_u64 F w), fp_mul F (fp_const F 9) (fp_of_u64 F w))"

fun warm_step :: "'f fp \<Rightarrow> 'f warm_regs \<Rightarrow> 'f warm_regs" where
  "warm_step F (a, b, c, d) =
     (let a' = fp_mul F a b; b' = fp_add F b c; c' = fp_mul F c d; d' = fp_add F d d
      in (a', b', c', d'))"

function warm_loop ::
  "'f fp \<Rightarrow> u64 list \<Rightarrow> u64 list \<Rightarrow> nat \<Rightarrow> nat \<Rightarrow> stream \<Rightarrow> stream \<Rightarrow> 'f warm_regs \<Rightarrow>
   (u64 list \<times> stream \<times> stream \<times> 'f warm_regs) res" where
  "warm_loop F dst src i count s1 s2 r =
     (if i < count then
        res_bind (rd src i) (\<lambda>x.
        res_bind (wr dst i x) (\<lambda>dst'.
        res_bind (rd src (i + 1)) (\<lambda>y.
        res_bind (wr dst' (i + 1) y) (\<lambda>dst''.
          warm_loop F dst'' src (i + 2) count (adler_add s1 x) (adler_add s2 y) (warm_step F r)))))
      else Inr (dst, s1, s2, r))"
  by pat_completeness auto
termination
  by (relation "measure (\<lambda>(F, dst, src, i, count, s1, s2, r). count - i)") auto

definition AdlerMemcpyWarmC ::
  "'f fp \<Rightarrow> u64 list \<Rightarrow> u64 list \<Rightarrow> u32 \<Rightarrow> (u64 list \<times> AdlerChecksum option \<times> bool) res" where
  "AdlerMemcpyWarmC F dstmem64 srcmem64 size_in_bytes =
     (if size_guard size_in_bytes then Inr (dstmem64, None, False)
      else res_bind (rd srcmem64 0) (\<lambda>w.
           res_bind (warm_loop F dstmem64 srcmem64 0 (unat (size_in_bytes div 8)) (1, 0) (1, 0)
                       (warm_init F w))
             (\<lambda>(dst, s1, s2, a, b, c, d).
                Inr (dst, Some (checksum_of (s1, s2)),
                     fp_eq F (fp_add F (fp_add F (fp_add F a b) c) d) (fp_const F 1)))))"

declare adler_loop.simps [simp del] memcpy_loop.simps [simp del] warm_loop.simps [simp del]

section \<open>Reference definition\<close>

text \<open>
  The checksum as a fold over the two streams, without indices or bounds, and the same sums
  over the natural numbers, where nothing wraps.
\<close>

fun adler_fold :: "u64 list \<Rightarrow> stream \<Rightarrow> stream \<Rightarrow> stream \<times> stream" where
  "adler_fold (x # y # ws) s1 s2 = adler_fold ws (adler_add s1 x) (adler_add s2 y)"
| "adler_fold ws s1 s2 = (s1, s2)"

definition adler_of :: "u64 list \<Rightarrow> AdlerChecksum" where
  "adler_of ws = checksum_of (adler_fold ws (1, 0) (1, 0))"

fun evens :: "'a list \<Rightarrow> 'a list" where
  "evens (x # y # ws) = x # evens ws"
| "evens ws = []"

fun odds :: "'a list \<Rightarrow> 'a list" where
  "odds (x # y # ws) = y # odds ws"
| "odds ws = []"

definition exact_add :: "nat \<times> nat \<Rightarrow> u64 \<Rightarrow> nat \<times> nat" where
  "exact_add s w =
     (let a = fst s + unat (l32_l w); b = snd s + a; a' = a + unat (l32_h w)
      in (a', b + a'))"

definition exact_stream :: "u64 list \<Rightarrow> nat \<times> nat" where
  "exact_stream ws = foldl exact_add (1, 0) ws"

lemma adler_fold_foldl:
  "adler_fold ws s1 s2 = (foldl adler_add s1 (evens ws), foldl adler_add s2 (odds ws))"
  by (induction ws s1 s2 rule: adler_fold.induct) auto

lemma adler_of_streams:
  "adler_of ws = checksum_of (foldl adler_add (1, 0) (evens ws), foldl adler_add (1, 0) (odds ws))"
  by (simp add: adler_of_def adler_fold_foldl)

lemma checksum_of_inject [simp]: "checksum_of ss = checksum_of tt \<longleftrightarrow> ss = tt"
  by (auto simp: checksum_of_def prod_eq_iff)

section \<open>The loops compute the reference\<close>

lemma adler_loop_eq:
  "\<lbrakk>count \<le> length data; even (count - i); i \<le> count\<rbrakk> \<Longrightarrow>
   adler_loop data i count s1 s2 = Inr (adler_fold (drop i (take count data)) s1 s2)"
proof (induction data i count s1 s2 rule: adler_loop.induct)
  case (1 data i count s1 s2)
  show ?case
  proof (cases "i < count")
    case True
    then have i: "Suc i < count" using 1(3,4) by presburger
    moreover have "even (count - (i + 2))" "i + 2 \<le> count" using 1(3) i by presburger+
    ultimately show ?thesis
      using 1(1)[OF True, of "data ! i" "data ! Suc i"] 1(2)
      by (subst adler_loop.simps) (simp add: drop_two_Cons)
  qed (use 1(4) in \<open>simp add: adler_loop.simps\<close>)
qed

lemma even_count_step:
  "\<lbrakk>i < count; even (count - i); i \<le> count\<rbrakk> \<Longrightarrow>
   Suc i < count \<and> even (count - (i + 2)) \<and> i + 2 \<le> (count :: nat) \<and> even count = even i"
  by presburger

lemma memcpy_loop_eq:
  "\<lbrakk>count \<le> length src; count \<le> length dst; even (count - i); i \<le> count\<rbrakk> \<Longrightarrow>
   memcpy_loop dst src i count s1 s2 =
     Inr (copied dst src i count, adler_fold (drop i (take count src)) s1 s2)"
proof (induction dst src i count s1 s2 rule: memcpy_loop.induct)
  case (1 dst src i count s1 s2)
  show ?case
  proof (cases "i < count")
    case True
    note e = even_count_step [OF True 1(4,5)]
    then have len: "i < length src" "i < length dst" "i + 1 < length src" "i + 1 < length dst"
      using 1(2,3) by auto
    show ?thesis
      using 1(1)[OF True, of "src ! i" "dst[i := src ! i]" "src ! (i + 1)"
                  "dst[i := src ! i, i + 1 := src ! (i + 1)]"] 1(2,3) e len
      by (subst memcpy_loop.simps) (simp add: drop_two_Cons copied_step2 conj_ac)
  qed (use 1(5) in \<open>simp add: memcpy_loop.simps\<close>)
qed

lemma warm_loop_eq:
  "\<lbrakk>count \<le> length src; count \<le> length dst; even (count - i); i \<le> count\<rbrakk> \<Longrightarrow>
   \<exists>r'. warm_loop F dst src i count s1 s2 r =
     Inr (copied dst src i count, fst (adler_fold (drop i (take count src)) s1 s2),
          snd (adler_fold (drop i (take count src)) s1 s2), r')"
proof (induction F dst src i count s1 s2 r rule: warm_loop.induct)
  case (1 F dst src i count s1 s2 r)
  show ?case
  proof (cases "i < count")
    case True
    note e = even_count_step [OF True 1(4,5)]
    then have len: "i < length src" "i < length dst" "i + 1 < length src" "i + 1 < length dst"
      using 1(2,3) by auto
    show ?thesis
      using 1(1)[OF True, of "src ! i" "dst[i := src ! i]" "src ! (i + 1)"
                  "dst[i := src ! i, i + 1 := src ! (i + 1)]"] 1(2,3) e len
      by (subst warm_loop.simps) (simp add: drop_two_Cons copied_step2 conj_ac)
  qed (use 1(5) in \<open>cases r, simp add: warm_loop.simps\<close>)
qed

text \<open>
  The sizes the C routines are specified for: a multiple of 16 bytes that passes the size
  test, and a buffer of exactly that many bytes.
\<close>

definition c_fits :: "u32 \<Rightarrow> bool" where
  "c_fits n \<longleftrightarrow> unat n mod 16 = 0 \<and> \<not> size_guard n"

lemma unat_div_8: "unat (n div 8 :: u32) = unat n div 8"
  by (simp add: unat_div_distrib)

lemma size_guard_unat: "size_guard n \<longleftrightarrow> 2 ^ 19 < unat n div 8"
  by (simp add: size_guard_def word_less_nat_alt unat_div_8)

lemma even_words: "unat (n :: u32) mod 16 = 0 \<Longrightarrow> even (unat n div 8)"
  by presburger

lemma CalculateAdlerChecksum_eq:
  "\<lbrakk>c_fits n; length ws = unat n div 8\<rbrakk> \<Longrightarrow>
   CalculateAdlerChecksum ws n = Inr (Some (adler_of ws))"
  by (simp add: CalculateAdlerChecksum_def c_fits_def adler_loop_eq even_words unat_div_8
      adler_of_def)

lemma AdlerMemcpyC_eq:
  "\<lbrakk>c_fits n; length src = unat n div 8; length dst = length src\<rbrakk> \<Longrightarrow>
   AdlerMemcpyC dst src n = Inr (src, Some (adler_of src))"
  by (simp add: AdlerMemcpyC_def c_fits_def memcpy_loop_eq even_words unat_div_8
      adler_of_def adler_fold_foldl)

lemma AdlerMemcpyWarmC_eq:
  assumes "c_fits n" "length src = unat n div 8" "length dst = length src" "src \<noteq> []"
  shows "\<exists>printed. AdlerMemcpyWarmC F dst src n = Inr (src, Some (adler_of src), printed)"
proof -
  from assms(4) have "rd src 0 = Inr (src ! 0)" by simp
  with assms warm_loop_eq [of "length src" src dst 0 F "(1,0)" "(1,0)" "warm_init F (src ! 0)"]
  show ?thesis
    by (auto simp: AdlerMemcpyWarmC_def c_fits_def even_words unat_div_8 adler_of_def)
qed

section \<open>What the checksum detects and when it is exact\<close>

lemma adler_add_state_inject: "adler_add s x = adler_add t x \<Longrightarrow> s = t"
  by (cases s, cases t) (auto simp: adler_add_def Let_def)

lemma ucast_u32_u64_inject [simp]: "(ucast (x :: u32) :: u64) = ucast y \<longleftrightarrow> x = y"
  by (metis unat_ucast_u32_u64 unsigned_word_eqI)

lemma adler_add_word_inject: "adler_add s x = adler_add s y \<Longrightarrow> x = y"
proof -
  assume eq: "adler_add s x = adler_add s y"
  let ?l = "\<lambda>w. ucast (l32_l w) :: u64" and ?h = "\<lambda>w. ucast (l32_h w) :: u64"
  from eq have ab: "fst s + ?l x + ?h x = fst s + ?l y + ?h y \<and>
       snd s + (fst s + ?l x) + (fst s + ?l x + ?h x)
     = snd s + (fst s + ?l y) + (fst s + ?l y + ?h y)"
    unfolding adler_add_def Let_def prod.inject .
  note a = ab [THEN conjunct1] and b = ab [THEN conjunct2]
  from b have "snd s + fst s + ?l x + (fst s + ?l x + ?h x) = snd s + fst s + ?l y + (fst s + ?l y + ?h y)"
    by (simp only: ac_simps)
  with a have "?l x = ?l y" by (metis add_left_imp_eq add_right_imp_eq)
  with a have "?h x = ?h y" by simp
  with \<open>?l x = ?l y\<close> show "x = y" by (simp add: halves_eq_iff [of x y])
qed

lemma foldl_adler_state_inject:
  "foldl adler_add s ws = foldl adler_add t ws \<Longrightarrow> s = t"
proof (induction ws arbitrary: s t)
  case (Cons w ws)
  then show ?case by (metis adler_add_state_inject foldl_Cons)
qed simp

lemma foldl_adler_update_inject:
  assumes "foldl adler_add s (ws[i := v]) = foldl adler_add s ws" "i < length ws"
  shows "v = ws ! i"
proof -
  have "foldl adler_add (adler_add (foldl adler_add s (take i ws)) v) (drop (Suc i) ws)
      = foldl adler_add (adler_add (foldl adler_add s (take i ws)) (ws ! i)) (drop (Suc i) ws)"
    using assms(1)
    by (simp add: assms(2) update_append_drop)
       (metis assms(2) foldl_Cons foldl_append id_take_nth_drop)
  then show ?thesis
    by (metis adler_add_word_inject foldl_adler_state_inject)
qed

lemma evens_update:
  "even (length ws) \<Longrightarrow>
   evens (ws[i := v]) = (if even i then (evens ws)[i div 2 := v] else evens ws)"
proof (induction ws arbitrary: i rule: evens.induct)
  case (1 x y ws)
  then show ?case by (cases i; cases "i - 1") (auto split: if_splits)
qed auto

lemma odds_update:
  "even (length ws) \<Longrightarrow>
   odds (ws[i := v]) = (if odd i then (odds ws)[i div 2 := v] else odds ws)"
proof (induction ws arbitrary: i rule: odds.induct)
  case (1 x y ws)
  then show ?case by (cases i; cases "i - 1") (auto split: if_splits)
qed auto

lemma length_evens: "length (evens ws) = length ws div 2"
  by (induction ws rule: evens.induct) auto

lemma length_odds: "length (odds ws) = length ws div 2"
  by (induction ws rule: odds.induct) auto

lemma nth_evens: "2 * i + 1 < length ws \<Longrightarrow> evens ws ! i = ws ! (2 * i)"
proof (induction ws arbitrary: i rule: evens.induct)
  case (1 x y ws)
  then show ?case by (cases i) auto
qed auto

lemma nth_odds: "2 * i + 1 < length ws \<Longrightarrow> odds ws ! i = ws ! (2 * i + 1)"
proof (induction ws arbitrary: i rule: odds.induct)
  case (1 x y ws)
  then show ?case by (cases i) auto
qed auto

lemma adler_of_update_neq:
  assumes "even (length ws)" "i < length ws" "v \<noteq> ws ! i"
  shows "adler_of (ws[i := v]) \<noteq> adler_of ws"
proof
  assume eq: "adler_of (ws[i := v]) = adler_of ws"
  have half: "i div 2 < length (evens ws)" "i div 2 < length (odds ws)"
    using assms(1,2) by (auto simp: length_evens length_odds)
  show False
  proof (cases "even i")
    case True
    with eq have "foldl adler_add (1, 0) ((evens ws)[i div 2 := v]) = foldl adler_add (1, 0) (evens ws)"
      by (simp add: adler_of_streams evens_update assms(1))
    from foldl_adler_update_inject [OF this half(1)] show False
      using True assms by (auto simp: nth_evens elim!: evenE)
  next
    case False
    with eq have "foldl adler_add (1, 0) ((odds ws)[i div 2 := v]) = foldl adler_add (1, 0) (odds ws)"
      by (simp add: adler_of_streams odds_update assms(1))
    from foldl_adler_update_inject [OF this half(2)] show False
      using False assms by (simp add: nth_odds odd_two_times_div_two_succ)
  qed
qed

text \<open>The word sums are the exact sums modulo \<open>2 ^ 64\<close>.\<close>

lemma adler_add_of_nat:
  "adler_add (map_prod of_nat of_nat s) w = map_prod of_nat of_nat (exact_add s w)"
  by (cases s) (simp add: adler_add_def exact_add_def Let_def)

lemma foldl_adler_of_nat:
  "foldl adler_add (map_prod of_nat of_nat s) ws = map_prod of_nat of_nat (foldl exact_add s ws)"
  by (induction ws arbitrary: s) (simp_all add: adler_add_of_nat)

lemma adler_stream_exact:
  "foldl adler_add (1, 0) ws = map_prod of_nat of_nat (exact_stream ws)"
  using foldl_adler_of_nat [of "(1, 0)" ws] by (simp add: exact_stream_def)

lemma unat_of_nat_u64: "unat (of_nat n :: u64) = n mod 2 ^ 64"
  by (simp add: unsigned_of_nat take_bit_eq_mod)

lemma exact_add_bounds:
  assumes "fst s \<le> 1 + 2 * n * (2 ^ 32 - 1)"
    and "snd s \<le> 2 * n + n * (2 * n + 1) * (2 ^ 32 - 1)"
  shows "fst (exact_add s w) \<le> 1 + 2 * Suc n * (2 ^ 32 - 1)"
    and "snd (exact_add s w) \<le> 2 * Suc n + Suc n * (2 * Suc n + 1) * (2 ^ 32 - 1)"
  using assms unat_u32_less [of "l32_l w"] unat_u32_less [of "l32_h w"]
  by (simp_all add: exact_add_def Let_def algebra_simps)

lemma exact_stream_bounds:
  "fst (exact_stream ws) \<le> 1 + 2 * length ws * (2 ^ 32 - 1) \<and>
   snd (exact_stream ws) \<le> 2 * length ws + length ws * (2 * length ws + 1) * (2 ^ 32 - 1)"
proof (induction ws rule: rev_induct)
  case Nil
  show ?case by (simp add: exact_stream_def)
next
  case (snoc w ws)
  then show ?case
    using exact_add_bounds [of "exact_stream ws" "length ws" w]
    by (simp add: exact_stream_def)
qed

lemma exact_stream_small:
  assumes "length ws \<le> 2 ^ 15"
  shows "fst (exact_stream ws) < 2 ^ 64" "snd (exact_stream ws) < 2 ^ 64"
proof -
  have "length ws * (2 * length ws + 1) \<le> 2 ^ 15 * (2 * 2 ^ 15 + 1)"
    using assms by (intro mult_le_mono) auto
  then show "snd (exact_stream ws) < 2 ^ 64" "fst (exact_stream ws) < 2 ^ 64"
    using exact_stream_bounds [of ws] assms by auto
qed

lemma unat_adler_of_exact:
  "unat (ck_a1 (adler_of ws)) = fst (exact_stream (evens ws)) mod 2 ^ 64"
  "unat (ck_b1 (adler_of ws)) = snd (exact_stream (evens ws)) mod 2 ^ 64"
  "unat (ck_a2 (adler_of ws)) = fst (exact_stream (odds ws)) mod 2 ^ 64"
  "unat (ck_b2 (adler_of ws)) = snd (exact_stream (odds ws)) mod 2 ^ 64"
  by (simp_all only: adler_of_streams adler_stream_exact checksum_of_def AdlerChecksum.simps
      fst_conv snd_conv fst_map_prod snd_map_prod unat_of_nat_u64)

lemma l32_minus_1: "l32_l (- 1) = - 1" "l32_h (- 1) = - 1"
  by (rule bit_eqI, simp add: l32_l_def l32_h_def bit_simps)+

lemma exact_stream_ones:
  "exact_stream (replicate n (- 1)) =
   (1 + 2 * n * (2 ^ 32 - 1), 2 * n + n * (2 * n + 1) * (2 ^ 32 - 1))"
proof (induction n)
  case (Suc n)
  have step: "exact_stream (replicate (Suc n) (- 1)) = exact_add (exact_stream (replicate n (- 1))) (- 1)"
    unfolding exact_stream_def by (subst replicate_Suc, subst replicate_append_same [symmetric]) simp
  have halves: "unat (l32_l (- 1)) = 2 ^ 32 - 1" "unat (l32_h (- 1)) = 2 ^ 32 - 1"
    by (simp_all add: l32_minus_1 unsigned_minus_1_eq_mask mask_eq_exp_minus_1)
  show ?case
    unfolding step Suc exact_add_def halves by (simp add: Let_def algebra_simps)
qed (simp add: exact_stream_def)

lemma evens_replicate: "evens (replicate (2 * n) x) = replicate n x"
  by (induction n) auto

section \<open>Properties\<close>

text \<open>
  Equivalence: on a buffer of a supported size the C copy routines copy the buffer and
  return the checksum that \<open>CalculateAdlerChecksum\<close> computes for the source; the floating
  point work of the warm variant changes nothing but a log line.
\<close>

lemma c_copies_agree:
  assumes "c_fits n" "length src = unat n div 8" "length dst = length src" "src \<noteq> []"
  shows "\<exists>crc. CalculateAdlerChecksum src n = Inr (Some crc) \<and>
           AdlerMemcpyC dst src n = Inr (src, Some crc) \<and>
           (\<exists>printed. AdlerMemcpyWarmC F dst src n = Inr (src, Some crc, printed))"
  using assms AdlerMemcpyWarmC_eq [OF assms]
  by (simp add: CalculateAdlerChecksum_eq AdlerMemcpyC_eq)

text \<open>
  C35. Detection: a buffer in which exactly one 64-bit word differs from the expected data never
  has the expected checksum.
\<close>

theorem checksum_detects_single_word:
  assumes "c_fits n" "length ws = unat n div 8" "i < length ws" "v \<noteq> ws ! i"
    and "CalculateAdlerChecksum ws n = Inr (Some expected)"
    and "CalculateAdlerChecksum (ws[i := v]) n = Inr (Some crc)"
  shows "\<not> adler_equals crc expected"
  using assms adler_of_update_neq [of ws i v] even_words [of n]
  by (auto simp: CalculateAdlerChecksum_eq c_fits_def)

text \<open>
  C36. Bounds: up to the documented limit of \<open>2 ^ 19\<close> bytes no addition of the checksum wraps:
  its four components are the exact sums of the two streams.
\<close>

theorem checksum_exact_up_to_512K:
  assumes "c_fits n" "unat n \<le> 2 ^ 19" "length ws = unat n div 8"
    and "CalculateAdlerChecksum ws n = Inr (Some crc)"
  shows "unat (ck_a1 crc) = fst (exact_stream (evens ws)) \<and>
         unat (ck_b1 crc) = snd (exact_stream (evens ws)) \<and>
         unat (ck_a2 crc) = fst (exact_stream (odds ws)) \<and>
         unat (ck_b2 crc) = snd (exact_stream (odds ws))"
proof -
  have crc: "crc = adler_of ws"
    using assms(4) CalculateAdlerChecksum_eq [OF assms(1,3)] by simp
  have "length (evens ws) \<le> 2 ^ 15" "length (odds ws) \<le> 2 ^ 15"
    using assms(2,3) by (auto simp: length_evens length_odds)
  note small = exact_stream_small [OF this(1)] exact_stream_small [OF this(2)]
  show ?thesis
    unfolding crc unat_adler_of_exact using small by simp
qed

text \<open>
  The size test of the C routines compares the number of 64-bit words, not the number of
  bytes, with \<open>2 ^ 19\<close>: it accepts 4 MiB, where a sum does wrap.
\<close>

theorem size_guard_admits_wraparound:
  "\<exists>ws crc. CalculateAdlerChecksum ws 0x400000 = Inr (Some crc) \<and>
     unat (ck_b1 crc) \<noteq> snd (exact_stream (evens ws))"
proof -
  let ?n = "262144 :: nat"
  let ?ws = "replicate (2 * ?n) (- 1) :: u64 list"
  have "c_fits 0x400000" by (simp add: c_fits_def size_guard_unat)
  then have "CalculateAdlerChecksum ?ws 0x400000 = Inr (Some (adler_of ?ws))"
    by (rule CalculateAdlerChecksum_eq) simp
  moreover have "2 ^ 64 \<le> snd (exact_stream (evens ?ws))"
    unfolding evens_replicate exact_stream_ones by simp
  then have "unat (ck_b1 (adler_of ?ws)) \<noteq> snd (exact_stream (evens ?ws))"
    using unat_u64_less [of "ck_b1 (adler_of ?ws)"] by linarith
  ultimately show ?thesis by blast
qed

section \<open>Concrete instances\<close>

text \<open>Arithmetic on the natural numbers in the place of the floating point operations.\<close>

definition nat_fp :: "nat fp" where
  "nat_fp = \<lparr>fp_of_u64 = unat, fp_const = (\<lambda>n. n), fp_mul = (*), fp_add = (+), fp_eq = (=)\<rparr>"

lemma c_fits_16: "c_fits 16"
  by (simp add: c_fits_def size_guard_unat)

theorem c_copies_agree_witness:
  "\<exists>crc. CalculateAdlerChecksum [1, 2] 16 = Inr (Some crc) \<and>
     AdlerMemcpyC [0, 0] [1, 2] 16 = Inr ([1, 2], Some crc) \<and>
     (\<exists>printed. AdlerMemcpyWarmC nat_fp [0, 0] [1, 2] 16 = Inr ([1, 2], Some crc, printed))"
  using c_copies_agree [of 16 "[1, 2]" "[0, 0]" nat_fp] c_fits_16 by simp

theorem checksum_detects_single_word_witness:
  "CalculateAdlerChecksum [1, 2] 16 = Inr (Some (adler_of [1, 2])) \<and>
   CalculateAdlerChecksum ([1, 2][0 := 5]) 16 = Inr (Some (adler_of [5, 2])) \<and>
   \<not> adler_equals (adler_of [5, 2]) (adler_of [1, 2])"
  using checksum_detects_single_word [of 16 "[1, 2]" 0 5 "adler_of [1, 2]" "adler_of [5, 2]"] c_fits_16
  by (simp add: CalculateAdlerChecksum_eq)

theorem checksum_exact_up_to_512K_witness:
  "unat (ck_a1 (adler_of [1, 2])) = fst (exact_stream (evens [1, 2])) \<and>
   unat (ck_b1 (adler_of [1, 2])) = snd (exact_stream (evens [1, 2])) \<and>
   unat (ck_a2 (adler_of [1, 2])) = fst (exact_stream (odds [1, 2])) \<and>
   unat (ck_b2 (adler_of [1, 2])) = snd (exact_stream (odds [1, 2]))"
  using checksum_exact_up_to_512K [of 16 "[1, 2]" "adler_of [1, 2]"] c_fits_16
  by (simp only: CalculateAdlerChecksum_eq) simp

end
