(* ===== verification/Patterns.thy ===== *)
theory Patterns
  imports Checksum
begin

text \<open>
  Data patterns: \<^verbatim>\<open>src/src/pattern.h\<close> and \<^verbatim>\<open>src/src/pattern.cc\<close>. A \<open>Pattern\<close> maps a
  32-bit word number of a page to the word that belongs there; it is one of the static tables
  read through a bus shift, an inversion and a word offset. A \<open>PatternList\<close> holds the 120
  patterns built from the 15 tables and chooses one for each page. A pointer into the list is the
  index of the element.
\<close>

section \<open>Pattern data\<close>

record PatternData =
  pd_name :: string
  pd_pat :: "u32 list"
  pd_mask :: u32
  pd_weight :: "nat list"

text \<open>The static initialisers: the mask is the number of elements minus one.\<close>

definition pattern_data :: "string \<Rightarrow> u32 list \<Rightarrow> nat list \<Rightarrow> PatternData" where
  "pattern_data nm xs ws =
     \<lparr>pd_name = nm, pd_pat = xs, pd_mask = of_nat (length xs) - 1, pd_weight = ws\<rparr>"

definition walkingOnes :: PatternData where
  "walkingOnes = pattern_data ''walkingOnes''
     [0x00000001, 0x00000002, 0x00000004, 0x00000008, 0x00000010, 0x00000020,
      0x00000040, 0x00000080, 0x00000100, 0x00000200, 0x00000400, 0x00000800,
      0x00001000, 0x00002000, 0x00004000, 0x00008000, 0x00010000, 0x00020000,
      0x00040000, 0x00080000, 0x00100000, 0x00200000, 0x00400000, 0x00800000,
      0x01000000, 0x02000000, 0x04000000, 0x08000000, 0x10000000, 0x20000000,
      0x40000000, 0x80000000, 0x40000000, 0x20000000, 0x10000000, 0x08000000,
      0x04000000, 0x02000000, 0x01000000, 0x00800000, 0x00400000, 0x00200000,
      0x00100000, 0x00080000, 0x00040000, 0x00020000, 0x00010000, 0x00008000,
      0x00004000, 0x00002000, 0x00001000, 0x00000800, 0x00000400, 0x00000200,
      0x00000100, 0x00000080, 0x00000040, 0x00000020, 0x00000010, 0x00000008,
      0x00000004, 0x00000002, 0x00000001, 0x00000000]
     [1, 1, 2, 1]"

definition walkingInvOnes :: PatternData where
  "walkingInvOnes = pattern_data ''walkingInvOnes''
     [0x00000001, 0xfffffffe, 0x00000002, 0xfffffffd, 0x00000004, 0xfffffffb,
      0x00000008, 0xfffffff7, 0x00000010, 0xffffffef, 0x00000020, 0xffffffdf,
      0x00000040, 0xffffffbf, 0x00000080, 0xffffff7f, 0x00000100, 0xfffffeff,
      0x00000200, 0xfffffdff, 0x00000400, 0xfffffbff, 0x00000800, 0xfffff7ff,
      0x00001000, 0xffffefff, 0x00002000, 0xffffdfff, 0x00004000, 0xffffbfff,
      0x00008000, 0xffff7fff, 0x00010000, 0xfffeffff, 0x00020000, 0xfffdffff,
      0x00040000, 0xfffbffff, 0x00080000, 0xfff7ffff, 0x00100000, 0xffefffff,
      0x00200000, 0xffdfffff, 0x00400000, 0xffbfffff, 0x00800000, 0xff7fffff,
      0x01000000, 0xfeffffff, 0x02000000, 0xfdffffff, 0x04000000, 0xfbffffff,
      0x08000000, 0xf7ffffff, 0x10000000, 0xefffffff, 0x20000000, 0xdfffffff,
      0x40000000, 0xbfffffff, 0x80000000, 0x7fffffff, 0x40000000, 0xbfffffff,
      0x20000000, 0xdfffffff, 0x10000000, 0xefffffff, 0x08000000, 0xf7ffffff,
      0x04000000, 0xfbffffff, 0x02000000, 0xfdffffff, 0x01000000, 0xfeffffff,
      0x00800000, 0xff7fffff, 0x00400000, 0xffbfffff, 0x00200000, 0xffdfffff,
      0x00100000, 0xffefffff, 0x00080000, 0xfff7ffff, 0x00040000, 0xfffbffff,
      0x00020000, 0xfffdffff, 0x00010000, 0xfffeffff, 0x00008000, 0xffff7fff,
      0x00004000, 0xffffbfff, 0x00002000, 0xffffdfff, 0x00001000, 0xffffefff,
      0x00000800, 0xfffff7ff, 0x00000400, 0xfffffbff, 0x00000200, 0xfffffdff,
      0x00000100, 0xfffffeff, 0x00000080, 0xffffff7f, 0x00000040, 0xffffffbf,
      0x00000020, 0xffffffdf, 0x00000010, 0xffffffef, 0x00000008, 0xfffffff7,
      0x00000004, 0xfffffffb, 0x00000002, 0xfffffffd, 0x00000001, 0xfffffffe,
      0x00000000, 0xffffffff]
     [2, 2, 5, 5]"

definition walkingZeros :: PatternData where
  "walkingZeros = pattern_data ''walkingZeros''
     [0xfffffffe, 0xfffffffd, 0xfffffffb, 0xfffffff7, 0xffffffef, 0xffffffdf,
      0xffffffbf, 0xffffff7f, 0xfffffeff, 0xfffffdff, 0xfffffbff, 0xfffff7ff,
      0xffffefff, 0xffffdfff, 0xffffbfff, 0xffff7fff, 0xfffeffff, 0xfffdffff,
      0xfffbffff, 0xfff7ffff, 0xffefffff, 0xffdfffff, 0xffbfffff, 0xff7fffff,
      0xfeffffff, 0xfdffffff, 0xfbffffff, 0xf7ffffff, 0xefffffff, 0xdfffffff,
      0xbfffffff, 0x7fffffff, 0xbfffffff, 0xdfffffff, 0xefffffff, 0xf7ffffff,
      0xfbffffff, 0xfdffffff, 0xfeffffff, 0xff7fffff, 0xffbfffff, 0xffdfffff,
      0xffefffff, 0xfff7ffff, 0xfffbffff, 0xfffdffff, 0xfffeffff, 0xffff7fff,
      0xffffbfff, 0xffffdfff, 0xffffefff, 0xfffff7ff, 0xfffffbff, 0xfffffdff,
      0xfffffeff, 0xffffff7f, 0xffffffbf, 0xffffffdf, 0xffffffef, 0xfffffff7,
      0xfffffffb, 0xfffffffd, 0xfffffffe, 0xffffffff]
     [1, 1, 2, 1]"

definition OneZero :: PatternData where
  "OneZero = pattern_data ''OneZero''
     [0x00000000, 0xffffffff]
     [5, 5, 15, 5]"

definition JustZero :: PatternData where
  "JustZero = pattern_data ''JustZero''
     [0x00000000, 0x00000000]
     [2, 0, 0, 0]"

definition JustOne :: PatternData where
  "JustOne = pattern_data ''JustOne''
     [0xffffffff, 0xffffffff]
     [2, 0, 0, 0]"

definition JustFive :: PatternData where
  "JustFive = pattern_data ''JustFive''
     [0x55555555, 0x55555555]
     [2, 0, 0, 0]"

definition JustA :: PatternData where
  "JustA = pattern_data ''JustA''
     [0xaaaaaaaa, 0xaaaaaaaa]
     [2, 0, 0, 0]"

definition FiveA :: PatternData where
  "FiveA = pattern_data ''FiveA''
     [0x55555555, 0xaaaaaaaa]
     [1, 1, 1, 1]"

definition FiveA8 :: PatternData where
  "FiveA8 = pattern_data ''FiveA8''
     [0x5aa5a55a, 0xa55a5aa5, 0xa55a5aa5, 0x5aa5a55a]
     [1, 1, 1, 1]"

definition Long8b10b :: PatternData where
  "Long8b10b = pattern_data ''Long8b10b''
     [0x16161616, 0x16161616]
     [2, 0, 0, 0]"

definition Short8b10b :: PatternData where
  "Short8b10b = pattern_data ''Short8b10b''
     [0xb5b5b5b5, 0xb5b5b5b5]
     [2, 0, 0, 0]"

definition Checker8b10b :: PatternData where
  "Checker8b10b = pattern_data ''Checker8b10b''
     [0xb5b5b5b5, 0x4a4a4a4a]
     [1, 0, 0, 1]"

definition Five7 :: PatternData where
  "Five7 = pattern_data ''Five7''
     [0x55555557, 0x55575555]
     [0, 2, 0, 0]"

definition Zero2fd :: PatternData where
  "Zero2fd = pattern_data ''Zero2fd''
     [0x00020002, 0xfffdfffd]
     [0, 2, 0, 0]"

definition pattern_array :: "PatternData list" where
  "pattern_array =
     [walkingOnes, walkingInvOnes, walkingZeros, OneZero, JustZero, JustOne,
      JustFive, JustA, FiveA, FiveA8, Long8b10b, Short8b10b,
      Checker8b10b, Five7, Zero2fd]"

section \<open>Patterns\<close>

record Pattern =
  pat_data :: PatternData
  busshift :: nat
  word_offset :: u32
  inverse :: bool
  pat_crc :: "AdlerChecksum option"
  pat_name :: string
  pat_weight :: int

definition pattern_index :: "Pattern \<Rightarrow> u32 \<Rightarrow> nat" where
  "pattern_index p offset = unat (drop_bit (busshift p) offset AND pd_mask (pat_data p))"

definition pattern_unshifted :: "Pattern \<Rightarrow> u32 \<Rightarrow> u32" where
  "pattern_unshifted p offset =
     (let data = pd_pat (pat_data p) ! pattern_index p offset
      in if inverse p then NOT data else data)"

definition pattern :: "Pattern \<Rightarrow> u32 \<Rightarrow> u32" where
  "pattern p offset =
     (if word_offset p = 0 then pattern_unshifted p offset
      else let data = pd_pat (pat_data p) ! pattern_index p (offset + word_offset p)
           in if inverse p then NOT data else data)"

definition byte_offset :: "Pattern \<Rightarrow> u32" where
  "byte_offset p = word_offset p * 4"

text \<open>\<open>Pattern::CalculateCrc\<close>: the checksum of the first 4096 bytes, 32 bits at a time.\<close>

definition crc_add :: "stream \<Rightarrow> u32 \<Rightarrow> stream" where
  "crc_add s v = (let a = fst s + ucast v in (a, snd s + a))"

function crc_loop :: "Pattern \<Rightarrow> nat \<Rightarrow> stream \<Rightarrow> stream \<Rightarrow> stream \<times> stream" where
  "crc_loop p i s1 s2 =
     (if i < 4096 div 4 then
        crc_loop p (i + 4)
          (crc_add (crc_add s1 (pattern p (of_nat i))) (pattern p (of_nat (i + 1))))
          (crc_add (crc_add s2 (pattern p (of_nat (i + 2)))) (pattern p (of_nat (i + 3))))
      else (s1, s2))"
  by pat_completeness auto
termination
  by (relation "measure (\<lambda>(p, i, s1, s2). 1024 - i)") auto

declare crc_loop.simps [simp del]

definition CalculateCrc :: "Pattern \<Rightarrow> Pattern" where
  "CalculateCrc p = p\<lparr>pat_crc := Some (checksum_of (crc_loop p 0 (1, 0) (1, 0)))\<rparr>"

definition Pattern_Initialize ::
  "PatternData \<Rightarrow> int \<Rightarrow> bool \<Rightarrow> int \<Rightarrow> u32 \<Rightarrow> bool \<times> Pattern" where
  "Pattern_Initialize pattern_init buswidth invert wt byte_off =
     (let base = pd_name pattern_init @ (if invert then ''~'' else []);
          (result, suffix, shift) =
            (if buswidth = 32 then (True, ''32'', 0)
             else if buswidth = 64 then (True, ''64'', 1)
             else if buswidth = 128 then (True, ''128'', 2)
             else if buswidth = 256 then (True, ''256'', 3)
             else (False, ''Broken'', 2))
      in (result,
          CalculateCrc \<lparr>pat_data = pattern_init, busshift = shift, word_offset = byte_off div 4,
                        inverse = invert, pat_crc = None, pat_name = base @ suffix,
                        pat_weight = wt\<rparr>))"

section \<open>The pattern list\<close>

record PatternList =
  patterns :: "Pattern list"
  weightcount :: int
  pl_size :: nat
  initialized :: bool
  selected_pattern_ids :: "nat list"
  selected_pattern_cursor :: u32
  pattern_byte_offset :: u32

definition PatternList_new :: PatternList where
  "PatternList_new =
     \<lparr>patterns = [], weightcount = 0, pl_size = 0, initialized = False,
      selected_pattern_ids = [], selected_pattern_cursor = 0, pattern_byte_offset = 0\<rparr>"

definition SetByteOffset :: "PatternList \<Rightarrow> u32 \<Rightarrow> PatternList" where
  "SetByteOffset pl off = pl\<lparr>pattern_byte_offset := off\<rparr>"

definition variant :: "u32 \<Rightarrow> PatternData \<Rightarrow> bool \<Rightarrow> nat \<Rightarrow> int \<Rightarrow> Pattern" where
  "variant off d invert k width = snd (Pattern_Initialize d width invert (int (pd_weight d ! k)) off)"

definition variants :: "u32 \<Rightarrow> PatternData \<Rightarrow> Pattern list" where
  "variants off d =
     [variant off d False 0 32, variant off d False 1 64, variant off d False 2 128,
      variant off d False 3 256, variant off d True 0 32, variant off d True 1 64,
      variant off d True 2 128, variant off d True 3 256]"

definition PatternList_Initialize :: "PatternList \<Rightarrow> PatternList" where
  "PatternList_Initialize pl =
     (let ps = concat (map (variants (pattern_byte_offset pl)) pattern_array)
      in pl\<lparr>patterns := ps, pl_size := length ps,
            weightcount := sum_list (map pat_weight ps), initialized := True\<rparr>)"

definition PatternList_Destroy :: "PatternList \<Rightarrow> bool \<times> PatternList" where
  "PatternList_Destroy pl =
     (if \<not> initialized pl then (False, pl)
      else (True, pl\<lparr>patterns := [], selected_pattern_ids := [], selected_pattern_cursor := 0,
                     pl_size := 0, initialized := False\<rparr>))"

definition GetPattern :: "PatternList \<Rightarrow> u32 \<Rightarrow> nat option" where
  "GetPattern pl i = (if unat i < pl_size pl then Some (unat i) else None)"

text \<open>
  The weighted choice: subtract weights from the target until it is used up. The C++ code mixes
  \<open>int\<close> and \<open>unsigned int\<close> here; the values stay far below \<open>2 ^ 31\<close>, so the difference is the
  integer difference.
\<close>

function pick :: "Pattern list \<Rightarrow> nat \<Rightarrow> int \<Rightarrow> nat \<Rightarrow> nat res" where
  "pick ps sz target i =
     res_bind (rd ps i) (\<lambda>p.
       let target' = target - pat_weight p
       in if target' \<le> 0 then Inr i
          else if i + 1 < sz then pick ps sz target' (i + 1)
          else Inr (i + 1))"
  by pat_completeness auto
termination
  by (relation "measure (\<lambda>(ps, sz, target, i). sz - i)") auto

declare pick.simps [simp del]

text \<open>\<open>rnd\<close> is the value \<open>random()\<close> returned, a number in \<open>0 ..< 2 ^ 31\<close>.\<close>

definition GetRandomPattern :: "PatternList \<Rightarrow> nat \<Rightarrow> (nat option \<times> PatternList) res" where
  "GetRandomPattern pl rnd =
     (if selected_pattern_ids pl \<noteq> [] then
        let cursor = selected_pattern_cursor pl;
            ids = selected_pattern_ids pl
        in Inr (Some (ids ! (unat cursor mod length ids)),
                pl\<lparr>selected_pattern_cursor := cursor + 1\<rparr>)
      else if weightcount pl = 0 then Inl DivisionByZero
      else res_bind (pick (patterns pl) (pl_size pl) (int rnd mod weightcount pl + 1) 0)
             (\<lambda>i. Inr (if i < pl_size pl then Some i else None, pl)))"

section \<open>Choosing patterns by name or number\<close>

text \<open>
  \<open>strtol(s, &end, 10)\<close>: blanks, an optional sign, digits; the result is the value, the rest of
  the string from \<open>end\<close>, and whether \<open>errno\<close> is 0. Without digits \<open>end\<close> is the start.
\<close>

definition is_c_space :: "char \<Rightarrow> bool" where
  "is_c_space c \<longleftrightarrow> c = CHR '' '' \<or> of_char c \<in> {9 .. 13 :: nat}"

definition is_digit :: "char \<Rightarrow> bool" where
  "is_digit c \<longleftrightarrow> of_char c \<in> {48 .. 57 :: nat}"

definition digit_value :: "char \<Rightarrow> nat" where
  "digit_value c = of_char c - 48"

definition digits_value :: "string \<Rightarrow> nat" where
  "digits_value ds = foldl (\<lambda>n c. 10 * n + digit_value c) 0 ds"

definition sign_of :: "string \<Rightarrow> bool \<times> string" where
  "sign_of s = (if s \<noteq> [] \<and> hd s = CHR ''-'' then (True, tl s) else if s \<noteq> [] \<and> hd s = CHR ''+'' then (False, tl s) else (False, s))"

definition strtol10 :: "string \<Rightarrow> int \<times> string \<times> bool" where
  "strtol10 s =
     (let t = dropWhile is_c_space s;
          (neg, u) = sign_of t;
          ds = takeWhile is_digit u;
          v = (if neg then - int (digits_value ds) else int (digits_value ds))
      in if ds = [] then (0, s, True)
         else if v > 2 ^ 63 - 1 then (2 ^ 63 - 1, dropWhile is_digit u, False)
         else if v < - (2 ^ 63) then (- (2 ^ 63), dropWhile is_digit u, False)
         else (v, dropWhile is_digit u, True))"

definition c_tolower :: "char \<Rightarrow> char" where
  "c_tolower c = (if of_char c \<in> {65 .. 90 :: nat} then char_of (of_char c + 32 :: nat) else c)"

definition strcaseeq :: "string \<Rightarrow> string \<Rightarrow> bool" where
  "strcaseeq s t \<longleftrightarrow> map c_tolower s = map c_tolower t"

fun find_name :: "string \<Rightarrow> Pattern list \<Rightarrow> nat \<Rightarrow> nat option" where
  "find_name s [] i = None"
| "find_name s (p # ps) i = (if strcaseeq s (pat_name p) then Some i else find_name s ps (i + 1))"

definition is_blank :: "char \<Rightarrow> bool" where
  "is_blank c \<longleftrightarrow> c = CHR '' '' \<or> of_char c = (9 :: nat)"

definition trim :: "string \<Rightarrow> string" where
  "trim s = rev (dropWhile is_blank (rev (dropWhile is_blank s)))"

text \<open>One list item after trimming: \<open>None\<close> is one of the error returns.\<close>

definition select_one :: "PatternList \<Rightarrow> string \<Rightarrow> nat option" where
  "select_one pl sel =
     (if sel = [] then None
      else let (pattern_id, rest, no_error) = strtol10 sel
           in if no_error \<and> rest \<noteq> sel \<and> rest = [] then
                (if pattern_id < 0 \<or> pattern_id > 2 ^ 31 - 1 \<or> nat pattern_id \<ge> pl_size pl
                 then None else Some (nat pattern_id))
              else find_name sel (take (pl_size pl) (patterns pl)) 0)"

function select_all :: "PatternList \<Rightarrow> string \<Rightarrow> nat list \<Rightarrow> nat list option" where
  "select_all pl rest ids =
     (let item = takeWhile (\<lambda>c. c \<noteq> CHR '','') rest
      in case select_one pl (trim item) of
           None \<Rightarrow> None
         | Some i \<Rightarrow>
             (if length item < length rest
              then select_all pl (drop (length item + 1) rest) (ids @ [i])
              else Some (ids @ [i])))"
  by pat_completeness auto
termination
  by (relation "measure (\<lambda>(pl, rest, ids). length rest)") auto

declare select_all.simps [simp del]

definition SetPatternSequence :: "PatternList \<Rightarrow> string \<Rightarrow> bool \<times> PatternList" where
  "SetPatternSequence pl selectors =
     (if \<not> initialized pl \<or> selectors = [] then (False, pl)
      else case select_all pl selectors [] of
             None \<Rightarrow> (False, pl)
           | Some ids \<Rightarrow> (True, pl\<lparr>selected_pattern_ids := ids, selected_pattern_cursor := 0\<rparr>))"

section \<open>Well-formed patterns\<close>

text \<open>
  A table has a power of two of at most 128 elements and the matching mask; a pattern reads it
  with a shift of at most 3 and carries its checksum.
\<close>

definition wf_data :: "PatternData \<Rightarrow> bool" where
  "wf_data d \<longleftrightarrow> (\<exists>k \<in> {0..7}. length (pd_pat d) = 2 ^ k \<and> pd_mask d = mask k)"

definition pattern_word :: "Pattern \<Rightarrow> nat \<Rightarrow> u64" where
  "pattern_word p i = l64_of (pattern p (of_nat (2 * i))) (pattern p (of_nat (2 * i + 1)))"

definition pattern_block :: "Pattern \<Rightarrow> nat \<Rightarrow> u64 list" where
  "pattern_block p n = map (pattern_word p) [0..<n]"

definition wf_pattern :: "Pattern \<Rightarrow> bool" where
  "wf_pattern p \<longleftrightarrow> wf_data (pat_data p) \<and> busshift p \<le> 3 \<and>
     pat_crc p = Some (adler_of (pattern_block p 512))"

lemma length_pattern_block [simp]: "length (pattern_block p n) = n"
  by (simp add: pattern_block_def)

lemma nth_pattern_block [simp]: "i < n \<Longrightarrow> pattern_block p n ! i = pattern_word p i"
  by (simp add: pattern_block_def)

lemma pattern_index_bound:
  assumes "wf_data (pat_data p)"
  shows "pattern_index p off < length (pd_pat (pat_data p))"
proof -
  obtain k where k: "k \<le> 7" "length (pd_pat (pat_data p)) = 2 ^ k" "pd_mask (pat_data p) = mask k"
    using assms by (auto simp: wf_data_def)
  have "unat (take_bit k (drop_bit (busshift p) off)) < 2 ^ k"
    by (simp add: unsigned_take_bit_eq)
  with k show ?thesis by (simp add: pattern_index_def take_bit_eq_mask)
qed

lemma take_bit_add_1024:
  assumes "k \<le> 10"
  shows "take_bit k (x + 1024 :: u32) = take_bit k x"
proof -
  have "(2 :: nat) ^ k dvd 1024" and k32: "(2 :: nat) ^ k dvd 2 ^ 32"
    using assms le_imp_power_dvd [of k 10 "2 :: nat"] le_imp_power_dvd [of k 32 "2 :: nat"] by simp_all
  then obtain c where c: "(1024 :: nat) = 2 ^ k * c" by (auto elim: dvdE)
  have "unat (x + 1024) mod 2 ^ k = (unat x + 1024) mod 2 ^ 32 mod 2 ^ k"
    by (simp add: unat_word_ariths)
  also have "\<dots> = unat x mod 2 ^ k"
    by (simp only: mod_mod_cancel [OF k32] c mod_mult_self2)
  finally show ?thesis
    by (simp only: word_unat_eq_iff unsigned_take_bit_eq take_bit_eq_mod [where 'a = nat])
qed

lemma pattern_index_periodic:
  assumes "wf_data (pat_data p)" "busshift p \<le> 3"
  shows "pattern_index p (off + 1024) = pattern_index p off"
proof -
  obtain k where k: "k \<le> 7" "pd_mask (pat_data p) = mask k"
    using assms(1) by (auto simp: wf_data_def)
  have "take_bit k (drop_bit (busshift p) (off + 1024)) = take_bit k (drop_bit (busshift p) off)"
    using assms(2) k(1) by (simp add: take_bit_drop_bit take_bit_add_1024)
  then show ?thesis using k(2) by (simp add: pattern_index_def take_bit_eq_mask)
qed

lemma pattern_periodic:
  assumes "wf_pattern p"
  shows "pattern p (off + 1024) = pattern p off"
proof -
  have "off + 1024 + word_offset p = off + word_offset p + 1024"
    by (simp only: ac_simps)
  then show ?thesis
    using assms pattern_index_periodic [of p off] pattern_index_periodic [of p "off + word_offset p"]
    by (simp only: wf_pattern_def pattern_def pattern_unshifted_def)
qed

lemma pattern_word_periodic:
  assumes "wf_pattern p"
  shows "pattern_word p (i + 512 * n) = pattern_word p i"
proof (induction n)
  case (Suc n)
  have "pattern_word p (i + 512 * n + 512) = pattern_word p (i + 512 * n)"
    using pattern_periodic [OF assms, of "of_nat (2 * (i + 512 * n))"]
      pattern_periodic [OF assms, of "of_nat (2 * (i + 512 * n) + 1)"]
    by (simp add: pattern_word_def algebra_simps)
  with Suc show ?case by (simp add: algebra_simps)
qed simp

lemma adler_add_crc_add: "adler_add s w = crc_add (crc_add s (l32_l w)) (l32_h w)"
  by (simp add: adler_add_def crc_add_def Let_def)

lemma adler_add_pattern_word:
  "adler_add s (pattern_word p i) =
   crc_add (crc_add s (pattern p (of_nat (2 * i)))) (pattern p (of_nat (2 * i + 1)))"
  by (simp add: adler_add_crc_add pattern_word_def)

lemma crc_loop_eq:
  "j \<le> 256 \<Longrightarrow>
   crc_loop p (4 * j) s1 s2 = adler_fold (map (pattern_word p) [2 * j..<512]) s1 s2"
proof (induction "256 - j" arbitrary: j s1 s2)
  case 0
  then show ?case by (simp add: crc_loop.simps)
next
  case (Suc n)
  then have j: "j < 256" by simp
  then have upt: "[2 * j..<512] = 2 * j # Suc (2 * j) # [2 * Suc j..<512]"
    by (simp add: upt_rec [of "2 * j"] upt_rec [of "Suc (2 * j)"])
  have "crc_loop p (4 * j) s1 s2 = crc_loop p (4 * Suc j)
          (adler_add s1 (pattern_word p (2 * j))) (adler_add s2 (pattern_word p (Suc (2 * j))))"
    using j by (subst crc_loop.simps) (simp add: adler_add_pattern_word algebra_simps)
  also have "\<dots> = adler_fold (map (pattern_word p) [2 * Suc j..<512])
          (adler_add s1 (pattern_word p (2 * j))) (adler_add s2 (pattern_word p (Suc (2 * j))))"
    using Suc j by (intro Suc.hyps) auto
  finally show ?case by (simp add: upt)
qed

lemma CalculateCrc_crc: "pat_crc (CalculateCrc p) = Some (adler_of (pattern_block p 512))"
  using crc_loop_eq [of 0 p "(1, 0)" "(1, 0)"]
  by (simp add: CalculateCrc_def adler_of_def pattern_block_def)

lemma pattern_block_CalculateCrc [simp]: "pattern_block (CalculateCrc p) n = pattern_block p n"
  by (simp add: CalculateCrc_def pattern_block_def pattern_word_def [abs_def] pattern_def
      pattern_unshifted_def pattern_index_def)

lemma wf_Pattern_Initialize:
  "wf_data d \<Longrightarrow> wf_pattern (snd (Pattern_Initialize d width invert w off))"
  by (simp add: Pattern_Initialize_def wf_pattern_def CalculateCrc_crc Let_def split: prod.split)
     (auto simp: CalculateCrc_def split: if_splits)

lemma wf_pattern_data: "length xs = 2 ^ k \<Longrightarrow> k \<le> 7 \<Longrightarrow> wf_data (pattern_data nm xs ws)"
  by (auto simp: wf_data_def pattern_data_def mask_eq_exp_minus_1 intro!: bexI [of _ k])

lemma wf_tables: "d \<in> set pattern_array \<Longrightarrow> wf_data d"
proof -
  have "wf_data walkingOnes" "wf_data walkingZeros"
    unfolding walkingOnes_def walkingZeros_def
    by (rule wf_pattern_data [where k = 6]; simp)+
  moreover have "wf_data walkingInvOnes"
    unfolding walkingInvOnes_def by (rule wf_pattern_data [where k = 7]; simp)
  moreover have "wf_data FiveA8"
    unfolding FiveA8_def by (rule wf_pattern_data [where k = 2]; simp)
  moreover have "wf_data OneZero" "wf_data JustZero" "wf_data JustOne" "wf_data JustFive"
      "wf_data JustA" "wf_data FiveA" "wf_data Long8b10b" "wf_data Short8b10b"
      "wf_data Checker8b10b" "wf_data Five7" "wf_data Zero2fd"
    unfolding OneZero_def JustZero_def JustOne_def JustFive_def JustA_def FiveA_def
      Long8b10b_def Short8b10b_def Checker8b10b_def Five7_def Zero2fd_def
    by (rule wf_pattern_data [where k = 1]; simp)+
  ultimately show "d \<in> set pattern_array \<Longrightarrow> wf_data d"
    by (auto simp: pattern_array_def)
qed

lemma set_variants: "p \<in> set (variants off d) \<Longrightarrow>
   \<exists>width invert w. p = snd (Pattern_Initialize d width invert w off)"
  by (auto simp: variants_def variant_def)

lemma wf_PatternList_Initialize:
  "p \<in> set (patterns (PatternList_Initialize pl)) \<Longrightarrow> wf_pattern p"
  using wf_tables by (auto simp: PatternList_Initialize_def Let_def dest!: set_variants
      intro: wf_Pattern_Initialize)

section \<open>The weighted choice\<close>

definition weight_before :: "Pattern list \<Rightarrow> nat \<Rightarrow> int" where
  "weight_before ps j = sum_list (map pat_weight (take j ps))"

lemma weight_before_Suc:
  "j < length ps \<Longrightarrow> weight_before ps (Suc j) = weight_before ps j + pat_weight (ps ! j)"
  by (simp add: weight_before_def take_Suc_conv_app_nth)

lemma pick_interval:
  "\<lbrakk>i < length ps; 0 < t; t \<le> weight_before ps (length ps) - weight_before ps i\<rbrakk> \<Longrightarrow>
   \<exists>j. pick ps (length ps) t i = Inr j \<and> j < length ps \<and>
       weight_before ps j - weight_before ps i < t \<and>
       t \<le> weight_before ps (Suc j) - weight_before ps i"
proof (induction "length ps - i" arbitrary: i t)
  case (Suc n)
  let ?t' = "t - pat_weight (ps ! i)"
  note unfold = pick.simps [of ps "length ps" t i]
  show ?case
  proof (cases "?t' \<le> 0")
    case True
    with Suc.prems show ?thesis
      by (auto simp: unfold weight_before_Suc intro!: exI [of _ i])
  next
    case False
    have n: "n = length ps - Suc i" using Suc.hyps(2) by simp
    have "weight_before ps (Suc i) = weight_before ps i + pat_weight (ps ! i)"
      using Suc.prems by (simp add: weight_before_Suc)
    moreover from this have "Suc i < length ps"
      using False Suc.prems by (metis Suc_lessI diff_le_0_iff_le le_diff_eq add.commute add_diff_cancel_left')
    moreover obtain j where "pick ps (length ps) ?t' (Suc i) = Inr j" "j < length ps"
        "weight_before ps j - weight_before ps (Suc i) < ?t'"
        "?t' \<le> weight_before ps (Suc j) - weight_before ps (Suc i)"
      using Suc.hyps(1) [of "Suc i" ?t', OF n] Suc.prems False calculation by auto
    ultimately show ?thesis
      using False Suc.prems by (auto simp: unfold Let_def)
  qed
qed simp

lemma PatternList_Initialize_simps [simp]:
  "pl_size (PatternList_Initialize pl) = length (patterns (PatternList_Initialize pl))"
  "weightcount (PatternList_Initialize pl) =
     weight_before (patterns (PatternList_Initialize pl)) (length (patterns (PatternList_Initialize pl)))"
  "initialized (PatternList_Initialize pl)"
  by (simp_all add: PatternList_Initialize_def Let_def weight_before_def)

lemma length_patterns_Initialize [simp]: "length (patterns (PatternList_Initialize pl)) = 120"
  by (simp add: PatternList_Initialize_def Let_def pattern_array_def variants_def)

lemma pat_weight_variant [simp]: "pat_weight (variant off d invert k width) = int (pd_weight d ! k)"
  by (auto simp: variant_def Pattern_Initialize_def CalculateCrc_def Let_def split: prod.split)

lemma weightcount_Initialize: "weightcount (PatternList_Initialize pl) = 160"
  by (simp add: PatternList_Initialize_def Let_def pattern_array_def variants_def
      walkingOnes_def walkingInvOnes_def walkingZeros_def OneZero_def JustZero_def JustOne_def
      JustFive_def JustA_def FiveA_def FiveA8_def Long8b10b_def Short8b10b_def Checker8b10b_def
      Five7_def Zero2fd_def pattern_data_def)

section \<open>The selected sequence\<close>

lemma find_name_bound: "find_name s ps i = Some j \<Longrightarrow> i \<le> j \<and> j < i + length ps"
  by (induction ps arbitrary: i) (fastforce split: if_splits)+

lemma select_one_bound:
  "select_one pl sel = Some i \<Longrightarrow> i < pl_size pl"
  by (auto simp: select_one_def Let_def split: if_splits prod.splits dest!: find_name_bound)

lemma select_all_bound:
  "\<lbrakk>select_all pl rest ids = Some out; \<forall>i \<in> set ids. i < pl_size pl\<rbrakk> \<Longrightarrow>
   out \<noteq> [] \<and> (\<forall>i \<in> set out. i < pl_size pl)"
proof (induction pl rest ids rule: select_all.induct)
  case (1 pl rest ids)
  from 1(2) show ?case
    using 1(1,3)
    by (subst (asm) select_all.simps)
       (fastforce simp: Let_def dest: select_one_bound split: option.splits if_splits)
qed

text \<open>The sequence of patterns the callers receive from \<open>n\<close> consecutive calls.\<close>

fun pattern_calls :: "PatternList \<Rightarrow> nat list \<Rightarrow> (nat option list \<times> PatternList) res" where
  "pattern_calls pl [] = Inr ([], pl)"
| "pattern_calls pl (r # rs) =
     res_bind (GetRandomPattern pl r) (\<lambda>(p, pl').
     res_bind (pattern_calls pl' rs) (\<lambda>(ps, pl''). Inr (p # ps, pl'')))"

lemma pattern_calls_selected:
  "\<lbrakk>selected_pattern_ids pl = ids; ids \<noteq> []; unat (selected_pattern_cursor pl) = c;
    c + length rs < 2 ^ 32\<rbrakk> \<Longrightarrow>
   \<exists>pl'. pattern_calls pl rs =
     Inr (map (\<lambda>k. Some (ids ! (k mod length ids))) [c..<c + length rs], pl')"
proof (induction rs arbitrary: pl c)
  case (Cons r rs)
  let ?pl = "pl\<lparr>selected_pattern_cursor := selected_pattern_cursor pl + 1\<rparr>"
  have "unat (selected_pattern_cursor pl + 1) = Suc c"
    using Cons.prems by (simp add: unat_word_ariths)
  with Cons.prems Cons.IH [of ?pl "Suc c"]
  obtain pl' where "pattern_calls ?pl rs =
      Inr (map (\<lambda>k. Some (ids ! (k mod length ids))) [Suc c..<Suc c + length rs], pl')"
    by auto
  with Cons.prems show ?case
    by (simp add: GetRandomPattern_def Let_def upt_conv_Cons [symmetric])
       (simp add: upt_rec [of c] Suc_le_eq)
qed simp

section \<open>Properties\<close>

text \<open>
  Round trip: the checksum stored in every pattern of an initialised list is the one
  \<open>CalculateAdlerChecksum\<close> computes for a 4096-byte block that holds the pattern.
\<close>

lemma pattern_crc_matches_block:
  assumes "p \<in> set (patterns (PatternList_Initialize pl))"
  shows "\<exists>crc. pat_crc p = Some crc \<and>
     CalculateAdlerChecksum (pattern_block p 512) 4096 = Inr (Some crc)"
proof -
  have "c_fits 4096" by (simp add: c_fits_def size_guard_unat)
  then show ?thesis
    using wf_PatternList_Initialize [OF assms]
    by (simp add: wf_pattern_def CalculateAdlerChecksum_eq)
qed

text \<open>
  Every pattern of an initialised list repeats after 1024 words of 32 bits (4096 bytes),
  for every byte offset, and every table access is inside the table: checking a 4 KiB block with
  offset 0 is checking it at its place in the page.
\<close>

lemma pattern_period_4096:
  assumes "p \<in> set (patterns (PatternList_Initialize pl))"
  shows "pattern p (off + 1024) = pattern p off \<and>
         pattern_index p off < length (pd_pat (pat_data p))"
  using wf_PatternList_Initialize [OF assms]
  by (simp add: pattern_periodic pattern_index_bound wf_pattern_def)

text \<open>
  Without a selected sequence, \<open>GetRandomPattern\<close> always returns a pattern of the list, and
  pattern \<open>j\<close> is returned for exactly \<open>pat_weight\<close> residues of the random number: those in the
  interval of length \<open>pat_weight\<close> that starts at the sum of the weights before it.
\<close>

lemma GetRandomPattern_weighted:
  assumes "pl = PatternList_Initialize pl0" "selected_pattern_ids pl = []"
  shows "\<exists>j. GetRandomPattern pl rnd = Inr (Some j, pl) \<and> j < 120 \<and>
     weight_before (patterns pl) j \<le> int rnd mod weightcount pl \<and>
     int rnd mod weightcount pl < weight_before (patterns pl) j + pat_weight (patterns pl ! j)"
proof -
  let ?ps = "patterns pl" and ?t = "int rnd mod weightcount pl + 1"
  have len: "length ?ps = 120" and W: "weightcount pl = 160" and size: "pl_size pl = 120"
    and Wb: "weight_before ?ps 120 = 160"
    using assms(1) weightcount_Initialize [of pl0] by auto
  have "0 < ?t" "?t \<le> weight_before ?ps (length ?ps) - weight_before ?ps 0"
    using len W Wb pos_mod_bound [of 160 "int rnd"] pos_mod_sign [of 160 "int rnd"]
    by (auto simp: weight_before_def)
  then obtain j where "pick ?ps 120 ?t 0 = Inr j" "j < 120"
      "weight_before ?ps j < ?t" "?t \<le> weight_before ?ps (Suc j)"
    using pick_interval [of 0 ?ps ?t] len by (auto simp: weight_before_def)
  with assms(2) len W size show ?thesis
    by (auto simp: GetRandomPattern_def weight_before_Suc)
qed

text \<open>
  A successful \<open>-P\<close> list is a non-empty list of valid pattern numbers, and the following
  calls (up to \<open>2 ^ 32\<close>, where the cursor wraps) return its members in order, cyclically; a
  rejected list changes nothing.
\<close>

lemma SetPatternSequence_cycles:
  "(case SetPatternSequence pl selectors of
      (False, pl') \<Rightarrow> pl' = pl
    | (True, pl') \<Rightarrow>
        (let ids = selected_pattern_ids pl'
         in ids \<noteq> [] \<and> list_all (\<lambda>i. i < pl_size pl') ids \<and>
            (length rs < 2 ^ 32 \<longrightarrow>
              (\<exists>pl''. pattern_calls pl' rs =
                 Inr (map (\<lambda>k. Some (ids ! (k mod length ids))) [0..<length rs], pl'')))))"
proof (cases "select_all pl selectors []")
  case (Some ids)
  have "ids \<noteq> []" "\<forall>i \<in> set ids. i < pl_size pl"
    using select_all_bound [OF Some] by auto
  moreover have "\<exists>pl''. pattern_calls (pl\<lparr>selected_pattern_ids := ids, selected_pattern_cursor := 0\<rparr>) rs =
       Inr (map (\<lambda>k. Some (ids ! (k mod length ids))) [0..<length rs], pl'')"
    if "length rs < 2 ^ 32"
    using pattern_calls_selected [of "pl\<lparr>selected_pattern_ids := ids, selected_pattern_cursor := 0\<rparr>"
        ids 0 rs] \<open>ids \<noteq> []\<close> that by simp
  ultimately show ?thesis
    using Some by (simp add: SetPatternSequence_def Let_def list_all_iff)
qed (simp add: SetPatternSequence_def)

section \<open>Concrete instances\<close>

text \<open>The first pattern of the list with no byte offset, \<open>walkingOnes32\<close>.\<close>

lemma first_pattern:
  "variant 0 walkingOnes False 0 32 \<in> set (patterns (PatternList_Initialize PatternList_new))"
  by (simp add: PatternList_Initialize_def PatternList_new_def pattern_array_def variants_def Let_def)

theorem pattern_period_4096_witness:
  "pattern (variant 0 walkingOnes False 0 32) (5 + 1024) = pattern (variant 0 walkingOnes False 0 32) 5 \<and>
   pattern_index (variant 0 walkingOnes False 0 32) 5 <
     length (pd_pat (pat_data (variant 0 walkingOnes False 0 32)))"
  using pattern_period_4096 [OF first_pattern, of 5] .

theorem GetRandomPattern_weighted_witness:
  "\<exists>j. GetRandomPattern (PatternList_Initialize PatternList_new) 1000 =
         Inr (Some j, PatternList_Initialize PatternList_new) \<and> j < 120"
proof -
  have "selected_pattern_ids (PatternList_Initialize PatternList_new) = []"
    by (simp add: PatternList_Initialize_def PatternList_new_def Let_def)
  from GetRandomPattern_weighted [OF refl this, of 1000] show ?thesis by blast
qed

theorem SetPatternSequence_cycles_witness:
  "case SetPatternSequence (PatternList_Initialize PatternList_new) ''0,8'' of
     (ok, pl) \<Rightarrow> ok \<and> selected_pattern_ids pl = [0, 8] \<and>
       (\<exists>pl'. pattern_calls pl [0, 0, 0] = Inr ([Some 0, Some 8, Some 0], pl'))"
proof -
  let ?pl = "PatternList_Initialize PatternList_new"
  have num: "strtol10 ''0'' = (0, [], True)" "strtol10 ''8'' = (8, [], True)" "trim ''0'' = ''0''" "trim ''8'' = ''8''"
    by code_simp+
  have "select_one ?pl ''0'' = Some 0" "select_one ?pl ''8'' = Some 8"
    by (simp_all add: select_one_def num)
  then have sel: "select_all ?pl ''0,8'' [] = Some [0, 8]"
    by (simp add: select_all.simps num)
  have "initialized ?pl" by simp
  with sel show ?thesis
    using SetPatternSequence_cycles [where pl = ?pl and selectors = "''0,8''" and rs = "[0, 0, 0]"]
    by (simp add: SetPatternSequence_def Let_def upt_rec)
qed

end
