(* ===== verification/Diagnostics.thy ===== *)
theory Diagnostics
  imports SatPrelude "HOL-Library.Multiset"
begin

text \<open>
  The optional statistics per test phase: \<open>DiagnosticPhase\<close> and \<open>DiagnosticPhaseStats\<close> of
  \<^verbatim>\<open>src/src/worker.h\<close>, the counters a worker keeps (\<^verbatim>\<open>src/src/worker.cc\<close>), their merge into the
  totals when the worker ends and the last-writer history of the pages (\<^verbatim>\<open>src/src/sat.cc\<close>).
\<close>

section \<open>Phases\<close>

datatype DiagnosticPhase =
    DIAG_PHASE_PRESET_FILL | DIAG_PHASE_INITIAL_FILL | DIAG_PHASE_FILL_IMMEDIATE_CHECK
  | DIAG_PHASE_POST_FILL_CHECK | DIAG_PHASE_COPY_TRANSFER | DIAG_PHASE_COPY_DESTINATION_CHECK
  | DIAG_PHASE_INVERT_PRECHECK | DIAG_PHASE_INVERT_RMW | DIAG_PHASE_INVERT_POSTCHECK
  | DIAG_PHASE_RUNTIME_CHECK | DIAG_PHASE_FINAL_CHECK | DIAG_PHASE_COUNT

fun phase_slot :: "DiagnosticPhase \<Rightarrow> nat" where
  "phase_slot DIAG_PHASE_PRESET_FILL = 0"
| "phase_slot DIAG_PHASE_INITIAL_FILL = 1"
| "phase_slot DIAG_PHASE_FILL_IMMEDIATE_CHECK = 2"
| "phase_slot DIAG_PHASE_POST_FILL_CHECK = 3"
| "phase_slot DIAG_PHASE_COPY_TRANSFER = 4"
| "phase_slot DIAG_PHASE_COPY_DESTINATION_CHECK = 5"
| "phase_slot DIAG_PHASE_INVERT_PRECHECK = 6"
| "phase_slot DIAG_PHASE_INVERT_RMW = 7"
| "phase_slot DIAG_PHASE_INVERT_POSTCHECK = 8"
| "phase_slot DIAG_PHASE_RUNTIME_CHECK = 9"
| "phase_slot DIAG_PHASE_FINAL_CHECK = 10"
| "phase_slot DIAG_PHASE_COUNT = 11"

definition DiagnosticPhaseName :: "DiagnosticPhase \<Rightarrow> string" where
  "DiagnosticPhaseName phase =
     (case phase of
        DIAG_PHASE_PRESET_FILL \<Rightarrow> ''preset_fill''
      | DIAG_PHASE_INITIAL_FILL \<Rightarrow> ''initial_fill''
      | DIAG_PHASE_FILL_IMMEDIATE_CHECK \<Rightarrow> ''fill/immediate_check''
      | DIAG_PHASE_POST_FILL_CHECK \<Rightarrow> ''post_fill/full_check''
      | DIAG_PHASE_COPY_TRANSFER \<Rightarrow> ''copy/transfer''
      | DIAG_PHASE_COPY_DESTINATION_CHECK \<Rightarrow> ''copy/destination_check''
      | DIAG_PHASE_INVERT_PRECHECK \<Rightarrow> ''invert/precheck''
      | DIAG_PHASE_INVERT_RMW \<Rightarrow> ''invert/rmw''
      | DIAG_PHASE_INVERT_POSTCHECK \<Rightarrow> ''invert/postcheck''
      | DIAG_PHASE_RUNTIME_CHECK \<Rightarrow> ''check/runtime_check''
      | DIAG_PHASE_FINAL_CHECK \<Rightarrow> ''check/final_check''
      | DIAG_PHASE_COUNT \<Rightarrow> ''unknown'')"

definition GetDiagnosticPhase :: "string \<Rightarrow> string \<Rightarrow> DiagnosticPhase" where
  "GetDiagnosticPhase worker_name phase =
     (if worker_name = ''fill'' \<and> phase = ''immediate_check'' then DIAG_PHASE_FILL_IMMEDIATE_CHECK
      else if worker_name = ''post_fill'' \<and> phase = ''full_check'' then DIAG_PHASE_POST_FILL_CHECK
      else if worker_name = ''copy'' \<and> phase = ''source_check'' then DIAG_PHASE_COPY_TRANSFER
      else if worker_name = ''copy'' \<and> phase = ''destination_check'' then DIAG_PHASE_COPY_DESTINATION_CHECK
      else if worker_name = ''invert'' \<and> phase = ''precheck'' then DIAG_PHASE_INVERT_PRECHECK
      else if worker_name = ''invert'' \<and> phase = ''postcheck'' then DIAG_PHASE_INVERT_POSTCHECK
      else if worker_name = ''check'' \<and> phase = ''runtime_check'' then DIAG_PHASE_RUNTIME_CHECK
      else if worker_name = ''check'' \<and> phase = ''final_check'' then DIAG_PHASE_FINAL_CHECK
      else DIAG_PHASE_COUNT)"

section \<open>The counters of a worker\<close>

record DiagnosticPhaseStats =
  ds_blocks :: u64
  ds_read_bytes :: u64
  ds_write_bytes :: u64
  ds_checksum_mismatch_regions :: u64
  ds_word_mismatches :: u64
  ds_first_error_us :: int
  ds_first_error_epoch :: u64
  ds_first_error_worker_bytes :: u64

text \<open>
  A null statistics pointer is \<open>None\<close>. \<open>now\<close> and \<open>epoch\<close> are the elapsed time and the frequency
  epoch at the time of the call.
\<close>

type_synonym diag = "DiagnosticPhaseStats list option"

definition update_slot ::
    "DiagnosticPhase \<Rightarrow> (DiagnosticPhaseStats \<Rightarrow> DiagnosticPhaseStats) \<Rightarrow> diag \<Rightarrow> diag" where
  "update_slot phase f d =
     (case d of
        None \<Rightarrow> None
      | Some stats \<Rightarrow>
          if phase_slot DIAG_PHASE_COUNT \<le> phase_slot phase then Some stats
          else Some (stats[phase_slot phase := f (stats ! phase_slot phase)]))"

definition mark_first_error :: "int \<Rightarrow> u64 \<Rightarrow> DiagnosticPhaseStats \<Rightarrow> DiagnosticPhaseStats" where
  "mark_first_error now epoch s =
     (if 0 \<le> ds_first_error_us s then s
      else s\<lparr>ds_first_error_us := now, ds_first_error_epoch := epoch,
             ds_first_error_worker_bytes := ds_read_bytes s + ds_write_bytes s\<rparr>)"

definition RecordDiagnosticOperation ::
    "int \<Rightarrow> u64 \<Rightarrow> DiagnosticPhase \<Rightarrow> u64 \<Rightarrow> u64 \<Rightarrow> int \<Rightarrow> diag \<Rightarrow> diag" where
  "RecordDiagnosticOperation now epoch phase rbytes wbytes errors =
     update_slot phase (\<lambda>s.
       let s1 = (if errors > 0 \<and> ds_first_error_us s < 0 then mark_first_error now epoch s else s);
           s2 = s1\<lparr>ds_blocks := ds_blocks s1 + 1, ds_read_bytes := ds_read_bytes s1 + rbytes,
                   ds_write_bytes := ds_write_bytes s1 + wbytes\<rparr>
       in if errors > 0 then s2\<lparr>ds_word_mismatches := ds_word_mismatches s2 + of_int errors\<rparr> else s2)"

definition RecordDiagnosticChecksumMismatch :: "DiagnosticPhase \<Rightarrow> diag \<Rightarrow> diag" where
  "RecordDiagnosticChecksumMismatch phase =
     update_slot phase (\<lambda>s. s\<lparr>ds_checksum_mismatch_regions := ds_checksum_mismatch_regions s + 1\<rparr>)"

definition RecordDiagnosticFirstError :: "int \<Rightarrow> u64 \<Rightarrow> DiagnosticPhase \<Rightarrow> diag \<Rightarrow> diag" where
  "RecordDiagnosticFirstError now epoch phase = update_slot phase (mark_first_error now epoch)"

section \<open>Merging into the totals\<close>

definition merge_stats :: "DiagnosticPhaseStats \<Rightarrow> DiagnosticPhaseStats \<Rightarrow> DiagnosticPhaseStats" where
  "merge_stats tot s =
     (let t = tot\<lparr>ds_blocks := ds_blocks tot + ds_blocks s,
                    ds_read_bytes := ds_read_bytes tot + ds_read_bytes s,
                    ds_write_bytes := ds_write_bytes tot + ds_write_bytes s,
                    ds_checksum_mismatch_regions :=
                      ds_checksum_mismatch_regions tot + ds_checksum_mismatch_regions s,
                    ds_word_mismatches := ds_word_mismatches tot + ds_word_mismatches s\<rparr>
      in if 0 \<le> ds_first_error_us s \<and>
            (ds_first_error_us t < 0 \<or> ds_first_error_us s < ds_first_error_us t)
         then t\<lparr>ds_first_error_us := ds_first_error_us s,
                ds_first_error_epoch := ds_first_error_epoch s,
                ds_first_error_worker_bytes := ds_first_error_worker_bytes s\<rparr>
         else t)"

definition MergeDiagnosticPhaseStats ::
    "bool \<Rightarrow> diag \<Rightarrow> nat \<Rightarrow> DiagnosticPhaseStats list \<Rightarrow> DiagnosticPhaseStats list" where
  "MergeDiagnosticPhaseStats diag_phase_summary stats cnt totals =
     (case stats of
        None \<Rightarrow> totals
      | Some ss \<Rightarrow>
          if \<not> diag_phase_summary then totals
          else let limit = min cnt (phase_slot DIAG_PHASE_COUNT)
               in map (\<lambda>i. if i < limit then merge_stats (totals ! i) (ss ! i) else totals ! i)
                    [0..<length totals])"

section \<open>Last-writer history\<close>

datatype BlockWriter =
    BLOCK_WRITER_UNKNOWN | BLOCK_WRITER_PRESET | BLOCK_WRITER_INITIAL_FILL | BLOCK_WRITER_COPY
  | BLOCK_WRITER_INVERT | BLOCK_WRITER_REPAIR | BLOCK_WRITER_FILE | BLOCK_WRITER_NETWORK

record BlockHistory =
  bh_generation :: u64
  bh_write_complete_us :: int
  bh_frequency_epoch_begin :: u64
  bh_frequency_epoch_end :: u64
  bh_writer_thread :: int
  bh_writer_cpu :: int
  bh_writer :: BlockWriter

definition RecordBlockWrite ::
    "bool \<Rightarrow> int \<Rightarrow> int \<Rightarrow> u64 \<Rightarrow> BlockWriter \<Rightarrow> int \<Rightarrow> int \<Rightarrow> u64 \<Rightarrow> u64 \<Rightarrow>
     BlockHistory list option \<Rightarrow> BlockHistory list option" where
  "RecordBlockWrite diag_block_history page_length now page_offset writer writer_thread writer_cpu
     epoch_begin epoch_end history =
     (case history of
        None \<Rightarrow> None
      | Some hs \<Rightarrow>
          if \<not> diag_block_history \<or> page_length \<le> 0 then Some hs
          else let block = unat (page_offset div of_int page_length)
               in if length hs \<le> block then Some hs
                  else Some (hs[block := (hs ! block)
                         \<lparr>bh_generation := bh_generation (hs ! block) + 1, bh_write_complete_us := now,
                          bh_frequency_epoch_begin := epoch_begin, bh_frequency_epoch_end := epoch_end,
                          bh_writer_thread := writer_thread, bh_writer_cpu := writer_cpu,
                          bh_writer := writer\<rparr>]))"

definition writer_name :: "BlockWriter \<Rightarrow> string" where
  "writer_name w =
     (case w of
        BLOCK_WRITER_PRESET \<Rightarrow> ''preset''
      | BLOCK_WRITER_INITIAL_FILL \<Rightarrow> ''initial_fill''
      | BLOCK_WRITER_COPY \<Rightarrow> ''copy''
      | BLOCK_WRITER_INVERT \<Rightarrow> ''invert''
      | BLOCK_WRITER_REPAIR \<Rightarrow> ''repair''
      | BLOCK_WRITER_FILE \<Rightarrow> ''file''
      | BLOCK_WRITER_NETWORK \<Rightarrow> ''network''
      | BLOCK_WRITER_UNKNOWN \<Rightarrow> ''unknown'')"

text \<open>The fields of \<open>FormatBlockHistory\<close>: writer, generation, thread, cpu, age, epochs, and whether they differ.\<close>

definition FormatBlockHistory ::
    "bool \<Rightarrow> int \<Rightarrow> int \<Rightarrow> u64 \<Rightarrow> BlockHistory list option \<Rightarrow>
     (string \<times> u64 \<times> int \<times> int \<times> int \<times> u64 \<times> u64 \<times> string) option" where
  "FormatBlockHistory diag_block_history page_length now page_offset history =
     (case history of
        None \<Rightarrow> None
      | Some hs \<Rightarrow>
          if \<not> diag_block_history \<or> page_length \<le> 0 then None
          else let block = unat (page_offset div of_int page_length)
               in if length hs \<le> block then None
                  else let h = hs ! block
                       in Some (writer_name (bh_writer h), bh_generation h, bh_writer_thread h,
                                bh_writer_cpu h,
                                (if 0 \<le> bh_write_complete_us h then now - bh_write_complete_us h else - 1),
                                bh_frequency_epoch_begin h, bh_frequency_epoch_end h,
                                (if bh_frequency_epoch_begin h = bh_frequency_epoch_end h
                                 then ''single'' else ''mixed'')))"

section \<open>Properties\<close>

text \<open>The earliest of two error times, a negative time standing for none.\<close>

definition earlier :: "int \<Rightarrow> int \<Rightarrow> int" where
  "earlier x y = (if 0 \<le> y \<and> (x < 0 \<or> y < x) then y else x)"

lemma earlier_simps: "x < 0 \<Longrightarrow> y < 0 \<Longrightarrow> earlier x y = x" "0 \<le> x \<Longrightarrow> 0 \<le> y \<Longrightarrow> earlier x y = min x y"
  by (auto simp: earlier_def)

lemma merge_stats_fields [simp]:
  "ds_blocks (merge_stats t s) = ds_blocks t + ds_blocks s"
  "ds_read_bytes (merge_stats t s) = ds_read_bytes t + ds_read_bytes s"
  "ds_write_bytes (merge_stats t s) = ds_write_bytes t + ds_write_bytes s"
  "ds_checksum_mismatch_regions (merge_stats t s) =
     ds_checksum_mismatch_regions t + ds_checksum_mismatch_regions s"
  "ds_word_mismatches (merge_stats t s) = ds_word_mismatches t + ds_word_mismatches s"
  "ds_first_error_us (merge_stats t s) = earlier (ds_first_error_us t) (ds_first_error_us s)"
  by (auto simp: merge_stats_def Let_def earlier_def)

text \<open>The totals of one phase after the workers with statistics \<open>ss\<close> have ended in this order.\<close>

definition merge_all :: "DiagnosticPhaseStats list \<Rightarrow> DiagnosticPhaseStats \<Rightarrow> DiagnosticPhaseStats" where
  "merge_all ss t = foldl merge_stats t ss"

lemma fold_merge_fields:
  "ds_blocks (merge_all ss t) = ds_blocks t + sum_list (map ds_blocks ss)"
  "ds_word_mismatches (merge_all ss t) =
     ds_word_mismatches t + sum_list (map ds_word_mismatches ss)"
  "ds_checksum_mismatch_regions (merge_all ss t) =
     ds_checksum_mismatch_regions t + sum_list (map ds_checksum_mismatch_regions ss)"
  unfolding merge_all_def by (induction ss arbitrary: t) (simp_all add: algebra_simps)

lemma fold_merge_first:
  assumes "ds_first_error_us t < 0"
  defines "errs \<equiv> \<lambda>ss. {e \<in> ds_first_error_us ` set ss. 0 \<le> e}"
  shows "if errs ss = {} then ds_first_error_us (merge_all ss t) < 0
         else ds_first_error_us (merge_all ss t) = Min (errs ss)"
proof (induction ss rule: rev_induct)
  case Nil
  then show ?case using assms by (simp add: errs_def merge_all_def)
next
  case (snoc s ss)
  let ?e = "ds_first_error_us s"
  have errs: "errs (ss @ [s]) = (if 0 \<le> ?e then insert ?e (errs ss) else errs ss)"
    by (auto simp: errs_def)
  have fin: "finite (errs ss)" and pos: "errs ss \<noteq> {} \<Longrightarrow> 0 \<le> Min (errs ss)"
    by (auto simp: errs_def)
  have step: "ds_first_error_us (merge_all (ss @ [s]) t) = earlier (ds_first_error_us (merge_all ss t)) ?e"
    by (simp add: merge_all_def)
  show ?case
  proof (cases "errs ss = {}")
    case True
    then show ?thesis using snoc by (auto simp: errs step earlier_def)
  next
    case False
    define m where "m = Min (errs ss)"
    have "ds_first_error_us (merge_all ss t) = m" "0 \<le> m"
      using snoc False pos by (auto simp: m_def)
    moreover have "Min (insert ?e (errs ss)) = min ?e m"
      using False fin by (simp add: m_def)
    ultimately show ?thesis
      using False by (auto simp: errs step earlier_def m_def [symmetric])
  qed
qed

text \<open>
  The phase statistics do not depend on the order in which workers end: merging the statistics of any
  number of workers into empty totals gives, whatever their order, the same numbers of blocks, mismatching
  words and mismatching regions (the 64-bit sums of the workers'), and the time of the earliest first
  error, or no time exactly if no worker saw an error.
\<close>

lemma merge_order_independent:
  assumes "mset ss = mset ss'" "ds_first_error_us t < 0"
  shows "ds_blocks (merge_all ss t) = ds_blocks (merge_all ss' t) \<and>
    ds_word_mismatches (merge_all ss t) =
      ds_word_mismatches t + sum_list (map ds_word_mismatches ss) \<and>
    ds_word_mismatches (merge_all ss t) =
      ds_word_mismatches (merge_all ss' t) \<and>
    (let first = ds_first_error_us (merge_all ss t);
         errors = {e \<in> ds_first_error_us ` set ss'. 0 \<le> e}
     in if errors = {} then first < 0 else first = Min errors)"
proof -
  have sums: "sum_list (map f ss) = sum_list (map f ss')" for f :: "DiagnosticPhaseStats \<Rightarrow> u64"
    using assms(1) by (metis mset_map sum_mset_sum_list)
  have "set ss = set ss'" using assms(1) by (rule mset_eq_setD)
  then show ?thesis
    using sums fold_merge_first [OF assms(2), of ss] by (simp add: fold_merge_fields Let_def)
qed

end
