(* ===== verification/CheckRegion.thy ===== *)
theory CheckRegion
  imports Patterns Diagnostics
begin

text \<open>
  The detailed comparison of a block with its pattern: \<open>WorkerThread::CheckRegion\<close> and
  \<open>WorkerThread::ProcessError\<close> of \<^verbatim>\<open>src/src/worker.cc\<close>. A block is a list of 64-bit words at a virtual
  address. The first 128 mismatches are recorded and processed after the scan; a 129th ends
  the scan, lets the block be compared with all the other patterns, and the rest is then
  processed word by word. Processing a mismatch reports it and repairs the word.
\<close>

section \<open>State\<close>

text \<open>
  The settings a worker reads from \<open>Sat\<close>, with the values of the clock, the CPU and the frequency
  during the call. \<open>cf_error_log_limit\<close> below 0 means no limit.
\<close>

datatype FillDirection = FILL_DIRECTION_UP | FILL_DIRECTION_DOWN

record config =
  cf_tag_mode :: bool
  cf_stop_on_error :: bool
  cf_page_length :: int
  cf_fill_direction :: FillDirection
  cf_fill_yield_bytes :: int
  cf_verbosity :: int
  cf_error_log_limit :: int
  cf_cpu :: u32
  cf_frequency :: int
  cf_now :: int
  cf_epoch :: u64

text \<open>\<open>er_word\<close> is the index of the word \<open>vaddr\<close> points to in its block.\<close>

record ErrorRecord =
  er_actual :: u64
  er_reread :: u64
  er_expected :: u64
  er_word :: nat
  er_vaddr :: u64
  er_vbyteaddr :: u64
  er_patternname :: string
  er_worker_name :: string
  er_phase :: string
  er_pattern_byte_offset :: u32
  er_sat_page_offset :: u64
  er_offset_in_page :: u64
  er_lastcpu :: u32
  er_write_dram_frequency :: int
  er_read_dram_frequency :: int
  er_reread_dram_frequency :: int

text \<open>
  What a worker changes: its error count and statistics, the global stop request and log budget,
  the miscompares handed to the diagnoser and the lines logged.
\<close>

record worker =
  w_errorcount :: int
  w_diag :: diag
  w_stop :: bool
  w_log_attempted :: u64
  w_log_detailed :: u64
  w_log_suppressed :: u64
  w_diagnosed :: "u64 list"
  w_reports :: "(ErrorRecord \<times> string \<times> bool) list"

definition ClaimDetailedErrorLog :: "int \<Rightarrow> worker \<Rightarrow> bool \<times> worker" where
  "ClaimDetailedErrorLog error_log_limit w =
     (if error_log_limit < 0 then (True, w)
      else let index = w_log_attempted w; w1 = w\<lparr>w_log_attempted := index + 1\<rparr>
           in if index < of_int error_log_limit then (True, w1\<lparr>w_log_detailed := w_log_detailed w1 + 1\<rparr>)
              else (False, w1\<lparr>w_log_suppressed := w_log_suppressed w1 + 1\<rparr>))"

section \<open>Processing one mismatch\<close>

definition byte_of :: "u64 \<Rightarrow> nat \<Rightarrow> 8 word" where
  "byte_of w k = ucast (drop_bit (8 * k) w)"

text \<open>The loop over the bytes stops at the last one without comparing it.\<close>

definition first_bad_byte :: "u64 \<Rightarrow> u64 \<Rightarrow> nat" where
  "first_bad_byte expected actual =
     (case filter (\<lambda>k. byte_of expected k \<noteq> byte_of actual k) [0..<7] of [] \<Rightarrow> 7 | k # _ \<Rightarrow> k)"

text \<open>
  \<open>mem\<close> is the block; the reported line carries the record, the message and whether it is classified as a
  read error. The text of the line itself (coordinates, DIMM name, block history) is not
  modelled.
\<close>

definition ProcessError ::
    "config \<Rightarrow> ErrorRecord \<Rightarrow> int \<Rightarrow> string \<Rightarrow> u64 list \<times> worker \<Rightarrow> (u64 list \<times> worker) res" where
  "ProcessError cfg err priority message = (\<lambda>(mem, w).
     res_bind (rd mem (er_word err)) (\<lambda>reread.
     res_bind (sat_assert (er_expected err \<noteq> er_actual err)) (\<lambda>_.
       let offset = first_bad_byte (er_expected err) (er_actual err);
           in_page = (if er_offset_in_page err \<noteq> - 1 then er_offset_in_page err + of_nat offset
                      else er_offset_in_page err);
           er = err\<lparr>er_reread := reread, er_reread_dram_frequency := cf_frequency cfg,
                    er_vbyteaddr := er_vaddr err + of_nat offset, er_offset_in_page := in_page\<rparr>;
           w1 = (if priority < 5 then
                   let wd = w\<lparr>w_diagnosed := w_diagnosed w @ [er_vaddr err]\<rparr>
                   in if priority \<le> cf_verbosity cfg then
                        (case ClaimDetailedErrorLog (cf_error_log_limit cfg) wd of (claimed, wc) \<Rightarrow>
                           if claimed then wc\<lparr>w_reports := w_reports wc @
                                              [(er, message, reread = er_expected err)]\<rparr>
                           else wc)
                      else wd
                 else w)
       in res_bind (wr mem (er_word err) (er_expected err)) (\<lambda>mem'.
            Inr (mem', if cf_stop_on_error cfg then w1\<lparr>w_stop := True\<rparr> else w1)))))"

section \<open>The expected data\<close>

definition addr_to_tag :: "u64 \<Rightarrow> u64" where
  "addr_to_tag address = address"

definition word_addr :: "u64 \<Rightarrow> nat \<Rightarrow> u64" where
  "word_addr addr i = addr + 8 * of_nat i"

definition expected_word :: "bool \<Rightarrow> Pattern \<Rightarrow> u64 \<Rightarrow> int \<Rightarrow> nat \<Rightarrow> u64" where
  "expected_word tag_mode p addr pattern_offset i =
     (if tag_mode \<and> word_addr addr i AND 0x3f = 0 then addr_to_tag (word_addr addr i)
      else let index = 2 * int i + pattern_offset
           in l64_of (pattern p (of_int index)) (pattern p (of_int (index + 1))))"

text \<open>The arguments of \<open>CheckRegion\<close> that only label the records.\<close>

record region_labels =
  rl_lastcpu :: u32
  rl_offset :: int
  rl_write_dram_frequency :: int
  rl_worker_name :: string
  rl_phase :: string
  rl_sat_page_offset :: u64

definition error_record :: "config \<Rightarrow> Pattern \<Rightarrow> u64 \<Rightarrow> region_labels \<Rightarrow> nat \<Rightarrow> u64 \<Rightarrow> u64 \<Rightarrow> ErrorRecord" where
  "error_record cfg p addr lb i actual expected =
     \<lparr>er_actual = actual, er_reread = 0, er_expected = expected, er_word = i,
      er_vaddr = word_addr addr i, er_vbyteaddr = 0, er_patternname = pat_name p,
      er_worker_name = rl_worker_name lb, er_phase = rl_phase lb,
      er_pattern_byte_offset = byte_offset p, er_sat_page_offset = rl_sat_page_offset lb,
      er_offset_in_page = of_int (rl_offset lb + int i * 8), er_lastcpu = rl_lastcpu lb,
      er_write_dram_frequency = rl_write_dram_frequency lb,
      er_read_dram_frequency = cf_frequency cfg, er_reread_dram_frequency = - 1\<rparr>"

section \<open>The scan\<close>

definition kErrorLimit :: nat where
  "kErrorLimit = 128"

text \<open>
  \<open>n\<close> words are left from word \<open>i\<close> on. The result is the queue of records, the statistics, and the word
  at which the queue overflowed, if it did.
\<close>

primrec scan_region ::
    "config \<Rightarrow> Pattern \<Rightarrow> u64 \<Rightarrow> region_labels \<Rightarrow> int \<Rightarrow> DiagnosticPhase \<Rightarrow> u64 list \<Rightarrow> nat \<Rightarrow> nat \<Rightarrow>
     ErrorRecord list \<Rightarrow> diag \<Rightarrow> (ErrorRecord list \<times> diag \<times> nat option) res" where
  "scan_region cfg p addr lb po ph mem 0 i recorded d = Inr (recorded, d, None)"
| "scan_region cfg p addr lb po ph mem (Suc n) i recorded d =
     res_bind (rd mem i) (\<lambda>actual.
       let expected = expected_word (cf_tag_mode cfg) p addr po i
       in if actual \<noteq> expected then
            let d' = RecordDiagnosticFirstError (cf_now cfg) (cf_epoch cfg) ph d
            in if length recorded < kErrorLimit then
                 scan_region cfg p addr lb po ph mem n (i + 1)
                   (recorded @ [error_record cfg p addr lb i actual expected]) d'
               else Inr (recorded, d', Some i)
          else scan_region cfg p addr lb po ph mem n (i + 1) recorded d)"

section \<open>Whole-block corruption\<close>

datatype block_state = kGood | kBad | kGoodAgain | kNoMatch

text \<open>\<open>block_scan\<close>: state, first and last word of the run of the other pattern \<open>alt\<close>.\<close>

primrec block_scan ::
    "Pattern \<Rightarrow> Pattern \<Rightarrow> int \<Rightarrow> u64 list \<Rightarrow> nat \<Rightarrow> nat \<Rightarrow> block_state \<Rightarrow> nat \<Rightarrow> nat \<Rightarrow>
     (block_state \<times> nat \<times> nat) res" where
  "block_scan p alt po mem 0 i st badstart badend = Inr (st, badstart, badend)"
| "block_scan p alt po mem (Suc n) i st badstart badend =
     res_bind (rd mem i) (\<lambda>actual.
       let expected = expected_word False p 0 po i;
           possible = expected_word False alt 0 po i
       in case st of
            kGood \<Rightarrow>
              if actual = expected then block_scan p alt po mem n (i + 1) kGood badstart badend
              else if actual = possible then block_scan p alt po mem n (i + 1) kBad i i
              else Inr (kNoMatch, badstart, badend)
          | kBad \<Rightarrow>
              if actual = possible then block_scan p alt po mem n (i + 1) kBad badstart i
              else if actual = expected then block_scan p alt po mem n (i + 1) kGoodAgain badstart badend
              else Inr (kNoMatch, badstart, badend)
          | kGoodAgain \<Rightarrow>
              if actual = expected then block_scan p alt po mem n (i + 1) kGoodAgain badstart badend
              else Inr (kNoMatch, badstart, badend)
          | kNoMatch \<Rightarrow> block_scan p alt po mem n (i + 1) kNoMatch badstart badend)"

text \<open>
  The patterns found instead, as index, first and last word: the \<open>Block Error\<close> lines. Patterns are
  compared by identity, which is their index in the list.
\<close>

primrec block_errors ::
    "Pattern list \<Rightarrow> nat \<Rightarrow> int \<Rightarrow> u64 list \<Rightarrow> nat \<Rightarrow> nat list \<Rightarrow> (nat \<times> nat \<times> nat) list res" where
  "block_errors pats pid po mem n [] = Inr []"
| "block_errors pats pid po mem n (k # ks) =
     (if k = pid then block_errors pats pid po mem n ks
      else res_bind (block_scan (pats ! pid) (pats ! k) po mem n 0 kGood 0 0) (\<lambda>(st, badstart, badend).
           res_bind (block_errors pats pid po mem n ks) (\<lambda>rest.
             Inr (if st = kGoodAgain \<or> st = kBad then (k, badstart, badend) # rest else rest))))"

section \<open>The whole comparison\<close>

primrec process_queue ::
    "config \<Rightarrow> int \<Rightarrow> string \<Rightarrow> nat \<Rightarrow> ErrorRecord list \<Rightarrow> u64 list \<times> worker \<Rightarrow> (u64 list \<times> worker) res" where
  "process_queue cfg errorcount message k [] s = Inr s"
| "process_queue cfg errorcount message k (er # ers) s =
     res_bind (ProcessError cfg er (if errorcount + int k < 30 then 0 else 5) message s)
       (process_queue cfg errorcount message (k + 1) ers)"

primrec process_rest ::
    "config \<Rightarrow> Pattern \<Rightarrow> u64 \<Rightarrow> region_labels \<Rightarrow> int \<Rightarrow> string \<Rightarrow> nat \<Rightarrow> nat \<Rightarrow> nat \<Rightarrow> u64 list \<times> worker \<Rightarrow>
     (nat \<times> u64 list \<times> worker) res" where
  "process_rest cfg p addr lb po message 0 i overflowerrors s = Inr (overflowerrors, s)"
| "process_rest cfg p addr lb po message (Suc n) i overflowerrors s =
     res_bind (rd (fst s) i) (\<lambda>actual.
       let expected = expected_word (cf_tag_mode cfg) p addr po i
       in if actual \<noteq> expected then
            res_bind (ProcessError cfg (error_record cfg p addr lb i actual expected) 12 message s)
              (process_rest cfg p addr lb po message n (i + 1) (overflowerrors + 1))
          else process_rest cfg p addr lb po message n (i + 1) overflowerrors s)"

text \<open>
  The result is the number of errors, the block, the worker and the \<open>Block Error\<close> lines. \<open>pid\<close> is the index
  of the block's pattern in the list \<open>pats\<close>, \<open>mem\<close> the block at \<open>addr\<close>, \<open>len\<close> its length in bytes.
\<close>

definition CheckRegion ::
    "config \<Rightarrow> Pattern list \<Rightarrow> nat \<Rightarrow> u64 \<Rightarrow> region_labels \<Rightarrow> nat \<Rightarrow> int \<Rightarrow> u64 list \<times> worker \<Rightarrow>
     (nat \<times> (u64 list \<times> worker) \<times> (nat \<times> nat \<times> nat) list) res" where
  "CheckRegion cfg pats pid addr lb len po = (\<lambda>(mem, w).
     let p = pats ! pid;
         ph = (case w_diag w of None \<Rightarrow> DIAG_PHASE_COUNT
               | Some _ \<Rightarrow> GetDiagnosticPhase (rl_worker_name lb) (rl_phase lb));
         n = len div 8
     in res_bind (scan_region cfg p addr lb po ph mem n 0 [] (w_diag w)) (\<lambda>(recorded, d, overflow).
        res_bind (if overflow \<noteq> None \<and> \<not> cf_tag_mode cfg
                  then block_errors pats pid po mem n [0..<length pats] else Inr []) (\<lambda>blocks.
        let message = (if blocks \<noteq> [] then ''Block Error''
                       else if overflow \<noteq> None then ''Page Error'' else ''Hardware Error'')
        in res_bind (process_queue cfg (w_errorcount w) message 0 recorded (mem, w\<lparr>w_diag := d\<rparr>)) (\<lambda>s.
           res_bind (case overflow of
                       None \<Rightarrow> Inr (0, s)
                     | Some k \<Rightarrow> process_rest cfg p addr lb po message (n - k) k 0 s)
             (\<lambda>(overflowerrors, mem', w').
                let errors = length recorded + overflowerrors
                in Inr (errors, (mem', w'\<lparr>w_errorcount := w_errorcount w' + int errors\<rparr>), blocks))))))"

section \<open>Correctness of the scan\<close>

definition mismatches :: "(nat \<Rightarrow> u64) \<Rightarrow> u64 list \<Rightarrow> nat \<Rightarrow> nat \<Rightarrow> nat list" where
  "mismatches e mem i n = filter (\<lambda>k. mem ! k \<noteq> e k) [i..<i + n]"

definition repair :: "(nat \<Rightarrow> u64) \<Rightarrow> nat list \<Rightarrow> u64 list \<Rightarrow> u64 list" where
  "repair e ks mem = fold (\<lambda>k m. m[k := e k]) ks mem"

lemma mismatches_0 [simp]: "mismatches e mem i 0 = []"
  by (simp add: mismatches_def)

lemma mismatches_Suc:
  "mismatches e mem i (Suc n) =
     (if mem ! i \<noteq> e i then i # mismatches e mem (Suc i) n else mismatches e mem (Suc i) n)"
  by (simp add: mismatches_def upt_conv_Cons del: upt_Suc)

lemma set_mismatches: "set (mismatches e mem i n) = {k. i \<le> k \<and> k < i + n \<and> mem ! k \<noteq> e k}"
  by (auto simp: mismatches_def)

lemma mismatches_cong:
  "(\<And>k. i \<le> k \<Longrightarrow> k < i + n \<Longrightarrow> mem ! k = mem' ! k) \<Longrightarrow> mismatches e mem i n = mismatches e mem' i n"
  unfolding mismatches_def by (rule filter_cong) auto

lemma repair_simps [simp]:
  "repair e [] mem = mem" "repair e (k # ks) mem = repair e ks (mem[k := e k])"
  "length (repair e ks mem) = length mem"
  by (simp_all add: repair_def) (induction ks arbitrary: mem; simp)

lemma repair_append [simp]: "repair e (ks @ ls) mem = repair e ls (repair e ks mem)"
  by (simp add: repair_def)

lemma nth_repair: "i < length mem \<Longrightarrow> repair e ks mem ! i = (if i \<in> set ks then e i else mem ! i)"
  by (induction ks arbitrary: mem) (auto simp: nth_list_update)

lemma nth_repair_mismatches:
  "k < length mem \<Longrightarrow> repair e (mismatches e mem i n) mem ! k = (if i \<le> k \<and> k < i + n then e k else mem ! k)"
  by (auto simp: nth_repair set_mismatches)

text \<open>\<open>check_of\<close>: the queue of records is the first 128 mismatches, the overflow word the 129th.\<close>

lemma scan_region_eq:
  fixes cfg p addr lb po mem
  defines "e \<equiv> expected_word (cf_tag_mode cfg) p addr po"
  defines "mk \<equiv> \<lambda>k. error_record cfg p addr lb k (mem ! k) (e k)"
  shows "i + n \<le> length mem \<Longrightarrow> length recorded \<le> kErrorLimit \<Longrightarrow>
    \<exists>d'. scan_region cfg p addr lb po ph mem n i recorded d =
      (let ks = mismatches e mem i n; room = kErrorLimit - length recorded
       in Inr (recorded @ map mk (take room ks), d',
               if length ks \<le> room then None else Some (ks ! room)))"
proof (induction n arbitrary: i recorded d)
  case (Suc n)
  let ?ks = "mismatches e mem (Suc i) n"
  have i: "i < length mem" using Suc.prems by simp
  show ?case
  proof (cases "mem ! i = e i")
    case True
    then show ?thesis
      using i Suc.IH [of "i + 1" recorded d] Suc.prems
      by (simp add: mismatches_Suc Let_def flip: e_def)
  next
    case bad: False
    show ?thesis
    proof (cases "length recorded < kErrorLimit")
      case True
      then have room: "kErrorLimit - length recorded = Suc (kErrorLimit - length (recorded @ [mk i]))"
        by simp
      let ?d = "RecordDiagnosticFirstError (cf_now cfg) (cf_epoch cfg) ph d"
      have step: "scan_region cfg p addr lb po ph mem (Suc n) i recorded d =
          scan_region cfg p addr lb po ph mem n (i + 1) (recorded @ [mk i]) ?d"
        using i bad True by (simp add: Let_def mk_def flip: e_def)
      show ?thesis
        unfolding step using bad True Suc.IH [of "i + 1" "recorded @ [mk i]" ?d] Suc.prems
        by (cases "length ?ks \<le> kErrorLimit - length (recorded @ [mk i])")
          (auto simp: mismatches_Suc Let_def room)
    next
      case False
      then show ?thesis
        using i bad Suc.prems by (simp add: mismatches_Suc Let_def flip: e_def)
    qed
  qed
qed simp

section \<open>Correctness of the processing\<close>

lemma Claim_frame:
  "ClaimDetailedErrorLog limit w = (b, w') \<Longrightarrow> w_errorcount w' = w_errorcount w \<and> w_stop w' = w_stop w \<and>
     w_reports w' = w_reports w \<and> w_diag w' = w_diag w"
  by (auto simp: ClaimDetailedErrorLog_def Let_def split: if_splits)

text \<open>\<open>touched cfg b w w'\<close>: the parts of a worker that matter to its callers, after errors (\<open>b\<close>) or none.\<close>

definition touched :: "config \<Rightarrow> bool \<Rightarrow> worker \<Rightarrow> worker \<Rightarrow> bool" where
  "touched cfg b w w' \<longleftrightarrow> w_errorcount w' = w_errorcount w \<and>
     w_stop w' = (w_stop w \<or> b \<and> cf_stop_on_error cfg) \<and> w_diag w' = w_diag w"

lemma touched_refl [simp]: "touched cfg False w w"
  by (simp add: touched_def)

lemma touched_trans: "touched cfg b w w' \<Longrightarrow> touched cfg c w' w'' \<Longrightarrow> touched cfg (b \<or> c) w w''"
  by (auto simp: touched_def)

lemma ProcessError_eq:
  assumes "er_word er < length mem" "er_expected er \<noteq> er_actual er"
  shows "\<exists>w'. ProcessError cfg er prio message (mem, w) = Inr (mem[er_word er := er_expected er], w') \<and>
    touched cfg True w w'"
  using assms by (auto simp: ProcessError_def Let_def touched_def split: prod.splits dest!: Claim_frame)

lemma process_queue_eq:
  "\<forall>er \<in> set ers. er_word er < length mem \<and> er_expected er = e (er_word er) \<and> er_expected er \<noteq> er_actual er \<Longrightarrow>
   \<exists>w'. process_queue cfg c message k ers (mem, w) = Inr (repair e (map er_word ers) mem, w') \<and>
     touched cfg (ers \<noteq> []) w w'"
proof (induction ers arbitrary: k mem w)
  case (Cons er ers)
  let ?prio = "if c + int k < 30 then 0 else 5"
  obtain w1 where w1: "ProcessError cfg er ?prio message (mem, w) = Inr (mem[er_word er := er_expected er], w1)"
    "touched cfg True w w1"
    using ProcessError_eq [of er mem cfg ?prio message w] Cons.prems by auto
  obtain w2 where w2: "process_queue cfg c message (k + 1) ers (mem[er_word er := er_expected er], w1) =
      Inr (repair e (map er_word ers) (mem[er_word er := er_expected er]), w2)" "touched cfg (ers \<noteq> []) w1 w2"
    using Cons.IH [of "mem[er_word er := er_expected er]" "k + 1" w1] Cons.prems
    unfolding length_list_update by (metis list.set_intros(2))
  show ?case
    using w1 w2 touched_trans [OF w1(2) w2(2)] Cons.prems by simp
qed simp

lemma process_rest_eq:
  fixes cfg p addr po
  defines "e \<equiv> expected_word (cf_tag_mode cfg) p addr po"
  shows "i + n \<le> length mem \<Longrightarrow>
    \<exists>w'. process_rest cfg p addr lb po message n i c (mem, w) =
      Inr (c + length (mismatches e mem i n), repair e (mismatches e mem i n) mem, w') \<and>
      touched cfg (mismatches e mem i n \<noteq> []) w w'"
proof (induction n arbitrary: i c mem w)
  case (Suc n)
  have i: "i < length mem" using Suc.prems by simp
  show ?case
  proof (cases "mem ! i = e i")
    case True
    then show ?thesis
      using i Suc.IH [of "i + 1" mem c w] Suc.prems by (simp add: mismatches_Suc Let_def flip: e_def)
  next
    case False
    let ?er = "error_record cfg p addr lb i (mem ! i) (e i)" and ?mem = "mem[i := e i]"
    obtain w1 where w1: "ProcessError cfg ?er 12 message (mem, w) = Inr (?mem, w1)" "touched cfg True w w1"
      using ProcessError_eq [of ?er mem cfg 12 message w] i False by (auto simp: error_record_def)
    have same: "mismatches e ?mem (Suc i) n = mismatches e mem (Suc i) n"
      by (rule mismatches_cong) simp
    obtain w2 where w2: "process_rest cfg p addr lb po message n (i + 1) (c + 1) (?mem, w1) =
        Inr (c + 1 + length (mismatches e mem (Suc i) n), repair e (mismatches e mem (Suc i) n) ?mem, w2)"
      "touched cfg (mismatches e mem (Suc i) n \<noteq> []) w1 w2"
      using Suc.IH [of "i + 1" ?mem "c + 1" w1] Suc.prems same by auto
    show ?thesis
      using i False w1 w2 touched_trans [OF w1(2) w2(2)]
      by (simp add: mismatches_Suc Let_def flip: e_def)
  qed
qed simp

section \<open>Correctness of the block comparison\<close>

definition run_inv :: "(nat \<Rightarrow> u64) \<Rightarrow> (nat \<Rightarrow> u64) \<Rightarrow> u64 list \<Rightarrow> nat \<Rightarrow> block_state \<times> nat \<times> nat \<Rightarrow> bool" where
  "run_inv e a mem i = (\<lambda>(st, badstart, badend).
     case st of
       kGood \<Rightarrow> \<forall>k<i. mem ! k = e k
     | kNoMatch \<Rightarrow> True
     | _ \<Rightarrow> badstart \<le> badend \<and> badend < i \<and> (st = kBad \<longrightarrow> Suc badend = i) \<and>
         (\<forall>k<i. mem ! k = (if badstart \<le> k \<and> k \<le> badend then a k else e k)))"

lemma block_scan_run:
  fixes p alt po
  defines "e \<equiv> expected_word False p 0 po" and "a \<equiv> expected_word False alt 0 po"
  shows "i + n \<le> length mem \<Longrightarrow> run_inv e a mem i (st, bs, be) \<Longrightarrow>
    \<exists>r. block_scan p alt po mem n i st bs be = Inr r \<and> run_inv e a mem (i + n) r"
proof (induction n arbitrary: i st bs be)
  case (Suc n)
  have rd: "rd mem i = Inr (mem ! i)" using Suc.prems by simp
  have no: "run_inv e a mem k (kNoMatch, x, y)" for k x y by (simp add: run_inv_def)
  have IH: "run_inv e a mem (i + 1) (st', bs', be') \<Longrightarrow>
      \<exists>r. block_scan p alt po mem n (i + 1) st' bs' be' = Inr r \<and> run_inv e a mem (i + Suc n) r" for st' bs' be'
    using Suc.IH [of "i + 1" st' bs' be'] Suc.prems(1) by simp
  have good: "run_inv e a mem (i + 1) (kGood, bs, be)" if "st = kGood" "mem ! i = e i"
    using Suc.prems(2) that by (auto simp: run_inv_def less_Suc_eq)
  have start: "run_inv e a mem (i + 1) (kBad, i, i)" if "st = kGood" "mem ! i = a i"
    using Suc.prems(2) that by (auto simp: run_inv_def less_Suc_eq)
  have run: "run_inv e a mem (i + 1) (kBad, bs, i)" if "st = kBad" "mem ! i = a i"
    using Suc.prems(2) that by (auto simp: run_inv_def less_Suc_eq)
  have again: "run_inv e a mem (i + 1) (kGoodAgain, bs, be)" if "st = kBad \<or> st = kGoodAgain" "mem ! i = e i"
    using Suc.prems(2) that by (auto simp: run_inv_def less_Suc_eq)
  show ?case
    unfolding block_scan.simps rd res_bind_Inr Let_def e_def [symmetric] a_def [symmetric]
    using IH [OF good] IH [OF start] IH [OF run] IH [OF again] IH [OF no] no
    by (cases st) (simp_all del: split_paired_Ex)
qed simp

text \<open>\<open>block_ok\<close>: what a \<open>Block Error\<close> line says is true of the block.\<close>

definition block_ok :: "Pattern list \<Rightarrow> nat \<Rightarrow> int \<Rightarrow> u64 list \<Rightarrow> nat \<Rightarrow> nat \<times> nat \<times> nat \<Rightarrow> bool" where
  "block_ok pats pid po mem n = (\<lambda>(k, badstart, badend). k \<noteq> pid \<and> badstart \<le> badend \<and> badend < n \<and>
     (\<forall>i<n. mem ! i = expected_word False (pats ! (if badstart \<le> i \<and> i \<le> badend then k else pid)) 0 po i))"

lemma block_errors_run:
  assumes "n \<le> length mem"
  shows "\<exists>bs. block_errors pats pid po mem n ks = Inr bs \<and> (\<forall>b \<in> set bs. block_ok pats pid po mem n b)"
proof (induction ks)
  case (Cons k ks)
  then obtain bs where bs: "block_errors pats pid po mem n ks = Inr bs"
    "\<forall>b \<in> set bs. block_ok pats pid po mem n b"
    by auto
  obtain st s t where r: "block_scan (pats ! pid) (pats ! k) po mem n 0 kGood 0 0 = Inr (st, s, t)"
    "run_inv (expected_word False (pats ! pid) 0 po) (expected_word False (pats ! k) 0 po) mem n (st, s, t)"
    using block_scan_run [of 0 n mem "pats ! pid" po "pats ! k" kGood 0 0] assms
    by (auto simp: run_inv_def)
  have "block_ok pats pid po mem n (k, s, t)" if "k \<noteq> pid" "st = kGoodAgain \<or> st = kBad"
    using r(2) that by (cases st) (simp_all add: run_inv_def block_ok_def)
  then show ?case
    using bs r(1) by (cases "k = pid") simp_all
qed simp

section \<open>The whole comparison\<close>

lemma split_overflow:
  assumes "length (mismatches e mem 0 n) > m"
  defines "k \<equiv> mismatches e mem 0 n ! m"
  shows "k < n" "mismatches e mem k (n - k) = drop m (mismatches e mem 0 n)"
    "\<forall>j \<in> set (take m (mismatches e mem 0 n)). j < k"
proof -
  let ?ks = "mismatches e mem 0 n"
  have sorted: "sorted_wrt (<) ?ks" by (simp add: mismatches_def sorted_wrt_filter)
  have k: "k \<in> set ?ks" using assms by simp
  then show kn: "k < n" by (simp add: set_mismatches)
  have eq: "?ks = mismatches e mem 0 k @ mismatches e mem k (n - k)"
    using kn upt_add_eq_append [of 0 k "n - k"] by (simp add: mismatches_def)
  have split: "take m ?ks @ drop m ?ks = mismatches e mem 0 k @ mismatches e mem k (n - k)"
    using eq by (metis append_take_drop_id)
  have less: "\<forall>j \<in> set (take m ?ks). j < k"
  proof
    fix j assume "j \<in> set (take m ?ks)"
    then obtain l where "l < m" "j = ?ks ! l" using assms(1) by (auto simp: in_set_conv_nth)
    then show "j < k" using sorted assms by (simp add: sorted_wrt_iff_nth_less)
  qed
  then show "\<forall>j \<in> set (take m ?ks). j < k" .
  have more: "\<forall>j \<in> set (drop m ?ks). k \<le> j"
  proof
    fix j assume "j \<in> set (drop m ?ks)"
    then obtain l where "m + l < length ?ks" "j = ?ks ! (m + l)"
      by (auto simp: in_set_conv_nth) (metis add.commute less_diff_conv)
    then show "k \<le> j" using sorted assms
      by (cases l) (auto simp: sorted_wrt_iff_nth_less intro!: less_imp_le)
  qed
  have "filter (\<lambda>j. k \<le> j) (take m ?ks @ drop m ?ks) = drop m ?ks"
    using less more by (simp only: filter_append) (simp add: filter_empty_conv filter_id_conv not_le)
  moreover have "filter (\<lambda>j. k \<le> j) (mismatches e mem 0 k @ mismatches e mem k (n - k)) =
      mismatches e mem k (n - k)"
    using set_mismatches [of e mem 0 k] set_mismatches [of e mem k "n - k"]
    by (simp only: filter_append) (simp add: filter_empty_conv filter_id_conv)
  ultimately show "mismatches e mem k (n - k) = drop m ?ks" using split by metis
qed

lemma CheckRegion_eq:
  fixes cfg pats pid addr po
  defines "e \<equiv> expected_word (cf_tag_mode cfg) (pats ! pid) addr po"
  assumes len: "len div 8 \<le> length mem"
  defines "ks \<equiv> mismatches e mem 0 (len div 8)"
  shows "\<exists>w' blocks. CheckRegion cfg pats pid addr lb len po (mem, w) =
      Inr (length ks, (repair e ks mem, w'), blocks) \<and>
      w_errorcount w' = w_errorcount w + int (length ks) \<and>
      w_stop w' = (w_stop w \<or> ks \<noteq> [] \<and> cf_stop_on_error cfg) \<and>
      (\<forall>b \<in> set blocks. block_ok pats pid po mem (len div 8) b) \<and>
      (kErrorLimit < length ks \<longrightarrow> \<not> cf_tag_mode cfg \<longrightarrow>
         block_errors pats pid po mem (len div 8) [0..<length pats] = Inr blocks)"
proof -
  let ?n = "len div 8" and ?p = "pats ! pid"
  let ?mk = "\<lambda>k. error_record cfg ?p addr lb k (mem ! k) (e k)"
  define ph where "ph = (case w_diag w of None \<Rightarrow> DIAG_PHASE_COUNT
               | Some _ \<Rightarrow> GetDiagnosticPhase (rl_worker_name lb) (rl_phase lb))"
  define ov where "ov = (if length ks \<le> kErrorLimit then None else Some (ks ! kErrorLimit))"
  obtain d where scan: "scan_region cfg ?p addr lb po ph mem ?n 0 [] (w_diag w) =
      Inr (map ?mk (take kErrorLimit ks), d, ov)"
    using scan_region_eq [of 0 ?n mem "[]" cfg ?p addr lb po ph "w_diag w"] len
    by (auto simp: ks_def e_def ov_def Let_def)
  obtain blocks where blocks: "(if ov \<noteq> None \<and> \<not> cf_tag_mode cfg
                  then block_errors pats pid po mem ?n [0..<length pats] else Inr []) = Inr blocks"
    "\<forall>b \<in> set blocks. block_ok pats pid po mem ?n b"
    using block_errors_run [OF len, of pats pid po] by (cases "ov \<noteq> None \<and> \<not> cf_tag_mode cfg") auto
  define message where "message = (if blocks \<noteq> [] then ''Block Error''
                       else if ov \<noteq> None then ''Page Error'' else ''Hardware Error'')"
  have words: "\<forall>k \<in> set (take kErrorLimit ks). k < length mem \<and> e k \<noteq> mem ! k"
    using len by (auto simp: ks_def set_mismatches dest!: in_set_takeD)
  have recs: "er_word (?mk k) = k" "er_expected (?mk k) = e k" "er_actual (?mk k) = mem ! k" for k
    by (simp_all add: error_record_def)
  let ?mem = "repair e (take kErrorLimit ks) mem"
  obtain w1 where w1: "process_queue cfg (w_errorcount w) message 0 (map ?mk (take kErrorLimit ks))
        (mem, w\<lparr>w_diag := d\<rparr>) = Inr (?mem, w1)" "touched cfg (take kErrorLimit ks \<noteq> []) (w\<lparr>w_diag := d\<rparr>) w1"
    using process_queue_eq [of "map ?mk (take kErrorLimit ks)" mem e cfg "w_errorcount w" message 0 "w\<lparr>w_diag := d\<rparr>"]
      words by (auto simp: recs comp_def)
  obtain w2 where w2: "(case ov of None \<Rightarrow> Inr (0, ?mem, w1)
        | Some k \<Rightarrow> process_rest cfg ?p addr lb po message (?n - k) k 0 (?mem, w1)) =
        Inr (length (drop kErrorLimit ks), repair e ks mem, w2)" "touched cfg (drop kErrorLimit ks \<noteq> []) w1 w2"
  proof (cases "length ks \<le> kErrorLimit")
    case True
    then show ?thesis using that [of w1] by (simp add: ov_def)
  next
    case False
    let ?k = "ks ! kErrorLimit"
    have k: "?k < ?n" "mismatches e mem ?k (?n - ?k) = drop kErrorLimit ks" "\<forall>j \<in> set (take kErrorLimit ks). j < ?k"
      using split_overflow [of kErrorLimit e mem ?n] False by (simp_all add: ks_def)
    have "mismatches e ?mem ?k (?n - ?k) = mismatches e mem ?k (?n - ?k)"
      using k(1,3) len by (intro mismatches_cong) (auto simp: nth_repair)
    then have rest: "mismatches e ?mem ?k (?n - ?k) = drop kErrorLimit ks" using k(2) by simp
    have "repair e (drop kErrorLimit ks) ?mem = repair e ks mem"
      by (metis append_take_drop_id repair_append)
    then show ?thesis
      using process_rest_eq [of ?k "?n - ?k" ?mem cfg ?p addr lb po message 0 w1] rest k(1) len False that
      by (auto simp: ov_def e_def)
  qed
  have "take kErrorLimit ks \<noteq> [] \<or> drop kErrorLimit ks \<noteq> [] \<longleftrightarrow> ks \<noteq> []" by (simp add: kErrorLimit_def)
  then have t: "touched cfg (ks \<noteq> []) (w\<lparr>w_diag := d\<rparr>) w2" using touched_trans [OF w1(2) w2(2)] by simp
  have count: "length (take kErrorLimit ks) + length (drop kErrorLimit ks) = length ks"
    by (metis append_take_drop_id length_append)
  have "CheckRegion cfg pats pid addr lb len po (mem, w) =
      Inr (length ks, (repair e ks mem, w2\<lparr>w_errorcount := w_errorcount w2 + int (length ks)\<rparr>), blocks)"
    by (simp only: CheckRegion_def Let_def prod.case ph_def [symmetric] scan res_bind_Inr blocks(1)
        message_def [symmetric] w1(1) w2(1) length_map count)
  moreover have "kErrorLimit < length ks \<Longrightarrow> \<not> cf_tag_mode cfg \<Longrightarrow>
      block_errors pats pid po mem ?n [0..<length pats] = Inr blocks"
    using blocks(1) by (simp add: ov_def)
  ultimately show ?thesis using t blocks(2) by (auto simp: touched_def)
qed

text \<open>A block without a mismatch leaves everything as it was.\<close>

lemma scan_region_clean:
  "i + n \<le> length mem \<Longrightarrow> mismatches (expected_word (cf_tag_mode cfg) p addr po) mem i n = [] \<Longrightarrow>
   scan_region cfg p addr lb po ph mem n i recorded d = Inr (recorded, d, None)"
  by (induction n arbitrary: i) (auto simp: mismatches_Suc split: if_splits)

lemma CheckRegion_clean:
  assumes "len div 8 \<le> length mem"
    and "mismatches (expected_word (cf_tag_mode cfg) (pats ! pid) addr po) mem 0 (len div 8) = []"
  shows "CheckRegion cfg pats pid addr lb len po (mem, w) = Inr (0, (mem, w), [])"
  using assms by (simp add: CheckRegion_def Let_def scan_region_clean)

text \<open>
  C14. The detailed comparison is exact: on a block that holds at least \<open>len\<close> bytes it returns exactly the
  number of words that differ from the expected data, however many there are, adds that number to the worker's
  error count, repairs all of them and changes no other word; it requests a stop exactly if there was an error and
  \<open>--stop_on_errors\<close> is set. No assertion fails and no access leaves the block.
\<close>

theorem CheckRegion_exact:
  assumes "len div 8 \<le> length mem"
  shows "\<exists>mem' w' blocks. CheckRegion cfg pats pid addr lb len po (mem, w) =
      Inr (card {i. i < len div 8 \<and> mem ! i \<noteq> expected_word (cf_tag_mode cfg) (pats ! pid) addr po i},
           (mem', w'), blocks) \<and>
    length mem' = length mem \<and>
    (\<forall>i<length mem. mem' ! i = (if i < len div 8 then expected_word (cf_tag_mode cfg) (pats ! pid) addr po i
                                else mem ! i)) \<and>
    w_errorcount w' = w_errorcount w +
      int (card {i. i < len div 8 \<and> mem ! i \<noteq> expected_word (cf_tag_mode cfg) (pats ! pid) addr po i}) \<and>
    w_stop w' = (w_stop w \<or> cf_stop_on_error cfg \<and>
      (\<exists>i<len div 8. mem ! i \<noteq> expected_word (cf_tag_mode cfg) (pats ! pid) addr po i))"
proof -
  let ?e = "expected_word (cf_tag_mode cfg) (pats ! pid) addr po"
  let ?ks = "mismatches ?e mem 0 (len div 8)"
  have ks: "length ?ks = card {i. i < len div 8 \<and> mem ! i \<noteq> ?e i}"
    using distinct_card [of ?ks] by (simp add: set_mismatches) (simp add: mismatches_def)
  have ne: "?ks \<noteq> [] \<longleftrightarrow> (\<exists>i<len div 8. mem ! i \<noteq> ?e i)"
    using set_mismatches [of ?e mem 0 "len div 8"] by (metis (mono_tags, lifting) add_0 empty_iff ex_in_conv
      list.set(1) mem_Collect_eq set_empty zero_le)
  obtain w' blocks where r: "CheckRegion cfg pats pid addr lb len po (mem, w) =
      Inr (length ?ks, (repair ?e ?ks mem, w'), blocks)"
    "w_errorcount w' = w_errorcount w + int (length ?ks)"
    "w_stop w' = (w_stop w \<or> ?ks \<noteq> [] \<and> cf_stop_on_error cfg)"
    using CheckRegion_eq [OF assms, of cfg pats pid addr lb po w] by blast
  show ?thesis
    by (rule exI [of _ "repair ?e ?ks mem"], rule exI [of _ w'], rule exI [of _ blocks])
      (use r ks ne in \<open>auto simp: nth_repair_mismatches\<close>)
qed

text \<open>
  A \<open>Block Error\<close> line is accurate: whenever the comparison reports that words \<open>badstart\<close> to \<open>badend\<close>
  hold another pattern of the list, exactly those words hold that pattern and every other word of the block
  holds the expected one.
\<close>

lemma block_error_accurate:
  assumes "len div 8 \<le> length mem"
    and "CheckRegion cfg pats pid addr lb len po (mem, w) = Inr (n, s, blocks)"
    and "(k, badstart, badend) \<in> set blocks"
  shows "k \<noteq> pid \<and> badstart \<le> badend \<and> badend < len div 8 \<and>
    (\<forall>i<len div 8. mem ! i =
       expected_word False (pats ! (if badstart \<le> i \<and> i \<le> badend then k else pid)) 0 po i)"
  using CheckRegion_eq [OF assms(1), of cfg pats pid addr lb po w] assms(2,3) by (auto simp: block_ok_def)

section \<open>Concrete instances\<close>

definition ex_cfg :: config where
  "ex_cfg = \<lparr>cf_tag_mode = False, cf_stop_on_error = False, cf_page_length = 4096,
     cf_fill_direction = FILL_DIRECTION_UP, cf_fill_yield_bytes = 0, cf_verbosity = 8,
     cf_error_log_limit = - 1, cf_cpu = 0, cf_frequency = - 1, cf_now = 0, cf_epoch = 0\<rparr>"

definition ex_worker :: worker where
  "ex_worker = \<lparr>w_errorcount = 0, w_diag = None, w_stop = False, w_log_attempted = 0, w_log_detailed = 0,
     w_log_suppressed = 0, w_diagnosed = [], w_reports = []\<rparr>"

definition ex_labels :: region_labels where
  "ex_labels = \<lparr>rl_lastcpu = 0, rl_offset = 0, rl_write_dram_frequency = - 1, rl_worker_name = ''check'',
     rl_phase = ''runtime_check'', rl_sat_page_offset = 0\<rparr>"

definition flat_pattern :: "u32 \<Rightarrow> Pattern" where
  "flat_pattern x = \<lparr>pat_data = \<lparr>pd_name = [], pd_pat = [x], pd_mask = 0, pd_weight = []\<rparr>, busshift = 0,
     word_offset = 0, inverse = False, pat_crc = None, pat_name = [], pat_weight = 0\<rparr>"

lemma expected_flat [simp]: "expected_word False (flat_pattern x) a po i = l64_of x x"
  by (simp add: expected_word_def flat_pattern_def pattern_def pattern_unshifted_def pattern_index_def Let_def)

lemma block_scan_flat:
  "x \<noteq> y \<Longrightarrow> i + n \<le> m \<Longrightarrow> block_scan (flat_pattern x) (flat_pattern y) po (replicate m (l64_of y y)) n i kBad s e =
     Inr (kBad, s, if n = 0 then e else i + n - 1)"
  by (induction n arbitrary: i e) simp_all

theorem CheckRegion_exact_witness:
  "\<exists>mem' w' blocks. CheckRegion ex_cfg [flat_pattern 0] 0 0 ex_labels 24 0 ([0, 7, 0], ex_worker) =
      Inr (1, (mem', w'), blocks) \<and> mem' = [0, 0, 0] \<and> w_errorcount w' = 1"
proof -
  have one: "{i. i < 3 \<and> [0, 7, 0 :: u64] ! i \<noteq> 0} = {1}"
    by (auto simp: less_Suc_eq numeral_3_eq_3)
  have zero: "expected_word (cf_tag_mode ex_cfg) ([flat_pattern 0] ! 0) 0 0 i = 0" for i
    by (simp add: ex_cfg_def l64_of_def)
  obtain mem' w' blocks where r:
    "CheckRegion ex_cfg [flat_pattern 0] 0 0 ex_labels 24 0 ([0, 7, 0], ex_worker) = Inr (1, (mem', w'), blocks)"
    "length mem' = 3" "\<forall>i<3. mem' ! i = 0" "w_errorcount w' = w_errorcount ex_worker + 1"
    using CheckRegion_exact [of 24 "[0, 7, 0]" ex_cfg "[flat_pattern 0]" 0 0 ex_labels 0 ex_worker]
    unfolding zero by (auto simp: one)
  have "mem' = [0, 0, 0]" using r(2,3) by (intro nth_equalityI) (auto simp: less_Suc_eq numeral_3_eq_3)
  with r show ?thesis by (simp add: ex_worker_def)
qed

theorem block_error_accurate_witness:
  "\<exists>n s blocks. CheckRegion ex_cfg [flat_pattern 0, flat_pattern 1] 0 0 ex_labels 1032 0
       (replicate 129 (l64_of 1 1), ex_worker) = Inr (n, s, blocks) \<and> (1, 0, 128) \<in> set blocks \<and>
     (\<forall>i<129. replicate 129 (l64_of 1 1) ! i = expected_word False (flat_pattern 1) 0 0 i)"
proof -
  let ?mem = "replicate 129 (l64_of 1 1)" and ?pats = "[flat_pattern 0, flat_pattern 1]"
  let ?ks = "mismatches (expected_word (cf_tag_mode ex_cfg) (?pats ! 0) 0 0) ?mem 0 129"
  have ne: "l64_of 1 1 \<noteq> l64_of 0 0" by (simp add: l64_of_def)
  have cfg: "\<not> cf_tag_mode ex_cfg" by (simp add: ex_cfg_def)
  have "?ks = [0..<129]" using ne by (simp add: mismatches_def cfg filter_id_conv)
  then have long: "kErrorLimit < length ?ks" by (simp add: kErrorLimit_def)
  obtain n s blocks where run: "CheckRegion ex_cfg ?pats 0 0 ex_labels 1032 0 (?mem, ex_worker) = Inr (n, s, blocks)"
    "block_errors ?pats 0 0 ?mem 129 [0..<2] = Inr blocks"
    using CheckRegion_eq [of 1032 ?mem ex_cfg ?pats 0 0 ex_labels 0 ex_worker] long cfg
    by (auto simp: numeral_2_eq_2)
  have "block_scan (flat_pattern 0) (flat_pattern 1) 0 mem (Suc 128) 0 kGood 0 0 = Inr (kBad, 0, 128)"
    if "mem = ?mem" for mem
    using that ne block_scan_flat [of 0 1 1 128 129 0 0 0] by (subst block_scan.simps) simp
  from this [OF refl]
  have "block_scan (flat_pattern 0) (flat_pattern 1) 0 ?mem 129 0 kGood 0 0 = Inr (kBad, 0, 128)" by simp
  then have "(1, 0, 128) \<in> set blocks" using run(2) by (simp add: upt_rec) auto
  then show ?thesis
    using run(1) block_error_accurate [OF _ run(1), of 1 0 128] by auto
qed

end
