(* ===== verification/VectorCopy.thy ===== *)
theory VectorCopy
  imports Checksum
begin

text \<open>
  The inline assembly of \<open>AdlerMemcpyAsm\<close> in \<^verbatim>\<open>src/src/adler32memcpy.cc\<close> at the level of
  its instructions: the SSE2 version (x86), the AArch64 version and the ARMv7 NEON version. A
  128-bit register is a pair of 64-bit lanes; the source and the destination are lists of
  64-bit words addressed by word index. Registers the code does not initialise are parameters.
  The interface \<open>adler_copier\<close> states what the page workers rely on and is interpreted on
  every copy routine.
\<close>

section \<open>Vector registers\<close>

type_synonym vreg = "u64 \<times> u64"

definition load128 :: "u64 list \<Rightarrow> nat \<Rightarrow> vreg res" where
  "load128 src i = res_bind (rd src i) (\<lambda>x. res_bind (rd src (i + 1)) (\<lambda>y. Inr (x, y)))"

text \<open>A 16-byte load that starts four bytes after word \<open>i\<close>.\<close>

definition movdqu4 :: "u64 list \<Rightarrow> nat \<Rightarrow> vreg res" where
  "movdqu4 src i =
     res_bind (rd src i) (\<lambda>x. res_bind (rd src (i + 1)) (\<lambda>y. res_bind (rd src (i + 2)) (\<lambda>z.
       Inr (l64_of (l32_h x) (l32_l y), l64_of (l32_h y) (l32_l z)))))"

definition store128 :: "u64 list \<Rightarrow> nat \<Rightarrow> vreg \<Rightarrow> u64 list res" where
  "store128 dst i v = res_bind (wr dst i (fst v)) (\<lambda>d. wr d (i + 1) (snd v))"

definition paddq :: "vreg \<Rightarrow> vreg \<Rightarrow> vreg" where
  "paddq v w = (fst v + fst w, snd v + snd w)"

definition andps_low :: "vreg \<Rightarrow> vreg" where
  "andps_low v = (fst v AND 0xffffffff, snd v AND 0xffffffff)"

text \<open>\<open>pshufd $0x39\<close>: 32-bit lanes rotated down by one.\<close>

definition pshufd_39 :: "vreg \<Rightarrow> vreg" where
  "pshufd_39 v = (l64_of (l32_h (fst v)) (l32_l (snd v)), l64_of (l32_h (snd v)) (l32_l (fst v)))"

definition trn1 :: "vreg \<Rightarrow> vreg \<Rightarrow> vreg" where
  "trn1 v w = (l64_of (l32_l (fst v)) (l32_l (fst w)), l64_of (l32_l (snd v)) (l32_l (snd w)))"

definition trn2 :: "vreg \<Rightarrow> vreg \<Rightarrow> vreg" where
  "trn2 v w = (l64_of (l32_h (fst v)) (l32_h (fst w)), l64_of (l32_h (snd v)) (l32_h (snd w)))"

definition vtrn32 :: "vreg \<Rightarrow> vreg \<Rightarrow> vreg \<times> vreg" where
  "vtrn32 v w = (trn1 v w, trn2 v w)"

definition asm_guard :: "u32 \<Rightarrow> bool" where
  "asm_guard size_in_bytes \<longleftrightarrow> drop_bit 19 size_in_bytes > 0"

text \<open>\<open>paddq\<close> into the sums, then the sums into the sums of sums.\<close>

definition accumulate :: "vreg \<times> vreg \<Rightarrow> vreg \<Rightarrow> vreg \<times> vreg" where
  "accumulate s v = (let a = paddq (fst s) v in (a, paddq (snd s) a))"

section \<open>SSE2\<close>

text \<open>The body of the loop at \<open>TOP\<close>: six loads, three stores, six accumulations.\<close>

definition sse_top :: "u64 list \<Rightarrow> u64 list \<Rightarrow> nat \<Rightarrow> vreg \<times> vreg \<Rightarrow> (u64 list \<times> (vreg \<times> vreg)) res" where
  "sse_top dst src i s =
     res_bind (load128 src i) (\<lambda>x0.
     res_bind (movdqu4 src i) (\<lambda>x1.
     res_bind (load128 src (i + 2)) (\<lambda>x2.
     res_bind (movdqu4 src (i + 2)) (\<lambda>x3.
     res_bind (load128 src (i + 4)) (\<lambda>x4.
     res_bind (movdqu4 src (i + 4)) (\<lambda>x5.
     res_bind (store128 dst i x0) (\<lambda>d0.
     res_bind (store128 d0 (i + 2) x2) (\<lambda>d1.
     res_bind (store128 d1 (i + 4) x4) (\<lambda>d2.
       Inr (d2, foldl accumulate s
                  [andps_low x0, andps_low x1, andps_low x2,
                   andps_low x3, andps_low x4, andps_low x5]))))))))))"

fun sse_loop :: "nat \<Rightarrow> u64 list \<Rightarrow> u64 list \<Rightarrow> nat \<Rightarrow> vreg \<times> vreg \<Rightarrow> (u64 list \<times> nat \<times> (vreg \<times> vreg)) res" where
  "sse_loop 0 dst src i s = Inr (dst, i, s)"
| "sse_loop (Suc n) dst src i s =
     res_bind (sse_top dst src i s) (\<lambda>(dst', s'). sse_loop n dst' src (i + 6) s')"

text \<open>\<open>REM_IS_STILL_NOT_ZERO\<close>: 16 bytes at a time while at least four 32-bit words are left.\<close>

function sse_rem :: "nat \<Rightarrow> u64 list \<Rightarrow> u64 list \<Rightarrow> nat \<Rightarrow> vreg \<times> vreg \<Rightarrow> (u64 list \<times> (vreg \<times> vreg)) res" where
  "sse_rem words dst src i s =
     (if words < 4 then Inr (dst, s)
      else res_bind (load128 src i) (\<lambda>x0.
           res_bind (load128 src i) (\<lambda>x5.
           res_bind (store128 dst i x0) (\<lambda>dst'.
             sse_rem (words - 4) dst' src (i + 2)
               (foldl accumulate s [andps_low x0, andps_low (pshufd_39 x5)])))))"
  by pat_completeness auto
termination
  by (relation "measure fst") auto

declare sse_rem.simps [simp del]

definition vreg_checksum :: "vreg \<times> vreg \<Rightarrow> AdlerChecksum" where
  "vreg_checksum s = \<lparr>ck_a1 = fst (fst s), ck_a2 = snd (fst s), ck_b1 = fst (snd s), ck_b2 = snd (snd s)\<rparr>"

text \<open>
  The whole routine. \<open>xmm\<close> holds what \<open>xmm6\<close> and \<open>xmm7\<close> contained on entry: for a size
  below 48 bytes the code jumps to \<open>END\<close> before it initialises them.
\<close>

definition AdlerMemcpyAsm_sse2 :: "vreg \<times> vreg \<Rightarrow> u64 list \<Rightarrow> u64 list \<Rightarrow> u32 \<Rightarrow> copy_result" where
  "AdlerMemcpyAsm_sse2 xmm dstmem64 srcmem64 size_in_bytes =
     (if asm_guard size_in_bytes then Inr (dstmem64, None)
      else let remaining_words = unat ((size_in_bytes mod 48) div 4);
               num_of_48_byte_units = unat (size_in_bytes div 48)
           in if num_of_48_byte_units = 0 then Inr (dstmem64, Some (vreg_checksum xmm))
              else res_bind (sse_loop num_of_48_byte_units dstmem64 srcmem64 0 ((1, 1), (0, 0)))
                (\<lambda>(dst, i, s). res_bind (sse_rem remaining_words dst srcmem64 i s)
                (\<lambda>(dst', s'). Inr (dst', Some (vreg_checksum s')))))"

section \<open>AArch64 and ARMv7\<close>

definition neon_top :: "u64 list \<Rightarrow> u64 list \<Rightarrow> nat \<Rightarrow> vreg \<times> vreg \<Rightarrow> (u64 list \<times> (vreg \<times> vreg)) res" where
  "neon_top dst src i s =
     res_bind (load128 src i) (\<lambda>v8.
     res_bind (load128 src (i + 2)) (\<lambda>v9.
     res_bind (load128 src (i + 4)) (\<lambda>v10.
     res_bind (load128 src (i + 6)) (\<lambda>v11.
     res_bind (store128 dst i v8) (\<lambda>d0.
     res_bind (store128 d0 (i + 2) v9) (\<lambda>d1.
     res_bind (store128 d1 (i + 4) v10) (\<lambda>d2.
     res_bind (store128 d2 (i + 6) v11) (\<lambda>d3.
       (let z = (0, 0);
            v12 = trn1 v8 z; v8' = trn2 v8 z;
            v13 = trn1 v9 z; v9' = trn2 v9 z;
            v14 = trn1 v10 z; v10' = trn2 v10 z;
            v15 = trn1 v11 z; v11' = trn2 v11 z
        in Inr (d3, foldl accumulate s [v12, v8', v13, v9', v14, v10', v15, v11']))))))))))"

definition neon32_top :: "u64 list \<Rightarrow> u64 list \<Rightarrow> nat \<Rightarrow> vreg \<times> vreg \<Rightarrow> (u64 list \<times> (vreg \<times> vreg)) res" where
  "neon32_top dst src i s =
     res_bind (load128 src i) (\<lambda>q8.
     res_bind (load128 src (i + 2)) (\<lambda>q9.
     res_bind (load128 src (i + 4)) (\<lambda>q10.
     res_bind (load128 src (i + 6)) (\<lambda>q11.
     res_bind (store128 dst i q8) (\<lambda>d0.
     res_bind (store128 d0 (i + 2) q9) (\<lambda>d1.
     res_bind (store128 d1 (i + 4) q10) (\<lambda>d2.
     res_bind (store128 d2 (i + 6) q11) (\<lambda>d3.
       (let z = (0, 0);
            (q8', q12) = vtrn32 q8 z;
            (q9', q13) = vtrn32 q9 z;
            (q10', q14) = vtrn32 q10 z;
            (q11', q15) = vtrn32 q11 z
        in Inr (d3, foldl accumulate s [q8', q12, q9', q13, q10', q14, q11', q15]))))))))))"

fun neon_loop ::
  "(u64 list \<Rightarrow> u64 list \<Rightarrow> nat \<Rightarrow> vreg \<times> vreg \<Rightarrow> (u64 list \<times> (vreg \<times> vreg)) res) \<Rightarrow>
   nat \<Rightarrow> u64 list \<Rightarrow> u64 list \<Rightarrow> nat \<Rightarrow> vreg \<times> vreg \<Rightarrow> (u64 list \<times> (vreg \<times> vreg)) res" where
  "neon_loop body 0 dst src i s = Inr (dst, s)"
| "neon_loop body (Suc n) dst src i s =
     res_bind (body dst src i s) (\<lambda>(dst', s'). neon_loop body n dst' src (i + 8) s')"

text \<open>
  The registers \<open>v\<close> (\<open>v0, v1\<close> or \<open>q0, q1\<close> on entry) are stored unchanged when there is no
  64-byte block: the branch \<open>ble END\<close> comes before their initialisation.
\<close>

definition AdlerMemcpyAsm_aarch64 :: "vreg \<times> vreg \<Rightarrow> u64 list \<Rightarrow> u64 list \<Rightarrow> u32 \<Rightarrow> copy_result" where
  "AdlerMemcpyAsm_aarch64 v dstmem64 srcmem64 size_in_bytes =
     (if asm_guard size_in_bytes then Inr (dstmem64, None)
      else let blocks = unat (size_in_bytes div 64)
           in if blocks = 0 then Inr (dstmem64, Some (vreg_checksum v))
              else res_bind (neon_loop neon_top blocks dstmem64 srcmem64 0 ((1, 1), (0, 0)))
                (\<lambda>(dst, s). Inr (dst, Some (vreg_checksum s))))"

definition AdlerMemcpyAsm_armv7 :: "vreg \<times> vreg \<Rightarrow> u64 list \<Rightarrow> u64 list \<Rightarrow> u32 \<Rightarrow> copy_result" where
  "AdlerMemcpyAsm_armv7 q dstmem64 srcmem64 size_in_bytes =
     (if asm_guard size_in_bytes then Inr (dstmem64, None)
      else let blocks = unat (size_in_bytes div 64)
           in if blocks = 0 then Inr (dstmem64, Some (vreg_checksum q))
              else res_bind (neon_loop neon32_top blocks dstmem64 srcmem64 0 ((1, 1), (0, 0)))
                (\<lambda>(dst, s). Inr (dst, Some (vreg_checksum s))))"

section \<open>Lanes and streams\<close>

text \<open>The two sum registers hold the two streams lane by lane.\<close>

definition lanes :: "stream \<times> stream \<Rightarrow> vreg \<times> vreg" where
  "lanes ss = ((fst (fst ss), fst (snd ss)), (snd (fst ss), snd (snd ss)))"

definition low_pair :: "u64 \<Rightarrow> u64 \<Rightarrow> vreg" where
  "low_pair x y = (ucast (l32_l x), ucast (l32_l y))"

definition high_pair :: "u64 \<Rightarrow> u64 \<Rightarrow> vreg" where
  "high_pair x y = (ucast (l32_h x), ucast (l32_h y))"

lemma mask_low: "w AND 0xffffffff = (ucast (l32_l w) :: u64)"
proof -
  have "(0xffffffff :: u64) = mask 32" by (simp add: mask_eq_exp_minus_1)
  moreover have "w AND mask 32 = (ucast (l32_l w) :: u64)"
    by (rule bit_eqI) (auto simp: l32_l_def bit_simps)
  ultimately show ?thesis by (simp only:)
qed

lemma l64_of_zero: "l64_of l 0 = ucast l"
  by (simp add: l64_of_def)

lemma l32_zero [simp]: "l32_l 0 = 0" "l32_h 0 = 0"
  by (simp_all add: l32_l_def l32_h_def)

lemma andps_low_pair [simp]: "andps_low (x, y) = low_pair x y"
  by (simp add: andps_low_def low_pair_def mask_low)

lemma low_pair_shifted [simp]:
  "low_pair (l64_of (l32_h x) p) (l64_of (l32_h y) q) = high_pair x y"
  by (simp add: low_pair_def high_pair_def)

lemma pshufd_39_pair [simp]: "andps_low (pshufd_39 (x, y)) = high_pair x y"
  by (simp add: pshufd_39_def)

lemma trn_pair [simp]: "trn1 (x, y) (0, 0) = low_pair x y" "trn2 (x, y) (0, 0) = high_pair x y"
  by (simp_all add: trn1_def trn2_def low_pair_def high_pair_def l64_of_zero)

lemma accumulate_pair:
  "accumulate (accumulate (lanes (s1, s2)) (low_pair x y)) (high_pair x y)
   = lanes (adler_add s1 x, adler_add s2 y)"
  by (simp add: accumulate_def paddq_def lanes_def low_pair_def high_pair_def adler_add_def Let_def)

lemma lanes_start: "((1, 1), (0, 0)) = lanes ((1, 0), (1, 0))"
  by (simp add: lanes_def)

lemma vreg_checksum_lanes [simp]: "vreg_checksum (lanes ss) = checksum_of ss"
  by (simp add: vreg_checksum_def lanes_def checksum_of_def)

lemma store128_Inr:
  "i + 1 < length dst \<Longrightarrow> store128 dst i (x, y) = Inr (dst[i := x, i + 1 := y])"
  by (simp add: store128_def)

lemma load128_Inr: "i + 1 < length src \<Longrightarrow> load128 src i = Inr (src ! i, src ! (i + 1))"
  by (simp add: load128_def)

lemmas vector_simps = store128_Inr load128_Inr accumulate_pair

text \<open>Words \<open>i\<close> and \<open>i + 1\<close> copied and added: one step of every loop.\<close>

definition pair_done :: "u64 list \<Rightarrow> u64 list \<Rightarrow> nat \<Rightarrow> u64 list" where
  "pair_done dst src i = dst[i := src ! i, i + 1 := src ! (i + 1)]"

lemma length_pair_done [simp]: "length (pair_done dst src i) = length dst"
  by (simp add: pair_done_def)

lemma pair_done_copied:
  "\<lbrakk>i + 1 < n; n \<le> length src; n \<le> length dst\<rbrakk> \<Longrightarrow>
   copied (pair_done dst src i) src (i + 2) n = copied dst src i n"
  using copied_step2 [of i n src dst] by (simp add: pair_done_def)

lemma adler_fold_pair:
  "\<lbrakk>i + 1 < n; n \<le> length src\<rbrakk> \<Longrightarrow>
   adler_fold (drop i (take n src)) s1 s2 =
   adler_fold (drop (i + 2) (take n src)) (adler_add s1 (src ! i)) (adler_add s2 (src ! (i + 1)))"
  by (subst drop_two_Cons) auto

lemma adler_fold_append:
  "even (length xs) \<Longrightarrow>
   adler_fold (xs @ ys) s1 s2 = (case adler_fold xs s1 s2 of (t1, t2) \<Rightarrow> adler_fold ys t1 t2)"
  by (induction xs s1 s2 rule: adler_fold.induct) auto

lemma sse_top_eq:
  assumes "i + 6 < length src" "i + 6 \<le> length dst"
  shows "sse_top dst src i (lanes (s1, s2)) =
    Inr (pair_done (pair_done (pair_done dst src i) src (i + 2)) src (i + 4),
         lanes (adler_add (adler_add (adler_add s1 (src ! i)) (src ! (i + 2))) (src ! (i + 4)),
                adler_add (adler_add (adler_add s2 (src ! (i + 1))) (src ! (i + 3))) (src ! (i + 5))))"
  using assms
  by (simp add: sse_top_def movdqu4_def vector_simps pair_done_def eval_nat_numeral)

lemma neon_top_eq:
  assumes "i + 8 \<le> length src" "i + 8 \<le> length dst"
  shows "neon_top dst src i (lanes (s1, s2)) =
    Inr (pair_done (pair_done (pair_done (pair_done dst src i) src (i + 2)) src (i + 4)) src (i + 6),
         lanes (adler_add (adler_add (adler_add (adler_add s1
                  (src ! i)) (src ! (i + 2))) (src ! (i + 4))) (src ! (i + 6)),
                adler_add (adler_add (adler_add (adler_add s2
                  (src ! (i + 1))) (src ! (i + 3))) (src ! (i + 5))) (src ! (i + 7))))"
  using assms
  by (simp add: neon_top_def vector_simps pair_done_def eval_nat_numeral Let_def)

lemma neon32_top_eq_neon_top: "neon32_top = neon_top"
  by (intro ext) (simp add: neon32_top_def neon_top_def vtrn32_def Let_def)

section \<open>The loops\<close>

lemma sse_loop_eq:
  "\<lbrakk>i + 6 * k < length src; i + 6 * k \<le> length dst\<rbrakk> \<Longrightarrow>
   sse_loop k dst src i (lanes (s1, s2)) =
     Inr (copied dst src i (i + 6 * k), i + 6 * k,
          lanes (adler_fold (drop i (take (i + 6 * k) src)) s1 s2))"
proof (induction k arbitrary: dst i s1 s2)
  case (Suc k)
  let ?n = "i + 6 * Suc k"
  have fold: "adler_fold (drop i (take ?n src)) s1 s2 =
      adler_fold (drop (i + 6) (take ?n src))
        (adler_add (adler_add (adler_add s1 (src ! i)) (src ! (i + 2))) (src ! (i + 4)))
        (adler_add (adler_add (adler_add s2 (src ! (i + 1))) (src ! (i + 3))) (src ! (i + 5)))"
    using Suc.prems adler_fold_pair [of i ?n src] adler_fold_pair [of "i + 2" ?n src]
      adler_fold_pair [of "i + 4" ?n src]
    by (simp add: eval_nat_numeral)
  have copy: "copied (pair_done (pair_done (pair_done dst src i) src (i + 2)) src (i + 4)) src (i + 6) ?n
      = copied dst src i ?n"
    using Suc.prems pair_done_copied [of i ?n src dst]
      pair_done_copied [of "i + 2" ?n src "pair_done dst src i"]
      pair_done_copied [of "i + 4" ?n src "pair_done (pair_done dst src i) src (i + 2)"]
    by (simp add: eval_nat_numeral)
  show ?case
    using Suc.prems Suc.IH [of "i + 6"] fold copy
    by (simp add: sse_top_eq add.assoc)
qed simp

lemma sse_rem_eq:
  "\<lbrakk>i + 2 * k \<le> length src; i + 2 * k \<le> length dst\<rbrakk> \<Longrightarrow>
   sse_rem (4 * k) dst src i (lanes (s1, s2)) =
     Inr (copied dst src i (i + 2 * k), lanes (adler_fold (drop i (take (i + 2 * k) src)) s1 s2))"
proof (induction k arbitrary: dst i s1 s2)
  case 0
  then show ?case by (simp add: sse_rem.simps)
next
  case (Suc k)
  let ?n = "i + 2 * Suc k"
  have "sse_rem (4 * Suc k) dst src i (lanes (s1, s2)) =
        sse_rem (4 * k) (pair_done dst src i) src (i + 2)
          (lanes (adler_add s1 (src ! i), adler_add s2 (src ! (i + 1))))"
    using Suc.prems by (subst sse_rem.simps) (simp add: vector_simps pair_done_def)
  then show ?case
    using Suc.prems Suc.IH [of "i + 2" "pair_done dst src i"]
      pair_done_copied [of i ?n src dst] adler_fold_pair [of i ?n src]
    by simp
qed

lemma neon_loop_eq:
  "\<lbrakk>i + 8 * k \<le> length src; i + 8 * k \<le> length dst\<rbrakk> \<Longrightarrow>
   neon_loop neon_top k dst src i (lanes (s1, s2)) =
     Inr (copied dst src i (i + 8 * k), lanes (adler_fold (drop i (take (i + 8 * k) src)) s1 s2))"
proof (induction k arbitrary: dst i s1 s2)
  case (Suc k)
  let ?n = "i + 8 * Suc k"
  let ?d1 = "pair_done dst src i"
  let ?d2 = "pair_done ?d1 src (i + 2)"
  let ?d3 = "pair_done ?d2 src (i + 4)"
  have fold: "adler_fold (drop i (take ?n src)) s1 s2 =
      adler_fold (drop (i + 8) (take ?n src))
        (adler_add (adler_add (adler_add (adler_add s1
           (src ! i)) (src ! (i + 2))) (src ! (i + 4))) (src ! (i + 6)))
        (adler_add (adler_add (adler_add (adler_add s2
           (src ! (i + 1))) (src ! (i + 3))) (src ! (i + 5))) (src ! (i + 7)))"
    using Suc.prems adler_fold_pair [of i ?n src] adler_fold_pair [of "i + 2" ?n src]
      adler_fold_pair [of "i + 4" ?n src] adler_fold_pair [of "i + 6" ?n src]
    by (simp add: eval_nat_numeral)
  have copy: "copied (pair_done ?d3 src (i + 6)) src (i + 8) ?n = copied dst src i ?n"
    using Suc.prems pair_done_copied [of i ?n src dst] pair_done_copied [of "i + 2" ?n src ?d1]
      pair_done_copied [of "i + 4" ?n src ?d2] pair_done_copied [of "i + 6" ?n src ?d3]
    by (simp add: eval_nat_numeral)
  show ?case
    using Suc.prems Suc.IH [of "i + 8"] fold copy
    by (simp add: neon_top_eq add.assoc)
qed simp

section \<open>The interface of the copy routines\<close>

text \<open>
  What \<open>CrcCopyPage\<close> and \<open>CrcWarmCopyPage\<close> need from a copy routine: for the sizes it
  supports, the destination becomes the source and the checksum is that of the source.
\<close>

locale adler_copier =
  fixes copy :: "u64 list \<Rightarrow> u64 list \<Rightarrow> u32 \<Rightarrow> copy_result"
    and fits :: "u32 \<Rightarrow> bool"
  assumes copy_eq: "\<lbrakk>fits n; length src = unat n div 8; length dst = length src\<rbrakk> \<Longrightarrow>
      copy dst src n = Inr (src, Some (adler_of src))"
    and fits_even: "fits n \<Longrightarrow> even (unat n div 8)"
begin

lemma copy_total:
  "\<lbrakk>fits n; length src = unat n div 8; length dst = length src\<rbrakk> \<Longrightarrow>
   \<exists>crc. copy dst src n = Inr (src, Some crc)"
  by (simp add: copy_eq)

lemma copy_detects:
  assumes "fits n" "length good = unat n div 8" "length dst = length good"
    and "i < length good" "v \<noteq> good ! i" "copy dst (good[i := v]) n = Inr (dst', Some crc)"
  shows "\<not> adler_equals crc (adler_of good)"
  using assms copy_eq [of n "good[i := v]" dst] adler_of_update_neq [of good i v] fits_even [of n]
  by auto

end

text \<open>The sizes each routine handles completely.\<close>

definition warm_fits :: "u32 \<Rightarrow> bool" where
  "warm_fits n \<longleftrightarrow> c_fits n \<and> n \<noteq> 0"

definition sse_fits :: "u32 \<Rightarrow> bool" where
  "sse_fits n \<longleftrightarrow> unat n mod 16 = 0 \<and> \<not> asm_guard n \<and> 48 \<le> unat n \<and> unat n mod 48 \<noteq> 0"

definition neon_fits :: "u32 \<Rightarrow> bool" where
  "neon_fits n \<longleftrightarrow> unat n mod 64 = 0 \<and> \<not> asm_guard n \<and> 64 \<le> unat n"

definition without_log :: "(u64 list \<times> AdlerChecksum option \<times> bool) res \<Rightarrow> copy_result" where
  "without_log r = res_bind r (\<lambda>(dst, crc, printed). Inr (dst, crc))"

lemma sse_parts:
  assumes "unat n mod 16 = 0"
  obtains k where "unat (n mod 48 div 4 :: u32) = 4 * k" "unat n div 8 = 6 * unat (n div 48) + 2 * k"
    "unat n mod 48 = 16 * k"
proof -
  obtain q where q: "unat n = 16 * q" using assms by auto
  have m: "16 * q mod 48 = 16 * (q mod 3)" and d: "16 * q div 48 = q div 3"
    using mult_mod_right [of 16 q 3] div_mult2_eq [of "16 * q" 16 3] by simp_all
  have "2 * q = 6 * (q div 3) + 2 * (q mod 3)"
    using mult_div_mod_eq [of 3 q] by linarith
  with q m d show ?thesis
    by (intro that [of "q mod 3"]) (simp_all add: unat_div_distrib unat_mod_distrib)
qed

lemma AdlerMemcpyAsm_sse2_eq:
  assumes "sse_fits n" "length src = unat n div 8" "length dst = length src"
  shows "AdlerMemcpyAsm_sse2 xmm dst src n = Inr (src, Some (adler_of src))"
proof -
  obtain k where k: "unat (n mod 48 div 4 :: u32) = 4 * k"
      "unat n div 8 = 6 * unat (n div 48) + 2 * k" "unat n mod 48 = 16 * k"
    using assms(1) by (auto simp: sse_fits_def intro: sse_parts [of n])
  let ?m = "6 * unat (n div 48)"
  have num: "unat (n div 48) \<noteq> 0" and kpos: "0 < k"
    using assms(1) k(3) by (auto simp: sse_fits_def unat_div_distrib)
  have loop: "sse_loop (unat (n div 48)) dst src 0 ((1, 1), 0, 0) =
      Inr (copied dst src 0 ?m, ?m, lanes (adler_fold (take ?m src) (1, 0) (1, 0)))"
    using sse_loop_eq [of 0 "unat (n div 48)" src dst "(1, 0)" "(1, 0)"] assms k kpos
    by (simp add: lanes_start [simplified])
  obtain t1 t2 where t: "adler_fold (take ?m src) (1, 0) (1, 0) = (t1, t2)"
    by (rule prod.exhaust)
  have rem: "sse_rem (4 * k) (copied dst src 0 ?m) src ?m (lanes (t1, t2)) =
      Inr (copied (copied dst src 0 ?m) src ?m (?m + 2 * k), lanes (adler_fold (drop ?m src) t1 t2))"
    using sse_rem_eq [of ?m k src "copied dst src 0 ?m" t1 t2] assms k by simp
  have copy: "copied (copied dst src 0 ?m) src ?m (?m + 2 * k) = src"
    using assms k by (simp add: copied_def)
  have fold: "adler_fold (drop ?m src) t1 t2 = adler_fold src (1, 0) (1, 0)"
    using adler_fold_append [of "take ?m src" "drop ?m src" "(1, 0)" "(1, 0)"] t assms k
    by simp
  show ?thesis
    using assms(1) num loop rem copy fold t k(1)
    by (simp add: AdlerMemcpyAsm_sse2_def sse_fits_def adler_of_def)
qed

lemma AdlerMemcpyAsm_aarch64_eq:
  assumes "neon_fits n" "length src = unat n div 8" "length dst = length src"
  shows "AdlerMemcpyAsm_aarch64 v dst src n = Inr (src, Some (adler_of src))"
proof -
  have n: "unat n div 8 = 8 * unat (n div 64)" "unat (n div 64) \<noteq> 0"
    using assms(1) by (auto simp: neon_fits_def unat_div_distrib)
  have "neon_loop neon_top (unat (n div 64)) dst src 0 ((1, 1), 0, 0) =
      Inr (src, lanes (adler_fold src (1, 0) (1, 0)))"
    using neon_loop_eq [of 0 "unat (n div 64)" src dst "(1, 0)" "(1, 0)"] assms n
    by (simp add: lanes_start [simplified])
  then show ?thesis
    using assms(1) n by (simp add: AdlerMemcpyAsm_aarch64_def neon_fits_def adler_of_def)
qed

lemma armv7_eq_aarch64: "AdlerMemcpyAsm_armv7 = AdlerMemcpyAsm_aarch64"
  by (intro ext) (simp add: AdlerMemcpyAsm_armv7_def AdlerMemcpyAsm_aarch64_def
      neon32_top_eq_neon_top Let_def)

interpretation memcpy_c: adler_copier AdlerMemcpyC c_fits
  by unfold_locales (simp_all add: AdlerMemcpyC_eq c_fits_def even_words)

interpretation memcpy_warm: adler_copier "\<lambda>dst src n. without_log (AdlerMemcpyWarmC F dst src n)" warm_fits
  for F :: "'f fp"
proof
  fix n and dst src :: "u64 list"
  assume fit: "warm_fits n" "length src = unat n div 8" "length dst = length src"
  then have "src \<noteq> []"
    by (auto simp: warm_fits_def c_fits_def unat_eq_0)
  with fit AdlerMemcpyWarmC_eq [of n src dst F]
  show "without_log (AdlerMemcpyWarmC F dst src n) = Inr (src, Some (adler_of src))"
    by (auto simp: warm_fits_def without_log_def)
qed (simp add: warm_fits_def c_fits_def even_words)

interpretation memcpy_sse2: adler_copier "AdlerMemcpyAsm_sse2 xmm" sse_fits for xmm
  by unfold_locales (simp_all add: AdlerMemcpyAsm_sse2_eq sse_fits_def even_words)

interpretation memcpy_aarch64: adler_copier "AdlerMemcpyAsm_aarch64 v" neon_fits for v
  by unfold_locales (auto simp: AdlerMemcpyAsm_aarch64_eq neon_fits_def)

interpretation memcpy_armv7: adler_copier "AdlerMemcpyAsm_armv7 q" neon_fits for q
  by unfold_locales (auto simp: armv7_eq_aarch64 AdlerMemcpyAsm_aarch64_eq neon_fits_def)

section \<open>Properties\<close>

text \<open>
  C34. Equivalence: for every size they handle, and whatever the vector registers held before,
  the SSE2, AArch64 and ARMv7 assembly routines return what \<open>AdlerMemcpyC\<close> returns: the same
  copy and the same checksum.
\<close>

theorem asm_copies_agree:
  assumes "length src = unat n div 8" "length dst = length src"
  shows "(sse_fits n \<longrightarrow> AdlerMemcpyAsm_sse2 xmm dst src n = AdlerMemcpyC dst src n) \<and>
    (neon_fits n \<longrightarrow> AdlerMemcpyAsm_aarch64 v dst src n = AdlerMemcpyC dst src n \<and>
                  AdlerMemcpyAsm_armv7 q dst src n = AdlerMemcpyC dst src n)"
proof -
  have guard: "\<not> asm_guard n \<Longrightarrow> \<not> size_guard n"
    by (auto simp: asm_guard_def size_guard_unat word_less_nat_alt drop_bit_eq_div
        unat_div_distrib)
  then have fits: "sse_fits n \<or> neon_fits n \<Longrightarrow> c_fits n"
    by (auto simp: sse_fits_def neon_fits_def c_fits_def elim: mod_mod_cancel)
  show ?thesis
    using assms fits
    by (simp add: memcpy_sse2.copy_eq memcpy_aarch64.copy_eq memcpy_armv7.copy_eq memcpy_c.copy_eq)
qed

section \<open>Concrete instances\<close>

theorem asm_copies_agree_witness:
  "AdlerMemcpyAsm_sse2 ((3, 4), (5, 6)) (replicate 8 0) (replicate 8 7) 64 =
     AdlerMemcpyC (replicate 8 0) (replicate 8 7) 64 \<and>
   AdlerMemcpyAsm_aarch64 ((3, 4), (5, 6)) (replicate 8 0) (replicate 8 7) 64 =
     AdlerMemcpyC (replicate 8 0) (replicate 8 7) 64"
proof -
  have "sse_fits 64" "neon_fits 64"
    by (simp_all add: sse_fits_def neon_fits_def asm_guard_def)
  then show ?thesis
    using asm_copies_agree [of "replicate 8 7" 64 "replicate 8 0" "((3, 4), (5, 6))" "((3, 4), (5, 6))" "((3, 4), (5, 6))"]
    by simp
qed

end
