(* ===== verification/PageQueue.thy ===== *)
theory PageQueue
  imports SatPrelude "HOL-Library.Multiset"
begin

text \<open>
  Page records and the queue with one lock: \<^verbatim>\<open>src/src/queue.h\<close> and \<^verbatim>\<open>src/src/queue.cc\<close>. The
  queue is a ring buffer with one slot kept free; \<open>Push\<close> appends, \<open>PopRandom\<close> swaps a random
  entry to the front and removes it. Each operation runs under the queue's mutex, so it is one
  atomic step. The interface \<open>page_bag\<close> is what the page pools rely on.
\<close>

section \<open>Page records\<close>

text \<open>
  A pattern pointer is an index into the pattern list, \<open>None\<close> the null pointer. The address of a
  page that is not mapped is 0.
\<close>

record page_entry =
  pe_offset :: u64
  pe_addr :: u64
  pe_paddr :: u64
  pe_pattern :: "nat option"
  pe_tag :: u32
  pe_touch :: u32
  pe_ts :: u64
  pe_lastcpu :: u32
  pe_write_dram_frequency :: int
  pe_lastpattern :: "nat option"

definition kDontCareTag :: u32 where
  "kDontCareTag = - 1"

definition kInvalidTag :: u32 where
  "kInvalidTag = 0xf001"

definition init_pe :: "page_entry \<Rightarrow> page_entry" where
  "init_pe pe =
     pe\<lparr>pe_offset := 0, pe_addr := 0, pe_pattern := None, pe_tag := kInvalidTag, pe_touch := 0,
        pe_ts := 0, pe_lastcpu := 0, pe_write_dram_frequency := - 1\<rparr>"

section \<open>The ring buffer\<close>

record PageEntryQueue =
  q_pages :: "page_entry list"
  nextin :: nat
  nextout :: nat
  q_size :: nat
  pushed :: nat
  popped :: nat

text \<open>The array is not initialised by the constructor; its contents are a parameter.\<close>

definition PageEntryQueue_new :: "(nat \<Rightarrow> page_entry) \<Rightarrow> nat \<Rightarrow> PageEntryQueue" where
  "PageEntryQueue_new garbage queuesize =
     \<lparr>q_pages = map garbage [0..<queuesize + 1],
      nextin = 0, nextout = 0, q_size = queuesize + 1, pushed = 0, popped = 0\<rparr>"

definition Push :: "page_entry \<Rightarrow> PageEntryQueue \<Rightarrow> bool \<times> PageEntryQueue" where
  "Push pe q =
     (let nextnextin = (nextin q + 1) mod q_size q
      in if nextnextin \<noteq> nextout q then
           (True, q\<lparr>q_pages := (q_pages q)[nextin q := pe], nextin := nextnextin,
                    pushed := pushed q + 1\<rparr>)
         else (False, q))"

text \<open>
  \<open>rnd\<close> is the value of \<open>random()\<close>. The C++ index arithmetic is on non-negative \<open>int64\<close>
  values; \<open>nextin_ - 1 + q_size_\<close> is written so that it does not truncate at 0.
\<close>

definition PopRandom :: "nat \<Rightarrow> PageEntryQueue \<Rightarrow> page_entry option \<times> PageEntryQueue" where
  "PopRandom rnd q =
     (if nextin q \<noteq> nextout q then
        let lastin = (nextin q + q_size q - 1) mod q_size q;
            entries = (lastin + q_size q - nextout q) mod q_size q;
            newindex = (if entries \<noteq> 0 then (rnd mod entries + nextout q) mod q_size q
                        else nextout q);
            tmp = q_pages q ! nextout q;
            pages = (q_pages q)[nextout q := q_pages q ! newindex];
            pages' = pages[newindex := tmp]
        in (Some (pages' ! nextout q),
            q\<lparr>q_pages := pages', nextout := (nextout q + 1) mod q_size q, popped := popped q + 1\<rparr>)
      else (None, q))"

section \<open>The queue as a list\<close>

definition q_inv :: "PageEntryQueue \<Rightarrow> bool" where
  "q_inv q \<longleftrightarrow> 0 < q_size q \<and> length (q_pages q) = q_size q \<and> nextin q < q_size q \<and> nextout q < q_size q"

definition q_count :: "PageEntryQueue \<Rightarrow> nat" where
  "q_count q = (nextin q + q_size q - nextout q) mod q_size q"

definition q_slot :: "PageEntryQueue \<Rightarrow> nat \<Rightarrow> nat" where
  "q_slot q k = (nextout q + k) mod q_size q"

definition q_list :: "PageEntryQueue \<Rightarrow> page_entry list" where
  "q_list q = map (\<lambda>k. q_pages q ! q_slot q k) [0..<q_count q]"

lemma length_q_list [simp]: "length (q_list q) = q_count q"
  by (simp add: q_list_def)

lemma nth_q_list [simp]: "k < q_count q \<Longrightarrow> q_list q ! k = q_pages q ! q_slot q k"
  by (simp add: q_list_def)

lemma q_count_less: "q_inv q \<Longrightarrow> q_count q < q_size q"
  by (simp add: q_inv_def q_count_def)

lemma ring_cases:
  assumes "q_inv q"
  shows "q_count q = (if nextout q \<le> nextin q then nextin q - nextout q
                      else nextin q + q_size q - nextout q)"
  using assms by (auto simp: q_inv_def q_count_def mod_two_laps)

lemma q_slot_count: "q_inv q \<Longrightarrow> q_slot q (q_count q) = nextin q"
  by (auto simp: ring_cases q_slot_def q_inv_def mod_two_laps)

lemma q_slot_less: "q_inv q \<Longrightarrow> q_slot q k < q_size q"
  by (simp add: q_inv_def q_slot_def)

lemma q_slot_inj: "q_inv q \<Longrightarrow> j < q_size q \<Longrightarrow> k < q_size q \<Longrightarrow> q_slot q j = q_slot q k \<longleftrightarrow> j = k"
  by (auto simp: q_slot_def dest: mod_add_inj)

lemma Push_full: "q_inv q \<Longrightarrow> (nextin q + 1) mod q_size q = nextout q \<longleftrightarrow> q_count q + 1 = q_size q"
  by (auto simp: ring_cases q_inv_def mod_Suc)

lemma Push_inv: "q_inv q \<Longrightarrow> q_inv (snd (Push pe q))"
  by (simp add: Push_def q_inv_def Let_def)

lemma Push_list:
  assumes "q_inv q"
  shows "Push pe q = (False, q) \<and> q_count q + 1 = q_size q \<or>
         fst (Push pe q) \<and> q_count q + 1 < q_size q \<and> q_list (snd (Push pe q)) = q_list q @ [pe]"
proof (cases "q_count q + 1 = q_size q")
  case True
  then show ?thesis using Push_full [OF assms] by (simp add: Push_def)
next
  case False
  let ?q = "snd (Push pe q)"
  have room: "q_count q + 1 < q_size q" using False q_count_less [OF assms] by simp
  have push: "Push pe q = (True, q\<lparr>q_pages := (q_pages q)[nextin q := pe],
      nextin := (nextin q + 1) mod q_size q, pushed := pushed q + 1\<rparr>)"
    using False Push_full [OF assms] by (simp add: Push_def)
  have inv: "q_inv ?q" by (rule Push_inv [OF assms])
  have count: "q_count ?q = Suc (q_count q)"
    using assms room ring_cases [OF inv] ring_cases [OF assms]
    by (auto simp: push q_inv_def mod_Suc split: if_splits)
  have slot: "q_slot ?q k = q_slot q k" for k by (simp add: push q_slot_def)
  have "q_list ?q ! k = (q_list q @ [pe]) ! k" if "k < Suc (q_count q)" for k
  proof (cases "k = q_count q")
    case True
    then show ?thesis
      using assms count slot by (simp add: nth_append q_slot_count) (simp add: push q_inv_def)
  next
    case less: False
    then have "q_slot q k \<noteq> nextin q"
      using that room q_slot_inj [OF assms, of k "q_count q"] q_slot_count [OF assms] by simp
    then show ?thesis
      using that less count slot by (simp add: nth_append) (simp add: push)
  qed
  then have "q_list ?q = q_list q @ [pe]"
    by (intro nth_equalityI) (simp_all add: count)
  with room push show ?thesis by simp
qed

text \<open>The index, from the oldest entry, that \<open>PopRandom\<close> chooses among \<open>n\<close> entries.\<close>

definition pop_index :: "nat \<Rightarrow> nat \<Rightarrow> nat" where
  "pop_index rnd n = (if n = 1 then 0 else rnd mod (n - 1))"

lemma pop_index_less: "0 < n \<Longrightarrow> pop_index rnd n < n"
  by (auto simp: pop_index_def intro: less_trans [OF mod_less_divisor])

lemma q_count_0: "q_inv q \<Longrightarrow> q_count q = 0 \<longleftrightarrow> nextin q = nextout q"
  by (auto simp: ring_cases q_inv_def)

lemma q_slot_0: "q_inv q \<Longrightarrow> q_slot q 0 = nextout q"
  by (simp add: q_inv_def q_slot_def)

lemma PopRandom_entries:
  assumes "q_inv q" "nextin q \<noteq> nextout q"
  shows "((nextin q + q_size q - 1) mod q_size q + q_size q - nextout q) mod q_size q = q_count q - 1"
proof -
  have lt: "nextin q < q_size q" "nextout q < q_size q" using assms by (auto simp: q_inv_def)
  have last: "(nextin q + q_size q - 1) mod q_size q =
    (if nextin q = 0 then q_size q - 1 else nextin q - 1)"
    using lt by (simp add: mod_two_laps)
  show ?thesis
    using lt assms(2) unfolding last ring_cases [OF assms(1)] by (auto simp: mod_two_laps)
qed

lemma PopRandom_eq:
  fixes rnd :: nat
  assumes "q_inv q" "nextin q \<noteq> nextout q"
  defines "k \<equiv> q_slot q (pop_index rnd (q_count q))"
  shows "PopRandom rnd q =
    (Some (q_pages q ! k),
     q\<lparr>q_pages := (q_pages q)[nextout q := q_pages q ! k, k := q_pages q ! nextout q],
       nextout := (nextout q + 1) mod q_size q, popped := popped q + 1\<rparr>)"
proof -
  have pos: "0 < q_count q" using assms q_count_0 by fastforce
  have k: "k = (if q_count q - 1 \<noteq> 0 then (rnd mod (q_count q - 1) + nextout q) mod q_size q
                else nextout q)"
    using pos q_slot_0 [OF assms(1)] by (auto simp: k_def pop_index_def q_slot_def add.commute)
  have "k < length (q_pages q)" "nextout q < length (q_pages q)"
    using q_slot_less [OF assms(1)] assms(1) by (auto simp: k_def q_inv_def)
  then have swap: "(q_pages q)[nextout q := q_pages q ! k, k := q_pages q ! nextout q] ! nextout q
      = q_pages q ! k"
    by (cases "k = nextout q") simp_all
  show ?thesis
    using assms(2) swap unfolding PopRandom_def Let_def PopRandom_entries [OF assms(1,2)] k [symmetric]
    by simp
qed

lemma PopRandom_empty: "q_inv q \<Longrightarrow> q_count q = 0 \<Longrightarrow> PopRandom rnd q = (None, q)"
  by (simp add: PopRandom_def q_count_0)

lemma PopRandom_inv: "q_inv q \<Longrightarrow> q_inv (snd (PopRandom rnd q))"
  by (auto simp: PopRandom_def q_inv_def Let_def)

lemma PopRandom_list:
  fixes rnd :: nat
  assumes "q_inv q" "0 < q_count q"
  defines "k \<equiv> pop_index rnd (q_count q)"
  shows "fst (PopRandom rnd q) = Some (q_list q ! k) \<and>
         q_list (snd (PopRandom rnd q)) = tl ((q_list q)[k := q_list q ! 0])"
proof -
  let ?q = "snd (PopRandom rnd q)"
  have ne: "nextin q \<noteq> nextout q" using assms(1,2) q_count_0 by fastforce
  note pop = PopRandom_eq [OF assms(1) ne, of rnd, folded k_def]
  have k: "k < q_count q" using assms(2) by (simp add: k_def pop_index_less)
  have inv: "q_inv ?q" by (rule PopRandom_inv [OF assms(1)])
  have count: "q_count ?q = q_count q - 1"
    using assms(1) ne ring_cases [OF inv] ring_cases [OF assms(1)]
    by (auto simp: pop q_inv_def mod_Suc split: if_splits)
  have slot: "q_slot ?q j = q_slot q (Suc j)" for j
    by (simp add: pop q_slot_def mod_add_left_eq)
  have "q_list ?q ! j = tl ((q_list q)[k := q_list q ! 0]) ! j" if j: "j < q_count q - 1" for j
  proof -
    have Suc_j: "Suc j < q_count q" using j by simp
    have lt: "q_slot q i < length (q_pages q)" for i
      using q_slot_less [OF assms(1)] assms(1) by (simp add: q_inv_def)
    have sizes: "q_count q < q_size q" by (rule q_count_less [OF assms(1)])
    have "q_slot q (Suc j) \<noteq> nextout q"
      using q_slot_inj [OF assms(1), of "Suc j" 0] Suc_j sizes by (simp add: q_slot_0 [OF assms(1)])
    moreover have "q_slot q (Suc j) = q_slot q k \<longleftrightarrow> Suc j = k"
      using q_slot_inj [OF assms(1), of "Suc j" k] Suc_j k sizes by simp
    moreover have "q_list ?q ! j = q_pages ?q ! q_slot q (Suc j)" using j count slot by simp
    moreover have "tl ((q_list q)[k := q_list q ! 0]) ! j = (q_list q)[k := q_list q ! 0] ! Suc j"
      using j by (simp add: nth_tl)
    ultimately show ?thesis
      using Suc_j lt [of k] assms(2)
      by (cases "Suc j = k") (simp_all add: pop q_slot_0 [OF assms(1)])
  qed
  then have "q_list ?q = tl ((q_list q)[k := q_list q ! 0])"
    by (intro nth_equalityI) (simp_all add: count)
  then show ?thesis using k by (simp add: pop)
qed

lemma mset_swap_out:
  assumes "k < length xs"
  shows "add_mset (xs ! k) (mset (tl (xs[k := xs ! 0]))) = mset xs"
proof (cases xs)
  case Nil
  then show ?thesis using assms by simp
next
  case (Cons x ys)
  show ?thesis
  proof (cases k)
    case 0
    then show ?thesis using Cons by simp
  next
    case (Suc j)
    then show ?thesis using Cons assms by (simp add: mset_update)
  qed
qed

section \<open>The interface the page pools use\<close>

text \<open>
  A bounded bag: \<open>put\<close> succeeds exactly when there is room, \<open>get\<close> fails exactly on the empty
  bag. Clients see the contents as a multiset.
\<close>

datatype 'e bag_op = Put 'e | Get nat

text \<open>Running a sequence of operations, with the elements accepted and the elements handed out.\<close>

primrec bag_run :: "('e \<Rightarrow> 's \<Rightarrow> bool \<times> 's) \<Rightarrow> (nat \<Rightarrow> 's \<Rightarrow> 'e option \<times> 's) \<Rightarrow>
    'e bag_op list \<Rightarrow> 's \<Rightarrow> 'e multiset \<times> 'e multiset \<times> 's" where
  "bag_run put get [] s = ({#}, {#}, s)"
| "bag_run put get (x # xs) s =
     (case x of
        Put e \<Rightarrow> (case put e s of (ok, s') \<Rightarrow> case bag_run put get xs s' of (i, out, t) \<Rightarrow>
                  (if ok then add_mset e i else i, out, t))
      | Get r \<Rightarrow> (case get r s of (e, s') \<Rightarrow> case bag_run put get xs s' of (i, out, t) \<Rightarrow>
                  (i, case e of None \<Rightarrow> out | Some e \<Rightarrow> add_mset e out, t)))"

locale page_bag =
  fixes put :: "'e \<Rightarrow> 's \<Rightarrow> bool \<times> 's"
    and get :: "nat \<Rightarrow> 's \<Rightarrow> 'e option \<times> 's"
    and invar :: "'s \<Rightarrow> bool"
    and bag :: "'s \<Rightarrow> 'e multiset"
    and cap :: "'s \<Rightarrow> nat"
  assumes put_invar: "invar s \<Longrightarrow> invar (snd (put e s))"
    and get_invar: "invar s \<Longrightarrow> invar (snd (get r s))"
    and put_cap: "invar s \<Longrightarrow> cap (snd (put e s)) = cap s"
    and get_cap: "invar s \<Longrightarrow> cap (snd (get r s)) = cap s"
    and bag_cap: "invar s \<Longrightarrow> size (bag s) \<le> cap s"
    and put_full: "invar s \<Longrightarrow> size (bag s) = cap s \<Longrightarrow> put e s = (False, s)"
    and put_room: "invar s \<Longrightarrow> size (bag s) < cap s \<Longrightarrow>
      fst (put e s) \<and> bag (snd (put e s)) = add_mset e (bag s)"
    and get_empty: "invar s \<Longrightarrow> bag s = {#} \<Longrightarrow> get r s = (None, s)"
    and get_some: "invar s \<Longrightarrow> bag s \<noteq> {#} \<Longrightarrow>
      \<exists>e. fst (get r s) = Some e \<and> bag s = add_mset e (bag (snd (get r s)))"
begin

lemma put_bag: "invar s \<Longrightarrow> bag (snd (put e s)) = (if fst (put e s) then add_mset e (bag s) else bag s)"
  using put_full [of s e] put_room [of s e] bag_cap [of s] by (cases "size (bag s) = cap s") auto

lemma get_bag:
  "invar s \<Longrightarrow> bag s = (case fst (get r s) of None \<Rightarrow> bag (snd (get r s))
                     | Some e \<Rightarrow> add_mset e (bag (snd (get r s))))"
  using get_empty [of s r] get_some [of s r] by (cases "bag s = {#}") auto

lemma bag_run_conserves:
  "\<lbrakk>invar s; bag_run put get xs s = (i, out, t)\<rbrakk> \<Longrightarrow> invar t \<and> cap t = cap s \<and> bag s + i = bag t + out"
proof (induction xs arbitrary: s i out t)
  case (Cons x xs)
  show ?case
  proof (cases x)
    case (Put e)
    obtain ok s' i' where put: "put e s = (ok, s')" and run: "bag_run put get xs s' = (i', out, t)"
      and i: "i = (if ok then add_mset e i' else i')"
      using Cons.prems(2) Put by (auto split: prod.splits)
    have "invar t \<and> cap t = cap s' \<and> bag s' + i' = bag t + out"
      using Cons.IH [OF _ run] put_invar [OF Cons.prems(1), of e] put by simp
    then show ?thesis
      using put_cap [OF Cons.prems(1), of e] put_bag [OF Cons.prems(1), of e] put i
      by (simp split: if_splits)
  next
    case (Get r)
    obtain e s' out' where get: "get r s = (e, s')" and run: "bag_run put get xs s' = (i, out', t)"
      and out: "out = (case e of None \<Rightarrow> out' | Some e \<Rightarrow> add_mset e out')"
      using Cons.prems(2) Get by (auto split: prod.splits)
    have "invar t \<and> cap t = cap s' \<and> bag s' + i = bag t + out'"
      using Cons.IH [OF _ run] get_invar [OF Cons.prems(1), of r] get by simp
    then show ?thesis
      using get_cap [OF Cons.prems(1), of r] get_bag [OF Cons.prems(1), of r] get out
      by (simp split: option.splits)
  qed
qed simp

end

definition q_bag :: "PageEntryQueue \<Rightarrow> page_entry multiset" where
  "q_bag q = mset (q_list q)"

definition q_cap :: "PageEntryQueue \<Rightarrow> nat" where
  "q_cap q = q_size q - 1"

lemma size_q_bag [simp]: "size (q_bag q) = q_count q"
  by (simp add: q_bag_def)

lemma Push_q_size [simp]: "q_size (snd (Push pe q)) = q_size q"
  by (simp add: Push_def Let_def)

lemma PopRandom_q_size [simp]: "q_size (snd (PopRandom rnd q)) = q_size q"
  by (simp add: PopRandom_def Let_def)

lemma q_bag_empty: "q_bag q = {#} \<longleftrightarrow> q_count q = 0"
  using size_q_bag [of q] by (metis size_eq_0_iff_empty)

interpretation one_lock: page_bag Push PopRandom q_inv q_bag q_cap
proof
  fix q :: PageEntryQueue and pe rnd
  assume inv: "q_inv q"
  show "q_inv (snd (Push pe q))" by (rule Push_inv [OF inv])
  show "q_inv (snd (PopRandom rnd q))" by (rule PopRandom_inv [OF inv])
  show "q_cap (snd (Push pe q)) = q_cap q" "q_cap (snd (PopRandom rnd q)) = q_cap q"
    by (simp_all add: q_cap_def)
  show "size (q_bag q) \<le> q_cap q" using q_count_less [OF inv] by (simp add: q_cap_def)
  show "Push pe q = (False, q)" if "size (q_bag q) = q_cap q"
    using that Push_list [OF inv, of pe] q_count_less [OF inv] by (auto simp: q_cap_def)
  show "fst (Push pe q) \<and> q_bag (snd (Push pe q)) = add_mset pe (q_bag q)"
    if "size (q_bag q) < q_cap q"
    using that Push_list [OF inv, of pe] by (auto simp: q_cap_def q_bag_def)
  show "PopRandom rnd q = (None, q)" if "q_bag q = {#}"
    using that PopRandom_empty [OF inv] by (simp add: q_bag_empty)
  show "\<exists>e. fst (PopRandom rnd q) = Some e \<and> q_bag q = add_mset e (q_bag (snd (PopRandom rnd q)))"
    if "q_bag q \<noteq> {#}"
    using that PopRandom_list [OF inv, of rnd] mset_swap_out [of "pop_index rnd (q_count q)" "q_list q"]
    by (auto simp: q_bag_empty pop_index_less) (simp_all add: q_bag_def)
qed

section \<open>Properties\<close>

lemma PageEntryQueue_new_ok:
  "q_inv (PageEntryQueue_new garbage n)" "q_bag (PageEntryQueue_new garbage n) = {#}"
  "q_cap (PageEntryQueue_new garbage n) = n"
  by (simp_all add: PageEntryQueue_new_def q_inv_def q_bag_def q_cap_def q_list_def q_count_def)

text \<open>
  C26. A queue built for \<open>n\<close> pages neither loses nor duplicates a page: after any sequence of
  pushes and random pops (with any values of \<open>random()\<close>) the accepted pages are exactly the pages
  handed out and the pages still queued, and at most \<open>n\<close> are queued.
\<close>

theorem queue_conserves_pages:
  assumes "bag_run Push PopRandom ops (PageEntryQueue_new garbage n) = (accepted, handed_out, q)"
  shows "accepted = q_bag q + handed_out \<and> size (q_bag q) \<le> n \<and> q_inv q"
  using one_lock.bag_run_conserves [OF _ assms] one_lock.bag_cap [of q]
  by (simp add: PageEntryQueue_new_ok)

text \<open>
  Which entry \<open>PopRandom\<close> returns: with \<open>n\<close> queued entries and \<open>random() = rnd\<close> it is the
  \<open>rnd mod (n - 1)\<close>-th oldest (the only one if \<open>n = 1\<close>), and the oldest takes its place. So the
  newest of two or more entries is never returned, whatever \<open>random()\<close> gives.
\<close>

theorem PopRandom_choice:
  assumes "q_inv q" "0 < q_count q"
  shows "fst (PopRandom rnd q) = Some (q_list q ! pop_index rnd (q_count q)) \<and>
         q_list (snd (PopRandom rnd q)) = tl ((q_list q)[pop_index rnd (q_count q) := q_list q ! 0]) \<and>
         (1 < q_count q \<longrightarrow> pop_index rnd (q_count q) < q_count q - 1)"
  using PopRandom_list [OF assms, of rnd] by (simp add: pop_index_def)

section \<open>Concrete instances\<close>

definition blank_pe :: page_entry where
  "blank_pe = \<lparr>pe_offset = 0, pe_addr = 0, pe_paddr = 0, pe_pattern = None, pe_tag = kInvalidTag, pe_touch = 0,
     pe_ts = 0, pe_lastcpu = 0, pe_write_dram_frequency = - 1, pe_lastpattern = None\<rparr>"

theorem queue_conserves_pages_witness:
  "case bag_run Push PopRandom [Put blank_pe, Put (blank_pe\<lparr>pe_offset := 4096\<rparr>), Get 7]
          (PageEntryQueue_new (\<lambda>_. blank_pe) 2) of
     (accepted, handed_out, q) \<Rightarrow> accepted = q_bag q + handed_out \<and> size (q_bag q) \<le> 2"
proof -
  let ?ops = "[Put blank_pe, Put (blank_pe\<lparr>pe_offset := 4096\<rparr>), Get 7]"
  obtain accepted handed_out q where
    run: "bag_run Push PopRandom ?ops (PageEntryQueue_new (\<lambda>_. blank_pe) 2) = (accepted, handed_out, q)"
    by (rule prod_cases3)
  from queue_conserves_pages [OF run] show ?thesis unfolding run by simp
qed

theorem PopRandom_choice_witness:
  "fst (PopRandom 7 (snd (Push blank_pe (PageEntryQueue_new (\<lambda>_. blank_pe) 2)))) = Some blank_pe"
proof -
  let ?q = "snd (Push blank_pe (PageEntryQueue_new (\<lambda>_. blank_pe) 2))"
  have "q_inv ?q" using Push_inv PageEntryQueue_new_ok(1) by blast
  moreover have "q_count ?q = 1" "q_list ?q = [blank_pe]"
    by (simp_all add: PageEntryQueue_new_def Push_def q_count_def q_list_def q_slot_def)
  ultimately show ?thesis using PopRandom_choice [of ?q 7] by (simp add: pop_index_def)
qed

end
