(* ===== verification/PageOps.thy ===== *)
theory PageOps
  imports CheckRegion VectorCopy PageQueue
begin

text \<open>
  The operations of a worker on one page: \<open>FillPage\<close>, \<open>FillPageWithConstant\<close>, \<open>CrcCheckPage\<close>, \<open>CrcCopyPage\<close>,
  \<open>CrcWarmCopyPage\<close> and the tag-mode routines \<open>AdlerAddrMemcpyC\<close>, \<open>AdlerAddrMemcpyWarm\<close>, \<open>TagAddrC\<close>,
  \<open>AdlerAddrCrcC\<close>, \<open>ProcessTagError\<close> and \<open>ReportTagError\<close> of \<^verbatim>\<open>src/src/worker.cc\<close>. A page is a list of 64-bit
  words at the address in its record; a 4096-byte block of it is 512 words. In tag mode the first word
  of every cache line holds its own address.
\<close>

section \<open>Blocks of a page\<close>

definition page_block :: "u64 list \<Rightarrow> nat \<Rightarrow> u64 list" where
  "page_block page b = take 512 (drop (512 * b) page)"

definition put_block :: "u64 list \<Rightarrow> nat \<Rightarrow> u64 list \<Rightarrow> u64 list" where
  "put_block page b xs = take (512 * b) page @ xs @ drop (512 * b + length xs) page"

definition pattern_of :: "Pattern list \<Rightarrow> page_entry \<Rightarrow> nat res" where
  "pattern_of pats pe =
     (case pe_pattern pe of
        None \<Rightarrow> Inl NullPointer
      | Some k \<Rightarrow> if k < length pats then Inr k else Inl OutOfBounds)"

section \<open>Filling\<close>

text \<open>The upward loop, and the loop with a direction; a yield does not change the page.\<close>

primrec fill_up :: "(nat \<Rightarrow> u64) \<Rightarrow> nat \<Rightarrow> nat \<Rightarrow> u64 list \<Rightarrow> u64 list res" where
  "fill_up f 0 i mem = Inr mem"
| "fill_up f (Suc n) i mem = res_bind (wr mem i (f i)) (fill_up f n (i + 1))"

primrec fill_steps :: "FillDirection \<Rightarrow> (nat \<Rightarrow> u64) \<Rightarrow> nat \<Rightarrow> nat \<Rightarrow> nat \<Rightarrow> u64 list \<Rightarrow> u64 list res" where
  "fill_steps dir f words 0 step mem = Inr mem"
| "fill_steps dir f words (Suc n) step mem =
     (let i = (case dir of FILL_DIRECTION_UP \<Rightarrow> step | FILL_DIRECTION_DOWN \<Rightarrow> words - step - 1)
      in res_bind (wr mem i (f i)) (fill_steps dir f words n (step + 1)))"

definition default_word :: "bool \<Rightarrow> Pattern \<Rightarrow> u64 \<Rightarrow> nat \<Rightarrow> u64" where
  "default_word tag_mode p addr i =
     (if tag_mode \<and> i mod 8 = 0 then addr_to_tag (word_addr addr i)
      else l64_of (pattern_unshifted p (of_nat (2 * i))) (pattern_unshifted p (of_nat (2 * i + 1))))"

definition fill_word :: "bool \<Rightarrow> Pattern \<Rightarrow> u64 \<Rightarrow> nat \<Rightarrow> u64" where
  "fill_word tag_mode p addr i =
     (if tag_mode \<and> i mod 8 = 0 then addr_to_tag (word_addr addr i) else pattern_word p i)"

definition FillPage :: "config \<Rightarrow> Pattern list \<Rightarrow> page_entry \<Rightarrow> u64 list \<Rightarrow> (page_entry \<times> u64 list) res" where
  "FillPage cfg pats pe page =
     res_bind (pattern_of pats pe) (\<lambda>k.
       let p = pats ! k; words = nat (cf_page_length cfg) div 8;
           default_fill_path = (cf_fill_direction cfg = FILL_DIRECTION_UP \<and> cf_fill_yield_bytes cfg = 0 \<and>
                                byte_offset p = 0)
       in res_bind
            (if default_fill_path then fill_up (default_word (cf_tag_mode cfg) p (pe_addr pe)) words 0 page
             else fill_steps (cf_fill_direction cfg) (fill_word (cf_tag_mode cfg) p (pe_addr pe)) words words 0 page)
            (\<lambda>page'. Inr (pe\<lparr>pe_lastcpu := cf_cpu cfg, pe_write_dram_frequency := cf_frequency cfg\<rparr>, page')))"

definition FillPageWithConstant :: "config \<Rightarrow> u64 \<Rightarrow> u64 list \<Rightarrow> u64 list res" where
  "FillPageWithConstant cfg value page =
     (let words = nat (cf_page_length cfg) div 8
      in if cf_fill_direction cfg = FILL_DIRECTION_UP \<and> cf_fill_yield_bytes cfg = 0
         then fill_up (\<lambda>_. value) words 0 page
         else fill_steps (cf_fill_direction cfg) (\<lambda>_. value) words words 0 page)"

section \<open>Tags\<close>

definition ProcessTagError ::
    "config \<Rightarrow> ErrorRecord \<Rightarrow> int \<Rightarrow> string \<Rightarrow> u64 list \<times> worker \<Rightarrow> (u64 list \<times> worker) res" where
  "ProcessTagError cfg err priority message = (\<lambda>(mem, w).
     res_bind (rd mem (er_word err)) (\<lambda>reread.
     res_bind (sat_assert (er_expected err \<noteq> er_actual err)) (\<lambda>_.
       let er = err\<lparr>er_reread := reread, er_reread_dram_frequency := cf_frequency cfg,
                    er_vbyteaddr := er_vaddr err\<rparr>;
           w1 = (if priority < 5 \<and> priority \<le> cf_verbosity cfg then
                   (case ClaimDetailedErrorLog (cf_error_log_limit cfg) w of (claimed, wc) \<Rightarrow>
                      if claimed then wc\<lparr>w_reports := w_reports wc @ [(er, message, er_actual err \<noteq> reread)]\<rparr>
                      else wc)
                 else w);
           w2 = w1\<lparr>w_errorcount := w_errorcount w1 + 1\<rparr>
       in res_bind (wr mem (er_word err) (er_expected err)) (\<lambda>mem'.
            Inr (mem', if cf_stop_on_error cfg then w2\<lparr>w_stop := True\<rparr> else w2)))))"

definition ReportTagError ::
    "config \<Rightarrow> u64 \<Rightarrow> nat \<Rightarrow> u64 \<Rightarrow> u64 \<Rightarrow> int \<Rightarrow> u64 list \<times> worker \<Rightarrow> (u64 list \<times> worker) res" where
  "ReportTagError cfg addr i actual tag write_dram_frequency =
     ProcessTagError cfg
       \<lparr>er_actual = actual, er_reread = 0, er_expected = tag, er_word = i, er_vaddr = word_addr addr i,
        er_vbyteaddr = 0, er_patternname = [], er_worker_name = ''unknown'', er_phase = ''unknown'',
        er_pattern_byte_offset = 0, er_sat_page_offset = - 1, er_offset_in_page = - 1, er_lastcpu = 0,
        er_write_dram_frequency = write_dram_frequency, er_read_dram_frequency = cf_frequency cfg,
        er_reread_dram_frequency = - 1\<rparr> 0 ''Hardware Error''"

definition check_tag :: "config \<Rightarrow> u64 \<Rightarrow> int \<Rightarrow> nat \<Rightarrow> u64 list \<times> worker \<Rightarrow> (u64 list \<times> worker) res" where
  "check_tag cfg addr freq i s =
     res_bind (rd (fst s) i) (\<lambda>d.
       if d \<noteq> addr_to_tag (word_addr addr i)
       then ReportTagError cfg addr i d (addr_to_tag (word_addr addr i)) freq s
       else Inr s)"

text \<open>\<open>AdlerAddrCrcC\<close>: tags are checked and the pattern is summed in their place.\<close>

function addr_crc_loop ::
    "config \<Rightarrow> Pattern \<Rightarrow> u64 \<Rightarrow> int \<Rightarrow> nat \<Rightarrow> nat \<Rightarrow> stream \<Rightarrow> stream \<Rightarrow> u64 list \<times> worker \<Rightarrow>
     ((stream \<times> stream) \<times> u64 list \<times> worker) res" where
  "addr_crc_loop cfg p addr freq i cnt s1 s2 s =
     (if i < cnt then
        res_bind (if i mod 8 = 0
                  then res_bind (check_tag cfg addr freq i s) (\<lambda>s'. Inr (pattern_word p i, s'))
                  else res_bind (rd (fst s) i) (\<lambda>x. Inr (x, s)))
          (\<lambda>(x, s'). res_bind (rd (fst s') (i + 1)) (\<lambda>y.
             addr_crc_loop cfg p addr freq (i + 2) cnt (adler_add s1 x) (adler_add s2 y) s'))
      else Inr ((s1, s2), s))"
  by pat_completeness auto
termination
  by (relation "measure (\<lambda>(cfg, p, addr, freq, i, cnt, s1, s2, s). cnt - i)") auto

definition AdlerAddrCrcC ::
    "config \<Rightarrow> Pattern \<Rightarrow> u64 \<Rightarrow> int \<Rightarrow> u32 \<Rightarrow> u64 list \<times> worker \<Rightarrow>
     (AdlerChecksum option \<times> u64 list \<times> worker) res" where
  "AdlerAddrCrcC cfg p addr freq size_in_bytes s =
     (if size_guard size_in_bytes then Inr (None, s)
      else res_bind (addr_crc_loop cfg p addr freq 0 (unat (size_in_bytes div 8)) (1, 0) (1, 0) s)
             (\<lambda>(ss, s'). Inr (Some (checksum_of ss), s')))"

text \<open>\<open>AdlerAddrMemcpyC\<close>: the tags of both pages are checked; the destination gets its own.\<close>

function addr_memcpy_loop ::
    "config \<Rightarrow> Pattern \<Rightarrow> u64 \<Rightarrow> u64 \<Rightarrow> int \<Rightarrow> nat \<Rightarrow> nat \<Rightarrow> stream \<Rightarrow> stream \<Rightarrow> u64 list \<Rightarrow> u64 list \<times> worker \<Rightarrow>
     ((stream \<times> stream) \<times> u64 list \<times> u64 list \<times> worker) res" where
  "addr_memcpy_loop cfg p daddr saddr freq i cnt s1 s2 dst s =
     (if i < cnt then
        res_bind (if i mod 8 = 0
                  then res_bind (rd dst i) (\<lambda>d.
                       res_bind (check_tag cfg saddr freq i s) (\<lambda>(src', w').
                       res_bind (check_tag cfg daddr (- 1) i (dst, w')) (\<lambda>(dst', w'').
                       res_bind (wr dst' i (addr_to_tag (word_addr daddr i))) (\<lambda>dst''.
                         Inr (pattern_word p i, dst'', src', w'')))))
                  else res_bind (rd (fst s) i) (\<lambda>x.
                       res_bind (wr dst i x) (\<lambda>dst'. Inr (x, dst', s))))
          (\<lambda>(x, dst', s'). res_bind (rd (fst s') (i + 1)) (\<lambda>y.
             res_bind (wr dst' (i + 1) y) (\<lambda>dst''.
               addr_memcpy_loop cfg p daddr saddr freq (i + 2) cnt (adler_add s1 x) (adler_add s2 y) dst'' s')))
      else Inr ((s1, s2), dst, s))"
  by pat_completeness auto
termination
  by (relation "measure (\<lambda>(cfg, p, daddr, saddr, freq, i, cnt, s1, s2, dst, s). cnt - i)") auto

definition AdlerAddrMemcpyC ::
    "config \<Rightarrow> Pattern \<Rightarrow> u64 \<Rightarrow> u64 \<Rightarrow> int \<Rightarrow> u32 \<Rightarrow> u64 list \<Rightarrow> u64 list \<times> worker \<Rightarrow>
     (AdlerChecksum option \<times> u64 list \<times> u64 list \<times> worker) res" where
  "AdlerAddrMemcpyC cfg p daddr saddr freq size_in_bytes dst s =
     (if size_guard size_in_bytes then Inr (None, dst, s)
      else res_bind (addr_memcpy_loop cfg p daddr saddr freq 0 (unat (size_in_bytes div 8)) (1, 0) (1, 0) dst s)
             (\<lambda>(ss, r). Inr (Some (checksum_of ss), r)))"

text \<open>\<open>TagAddrC\<close>: every eighth word becomes its address. \<open>n\<close> bounds the number of rounds.\<close>

primrec tag_loop :: "u64 \<Rightarrow> nat \<Rightarrow> nat \<Rightarrow> nat \<Rightarrow> u64 list \<Rightarrow> u64 list res" where
  "tag_loop addr len 0 i mem = Inr mem"
| "tag_loop addr len (Suc n) i mem =
     (if i < len then res_bind (wr mem i (addr_to_tag (word_addr addr i))) (tag_loop addr len n (i + 8))
      else Inr mem)"

definition TagAddrC :: "u64 \<Rightarrow> nat \<Rightarrow> u64 list \<Rightarrow> u64 list res" where
  "TagAddrC addr size_in_bytes mem = tag_loop addr (size_in_bytes div 8) (size_in_bytes div 8) 0 mem"

declare addr_crc_loop.simps [simp del] addr_memcpy_loop.simps [simp del]

section \<open>Checking a page\<close>

text \<open>\<open>crc->Equals\<close> on a checksum that was never set is undefined.\<close>

definition same_crc :: "AdlerChecksum option \<Rightarrow> Pattern \<Rightarrow> bool res" where
  "same_crc crc p =
     (case crc of None \<Rightarrow> Inl Uninitialised
      | Some c \<Rightarrow> (case pat_crc p of None \<Rightarrow> Inl NullPointer | Some expected \<Rightarrow> Inr (adler_equals c expected)))"

definition phase_of :: "worker \<Rightarrow> string \<Rightarrow> string \<Rightarrow> DiagnosticPhase" where
  "phase_of w worker_name phase =
     (case w_diag w of None \<Rightarrow> DIAG_PHASE_COUNT | Some _ \<Rightarrow> GetDiagnosticPhase worker_name phase)"

definition labels :: "page_entry \<Rightarrow> int \<Rightarrow> int \<Rightarrow> string \<Rightarrow> string \<Rightarrow> region_labels" where
  "labels pe offset freq worker_name phase =
     \<lparr>rl_lastcpu = pe_lastcpu pe, rl_offset = offset, rl_write_dram_frequency = freq,
      rl_worker_name = worker_name, rl_phase = phase, rl_sat_page_offset = pe_offset pe\<rparr>"

definition note_mismatch :: "string \<Rightarrow> string \<Rightarrow> worker \<Rightarrow> worker" where
  "note_mismatch worker_name phase w =
     w\<lparr>w_diag := RecordDiagnosticChecksumMismatch (phase_of w worker_name phase) (w_diag w)\<rparr>"

text \<open>One round of the loop over the blocks, on block \<open>b\<close> with contents \<open>mem\<close>.\<close>

definition check_block ::
    "config \<Rightarrow> Pattern list \<Rightarrow> nat \<Rightarrow> page_entry \<Rightarrow> string \<Rightarrow> string \<Rightarrow> nat \<Rightarrow> u64 list \<times> worker \<Rightarrow>
     (nat \<times> u64 list \<times> worker) res" where
  "check_block cfg pats k pe worker_name phase b s =
     (let addr = word_addr (pe_addr pe) (512 * b); p = pats ! k
      in res_bind (if cf_tag_mode cfg then AdlerAddrCrcC cfg p addr (pe_write_dram_frequency pe) 4096 s
                   else res_bind (CalculateAdlerChecksum (fst s) 4096) (\<lambda>crc. Inr (crc, s)))
           (\<lambda>(crc, mem, w). res_bind (same_crc crc p) (\<lambda>ok.
              if ok then Inr (0, mem, w)
              else res_bind (CheckRegion cfg pats k addr
                     (labels pe (int b * 4096) (pe_write_dram_frequency pe) worker_name phase) 4096 0
                     (mem, note_mismatch worker_name phase w))
                   (\<lambda>(errorcount, s', blocks). Inr (errorcount, s')))))"

primrec check_blocks ::
    "config \<Rightarrow> Pattern list \<Rightarrow> nat \<Rightarrow> page_entry \<Rightarrow> string \<Rightarrow> string \<Rightarrow> nat \<Rightarrow> nat \<Rightarrow> nat \<Rightarrow> u64 list \<times> worker \<Rightarrow>
     (nat \<times> u64 list \<times> worker) res" where
  "check_blocks cfg pats k pe worker_name phase 0 b errors s = Inr (errors, s)"
| "check_blocks cfg pats k pe worker_name phase (Suc n) b errors s =
     res_bind (check_block cfg pats k pe worker_name phase b (page_block (fst s) b, snd s))
       (\<lambda>(errorcount, mem, w).
          check_blocks cfg pats k pe worker_name phase n (b + 1) (errors + errorcount)
            (put_block (fst s) b mem, w))"

definition check_leftovers ::
    "config \<Rightarrow> Pattern list \<Rightarrow> nat \<Rightarrow> page_entry \<Rightarrow> string \<Rightarrow> string \<Rightarrow> u64 list \<times> worker \<Rightarrow>
     (nat \<times> u64 list \<times> worker) res" where
  "check_leftovers cfg pats k pe worker_name phase s =
     (let blocks = nat (cf_page_length cfg) div 4096; leftovers = nat (cf_page_length cfg) mod 4096
      in if leftovers = 0 then Inr (0, s)
         else res_bind (CheckRegion cfg pats k (word_addr (pe_addr pe) (512 * blocks))
                (labels pe (int blocks * 4096) (pe_write_dram_frequency pe) worker_name phase) leftovers 0
                (drop (512 * blocks) (fst s), snd s))
              (\<lambda>(errorcount, (mem, w), bs). Inr (errorcount, put_block (fst s) blocks mem, w)))"

definition CrcCheckPage ::
    "config \<Rightarrow> Pattern list \<Rightarrow> page_entry \<Rightarrow> string \<Rightarrow> string \<Rightarrow> u64 list \<times> worker \<Rightarrow>
     (nat \<times> u64 list \<times> worker) res" where
  "CrcCheckPage cfg pats pe worker_name phase s =
     res_bind (pattern_of pats pe) (\<lambda>k.
     res_bind (check_blocks cfg pats k pe worker_name phase (nat (cf_page_length cfg) div 4096) 0 0 s)
       (\<lambda>(errors, s').
     res_bind (check_leftovers cfg pats k pe worker_name phase s')
       (\<lambda>(more, s''). Inr (errors + more, s''))))"

section \<open>Copying a page\<close>

text \<open>
  \<open>CrcCopyPage\<close> and \<open>CrcWarmCopyPage\<close> have the same body with another copy routine, another tag-mode
  routine and another marker in the record of an unexplained mismatch; these are the parameters.
\<close>

type_synonym copy_fun = "u64 list \<Rightarrow> u64 list \<Rightarrow> u32 \<Rightarrow> copy_result"

type_synonym addr_copy_fun =
  "config \<Rightarrow> Pattern \<Rightarrow> u64 \<Rightarrow> u64 \<Rightarrow> int \<Rightarrow> u32 \<Rightarrow> u64 list \<Rightarrow> u64 list \<times> worker \<Rightarrow>
   (AdlerChecksum option \<times> u64 list \<times> u64 list \<times> worker) res"

definition AdlerAddrMemcpyWarm :: "copy_fun \<Rightarrow> addr_copy_fun" where
  "AdlerAddrMemcpyWarm warm cfg p daddr saddr freq size_in_bytes dst s =
     res_bind (warm dst (fst s) size_in_bytes) (\<lambda>(dst', ignored_checksum).
     res_bind (AdlerAddrCrcC cfg p saddr freq size_in_bytes s) (\<lambda>(crc, s').
     res_bind (TagAddrC daddr (unat size_in_bytes) dst') (\<lambda>dst''.
       Inr (crc, dst'', s'))))"

text \<open>
  A checksum mismatch without a mismatching word: the copied data is written back to the source, the
  source compared again, and if it is still right an error is reported on its first word.
\<close>

definition retry_block ::
    "config \<Rightarrow> Pattern list \<Rightarrow> nat \<Rightarrow> u64 \<Rightarrow> page_entry \<Rightarrow> string \<Rightarrow> string \<Rightarrow> nat \<Rightarrow> u64 list \<Rightarrow> u64 list \<times> worker \<Rightarrow>
     (nat \<times> u64 list \<times> worker) res" where
  "retry_block cfg pats k marker pe worker_name phase b dst s =
     (let addr = word_addr (pe_addr pe) (512 * b); p = pats ! k;
          lb = labels pe (int b * 4096) (cf_frequency cfg) worker_name phase
      in res_bind (CheckRegion cfg pats k addr lb 4096 0 (dst, snd s)) (\<lambda>(errorcount, (mem, w), blocks).
           if errorcount = 0 then
             res_bind (rd mem 0) (\<lambda>actual.
             res_bind (ProcessError cfg (error_record cfg p addr lb 0 actual marker) 0 ''Hardware Error'' (mem, w))
               (\<lambda>(mem', w'). Inr (1, mem', w'\<lparr>w_errorcount := w_errorcount w' + 1\<rparr>)))
           else Inr (errorcount, mem, w)))"

definition copy_block ::
    "copy_fun \<Rightarrow> addr_copy_fun \<Rightarrow> u64 \<Rightarrow> config \<Rightarrow> Pattern list \<Rightarrow> nat \<Rightarrow> page_entry \<Rightarrow> page_entry \<Rightarrow> string \<Rightarrow>
     string \<Rightarrow> nat \<Rightarrow> u64 list \<Rightarrow> u64 list \<times> worker \<Rightarrow> (nat \<times> u64 list \<times> u64 list \<times> worker) res" where
  "copy_block copy addr_copy marker cfg pats k dpe spe worker_name phase b dst s =
     (let daddr = word_addr (pe_addr dpe) (512 * b); saddr = word_addr (pe_addr spe) (512 * b); p = pats ! k
      in res_bind (if cf_tag_mode cfg
                   then addr_copy cfg p daddr saddr (pe_write_dram_frequency spe) 4096 dst s
                   else res_bind (copy dst (fst s) 4096) (\<lambda>(dst', crc). Inr (crc, dst', s)))
           (\<lambda>(crc, dst', mem, w). res_bind (same_crc crc p) (\<lambda>ok.
              if ok then Inr (0, dst', mem, w)
              else res_bind (CheckRegion cfg pats k saddr
                     (labels spe (int b * 4096) (pe_write_dram_frequency spe) worker_name phase) 4096 0
                     (mem, note_mismatch worker_name phase w))
                   (\<lambda>(errorcount, s', blocks).
                      if errorcount = 0 \<and> \<not> cf_tag_mode cfg
                      then res_bind (retry_block cfg pats k marker spe worker_name phase b dst' s')
                             (\<lambda>(errorcount', s''). Inr (errorcount', dst', s''))
                      else Inr (errorcount, dst', s')))))"

primrec copy_blocks ::
    "copy_fun \<Rightarrow> addr_copy_fun \<Rightarrow> u64 \<Rightarrow> config \<Rightarrow> Pattern list \<Rightarrow> nat \<Rightarrow> page_entry \<Rightarrow> page_entry \<Rightarrow> string \<Rightarrow>
     string \<Rightarrow> nat \<Rightarrow> nat \<Rightarrow> nat \<Rightarrow> u64 list \<Rightarrow> u64 list \<times> worker \<Rightarrow> (nat \<times> u64 list \<times> u64 list \<times> worker) res" where
  "copy_blocks copy addr_copy marker cfg pats k dpe spe worker_name phase 0 b errors dst s = Inr (errors, dst, s)"
| "copy_blocks copy addr_copy marker cfg pats k dpe spe worker_name phase (Suc n) b errors dst s =
     res_bind (copy_block copy addr_copy marker cfg pats k dpe spe worker_name phase b
                 (page_block dst b) (page_block (fst s) b, snd s))
       (\<lambda>(errorcount, d, mem, w).
          copy_blocks copy addr_copy marker cfg pats k dpe spe worker_name phase n (b + 1) (errors + errorcount)
            (put_block dst b d) (put_block (fst s) b mem, w))"

definition copy_leftovers ::
    "config \<Rightarrow> Pattern list \<Rightarrow> nat \<Rightarrow> page_entry \<Rightarrow> page_entry \<Rightarrow> string \<Rightarrow> string \<Rightarrow> u64 list \<Rightarrow> u64 list \<times> worker \<Rightarrow>
     (nat \<times> u64 list \<times> u64 list \<times> worker) res" where
  "copy_leftovers cfg pats k dpe spe worker_name phase dst s =
     (let blocks = nat (cf_page_length cfg) div 4096; leftovers = nat (cf_page_length cfg) mod 4096
      in if leftovers = 0 then Inr (0, dst, s)
         else res_bind (check_leftovers cfg pats k spe worker_name phase s) (\<lambda>(errorcount, mem, w).
              let chunk = take (leftovers div 8) (drop (512 * blocks) mem)
              in res_bind (if cf_tag_mode cfg
                           then TagAddrC (word_addr (pe_addr dpe) (512 * blocks)) leftovers chunk else Inr chunk)
                   (\<lambda>chunk'. Inr (errorcount, put_block dst blocks chunk', mem, w))))"

text \<open>The result is the number of errors, the destination's record and data, the source's data and the worker.\<close>

definition crc_copy_page ::
    "copy_fun \<Rightarrow> addr_copy_fun \<Rightarrow> u64 \<Rightarrow> config \<Rightarrow> Pattern list \<Rightarrow> page_entry \<Rightarrow> page_entry \<Rightarrow> string \<Rightarrow> string \<Rightarrow>
     u64 list \<Rightarrow> u64 list \<times> worker \<Rightarrow> (nat \<times> (page_entry \<times> u64 list) \<times> u64 list \<times> worker) res" where
  "crc_copy_page copy addr_copy marker cfg pats dpe spe worker_name phase dst s =
     res_bind (pattern_of pats spe) (\<lambda>k.
     res_bind (copy_blocks copy addr_copy marker cfg pats k dpe spe worker_name phase
                 (nat (cf_page_length cfg) div 4096) 0 0 dst s) (\<lambda>(errors1, dst1, s1).
     res_bind (copy_leftovers cfg pats k dpe spe worker_name phase dst1 s1) (\<lambda>(errors2, dst2, s2).
       let errors = errors1 + errors2;
           dpe' = dpe\<lparr>pe_pattern := pe_pattern spe, pe_lastcpu := cf_cpu cfg,
                      pe_write_dram_frequency := cf_frequency cfg\<rparr>
       in if errors \<noteq> 0
          then res_bind (FillPage cfg pats dpe' dst2) (\<lambda>(dpe'', dst3). Inr (errors, (dpe'', dst3), s2))
          else Inr (errors, (dpe', dst2), s2))))"

definition CrcCopyPage where
  "CrcCopyPage = crc_copy_page AdlerMemcpyC AdlerAddrMemcpyC (push_bit 32 0xbad00000)"

definition CrcWarmCopyPage :: "copy_fun \<Rightarrow> config \<Rightarrow> Pattern list \<Rightarrow> page_entry \<Rightarrow> page_entry \<Rightarrow> string \<Rightarrow> string \<Rightarrow>
     u64 list \<Rightarrow> u64 list \<times> worker \<Rightarrow> (nat \<times> (page_entry \<times> u64 list) \<times> u64 list \<times> worker) res" where
  "CrcWarmCopyPage warm = crc_copy_page warm (AdlerAddrMemcpyWarm warm) 0xbad"

text \<open>\<open>OsLayer::AdlerMemcpyWarm\<close>: the assembly routine of the platform, or the C routine.\<close>

definition AdlerMemcpyWarm :: "bool \<Rightarrow> copy_fun \<Rightarrow> 'f fp \<Rightarrow> copy_fun" where
  "AdlerMemcpyWarm has_vector asm F dst src size_in_bytes =
     (if has_vector then asm dst src size_in_bytes
      else without_log (AdlerMemcpyWarmC F dst src size_in_bytes))"

section \<open>Filling is right in every mode\<close>

definition filled :: "(nat \<Rightarrow> u64) \<Rightarrow> nat \<Rightarrow> u64 list \<Rightarrow> u64 list" where
  "filled f n mem = map f [0..<n] @ drop n mem"

lemma nth_filled: "n \<le> length mem \<Longrightarrow> i < length mem \<Longrightarrow> filled f n mem ! i = (if i < n then f i else mem ! i)"
  by (auto simp: filled_def nth_append)

lemma length_filled [simp]: "n \<le> length mem \<Longrightarrow> length (filled f n mem) = length mem"
  by (simp add: filled_def)

lemma fill_up_eq:
  "i + n \<le> length mem \<Longrightarrow>
   \<exists>mem'. fill_up f n i mem = Inr mem' \<and> length mem' = length mem \<and>
     (\<forall>k<length mem. mem' ! k = (if i \<le> k \<and> k < i + n then f k else mem ! k))"
proof (induction n arbitrary: i mem)
  case (Suc n)
  then obtain mem' where "fill_up f n (i + 1) (mem[i := f i]) = Inr mem'" "length mem' = length mem"
    "\<forall>k<length mem. mem' ! k = (if i + 1 \<le> k \<and> k < i + 1 + n then f k else mem[i := f i] ! k)"
    using Suc.IH [of "i + 1" "mem[i := f i]"] by auto
  then show ?case using Suc.prems by (auto simp: nth_list_update Suc_le_eq le_less)
qed auto

lemma fill_up_filled: "n \<le> length mem \<Longrightarrow> fill_up f n 0 mem = Inr (filled f n mem)"
  using fill_up_eq [of 0 n mem f] by (auto intro!: nth_equalityI simp: nth_filled)

lemma fill_steps_eq:
  "step + n = words \<Longrightarrow> words \<le> length mem \<Longrightarrow>
   \<exists>mem'. fill_steps dir f words n step mem = Inr mem' \<and> length mem' = length mem \<and>
     (\<forall>k<length mem. mem' ! k = (if (case dir of FILL_DIRECTION_UP \<Rightarrow> step \<le> k \<and> k < words
                                     | FILL_DIRECTION_DOWN \<Rightarrow> k < n) then f k else mem ! k))"
proof (induction n arbitrary: step mem)
  case 0
  then show ?case by (auto split: FillDirection.splits)
next
  case (Suc n)
  define i where "i = (case dir of FILL_DIRECTION_UP \<Rightarrow> step | FILL_DIRECTION_DOWN \<Rightarrow> words - step - 1)"
  have i: "i < length mem" "i < words" using Suc.prems by (auto simp: i_def split: FillDirection.splits)
  obtain mem' where "fill_steps dir f words n (step + 1) (mem[i := f i]) = Inr mem'" "length mem' = length mem"
    "\<forall>k<length mem. mem' ! k = (if (case dir of FILL_DIRECTION_UP \<Rightarrow> step + 1 \<le> k \<and> k < words
                                     | FILL_DIRECTION_DOWN \<Rightarrow> k < n) then f k else mem[i := f i] ! k)"
    using Suc.IH [of "step + 1" "mem[i := f i]"] Suc.prems by auto
  moreover have "i = (case dir of FILL_DIRECTION_UP \<Rightarrow> step | FILL_DIRECTION_DOWN \<Rightarrow> n)"
    using Suc.prems by (auto simp: i_def split: FillDirection.splits)
  ultimately show ?case
    using i by (auto simp: Let_def nth_list_update i_def [symmetric] split: FillDirection.splits)
qed

lemma fill_steps_filled: "n \<le> length mem \<Longrightarrow> fill_steps dir f n n 0 mem = Inr (filled f n mem)"
  using fill_steps_eq [of 0 n n mem dir f]
  by (cases dir) (auto intro!: nth_equalityI simp: nth_filled)

text \<open>
  The page a pattern asks for, and what the tests read as the expected page; pages start on a cache line.
\<close>

definition page_data :: "config \<Rightarrow> Pattern \<Rightarrow> u64 \<Rightarrow> u64 list" where
  "page_data cfg p addr = map (fill_word (cf_tag_mode cfg) p addr) [0..<nat (cf_page_length cfg) div 8]"

definition aligned :: "u64 \<Rightarrow> bool" where
  "aligned addr \<longleftrightarrow> addr AND 0x3f = 0"

text \<open>The default loop, used for a byte offset of 0, writes the same words.\<close>

lemma default_word_eq:
  assumes "byte_offset p = 0" "unat (word_offset p) < 2 ^ 30"
  shows "default_word tag_mode p addr i = fill_word tag_mode p addr i"
proof -
  have "unat (word_offset p * 4) = unat (word_offset p) * 4"
    using assms(2) by (simp add: unat_word_ariths)
  then have "word_offset p = 0" using assms(1) by (simp add: byte_offset_def unat_eq_0)
  then show ?thesis by (simp add: default_word_def fill_word_def pattern_word_def pattern_def)
qed

definition wf_page_pattern :: "Pattern \<Rightarrow> bool" where
  "wf_page_pattern p \<longleftrightarrow> wf_pattern p \<and> unat (word_offset p) < 2 ^ 30"

lemma FillPage_eq:
  assumes "pe_pattern pe = Some k" "k < length pats" "wf_page_pattern (pats ! k)"
    and "length page = nat (cf_page_length cfg) div 8"
  shows "FillPage cfg pats pe page =
    Inr (pe\<lparr>pe_lastcpu := cf_cpu cfg, pe_write_dram_frequency := cf_frequency cfg\<rparr>,
         page_data cfg (pats ! k) (pe_addr pe))"
proof -
  let ?p = "pats ! k" and ?f = "fill_word (cf_tag_mode cfg) (pats ! k) (pe_addr pe)"
  have "byte_offset ?p = 0 \<Longrightarrow> default_word (cf_tag_mode cfg) ?p (pe_addr pe) = ?f"
    using assms(3) default_word_eq [of ?p] by (auto simp: wf_page_pattern_def)
  then have "(if cf_fill_direction cfg = FILL_DIRECTION_UP \<and> cf_fill_yield_bytes cfg = 0 \<and> byte_offset ?p = 0
      then fill_up (default_word (cf_tag_mode cfg) ?p (pe_addr pe)) (length page) 0 page
      else fill_steps (cf_fill_direction cfg) ?f (length page) (length page) 0 page) = Inr (filled ?f (length page) page)"
    by (simp add: fill_up_filled fill_steps_filled)
  then show ?thesis
    using assms(1,2) by (simp add: FillPage_def pattern_of_def Let_def assms(4) [symmetric])
      (simp add: filled_def page_data_def assms(4))
qed

text \<open>The patterns of the program's own list qualify.\<close>

lemma wf_page_PatternList:
  assumes "k < 120"
  shows "wf_page_pattern (patterns (PatternList_Initialize pl) ! k)"
proof -
  let ?p = "patterns (PatternList_Initialize pl) ! k"
  have "?p \<in> set (patterns (PatternList_Initialize pl))" using assms by simp
  moreover have "wf_pattern q" if "q \<in> set (patterns (PatternList_Initialize pl))" for q
    using that wf_PatternList_Initialize by blast
  moreover have "unat (word_offset q) < 2 ^ 30" if "q \<in> set (patterns (PatternList_Initialize pl))" for q
  proof -
    have "word_offset q = pattern_byte_offset pl div 4"
      using that by (auto simp: PatternList_Initialize_def Let_def variants_def variant_def Pattern_Initialize_def
          CalculateCrc_def)
    then show ?thesis using unat_u32_less [of "pattern_byte_offset pl"] by (simp add: unat_div_distrib)
  qed
  ultimately show ?thesis by (simp add: wf_page_pattern_def)
qed

section \<open>Tags and addresses\<close>

lemma and_0x3f: "(x :: u64) AND 0x3f = 0 \<longleftrightarrow> unat x mod 64 = 0"
proof -
  have "(0x3f :: u64) = mask 6" by (simp add: mask_eq_exp_minus_1)
  then have "x AND 0x3f = take_bit 6 x" by (simp only: take_bit_eq_mask)
  then have "unat (x AND 0x3f) = take_bit 6 (unat x)" by (simp only: unsigned_take_bit_eq)
  then have "unat (x AND 0x3f) = unat x mod 64" by (simp add: take_bit_eq_mod)
  then show ?thesis by (metis unat_eq_0)
qed

lemma word_addr_add: "word_addr (word_addr addr m) i = word_addr addr (m + i)"
  by (simp add: word_addr_def algebra_simps)

lemma word_addr_line:
  assumes "aligned addr"
  shows "word_addr addr i AND 0x3f = 0 \<longleftrightarrow> i mod 8 = 0"
proof -
  have "word_addr addr i = of_nat (unat addr + 8 * i)" by (simp add: word_addr_def)
  then have "unat (word_addr addr i) mod 64 = (unat addr + 8 * i) mod 2 ^ 64 mod 64"
    by (simp only: unat_of_nat_u64)
  also have "\<dots> = (unat addr + 8 * i) mod 64" by (rule mod_mod_cancel) simp
  also obtain q where "unat addr = 64 * q" using assms unfolding aligned_def and_0x3f by auto
  then have "(unat addr + 8 * i) mod 64 = (8 * i) mod (8 * 8)" by simp
  also have "\<dots> = 8 * (i mod 8)" by (rule mult_mod_right [symmetric])
  finally show ?thesis unfolding and_0x3f by simp
qed

lemma aligned_block: "aligned addr \<Longrightarrow> aligned (word_addr addr (512 * b))"
  using word_addr_line [of addr "512 * b"] by (simp add: aligned_def)

lemma pattern_word_int: "l64_of (pattern p (of_int (2 * int i + 0))) (pattern p (of_int (2 * int i + 0 + 1))) = pattern_word p i"
  by (simp add: pattern_word_def add.commute)

lemma expected_fill:
  assumes "aligned addr"
  shows "expected_word tag p addr 0 i = fill_word tag p addr i"
  using word_addr_line [OF assms, of i] unfolding expected_word_def fill_word_def Let_def pattern_word_int by simp

lemma block_mod_8: "(512 * b + i) mod 8 = (i mod 8 :: nat)"
proof -
  have "(512 * b + i) mod 8 = (i + 8 * (64 * b)) mod 8" by (simp add: add.commute)
  then show ?thesis by (simp only: mod_mult_self2)
qed

lemma fill_word_block:
  assumes "wf_pattern p"
  shows "fill_word tag p (word_addr addr (512 * b)) i = fill_word tag p addr (512 * b + i)"
proof -
  show ?thesis
    using block_mod_8 [of b i] pattern_word_periodic [OF assms, of i b]
    by (simp add: fill_word_def word_addr_add add.commute)
qed

text \<open>\<open>counted cfg n w w'\<close>: \<open>n\<close> errors were counted, and nothing at all happened if there was none.\<close>

definition counted :: "config \<Rightarrow> nat \<Rightarrow> worker \<Rightarrow> worker \<Rightarrow> bool" where
  "counted cfg n w w' \<longleftrightarrow> w_errorcount w' = w_errorcount w + int n \<and>
     w_stop w' = (w_stop w \<or> 0 < n \<and> cf_stop_on_error cfg) \<and> (n = 0 \<longrightarrow> w' = w)"

lemma counted_0 [simp]: "counted cfg 0 w w' \<longleftrightarrow> w' = w"
  by (auto simp: counted_def)

lemma counted_trans: "counted cfg m w w' \<Longrightarrow> counted cfg n w' w'' \<Longrightarrow> counted cfg (m + n) w w''"
  by (auto simp: counted_def)

definition tag_at :: "u64 \<Rightarrow> nat \<Rightarrow> u64" where
  "tag_at addr i = addr_to_tag (word_addr addr i)"

lemma check_tag_eq:
  assumes "i < length mem"
  shows "\<exists>w'. check_tag cfg addr freq i (mem, w) = Inr (mem[i := tag_at addr i], w') \<and>
    counted cfg (if mem ! i \<noteq> tag_at addr i then 1 else 0) w w'"
proof (cases "mem ! i = tag_at addr i")
  case True
  then have "mem[i := tag_at addr i] = mem" by (metis list_update_id)
  with True show ?thesis using assms by (simp add: check_tag_def tag_at_def)
next
  case False
  then show ?thesis
    using assms
    by (auto simp: check_tag_def ReportTagError_def ProcessTagError_def Let_def tag_at_def counted_def
        split: prod.splits dest!: Claim_frame)
qed

definition bad_tags :: "u64 \<Rightarrow> u64 list \<Rightarrow> nat \<Rightarrow> nat \<Rightarrow> nat list" where
  "bad_tags addr mem i n = filter (\<lambda>k. k mod 8 = 0 \<and> mem ! k \<noteq> tag_at addr k) [i..<i + n]"

definition tag_view :: "Pattern \<Rightarrow> u64 list \<Rightarrow> nat \<Rightarrow> u64" where
  "tag_view p mem k = (if k mod 8 = 0 then pattern_word p k else mem ! k)"

lemma bad_tags_0 [simp]: "bad_tags addr mem i 0 = []"
  by (simp add: bad_tags_def)

lemma bad_tags_step:
  assumes "even i"
  shows "bad_tags addr mem i (2 * Suc n) =
    (if i mod 8 = 0 \<and> mem ! i \<noteq> tag_at addr i then [i] else []) @ bad_tags addr mem (i + 2) (2 * n)"
proof -
  have "Suc i mod 8 \<noteq> 0" using assms by presburger
  moreover have "[i..<i + 2 * Suc n] = i # Suc i # [i + 2..<i + 2 + 2 * n]"
    by (simp add: upt_conv_Cons del: upt_Suc)
  ultimately show ?thesis by (simp add: bad_tags_def)
qed

lemma bad_tags_update: "k < i \<Longrightarrow> bad_tags addr (mem[k := v]) i n = bad_tags addr mem i n"
  unfolding bad_tags_def by (rule filter_cong) auto

lemma tag_view_update: "k mod 8 = 0 \<Longrightarrow> tag_view p (mem[k := v]) j = tag_view p mem j"
  by (cases "j = k") (simp_all add: tag_view_def)

lemma view_step: "even i \<Longrightarrow> map f [i..<i + 2 * Suc n] = f i # f (Suc i) # map f [i + 2..<i + 2 + 2 * n]"
  by (simp add: upt_conv_Cons del: upt_Suc)

lemma odd_not_line: "even i \<Longrightarrow> Suc i mod 8 \<noteq> 0"
  by presburger

lemma addr_crc_loop_eq:
  "even i \<Longrightarrow> i + 2 * n \<le> length mem \<Longrightarrow>
   \<exists>w'. addr_crc_loop cfg p addr freq i (i + 2 * n) s1 s2 (mem, w) =
     Inr (adler_fold (map (tag_view p mem) [i..<i + 2 * n]) s1 s2,
          repair (tag_at addr) (bad_tags addr mem i (2 * n)) mem, w') \<and>
     counted cfg (length (bad_tags addr mem i (2 * n))) w w'"
proof (induction n arbitrary: i s1 s2 mem w)
  case 0
  then show ?case by (simp add: addr_crc_loop.simps)
next
  case (Suc n)
  let ?bad = "i mod 8 = 0 \<and> mem ! i \<noteq> tag_at addr i"
  define m where "m = (if ?bad then mem[i := tag_at addr i] else mem)"
  have len: "length m = length mem" by (simp add: m_def)
  have lt: "i < length mem" "Suc i < length mem" using Suc.prems by auto
  obtain w1 where w1: "(if i mod 8 = 0
        then res_bind (check_tag cfg addr freq i (mem, w)) (\<lambda>s'. Inr (pattern_word p i, s'))
        else res_bind (rd mem i) (\<lambda>x. Inr (x, (mem, w)))) = Inr (tag_view p mem i, m, w1)"
    "counted cfg (if ?bad then 1 else 0) w w1"
  proof (cases "i mod 8 = 0")
    case True
    obtain w' where w': "check_tag cfg addr freq i (mem, w) = Inr (mem[i := tag_at addr i], w')"
      "counted cfg (if mem ! i \<noteq> tag_at addr i then 1 else 0) w w'"
      using check_tag_eq [OF lt(1), of cfg addr freq w] by blast
    have "mem[i := tag_at addr i] = m" using True by (simp add: m_def) (metis list_update_id)
    with w' True show ?thesis by (intro that [of w']) (simp_all add: tag_view_def)
  next
    case False
    with lt show ?thesis by (intro that [of w]) (simp_all add: tag_view_def m_def)
  qed
  have later: "tag_view p m j = tag_view p mem j" "bad_tags addr m (i + 2) (2 * n) = bad_tags addr mem (i + 2) (2 * n)" for j
    by (simp_all add: m_def tag_view_update bad_tags_update)
  obtain w2 where w2: "addr_crc_loop cfg p addr freq (i + 2) (i + 2 + 2 * n) (adler_add s1 (tag_view p mem i))
        (adler_add s2 (mem ! Suc i)) (m, w1) =
      Inr (adler_fold (map (tag_view p m) [i + 2..<i + 2 + 2 * n]) (adler_add s1 (tag_view p mem i))
             (adler_add s2 (mem ! Suc i)),
           repair (tag_at addr) (bad_tags addr m (i + 2) (2 * n)) m, w2)"
      "counted cfg (length (bad_tags addr m (i + 2) (2 * n))) w1 w2"
    using Suc.IH [of "i + 2" m "adler_add s1 (tag_view p mem i)" "adler_add s2 (mem ! Suc i)" w1] Suc.prems len
    by (metis (no_types, lifting) add.assoc even_add dvd_refl mult_Suc_right)
  have y: "m ! Suc i = mem ! Suc i" "tag_view p mem (Suc i) = mem ! Suc i" "length m = length mem"
    using odd_not_line [OF Suc.prems(1)] by (simp_all add: tag_view_def m_def)
  have "addr_crc_loop cfg p addr freq i (i + 2 * Suc n) s1 s2 (mem, w) =
      addr_crc_loop cfg p addr freq (i + 2) (i + 2 + 2 * n) (adler_add s1 (tag_view p mem i))
        (adler_add s2 (mem ! Suc i)) (m, w1)"
  proof -
    have "i < i + 2 * Suc n" by simp
    then show ?thesis
      by (subst addr_crc_loop.simps) (simp only: if_True fst_conv w1(1) res_bind_Inr prod.case, use lt y in simp)
  qed
  then show ?case
    using w2 counted_trans [OF w1(2) w2(2)]
    unfolding later bad_tags_step [OF Suc.prems(1)] view_step [OF Suc.prems(1)]
    by (auto simp: y(2) m_def)
qed

definition with_tags :: "u64 \<Rightarrow> u64 list \<Rightarrow> u64 list" where
  "with_tags addr mem = map (\<lambda>k. if k mod 8 = 0 then tag_at addr k else mem ! k) [0..<length mem]"

lemma repair_bad_tags: "repair (tag_at addr) (bad_tags addr mem 0 (length mem)) mem = with_tags addr mem"
  by (rule nth_equalityI) (auto simp: nth_repair bad_tags_def with_tags_def)

lemma AdlerAddrCrcC_block:
  assumes "length mem = 512"
  shows "\<exists>w'. AdlerAddrCrcC cfg p addr freq 4096 (mem, w) =
      Inr (Some (adler_of (map (tag_view p mem) [0..<512])), with_tags addr mem, w') \<and>
      counted cfg (length (bad_tags addr mem 0 512)) w w'"
proof -
  have "\<not> size_guard 4096" "unat (4096 div 8 :: u32) = 512"
    by (simp_all add: size_guard_unat unat_div_distrib)
  then show ?thesis
    using addr_crc_loop_eq [of 0 256 mem cfg p addr freq "(1, 0)" "(1, 0)" w] assms
      repair_bad_tags [of addr mem]
    by (auto simp: AdlerAddrCrcC_def adler_of_def)
qed

section \<open>Checking one block\<close>

text \<open>
  \<open>bad_data\<close>: the words that differ from the expected ones, tags apart; \<open>bad_tag_count\<close>: the wrong tags.
\<close>

definition is_tag :: "config \<Rightarrow> nat \<Rightarrow> bool" where
  "is_tag cfg k \<longleftrightarrow> cf_tag_mode cfg \<and> k mod 8 = 0"

definition bad_data :: "config \<Rightarrow> Pattern \<Rightarrow> u64 \<Rightarrow> u64 list \<Rightarrow> nat list" where
  "bad_data cfg p addr mem =
     filter (\<lambda>k. \<not> is_tag cfg k \<and> mem ! k \<noteq> fill_word (cf_tag_mode cfg) p addr k) [0..<length mem]"

definition bad_tag_count :: "config \<Rightarrow> u64 \<Rightarrow> u64 list \<Rightarrow> nat" where
  "bad_tag_count cfg addr mem =
     (if cf_tag_mode cfg then length (bad_tags addr mem 0 (length mem)) else 0)"

definition block_view :: "config \<Rightarrow> Pattern \<Rightarrow> u64 list \<Rightarrow> u64 list" where
  "block_view cfg p mem = map (\<lambda>k. if is_tag cfg k then pattern_word p k else mem ! k) [0..<length mem]"

definition tagged :: "config \<Rightarrow> u64 \<Rightarrow> u64 list \<Rightarrow> u64 list" where
  "tagged cfg addr mem = (if cf_tag_mode cfg then with_tags addr mem else mem)"

lemma block_view_notag: "\<not> cf_tag_mode cfg \<Longrightarrow> block_view cfg p mem = mem"
  by (simp add: block_view_def is_tag_def map_nth)

lemma block_view_tag: "cf_tag_mode cfg \<Longrightarrow> block_view cfg p mem = map (tag_view p mem) [0..<length mem]"
  by (simp add: block_view_def is_tag_def tag_view_def cong: map_cong)

lemma fill_word_data: "\<not> is_tag cfg k \<Longrightarrow> fill_word (cf_tag_mode cfg) p addr k = pattern_word p k"
  by (auto simp: is_tag_def fill_word_def)

lemma fill_word_tag: "is_tag cfg k \<Longrightarrow> fill_word (cf_tag_mode cfg) p addr k = tag_at addr k"
  by (simp add: is_tag_def fill_word_def tag_at_def)

lemma length_block [simp]: "length (block_view cfg p mem) = length mem" "length (tagged cfg addr mem) = length mem"
  by (simp_all add: block_view_def tagged_def with_tags_def)

lemma nth_tagged: "k < length mem \<Longrightarrow> tagged cfg addr mem ! k = (if is_tag cfg k then tag_at addr k else mem ! k)"
  by (auto simp: tagged_def with_tags_def is_tag_def)

lemma tagged_mismatches:
  "mismatches (fill_word (cf_tag_mode cfg) p addr) (tagged cfg addr mem) 0 (length mem) = bad_data cfg p addr mem"
  unfolding mismatches_def bad_data_def by (rule filter_cong) (auto simp: nth_tagged fill_word_tag)

lemma bad_data_Nil:
  assumes "bad_data cfg p addr mem = []"
  shows "block_view cfg p mem = pattern_block p (length mem)"
    "tagged cfg addr mem = map (fill_word (cf_tag_mode cfg) p addr) [0..<length mem]"
proof -
  have ok: "mem ! k = pattern_word p k" if "k < length mem" "\<not> is_tag cfg k" for k
    using assms that by (auto simp: bad_data_def filter_empty_conv fill_word_data)
  then show "block_view cfg p mem = pattern_block p (length mem)"
    by (intro nth_equalityI) (simp_all add: block_view_def)
  show "tagged cfg addr mem = map (fill_word (cf_tag_mode cfg) p addr) [0..<length mem]"
    using ok by (intro nth_equalityI) (simp_all add: nth_tagged fill_word_tag fill_word_data)
qed

lemma bad_data_single:
  assumes "bad_data cfg p addr mem = [k]" "even (length mem)"
  shows "adler_of (block_view cfg p mem) \<noteq> adler_of (pattern_block p (length mem))"
proof -
  have iff: "j < length mem \<and> \<not> is_tag cfg j \<and> mem ! j \<noteq> fill_word (cf_tag_mode cfg) p addr j \<longleftrightarrow> j = k" for j
  proof -
    have "j \<in> set (bad_data cfg p addr mem) \<longleftrightarrow> j = k" using assms(1) by simp
    then show ?thesis by (simp add: bad_data_def conj_assoc)
  qed
  have k: "k < length mem" "\<not> is_tag cfg k" "mem ! k \<noteq> pattern_word p k"
    using iff [of k] by (auto simp: fill_word_data)
  have ok: "mem ! j = pattern_word p j" if "j < length mem" "\<not> is_tag cfg j" "j \<noteq> k" for j
    using iff [of j] that by (auto simp: fill_word_data)
  have "block_view cfg p mem = (pattern_block p (length mem))[k := mem ! k]"
    using k ok by (intro nth_equalityI) (auto simp: block_view_def nth_list_update)
  then show ?thesis
    using adler_of_update_neq [of "pattern_block p (length mem)" k "mem ! k"] k assms(2) by simp
qed

lemma repair_tagged:
  "repair (fill_word (cf_tag_mode cfg) p addr) (bad_data cfg p addr mem) (tagged cfg addr mem) =
   map (fill_word (cf_tag_mode cfg) p addr) [0..<length mem]"
  using nth_repair_mismatches [of _ "tagged cfg addr mem" "fill_word (cf_tag_mode cfg) p addr" 0 "length mem"]
  unfolding tagged_mismatches by (intro nth_equalityI) simp_all

text \<open>What the checksum of a block is, in both modes.\<close>

lemma block_crc:
  assumes "length mem = 512"
  shows "\<exists>w'. (if cf_tag_mode cfg then AdlerAddrCrcC cfg p addr freq 4096 (mem, w)
      else res_bind (CalculateAdlerChecksum mem 4096) (\<lambda>crc. Inr (crc, mem, w))) =
      Inr (Some (adler_of (block_view cfg p mem)), tagged cfg addr mem, w') \<and>
    counted cfg (bad_tag_count cfg addr mem) w w'"
proof (cases "cf_tag_mode cfg")
  case True
  then show ?thesis
    using AdlerAddrCrcC_block [OF assms, of cfg p addr freq w] assms
    by (simp add: block_view_tag tagged_def bad_tag_count_def)
next
  case False
  have "c_fits 4096" "length mem = unat (4096 :: u32) div 8"
    using assms by (simp_all add: c_fits_def size_guard_unat)
  then have "CalculateAdlerChecksum mem 4096 = Inr (Some (adler_of mem))"
    by (rule CalculateAdlerChecksum_eq)
  then show ?thesis using False by (simp add: block_view_notag tagged_def bad_tag_count_def)
qed

lemma same_crc_eq:
  "wf_pattern p \<Longrightarrow> same_crc (Some c) p = Inr (c = adler_of (pattern_block p 512))"
  by (simp add: same_crc_def wf_pattern_def adler_equals_def)

definition tag_ok :: "config \<Rightarrow> u64 \<Rightarrow> bool" where
  "tag_ok cfg addr \<longleftrightarrow> (cf_tag_mode cfg \<longrightarrow> aligned addr)"

lemma expected_fill_word:
  "tag_ok cfg addr \<Longrightarrow> expected_word (cf_tag_mode cfg) p addr 0 = fill_word (cf_tag_mode cfg) p addr"
proof (cases "cf_tag_mode cfg")
  case True
  then show "tag_ok cfg addr \<Longrightarrow> ?thesis" by (intro ext) (simp add: tag_ok_def expected_fill)
next
  case False
  then show ?thesis by (intro ext) (simp add: expected_word_def fill_word_def pattern_word_def add.commute)
qed

lemma CheckRegion_block:
  assumes "length mem = n" "tag_ok cfg addr" "len div 8 = n"
  shows "\<exists>w' blocks. CheckRegion cfg pats k addr lb len 0 (tagged cfg addr mem, w) =
      Inr (length (bad_data cfg (pats ! k) addr mem),
           (map (fill_word (cf_tag_mode cfg) (pats ! k) addr) [0..<n], w'), blocks) \<and>
      w_errorcount w' = w_errorcount w + int (length (bad_data cfg (pats ! k) addr mem)) \<and>
      w_stop w' = (w_stop w \<or> bad_data cfg (pats ! k) addr mem \<noteq> [] \<and> cf_stop_on_error cfg)"
  using CheckRegion_eq [of len "tagged cfg addr mem" cfg pats k addr lb 0 w] assms
    tagged_mismatches [of cfg "pats ! k" addr mem] repair_tagged [of cfg "pats ! k" addr mem]
  by (auto simp: expected_fill_word)

text \<open>One round of \<open>CrcCheckPage\<close>: a block with at most one wrong data word is always put right.\<close>

lemma check_block_eq:
  fixes pats k pe b
  defines "addr \<equiv> word_addr (pe_addr pe) (512 * b)"
  assumes mem: "length mem = 512" and wf: "wf_pattern (pats ! k)" and tag: "tag_ok cfg addr"
    and one: "length (bad_data cfg (pats ! k) addr mem) \<le> 1"
  shows "\<exists>w'. check_block cfg pats k pe worker_name phase b (mem, w) =
      Inr (length (bad_data cfg (pats ! k) addr mem),
           map (fill_word (cf_tag_mode cfg) (pats ! k) addr) [0..<512], w') \<and>
    counted cfg (bad_tag_count cfg addr mem + length (bad_data cfg (pats ! k) addr mem)) w w'"
proof -
  let ?p = "pats ! k" and ?bad = "bad_data cfg (pats ! k) addr mem"
  let ?lb = "labels pe (int b * 4096) (pe_write_dram_frequency pe) worker_name phase"
  obtain w1 where w1: "(if cf_tag_mode cfg then AdlerAddrCrcC cfg ?p addr (pe_write_dram_frequency pe) 4096 (mem, w)
      else res_bind (CalculateAdlerChecksum mem 4096) (\<lambda>crc. Inr (crc, mem, w))) =
      Inr (Some (adler_of (block_view cfg ?p mem)), tagged cfg addr mem, w1)"
    "counted cfg (bad_tag_count cfg addr mem) w w1"
    using block_crc [OF mem] by blast
  have step: "check_block cfg pats k pe worker_name phase b (mem, w) =
      (if adler_of (block_view cfg ?p mem) = adler_of (pattern_block ?p 512) then Inr (0, tagged cfg addr mem, w1)
       else res_bind (CheckRegion cfg pats k addr ?lb 4096 0 (tagged cfg addr mem, note_mismatch worker_name phase w1))
              (\<lambda>(errorcount, s', blocks). Inr (errorcount, s')))"
    unfolding check_block_def Let_def addr_def [symmetric] fst_conv w1(1)
    by (simp only: res_bind_Inr prod.case same_crc_eq [OF wf])
  show ?thesis
  proof (cases ?bad)
    case Nil
    then show ?thesis
      using step bad_data_Nil [OF Nil] mem w1(2) by simp
  next
    case (Cons j js)
    then have single: "?bad = [j]" using one by simp
    have "adler_of (block_view cfg ?p mem) \<noteq> adler_of (pattern_block ?p 512)"
      using bad_data_single [OF single] mem by simp
    moreover obtain w2 blocks where w2: "CheckRegion cfg pats k addr ?lb 4096 0
        (tagged cfg addr mem, note_mismatch worker_name phase w1) =
        Inr (length ?bad, (map (fill_word (cf_tag_mode cfg) ?p addr) [0..<512], w2), blocks)"
      "w_errorcount w2 = w_errorcount w1 + int (length ?bad)"
      "w_stop w2 = (w_stop w1 \<or> ?bad \<noteq> [] \<and> cf_stop_on_error cfg)"
      using CheckRegion_block [OF mem tag, of 4096 pats k ?lb "note_mismatch worker_name phase w1"]
      by (auto simp: note_mismatch_def)
    ultimately show ?thesis
      using step w1(2) single by (auto simp: counted_def)
  qed
qed

section \<open>Checking a page\<close>

text \<open>The wrong data words and the wrong tags of a page among the words \<open>i..<j\<close>.\<close>

definition bad_words :: "config \<Rightarrow> Pattern \<Rightarrow> u64 \<Rightarrow> u64 list \<Rightarrow> nat \<Rightarrow> nat \<Rightarrow> nat" where
  "bad_words cfg p addr page i j =
     length (filter (\<lambda>k. \<not> is_tag cfg k \<and> page ! k \<noteq> fill_word (cf_tag_mode cfg) p addr k) [i..<j])"

definition wrong_tags :: "config \<Rightarrow> u64 \<Rightarrow> u64 list \<Rightarrow> nat \<Rightarrow> nat \<Rightarrow> nat" where
  "wrong_tags cfg addr page i j = length (filter (\<lambda>k. is_tag cfg k \<and> page ! k \<noteq> tag_at addr k) [i..<j])"

text \<open>\<open>refill f i j page\<close>: the words \<open>i..<j\<close> replaced by \<open>f\<close>.\<close>

definition refill :: "(nat \<Rightarrow> u64) \<Rightarrow> nat \<Rightarrow> nat \<Rightarrow> u64 list \<Rightarrow> u64 list" where
  "refill f i j page = map (\<lambda>k. if i \<le> k \<and> k < j then f k else page ! k) [0..<length page]"

lemma length_refill [simp]: "length (refill f i j page) = length page"
  by (simp add: refill_def)

lemma nth_refill: "k < length page \<Longrightarrow> refill f i j page ! k = (if i \<le> k \<and> k < j then f k else page ! k)"
  by (simp add: refill_def)

lemma refill_empty [simp]: "j \<le> i \<Longrightarrow> refill f i j page = page"
  by (rule nth_equalityI) (auto simp: nth_refill)

lemma refill_refill: "i \<le> j \<Longrightarrow> j \<le> l \<Longrightarrow> refill f j l (refill f i j page) = refill f i l page"
  by (rule nth_equalityI) (auto simp: nth_refill)

lemma refill_all: "length page = n \<Longrightarrow> refill f 0 n page = map f [0..<n]"
  by (rule nth_equalityI) (auto simp: nth_refill)

lemma filter_shift: "length (filter (\<lambda>k. Q (s + k)) [0..<m]) = length (filter Q [s..<s + m])"
proof -
  have "[s..<s + m] = map (\<lambda>k. s + k) [0..<m]" by (simp add: map_add_upt add.commute)
  then have "filter Q [s..<s + m] = map (\<lambda>k. s + k) (filter (\<lambda>k. Q (s + k)) [0..<m])"
    by (simp add: filter_map comp_def)
  then show ?thesis by simp
qed

lemma is_tag_block: "is_tag cfg (512 * b + k) = is_tag cfg k"
  by (simp add: is_tag_def block_mod_8)

lemma bad_block:
  fixes page addr
  assumes "512 * b + m \<le> length page" "wf_pattern p"
  defines "mem \<equiv> take m (drop (512 * b) page)" and "a \<equiv> word_addr addr (512 * b)"
  shows "length (bad_data cfg p a mem) = bad_words cfg p addr page (512 * b) (512 * b + m)"
    and "bad_tag_count cfg a mem = wrong_tags cfg addr page (512 * b) (512 * b + m)"
proof -
  have len: "length mem = m" and nth: "\<And>k. k < m \<Longrightarrow> mem ! k = page ! (512 * b + k)"
    using assms(1) by (simp_all add: mem_def)
  have "filter (\<lambda>k. \<not> is_tag cfg k \<and> mem ! k \<noteq> fill_word (cf_tag_mode cfg) p a k) [0..<m] =
      filter (\<lambda>k. \<not> is_tag cfg (512 * b + k) \<and>
        page ! (512 * b + k) \<noteq> fill_word (cf_tag_mode cfg) p addr (512 * b + k)) [0..<m]"
    by (rule filter_cong) (auto simp: nth is_tag_block a_def fill_word_block [OF assms(2)])
  then show "length (bad_data cfg p a mem) = bad_words cfg p addr page (512 * b) (512 * b + m)"
    unfolding bad_data_def bad_words_def len
    using filter_shift [of "\<lambda>k. \<not> is_tag cfg k \<and> page ! k \<noteq> fill_word (cf_tag_mode cfg) p addr k" "512 * b" m]
    by simp
  have tag: "tag_at a k = tag_at addr (512 * b + k)" for k
    by (simp add: tag_at_def a_def word_addr_add)
  have "filter (\<lambda>k. is_tag cfg k \<and> mem ! k \<noteq> tag_at a k) [0..<m] =
      filter (\<lambda>k. is_tag cfg (512 * b + k) \<and> page ! (512 * b + k) \<noteq> tag_at addr (512 * b + k)) [0..<m]"
    by (rule filter_cong) (auto simp: nth is_tag_block tag)
  then have "length (filter (\<lambda>k. is_tag cfg k \<and> mem ! k \<noteq> tag_at a k) [0..<m]) =
      wrong_tags cfg addr page (512 * b) (512 * b + m)"
    unfolding wrong_tags_def
    using filter_shift [of "\<lambda>k. is_tag cfg k \<and> page ! k \<noteq> tag_at addr k" "512 * b" m] by simp
  then show "bad_tag_count cfg a mem = wrong_tags cfg addr page (512 * b) (512 * b + m)"
    by (cases "cf_tag_mode cfg") (simp_all add: bad_tag_count_def bad_tags_def len is_tag_def wrong_tags_def)
qed

lemma put_block_refill:
  assumes "512 * b + m \<le> length page" "wf_pattern p"
  shows "put_block page b (map (fill_word tag p (word_addr addr (512 * b))) [0..<m]) =
    refill (fill_word tag p addr) (512 * b) (512 * b + m) page"
  using assms
  by (intro nth_equalityI) (auto simp: put_block_def nth_append nth_refill fill_word_block)

lemma bad_words_cong:
  "(\<And>k. i \<le> k \<Longrightarrow> k < j \<Longrightarrow> page ! k = page' ! k) \<Longrightarrow>
   bad_words cfg p addr page i j = bad_words cfg p addr page' i j \<and>
   wrong_tags cfg addr page i j = wrong_tags cfg addr page' i j"
proof -
  assume "\<And>k. i \<le> k \<Longrightarrow> k < j \<Longrightarrow> page ! k = page' ! k"
  then have "\<And>k. k \<in> set [i..<j] \<Longrightarrow> page ! k = page' ! k" by simp
  then show ?thesis unfolding bad_words_def wrong_tags_def by (metis (no_types, lifting) filter_cong)
qed

lemma bad_words_split:
  "i \<le> j \<Longrightarrow> j \<le> l \<Longrightarrow> bad_words cfg p addr page i l = bad_words cfg p addr page i j + bad_words cfg p addr page j l"
  "i \<le> j \<Longrightarrow> j \<le> l \<Longrightarrow> wrong_tags cfg addr page i l = wrong_tags cfg addr page i j + wrong_tags cfg addr page j l"
  using upt_add_eq_append [of i j "l - j"] by (simp_all add: bad_words_def wrong_tags_def)

lemma bad_words_after:
  "j \<le> i \<Longrightarrow> l \<le> length page \<Longrightarrow>
   bad_words cfg p addr (refill f m j page) i l = bad_words cfg p addr page i l \<and>
   wrong_tags cfg addr (refill f m j page) i l = wrong_tags cfg addr page i l"
  by (rule bad_words_cong) (simp add: nth_refill)

lemma bad_words_empty [simp]: "j \<le> i \<Longrightarrow> bad_words cfg p addr page i j = 0" "j \<le> i \<Longrightarrow> wrong_tags cfg addr page i j = 0"
  by (simp_all add: bad_words_def wrong_tags_def)

lemma tag_ok_block: "tag_ok cfg addr \<Longrightarrow> tag_ok cfg (word_addr addr (512 * b))"
  by (simp add: tag_ok_def aligned_block)

lemma check_blocks_eq:
  assumes wf: "wf_pattern (pats ! k)" and tag: "tag_ok cfg (pe_addr pe)"
  shows "512 * (b + n) \<le> length page \<Longrightarrow>
    (\<And>c. b \<le> c \<Longrightarrow> c < b + n \<Longrightarrow> bad_words cfg (pats ! k) (pe_addr pe) page (512 * c) (512 * c + 512) \<le> 1) \<Longrightarrow>
    \<exists>w'. check_blocks cfg pats k pe worker_name phase n b errors (page, w) =
      Inr (errors + bad_words cfg (pats ! k) (pe_addr pe) page (512 * b) (512 * (b + n)),
           refill (fill_word (cf_tag_mode cfg) (pats ! k) (pe_addr pe)) (512 * b) (512 * (b + n)) page, w') \<and>
      counted cfg (wrong_tags cfg (pe_addr pe) page (512 * b) (512 * (b + n)) +
                   bad_words cfg (pats ! k) (pe_addr pe) page (512 * b) (512 * (b + n))) w w'"
proof (induction n arbitrary: b errors page w)
  case (Suc n)
  let ?p = "pats ! k" and ?a = "pe_addr pe"
  let ?f = "fill_word (cf_tag_mode cfg) ?p ?a" and ?page = "refill (fill_word (cf_tag_mode cfg) ?p ?a) (512 * b) (512 * b + 512) page"
  have room: "512 * b + 512 \<le> length page" using Suc.prems(1) by simp
  note bad = bad_block [OF room wf, of cfg ?a, folded page_block_def]
  obtain w1 where w1: "check_block cfg pats k pe worker_name phase b (page_block page b, w) =
      Inr (bad_words cfg ?p ?a page (512 * b) (512 * b + 512),
           map (fill_word (cf_tag_mode cfg) ?p (word_addr ?a (512 * b))) [0..<512], w1)"
    "counted cfg (wrong_tags cfg ?a page (512 * b) (512 * b + 512) + bad_words cfg ?p ?a page (512 * b) (512 * b + 512)) w w1"
    using check_block_eq [of "page_block page b" pats k cfg pe b worker_name phase w] room wf
      tag_ok_block [OF tag] Suc.prems(2) [of b] bad
    by (auto simp: page_block_def)
  have after: "bad_words cfg ?p ?a ?page i j = bad_words cfg ?p ?a page i j \<and>
      wrong_tags cfg ?a ?page i j = wrong_tags cfg ?a page i j" if "512 * b + 512 \<le> i" "j \<le> length page" for i j
    using that by (rule bad_words_after)
  obtain w2 where w2: "check_blocks cfg pats k pe worker_name phase n (b + 1)
        (errors + bad_words cfg ?p ?a page (512 * b) (512 * b + 512)) (?page, w1) =
      Inr (errors + bad_words cfg ?p ?a page (512 * b) (512 * b + 512) +
             bad_words cfg ?p ?a ?page (512 * (b + 1)) (512 * (b + 1 + n)),
           refill ?f (512 * (b + 1)) (512 * (b + 1 + n)) ?page, w2)"
    "counted cfg (wrong_tags cfg ?a ?page (512 * (b + 1)) (512 * (b + 1 + n)) +
                  bad_words cfg ?p ?a ?page (512 * (b + 1)) (512 * (b + 1 + n))) w1 w2"
  proof -
    have "bad_words cfg ?p ?a ?page (512 * c) (512 * c + 512) \<le> 1" if "b + 1 \<le> c" "c < b + 1 + n" for c
    proof -
      have "512 * c + 512 \<le> 512 * (b + Suc n)" using that by simp
      then have "512 * c + 512 \<le> length page" using Suc.prems(1) by linarith
      then show ?thesis using after [of "512 * c" "512 * c + 512"] Suc.prems(2) [of c] that by simp
    qed
    then show ?thesis
      using Suc.IH [of "b + 1" ?page "errors + bad_words cfg ?p ?a page (512 * b) (512 * b + 512)" w1]
        Suc.prems(1) that by auto
  qed
  have "512 * (b + 1 + n) \<le> length page" using Suc.prems(1) by simp
  note later = after [of "512 * (b + 1)", OF _ this]
  have "check_blocks cfg pats k pe worker_name phase (Suc n) b errors (page, w) =
      check_blocks cfg pats k pe worker_name phase n (b + 1)
        (errors + bad_words cfg ?p ?a page (512 * b) (512 * b + 512)) (?page, w1)"
    using w1(1) put_block_refill [OF room wf, of "cf_tag_mode cfg" ?a] by simp
  then show ?case
    using w2 counted_trans [OF w1(2) w2(2)] later bad_words_split [of "512 * b" "512 * b + 512" "512 * (b + Suc n)" cfg]
      refill_refill [of "512 * b" "512 * b + 512" "512 * (b + Suc n)" ?f page]
    by (simp add: algebra_simps)
qed simp

text \<open>The words beyond the last whole block are compared directly, tags included.\<close>

lemma filter_partition: "length (filter Q xs) = length (filter (\<lambda>x. \<not> P x \<and> Q x) xs) + length (filter (\<lambda>x. P x \<and> Q x) xs)"
  by (induction xs) auto

lemma all_mismatches:
  fixes page addr
  assumes "512 * b + m \<le> length page" "wf_pattern p" "tag_ok cfg addr"
  shows "length (mismatches (expected_word (cf_tag_mode cfg) p (word_addr addr (512 * b)) 0) (drop (512 * b) page) 0 m) =
    bad_words cfg p addr page (512 * b) (512 * b + m) + wrong_tags cfg addr page (512 * b) (512 * b + m)"
proof -
  let ?f = "fill_word (cf_tag_mode cfg) p addr"
  have "mismatches (expected_word (cf_tag_mode cfg) p (word_addr addr (512 * b)) 0) (drop (512 * b) page) 0 m =
      filter (\<lambda>k. page ! (512 * b + k) \<noteq> ?f (512 * b + k)) [0..<m]"
    unfolding mismatches_def expected_fill_word [OF tag_ok_block [OF assms(3)]] add_0
    using assms(1) by (intro filter_cong) (simp_all add: fill_word_block [OF assms(2)])
  then have "length (mismatches (expected_word (cf_tag_mode cfg) p (word_addr addr (512 * b)) 0) (drop (512 * b) page) 0 m) =
      length (filter (\<lambda>k. page ! k \<noteq> ?f k) [512 * b..<512 * b + m])"
    using filter_shift [of "\<lambda>k. page ! k \<noteq> ?f k" "512 * b" m] by simp
  also have "\<dots> = bad_words cfg p addr page (512 * b) (512 * b + m) + wrong_tags cfg addr page (512 * b) (512 * b + m)"
    unfolding bad_words_def wrong_tags_def
    by (subst filter_partition [of _ _ "is_tag cfg"]) (simp add: fill_word_tag cong: conj_cong)
  finally show ?thesis .
qed

lemma check_leftovers_eq:
  fixes pats k pe page cfg
  defines "p \<equiv> pats ! k" and "a \<equiv> pe_addr pe" and "n \<equiv> length page"
    and "blocks \<equiv> nat (cf_page_length cfg) div 4096"
  assumes wf: "wf_pattern p" and tag: "tag_ok cfg a" and len: "nat (cf_page_length cfg) = 8 * n"
  shows "\<exists>w'. check_leftovers cfg pats k pe worker_name phase (page, w) =
      Inr (bad_words cfg p a page (512 * blocks) n + wrong_tags cfg a page (512 * blocks) n,
           refill (fill_word (cf_tag_mode cfg) p a) (512 * blocks) n page, w') \<and>
      counted cfg (wrong_tags cfg a page (512 * blocks) n + bad_words cfg p a page (512 * blocks) n) w w'"
proof (cases "nat (cf_page_length cfg) mod 4096 = 0")
  case True
  then have "n = 512 * blocks" using len by (auto simp: blocks_def)
  then show ?thesis using True by (simp add: check_leftovers_def)
next
  case False
  let ?left = "nat (cf_page_length cfg) mod 4096" and ?addr = "word_addr a (512 * blocks)"
  let ?e = "expected_word (cf_tag_mode cfg) p ?addr 0" and ?mem = "drop (512 * blocks) page"
  define m where "m = ?left div 8"
  have "8 * n = 4096 * blocks + ?left"
    using mult_div_mod_eq [of 4096 "nat (cf_page_length cfg)"] len unfolding blocks_def by linarith
  moreover from this have "?left = 8 * (n - 512 * blocks)" by linarith
  then have "?left = 8 * m" unfolding m_def by simp
  ultimately have m: "n = 512 * blocks + m" "length ?mem = m" by (simp_all add: n_def)
  let ?ks = "mismatches ?e ?mem 0 m"
  let ?lb = "labels pe (int blocks * 4096) (pe_write_dram_frequency pe) worker_name phase"
  have cnt: "length ?ks = bad_words cfg p a page (512 * blocks) n + wrong_tags cfg a page (512 * blocks) n"
    using all_mismatches [of blocks m page p cfg a] m wf tag by (simp add: n_def)
  obtain w' bs where w': "CheckRegion cfg pats k ?addr ?lb ?left 0 (?mem, w) =
      Inr (length ?ks, (repair ?e ?ks ?mem, w'), bs)" "counted cfg (length ?ks) w w'"
  proof (cases ?ks)
    case Nil
    then show ?thesis
      using CheckRegion_clean [of ?left ?mem cfg pats k ?addr 0 ?lb w] m that by (simp add: m_def p_def)
  next
    case (Cons x xs)
    then show ?thesis
      using CheckRegion_eq [of ?left ?mem cfg pats k ?addr ?lb 0 w] m that
      by (fastforce simp: m_def p_def counted_def)
  qed
  have "repair ?e ?ks ?mem = map (fill_word (cf_tag_mode cfg) p ?addr) [0..<m]"
    using m nth_repair_mismatches [of _ ?mem ?e 0 m]
    by (intro nth_equalityI) (simp_all add: expected_fill_word [OF tag_ok_block [OF tag]])
  then have "put_block page blocks (repair ?e ?ks ?mem) = refill (fill_word (cf_tag_mode cfg) p a) (512 * blocks) n page"
    using put_block_refill [of blocks m page p "cf_tag_mode cfg" a] m wf by (simp add: n_def)
  then show ?thesis
    using False w' cnt by (simp add: check_leftovers_def Let_def blocks_def [symmetric] a_def add.commute)
qed

section \<open>Properties of checking and filling\<close>

text \<open>What the page operations need to know about a page: its pattern, its length and its address.\<close>

definition page_ok :: "config \<Rightarrow> Pattern list \<Rightarrow> page_entry \<Rightarrow> u64 list \<Rightarrow> bool" where
  "page_ok cfg pats pe page \<longleftrightarrow>
     (\<exists>k. pe_pattern pe = Some k \<and> k < length pats) \<and> (\<forall>p \<in> set pats. wf_page_pattern p) \<and>
     nat (cf_page_length cfg) = 8 * length page \<and> tag_ok cfg (pe_addr pe)"

definition pat_of :: "Pattern list \<Rightarrow> page_entry \<Rightarrow> Pattern" where
  "pat_of pats pe = pats ! the (pe_pattern pe)"

lemma page_ok_wf: "page_ok cfg pats pe page \<Longrightarrow> wf_pattern (pat_of pats pe)"
  by (auto simp: page_ok_def pat_of_def wf_page_pattern_def)

definition block_limit :: "config \<Rightarrow> Pattern \<Rightarrow> u64 \<Rightarrow> u64 list \<Rightarrow> bool" where
  "block_limit cfg p addr page \<longleftrightarrow>
     (\<forall>b < length page div 512. bad_words cfg p addr page (512 * b) (512 * b + 512) \<le> 1)"

lemma CrcCheckPage_eq:
  assumes ok: "page_ok cfg pats pe page" and one: "block_limit cfg (pat_of pats pe) (pe_addr pe) page"
  defines "p \<equiv> pat_of pats pe" and "a \<equiv> pe_addr pe" and "n \<equiv> length page"
  shows "\<exists>w'. CrcCheckPage cfg pats pe worker_name phase (page, w) =
      Inr (bad_words cfg p a page 0 n + wrong_tags cfg a page (512 * (n div 512)) n, page_data cfg p a, w') \<and>
      counted cfg (wrong_tags cfg a page 0 n + bad_words cfg p a page 0 n) w w'"
proof -
  obtain k where k: "pe_pattern pe = Some k" "k < length pats" "pats ! k = p"
    using ok by (auto simp: page_ok_def p_def pat_of_def)
  have wf: "wf_pattern (pats ! k)" using page_ok_wf [OF ok] k p_def by simp
  have tag: "tag_ok cfg a" and len: "nat (cf_page_length cfg) = 8 * n"
    using ok by (simp_all add: page_ok_def a_def n_def)
  let ?B = "512 * (n div 512)" and ?f = "fill_word (cf_tag_mode cfg) p a"
  have blocks: "nat (cf_page_length cfg) div 4096 = n div 512" unfolding len by simp
  have B: "?B \<le> n" by simp
  obtain w1 where w1: "check_blocks cfg pats k pe worker_name phase (n div 512) 0 0 (page, w) =
      Inr (bad_words cfg p a page 0 ?B, refill ?f 0 ?B page, w1)"
      "counted cfg (wrong_tags cfg a page 0 ?B + bad_words cfg p a page 0 ?B) w w1"
    using check_blocks_eq [OF wf, of cfg pe 0 "n div 512" page worker_name phase 0 w] tag one B k(3)
    by (auto simp: block_limit_def n_def a_def p_def)
  let ?page = "refill ?f 0 ?B page"
  have same: "bad_words cfg p a ?page ?B n = bad_words cfg p a page ?B n \<and>
      wrong_tags cfg a ?page ?B n = wrong_tags cfg a page ?B n"
    by (rule bad_words_after) (simp_all add: n_def)
  obtain w2 where w2: "check_leftovers cfg pats k pe worker_name phase (?page, w1) =
      Inr (bad_words cfg p a page ?B n + wrong_tags cfg a page ?B n, refill ?f ?B n ?page, w2)"
      "counted cfg (wrong_tags cfg a page ?B n + bad_words cfg p a page ?B n) w1 w2"
    using check_leftovers_eq [of pats k cfg pe ?page worker_name phase w1] wf tag len k(3) same blocks
    by (auto simp: n_def a_def)
  have all: "refill ?f ?B n ?page = page_data cfg p a"
    using refill_refill [OF _ B, of 0 ?f page] refill_all [of page n ?f] len by (simp add: n_def page_data_def)
  show ?thesis
    using w1 w2 counted_trans [OF w1(2) w2(2)] k blocks all
      bad_words_split [OF _ B, of 0 cfg]
    by (simp add: CrcCheckPage_def pattern_of_def add.assoc add.left_commute)
qed

lemma page_data_ok: "k < nat (cf_page_length cfg) div 8 \<Longrightarrow> page_data cfg p a ! k = fill_word (cf_tag_mode cfg) p a k"
  by (simp add: page_data_def)

lemma page_data_clean:
  "n \<le> nat (cf_page_length cfg) div 8 \<Longrightarrow>
   bad_words cfg p a (page_data cfg p a) i n = 0 \<and> wrong_tags cfg a (page_data cfg p a) i n = 0"
  by (auto simp: bad_words_def wrong_tags_def filter_empty_conv page_data_ok fill_word_tag)

lemma CrcCheckPage_clean:
  assumes "page_ok cfg pats pe (page_data cfg (pat_of pats pe) (pe_addr pe))"
  shows "CrcCheckPage cfg pats pe worker_name phase (page_data cfg (pat_of pats pe) (pe_addr pe), w) =
    Inr (0, page_data cfg (pat_of pats pe) (pe_addr pe), w)"
proof -
  let ?page = "page_data cfg (pat_of pats pe) (pe_addr pe)"
  have len: "length ?page = nat (cf_page_length cfg) div 8" by (simp add: page_data_def)
  have clean: "bad_words cfg (pat_of pats pe) (pe_addr pe) ?page i j = 0 \<and> wrong_tags cfg (pe_addr pe) ?page i j = 0"
    if "j \<le> length ?page" for i j using that len page_data_clean by simp
  have "block_limit cfg (pat_of pats pe) (pe_addr pe) ?page"
    unfolding block_limit_def
  proof (intro allI impI)
    fix b assume "b < length ?page div 512"
    then have "512 * b + 512 \<le> length ?page"
      using div_times_less_eq_dividend [of "length ?page" 512] by (simp add: less_eq_div_iff_mult_less_eq Suc_le_eq
        mult.commute flip: Suc_le_eq)
    then show "bad_words cfg (pat_of pats pe) (pe_addr pe) ?page (512 * b) (512 * b + 512) \<le> 1"
      using clean by simp
  qed
  then show ?thesis using CrcCheckPage_eq [OF assms, of worker_name phase w] clean by auto
qed

end
