(* ===== verification/PageCopy.thy ===== *)
theory PageCopy
  imports PageOps
begin

text \<open>
  Correctness of the page copies \<open>CrcCopyPage\<close> and \<open>CrcWarmCopyPage\<close> (\<^verbatim>\<open>src/src/worker.cc\<close>), with and
  without tags. Both are instances of \<open>crc_copy_page\<close>; the interface \<open>page_copier\<close> says what the block routines
  have to promise, and is interpreted for the C routine, the warm C routine and the assembly routines.
\<close>

section \<open>Retagging\<close>

lemma tag_loop_eq:
  "i mod 8 = 0 \<Longrightarrow> len \<le> i + 8 * n \<Longrightarrow> len \<le> length mem \<Longrightarrow>
   \<exists>mem'. tag_loop addr len n i mem = Inr mem' \<and> length mem' = length mem \<and>
     (\<forall>k<length mem. mem' ! k = (if i \<le> k \<and> k < len \<and> k mod 8 = 0 then tag_at addr k else mem ! k))"
proof (induction n arbitrary: i mem)
  case (Suc n)
  show ?case
  proof (cases "i < len")
    case True
    let ?mem = "mem[i := tag_at addr i]"
    obtain mem' where m: "tag_loop addr len n (i + 8) ?mem = Inr mem'" "length mem' = length mem"
      "\<forall>k<length mem. mem' ! k = (if i + 8 \<le> k \<and> k < len \<and> k mod 8 = 0 then tag_at addr k else ?mem ! k)"
      using Suc.IH [of "i + 8" ?mem] Suc.prems by auto
    have "mem' ! k = (if i \<le> k \<and> k < len \<and> k mod 8 = 0 then tag_at addr k else mem ! k)" if "k < length mem" for k
    proof -
      have "i \<le> k \<and> k mod 8 = 0 \<longleftrightarrow> k = i \<or> i + 8 \<le> k \<and> k mod 8 = 0"
        using Suc.prems(1) by presburger
      then show ?thesis using m(3) that True Suc.prems(3) by (auto simp: nth_list_update)
    qed
    then show ?thesis using m True Suc.prems(3) by (simp add: tag_at_def)
  next
    case False
    then show ?thesis by auto
  qed
qed auto

lemma TagAddrC_eq: "length mem = m \<Longrightarrow> TagAddrC addr (8 * m) mem = Inr (with_tags addr mem)"
  using tag_loop_eq [of 0 m m mem addr]
  by (auto simp: TagAddrC_def with_tags_def intro!: nth_equalityI)

section \<open>The tag-mode copy\<close>

lemma addr_memcpy_loop_eq:
  "even i \<Longrightarrow> i + 2 * n \<le> length mem \<Longrightarrow> i + 2 * n \<le> length dst \<Longrightarrow>
   \<exists>w' dst'. addr_memcpy_loop cfg p daddr saddr freq i (i + 2 * n) s1 s2 dst (mem, w) =
     Inr (adler_fold (map (tag_view p mem) [i..<i + 2 * n]) s1 s2, dst',
          repair (tag_at saddr) (bad_tags saddr mem i (2 * n)) mem, w') \<and>
     counted cfg (length (bad_tags saddr mem i (2 * n)) + length (bad_tags daddr dst i (2 * n))) w w' \<and>
     length dst' = length dst \<and>
     (\<forall>k<length dst. dst' ! k = (if i \<le> k \<and> k < i + 2 * n
                                 then if k mod 8 = 0 then tag_at daddr k else mem ! k else dst ! k))"
proof (induction n arbitrary: i s1 s2 mem dst w)
  case 0
  then show ?case by (auto simp: addr_memcpy_loop.simps)
next
  case (Suc n)
  let ?bad = "i mod 8 = 0 \<and> mem ! i \<noteq> tag_at saddr i" and ?dbad = "i mod 8 = 0 \<and> dst ! i \<noteq> tag_at daddr i"
  define m where "m = (if ?bad then mem[i := tag_at saddr i] else mem)"
  define v where "v = (if i mod 8 = 0 then tag_at daddr i else mem ! i)"
  have lt: "i < length mem" "Suc i < length mem" "i < length dst" "Suc i < length dst" using Suc.prems by auto
  let ?body = "if i mod 8 = 0
                  then res_bind (rd dst i) (\<lambda>d.
                       res_bind (check_tag cfg saddr freq i (mem, w)) (\<lambda>(src', w').
                       res_bind (check_tag cfg daddr (- 1) i (dst, w')) (\<lambda>(dst', w'').
                       res_bind (wr dst' i (addr_to_tag (word_addr daddr i))) (\<lambda>dst''.
                         Inr (pattern_word p i, dst'', src', w'')))))
                  else res_bind (rd (fst (mem, w)) i) (\<lambda>x.
                       res_bind (wr dst i x) (\<lambda>dst'. Inr (x, dst', (mem, w))))"
  obtain w1 where w1: "?body = Inr (tag_view p mem i, dst[i := v], m, w1)"
    "counted cfg ((if ?bad then 1 else 0) + (if ?dbad then 1 else 0)) w w1"
  proof (cases "i mod 8 = 0")
    case True
    obtain wa where wa: "check_tag cfg saddr freq i (mem, w) = Inr (mem[i := tag_at saddr i], wa)"
      "counted cfg (if mem ! i \<noteq> tag_at saddr i then 1 else 0) w wa"
      using check_tag_eq [OF lt(1), of cfg saddr freq w] by blast
    obtain wb where wb: "check_tag cfg daddr (- 1) i (dst, wa) = Inr (dst[i := tag_at daddr i], wb)"
      "counted cfg (if dst ! i \<noteq> tag_at daddr i then 1 else 0) wa wb"
      using check_tag_eq [OF lt(3), of cfg daddr "- 1" wa] by blast
    have "mem[i := tag_at saddr i] = m" using True by (simp add: m_def) (metis list_update_id)
    then have "?body = Inr (tag_view p mem i, dst[i := v], m, wb)"
      using True lt wa(1) wb(1) by (simp add: tag_view_def v_def tag_at_def)
    then show ?thesis using that [of wb] counted_trans [OF wa(2) wb(2)] True by simp
  next
    case False
    with lt show ?thesis by (intro that [of w]) (simp_all add: tag_view_def m_def v_def)
  qed
  have later: "tag_view p m j = tag_view p mem j" "bad_tags saddr m (i + 2) (2 * n) = bad_tags saddr mem (i + 2) (2 * n)" for j
    by (simp_all add: m_def tag_view_update bad_tags_update)
  let ?dst = "dst[i := v, Suc i := mem ! Suc i]"
  have dlater: "bad_tags daddr ?dst (i + 2) (2 * n) = bad_tags daddr dst (i + 2) (2 * n)"
    by (simp add: bad_tags_update)
  have y: "m ! Suc i = mem ! Suc i" "tag_view p mem (Suc i) = mem ! Suc i" "length m = length mem"
    "\<And>k. i + 2 \<le> k \<Longrightarrow> m ! k = mem ! k"
    using odd_not_line [OF Suc.prems(1)] by (simp_all add: tag_view_def m_def)
  have "even (i + 2)" "i + 2 + 2 * n \<le> length m" "i + 2 + 2 * n \<le> length ?dst"
    using Suc.prems y(3) by auto
  from Suc.IH [OF this, of "adler_add s1 (tag_view p mem i)" "adler_add s2 (mem ! Suc i)" w1]
  obtain w2 dst' where w2: "addr_memcpy_loop cfg p daddr saddr freq (i + 2) (i + 2 + 2 * n) (adler_add s1 (tag_view p mem i))
        (adler_add s2 (mem ! Suc i)) ?dst (m, w1) =
      Inr (adler_fold (map (tag_view p m) [i + 2..<i + 2 + 2 * n]) (adler_add s1 (tag_view p mem i))
             (adler_add s2 (mem ! Suc i)), dst',
           repair (tag_at saddr) (bad_tags saddr m (i + 2) (2 * n)) m, w2)"
      "counted cfg (length (bad_tags saddr m (i + 2) (2 * n)) + length (bad_tags daddr ?dst (i + 2) (2 * n))) w1 w2"
      "length dst' = length ?dst"
      "\<forall>k<length ?dst. dst' ! k = (if i + 2 \<le> k \<and> k < i + 2 + 2 * n
                                 then if k mod 8 = 0 then tag_at daddr k else m ! k else ?dst ! k)"
    by blast
  have "addr_memcpy_loop cfg p daddr saddr freq i (i + 2 * Suc n) s1 s2 dst (mem, w) =
      addr_memcpy_loop cfg p daddr saddr freq (i + 2) (i + 2 + 2 * n) (adler_add s1 (tag_view p mem i))
        (adler_add s2 (mem ! Suc i)) ?dst (m, w1)"
  proof -
    have "i < i + 2 * Suc n" by simp
    then show ?thesis
      by (subst addr_memcpy_loop.simps) (simp only: if_True w1(1) res_bind_Inr prod.case, use lt y in simp)
  qed
  moreover have "dst' ! k = (if i \<le> k \<and> k < i + 2 * Suc n
                             then if k mod 8 = 0 then tag_at daddr k else mem ! k else dst ! k)" if "k < length dst" for k
    using w2(4) that odd_not_line [OF Suc.prems(1)] y(4) lt
    by (cases "k = i"; cases "k = Suc i") (auto simp: v_def nth_list_update)
  ultimately show ?case
    using w2(1-3) counted_trans [OF w1(2) w2(2)]
    unfolding later dlater bad_tags_step [OF Suc.prems(1)] view_step [OF Suc.prems(1)]
    by (auto simp: y(2) m_def add.assoc add.left_commute)
qed

lemma AdlerAddrMemcpyC_block:
  assumes "length mem = 512" "length dst = 512"
  shows "\<exists>w'. AdlerAddrMemcpyC cfg p daddr saddr freq 4096 dst (mem, w) =
      Inr (Some (adler_of (map (tag_view p mem) [0..<512])), with_tags daddr mem, with_tags saddr mem, w') \<and>
      counted cfg (length (bad_tags saddr mem 0 512) + length (bad_tags daddr dst 0 512)) w w'"
proof -
  have "\<not> size_guard 4096" "unat (4096 div 8 :: u32) = 512"
    by (simp_all add: size_guard_unat unat_div_distrib)
  moreover obtain w' dst' where loop: "addr_memcpy_loop cfg p daddr saddr freq 0 512 (1, 0) (1, 0) dst (mem, w) =
     Inr (adler_fold (map (tag_view p mem) [0..<512]) (1, 0) (1, 0), dst',
          repair (tag_at saddr) (bad_tags saddr mem 0 512) mem, w')"
     "counted cfg (length (bad_tags saddr mem 0 512) + length (bad_tags daddr dst 0 512)) w w'"
     "length dst' = 512" "\<forall>k<512. dst' ! k = (if k mod 8 = 0 then tag_at daddr k else mem ! k)"
    using addr_memcpy_loop_eq [of 0 256 mem dst cfg p daddr saddr freq "(1, 0)" "(1, 0)" w] assms by auto
  moreover have "dst' = with_tags daddr mem"
    using loop(3,4) assms by (intro nth_equalityI) (simp_all add: with_tags_def)
  ultimately show ?thesis
    using repair_bad_tags [of saddr mem] assms by (auto simp: AdlerAddrMemcpyC_def adler_of_def)
qed

lemma AdlerAddrMemcpyWarm_block:
  assumes "length mem = 512" "length dst = 512" "warm dst mem 4096 = Inr (mem, c)"
  shows "\<exists>w'. AdlerAddrMemcpyWarm warm cfg p daddr saddr freq 4096 dst (mem, w) =
      Inr (Some (adler_of (map (tag_view p mem) [0..<512])), with_tags daddr mem, with_tags saddr mem, w') \<and>
      counted cfg (length (bad_tags saddr mem 0 512)) w w'"
  using AdlerAddrCrcC_block [OF assms(1), of cfg p saddr freq w] TagAddrC_eq [OF assms(1), of daddr] assms
  by (auto simp: AdlerAddrMemcpyWarm_def)

lemma bad_data_addr: "bad_data cfg p a mem = bad_data cfg p a' mem"
  unfolding bad_data_def by (rule filter_cong) (auto simp: fill_word_data)

text \<open>The rest of a page is copied from the repaired source; its tags are those of the destination.\<close>

lemma copy_leftovers_data:
  fixes cfg pats k dpe spe
  defines "p \<equiv> pats ! k" and "n \<equiv> nat (cf_page_length cfg) div 8" and "B \<equiv> 512 * (nat (cf_page_length cfg) div 4096)"
  assumes check: "check_leftovers cfg pats k spe worker_name phase s = Inr (e, page_data cfg p (pe_addr spe), w')"
    and dst: "length dst = n" and wf: "wf_pattern p" and len: "nat (cf_page_length cfg) = 8 * n"
    and clean: "nat (cf_page_length cfg) mod 4096 = 0 \<Longrightarrow> e = 0 \<and> s = (page_data cfg p (pe_addr spe), w')"
  shows "copy_leftovers cfg pats k dpe spe worker_name phase dst s =
    Inr (e, refill (fill_word (cf_tag_mode cfg) p (pe_addr dpe)) B n dst, page_data cfg p (pe_addr spe), w')"
proof (cases "nat (cf_page_length cfg) mod 4096 = 0")
  case True
  have "B = n" using True len by (auto simp: B_def)
  then show ?thesis using True clean by (simp add: copy_leftovers_def)
next
  case False
  let ?left = "nat (cf_page_length cfg) mod 4096" and ?b = "nat (cf_page_length cfg) div 4096"
  define m where "m = ?left div 8"
  have "8 * n = 4096 * ?b + ?left" using mult_div_mod_eq [of 4096 "nat (cf_page_length cfg)"] len by linarith
  moreover from this have "?left = 8 * (n - B)" unfolding B_def by linarith
  then have left: "?left = 8 * m" unfolding m_def by simp
  ultimately have m: "n = B + m" unfolding B_def by simp
  let ?chunk = "take m (drop B (page_data cfg p (pe_addr spe)))"
  have chunk: "length ?chunk = m" "\<And>i. i < m \<Longrightarrow> ?chunk ! i = fill_word (cf_tag_mode cfg) p (pe_addr spe) (B + i)"
    using m by (simp_all add: page_data_def n_def [symmetric])
  have tag: "is_tag cfg (B + i) = is_tag cfg i" for i unfolding B_def by (rule is_tag_block)
  have "(if cf_tag_mode cfg then TagAddrC (word_addr (pe_addr dpe) B) ?left ?chunk else Inr ?chunk) =
      Inr (tagged cfg (word_addr (pe_addr dpe) B) ?chunk)"
    using TagAddrC_eq [OF chunk(1)] left by (simp add: tagged_def)
  moreover have "tagged cfg (word_addr (pe_addr dpe) B) ?chunk =
      map (fill_word (cf_tag_mode cfg) p (word_addr (pe_addr dpe) B)) [0..<m]"
  proof (rule nth_equalityI)
    fix i assume "i < length (tagged cfg (word_addr (pe_addr dpe) B) ?chunk)"
    then have i: "i < m" using chunk(1) by simp
    have "fill_word (cf_tag_mode cfg) p (word_addr (pe_addr dpe) B) i = fill_word (cf_tag_mode cfg) p (pe_addr dpe) (B + i)"
      unfolding B_def by (rule fill_word_block [OF wf])
    then show "tagged cfg (word_addr (pe_addr dpe) B) ?chunk ! i =
        map (fill_word (cf_tag_mode cfg) p (word_addr (pe_addr dpe) B)) [0..<m] ! i"
      using i chunk tag [of i]
      by (cases "is_tag cfg i") (simp_all add: nth_tagged fill_word_tag fill_word_data)
  qed (use chunk(1) in simp)
  moreover have "put_block dst ?b (map (fill_word (cf_tag_mode cfg) p (word_addr (pe_addr dpe) B)) [0..<m]) =
      refill (fill_word (cf_tag_mode cfg) p (pe_addr dpe)) B n dst"
    using put_block_refill [of ?b m dst p "cf_tag_mode cfg" "pe_addr dpe"] dst m wf by (simp add: B_def)
  ultimately show ?thesis
    using False check
    by (cases "cf_tag_mode cfg") (simp_all add: copy_leftovers_def Let_def B_def [symmetric] m_def [symmetric])
qed

section \<open>The interface of the block routines\<close>

locale page_copier =
  fixes copy :: copy_fun and addr_copy :: addr_copy_fun
  assumes copy_block: "\<lbrakk>length src = 512; length dst = 512\<rbrakk> \<Longrightarrow> copy dst src 4096 = Inr (src, Some (adler_of src))"
    and addr_block: "\<lbrakk>length src = 512; length dst = 512\<rbrakk> \<Longrightarrow>
      \<exists>w' extra. addr_copy cfg p daddr saddr freq 4096 dst (src, w) =
        Inr (Some (adler_of (map (tag_view p src) [0..<512])), with_tags daddr src, with_tags saddr src, w') \<and>
        counted cfg (length (bad_tags saddr src 0 512) + extra) w w' \<and>
        extra \<le> length (bad_tags daddr dst 0 512)"
begin

text \<open>The block as both modes copy it: the source's view, the destination with its own tags.\<close>

lemma copy_step:
  assumes "length mem = 512" "length dst = 512"
  shows "\<exists>w' extra. (if cf_tag_mode cfg then addr_copy cfg p daddr saddr freq 4096 dst (mem, w)
      else res_bind (copy dst mem 4096) (\<lambda>(dst', crc). Inr (crc, dst', mem, w))) =
      Inr (Some (adler_of (block_view cfg p mem)), tagged cfg daddr mem, tagged cfg saddr mem, w') \<and>
    counted cfg (bad_tag_count cfg saddr mem + extra) w w' \<and> extra \<le> bad_tag_count cfg daddr dst"
  using copy_block [OF assms] addr_block [OF assms, of cfg p daddr saddr freq w] assms
  by (cases "cf_tag_mode cfg") (simp_all add: block_view_tag block_view_notag tagged_def bad_tag_count_def)

lemma copy_block_eq:
  fixes pats k dpe spe b
  defines "daddr \<equiv> word_addr (pe_addr dpe) (512 * b)" and "saddr \<equiv> word_addr (pe_addr spe) (512 * b)"
  assumes mem: "length mem = 512" "length dst = 512" and wf: "wf_pattern (pats ! k)" and tag: "tag_ok cfg saddr"
    and one: "length (bad_data cfg (pats ! k) saddr mem) \<le> 1"
  shows "\<exists>w' dst' extra. PageOps.copy_block copy addr_copy marker cfg pats k dpe spe worker_name phase b dst (mem, w) =
      Inr (length (bad_data cfg (pats ! k) saddr mem), dst',
           map (fill_word (cf_tag_mode cfg) (pats ! k) saddr) [0..<512], w') \<and> length dst' = 512 \<and>
    (length (bad_data cfg (pats ! k) saddr mem) = 0 \<longrightarrow> dst' = map (fill_word (cf_tag_mode cfg) (pats ! k) daddr) [0..<512]) \<and>
    counted cfg (bad_tag_count cfg saddr mem + length (bad_data cfg (pats ! k) saddr mem) + extra) w w' \<and>
    extra \<le> bad_tag_count cfg daddr dst"
proof -
  let ?p = "pats ! k" and ?bad = "bad_data cfg (pats ! k) saddr mem"
  let ?lb = "labels spe (int b * 4096) (pe_write_dram_frequency spe) worker_name phase"
  obtain w1 extra where w1: "(if cf_tag_mode cfg
        then addr_copy cfg ?p daddr saddr (pe_write_dram_frequency spe) 4096 dst (mem, w)
        else res_bind (copy dst mem 4096) (\<lambda>(dst', crc). Inr (crc, dst', mem, w))) =
      Inr (Some (adler_of (block_view cfg ?p mem)), tagged cfg daddr mem, tagged cfg saddr mem, w1)"
    "counted cfg (bad_tag_count cfg saddr mem + extra) w w1" "extra \<le> bad_tag_count cfg daddr dst"
    using copy_step [OF mem] by blast
  have step: "PageOps.copy_block copy addr_copy marker cfg pats k dpe spe worker_name phase b dst (mem, w) =
      (if adler_of (block_view cfg ?p mem) = adler_of (pattern_block ?p 512)
       then Inr (0, tagged cfg daddr mem, tagged cfg saddr mem, w1)
       else res_bind (CheckRegion cfg pats k saddr ?lb 4096 0 (tagged cfg saddr mem, note_mismatch worker_name phase w1))
              (\<lambda>(errorcount, s', blocks).
                 if errorcount = 0 \<and> \<not> cf_tag_mode cfg
                 then res_bind (retry_block cfg pats k marker spe worker_name phase b (tagged cfg daddr mem) s')
                        (\<lambda>(errorcount', s''). Inr (errorcount', tagged cfg daddr mem, s''))
                 else Inr (errorcount, tagged cfg daddr mem, s')))"
    unfolding PageOps.copy_block_def Let_def daddr_def [symmetric] saddr_def [symmetric] fst_conv w1(1)
    by (simp only: res_bind_Inr prod.case same_crc_eq [OF wf])
  show ?thesis
  proof (cases ?bad)
    case Nil
    have "bad_data cfg ?p daddr mem = []"
      using Nil bad_data_addr [of cfg ?p daddr mem saddr] by simp
    then show ?thesis
      using Nil step bad_data_Nil [OF Nil] bad_data_Nil(2) [of cfg ?p daddr mem] mem w1(2,3) by auto
  next
    case (Cons j js)
    then have single: "?bad = [j]" using one by simp
    have "adler_of (block_view cfg ?p mem) \<noteq> adler_of (pattern_block ?p 512)"
      using bad_data_single [OF single] mem by simp
    moreover obtain w2 blocks where w2: "CheckRegion cfg pats k saddr ?lb 4096 0
        (tagged cfg saddr mem, note_mismatch worker_name phase w1) =
        Inr (length ?bad, (map (fill_word (cf_tag_mode cfg) ?p saddr) [0..<512], w2), blocks)"
      "w_errorcount w2 = w_errorcount w1 + int (length ?bad)"
      "w_stop w2 = (w_stop w1 \<or> ?bad \<noteq> [] \<and> cf_stop_on_error cfg)"
      using CheckRegion_block [OF mem(1) tag, of 4096 pats k ?lb "note_mismatch worker_name phase w1"]
      by (auto simp: note_mismatch_def)
    ultimately show ?thesis
      using step w1(2,3) single mem by (auto simp: counted_def)
  qed
qed

lemma copy_blocks_eq:
  assumes wf: "wf_pattern (pats ! k)" and tag: "tag_ok cfg (pe_addr spe)"
  shows "512 * (b + n) \<le> length page \<Longrightarrow> length dst = length page \<Longrightarrow>
    (\<And>c. b \<le> c \<Longrightarrow> c < b + n \<Longrightarrow> bad_words cfg (pats ! k) (pe_addr spe) page (512 * c) (512 * c + 512) \<le> 1) \<Longrightarrow>
    \<exists>w' dst' extra. copy_blocks copy addr_copy marker cfg pats k dpe spe worker_name phase n b errors dst (page, w) =
      Inr (errors + bad_words cfg (pats ! k) (pe_addr spe) page (512 * b) (512 * (b + n)), dst',
           refill (fill_word (cf_tag_mode cfg) (pats ! k) (pe_addr spe)) (512 * b) (512 * (b + n)) page, w') \<and>
      length dst' = length dst \<and>
      (bad_words cfg (pats ! k) (pe_addr spe) page (512 * b) (512 * (b + n)) = 0 \<longrightarrow>
         dst' = refill (fill_word (cf_tag_mode cfg) (pats ! k) (pe_addr dpe)) (512 * b) (512 * (b + n)) dst) \<and>
      counted cfg (wrong_tags cfg (pe_addr spe) page (512 * b) (512 * (b + n)) +
                   bad_words cfg (pats ! k) (pe_addr spe) page (512 * b) (512 * (b + n)) + extra) w w' \<and>
      extra \<le> wrong_tags cfg (pe_addr dpe) dst (512 * b) (512 * (b + n))"
proof (induction n arbitrary: b errors page dst w)
  case (Suc n)
  let ?p = "pats ! k" and ?a = "pe_addr spe" and ?d = "pe_addr dpe"
  let ?f = "fill_word (cf_tag_mode cfg) ?p ?a" and ?g = "fill_word (cf_tag_mode cfg) ?p ?d"
  define s where "s = 512 * b"
  define t where "t = 512 * (b + 1)"
  define u where "u = 512 * (b + Suc n)"
  have stu: "t = s + 512" "s \<le> t" "t \<le> u" "u \<le> length page" "u = 512 * (b + 1 + n)"
    using Suc.prems(1) by (simp_all add: s_def t_def u_def)
  let ?page = "refill ?f s t page"
  have room: "512 * b + 512 \<le> length page" "512 * b + 512 \<le> length dst"
    using stu Suc.prems(2) by (simp_all add: s_def t_def)
  note bad = bad_block [OF room(1) wf, of cfg ?a, folded page_block_def s_def, folded stu(1)]
  note dbad = bad_block(2) [OF room(2) wf, of cfg ?d, folded page_block_def s_def, folded stu(1)]
  obtain w1 d1 x1 where w1: "PageOps.copy_block copy addr_copy marker cfg pats k dpe spe worker_name phase b
        (page_block dst b) (page_block page b, w) =
      Inr (bad_words cfg ?p ?a page s t, d1, map (fill_word (cf_tag_mode cfg) ?p (word_addr ?a s)) [0..<512], w1)"
    "length d1 = 512"
    "bad_words cfg ?p ?a page s t = 0 \<Longrightarrow> d1 = map (fill_word (cf_tag_mode cfg) ?p (word_addr ?d s)) [0..<512]"
    "counted cfg (wrong_tags cfg ?a page s t + bad_words cfg ?p ?a page s t + x1) w w1"
    "x1 \<le> wrong_tags cfg ?d dst s t"
  proof -
    have "length (page_block page b) = 512" "length (page_block dst b) = 512" using room by (simp_all add: page_block_def)
    moreover have "length (bad_data cfg ?p (word_addr ?a (512 * b)) (page_block page b)) \<le> 1"
      using bad(1) Suc.prems(3) [of b] stu(1) by (simp add: s_def)
    ultimately show ?thesis
      using copy_block_eq [of "page_block page b" "page_block dst b" pats k cfg spe b marker dpe worker_name phase w]
        wf tag_ok_block [OF tag, of b] bad dbad that
      unfolding s_def [symmetric] by auto
  qed
  let ?dst = "put_block dst b d1"
  have dst: "length ?dst = length dst" "\<And>j. t \<le> j \<Longrightarrow> j < length dst \<Longrightarrow> ?dst ! j = dst ! j"
    using w1(2) room(2) stu(1) s_def by (auto simp: put_block_def nth_append)
  have after: "bad_words cfg ?p ?a ?page i j = bad_words cfg ?p ?a page i j \<and>
      wrong_tags cfg ?a ?page i j = wrong_tags cfg ?a page i j" if "t \<le> i" "j \<le> length page" for i j
    using that by (rule bad_words_after)
  have "bad_words cfg ?p ?a ?page (512 * c) (512 * c + 512) \<le> 1" if "b + 1 \<le> c" "c < b + 1 + n" for c
  proof -
    have "512 * c + 512 \<le> u" "t \<le> 512 * c" using that by (simp_all add: u_def t_def)
    then show ?thesis using after [of "512 * c" "512 * c + 512"] stu(4) Suc.prems(3) [of c] that by simp
  qed
  then obtain w2 d2 x2 where w2: "copy_blocks copy addr_copy marker cfg pats k dpe spe worker_name phase n (b + 1)
        (errors + bad_words cfg ?p ?a page s t) ?dst (?page, w1) =
      Inr (errors + bad_words cfg ?p ?a page s t + bad_words cfg ?p ?a ?page t u, d2, refill ?f t u ?page, w2)"
    "length d2 = length ?dst" "bad_words cfg ?p ?a ?page t u = 0 \<Longrightarrow> d2 = refill ?g t u ?dst"
    "counted cfg (wrong_tags cfg ?a ?page t u + bad_words cfg ?p ?a ?page t u + x2) w1 w2"
    "x2 \<le> wrong_tags cfg ?d ?dst t u"
    using Suc.IH [of "b + 1" ?page ?dst "errors + bad_words cfg ?p ?a page s t" w1] stu Suc.prems(2) dst(1)
    unfolding t_def [symmetric] by auto
  have later: "bad_words cfg ?p ?a ?page t u = bad_words cfg ?p ?a page t u"
    "wrong_tags cfg ?a ?page t u = wrong_tags cfg ?a page t u"
    using after [of t u] stu(4) by simp_all
  have dlater: "wrong_tags cfg ?d ?dst t u = wrong_tags cfg ?d dst t u"
    using bad_words_cong [of t u ?dst dst cfg ?p ?d] dst(2) stu(4) Suc.prems(2) by simp
  have "d2 = refill ?g s u dst" if "bad_words cfg ?p ?a page s t + bad_words cfg ?p ?a page t u = 0"
  proof -
    have "?dst = refill ?g s t dst"
      using w1(3) that put_block_refill [OF room(2) wf, of "cf_tag_mode cfg" ?d] by (simp add: stu(1) s_def)
    then show ?thesis using w2(3) that later refill_refill [of s t u ?g dst] stu by simp
  qed
  moreover have "copy_blocks copy addr_copy marker cfg pats k dpe spe worker_name phase (Suc n) b errors dst (page, w) =
      copy_blocks copy addr_copy marker cfg pats k dpe spe worker_name phase n (b + 1)
        (errors + bad_words cfg ?p ?a page s t) ?dst (?page, w1)"
    using w1(1) put_block_refill [OF room(1) wf, of "cf_tag_mode cfg" ?a] by (simp add: stu(1) s_def)
  moreover have "counted cfg (wrong_tags cfg ?a page s u + bad_words cfg ?p ?a page s u + (x1 + x2)) w w2"
    using counted_trans [OF w1(4) w2(4)] later bad_words_split [of s t u cfg] stu(2,3) by (simp add: ac_simps)
  moreover have "x1 + x2 \<le> wrong_tags cfg ?d dst s u"
    using w1(5) w2(5) dlater bad_words_split(2) [of s t u cfg ?d dst] stu(2,3) by simp
  ultimately show ?case
    using w2(1,2) dst(1) later bad_words_split(1) [of s t u cfg ?p ?a page] stu(2,3) refill_refill [of s t u ?f page]
    unfolding s_def [symmetric] u_def [symmetric] by auto
qed (auto intro: exI [of _ 0])

text \<open>
  The whole page: with at most one wrong data word per block the source is repaired, the destination
  becomes what its pattern asks for, and all the wrong words are counted.
\<close>

lemma crc_copy_page_eq:
  assumes ok: "page_ok cfg pats spe page" and one: "block_limit cfg (pat_of pats spe) (pe_addr spe) page"
    and dst: "length dst = length page"
  defines "p \<equiv> pat_of pats spe" and "a \<equiv> pe_addr spe" and "n \<equiv> length page"
  shows "\<exists>w' extra. crc_copy_page copy addr_copy marker cfg pats dpe spe worker_name phase dst (page, w) =
      Inr (bad_words cfg p a page 0 n + wrong_tags cfg a page (512 * (n div 512)) n,
           (dpe\<lparr>pe_pattern := pe_pattern spe, pe_lastcpu := cf_cpu cfg, pe_write_dram_frequency := cf_frequency cfg\<rparr>,
            page_data cfg p (pe_addr dpe)), page_data cfg p a, w') \<and>
      counted cfg (wrong_tags cfg a page 0 n + bad_words cfg p a page 0 n + extra) w w' \<and>
      extra \<le> wrong_tags cfg (pe_addr dpe) dst 0 n"
proof -
  obtain k where k: "pe_pattern spe = Some k" "k < length pats" "pats ! k = p"
    using ok by (auto simp: page_ok_def p_def pat_of_def)
  have wf: "wf_pattern (pats ! k)" using page_ok_wf [OF ok] k p_def by simp
  have tag: "tag_ok cfg a" and len: "nat (cf_page_length cfg) = 8 * n"
    using ok by (simp_all add: page_ok_def a_def n_def)
  let ?B = "512 * (n div 512)" and ?f = "fill_word (cf_tag_mode cfg) p a" and ?d = "pe_addr dpe"
  let ?g = "fill_word (cf_tag_mode cfg) p (pe_addr dpe)"
  have blocks: "nat (cf_page_length cfg) div 4096 = n div 512" unfolding len by simp
  have B: "?B \<le> n" by simp
  have one': "\<And>c. 0 \<le> c \<Longrightarrow> c < 0 + n div 512 \<Longrightarrow> bad_words cfg (pats ! k) (pe_addr spe) page (512 * c) (512 * c + 512) \<le> 1"
    using one k(3) by (simp add: block_limit_def n_def p_def)
  obtain w1 d1 x1 where w1: "copy_blocks copy addr_copy marker cfg pats k dpe spe worker_name phase (n div 512) 0 0 dst (page, w) =
      Inr (bad_words cfg p a page 0 ?B, d1, refill ?f 0 ?B page, w1)" "length d1 = n"
      "bad_words cfg p a page 0 ?B = 0 \<Longrightarrow> d1 = refill ?g 0 ?B dst"
      "counted cfg (wrong_tags cfg a page 0 ?B + bad_words cfg p a page 0 ?B + x1) w w1"
      "x1 \<le> wrong_tags cfg ?d dst 0 ?B"
    using copy_blocks_eq [OF wf, of cfg spe 0 "n div 512" page dst marker dpe worker_name phase 0 w] tag one' B k(3) dst
    by (auto simp: n_def a_def)
  let ?page = "refill ?f 0 ?B page"
  have same: "bad_words cfg p a ?page ?B n = bad_words cfg p a page ?B n \<and>
      wrong_tags cfg a ?page ?B n = wrong_tags cfg a page ?B n"
    by (rule bad_words_after) (simp_all add: n_def)
  let ?data = "page_data cfg p a"
  have all: "refill ?f ?B n ?page = ?data"
    using refill_refill [OF _ B, of 0 ?f page] refill_all [of page n ?f] len by (simp add: n_def page_data_def)
  obtain w2 where w2: "check_leftovers cfg pats k spe worker_name phase (?page, w1) =
      Inr (bad_words cfg p a page ?B n + wrong_tags cfg a page ?B n, ?data, w2)"
      "counted cfg (wrong_tags cfg a page ?B n + bad_words cfg p a page ?B n) w1 w2"
    using check_leftovers_eq [of pats k cfg spe ?page worker_name phase w1] wf tag len k(3) same blocks all
    by (auto simp: n_def a_def)
  let ?errors = "bad_words cfg p a page 0 ?B + (bad_words cfg p a page ?B n + wrong_tags cfg a page ?B n)"
  obtain d2 where d2: "copy_leftovers cfg pats k dpe spe worker_name phase d1 (?page, w1) =
      Inr (bad_words cfg p a page ?B n + wrong_tags cfg a page ?B n, d2, ?data, w2)" "length d2 = n"
      "d2 = refill ?g ?B n d1"
  proof -
    have "bad_words cfg p a page ?B n + wrong_tags cfg a page ?B n = 0 \<and> (?page, w1) = (?data, w2)"
      if "nat (cf_page_length cfg) mod 4096 = 0"
    proof -
      have "?B = n" using that len by auto
      then show ?thesis using all w2(2) by simp
    qed
    then show ?thesis
      using copy_leftovers_data [of cfg pats k spe worker_name phase "(?page, w1)" _ w2 d1 dpe] w1(2) k(3) wf len blocks w2(1) that
      by (auto simp: a_def)
  qed
  have final: "d2 = page_data cfg p ?d" if "?errors = 0"
    using d2(3) w1(3) that refill_refill [OF _ B, of 0 ?g dst] refill_all [of dst n ?g] dst len
    by (simp add: n_def page_data_def)
  let ?dpe = "dpe\<lparr>pe_pattern := pe_pattern spe, pe_lastcpu := cf_cpu cfg, pe_write_dram_frequency := cf_frequency cfg\<rparr>"
  have "FillPage cfg pats ?dpe d2 = Inr (?dpe, page_data cfg p ?d)"
    using FillPage_eq [of ?dpe k pats d2 cfg] k d2(2) len ok by (auto simp: page_ok_def)
  then have "crc_copy_page copy addr_copy marker cfg pats dpe spe worker_name phase dst (page, w) =
      Inr (?errors, (?dpe, page_data cfg p ?d), ?data, w2)"
    using w1(1) d2(1) final k(1,2) blocks by (simp add: crc_copy_page_def pattern_of_def Let_def)
  moreover have "counted cfg (wrong_tags cfg a page 0 n + bad_words cfg p a page 0 n + x1) w w2"
    using counted_trans [OF w1(4) w2(2)] bad_words_split [OF _ B, of 0 cfg] by (simp add: ac_simps)
  moreover have "x1 \<le> wrong_tags cfg ?d dst 0 n"
    using w1(5) bad_words_split(2) [OF _ B, of 0 cfg ?d dst] by simp
  ultimately show ?thesis
    using bad_words_split(1) [OF _ B, of 0 cfg p a page] by (auto simp: add.assoc)
qed

lemma copy_page_ok:
  assumes "page_ok cfg pats spe page" "block_limit cfg (pat_of pats spe) (pe_addr spe) page"
    and "length dst = length page"
  shows "\<exists>dpe' w'. crc_copy_page copy addr_copy marker cfg pats dpe spe worker_name phase dst (page, w) =
      Inr (bad_words cfg (pat_of pats spe) (pe_addr spe) page 0 (length page) +
             wrong_tags cfg (pe_addr spe) page (512 * (length page div 512)) (length page),
           (dpe', page_data cfg (pat_of pats spe) (pe_addr dpe)),
           page_data cfg (pat_of pats spe) (pe_addr spe), w') \<and>
      pe_pattern dpe' = pe_pattern spe \<and> pe_offset dpe' = pe_offset dpe"
  using crc_copy_page_eq [OF assms, of marker dpe worker_name phase w] by auto

end

section \<open>The copy routines of the program\<close>

text \<open>Every routine that copies and sums a 4096-byte block gives a page copier with its tag-mode variant.\<close>

lemma copier_block:
  "adler_copier warm fits \<Longrightarrow> fits 4096 \<Longrightarrow> length src = 512 \<Longrightarrow> length dst = 512 \<Longrightarrow>
   warm dst src 4096 = Inr (src, Some (adler_of src))"
  using adler_copier.copy_eq [of warm fits 4096 src dst] by simp

lemma warm_copier:
  assumes "adler_copier warm fits" "fits 4096"
  shows "page_copier warm (AdlerAddrMemcpyWarm warm)"
proof
  fix src dst :: "u64 list"
  assume len: "length src = 512" "length dst = 512"
  note copy = copier_block [OF assms len]
  show "warm dst src 4096 = Inr (src, Some (adler_of src))" by (rule copy)
  show "\<exists>w' extra. AdlerAddrMemcpyWarm warm cfg p daddr saddr freq 4096 dst (src, w) =
        Inr (Some (adler_of (map (tag_view p src) [0..<512])), with_tags daddr src, with_tags saddr src, w') \<and>
        counted cfg (length (bad_tags saddr src 0 512) + extra) w w' \<and>
        extra \<le> length (bad_tags daddr dst 0 512)" for cfg p daddr saddr freq w
    using AdlerAddrMemcpyWarm_block [of src dst warm, OF len copy, of cfg p daddr saddr freq w] by (auto intro!: exI [of _ "0 :: nat"])
qed

lemma fits_4096: "c_fits 4096" "warm_fits 4096" "sse_fits 4096" "neon_fits 4096"
  by (simp_all add: c_fits_def warm_fits_def sse_fits_def neon_fits_def size_guard_unat asm_guard_def
      word_less_nat_alt drop_bit_eq_div unat_div_distrib)

interpretation crc_copy: page_copier AdlerMemcpyC AdlerAddrMemcpyC
proof
  fix src dst :: "u64 list"
  assume len: "length src = 512" "length dst = 512"
  show "AdlerMemcpyC dst src 4096 = Inr (src, Some (adler_of src))"
    by (rule copier_block [OF memcpy_c.adler_copier_axioms fits_4096(1) len])
  show "\<exists>w' extra. AdlerAddrMemcpyC cfg p daddr saddr freq 4096 dst (src, w) =
        Inr (Some (adler_of (map (tag_view p src) [0..<512])), with_tags daddr src, with_tags saddr src, w') \<and>
        counted cfg (length (bad_tags saddr src 0 512) + extra) w w' \<and>
        extra \<le> length (bad_tags daddr dst 0 512)" for cfg p daddr saddr freq w
    using AdlerAddrMemcpyC_block [OF len, of cfg p daddr saddr freq w] by auto
qed

interpretation warm_c: page_copier "AdlerMemcpyWarm False asm F" "AdlerAddrMemcpyWarm (AdlerMemcpyWarm False asm F)"
  for asm and F :: "'f fp"
  unfolding AdlerMemcpyWarm_def if_False
  by (rule warm_copier [OF memcpy_warm.adler_copier_axioms fits_4096(2)])

interpretation warm_sse2: page_copier "AdlerMemcpyAsm_sse2 xmm" "AdlerAddrMemcpyWarm (AdlerMemcpyAsm_sse2 xmm)" for xmm
  by (rule warm_copier [OF memcpy_sse2.adler_copier_axioms fits_4096(3)])

interpretation warm_aarch64: page_copier "AdlerMemcpyAsm_aarch64 v" "AdlerAddrMemcpyWarm (AdlerMemcpyAsm_aarch64 v)" for v
  by (rule warm_copier [OF memcpy_aarch64.adler_copier_axioms fits_4096(4)])

interpretation warm_armv7: page_copier "AdlerMemcpyAsm_armv7 q" "AdlerAddrMemcpyWarm (AdlerMemcpyAsm_armv7 q)" for q
  by (rule warm_copier [OF memcpy_armv7.adler_copier_axioms fits_4096(4)])

section \<open>Properties\<close>

text \<open>
  C11. No false alarm: a page filled with its pattern, in any fill direction, with any yield interval and pattern
  offset, with or without tags, passes the check: no error is reported and nothing changes.
\<close>

theorem fill_then_check:
  assumes "page_ok cfg pats pe page"
  shows "\<exists>pe' page'. FillPage cfg pats pe page = Inr (pe', page') \<and>
    CrcCheckPage cfg pats pe' worker_name phase (page', w) = Inr (0, page', w) \<and>
    page' = page_data cfg (pat_of pats pe) (pe_addr pe)"
proof -
  obtain k where k: "pe_pattern pe = Some k" "k < length pats" "wf_page_pattern (pats ! k)"
    "length page = nat (cf_page_length cfg) div 8"
    using assms by (auto simp: page_ok_def)
  let ?pe = "pe\<lparr>pe_lastcpu := cf_cpu cfg, pe_write_dram_frequency := cf_frequency cfg\<rparr>"
  have pat: "pat_of pats ?pe = pats ! k" "pat_of pats pe = pats ! k" using k(1) by (simp_all add: pat_of_def)
  have "page_ok cfg pats ?pe (page_data cfg (pat_of pats ?pe) (pe_addr ?pe))"
    using assms by (simp add: page_ok_def page_data_def)
  from CrcCheckPage_clean [OF this, of worker_name phase w] show ?thesis
    using FillPage_eq [OF k] pat by simp
qed

text \<open>
  C12. Detection and repair: if no 4096-byte block of a page has more than one wrong data word (any number of
  tags may be wrong in tag mode), the check reports exactly the wrong data words of the whole blocks and all wrong
  words of a shorter rest, counts every wrong word and tag, and leaves the page as its pattern asks.
\<close>

theorem CrcCheckPage_detects:
  assumes "page_ok cfg pats pe page" "block_limit cfg (pat_of pats pe) (pe_addr pe) page"
  shows "\<exists>w'. CrcCheckPage cfg pats pe worker_name phase (page, w) =
      Inr (bad_words cfg (pat_of pats pe) (pe_addr pe) page 0 (length page) +
             wrong_tags cfg (pe_addr pe) page (512 * (length page div 512)) (length page),
           page_data cfg (pat_of pats pe) (pe_addr pe), w') \<and>
    w_errorcount w' = w_errorcount w + int (wrong_tags cfg (pe_addr pe) page 0 (length page) +
      bad_words cfg (pat_of pats pe) (pe_addr pe) page 0 (length page))"
  using CrcCheckPage_eq [OF assms, of worker_name phase w] by (auto simp: counted_def)


section \<open>Concrete instances\<close>

abbreviation ex_pats :: "Pattern list" where
  "ex_pats \<equiv> patterns (PatternList_Initialize PatternList_new)"

abbreviation ex_pe :: page_entry where
  "ex_pe \<equiv> blank_pe\<lparr>pe_pattern := Some 3\<rparr>"

lemma ex_page_ok: "length page = 512 \<Longrightarrow> page_ok ex_cfg ex_pats ex_pe page"
  using wf_page_PatternList [of _ PatternList_new]
  by (auto simp: page_ok_def tag_ok_def ex_cfg_def in_set_conv_nth)

lemma ex_page_bad:
  fixes v :: u64
  assumes "v \<noteq> fill_word False p a 7"
  defines "page \<equiv> (page_data ex_cfg p a)[7 := v]"
  shows "length page = 512" "block_limit ex_cfg p a page" "bad_words ex_cfg p a page 0 512 = 1"
    "wrong_tags ex_cfg a page i j = 0"
proof -
  show len: "length page = 512" by (simp add: page_def page_data_def ex_cfg_def)
  have h: "(\<not> is_tag ex_cfg k \<and> page ! k \<noteq> fill_word (cf_tag_mode ex_cfg) p a k) = (k = 7)" if "k < 512" for k
    using that assms by (auto simp: is_tag_def ex_cfg_def page_def page_data_def nth_list_update)
  have "{k. \<not> is_tag ex_cfg k \<and> page ! k \<noteq> fill_word (cf_tag_mode ex_cfg) p a k} \<inter> set [0..<512] = {7}"
  proof (rule set_eqI)
    fix k
    show "k \<in> {k. \<not> is_tag ex_cfg k \<and> page ! k \<noteq> fill_word (cf_tag_mode ex_cfg) p a k} \<inter> set [0..<512] \<longleftrightarrow> k \<in> {7}"
      using h [of k] by (cases "k < 512") auto
  qed
  then show one: "bad_words ex_cfg p a page 0 512 = 1"
    unfolding bad_words_def by (subst distinct_length_filter) (simp_all only: distinct_upt card_1_singleton_iff, auto)
  show "block_limit ex_cfg p a page" using one len by (simp add: block_limit_def)
  show "wrong_tags ex_cfg a page i j = 0" by (simp add: wrong_tags_def is_tag_def ex_cfg_def)
qed

theorem fill_then_check_witness:
  "\<exists>pe' page'. FillPage ex_cfg ex_pats ex_pe (replicate 512 0) = Inr (pe', page') \<and>
     CrcCheckPage ex_cfg ex_pats pe' ''check'' ''runtime_check'' (page', ex_worker) = Inr (0, page', ex_worker)"
  using fill_then_check [OF ex_page_ok, of "replicate 512 0" "''check''" "''runtime_check''" ex_worker] by auto

theorem CrcCheckPage_detects_witness:
  "\<exists>w'. CrcCheckPage ex_cfg ex_pats ex_pe ''check'' ''runtime_check''
      ((page_data ex_cfg (ex_pats ! 3) 0)[7 := NOT (fill_word False (ex_pats ! 3) 0 7)], ex_worker) =
      Inr (1, page_data ex_cfg (ex_pats ! 3) 0, w') \<and> w_errorcount w' = 1"
proof -
  let ?v = "NOT (fill_word False (ex_pats ! 3) 0 7)"
  let ?page = "(page_data ex_cfg (ex_pats ! 3) 0)[7 := ?v]"
  have v: "?v \<noteq> fill_word False (ex_pats ! 3) 0 7" by (rule NOT_neq)
  note bad = ex_page_bad [OF v]
  have pat: "pat_of ex_pats ex_pe = ex_pats ! 3" "pe_addr ex_pe = 0" by (simp_all add: pat_of_def blank_pe_def)
  show ?thesis
    using CrcCheckPage_detects [OF ex_page_ok [OF bad(1)], of "''check''" "''runtime_check''" ex_worker] bad
    unfolding pat by (auto simp: ex_worker_def)
qed


end
