(* ===== verification/Lcg.thy ===== *)
theory Lcg
  imports SatPrelude
begin

text \<open>
  The linear congruential generator that \<open>FineLockPEQueue\<close> uses to walk its array:
  \<open>getA\<close> and \<open>getC\<close> of \<^verbatim>\<open>src/src/finelock_queue.cc\<close>, and the number theory behind them. The
  walk \<open>x := (a * x + c) mod m\<close> reaches every residue when \<open>c\<close> is coprime to \<open>m\<close>, every
  prime divisor of \<open>m\<close> divides \<open>a - 1\<close>, and 4 divides \<open>a - 1\<close> if it divides \<open>m\<close>.
\<close>

section \<open>The parameters of the generator\<close>

text \<open>
  The inner loop of \<open>getA\<close> divides \<open>i\<close> out of \<open>remaining\<close>. The C++ test
  \<open>(remaining / i) * i == remaining\<close> is kept as written; \<open>remaining\<close> is positive whenever the
  loop runs.
\<close>

definition divides_out :: "nat \<Rightarrow> nat \<Rightarrow> bool" where
  "divides_out remaining i \<longleftrightarrow> (remaining div i) * i = remaining"

function div_out :: "nat \<Rightarrow> nat \<Rightarrow> nat" where
  "div_out remaining i =
     (if 1 < i \<and> 0 < remaining \<and> divides_out remaining i then div_out (remaining div i) i
      else remaining)"
  by pat_completeness auto
termination
  by (relation "measure fst") auto

function getA_loop :: "nat \<Rightarrow> nat \<Rightarrow> nat \<Rightarrow> nat \<Rightarrow> nat" where
  "getA_loop m i remaining a =
     (if i \<le> m then
        (if divides_out remaining i
         then getA_loop m (i + 1) (div_out (remaining div i) i) (a * i)
         else getA_loop m (i + 1) remaining a)
      else a)"
  by pat_completeness auto
termination
  by (relation "measure (\<lambda>(m, i, remaining, a). Suc m - i)") auto

declare div_out.simps [simp del] getA_loop.simps [simp del]

definition getA :: "nat \<Rightarrow> nat" where
  "getA m = (getA_loop m 2 m (if (m div 4) * 4 = m then 2 else 1) + 1) mod m"

text \<open>\<open>getC\<close>: the largest prime that is at most \<open>3 * m / 4 + 1\<close>, or 1.\<close>

function trial :: "nat \<Rightarrow> nat \<Rightarrow> bool" where
  "trial n i = (if i < n then (if divides_out n i then True else trial n (i + 1)) else False)"
  by pat_completeness auto
termination
  by (relation "measure (\<lambda>(n, i). n - i)") auto

fun getC_loop :: "nat \<Rightarrow> nat" where
  "getC_loop 0 = 1"
| "getC_loop (Suc n) =
     (if Suc n > 1 then (if \<not> trial (Suc n) 2 then Suc n else getC_loop n) else 1)"

definition getC :: "nat \<Rightarrow> nat" where
  "getC m = getC_loop ((3 * m) div 4 + 1)"

declare trial.simps [simp del] getC_loop.simps [simp del]

section \<open>Primes\<close>

definition is_prime :: "nat \<Rightarrow> bool" where
  "is_prime p \<longleftrightarrow> 1 < p \<and> (\<forall>d. d dvd p \<longrightarrow> d = 1 \<or> d = p)"

lemma is_prime_gt_1: "is_prime p \<Longrightarrow> 1 < p"
  by (simp add: is_prime_def)

lemma is_prime_coprime: "is_prime p \<Longrightarrow> \<not> p dvd n \<Longrightarrow> coprime p n"
proof (rule coprimeI)
  fix d assume p: "is_prime p" "\<not> p dvd n" and d: "d dvd p" "d dvd n"
  then have "d = 1 \<or> d = p" by (simp add: is_prime_def)
  with p d show "is_unit d" by auto
qed

lemma is_prime_dvd_mult: "is_prime p \<Longrightarrow> p dvd a * b \<Longrightarrow> p dvd a \<or> p dvd b"
  using is_prime_coprime coprime_dvd_mult_right_iff by blast

lemma prime_divisor_exists: "1 < (n :: nat) \<Longrightarrow> \<exists>p. is_prime p \<and> p dvd n"
proof (induction n rule: less_induct)
  case (less n)
  show ?case
  proof (cases "is_prime n")
    case False
    then obtain d where d: "d dvd n" "d \<noteq> 1" "d \<noteq> n"
      using less.prems by (auto simp: is_prime_def)
    moreover have "d \<le> n" "d \<noteq> 0"
      using d(1) less.prems by (auto dest: dvd_imp_le intro: Nat.gr0I)
    ultimately have "d < n" "1 < d" by linarith+
    from less.IH [OF this] obtain p where "is_prime p" "p dvd d" by blast
    with d(1) show ?thesis using dvd_trans by blast
  qed auto
qed

lemma coprime_by_primes:
  assumes "\<And>p. is_prime p \<Longrightarrow> p dvd a \<Longrightarrow> p dvd (b :: nat) \<Longrightarrow> False" "0 < b"
  shows "coprime a b"
proof (rule ccontr)
  assume "\<not> coprime a b"
  then have "gcd a b \<noteq> 1" by (simp add: coprime_iff_gcd_eq_1)
  moreover have "gcd a b \<noteq> 0" using assms(2) by simp
  ultimately have "1 < gcd a b" by linarith
  then obtain p where "is_prime p" "p dvd gcd a b" using prime_divisor_exists by blast
  with assms(1) show False by auto
qed

section \<open>Geometric sums\<close>

definition geo :: "nat \<Rightarrow> nat \<Rightarrow> nat" where
  "geo a n = (\<Sum>i<n. a ^ i)"

lemma geo_0 [simp]: "geo a 0 = 0"
  by (simp add: geo_def)

lemma geo_Suc: "geo a (Suc n) = geo a n + a ^ n"
  by (simp add: geo_def)

lemma power_geo: "Suc b ^ n = Suc (b * geo (Suc b) n)"
  by (induction n) (simp_all add: geo_Suc algebra_simps)

lemma geo_add: "geo a (n + k) = geo a n + a ^ n * geo a k"
  by (induction k) (simp_all add: geo_Suc algebra_simps power_add)

lemma geo_2: "geo a 2 = 1 + a"
  by (simp add: geo_def numeral_2_eq_2)

lemma geo_mult: "geo a (n * k) = geo a n * geo (a ^ n) k"
proof (induction k)
  case (Suc k)
  have "geo a (n * k + n) = geo a n * geo (a ^ n) k + (a ^ n) ^ k * geo a n"
    by (simp only: geo_add Suc power_mult)
  then show ?case by (simp add: geo_Suc algebra_simps)
qed simp

text \<open>Modulo a divisor of \<open>b\<close> the sum counts its terms.\<close>

lemma geo_mod:
  assumes "q dvd b"
  shows "geo (Suc b) n mod q = n mod q"
proof (induction n)
  case (Suc n)
  have "b * geo (Suc b) n mod q = 0" using assms by simp
  then have "Suc b ^ n mod q = 1 mod q"
    unfolding power_geo by (metis One_nat_def mod_Suc_eq)
  with Suc show ?case
    by (metis geo_Suc mod_add_cong Suc_eq_plus1)
qed simp

section \<open>Full period\<close>

text \<open>The condition on the multiplier \<open>1 + b\<close> for the modulus \<open>m\<close>.\<close>

definition good_multiplier :: "nat \<Rightarrow> nat \<Rightarrow> bool" where
  "good_multiplier b m \<longleftrightarrow> (\<forall>p. is_prime p \<longrightarrow> p dvd m \<longrightarrow> p dvd b) \<and> (4 dvd m \<longrightarrow> 4 dvd b)"

lemma good_multiplier_dvd: "good_multiplier b m \<Longrightarrow> k dvd m \<Longrightarrow> good_multiplier b k"
  by (meson dvd_trans good_multiplier_def)

text \<open>For \<open>x = 1 + p * k\<close> the sum of \<open>p\<close> powers of \<open>x\<close> is \<open>p\<close> modulo \<open>p * p\<close>.\<close>

lemma power_linear_mod:
  "\<exists>u. (Suc (p * k)) ^ j = 1 + j * (p * k) + p * p * u"
proof (induction j)
  case (Suc j)
  then obtain u where u: "(Suc (p * k)) ^ j = 1 + j * (p * k) + p * p * u" by blast
  have "(Suc (p * k)) ^ Suc j = (Suc (p * k)) * (1 + j * (p * k) + p * p * u)"
    by (simp only: power_Suc u)
  then show ?case
    by (intro exI [of _ "u + j * k * k + k * p * u"]) (simp add: algebra_simps)
qed simp

lemma geo_linear_mod:
  "\<exists>u. geo (Suc (p * k)) n = n + (\<Sum>i<n. i) * (p * k) + p * p * u"
proof (induction n)
  case (Suc n)
  then obtain u where u: "geo (Suc (p * k)) n = n + (\<Sum>i<n. i) * (p * k) + p * p * u" by blast
  obtain v where v: "(Suc (p * k)) ^ n = 1 + n * (p * k) + p * p * v"
    using power_linear_mod by blast
  show ?case
    unfolding geo_Suc u v sum.lessThan_Suc
    by (intro exI [of _ "u + v"]) (simp only: algebra_simps)
qed simp

lemma sum_lessThan_odd: "odd p \<Longrightarrow> p dvd (\<Sum>i<p. i :: nat)"
proof -
  assume "odd p"
  then obtain r where p: "p = 2 * r + 1" by (rule oddE)
  have gauss: "2 * (\<Sum>i<n. i) = n * (n - 1)" for n :: nat
    by (induction n) (auto simp: algebra_simps)
  have "2 * (\<Sum>i<p. i) = 2 * (p * r)"
    unfolding gauss using p by simp
  then show "p dvd (\<Sum>i<p. i)" by simp
qed

lemma geo_prime:
  assumes p: "is_prime p" and x: "p dvd y" "p = 2 \<Longrightarrow> 4 dvd y"
  shows "\<exists>u. geo (Suc y) p = p * (1 + p * u)"
proof (cases "p = 2")
  case True
  with x(2) obtain k where "y = 4 * k" by (auto elim: dvdE)
  with True show ?thesis
    by (intro exI [of _ k]) (simp add: geo_def eval_nat_numeral)
next
  case False
  then have "odd p" using p by (auto simp: is_prime_def dest: spec [of _ 2])
  then obtain s where s: "(\<Sum>i<p. i) = p * s" using sum_lessThan_odd by (auto elim: dvdE)
  obtain k where "y = p * k" using x(1) by (rule dvdE)
  with geo_linear_mod [of p k p] obtain u where
    "geo (Suc y) p = p + p * s * (p * k) + p * p * u" using s by auto
  then show ?thesis
    by (intro exI [of _ "s * k + u"]) (simp add: algebra_simps)
qed

lemma geo_prime_factor:
  assumes good: "good_multiplier b m" and p: "is_prime p" and m: "m = p * m'" "0 < m"
  shows "\<exists>u. geo ((Suc b) ^ n) p = p * u \<and> coprime u m'"
proof -
  let ?y = "b * geo (Suc b) n"
  have pow: "(Suc b) ^ n = Suc ?y" by (rule power_geo)
  have dvd: "q dvd ?y" if "is_prime q" "q dvd m" for q
    using good that by (simp add: good_multiplier_def)
  show ?thesis
  proof (cases "p = 2 \<and> \<not> 4 dvd m")
    case True
    have "even ?y" using dvd [OF p] True m(1) by simp
    then obtain r where r: "?y = 2 * r" by (rule evenE)
    then obtain u where u: "geo (Suc ?y) p = p * u"
      using True by (intro that [of "1 + r"]) (simp only: geo_2 r, simp)
    have "coprime u m'"
    proof (rule coprime_by_primes)
      fix q assume q: "is_prime q" "q dvd u" "q dvd m'"
      have "2 dvd m' \<Longrightarrow> 2 * 2 dvd 2 * m'" by (rule mult_dvd_mono) simp_all
      with q(3) True m(1) have "q \<noteq> 2" by auto
      moreover have "q dvd 2"
      proof -
        have "q dvd ?y" using dvd [OF q(1)] q(3) m(1) by simp
        then have "geo (Suc ?y) p mod q = p mod q" by (rule geo_mod)
        moreover have "q dvd geo (Suc ?y) p" using u q(2) by simp
        ultimately show ?thesis using True by (simp add: dvd_eq_mod_eq_0)
      qed
      ultimately show False using q(1) by (auto simp: is_prime_def dest: dvd_imp_le)
    qed (use m in simp)
    with u show ?thesis unfolding pow by blast
  next
    case False
    then have "p = 2 \<Longrightarrow> 4 dvd ?y" using good by (auto simp: good_multiplier_def)
    then obtain u where u: "geo (Suc ?y) p = p * (1 + p * u)"
      using geo_prime [OF p dvd [OF p]] m(1) by auto
    have "coprime (1 + p * u) m'"
    proof (rule coprime_by_primes)
      fix q assume q: "is_prime q" "q dvd 1 + p * u" "q dvd m'"
      then have "q dvd m" using m(1) by simp
      show False
      proof (cases "q = p")
        case True
        with q(2) have "q dvd 1" by (metis dvd_add_left_iff dvd_triv_left)
        with q(1) show False by (simp add: is_prime_def)
      next
        case False
        have "geo (Suc ?y) p mod q = p mod q"
          using geo_mod dvd q(1) \<open>q dvd m\<close> by blast
        with u q(2) have "q dvd p" by (metis dvd_eq_mod_eq_0 dvd_mult)
        with False p q(1) show False by (auto simp: is_prime_def)
      qed
    qed (use m in simp)
    with u show ?thesis unfolding pow by blast
  qed
qed

text \<open>A multiple of \<open>m\<close> among the sums has a multiple of \<open>m\<close> as its number of terms.\<close>

lemma dvd_geo_imp_dvd:
  "\<lbrakk>good_multiplier b m; 0 < m; m dvd geo (Suc b) n\<rbrakk> \<Longrightarrow> m dvd n"
proof (induction m arbitrary: n rule: less_induct)
  case (less m)
  show ?case
  proof (cases "m = 1")
    case False
    then obtain p m' where p: "is_prime p" and m: "m = p * m'"
      using prime_divisor_exists [of m] less.prems(2) by (auto elim: dvdE)
    have "p dvd b" using less.prems(1) p m by (simp add: good_multiplier_def)
    moreover have "p dvd geo (Suc b) n" using less.prems(3) m dvd_mult_left by blast
    ultimately have "p dvd n" using geo_mod [of p b n] by (simp add: dvd_eq_mod_eq_0)
    then obtain n' where n: "n = n' * p" by (auto simp: dvd_def mult.commute)
    obtain u where u: "geo ((Suc b) ^ n') p = p * u" "coprime u m'"
      using geo_prime_factor [OF less.prems(1) p m less.prems(2)] by blast
    have "geo (Suc b) n = p * (geo (Suc b) n' * u)"
      by (simp only: n geo_mult u(1) mult.left_commute)
    then have "p * m' dvd p * (geo (Suc b) n' * u)"
      using less.prems(3) m by simp
    then have "m' dvd geo (Suc b) n' * u"
      using is_prime_gt_1 [OF p] by simp
    then have "m' dvd geo (Suc b) n'"
      using u(2) by (simp add: coprime_commute coprime_dvd_mult_left_iff)
    moreover have "m' < m" "0 < m'" "m' dvd m"
      using m less.prems(2) is_prime_gt_1 [OF p] by auto
    ultimately have "m' dvd n'"
      using less.IH good_multiplier_dvd [OF less.prems(1)] by blast
    then show ?thesis by (simp add: n m mult.commute)
  qed simp
qed

text \<open>One step of the generator in unbounded arithmetic, and its iterates.\<close>

definition lcg :: "nat \<Rightarrow> nat \<Rightarrow> nat \<Rightarrow> nat \<Rightarrow> nat" where
  "lcg a c m x = (a * x + c) mod m"

lemma mod_linear_cong:
  "x mod m = y mod m \<Longrightarrow> (k * x + c) mod m = (k * y + c) mod (m :: nat)"
  by (intro mod_add_cong mod_mult_cong) simp_all

lemma lcg_iterate:
  "((lcg (Suc b) c m) ^^ n) x mod m = (x + (b * x + c) * geo (Suc b) n) mod m"
proof (induction n)
  case (Suc n)
  let ?g = "geo (Suc b) n"
  have "((lcg (Suc b) c m) ^^ Suc n) x mod m = (Suc b * ((lcg (Suc b) c m) ^^ n) x + c) mod m"
    by (simp only: funpow.simps o_apply lcg_def [of _ _ _ "((lcg (Suc b) c m) ^^ n) x"] mod_mod_trivial)
  also have "\<dots> = (Suc b * (x + (b * x + c) * ?g) + c) mod m"
    by (rule mod_linear_cong [OF Suc])
  also have "Suc b * (x + (b * x + c) * ?g) + c = x + (b * x + c) * (?g + Suc (b * ?g))"
    by (simp add: algebra_simps)
  finally show ?case by (simp only: geo_Suc power_geo)
qed simp

lemma lcg_less: "0 < m \<Longrightarrow> lcg a c m x < m"
  by (simp add: lcg_def)

lemma lcg_iterate_less: "0 < m \<Longrightarrow> x < m \<Longrightarrow> ((lcg a c m) ^^ n) x < m"
  by (cases n) (simp_all add: lcg_less)

lemma lcg_distinct:
  assumes "good_multiplier b m" "coprime c m" "x < m" "i < j" "j < i + m"
  shows "((lcg (Suc b) c m) ^^ i) x \<noteq> ((lcg (Suc b) c m) ^^ j) x"
proof
  let ?f = "lcg (Suc b) c m"
  assume eq: "(?f ^^ i) x = (?f ^^ j) x"
  define y d where "y = (?f ^^ i) x" and "d = j - i"
  have m: "0 < m" "y < m" using assms(3) by (simp_all add: y_def lcg_iterate_less)
  have "(?f ^^ j) x = (?f ^^ d) y"
    using assms(4) funpow_add [of d i ?f] by (simp add: y_def d_def)
  then have "(y + (b * y + c) * geo (Suc b) d) mod m = y mod m"
    using lcg_iterate [where n = d and x = y and b = b and c = c and m = m] eq y_def by simp
  then have "m dvd (b * y + c) * geo (Suc b) d"
    using mod_eq_dvd_iff_nat [of y "y + (b * y + c) * geo (Suc b) d" m] by simp
  moreover have "coprime (b * y + c) m"
  proof (rule coprime_by_primes)
    fix p assume p: "is_prime p" "p dvd b * y + c" "p dvd m"
    then have "p dvd b * y" using assms(1) by (simp add: good_multiplier_def)
    with p(2) have "p dvd c" by (simp add: dvd_add_right_iff)
    with p(3) assms(2) have "p dvd 1" by (meson coprime_common_divisor)
    with p(1) show False by (simp add: is_prime_def)
  qed (rule m)
  ultimately have "m dvd geo (Suc b) d"
    by (simp add: coprime_commute coprime_dvd_mult_right_iff)
  then have "m dvd d" using dvd_geo_imp_dvd assms(1) m(1) by blast
  with assms(4,5) show False by (auto simp: d_def dest: dvd_imp_le)
qed

theorem lcg_full_period:
  assumes "good_multiplier b m" "coprime c m" "x < m" "y < m"
  shows "\<exists>n<m. ((lcg (Suc b) c m) ^^ n) x = y"
proof -
  let ?g = "\<lambda>n. ((lcg (Suc b) c m) ^^ n) x"
  have "inj_on ?g {..<m}"
    using assms lcg_distinct [of b m c x] by (intro linorder_inj_onI) auto
  moreover have "?g ` {..<m} \<subseteq> {..<m}"
    using assms(3) by (auto intro: lcg_iterate_less)
  ultimately have "?g ` {..<m} = {..<m}"
    by (intro endo_inj_surj) simp_all
  with assms(4) have "y \<in> ?g ` {..<m}" by blast
  then show ?thesis by blast
qed

section \<open>What \<open>getA\<close> returns\<close>

lemma divides_out_iff [simp]: "divides_out r i \<longleftrightarrow> i dvd r"
  by (metis divides_out_def dvd_div_mult_self dvd_triv_right)

lemma is_prime_dvd_div:
  "\<lbrakk>is_prime p; p dvd r; i dvd r; \<not> p dvd i\<rbrakk> \<Longrightarrow> p dvd r div i"
  by (metis dvd_mult_div_cancel is_prime_dvd_mult)

lemma is_prime_dvd_div_out:
  "\<lbrakk>is_prime p; p dvd r; \<not> p dvd i\<rbrakk> \<Longrightarrow> p dvd div_out r i"
proof (induction r i rule: div_out.induct)
  case (1 r i)
  then show ?case
    by (subst div_out.simps) (auto intro: is_prime_dvd_div)
qed

lemma div_out_pos: "0 < r \<Longrightarrow> 0 < div_out r i"
proof (induction r i rule: div_out.induct)
  case (1 r i)
  then show ?case
    by (subst div_out.simps) (auto elim!: dvdE)
qed

lemma div_out_not_dvd: "1 < i \<Longrightarrow> 0 < r \<Longrightarrow> \<not> i dvd div_out r i"
proof (induction r i rule: div_out.induct)
  case (1 r i)
  then show ?case
    by (subst div_out.simps) (auto elim!: dvdE)
qed

lemma odd_div: "odd r \<Longrightarrow> i dvd r \<Longrightarrow> odd i \<and> odd (r div i :: nat)"
  by (metis dvd_mult_div_cancel even_mult_iff)

lemma odd_div_out: "odd r \<Longrightarrow> odd (div_out r i)"
proof (induction r i rule: div_out.induct)
  case (1 r i)
  then show ?case
    by (subst div_out.simps) (auto dest: odd_div)
qed

lemma getA_loop_dvd: "a dvd getA_loop m i r a"
proof (induction m i r a rule: getA_loop.induct)
  case (1 m i r a)
  then show ?case
    by (subst getA_loop.simps) (auto dest: dvd_mult_left)
qed

lemma getA_loop_prime:
  "\<lbrakk>is_prime p; 2 \<le> i; i \<le> p; p \<le> m; p dvd r\<rbrakk> \<Longrightarrow> p dvd getA_loop m i r a"
proof (induction m i r a rule: getA_loop.induct)
  case (1 m i r a)
  show ?case
  proof (cases "i = p")
    case True
    have "a * p dvd getA_loop m (i + 1) (div_out (r div i) i) (a * i)"
      using True getA_loop_dvd [of "a * i"] by simp
    then show ?thesis
      using 1(6,7) True by (subst getA_loop.simps) (auto dest: dvd_mult_right)
  next
    case False
    then have "\<not> p dvd i" using 1(4,5) by (auto dest: dvd_imp_le)
    moreover from this have "i dvd r \<Longrightarrow> p dvd div_out (r div i) i"
      using 1(3,7) by (intro is_prime_dvd_div_out is_prime_dvd_div)
    ultimately show ?thesis
      using 1 False by (subst getA_loop.simps) auto
  qed
qed

lemma getA_loop_odd: "odd r \<Longrightarrow> \<exists>d. odd d \<and> getA_loop m i r a = a * d"
proof (induction m i r a rule: getA_loop.induct)
  case (1 m i r a)
  show ?case
  proof (cases "i \<le> m \<and> i dvd r")
    case True
    then have "odd (div_out (r div i) i)" "odd i"
      using 1(3) odd_div [of r i] odd_div_out [of "r div i" i] by auto
    with 1(1) True obtain d where "odd d" "getA_loop m (i + 1) (div_out (r div i) i) (a * i) = a * i * d"
      by auto
    with \<open>odd i\<close> True show ?thesis
      by (subst getA_loop.simps) (auto intro!: exI [of _ "i * d"])
  next
    case False
    with 1 show ?thesis by (subst getA_loop.simps) (auto intro: exI [of _ 1])
  qed
qed

lemma getA_loop_even:
  assumes "even m" "0 < m"
  shows "\<exists>d. odd d \<and> getA_loop m 2 m a = 2 * a * d"
proof -
  have "odd (div_out (m div 2) 2)"
    using div_out_not_dvd [of 2 "m div 2"] assms by (auto elim!: evenE)
  then obtain d where "odd d" "getA_loop m 3 (div_out (m div 2) 2) (a * 2) = a * 2 * d"
    using getA_loop_odd by blast
  moreover have "2 \<le> m" using assms by (auto elim!: evenE)
  ultimately show ?thesis
    using assms(1) by (subst getA_loop.simps) (auto simp: numeral_3_eq_3 [symmetric])
qed

definition getA_product :: "nat \<Rightarrow> nat" where
  "getA_product m = getA_loop m 2 m (if (m div 4) * 4 = m then 2 else 1)"

lemma getA_product_prime: "is_prime p \<Longrightarrow> p dvd m \<Longrightarrow> 0 < m \<Longrightarrow> p dvd getA_product m"
  unfolding getA_product_def
  by (rule getA_loop_prime) (auto dest: is_prime_gt_1 dvd_imp_le)

lemma getA_product_4:
  assumes "4 dvd m" "0 < m"
  shows "\<exists>d. odd d \<and> getA_product m = 4 * d"
proof -
  have "m div 4 * 4 = m" "even m" using assms(1) by (auto elim: dvdE)
  with getA_loop_even [of m 2] assms(2) show ?thesis
    by (auto simp: getA_product_def)
qed

lemma getA_mod_dvd:
  assumes "d dvd m" "d dvd getA_product m" "1 < d"
  shows "1 \<le> getA m mod m" "d dvd getA m mod m - 1"
proof -
  have "(getA m mod m) mod d = (getA_product m + 1) mod d"
    using assms(1) by (simp add: getA_def getA_product_def mod_mod_cancel)
  also have "\<dots> = (getA_product m mod d + 1) mod d" by (simp only: mod_add_left_eq)
  also have "\<dots> = 1" using assms(2,3) by simp
  finally have r: "(getA m mod m) mod d = 1" .
  then show "1 \<le> getA m mod m" by (cases "getA m mod m = 0") auto
  then show "d dvd getA m mod m - 1"
    using r by (metis dvd_minus_mod)
qed

lemma getA_good:
  assumes "1 < m"
  shows "1 \<le> getA m mod m" "good_multiplier (getA m mod m - 1) m"
proof -
  obtain p where "is_prime p" "p dvd m" using prime_divisor_exists assms by blast
  then show "1 \<le> getA m mod m"
    using getA_mod_dvd(1) getA_product_prime is_prime_gt_1 assms by fastforce
  have "4 dvd m \<Longrightarrow> 4 dvd getA m mod m - 1"
    using getA_product_4 [of m] getA_mod_dvd(2) [of 4 m] assms by auto
  moreover have "\<And>p. is_prime p \<Longrightarrow> p dvd m \<Longrightarrow> p dvd getA m mod m - 1"
    using getA_mod_dvd(2) getA_product_prime is_prime_gt_1 assms by fastforce
  ultimately show "good_multiplier (getA m mod m - 1) m"
    by (simp add: good_multiplier_def)
qed

lemma getA_multiple_of_8: "8 dvd m \<Longrightarrow> getA m mod m \<noteq> 1"
proof (cases "m = 0")
  case True
  then show ?thesis by (simp add: getA_def getA_loop.simps)
next
  case False
  assume m: "8 dvd m"
  then have "4 dvd m" by (rule dvd_trans [rotated]) simp
  with False obtain d where d: "odd d" "getA_product m = 4 * d"
    using getA_product_4 by blast
  show ?thesis
  proof
    assume "getA m mod m = 1"
    then have "(4 * d + 1) mod m = 1 mod m"
      using d(2) False m by (auto simp: getA_def getA_product_def)
    then have "m dvd 4 * d" using mod_eq_dvd_iff_nat [of 1 "4 * d + 1" m] by simp
    with m have "4 * 2 dvd 4 * d" using dvd_trans by fastforce
    with d(1) show False by simp
  qed
qed

section \<open>What \<open>getC\<close> returns\<close>

lemma trial_iff: "trial n i \<longleftrightarrow> (\<exists>d. i \<le> d \<and> d < n \<and> d dvd n)"
proof (induction n i rule: trial.induct)
  case (1 n i)
  note unfold = trial.simps [of n i]
  show ?case
  proof (cases "i < n \<and> \<not> i dvd n")
    case True
    then have "trial n i \<longleftrightarrow> (\<exists>d. i + 1 \<le> d \<and> d < n \<and> d dvd n)"
      using 1 unfold by simp
    also have "\<dots> \<longleftrightarrow> (\<exists>d. i \<le> d \<and> d < n \<and> d dvd n)"
      using True by (metis Suc_eq_plus1 Suc_leD le_eq_less_or_eq less_eq_Suc_le)
    finally show ?thesis .
  next
    case False
    then show ?thesis using unfold by auto
  qed
qed

lemma not_trial_prime: "1 < n \<Longrightarrow> \<not> trial n 2 \<longleftrightarrow> is_prime n"
proof -
  assume n: "1 < n"
  have "d = 1 \<or> d = n \<longleftrightarrow> \<not> (2 \<le> d \<and> d < n)" if "d dvd n" for d
    using n dvd_imp_le [OF that] that by (cases "d = 0") auto
  with n show "\<not> trial n 2 \<longleftrightarrow> is_prime n"
    unfolding trial_iff is_prime_def by blast
qed

lemma getC_loop_prime:
  "is_prime q \<Longrightarrow> q \<le> n \<Longrightarrow> is_prime (getC_loop n) \<and> q \<le> getC_loop n \<and> getC_loop n \<le> n"
proof (induction n)
  case (Suc n)
  show ?case
  proof (cases "q = Suc n")
    case True
    with Suc.prems is_prime_gt_1 [OF Suc.prems(1)] show ?thesis
      by (simp add: not_trial_prime getC_loop.simps)
  next
    case False
    with Suc show ?thesis
      using is_prime_gt_1 [OF Suc.prems(1)] by (auto simp: not_trial_prime getC_loop.simps)
  qed
qed (simp add: is_prime_def)

lemma getC_coprime:
  assumes "is_prime q" "m < 2 * q" "4 * (q - 1) \<le> 3 * m" "4 < m"
  shows "coprime (getC m) m"
proof -
  let ?c = "getC m"
  have "q \<le> 3 * m div 4 + 1" using assms(3) by linarith
  note c = getC_loop_prime [OF assms(1) this, folded getC_def]
  have "\<not> ?c dvd m"
  proof
    assume "?c dvd m"
    then obtain k where k: "m = ?c * k" by (rule dvdE)
    have "k \<noteq> 0" using k assms(4) by (metis mult_0_right not_less_zero)
    moreover have "k < 2"
    proof (rule ccontr)
      assume "\<not> k < 2"
      then have "?c * 2 \<le> m" using mult_le_mono2 [of 2 k ?c] k by linarith
      with c assms(2) show False by linarith
    qed
    ultimately have "k = 1" by linarith
    with k have "m = ?c" by simp
    then show False using c assms(4) by linarith
  qed
  with c show ?thesis by (blast intro: is_prime_coprime)
qed

text \<open>
  A chain of primes, each at most half as large again as the one before: between them they serve
  every modulus up to 1498257. The primality test divides by odd numbers up to the root.
\<close>

function odd_trial :: "int \<Rightarrow> int \<Rightarrow> bool" where
  "odd_trial n d = (if n < d * d \<or> d < 2 then True else if n mod d = 0 then False else odd_trial n (d + 2))"
  by pat_completeness auto
termination
proof (relation "measure (\<lambda>(n, d). nat (n - d + 1))")
  fix n d :: int
  assume "\<not> (n < d * d \<or> d < 2)"
  then have d: "d * d \<le> n" "1 < d" by simp_all
  then have "d \<le> n" using mult_left_mono [of 1 d d] by linarith
  with d(2) show "((n, d + 2), n, d) \<in> measure (\<lambda>(n, d). nat (n - d + 1))"
    by auto
qed auto

declare odd_trial.simps [simp del]

lemma odd_trial_sound:
  "\<lbrakk>odd_trial n d; 2 \<le> d; odd d; e dvd n; d \<le> e; odd e; e * e \<le> n\<rbrakk> \<Longrightarrow> False"
proof (induction n d rule: odd_trial.induct)
  case (1 n d)
  have "d * d \<le> e * e" using 1(3,6) by (intro mult_mono) auto
  then have d: "\<not> (n < d * d \<or> d < 2)" "n mod d \<noteq> 0"
    using 1(2,3,8) odd_trial.simps [of n d] by (auto split: if_splits)
  then have "odd_trial n (d + 2)" "e \<noteq> d"
    using 1(2,5) odd_trial.simps [of n d] by (auto split: if_splits)
  moreover have "d + 2 \<le> e" using \<open>e \<noteq> d\<close> 1(4,6,7) by presburger
  ultimately show ?case using 1(1) [OF d] 1 by auto
qed

lemma small_divisor:
  assumes "d dvd (n :: nat)" "1 < d" "d < n"
  obtains e where "e dvd n" "1 < e" "e * e \<le> n"
proof -
  obtain k where n: "n = d * k" using assms(1) by (rule dvdE)
  have "1 < k" using n assms(2,3) by (cases "k \<le> 1") (auto simp: le_Suc_eq)
  show ?thesis
  proof (cases "d \<le> k")
    case True
    then show ?thesis using that [of d] n assms(2) by simp
  next
    case False
    then show ?thesis using that [of k] n \<open>1 < k\<close> by simp
  qed
qed

lemma odd_trial_prime:
  assumes "odd_trial (int n) 3" "odd n" "1 < n"
  shows "is_prime n"
  unfolding is_prime_def
proof (intro conjI allI impI)
  fix d assume d: "d dvd n"
  show "d = 1 \<or> d = n"
  proof (rule ccontr)
    assume "\<not> (d = 1 \<or> d = n)"
    moreover have "d \<le> n" "d \<noteq> 0" using d assms(3) dvd_imp_le [OF d] by (auto intro: Nat.gr0I)
    ultimately have "1 < d" "d < n" by linarith+
    then obtain e where e: "e dvd n" "1 < e" "e * e \<le> n"
      using small_divisor d by blast
    have "odd e" using e(1) assms(2) by (auto elim: dvdE)
    then have "3 \<le> e" using e(2) by presburger
    show False
      using odd_trial_sound [OF assms(1), of "int e"] e \<open>odd e\<close> \<open>3 \<le> e\<close>
      by (simp flip: of_nat_mult)
  qed
qed (use assms in simp)

definition ladder :: "int list" where
  "ladder =
     [7, 11, 17, 23, 31, 47, 71, 107, 157, 233,
      349, 523, 773, 1153, 1723, 2579, 3863, 5791, 8681, 13009,
      19507, 29251, 43867, 65789, 98669, 147997, 221989, 332951, 499423, 749129]"

fun chained :: "int \<Rightarrow> int list \<Rightarrow> bool" where
  "chained q [] = True"
| "chained q (r # rs) = (4 * (r - 1) \<le> 6 * q \<and> chained r rs)"

lemma ladder_ok:
  "list_all (\<lambda>q. 1 < q \<and> odd q \<and> odd_trial q 3) ladder \<and> chained 7 ladder"
  by code_simp

lemma chained_covers:
  "\<lbrakk>chained q rs; 4 * (q - 1) \<le> 3 * m; m < 2 * last (q # rs)\<rbrakk> \<Longrightarrow>
   \<exists>r \<in> set (q # rs). m < 2 * r \<and> 4 * (r - 1) \<le> 3 * m"
proof (induction rs arbitrary: q)
  case (Cons r rs)
  show ?case
  proof (cases "m < 2 * q")
    case False
    then have "\<exists>s \<in> set (r # rs). m < 2 * s \<and> 4 * (s - 1) \<le> 3 * m"
      using Cons.prems by (intro Cons.IH) auto
    then show ?thesis by auto
  qed (use Cons.prems in auto)
qed simp

lemma ladder_covers:
  assumes "8 \<le> m" "m < 1498258"
  obtains q where "is_prime q" "m < 2 * q" "4 * (q - 1) \<le> 3 * m"
proof -
  have "last (7 # ladder) = 749129" "7 \<in> set ladder" by (simp_all add: ladder_def)
  then obtain r where r: "r \<in> set ladder" "int m < 2 * r" "4 * (r - 1) \<le> 3 * int m"
    using chained_covers [of 7 ladder "int m"] ladder_ok assms by auto
  have "1 < r" "odd r" "odd_trial r 3" using r(1) ladder_ok by (auto simp: list_all_iff)
  then have "is_prime (nat r)" by (intro odd_trial_prime) (auto simp: even_nat_iff)
  then show ?thesis using that [of "nat r"] r(2,3) \<open>1 < r\<close> by auto
qed

section \<open>The generator of a queue\<close>

text \<open>
  The constructor tries moduli from the queue size upwards until the multiplier is not 1. It
  stops at a multiple of 8 at the latest.
\<close>

function lcg_search :: "nat \<Rightarrow> nat" where
  "lcg_search m = (if getA m mod m = 1 then lcg_search (m + 1) else m)"
  by pat_completeness auto
termination
proof (relation "measure (\<lambda>m. (8 - m mod 8) mod 8)")
  fix m :: nat
  assume "getA m mod m = 1"
  then have "m mod 8 \<noteq> 0" using getA_multiple_of_8 by (auto simp: dvd_eq_mod_eq_0)
  moreover have "m mod 8 < 8" by simp
  ultimately show "(m + 1, m) \<in> measure (\<lambda>m. (8 - m mod 8) mod 8)"
    by (auto simp: mod_Suc)
qed simp

declare lcg_search.simps [simp del]

definition lcg_params :: "nat \<Rightarrow> nat \<times> nat \<times> nat" where
  "lcg_params len =
     (if len < 3 then (1, 1, len)
      else let m = lcg_search len in (getA m mod m, getC m, m))"

lemma lcg_search_bounds: "m \<le> lcg_search m \<and> lcg_search m \<le> m + (8 - m mod 8) mod 8"
proof (induction m rule: lcg_search.induct)
  case (1 m)
  show ?case
  proof (cases "getA m mod m = 1")
    case True
    then have "m mod 8 \<noteq> 0" using getA_multiple_of_8 by (auto simp: dvd_eq_mod_eq_0)
    then have "Suc ((8 - (m + 1) mod 8) mod 8) = (8 - m mod 8) mod 8"
      using mod_less_divisor [of 8 m] by (auto simp: mod_Suc)
    with 1 True show ?thesis by (subst (1 2) lcg_search.simps) auto
  next
    case False
    then show ?thesis by (subst (1 2) lcg_search.simps) auto
  qed
qed

lemma getA_small:
  "getA 3 mod 3 = 1" "getA 4 mod 4 = 1" "getA 5 mod 5 = 1" "getA 6 mod 6 = 1" "getA 7 mod 7 = 1"
  by code_simp+

lemma lcg_search_ge_8: "3 \<le> m \<Longrightarrow> 8 \<le> lcg_search m"
proof (induction m rule: lcg_search.induct)
  case (1 m)
  show ?case
  proof (cases "getA m mod m = 1")
    case True
    with 1 show ?thesis by (subst lcg_search.simps) simp
  next
    case False
    then have "m \<notin> {3, 4, 5, 6, 7}" using getA_small by auto
    with 1(2) have "8 \<le> m" by auto
    with False show ?thesis by (subst lcg_search.simps) simp
  qed
qed

text \<open>What the walk through the queue relies on.\<close>

definition good_lcg :: "nat \<Rightarrow> nat \<Rightarrow> nat \<Rightarrow> nat \<Rightarrow> bool" where
  "good_lcg len a c m \<longleftrightarrow>
     len \<le> m \<and> m \<le> 2 ^ 21 \<and> 1 \<le> a \<and> a \<le> m \<and> c \<le> m \<and>
     good_multiplier (a - 1) m \<and> coprime c m"

lemma getC_le: "getC m \<le> 3 * m div 4 + 1"
proof -
  have "getC_loop n \<le> n" if "0 < n" for n
    using that by (induction n) (auto simp: getC_loop.simps le_Suc_eq)
  then show ?thesis by (simp add: getC_def)
qed

lemma lcg_params_good:
  assumes "1 \<le> len" "len \<le> 2 ^ 20" "lcg_params len = (a, c, m)"
  shows "good_lcg len a c m"
proof (cases "len < 3")
  case True
  then have "a = 1" "c = 1" "m = len" using assms(3) by (simp_all add: lcg_params_def)
  moreover have "good_multiplier 0 len" by (simp add: good_multiplier_def)
  ultimately show ?thesis using assms(1,2) by (simp add: good_lcg_def)
next
  case False
  then have m: "m = lcg_search len" "a = getA m mod m" "c = getC m"
    using assms(3) by (auto simp: lcg_params_def Let_def)
  have "(8 - len mod 8) mod 8 < 8" by simp
  then have "len \<le> m" "m \<le> len + 7" "8 \<le> m"
    using lcg_search_bounds [of len] lcg_search_ge_8 [of len] False m(1) by auto
  moreover obtain q where "is_prime q" "m < 2 * q" "4 * (q - 1) \<le> 3 * m"
    using ladder_covers [of m] calculation assms(2) by auto
  moreover have "getC m \<le> m" using getC_le [of m] \<open>8 \<le> m\<close> by linarith
  ultimately show ?thesis
    using getA_good [of m] getC_coprime [of q m] assms(2) m by (simp add: good_lcg_def)
qed

lemma good_lcg_full_period:
  assumes "good_lcg len a c m" "x < m" "y < m"
  shows "\<exists>n<m. (lcg a c m ^^ n) x = y"
  using assms lcg_full_period [of "a - 1" m c x y] by (auto simp: good_lcg_def)

lemma good_lcg_no_overflow:
  assumes "good_lcg len a c m" "x < m"
  shows "a * x + c < 2 ^ 64"
proof -
  have bounds: "a \<le> 2 ^ 21" "x \<le> 2 ^ 21" "c \<le> 2 ^ 21"
    using assms by (auto simp: good_lcg_def)
  then have "a * x \<le> 2 ^ 21 * 2 ^ 21" by (intro mult_le_mono)
  with bounds(3) show ?thesis by simp
qed

end
