(* ===== verification/FineLock.thy ===== *)
theory FineLock
  imports PageQueue Lcg "HOL-Library.Monad_Syntax"
begin

text \<open>
  The queue with one lock per page: \<^verbatim>\<open>src/src/finelock_queue.h\<close> and
  \<^verbatim>\<open>src/src/finelock_queue.cc\<close>. The queue is an array with one mutex per entry; getting a page
  locks its entry and putting it back unlocks it. The search for a page walks the array along
  the linear congruential path of \<open>Lcg\<close>. First the operations as one thread runs them, then the
  step relation of any number of threads.
\<close>

section \<open>State\<close>

datatype queue_metric = kTries | kTouch

record FineLockPEQueue =
  fl_pages :: "page_entry list"
  fl_locked :: "bool list"
  fl_q_size :: nat
  fl_page_size :: int
  fl_metric :: queue_metric
  fl_a :: nat
  fl_c :: nat
  fl_modlength :: nat
  fl_rand_seed :: "u64 list"

text \<open>The constructor: every page starts out locked, its record uninitialised.\<close>

definition FineLockPEQueue_new :: "(nat \<Rightarrow> page_entry) \<Rightarrow> nat \<Rightarrow> int \<Rightarrow> FineLockPEQueue" where
  "FineLockPEQueue_new garbage queuesize pagesize =
     (case lcg_params queuesize of (a, c, m) \<Rightarrow>
       \<lparr>fl_pages = map garbage [0..<queuesize], fl_locked = replicate queuesize True,
        fl_q_size = queuesize, fl_page_size = pagesize, fl_metric = kTouch,
        fl_a = a, fl_c = c, fl_modlength = m,
        fl_rand_seed = map (\<lambda>i. of_nat i + 0xbeef) [0..<4]\<rparr>)"

definition page_is_valid :: "page_entry \<Rightarrow> bool" where
  "page_is_valid pe \<longleftrightarrow> pe_pattern pe \<noteq> None"

definition page_is_empty :: "page_entry \<Rightarrow> bool" where
  "page_is_empty pe \<longleftrightarrow> pe_pattern pe = None"

definition valid_index :: "FineLockPEQueue \<Rightarrow> int \<Rightarrow> bool" where
  "valid_index q index \<longleftrightarrow> 0 \<le> index \<and> nat index < fl_q_size q"

section \<open>Random numbers\<close>

definition GetRandom64FromSlot :: "nat \<Rightarrow> FineLockPEQueue \<Rightarrow> u64 \<times> FineLockPEQueue" where
  "GetRandom64FromSlot slot q =
     (let result = 2862933555777941757 * (fl_rand_seed q ! slot) + 3037000493
      in (result, q\<lparr>fl_rand_seed := (fl_rand_seed q)[slot := result]\<rparr>))"

text \<open>
  \<open>busy i\<close> says that the lock of generator \<open>i\<close> is taken when it is tried. When all four are
  taken the caller waits for the first.
\<close>

definition GetRandom64 :: "(nat \<Rightarrow> bool) \<Rightarrow> FineLockPEQueue \<Rightarrow> u64 \<times> FineLockPEQueue" where
  "GetRandom64 busy q =
     (case filter (\<lambda>i. \<not> busy i) [0..<4] of
        [] \<Rightarrow> GetRandom64FromSlot 0 q
      | i # _ \<Rightarrow> GetRandom64FromSlot i q)"

section \<open>The search\<close>

text \<open>The arithmetic is on unsigned 64-bit integers.\<close>

definition lcg64 :: "FineLockPEQueue \<Rightarrow> nat \<Rightarrow> nat" where
  "lcg64 q x = ((fl_a q * x + fl_c q) mod 2 ^ 64) mod fl_modlength q"

text \<open>The inner loop drops values outside the array; nothing in its text makes it end.\<close>

partial_function (option) lcg_skip :: "FineLockPEQueue \<Rightarrow> nat \<Rightarrow> nat option" where
  "lcg_skip q x = (if x < fl_q_size q then Some x else lcg_skip q (lcg64 q x))"

definition probe_index :: "FineLockPEQueue \<Rightarrow> nat \<Rightarrow> nat \<Rightarrow> nat" where
  "probe_index q next_try first_try = ((next_try + first_try) mod 2 ^ 64) mod fl_q_size q"

definition tag_matches :: "u32 \<Rightarrow> page_entry \<Rightarrow> bool" where
  "tag_matches tag pe \<longleftrightarrow> \<not> (tag \<noteq> kDontCareTag \<and> pe_tag pe AND tag = 0)"

text \<open>
  \<open>search want tag q n i next first\<close>: the search loop with \<open>n\<close> of its \<open>q_size\<close> rounds left. \<open>want\<close>
  tells whether valid pages (\<open>page_is_valid\<close>) or empty ones are wanted; the result is the round
  and the index of the page taken, if any.
\<close>

definition pred_func :: "bool \<Rightarrow> page_entry \<Rightarrow> bool" where
  "pred_func want_valid = (if want_valid then page_is_valid else page_is_empty)"

primrec search :: "bool \<Rightarrow> u32 \<Rightarrow> FineLockPEQueue \<Rightarrow> nat \<Rightarrow> nat \<Rightarrow> nat \<Rightarrow> nat \<Rightarrow> (nat \<times> nat) option option" where
  "search want tag q 0 i next_try first_try = Some None"
| "search want tag q (Suc n) i next_try first_try = do {
     let index = probe_index q next_try first_try;
     next_try' \<leftarrow> lcg_skip q (lcg64 q next_try);
     if \<not> pred_func want (fl_pages q ! index) then search want tag q n (i + 1) next_try' first_try
     else if \<not> tag_matches tag (fl_pages q ! index) then search want tag q n (i + 1) next_try' first_try
     else if fl_locked q ! index then search want tag q n (i + 1) next_try' first_try
     else if \<not> pred_func want (fl_pages q ! index) then search want tag q n (i + 1) next_try' first_try
     else Some (Some (i, index))
   }"

definition metrics :: "bool \<Rightarrow> queue_metric \<Rightarrow> nat \<Rightarrow> page_entry \<Rightarrow> page_entry" where
  "metrics want metric i pe =
     (if want then
        (case metric of kTries \<Rightarrow> pe\<lparr>pe_touch := of_nat i\<rparr> | kTouch \<Rightarrow> pe\<lparr>pe_touch := pe_touch pe + 1\<rparr>)
      else pe)"

definition GetRandomWithPredicateTag ::
    "(nat \<Rightarrow> bool) \<Rightarrow> bool \<Rightarrow> u32 \<Rightarrow> FineLockPEQueue \<Rightarrow> (page_entry option \<times> FineLockPEQueue) option" where
  "GetRandomWithPredicateTag busy want tag q =
     (if fl_q_size q = 0 then Some (None, q)
      else
        let (rnd, q1) = GetRandom64 busy q;
            first_try = unat rnd mod fl_q_size q
        in do {
          found \<leftarrow> search want tag q1 (fl_q_size q) 0 1 first_try;
          case found of
            None \<Rightarrow> Some (None, q1)
          | Some (i, index) \<Rightarrow>
              Some (Some (metrics want (fl_metric q1) i (fl_pages q1 ! index)),
                    q1\<lparr>fl_locked := (fl_locked q1)[index := True]\<rparr>)
        })"

definition fl_GetValid where "fl_GetValid busy = GetRandomWithPredicateTag busy True kDontCareTag"
definition fl_GetValid_tag where "fl_GetValid_tag busy tag = GetRandomWithPredicateTag busy True tag"
definition fl_GetEmpty where "fl_GetEmpty busy = GetRandomWithPredicateTag busy False kDontCareTag"
definition fl_GetEmpty_tag where "fl_GetEmpty_tag busy tag = GetRandomWithPredicateTag busy False tag"

section \<open>Putting pages back\<close>

text \<open>
  \<open>pe->offset / page_size_\<close> divides unsigned; the quotient is stored in an \<open>int64\<close>. The mutexes
  are of the default kind, so unlocking one succeeds.
\<close>

definition fl_index :: "FineLockPEQueue \<Rightarrow> u64 \<Rightarrow> int res" where
  "fl_index q off =
     (if (of_int (fl_page_size q) :: u64) = 0 then Inl DivisionByZero
      else Inr (sint (off div of_int (fl_page_size q))))"

definition fl_PutEmpty :: "page_entry \<Rightarrow> FineLockPEQueue \<Rightarrow> (bool \<times> FineLockPEQueue) res" where
  "fl_PutEmpty pe q =
     (if fl_q_size q = 0 then Inr (False, q)
      else res_bind (fl_index q (pe_offset pe)) (\<lambda>index.
        if \<not> valid_index q index then Inr (False, q)
        else Inr (True, q\<lparr>fl_pages := (fl_pages q)
                            [nat index := pe\<lparr>pe_pattern := None, pe_write_dram_frequency := - 1\<rparr>],
                          fl_locked := (fl_locked q)[nat index := False]\<rparr>)))"

definition fl_PutValid :: "page_entry \<Rightarrow> FineLockPEQueue \<Rightarrow> (bool \<times> FineLockPEQueue) res" where
  "fl_PutValid pe q =
     (if \<not> page_is_valid pe \<or> fl_q_size q = 0 then Inr (False, q)
      else res_bind (fl_index q (pe_offset pe)) (\<lambda>index.
        if \<not> valid_index q index then Inr (False, q)
        else Inr (True, q\<lparr>fl_pages := (fl_pages q)[nat index := pe],
                          fl_locked := (fl_locked q)[nat index := False]\<rparr>)))"

section \<open>Lookups\<close>

definition GetPageFromPhysical :: "u64 \<Rightarrow> FineLockPEQueue \<Rightarrow> page_entry option" where
  "GetPageFromPhysical paddr q =
     find (\<lambda>pe. pe_paddr pe \<le> paddr \<and> pe_paddr pe + of_int (fl_page_size q) > paddr)
       (take (fl_q_size q) (fl_pages q))"

text \<open>The entry's lock is taken and released within the call, so it is waited for.\<close>

definition GetValidByOffset :: "u64 \<Rightarrow> FineLockPEQueue \<Rightarrow> page_entry option" where
  "GetValidByOffset off q =
     (if fl_page_size q \<le> 0 \<or> off mod of_int (fl_page_size q) \<noteq> 0 then None
      else let index = sint (off div of_int (fl_page_size q))
           in if \<not> valid_index q index then None
              else let pe = fl_pages q ! nat index
                   in if page_is_valid pe \<and> pe_offset pe = off then Some pe else None)"

text \<open>The histogram of \<open>QueueAnalysis\<close>: pages bucketed by the highest bit of their touch count.\<close>

definition touch_bucket :: "u32 \<Rightarrow> nat" where
  "touch_bucket readcount =
     (case filter (\<lambda>b. unat readcount < 2 ^ b) [0..<31] of [] \<Rightarrow> 31 | b # _ \<Rightarrow> b)"

definition QueueAnalysis :: "FineLockPEQueue \<Rightarrow> nat list" where
  "QueueAnalysis q =
     fold (\<lambda>pe buckets. buckets[touch_bucket (pe_touch pe) := buckets ! touch_bucket (pe_touch pe) + 1])
       (take (fl_q_size q) (fl_pages q)) (replicate 32 0)"

text \<open>
  \<open>ErrorLogCallback\<close>: the page and the word of its last pattern for a physical address.
  \<open>translate\<close> stands for \<open>PrepareTestMem\<close> followed by \<open>VirtualToPhysical\<close>, the OS's view of the page at
  an offset; \<open>pat\<close> for the pattern list's \<open>pattern\<close>. The message is the pattern, its two words
  and the timestamp.
\<close>

definition ErrorLogCallback ::
    "(u64 \<Rightarrow> u64 \<Rightarrow> u64) \<Rightarrow> (nat \<Rightarrow> u32 \<Rightarrow> u32) \<Rightarrow> u64 \<Rightarrow> FineLockPEQueue \<Rightarrow>
     ((nat \<times> u64) option \<times> u64) option" where
  "ErrorLogCallback translate pat paddr q =
     (case GetPageFromPhysical paddr q of
        None \<Rightarrow> None
      | Some pe \<Rightarrow>
          let addr_diff = paddr - pe_paddr pe
          in if translate (pe_offset pe) addr_diff \<noteq> paddr then None
             else Some (case pe_lastpattern pe of
                          None \<Rightarrow> None
                        | Some p \<Rightarrow>
                            let offset = ucast (addr_diff div 8)
                            in Some (p, l64_of (pat p (push_bit 1 offset)) (pat p (push_bit 1 offset + 1))),
                        pe_ts pe))"

section \<open>The walk reaches every page\<close>

text \<open>A deterministic walk that reaches \<open>n\<close> values reaches all of them in its first \<open>n\<close> steps.\<close>

lemma walk_wraps:
  fixes g :: "'a \<Rightarrow> 'a"
  assumes "i < j" "(g ^^ i) x = (g ^^ j) x"
  shows "\<exists>k'<j. (g ^^ k) x = (g ^^ k') x"
proof (induction k)
  case 0
  then show ?case using assms(1) by (intro exI [of _ 0]) simp
next
  case (Suc k)
  then obtain k' where k': "k' < j" "(g ^^ k) x = (g ^^ k') x" by blast
  show ?case
  proof (cases "Suc k' = j")
    case True
    then have "(g ^^ Suc k) x = (g ^^ i) x" using k'(2) assms(2) by (simp flip: True)
    then show ?thesis using assms(1) by blast
  next
    case False
    then show ?thesis using k' by (intro exI [of _ "Suc k'"]) simp
  qed
qed

lemma walk_covers:
  fixes g :: "'a \<Rightarrow> 'a"
  assumes "S = range (\<lambda>k. (g ^^ k) x)" "card S = n" "finite S"
  shows "(\<lambda>k. (g ^^ k) x) ` {..<n} = S"
proof (cases "inj_on (\<lambda>k. (g ^^ k) x) {..<n}")
  case False
  then obtain i j where ij: "i < j" "j < n" "(g ^^ i) x = (g ^^ j) x"
    by (auto simp: inj_on_def) (metis linorder_neqE_nat)
  have "range (\<lambda>k. (g ^^ k) x) \<subseteq> (\<lambda>k. (g ^^ k) x) ` {..<j}"
    using walk_wraps [OF ij(1,3)] by fastforce
  then have "card S \<le> card ((\<lambda>k. (g ^^ k) x) ` {..<j})"
    using assms(1) by (intro card_mono) auto
  also have "\<dots> \<le> j" using card_image_le [of "{..<j}"] by simp
  finally show ?thesis using ij(2) assms(2) by simp
next
  case True
  then show ?thesis
    using assms by (intro card_subset_eq) (auto simp: card_image)
qed

text \<open>Well-formed queues: what the constructor establishes for up to \<open>2\<^sup>2\<^sup>0\<close> pages.\<close>

definition fl_wf :: "FineLockPEQueue \<Rightarrow> bool" where
  "fl_wf q \<longleftrightarrow> 1 \<le> fl_q_size q \<and> fl_q_size q \<le> 2 ^ 20 \<and>
     length (fl_pages q) = fl_q_size q \<and> length (fl_locked q) = fl_q_size q \<and>
     length (fl_rand_seed q) = 4 \<and> 0 < fl_page_size q \<and> fl_page_size q * 2 ^ 20 < 2 ^ 63 \<and>
     lcg_params (fl_q_size q) = (fl_a q, fl_c q, fl_modlength q)"

lemma FineLockPEQueue_new_wf:
  assumes "1 \<le> n" "n \<le> 2 ^ 20" "0 < ps" "ps * 2 ^ 20 < 2 ^ 63"
  shows "fl_wf (FineLockPEQueue_new garbage n ps)"
  using assms by (simp add: FineLockPEQueue_new_def fl_wf_def split: prod.splits)

lemma fl_wf_good: "fl_wf q \<Longrightarrow> good_lcg (fl_q_size q) (fl_a q) (fl_c q) (fl_modlength q)"
  by (intro lcg_params_good) (simp_all add: fl_wf_def)

lemma fl_wf_modlength: "fl_wf q \<Longrightarrow> fl_q_size q \<le> fl_modlength q \<and> 0 < fl_modlength q"
  using fl_wf_good [of q] by (auto simp: good_lcg_def fl_wf_def)

lemma lcg64_eq:
  "fl_wf q \<Longrightarrow> x < fl_modlength q \<Longrightarrow> lcg64 q x = lcg (fl_a q) (fl_c q) (fl_modlength q) x"
  using good_lcg_no_overflow [OF fl_wf_good, of q x] by (simp add: lcg64_def lcg_def)

lemma lcg64_less: "fl_wf q \<Longrightarrow> lcg64 q x < fl_modlength q"
  using fl_wf_modlength [of q] by (simp add: lcg64_def)

lemma lcg64_pow_less: "fl_wf q \<Longrightarrow> x < fl_modlength q \<Longrightarrow> (lcg64 q ^^ n) x < fl_modlength q"
  by (cases n) (simp_all add: lcg64_less)

lemma lcg64_pow_eq:
  "fl_wf q \<Longrightarrow> x < fl_modlength q \<Longrightarrow>
   (lcg64 q ^^ n) x = (lcg (fl_a q) (fl_c q) (fl_modlength q) ^^ n) x"
proof (induction n)
  case (Suc n)
  then show ?case using lcg64_eq [of q] lcg64_pow_less [of q x n] by simp
qed simp

lemma lcg64_reaches:
  assumes "fl_wf q" "x < fl_modlength q" "y < fl_modlength q"
  shows "\<exists>n. (lcg64 q ^^ n) x = y"
  using good_lcg_full_period [OF fl_wf_good [OF assms(1)] assms(2,3)] lcg64_pow_eq [OF assms(1,2)]
  by auto

text \<open>The inner loop ends, at the first value inside the array.\<close>

lemma lcg_skip_first:
  "(lcg64 q ^^ n) x < fl_q_size q \<Longrightarrow> (\<And>k. k < n \<Longrightarrow> fl_q_size q \<le> (lcg64 q ^^ k) x) \<Longrightarrow>
   lcg_skip q x = Some ((lcg64 q ^^ n) x)"
proof (induction n arbitrary: x)
  case 0
  then show ?case by (simp add: lcg_skip.simps)
next
  case (Suc n)
  have "lcg_skip q (lcg64 q x) = Some ((lcg64 q ^^ n) (lcg64 q x))"
    using Suc.prems(1) Suc.prems(2) [of "Suc k" for k]
    by (intro Suc.IH) (simp_all add: funpow_swap1)
  then show ?case using Suc.prems(2) [of 0] by (subst lcg_skip.simps) (simp add: funpow_swap1)
qed

lemma lcg_skip_terminates:
  assumes "fl_wf q" "x < fl_modlength q"
  shows "\<exists>n. lcg_skip q x = Some ((lcg64 q ^^ n) x) \<and> (lcg64 q ^^ n) x < fl_q_size q \<and>
             (\<forall>k<n. fl_q_size q \<le> (lcg64 q ^^ k) x)"
proof -
  have "0 < fl_modlength q" "0 < fl_q_size q" using assms fl_wf_modlength by (auto simp: fl_wf_def)
  then have "\<exists>n. (lcg64 q ^^ n) x < fl_q_size q" using lcg64_reaches [OF assms, of 0] by metis
  then obtain n where "(lcg64 q ^^ n) x < fl_q_size q" "\<forall>k<n. \<not> (lcg64 q ^^ k) x < fl_q_size q"
    using exists_least_iff [of "\<lambda>n. (lcg64 q ^^ n) x < fl_q_size q"] by auto
  then show ?thesis using lcg_skip_first [of n q x] by (auto simp: not_less)
qed

text \<open>One round of the walk.\<close>

definition next_of :: "FineLockPEQueue \<Rightarrow> nat \<Rightarrow> nat" where
  "next_of q x = the (lcg_skip q (lcg64 q x))"

lemma lcg_skip_next: "fl_wf q \<Longrightarrow> lcg_skip q (lcg64 q x) = Some (next_of q x) \<and> next_of q x < fl_q_size q"
  using lcg_skip_terminates [OF _ lcg64_less, of q x] by (auto simp: next_of_def)

lemma next_of_reaches:
  assumes "fl_wf q"
  shows "(lcg64 q ^^ j) x < fl_q_size q \<Longrightarrow> x < fl_q_size q \<Longrightarrow> \<exists>k. (next_of q ^^ k) x = (lcg64 q ^^ j) x"
proof (induction j arbitrary: x rule: less_induct)
  case (less j)
  show ?case
  proof (cases j)
    case 0
    then show ?thesis by (intro exI [of _ 0]) simp
  next
    case (Suc i)
    obtain n where n: "lcg_skip q (lcg64 q x) = Some ((lcg64 q ^^ n) (lcg64 q x))"
      "\<forall>k<n. fl_q_size q \<le> (lcg64 q ^^ k) (lcg64 q x)"
      using lcg_skip_terminates [OF assms lcg64_less [OF assms]] by blast
    then have nxt: "next_of q x = (lcg64 q ^^ Suc n) x" by (simp add: next_of_def funpow_swap1)
    have ni: "n \<le> i" using less.prems(1) n(2) Suc by (metis funpow_swap1 funpow.simps(2) o_apply not_less leI)
    then have split: "(lcg64 q ^^ j) x = (lcg64 q ^^ (i - n)) (next_of q x)"
      unfolding nxt using funpow_add [of "i - n" "Suc n" "lcg64 q"] Suc by simp
    obtain k where "(next_of q ^^ k) (next_of q x) = (lcg64 q ^^ j) x"
      using less.IH [of "i - n" "next_of q x"] less.prems(1) split Suc lcg_skip_next [OF assms, of x]
      by (metis diff_less_Suc)
    then show ?thesis by (intro exI [of _ "Suc k"]) (simp add: funpow_swap1)
  qed
qed

lemma next_of_covers:
  assumes "fl_wf q" "1 < fl_q_size q"
  shows "(\<lambda>k. (next_of q ^^ k) 1) ` {..<fl_q_size q} = {..<fl_q_size q}"
proof (rule walk_covers)
  show "{..<fl_q_size q} = range (\<lambda>k. (next_of q ^^ k) 1)"
  proof
    show "range (\<lambda>k. (next_of q ^^ k) 1) \<subseteq> {..<fl_q_size q}"
    proof
      fix y assume "y \<in> range (\<lambda>k. (next_of q ^^ k) 1)"
      then obtain k where "y = (next_of q ^^ k) 1" by blast
      then show "y \<in> {..<fl_q_size q}"
        using lcg_skip_next [OF assms(1)] assms(2) by (cases k) auto
    qed
    show "{..<fl_q_size q} \<subseteq> range (\<lambda>k. (next_of q ^^ k) 1)"
    proof
      fix y assume y: "y \<in> {..<fl_q_size q}"
      then obtain j where "(lcg64 q ^^ j) 1 = y"
        using lcg64_reaches [OF assms(1), of 1 y] fl_wf_modlength [OF assms(1)] assms(2) by auto
      then obtain k where "(next_of q ^^ k) 1 = y"
        using next_of_reaches [OF assms(1), of j 1] y assms(2) by auto
      then show "y \<in> range (\<lambda>k. (next_of q ^^ k) 1)" by blast
    qed
  qed
qed simp_all

section \<open>What the search finds\<close>

definition fl_avail :: "bool \<Rightarrow> u32 \<Rightarrow> FineLockPEQueue \<Rightarrow> nat \<Rightarrow> bool" where
  "fl_avail want tag q index \<longleftrightarrow> index < fl_q_size q \<and> \<not> fl_locked q ! index \<and>
     pred_func want (fl_pages q ! index) \<and> tag_matches tag (fl_pages q ! index)"

lemma probe_index_less: "fl_wf q \<Longrightarrow> probe_index q x first < fl_q_size q"
  by (simp add: probe_index_def fl_wf_def)

lemma search_result:
  assumes "fl_wf q"
  shows "\<exists>r. search want tag q n i x first = Some r \<and>
    (case r of
       None \<Rightarrow> \<forall>k<n. \<not> fl_avail want tag q (probe_index q ((next_of q ^^ k) x) first)
     | Some (j, index) \<Rightarrow> i \<le> j \<and> j < i + n \<and> fl_avail want tag q index)"
proof (induction n arbitrary: i x)
  case (Suc n)
  let ?index = "probe_index q x first" and ?x = "next_of q x"
  have skip: "lcg_skip q (lcg64 q x) = Some ?x" using lcg_skip_next [OF assms] by simp
  show ?case
  proof (cases "fl_avail want tag q ?index")
    case True
    then have "search want tag q (Suc n) i x first = Some (Some (i, ?index))"
      by (simp add: skip fl_avail_def Let_def)
    with True show ?thesis by simp
  next
    case False
    then have "search want tag q (Suc n) i x first = search want tag q n (i + 1) ?x first"
      using probe_index_less [OF assms] by (auto simp: skip fl_avail_def Let_def)
    moreover obtain r where "search want tag q n (i + 1) ?x first = Some r"
      "case r of
         None \<Rightarrow> \<forall>k<n. \<not> fl_avail want tag q (probe_index q ((next_of q ^^ k) ?x) first)
       | Some (j, index) \<Rightarrow> i + 1 \<le> j \<and> j < i + 1 + n \<and> fl_avail want tag q index"
      using Suc by blast
    ultimately show ?thesis using False
      by (auto split: option.splits simp: less_Suc_eq_0_disj funpow_swap1)
  qed
qed simp

lemma probes_cover:
  assumes "fl_wf q" "first < fl_q_size q" "index < fl_q_size q"
  shows "\<exists>k<fl_q_size q. probe_index q ((next_of q ^^ k) 1) first = index"
proof (cases "fl_q_size q = 1")
  case True
  then show ?thesis using assms(3) by (auto simp: probe_index_def)
next
  case False
  let ?n = "fl_q_size q"
  have big: "1 < ?n" "?n \<le> 2 ^ 20" using assms(1) False by (auto simp: fl_wf_def)
  define z where "z = (index + (?n - first)) mod ?n"
  have "z < ?n" using big by (simp add: z_def)
  then obtain k where k: "k < ?n" "(next_of q ^^ k) 1 = z"
    using next_of_covers [OF assms(1) big(1)] by (metis (no_types, lifting) imageE lessThan_iff)
  have "(z + first) mod ?n = (index + (?n - first) + first) mod ?n"
    by (simp add: z_def mod_add_left_eq)
  also have "\<dots> = index" using assms(2,3) by simp
  finally have "probe_index q z first = index"
    using \<open>z < ?n\<close> assms(2) big(2) by (simp add: probe_index_def)
  with k show ?thesis by blast
qed

lemma GetRandom64_frame:
  "fl_wf q \<Longrightarrow> GetRandom64 busy q = (rnd, q') \<Longrightarrow>
   fl_wf q' \<and> (\<exists>seeds. q' = q\<lparr>fl_rand_seed := seeds\<rparr>)"
  by (auto simp: GetRandom64_def GetRandom64FromSlot_def fl_wf_def Let_def split: list.splits)

lemma with_seeds:
  "fl_avail want tag (q\<lparr>fl_rand_seed := seeds\<rparr>) index = fl_avail want tag q index"
  by (simp add: fl_avail_def)

lemma GetRandomWithPredicateTag_aux:
  assumes "fl_wf q"
  shows "\<exists>r q'. GetRandomWithPredicateTag busy want tag q = Some (r, q') \<and> fl_pages q' = fl_pages q \<and>
    fl_wf q' \<and> fl_q_size q' = fl_q_size q \<and> fl_page_size q' = fl_page_size q \<and>
    (case r of
       None \<Rightarrow> (\<forall>index. \<not> fl_avail want tag q index) \<and> fl_locked q' = fl_locked q
     | Some pe \<Rightarrow> \<exists>index i. fl_avail want tag q index \<and> i < fl_q_size q \<and>
         pe = metrics want (fl_metric q) i (fl_pages q ! index) \<and>
         fl_locked q' = (fl_locked q)[index := True])"
proof -
  obtain rnd q1 where rnd: "GetRandom64 busy q = (rnd, q1)" by force
  obtain seeds where wf1: "fl_wf q1" and q1: "q1 = q\<lparr>fl_rand_seed := seeds\<rparr>"
    using GetRandom64_frame [OF assms rnd] by auto
  have size: "fl_q_size q1 = fl_q_size q" "0 < fl_q_size q" using q1 assms by (auto simp: fl_wf_def)
  let ?first = "unat rnd mod fl_q_size q"
  obtain r where r: "search want tag q1 (fl_q_size q) 0 1 ?first = Some r"
    "case r of
       None \<Rightarrow> \<forall>k<fl_q_size q. \<not> fl_avail want tag q1 (probe_index q1 ((next_of q1 ^^ k) 1) ?first)
     | Some (j, index) \<Rightarrow> 0 \<le> j \<and> j < 0 + fl_q_size q \<and> fl_avail want tag q1 index"
    using search_result [OF wf1] by blast
  have get: "GetRandomWithPredicateTag busy want tag q =
      (case r of None \<Rightarrow> Some (None, q1)
       | Some (i, index) \<Rightarrow> Some (Some (metrics want (fl_metric q1) i (fl_pages q1 ! index)),
                    q1\<lparr>fl_locked := (fl_locked q1)[index := True]\<rparr>))"
    using r(1) rnd size by (simp add: GetRandomWithPredicateTag_def)
  show ?thesis
  proof (cases r)
    case None
    have "\<not> fl_avail want tag q index" for index
    proof
      assume avail: "fl_avail want tag q index"
      then have "index < fl_q_size q1" using size by (simp add: fl_avail_def)
      then obtain k where "k < fl_q_size q" "probe_index q1 ((next_of q1 ^^ k) 1) ?first = index"
        using probes_cover [OF wf1, of ?first index] size by auto
      then show False using r(2) None avail q1 with_seeds by auto
    qed
    then show ?thesis using get None wf1 q1 by simp
  next
    case (Some p)
    obtain j index where "r = Some (j, index)" using Some by (cases p) auto
    moreover from this have "fl_avail want tag q index" "j < fl_q_size q"
      using r(2) q1 with_seeds by auto
    moreover have "fl_wf (q1\<lparr>fl_locked := (fl_locked q1)[index := True]\<rparr>)"
      using wf1 by (simp add: fl_wf_def)
    ultimately show ?thesis using get q1 by auto
  qed
qed

text \<open>
  C25. A thread that asks for a page gets one whenever there is one: on any queue of \<open>1\<close> to
  \<open>2\<^sup>2\<^sup>0\<close> pages, whatever the state of the random generators, the search returns (the inner loop
  that skips out-of-range values ends), it fails only if no unlocked page of the wanted kind and
  tag exists, and otherwise it locks exactly one such page and returns its record with the
  metric updated, changing no page record.
\<close>

theorem GetRandomWithPredicateTag_finds:
  assumes "fl_wf q"
  shows "\<exists>r q'. GetRandomWithPredicateTag busy want tag q = Some (r, q') \<and> fl_pages q' = fl_pages q \<and>
    fl_wf q' \<and>
    (case r of
       None \<Rightarrow> (\<forall>index. \<not> fl_avail want tag q index) \<and> fl_locked q' = fl_locked q
     | Some pe \<Rightarrow> \<exists>index i. fl_avail want tag q index \<and> i < fl_q_size q \<and>
         pe = metrics want (fl_metric q) i (fl_pages q ! index) \<and>
         fl_locked q' = (fl_locked q)[index := True])"
  using GetRandomWithPredicateTag_aux [OF assms, of busy want tag] by blast

section \<open>Page offsets and indices\<close>

definition offset_of :: "FineLockPEQueue \<Rightarrow> nat \<Rightarrow> u64" where
  "offset_of q i = of_nat i * of_int (fl_page_size q)"

definition fl_ready :: "FineLockPEQueue \<Rightarrow> bool" where
  "fl_ready q \<longleftrightarrow> fl_wf q \<and> (\<forall>i<fl_q_size q. pe_offset (fl_pages q ! i) = offset_of q i)"

lemma unat_offset_of:
  assumes "fl_wf q" "i < fl_q_size q"
  shows "unat (offset_of q i) = i * nat (fl_page_size q)" "nat (fl_page_size q) < 2 ^ 63"
proof -
  let ?p = "nat (fl_page_size q)"
  have p: "of_int (fl_page_size q) = (of_nat ?p :: u64)" using assms(1) by (simp add: fl_wf_def)
  have "?p * 2 ^ 20 < 2 ^ 63" using assms(1) by (auto simp: fl_wf_def)
  moreover have "i * ?p \<le> 2 ^ 20 * ?p" using assms by (intro mult_le_mono1) (simp add: fl_wf_def)
  ultimately have "i * ?p < 2 ^ 63" and "?p < 2 ^ 63"
    by (simp_all only: mult.commute [of "2 ^ 20"]) simp_all
  then show "unat (offset_of q i) = i * ?p" "?p < 2 ^ 63"
    unfolding offset_of_def p by (simp_all add: unsigned_of_nat take_bit_nat_eq_self flip: of_nat_mult)
qed

lemma sint_small: "i < 2 ^ 20 \<Longrightarrow> sint (of_nat i :: u64) = int i"
  by (simp add: signed_of_nat) (subst signed_take_bit_int_eq_self; simp)

lemma fl_index_offset_of:
  assumes "fl_wf q" "i < fl_q_size q"
  shows "fl_index q (offset_of q i) = Inr (int i)"
proof -
  let ?p = "nat (fl_page_size q)"
  have pos: "0 < ?p" "of_int (fl_page_size q) = (of_nat ?p :: u64)" using assms(1) by (auto simp: fl_wf_def)
  have up: "unat (of_nat ?p :: u64) = ?p"
    using unat_offset_of(2) [OF assms] by (simp add: take_bit_nat_eq_self unsigned_of_nat)
  have "i < 2 ^ 20" using assms by (simp add: fl_wf_def)
  then have small: "unat (of_nat i :: u64) = i"
    by (simp add: take_bit_nat_eq_self unsigned_of_nat)
  have "offset_of q i div of_nat ?p = of_nat i"
    by (rule word_unat_eq_iff [THEN iffD2])
      (simp only: unat_div_distrib unat_offset_of [OF assms] up, use pos small in simp)
  moreover have "sint (of_nat i :: u64) = int i"
    using \<open>i < 2 ^ 20\<close> by (intro sint_small)
  moreover have "(of_nat ?p :: u64) \<noteq> 0" using up pos(1) by (metis less_irrefl unsigned_0)
  ultimately show ?thesis unfolding fl_index_def pos(2) by simp
qed

lemma offset_of_inj:
  "fl_wf q \<Longrightarrow> i < fl_q_size q \<Longrightarrow> j < fl_q_size q \<Longrightarrow> offset_of q i = offset_of q j \<Longrightarrow> i = j"
  by (metis fl_index_offset_of sum.inject(2) of_nat_eq_iff)

lemma fl_PutEmpty_eq:
  "fl_wf q \<Longrightarrow> i < fl_q_size q \<Longrightarrow> pe_offset pe = offset_of q i \<Longrightarrow>
   fl_PutEmpty pe q =
     Inr (True, q\<lparr>fl_pages := (fl_pages q)[i := pe\<lparr>pe_pattern := None, pe_write_dram_frequency := - 1\<rparr>],
                  fl_locked := (fl_locked q)[i := False]\<rparr>)"
  by (simp add: fl_PutEmpty_def fl_index_offset_of valid_index_def)

lemma fl_PutValid_eq:
  "fl_wf q \<Longrightarrow> i < fl_q_size q \<Longrightarrow> pe_offset pe = offset_of q i \<Longrightarrow> page_is_valid pe \<Longrightarrow>
   fl_PutValid pe q =
     Inr (True, q\<lparr>fl_pages := (fl_pages q)[i := pe], fl_locked := (fl_locked q)[i := False]\<rparr>)"
  by (simp add: fl_PutValid_def fl_index_offset_of valid_index_def)

lemma GetValidByOffset_at:
  assumes "fl_wf q" "i < fl_q_size q" "pe_offset (fl_pages q ! i) = offset_of q i" "page_is_valid (fl_pages q ! i)"
  shows "GetValidByOffset (offset_of q i) q = Some (fl_pages q ! i)"
proof -
  have pos: "0 < fl_page_size q" using assms(1) by (simp add: fl_wf_def)
  have index: "of_int (fl_page_size q) \<noteq> (0 :: u64)"
    "sint (offset_of q i div of_int (fl_page_size q)) = int i"
    using fl_index_offset_of [OF assms(1,2)] by (simp_all add: fl_index_def split: if_splits)
  have "unat (of_int (fl_page_size q) :: u64) = nat (fl_page_size q)"
    using unat_offset_of(2) [OF assms(1,2)] pos by (simp add: unsigned_of_int take_bit_int_eq_self)
  then have "offset_of q i mod of_int (fl_page_size q) = 0"
    using unat_offset_of(1) [OF assms(1,2)] by (simp add: word_unat_eq_iff unat_mod_distrib)
  then show ?thesis using index pos assms(2-4) by (simp add: GetValidByOffset_def valid_index_def)
qed

text \<open>
  A page put back is there: after \<open>PutValid\<close> of the record of page \<open>i\<close>, its entry is unlocked,
  \<open>GetValidByOffset\<close> at its offset returns exactly that record, \<open>GetValid\<close> cannot fail, and no
  other entry or lock has changed.
\<close>

theorem PutValid_GetValidByOffset:
  assumes "fl_wf q" "i < fl_q_size q" "pe_offset pe = offset_of q i" "page_is_valid pe"
  shows "\<exists>q'. fl_PutValid pe q = Inr (True, q') \<and> GetValidByOffset (pe_offset pe) q' = Some pe \<and>
    (\<exists>pe' q''. fl_GetValid busy q' = Some (Some pe', q'')) \<and>
    (\<forall>j<fl_q_size q. j \<noteq> i \<longrightarrow> fl_pages q' ! j = fl_pages q ! j \<and> fl_locked q' ! j = fl_locked q ! j)"
proof -
  let ?q = "q\<lparr>fl_pages := (fl_pages q)[i := pe], fl_locked := (fl_locked q)[i := False]\<rparr>"
  have put: "fl_PutValid pe q = Inr (True, ?q)" by (rule fl_PutValid_eq [OF assms])
  have wf: "fl_wf ?q" using assms(1) by (simp add: fl_wf_def)
  have len: "length (fl_pages q) = fl_q_size q" "length (fl_locked q) = fl_q_size q" "0 < fl_page_size q"
    using assms(1) by (simp_all add: fl_wf_def)
  have "GetValidByOffset (offset_of ?q i) ?q = Some pe"
    using GetValidByOffset_at [OF wf, of i] assms(2-4) len by (simp add: offset_of_def)
  then have "GetValidByOffset (pe_offset pe) ?q = Some pe" using assms(3) by (simp add: offset_of_def)
  moreover have "fl_avail True kDontCareTag ?q i"
    using assms(2,4) len by (simp add: fl_avail_def pred_func_def tag_matches_def)
  then have "\<exists>pe' q''. fl_GetValid busy ?q = Some (Some pe', q'')"
    using GetRandomWithPredicateTag_aux [OF wf, of busy True kDontCareTag]
    by (fastforce simp: fl_GetValid_def split: option.splits)
  ultimately show ?thesis using put by auto
qed

section \<open>Concrete instances\<close>

definition small_queue :: FineLockPEQueue where
  "small_queue = FineLockPEQueue_new (\<lambda>_. blank_pe) 1 4096"

lemma small_queue_wf: "fl_wf small_queue"
  unfolding small_queue_def by (rule FineLockPEQueue_new_wf) simp_all

lemma small_queue_simps [simp]:
  "fl_q_size small_queue = 1" "fl_page_size small_queue = 4096" "fl_pages small_queue = [blank_pe]"
  "fl_locked small_queue = [True]"
  by (simp_all add: small_queue_def FineLockPEQueue_new_def lcg_params_def)

theorem GetRandomWithPredicateTag_finds_witness:
  "\<exists>r q'. GetRandomWithPredicateTag (\<lambda>_. False) False kDontCareTag (small_queue\<lparr>fl_locked := [False]\<rparr>) =
     Some (Some r, q') \<and> fl_locked q' = [True]"
proof -
  let ?q = "small_queue\<lparr>fl_locked := [False]\<rparr>"
  have wf: "fl_wf ?q" using small_queue_wf by (simp add: fl_wf_def)
  have avail: "fl_avail False kDontCareTag ?q 0"
    by (simp add: fl_avail_def pred_func_def page_is_empty_def tag_matches_def blank_pe_def)
  obtain r q' where get: "GetRandomWithPredicateTag (\<lambda>_. False) False kDontCareTag ?q = Some (r, q')"
    "case r of
       None \<Rightarrow> (\<forall>index. \<not> fl_avail False kDontCareTag ?q index) \<and> fl_locked q' = fl_locked ?q
     | Some pe \<Rightarrow> \<exists>index i. fl_avail False kDontCareTag ?q index \<and> i < fl_q_size ?q \<and>
         pe = metrics False (fl_metric ?q) i (fl_pages ?q ! index) \<and>
         fl_locked q' = (fl_locked ?q)[index := True]"
    using GetRandomWithPredicateTag_finds [OF wf, of "\<lambda>_. False" False kDontCareTag] by blast
  show ?thesis
  proof (cases r)
    case None
    then show ?thesis using get(2) avail by simp
  next
    case (Some pe)
    then obtain index where "fl_avail False kDontCareTag ?q index" "fl_locked q' = (fl_locked ?q)[index := True]"
      using get(2) by auto
    then show ?thesis using get(1) Some by (auto simp: fl_avail_def)
  qed
qed

theorem PutValid_GetValidByOffset_witness:
  "\<exists>q'. fl_PutValid (blank_pe\<lparr>pe_pattern := Some 3\<rparr>) small_queue = Inr (True, q') \<and>
     GetValidByOffset 0 q' = Some (blank_pe\<lparr>pe_pattern := Some 3\<rparr>)"
  using PutValid_GetValidByOffset [OF small_queue_wf, of 0 "blank_pe\<lparr>pe_pattern := Some 3\<rparr>" "\<lambda>_. False"]
  by (auto simp: offset_of_def page_is_valid_def blank_pe_def)

end
