(* ===== verification/SatPool.thy ===== *)
theory SatPool
  imports FineLock
begin

text \<open>
  The two page pools of \<open>Sat\<close>: \<open>GetValid\<close>, \<open>PutValid\<close>, \<open>GetEmpty\<close>, \<open>PutEmpty\<close> and the helpers of the
  initial check (\<^verbatim>\<open>src/src/sat.cc\<close>), with \<open>PrepareTestMem\<close> and \<open>ReleaseTestMem\<close> (\<^verbatim>\<open>src/src/os.cc\<close>). The
  pools live either in one fine-lock queue or in two one-lock queues; the interface \<open>page_pool\<close> says what
  both implementations promise to the workers.
\<close>

section \<open>The test memory\<close>

record os_layer =
  os_testmem :: u64
  os_testmemsize :: u64
  os_dynamic_mapped_shmem :: bool
  os_page_size :: int

text \<open>
  What the outside world answers during one call: \<open>random()\<close>, which generator locks of the fine-lock queue are
  taken, the timestamp, and the results of \<open>mmap\<close> (offset and length to address) and \<open>munmap\<close>.
\<close>

record call_env =
  ev_random :: nat
  ev_busy :: "nat \<Rightarrow> bool"
  ev_timestamp :: u64
  ev_mmap :: "u64 \<Rightarrow> u64 \<Rightarrow> u64 option"
  ev_munmap :: "u64 \<Rightarrow> u64 \<Rightarrow> bool"

definition PrepareTestMem :: "os_layer \<Rightarrow> call_env \<Rightarrow> u64 \<Rightarrow> u64 \<Rightarrow> u64 res" where
  "PrepareTestMem os ev offset len =
     res_bind (sat_assert (offset + len \<le> os_testmemsize os)) (\<lambda>_.
       if os_dynamic_mapped_shmem os then
         res_bind (sat_assert (0 < os_page_size os)) (\<lambda>_.
           let mapping_offset = offset - offset mod of_int (os_page_size os);
               mapping_delta = offset - mapping_offset
           in case ev_mmap ev mapping_offset (len + mapping_delta) of
                None \<Rightarrow> Inl AssertFailed
              | Some mapping \<Rightarrow> Inr (mapping + mapping_delta))
       else Inr (os_testmem os + offset))"

definition ReleaseTestMem :: "os_layer \<Rightarrow> call_env \<Rightarrow> u64 \<Rightarrow> u64 \<Rightarrow> u64 \<Rightarrow> unit res" where
  "ReleaseTestMem os ev addr offset len =
     (if os_dynamic_mapped_shmem os then
        res_bind (sat_assert (0 < os_page_size os)) (\<lambda>_.
          let mapping_delta = offset mod of_int (os_page_size os)
          in sat_assert (ev_munmap ev (addr - mapping_delta) (len + mapping_delta)))
      else Inr ())"

section \<open>The queues behind the pools\<close>

text \<open>\<open>pe_q_implementation_\<close> with the queues it selects: \<open>finelock_q_\<close>, or \<open>valid_\<close> and \<open>empty_\<close>.\<close>

datatype pool = SAT_FINELOCK FineLockPEQueue | SAT_ONELOCK PageEntryQueue PageEntryQueue

definition fine_get :: "call_env \<Rightarrow> bool \<Rightarrow> u32 \<Rightarrow> FineLockPEQueue \<Rightarrow> (page_entry option \<times> FineLockPEQueue) res" where
  "fine_get ev want_valid tag q =
     (case (if want_valid then fl_GetValid_tag (ev_busy ev) tag q else fl_GetEmpty_tag (ev_busy ev) tag q) of
        None \<Rightarrow> Inl Diverged
      | Some (r, q') \<Rightarrow> Inr (r, q'))"

text \<open>The one-lock queues do not look at the tag.\<close>

definition one_get ::
    "call_env \<Rightarrow> bool \<Rightarrow> u32 \<Rightarrow> PageEntryQueue \<times> PageEntryQueue \<Rightarrow>
     (page_entry option \<times> PageEntryQueue \<times> PageEntryQueue) res" where
  "one_get ev want_valid tag = (\<lambda>(valid, empt).
     if want_valid then case PopRandom (ev_random ev) valid of (r, valid') \<Rightarrow> Inr (r, valid', empt)
     else case PopRandom (ev_random ev) empt of (r, empt') \<Rightarrow> Inr (r, valid, empt'))"

definition one_put_valid ::
    "page_entry \<Rightarrow> PageEntryQueue \<times> PageEntryQueue \<Rightarrow> (bool \<times> PageEntryQueue \<times> PageEntryQueue) res" where
  "one_put_valid pe = (\<lambda>(valid, empt). case Push pe valid of (ok, valid') \<Rightarrow> Inr (ok, valid', empt))"

definition one_put_empty ::
    "page_entry \<Rightarrow> PageEntryQueue \<times> PageEntryQueue \<Rightarrow> (bool \<times> PageEntryQueue \<times> PageEntryQueue) res" where
  "one_put_empty pe = (\<lambda>(valid, empt). case Push pe empt of (ok, empt') \<Rightarrow> Inr (ok, valid, empt'))"

definition pool_get :: "call_env \<Rightarrow> bool \<Rightarrow> u32 \<Rightarrow> pool \<Rightarrow> (page_entry option \<times> pool) res" where
  "pool_get ev want_valid tag p =
     (case p of
        SAT_FINELOCK q \<Rightarrow> res_bind (fine_get ev want_valid tag q) (\<lambda>(r, q'). Inr (r, SAT_FINELOCK q'))
      | SAT_ONELOCK valid empt \<Rightarrow>
          res_bind (one_get ev want_valid tag (valid, empt)) (\<lambda>(r, valid', empt'). Inr (r, SAT_ONELOCK valid' empt')))"

definition pool_put_valid :: "page_entry \<Rightarrow> pool \<Rightarrow> (bool \<times> pool) res" where
  "pool_put_valid pe p =
     (case p of
        SAT_FINELOCK q \<Rightarrow> res_bind (fl_PutValid pe q) (\<lambda>(ok, q'). Inr (ok, SAT_FINELOCK q'))
      | SAT_ONELOCK valid empt \<Rightarrow>
          res_bind (one_put_valid pe (valid, empt)) (\<lambda>(ok, valid', empt'). Inr (ok, SAT_ONELOCK valid' empt')))"

definition pool_put_empty :: "page_entry \<Rightarrow> pool \<Rightarrow> (bool \<times> pool) res" where
  "pool_put_empty pe p =
     (case p of
        SAT_FINELOCK q \<Rightarrow> res_bind (fl_PutEmpty pe q) (\<lambda>(ok, q'). Inr (ok, SAT_FINELOCK q'))
      | SAT_ONELOCK valid empt \<Rightarrow>
          res_bind (one_put_empty pe (valid, empt)) (\<lambda>(ok, valid', empt'). Inr (ok, SAT_ONELOCK valid' empt')))"

section \<open>The operations of \<open>Sat\<close>\<close>

text \<open>\<open>None\<close> is the result false. A page whose mapping is at address 0 is taken and not returned.\<close>

definition sat_GetValid :: "os_layer \<Rightarrow> int \<Rightarrow> call_env \<Rightarrow> u32 \<Rightarrow> pool \<Rightarrow> (page_entry option \<times> pool) res" where
  "sat_GetValid os page_length ev tag p =
     res_bind (pool_get ev True tag p) (\<lambda>(r, p').
       case r of
         None \<Rightarrow> Inr (None, p')
       | Some pe \<Rightarrow> res_bind (PrepareTestMem os ev (pe_offset pe) (of_int page_length)) (\<lambda>addr.
           Inr (if addr \<noteq> 0 then Some (pe\<lparr>pe_addr := addr, pe_ts := ev_timestamp ev, pe_lastpattern := pe_pattern pe\<rparr>)
                else None, p')))"

definition sat_GetEmpty :: "os_layer \<Rightarrow> int \<Rightarrow> call_env \<Rightarrow> u32 \<Rightarrow> pool \<Rightarrow> (page_entry option \<times> pool) res" where
  "sat_GetEmpty os page_length ev tag p =
     res_bind (pool_get ev False tag p) (\<lambda>(r, p').
       case r of
         None \<Rightarrow> Inr (None, p')
       | Some pe \<Rightarrow> res_bind (PrepareTestMem os ev (pe_offset pe) (of_int page_length)) (\<lambda>addr.
           Inr (if addr \<noteq> 0 then Some (pe\<lparr>pe_addr := addr\<rparr>) else None, p')))"

definition unmap_page :: "os_layer \<Rightarrow> int \<Rightarrow> call_env \<Rightarrow> page_entry \<Rightarrow> unit res" where
  "unmap_page os page_length ev pe =
     (if pe_addr pe \<noteq> 0 then ReleaseTestMem os ev (pe_addr pe) (pe_offset pe) (of_int page_length) else Inr ())"

definition sat_PutValid :: "os_layer \<Rightarrow> int \<Rightarrow> call_env \<Rightarrow> page_entry \<Rightarrow> pool \<Rightarrow> (bool \<times> pool) res" where
  "sat_PutValid os page_length ev pe p =
     res_bind (unmap_page os page_length ev pe) (\<lambda>_. pool_put_valid (pe\<lparr>pe_addr := 0\<rparr>) p)"

definition sat_PutEmpty :: "os_layer \<Rightarrow> int \<Rightarrow> call_env \<Rightarrow> page_entry \<Rightarrow> pool \<Rightarrow> (bool \<times> pool) res" where
  "sat_PutEmpty os page_length ev pe p =
     res_bind (unmap_page os page_length ev pe) (\<lambda>_.
       pool_put_empty (pe\<lparr>pe_addr := 0, pe_write_dram_frequency := - 1\<rparr>) p)"

text \<open>The initial check looks pages up without taking them (fine lock), or parks them in the empty queue.\<close>

definition GetValidByOffsetForInitialization ::
    "os_layer \<Rightarrow> int \<Rightarrow> call_env \<Rightarrow> u64 \<Rightarrow> pool \<Rightarrow> page_entry option res" where
  "GetValidByOffsetForInitialization os page_length ev offset p =
     (case (case p of SAT_FINELOCK q \<Rightarrow> GetValidByOffset offset q | SAT_ONELOCK _ _ \<Rightarrow> None) of
        None \<Rightarrow> Inr None
      | Some pe \<Rightarrow> res_bind (PrepareTestMem os ev (pe_offset pe) (of_int page_length)) (\<lambda>addr.
          Inr (if addr = 0 then None
               else Some (pe\<lparr>pe_addr := addr, pe_ts := ev_timestamp ev, pe_lastpattern := pe_pattern pe\<rparr>))))"

definition ReleaseInitializationPage :: "os_layer \<Rightarrow> int \<Rightarrow> call_env \<Rightarrow> page_entry \<Rightarrow> page_entry res" where
  "ReleaseInitializationPage os page_length ev pe =
     (if pe_addr pe = 0 then Inr pe
      else res_bind (ReleaseTestMem os ev (pe_addr pe) (pe_offset pe) (of_int page_length)) (\<lambda>_.
             Inr (pe\<lparr>pe_addr := 0\<rparr>)))"

definition HoldInitializationPage :: "os_layer \<Rightarrow> int \<Rightarrow> call_env \<Rightarrow> page_entry \<Rightarrow> pool \<Rightarrow> (bool \<times> pool) res" where
  "HoldInitializationPage os page_length ev pe p =
     (case p of
        SAT_FINELOCK q \<Rightarrow> Inr (False, p)
      | SAT_ONELOCK valid empt \<Rightarrow>
          res_bind (unmap_page os page_length ev pe) (\<lambda>_.
            case Push (pe\<lparr>pe_addr := 0\<rparr>) empt of (ok, empt') \<Rightarrow> Inr (ok, SAT_ONELOCK valid empt')))"

primrec restore_pages :: "nat list \<Rightarrow> PageEntryQueue \<Rightarrow> PageEntryQueue \<Rightarrow> bool \<times> PageEntryQueue \<times> PageEntryQueue" where
  "restore_pages [] valid empt = (True, valid, empt)"
| "restore_pages (rnd # rnds) valid empt =
     (case PopRandom rnd empt of
        (None, empt') \<Rightarrow> (False, valid, empt')
      | (Some pe, empt') \<Rightarrow>
          (case Push pe valid of (ok, valid') \<Rightarrow>
             if ok then restore_pages rnds valid' empt' else (False, valid', empt')))"

text \<open>\<open>rnds\<close>: the values of \<open>random()\<close>, one for each of the \<open>count\<close> rounds.\<close>

definition RestoreInitializationPages :: "nat list \<Rightarrow> pool \<Rightarrow> bool \<times> pool" where
  "RestoreInitializationPages rnds p =
     (case p of
        SAT_FINELOCK q \<Rightarrow> (False, p)
      | SAT_ONELOCK valid empt \<Rightarrow>
          (case restore_pages rnds valid empt of (ok, valid', empt') \<Rightarrow> (ok, SAT_ONELOCK valid' empt')))"

section \<open>The interface of a pool\<close>

text \<open>
  \<open>avail True p\<close> and \<open>avail False p\<close> are the records a caller can get as valid and as empty pages; \<open>inv p held\<close>
  says that the pages at the offsets \<open>held\<close> are handed out and every other page is available once.
  \<open>same_page\<close>: getting a page changes at most its touch count.
\<close>

definition same_page :: "page_entry \<Rightarrow> page_entry \<Rightarrow> bool" where
  "same_page pe e \<longleftrightarrow> (\<exists>t. pe = e\<lparr>pe_touch := t\<rparr>)"

locale page_pool =
  fixes get :: "call_env \<Rightarrow> bool \<Rightarrow> u32 \<Rightarrow> 'p \<Rightarrow> (page_entry option \<times> 'p) res"
    and put_valid :: "page_entry \<Rightarrow> 'p \<Rightarrow> (bool \<times> 'p) res"
    and put_empty :: "page_entry \<Rightarrow> 'p \<Rightarrow> (bool \<times> 'p) res"
    and avail :: "bool \<Rightarrow> 'p \<Rightarrow> page_entry multiset"
    and inv :: "u64 multiset \<Rightarrow> 'p \<Rightarrow> u64 multiset \<Rightarrow> bool"
  assumes partition: "inv pages p held \<Longrightarrow>
      image_mset pe_offset (avail True p) + image_mset pe_offset (avail False p) + held = pages"
    and valid_pattern: "inv pages p held \<Longrightarrow> pe \<in># avail True p \<Longrightarrow> pe_pattern pe \<noteq> None"
    and get_none: "inv pages p held \<Longrightarrow> get ev want tag p = Inr (None, p') \<Longrightarrow>
      inv pages p' held \<and> avail True p' = avail True p \<and> avail False p' = avail False p \<and>
      (tag = kDontCareTag \<longrightarrow> avail want p = {#})"
    and get_some: "inv pages p held \<Longrightarrow> get ev want tag p = Inr (Some pe, p') \<Longrightarrow>
      \<exists>e. avail want p = add_mset e (avail want p') \<and> avail (\<not> want) p' = avail (\<not> want) p \<and> same_page pe e \<and>
          inv pages p' (add_mset (pe_offset pe) held)"
    and get_total: "inv pages p held \<Longrightarrow> \<exists>r p'. get ev want tag p = Inr (r, p')"
    and put_valid_ok: "inv pages p (add_mset (pe_offset pe) held) \<Longrightarrow> pe_pattern pe \<noteq> None \<Longrightarrow>
      \<exists>p'. put_valid pe p = Inr (True, p') \<and> inv pages p' held \<and>
           avail True p' = add_mset pe (avail True p) \<and> avail False p' = avail False p"
    and put_empty_ok: "inv pages p (add_mset (pe_offset pe) held) \<Longrightarrow>
      \<exists>p' e. put_empty pe p = Inr (True, p') \<and> inv pages p' held \<and> pe_offset e = pe_offset pe \<and> pe_tag e = pe_tag pe \<and>
           avail False p' = add_mset e (avail False p) \<and> avail True p' = avail True p"
begin

text \<open>A page that is handed out cannot be handed out again.\<close>

lemma get_fresh:
  assumes "inv pages p held" "get ev want tag p = Inr (Some pe, p')"
    and "\<And>x. count pages x \<le> 1"
  shows "pe_offset pe \<notin># held"
proof -
  obtain e where "inv pages p' (add_mset (pe_offset pe) held)" using get_some [OF assms(1,2)] by blast
  from partition [OF this] have "add_mset (pe_offset pe) held \<subseteq># pages"
    by (metis mset_subset_eq_add_right)
  then have "count (add_mset (pe_offset pe) held) (pe_offset pe) \<le> 1"
    using assms(3) [of "pe_offset pe"] by (meson le_trans mset_subset_eq_count)
  then show ?thesis by (simp add: count_eq_zero_iff flip: not_in_iff)
qed

end

section \<open>The one-lock pool\<close>

definition one_bag :: "bool \<Rightarrow> PageEntryQueue \<times> PageEntryQueue \<Rightarrow> page_entry multiset" where
  "one_bag want = (\<lambda>(valid, empt). q_bag (if want then valid else empt))"

definition one_inv :: "u64 multiset \<Rightarrow> PageEntryQueue \<times> PageEntryQueue \<Rightarrow> u64 multiset \<Rightarrow> bool" where
  "one_inv pages = (\<lambda>(valid, empt) held. q_inv valid \<and> q_inv empt \<and> q_cap valid = size pages \<and> q_cap empt = size pages \<and>
     (\<forall>pe \<in># q_bag valid. pe_pattern pe \<noteq> None) \<and>
     image_mset pe_offset (q_bag valid) + image_mset pe_offset (q_bag empt) + held = pages)"

lemma pop_cases:
  assumes "q_inv q"
  shows "PopRandom r q = (None, q) \<and> q_bag q = {#} \<or>
    (\<exists>pe q'. PopRandom r q = (Some pe, q') \<and> q_inv q' \<and> q_cap q' = q_cap q \<and> q_bag q = add_mset pe (q_bag q'))"
  using one_lock.get_empty [OF assms, of r] one_lock.get_some [OF assms, of r] one_lock.get_invar [OF assms, of r]
    one_lock.get_cap [OF assms, of r]
  by (cases "PopRandom r q") auto

lemma push_room:
  assumes "q_inv q" "size (q_bag q) < q_cap q"
  shows "\<exists>q'. Push pe q = (True, q') \<and> q_inv q' \<and> q_cap q' = q_cap q \<and> q_bag q' = add_mset pe (q_bag q)"
  using one_lock.put_room [OF assms, of pe] one_lock.put_invar [OF assms(1), of pe] one_lock.put_cap [OF assms(1), of pe]
  by (cases "Push pe q") auto

lemma same_page_refl [simp]: "same_page pe pe"
  unfolding same_page_def by (intro exI [of _ "pe_touch pe"]) simp

lemma one_room:
  assumes "one_inv pages (v, e) (add_mset off held)"
  shows "size (q_bag v) < q_cap v" "size (q_bag e) < q_cap e"
proof -
  from assms have "size (image_mset pe_offset (q_bag v) + image_mset pe_offset (q_bag e) + add_mset off held) = size pages"
    by (simp add: one_inv_def)
  then show "size (q_bag v) < q_cap v" "size (q_bag e) < q_cap e" using assms by (simp_all add: one_inv_def)
qed

interpretation one_pool: page_pool one_get one_put_valid one_put_empty one_bag one_inv
proof
  fix pages p held ev want tag p' and pe :: page_entry
  assume inv: "one_inv pages p held"
  then show "image_mset pe_offset (one_bag True p) + image_mset pe_offset (one_bag False p) + held = pages"
    "pe \<in># one_bag True p \<Longrightarrow> pe_pattern pe \<noteq> None"
    by (auto simp: one_inv_def one_bag_def)
  obtain v e where p: "p = (v, e)" by force
  have q: "q_inv v" "q_inv e" using inv by (simp_all add: p one_inv_def)
  show "\<exists>r p'. one_get ev want tag p = Inr (r, p')"
    by (auto simp: p one_get_def split: prod.splits)
  show "one_get ev want tag p = Inr (None, p') \<Longrightarrow>
      one_inv pages p' held \<and> one_bag True p' = one_bag True p \<and> one_bag False p' = one_bag False p \<and>
      (tag = kDontCareTag \<longrightarrow> one_bag want p = {#})"
    using inv pop_cases [OF q(1), of "ev_random ev"] pop_cases [OF q(2), of "ev_random ev"]
    by (cases want) (auto simp: p one_get_def one_bag_def)
  show "one_get ev want tag p = Inr (Some pe, p') \<Longrightarrow>
      \<exists>e. one_bag want p = add_mset e (one_bag want p') \<and> one_bag (\<not> want) p' = one_bag (\<not> want) p \<and> same_page pe e \<and>
          one_inv pages p' (add_mset (pe_offset pe) held)"
    using inv pop_cases [OF q(1), of "ev_random ev"] pop_cases [OF q(2), of "ev_random ev"]
    by (cases want; auto simp: p one_get_def one_bag_def one_inv_def; intro exI [of _ pe]; simp)
next
  fix pages p held and pe :: page_entry
  assume inv: "one_inv pages p (add_mset (pe_offset pe) held)"
  obtain v e where p: "p = (v, e)" by force
  have q: "q_inv v" "q_inv e" using inv by (simp_all add: p one_inv_def)
  note room = push_room [OF q(1) one_room(1) [OF inv [unfolded p]], of pe]
    push_room [OF q(2) one_room(2) [OF inv [unfolded p]], of pe]
  show "pe_pattern pe \<noteq> None \<Longrightarrow>
      \<exists>p'. one_put_valid pe p = Inr (True, p') \<and> one_inv pages p' held \<and>
           one_bag True p' = add_mset pe (one_bag True p) \<and> one_bag False p' = one_bag False p"
    using inv room by (auto simp: p one_put_valid_def one_bag_def one_inv_def)
  show "\<exists>p' e. one_put_empty pe p = Inr (True, p') \<and> one_inv pages p' held \<and> pe_offset e = pe_offset pe \<and> pe_tag e = pe_tag pe \<and>
           one_bag False p' = add_mset e (one_bag False p) \<and> one_bag True p' = one_bag True p"
    using inv room by (auto simp: p one_put_empty_def one_bag_def one_inv_def intro!: exI [of _ pe])
qed

section \<open>The fine-lock pool\<close>

definition fl_slots :: "bool \<Rightarrow> FineLockPEQueue \<Rightarrow> nat set" where
  "fl_slots want q = {i. i < fl_q_size q \<and> \<not> fl_locked q ! i \<and> pred_func want (fl_pages q ! i)}"

definition fl_taken :: "FineLockPEQueue \<Rightarrow> nat set" where
  "fl_taken q = {i. i < fl_q_size q \<and> fl_locked q ! i}"

definition fl_bag :: "bool \<Rightarrow> FineLockPEQueue \<Rightarrow> page_entry multiset" where
  "fl_bag want q = image_mset (\<lambda>i. fl_pages q ! i) (mset_set (fl_slots want q))"

definition fl_offsets :: "FineLockPEQueue \<Rightarrow> nat set \<Rightarrow> u64 multiset" where
  "fl_offsets q A = image_mset (offset_of q) (mset_set A)"

definition fl_inv :: "u64 multiset \<Rightarrow> FineLockPEQueue \<Rightarrow> u64 multiset \<Rightarrow> bool" where
  "fl_inv pages q held \<longleftrightarrow> fl_wf q \<and> pages = fl_offsets q {..<fl_q_size q} \<and> held = fl_offsets q (fl_taken q) \<and>
     (\<forall>i<fl_q_size q. \<not> fl_locked q ! i \<longrightarrow> pe_offset (fl_pages q ! i) = offset_of q i)"

lemma finite_slots [simp]: "finite (fl_slots want q)" "finite (fl_taken q)"
  by (simp_all add: fl_slots_def fl_taken_def)

lemma not_pred: "pred_func False pe \<longleftrightarrow> \<not> pred_func True pe"
  by (simp add: pred_func_def page_is_valid_def page_is_empty_def)

lemma fl_partition: "{..<fl_q_size q} = fl_slots True q \<union> fl_slots False q \<union> fl_taken q"
  by (auto simp: fl_slots_def fl_taken_def not_pred)

lemma fl_disjoint: "fl_slots True q \<inter> fl_slots False q = {}" "(fl_slots True q \<union> fl_slots False q) \<inter> fl_taken q = {}"
  by (auto simp: fl_slots_def fl_taken_def not_pred)

lemma fl_bag_offsets:
  "fl_inv pages q held \<Longrightarrow> image_mset pe_offset (fl_bag want q) = fl_offsets q (fl_slots want q)"
  unfolding fl_bag_def fl_offsets_def multiset.map_comp
  by (rule image_mset_cong) (auto simp: fl_inv_def fl_slots_def)

lemma fl_offsets_Un:
  "A \<inter> B = {} \<Longrightarrow> finite A \<Longrightarrow> finite B \<Longrightarrow> fl_offsets q (A \<union> B) = fl_offsets q A + fl_offsets q B"
  by (simp add: fl_offsets_def mset_set_Union)

text \<open>The slot of a held page.\<close>

lemma fl_held_slot:
  assumes "fl_inv pages q (add_mset off held)"
  obtains i where "i < fl_q_size q" "fl_locked q ! i" "off = offset_of q i" "held = fl_offsets q (fl_taken q - {i})"
proof -
  have eq: "add_mset off held = fl_offsets q (fl_taken q)" using assms by (simp add: fl_inv_def)
  then have "off \<in># fl_offsets q (fl_taken q)" by (metis union_single_eq_member)
  then obtain i where i: "i \<in> fl_taken q" "off = offset_of q i" by (auto simp: fl_offsets_def)
  have "fl_offsets q (fl_taken q) = add_mset (offset_of q i) (fl_offsets q (fl_taken q - {i}))"
    using i(1) by (simp add: fl_offsets_def mset_set.remove)
  then show thesis using that [of i] i eq by (simp add: fl_taken_def)
qed

text \<open>Locking slot \<open>i\<close>, and putting record \<open>e\<close> back into it.\<close>

lemma fl_lock:
  assumes "fl_wf q" "fl_inv pages q held" "i \<in> fl_slots want q"
    and q': "fl_wf q'" "fl_q_size q' = fl_q_size q" "fl_page_size q' = fl_page_size q" "fl_pages q' = fl_pages q"
      "fl_locked q' = (fl_locked q)[i := True]"
  shows "fl_bag want q = add_mset (fl_pages q ! i) (fl_bag want q')" "fl_bag (\<not> want) q' = fl_bag (\<not> want) q"
    "fl_inv pages q' (add_mset (pe_offset (fl_pages q ! i)) held)"
proof -
  have len: "length (fl_locked q) = fl_q_size q" using assms(1) by (simp add: fl_wf_def)
  have i: "i < fl_q_size q" "\<not> fl_locked q ! i" using assms(3) by (auto simp: fl_slots_def)
  have slots: "fl_slots want q = insert i (fl_slots want q')" "i \<notin> fl_slots want q'"
    "fl_slots (\<not> want) q' = fl_slots (\<not> want) q" "fl_taken q' = insert i (fl_taken q)" "i \<notin> fl_taken q"
    using assms(3) q' len by (cases want; auto simp: fl_slots_def fl_taken_def nth_list_update not_pred)+
  then show "fl_bag want q = add_mset (fl_pages q ! i) (fl_bag want q')" "fl_bag (\<not> want) q' = fl_bag (\<not> want) q"
    using q' by (simp_all add: fl_bag_def)
  have off: "offset_of q' = offset_of q" using q' by (simp add: offset_of_def fun_eq_iff)
  show "fl_inv pages q' (add_mset (pe_offset (fl_pages q ! i)) held)"
    using assms(2) i q' slots off len by (auto simp: fl_inv_def fl_offsets_def nth_list_update)
qed

lemma fl_unlock:
  fixes e q i
  defines "q' \<equiv> q\<lparr>fl_pages := (fl_pages q)[i := e], fl_locked := (fl_locked q)[i := False]\<rparr>"
  assumes "fl_inv pages q (add_mset (offset_of q i) held)" "i < fl_q_size q" "fl_locked q ! i"
    and "held = fl_offsets q (fl_taken q - {i})" "pe_offset e = offset_of q i" "pred_func want e"
  shows "fl_inv pages q' held" "fl_bag want q' = add_mset e (fl_bag want q)" "fl_bag (\<not> want) q' = fl_bag (\<not> want) q"
proof -
  have len: "length (fl_locked q) = fl_q_size q" "length (fl_pages q) = fl_q_size q"
    using assms(2) by (auto simp: fl_inv_def fl_wf_def)
  have slots: "fl_slots want q' = insert i (fl_slots want q)" "i \<notin> fl_slots want q" "i \<notin> fl_slots (\<not> want) q"
    "fl_slots (\<not> want) q' = fl_slots (\<not> want) q" "fl_taken q' = fl_taken q - {i}"
    using assms(3-7) len
    by (cases want; auto simp: q'_def fl_slots_def fl_taken_def nth_list_update not_pred split: if_splits)+
  have same: "fl_pages q' ! j = fl_pages q ! j" if "j \<noteq> i" for j using that by (simp add: q'_def)
  have new: "fl_pages q' ! i = e" using assms(3) len by (simp add: q'_def)
  have bag: "image_mset (\<lambda>j. fl_pages q' ! j) (mset_set (fl_slots w q)) = fl_bag w q" if "i \<notin> fl_slots w q" for w
    unfolding fl_bag_def by (rule image_mset_cong) (use same that in \<open>metis finite_set_mset_mset_set finite_slots(1)\<close>)
  show "fl_bag want q' = add_mset e (fl_bag want q)" "fl_bag (\<not> want) q' = fl_bag (\<not> want) q"
    unfolding fl_bag_def [of _ q'] slots using slots(2,3) new bag by simp_all
  have off: "offset_of q' = offset_of q" by (simp add: q'_def offset_of_def fun_eq_iff)
  have "fl_wf q'" using assms(2) by (simp add: fl_inv_def fl_wf_def q'_def)
  then show "fl_inv pages q' held"
    unfolding fl_inv_def
  proof (intro conjI allI impI)
    have size: "fl_q_size q' = fl_q_size q" by (simp add: q'_def)
    show "pages = fl_offsets q' {..<fl_q_size q'}" "held = fl_offsets q' (fl_taken q')"
      using assms(2,5) off slots(5) size by (simp_all add: fl_inv_def fl_offsets_def)
    fix j assume j: "j < fl_q_size q'" "\<not> fl_locked q' ! j"
    show "pe_offset (fl_pages q' ! j) = offset_of q' j"
    proof (cases "j = i")
      case True
      then show ?thesis using new assms(6) off by simp
    next
      case False
      then have "\<not> fl_locked q ! j" using j by (simp add: q'_def)
      then show ?thesis using False same off j size assms(2) by (simp add: fl_inv_def)
    qed
  qed
qed

lemma metrics_same_page: "same_page (metrics want metric i pe) pe"
proof (cases want)
  case True
  then show ?thesis by (cases metric) (auto simp: metrics_def same_page_def)
next
  case False
  then show ?thesis by (simp add: metrics_def)
qed

lemma fine_get_cases:
  assumes "fl_wf q"
  obtains q' where "fine_get ev want tag q = Inr (None, q')" "fl_wf q'" "fl_q_size q' = fl_q_size q"
      "fl_page_size q' = fl_page_size q" "fl_pages q' = fl_pages q" "fl_locked q' = fl_locked q"
      "\<forall>index. \<not> fl_avail want tag q index"
  | pe q' i where "fine_get ev want tag q = Inr (Some pe, q')" "fl_wf q'" "fl_q_size q' = fl_q_size q"
      "fl_page_size q' = fl_page_size q" "fl_pages q' = fl_pages q" "fl_locked q' = (fl_locked q)[i := True]"
      "fl_avail want tag q i" "same_page pe (fl_pages q ! i)"
proof -
  obtain r q' where g: "GetRandomWithPredicateTag (ev_busy ev) want tag q = Some (r, q')" "fl_pages q' = fl_pages q"
    "fl_wf q'" "fl_q_size q' = fl_q_size q" "fl_page_size q' = fl_page_size q"
    and r: "case r of
       None \<Rightarrow> (\<forall>index. \<not> fl_avail want tag q index) \<and> fl_locked q' = fl_locked q
     | Some pe \<Rightarrow> \<exists>index i. fl_avail want tag q index \<and> i < fl_q_size q \<and>
         pe = metrics want (fl_metric q) i (fl_pages q ! index) \<and>
         fl_locked q' = (fl_locked q)[index := True]"
    using GetRandomWithPredicateTag_aux [OF assms, of "ev_busy ev" want tag] by blast
  have get: "fine_get ev want tag q = Inr (r, q')"
    using g(1) by (cases want) (simp_all add: fine_get_def fl_GetValid_tag_def fl_GetEmpty_tag_def)
  show thesis
  proof (cases r)
    case None
    then show thesis using that(1) [of q'] get g r by simp
  next
    case (Some pe)
    then obtain index where "fl_avail want tag q index" "same_page pe (fl_pages q ! index)"
      "fl_locked q' = (fl_locked q)[index := True]"
      using r metrics_same_page by auto
    then show thesis using that(2) [of pe q' index] Some get g by simp
  qed
qed

lemma same_page_fields:
  "same_page pe e \<Longrightarrow> pe_offset pe = pe_offset e \<and> pe_pattern pe = pe_pattern e \<and> pe_tag pe = pe_tag e \<and>
     pe_addr pe = pe_addr e \<and> pe_lastcpu pe = pe_lastcpu e"
  by (auto simp: same_page_def)

interpretation fine_pool: page_pool fine_get fl_PutValid fl_PutEmpty fl_bag fl_inv
proof
  fix pages q held ev want tag q' and pe :: page_entry
  assume inv: "fl_inv pages q held"
  then have wf: "fl_wf q" by (simp add: fl_inv_def)
  show "image_mset pe_offset (fl_bag True q) + image_mset pe_offset (fl_bag False q) + held = pages"
    using inv fl_bag_offsets [OF inv] fl_partition [of q] fl_disjoint [of q]
    by (simp add: fl_inv_def flip: fl_offsets_Un)
  show "pe \<in># fl_bag True q \<Longrightarrow> pe_pattern pe \<noteq> None"
    by (auto simp: fl_bag_def fl_slots_def pred_func_def page_is_valid_def)
  show "\<exists>r q'. fine_get ev want tag q = Inr (r, q')"
    by (rule fine_get_cases [OF wf, of ev want tag]) auto
  show "fine_get ev want tag q = Inr (None, q') \<Longrightarrow>
      fl_inv pages q' held \<and> fl_bag True q' = fl_bag True q \<and> fl_bag False q' = fl_bag False q \<and>
      (tag = kDontCareTag \<longrightarrow> fl_bag want q = {#})"
    using inv
    by (rule_tac fine_get_cases [OF wf, of ev want tag])
      (auto simp: fl_inv_def fl_bag_def fl_slots_def fl_taken_def fl_offsets_def fl_avail_def tag_matches_def
        offset_of_def [abs_def] mset_set_empty_iff)
  show "fine_get ev want tag q = Inr (Some pe, q') \<Longrightarrow>
      \<exists>e. fl_bag want q = add_mset e (fl_bag want q') \<and> fl_bag (\<not> want) q' = fl_bag (\<not> want) q \<and> same_page pe e \<and>
          fl_inv pages q' (add_mset (pe_offset pe) held)"
  proof (rule fine_get_cases [OF wf, of ev want tag])
    fix pe2 q2 i
    assume get: "fine_get ev want tag q = Inr (Some pe, q')" "fine_get ev want tag q = Inr (Some pe2, q2)"
      and q2: "fl_wf q2" "fl_q_size q2 = fl_q_size q" "fl_page_size q2 = fl_page_size q" "fl_pages q2 = fl_pages q"
        "fl_locked q2 = (fl_locked q)[i := True]" "fl_avail want tag q i" "same_page pe2 (fl_pages q ! i)"
    have "i \<in> fl_slots want q" using q2(6) by (simp add: fl_avail_def fl_slots_def)
    from fl_lock [OF wf inv this q2(1-5)] show ?thesis
      using get q2(7) same_page_fields [OF q2(7)] by auto
  qed simp
next
  fix pages q held and pe :: page_entry
  assume inv: "fl_inv pages q (add_mset (pe_offset pe) held)"
  then have wf: "fl_wf q" by (simp add: fl_inv_def)
  obtain i where i: "i < fl_q_size q" "fl_locked q ! i" "pe_offset pe = offset_of q i"
    "held = fl_offsets q (fl_taken q - {i})" by (rule fl_held_slot [OF inv])
  note inv = inv [unfolded i(3)]
  show "pe_pattern pe \<noteq> None \<Longrightarrow> \<exists>q'. fl_PutValid pe q = Inr (True, q') \<and> fl_inv pages q' held \<and>
           fl_bag True q' = add_mset pe (fl_bag True q) \<and> fl_bag False q' = fl_bag False q"
    using fl_unlock [OF inv i(1,2,4,3), of True] fl_PutValid_eq [OF wf i(1,3)]
    by (simp add: page_is_valid_def pred_func_def)
  let ?e = "pe\<lparr>pe_pattern := None, pe_write_dram_frequency := - 1\<rparr>"
  show "\<exists>q' e. fl_PutEmpty pe q = Inr (True, q') \<and> fl_inv pages q' held \<and> pe_offset e = pe_offset pe \<and> pe_tag e = pe_tag pe \<and>
           fl_bag False q' = add_mset e (fl_bag False q) \<and> fl_bag True q' = fl_bag True q"
    using fl_unlock [OF inv i(1,2,4), of ?e False] fl_PutEmpty_eq [OF wf i(1,3)] i(3)
    by (auto simp: page_is_empty_def pred_func_def)
qed

section \<open>Either pool\<close>

definition pool_avail :: "bool \<Rightarrow> pool \<Rightarrow> page_entry multiset" where
  "pool_avail want p = (case p of SAT_FINELOCK q \<Rightarrow> fl_bag want q | SAT_ONELOCK v e \<Rightarrow> one_bag want (v, e))"

definition pool_inv :: "u64 multiset \<Rightarrow> pool \<Rightarrow> u64 multiset \<Rightarrow> bool" where
  "pool_inv pages p held = (case p of SAT_FINELOCK q \<Rightarrow> fl_inv pages q held | SAT_ONELOCK v e \<Rightarrow> one_inv pages (v, e) held)"

lemmas pool_simps = pool_avail_def pool_inv_def pool_get_def pool_put_valid_def pool_put_empty_def

interpretation pools: page_pool pool_get pool_put_valid pool_put_empty pool_avail pool_inv
proof
  fix pages p held ev want tag p' and pe :: page_entry
  assume inv: "pool_inv pages p held"
  then show "image_mset pe_offset (pool_avail True p) + image_mset pe_offset (pool_avail False p) + held = pages"
    using fine_pool.partition one_pool.partition by (cases p) (auto simp: pool_simps)
  show "pe \<in># pool_avail True p \<Longrightarrow> pe_pattern pe \<noteq> None"
    using inv fine_pool.valid_pattern one_pool.valid_pattern by (cases p) (auto simp: pool_simps)
  show "\<exists>r p'. pool_get ev want tag p = Inr (r, p')"
  proof (cases p)
    case (SAT_FINELOCK q)
    then show ?thesis using inv fine_pool.get_total [of pages q held ev want tag] by (auto simp: pool_simps)
  next
    case (SAT_ONELOCK v e)
    then show ?thesis using inv one_pool.get_total [of pages "(v, e)" held ev want tag] by (auto simp: pool_simps)
  qed
  show "pool_get ev want tag p = Inr (None, p') \<Longrightarrow>
      pool_inv pages p' held \<and> pool_avail True p' = pool_avail True p \<and> pool_avail False p' = pool_avail False p \<and>
      (tag = kDontCareTag \<longrightarrow> pool_avail want p = {#})"
  proof (cases p)
    case (SAT_FINELOCK q)
    assume "pool_get ev want tag p = Inr (None, p')"
    then obtain q' where "fine_get ev want tag q = Inr (None, q')" "p' = SAT_FINELOCK q'"
      using SAT_FINELOCK by (cases "fine_get ev want tag q") (auto simp: pool_simps)
    then show ?thesis
      using SAT_FINELOCK inv fine_pool.get_none [of pages q held ev want tag q'] by (simp add: pool_simps)
  next
    case (SAT_ONELOCK v e)
    assume "pool_get ev want tag p = Inr (None, p')"
    then obtain v' e' where "one_get ev want tag (v, e) = Inr (None, v', e')" "p' = SAT_ONELOCK v' e'"
      using SAT_ONELOCK by (cases "one_get ev want tag (v, e)") (auto simp: pool_simps)
    then show ?thesis
      using SAT_ONELOCK inv one_pool.get_none [of pages "(v, e)" held ev want tag "(v', e')"] by (simp add: pool_simps)
  qed
  show "pool_get ev want tag p = Inr (Some pe, p') \<Longrightarrow>
      \<exists>e. pool_avail want p = add_mset e (pool_avail want p') \<and> pool_avail (\<not> want) p' = pool_avail (\<not> want) p \<and>
          same_page pe e \<and> pool_inv pages p' (add_mset (pe_offset pe) held)"
  proof (cases p)
    case (SAT_FINELOCK q)
    assume "pool_get ev want tag p = Inr (Some pe, p')"
    then obtain q' where "fine_get ev want tag q = Inr (Some pe, q')" "p' = SAT_FINELOCK q'"
      using SAT_FINELOCK by (cases "fine_get ev want tag q") (auto simp: pool_simps)
    then show ?thesis
      using SAT_FINELOCK inv fine_pool.get_some [of pages q held ev want tag pe q'] by (simp add: pool_simps)
  next
    case (SAT_ONELOCK v e)
    assume "pool_get ev want tag p = Inr (Some pe, p')"
    then obtain v' e' where "one_get ev want tag (v, e) = Inr (Some pe, v', e')" "p' = SAT_ONELOCK v' e'"
      using SAT_ONELOCK by (cases "one_get ev want tag (v, e)") (auto simp: pool_simps)
    then show ?thesis
      using SAT_ONELOCK inv one_pool.get_some [of pages "(v, e)" held ev want tag pe "(v', e')"] by (simp add: pool_simps)
  qed
next
  fix pages p held and pe :: page_entry
  assume inv: "pool_inv pages p (add_mset (pe_offset pe) held)"
  show "pe_pattern pe \<noteq> None \<Longrightarrow> \<exists>p'. pool_put_valid pe p = Inr (True, p') \<and> pool_inv pages p' held \<and>
           pool_avail True p' = add_mset pe (pool_avail True p) \<and> pool_avail False p' = pool_avail False p"
  proof (cases p)
    case (SAT_FINELOCK q)
    assume "pe_pattern pe \<noteq> None"
    then obtain q' where "fl_PutValid pe q = Inr (True, q') \<and> fl_inv pages q' held \<and>
        fl_bag True q' = add_mset pe (fl_bag True q) \<and> fl_bag False q' = fl_bag False q"
      using SAT_FINELOCK inv fine_pool.put_valid_ok [of pages q pe held] by (auto simp: pool_simps)
    then show ?thesis using SAT_FINELOCK by (intro exI [of _ "SAT_FINELOCK q'"]) (simp add: pool_simps)
  next
    case (SAT_ONELOCK v e)
    assume "pe_pattern pe \<noteq> None"
    then obtain v' e' where "one_put_valid pe (v, e) = Inr (True, v', e') \<and> one_inv pages (v', e') held \<and>
        one_bag True (v', e') = add_mset pe (one_bag True (v, e)) \<and> one_bag False (v', e') = one_bag False (v, e)"
      using SAT_ONELOCK inv one_pool.put_valid_ok [of pages "(v, e)" pe held] by (auto simp: pool_simps)
    then show ?thesis using SAT_ONELOCK by (intro exI [of _ "SAT_ONELOCK v' e'"]) (simp add: pool_simps)
  qed
  show "\<exists>p' e. pool_put_empty pe p = Inr (True, p') \<and> pool_inv pages p' held \<and> pe_offset e = pe_offset pe \<and>
           pe_tag e = pe_tag pe \<and> pool_avail False p' = add_mset e (pool_avail False p) \<and> pool_avail True p' = pool_avail True p"
  proof (cases p)
    case (SAT_FINELOCK q)
    then obtain q' e where "fl_PutEmpty pe q = Inr (True, q') \<and> fl_inv pages q' held \<and> pe_offset e = pe_offset pe \<and>
        pe_tag e = pe_tag pe \<and> fl_bag False q' = add_mset e (fl_bag False q) \<and> fl_bag True q' = fl_bag True q"
      using inv fine_pool.put_empty_ok [of pages q pe held] by (auto simp: pool_simps)
    then show ?thesis using SAT_FINELOCK by (intro exI [of _ "SAT_FINELOCK q'"] exI [of _ e]) (simp add: pool_simps)
  next
    case (SAT_ONELOCK v m)
    then obtain v' m' e where "one_put_empty pe (v, m) = Inr (True, v', m') \<and> one_inv pages (v', m') held \<and>
        pe_offset e = pe_offset pe \<and> pe_tag e = pe_tag pe \<and>
        one_bag False (v', m') = add_mset e (one_bag False (v, m)) \<and> one_bag True (v', m') = one_bag True (v, m)"
      using inv one_pool.put_empty_ok [of pages "(v, m)" pe held] by (auto simp: pool_simps)
    then show ?thesis using SAT_ONELOCK by (intro exI [of _ "SAT_ONELOCK v' m'"] exI [of _ e]) (simp add: pool_simps)
  qed
qed

section \<open>The operations of \<open>Sat\<close> on a statically mapped memory\<close>

definition page_offsets :: "nat \<Rightarrow> int \<Rightarrow> u64 multiset" where
  "page_offsets n page_length = image_mset (\<lambda>i. of_nat i * of_int page_length) (mset_set {..<n})"

definition new_pool :: "bool \<Rightarrow> (nat \<Rightarrow> page_entry) \<Rightarrow> nat \<Rightarrow> int \<Rightarrow> pool" where
  "new_pool fine garbage n page_length =
     (if fine then SAT_FINELOCK (FineLockPEQueue_new garbage n page_length)
      else SAT_ONELOCK (PageEntryQueue_new garbage n) (PageEntryQueue_new garbage n))"

definition os_maps :: "os_layer \<Rightarrow> int \<Rightarrow> u64 multiset \<Rightarrow> bool" where
  "os_maps os page_length pages \<longleftrightarrow> \<not> os_dynamic_mapped_shmem os \<and>
     (\<forall>off \<in># pages. off + of_int page_length \<le> os_testmemsize os \<and> os_testmem os + off \<noteq> 0)"

text \<open>A new pool has handed out every page.\<close>

lemma new_pool_inv:
  assumes "1 \<le> n" "n \<le> 2 ^ 20" "0 < page_length" "page_length * 2 ^ 20 < 2 ^ 63"
  shows "pool_inv (page_offsets n page_length) (new_pool fine garbage n page_length) (page_offsets n page_length)"
proof (cases fine)
  case True
  let ?q = "FineLockPEQueue_new garbage n page_length"
  have q: "fl_q_size ?q = n" "fl_page_size ?q = page_length" "fl_locked ?q = replicate n True"
    by (simp_all add: FineLockPEQueue_new_def split: prod.splits)
  then have "fl_taken ?q = {..<n}" "offset_of ?q = (\<lambda>i. of_nat i * of_int page_length)"
    by (auto simp: fl_taken_def offset_of_def)
  then have "fl_inv (page_offsets n page_length) ?q (page_offsets n page_length)"
    using FineLockPEQueue_new_wf [OF assms] q by (simp add: fl_inv_def page_offsets_def fl_offsets_def)
  then show ?thesis using True by (simp add: new_pool_def pool_inv_def)
next
  case False
  then show ?thesis
    using PageEntryQueue_new_ok [of garbage n] by (simp add: new_pool_def pool_inv_def one_inv_def page_offsets_def)
qed

lemma count_page_offsets:
  assumes "1 \<le> n" "n \<le> 2 ^ 20" "0 < page_length" "page_length * 2 ^ 20 < 2 ^ 63"
  shows "count (page_offsets n page_length) off \<le> 1"
proof -
  let ?q = "FineLockPEQueue_new (\<lambda>_. undefined) n page_length"
  have q: "fl_q_size ?q = n" "offset_of ?q = (\<lambda>i. of_nat i * of_int page_length)"
    by (auto simp: offset_of_def FineLockPEQueue_new_def split: prod.splits)
  have "inj_on (\<lambda>i. of_nat i * of_int page_length :: u64) {..<n}"
    using offset_of_inj [OF FineLockPEQueue_new_wf [OF assms], of _ "\<lambda>_. undefined"] unfolding q by (auto intro!: inj_onI)
  then have "page_offsets n page_length = mset_set ((\<lambda>i. of_nat i * of_int page_length) ` {..<n})"
    by (simp add: page_offsets_def image_mset_mset_set)
  then show ?thesis by (simp add: count_mset_set')
qed

text \<open>\<open>taken os e pe\<close>: \<open>pe\<close> is the record \<open>e\<close> as a worker gets it, mapped at its address.\<close>

definition taken :: "os_layer \<Rightarrow> page_entry \<Rightarrow> page_entry \<Rightarrow> bool" where
  "taken os e pe \<longleftrightarrow> pe_offset pe = pe_offset e \<and> pe_pattern pe = pe_pattern e \<and> pe_tag pe = pe_tag e \<and>
     pe_addr pe = os_testmem os + pe_offset e"

lemma held_is_page:
  assumes "pool_inv pages p (add_mset off held)"
  shows "off \<in># pages"
proof -
  have "off \<in># image_mset pe_offset (pool_avail True p) + image_mset pe_offset (pool_avail False p) + add_mset off held"
    by simp
  then show ?thesis unfolding pools.partition [OF assms] .
qed

lemma PrepareTestMem_static:
  "os_maps os page_length pages \<Longrightarrow> off \<in># pages \<Longrightarrow>
   PrepareTestMem os ev off (of_int page_length) = Inr (os_testmem os + off) \<and> os_testmem os + off \<noteq> 0"
  by (auto simp: PrepareTestMem_def os_maps_def sat_assert_def)

lemma unmap_static: "os_maps os page_length pages \<Longrightarrow> unmap_page os page_length ev pe = Inr ()"
  by (simp add: unmap_page_def ReleaseTestMem_def os_maps_def)

lemma sat_get_cases:
  assumes inv: "pool_inv pages p held" and os: "os_maps os page_length pages"
  fixes ev want tag
  defines "get \<equiv> (if want then sat_GetValid else sat_GetEmpty) os page_length ev tag p"
  obtains p' where "get = Inr (None, p')" "pool_inv pages p' held" "pool_avail True p' = pool_avail True p"
      "pool_avail False p' = pool_avail False p" "tag = kDontCareTag \<Longrightarrow> pool_avail want p = {#}"
  | pe p' e where "get = Inr (Some pe, p')" "pool_inv pages p' (add_mset (pe_offset pe) held)" "taken os e pe"
      "pool_avail want p = add_mset e (pool_avail want p')" "pool_avail (\<not> want) p' = pool_avail (\<not> want) p"
      "pe_offset pe \<in># pages"
proof -
  obtain r p' where r: "pool_get ev want tag p = Inr (r, p')" using pools.get_total [OF inv] by blast
  show thesis
  proof (cases r)
    case None
    then have "get = Inr (None, p')" using r by (cases want) (simp_all add: get_def sat_GetValid_def sat_GetEmpty_def)
    then show thesis using that(1) pools.get_none [OF inv, of ev want tag p'] r None by blast
  next
    case (Some pe)
    obtain e where e: "pool_avail want p = add_mset e (pool_avail want p')" "pool_avail (\<not> want) p' = pool_avail (\<not> want) p"
      "same_page pe e" "pool_inv pages p' (add_mset (pe_offset pe) held)"
      using pools.get_some [OF inv, of ev want tag pe p'] r Some by blast
    note page = held_is_page [OF e(4)]
    note fields = same_page_fields [OF e(3)] PrepareTestMem_static [OF os page, of ev]
    let ?pe = "if want then pe\<lparr>pe_addr := os_testmem os + pe_offset pe, pe_ts := ev_timestamp ev, pe_lastpattern := pe_pattern pe\<rparr>
      else pe\<lparr>pe_addr := os_testmem os + pe_offset pe\<rparr>"
    have "get = Inr (Some ?pe, p')"
      using r Some fields by (cases want) (simp_all add: get_def sat_GetValid_def sat_GetEmpty_def)
    moreover have "taken os e ?pe" "pe_offset ?pe = pe_offset pe" using fields by (auto simp: taken_def)
    ultimately show thesis using that(2) [of ?pe p' e] e page by simp
  qed
qed

lemma sat_PutValid_ok:
  assumes inv: "pool_inv pages p (add_mset (pe_offset pe) held)" and os: "os_maps os page_length pages"
    and pat: "pe_pattern pe \<noteq> None"
  obtains p' where "sat_PutValid os page_length ev pe p = Inr (True, p')" "pool_inv pages p' held"
    "pool_avail True p' = add_mset (pe\<lparr>pe_addr := 0\<rparr>) (pool_avail True p)" "pool_avail False p' = pool_avail False p"
  using pools.put_valid_ok [of pages p "pe\<lparr>pe_addr := 0\<rparr>" held] assms unmap_static [OF os, of ev pe]
  by (auto simp: sat_PutValid_def)

lemma sat_PutEmpty_ok:
  assumes inv: "pool_inv pages p (add_mset (pe_offset pe) held)" and os: "os_maps os page_length pages"
  obtains p' e where "sat_PutEmpty os page_length ev pe p = Inr (True, p')" "pool_inv pages p' held"
    "pe_offset e = pe_offset pe" "pe_tag e = pe_tag pe"
    "pool_avail False p' = add_mset e (pool_avail False p)" "pool_avail True p' = pool_avail True p"
  using pools.put_empty_ok [of pages p "pe\<lparr>pe_addr := 0, pe_write_dram_frequency := - 1\<rparr>" held] assms
    unmap_static [OF os, of ev pe]
  by (auto simp: sat_PutEmpty_def)

section \<open>Any use of the pools\<close>

text \<open>
  What the threads of the program can do to a pool, whatever their interleaving: get a page, or put back a page
  they hold, its pattern and other fields changed at will. \<open>hs\<close> are the records held by threads.
\<close>

inductive pool_run :: "os_layer \<Rightarrow> int \<Rightarrow> pool \<times> page_entry list \<Rightarrow> pool \<times> page_entry list \<Rightarrow> bool" for os page_length where
  start: "pool_run os page_length s s"
| got_valid: "pool_run os page_length s (p, hs) \<Longrightarrow> sat_GetValid os page_length ev tag p = Inr (Some pe, p') \<Longrightarrow>
    pool_run os page_length s (p', pe # hs)"
| no_valid: "pool_run os page_length s (p, hs) \<Longrightarrow> sat_GetValid os page_length ev tag p = Inr (None, p') \<Longrightarrow>
    pool_run os page_length s (p', hs)"
| got_empty: "pool_run os page_length s (p, hs) \<Longrightarrow> sat_GetEmpty os page_length ev tag p = Inr (Some pe, p') \<Longrightarrow>
    pool_run os page_length s (p', pe # hs)"
| no_empty: "pool_run os page_length s (p, hs) \<Longrightarrow> sat_GetEmpty os page_length ev tag p = Inr (None, p') \<Longrightarrow>
    pool_run os page_length s (p', hs)"
| put_valid: "pool_run os page_length s (p, hs @ pe # hs') \<Longrightarrow> pe_offset pe' = pe_offset pe \<Longrightarrow> pe_pattern pe' \<noteq> None \<Longrightarrow>
    sat_PutValid os page_length ev pe' p = Inr (ok, p') \<Longrightarrow> pool_run os page_length s (p', hs @ hs')"
| put_empty: "pool_run os page_length s (p, hs @ pe # hs') \<Longrightarrow> pe_offset pe' = pe_offset pe \<Longrightarrow>
    sat_PutEmpty os page_length ev pe' p = Inr (ok, p') \<Longrightarrow> pool_run os page_length s (p', hs @ hs')"

lemma pool_run_inv:
  assumes "pool_run os page_length s s'" "os_maps os page_length pages"
    and "pool_inv pages (fst s) (mset (map pe_offset (snd s)))"
  shows "pool_inv pages (fst s') (mset (map pe_offset (snd s')))"
  using assms
proof (induction rule: pool_run.induct)
  case (got_valid s p hs ev tag pe p')
  then show ?case
    using sat_get_cases [of pages p "mset (map pe_offset hs)" os page_length True ev tag] by (auto simp del: mset_map)
next
  case (no_valid s p hs ev tag p')
  then show ?case
    using sat_get_cases [of pages p "mset (map pe_offset hs)" os page_length True ev tag] by (auto simp del: mset_map)
next
  case (got_empty s p hs ev tag pe p')
  then show ?case
    using sat_get_cases [of pages p "mset (map pe_offset hs)" os page_length False ev tag] by (auto simp del: mset_map)
next
  case (no_empty s p hs ev tag p')
  then show ?case
    using sat_get_cases [of pages p "mset (map pe_offset hs)" os page_length False ev tag] by (auto simp del: mset_map)
next
  case (put_valid s p hs pe hs' pe' ev ok p')
  then show ?case
    using sat_PutValid_ok [of pages p pe' "mset (map pe_offset (hs @ hs'))" os page_length ev] by auto
next
  case (put_empty s p hs pe hs' pe' ev ok p')
  then show ?case
    using sat_PutEmpty_ok [of pages p pe' "mset (map pe_offset (hs @ hs'))" os page_length ev] by auto
qed simp

lemma distinct_by_count: "(\<And>x. count (mset xs) x \<le> 1) \<Longrightarrow> distinct xs"
proof (induction xs)
  case (Cons y ys)
  have "count (mset ys) x \<le> count (mset (y # ys)) x" for x by simp
  then have "count (mset ys) x \<le> 1" for x using Cons.prems [of x] le_trans by blast
  moreover have "y \<notin> set ys" using Cons.prems [of y] by (simp add: count_eq_zero_iff)
  ultimately show ?case using Cons.IH by simp
qed simp

text \<open>
  C9. Pages are conserved and exclusive, in both implementations of the pools: start with the pages of a new pool
  handed out and let threads get and put pages in any order. At every moment each page is either held by one
  thread, or available once as a valid page, or available once as an empty page; every available valid page has a
  pattern; a request without a tag fails exactly when there is no page of the wanted kind; and a held page can
  always be put back.
\<close>

theorem pool_conserves:
  assumes size: "1 \<le> n" "n \<le> 2 ^ 20" "0 < page_length" "page_length * 2 ^ 20 < 2 ^ 63"
    and os: "os_maps os page_length (page_offsets n page_length)"
    and hs0: "map pe_offset hs0 = map (\<lambda>i. of_nat i * of_int page_length) [0..<n]"
    and run: "pool_run os page_length (new_pool fine garbage n page_length, hs0) (p, hs)"
  shows "image_mset pe_offset (pool_avail True p) + image_mset pe_offset (pool_avail False p) + mset (map pe_offset hs) =
      page_offsets n page_length \<and>
    distinct (map pe_offset hs) \<and> (\<forall>pe \<in># pool_avail True p. pe_pattern pe \<noteq> None) \<and>
    (\<exists>r p'. sat_GetValid os page_length ev kDontCareTag p = Inr (r, p') \<and> (r = None \<longleftrightarrow> pool_avail True p = {#})) \<and>
    (\<exists>r p'. sat_GetEmpty os page_length ev kDontCareTag p = Inr (r, p') \<and> (r = None \<longleftrightarrow> pool_avail False p = {#})) \<and>
    (\<forall>pe \<in> set hs. (\<exists>p'. sat_PutEmpty os page_length ev pe p = Inr (True, p')) \<and>
       (pe_pattern pe \<noteq> None \<longrightarrow> (\<exists>p'. sat_PutValid os page_length ev pe p = Inr (True, p'))))"
proof (intro conjI)
  let ?pages = "page_offsets n page_length" and ?held = "mset (map pe_offset hs)"
  have "mset (map pe_offset hs0) = ?pages"
    unfolding hs0 page_offsets_def by (simp add: mset_map atLeast0LessThan flip: mset_set_upto_eq_mset_upto)
  then have inv: "pool_inv ?pages p ?held"
    using pool_run_inv [OF run os] new_pool_inv [OF size] by simp
  show part: "image_mset pe_offset (pool_avail True p) + image_mset pe_offset (pool_avail False p) + ?held = ?pages"
    by (rule pools.partition [OF inv])
  have "?held \<subseteq># ?pages" unfolding part [symmetric] by simp
  then have "count ?held x \<le> 1" for x
    using count_page_offsets [OF size, of x] mset_subset_eq_count [of ?held ?pages x] by linarith
  then show "distinct (map pe_offset hs)" by (intro distinct_by_count) (simp del: mset_map)
  show "\<forall>pe \<in># pool_avail True p. pe_pattern pe \<noteq> None" using pools.valid_pattern [OF inv] by blast
  show "\<exists>r p'. sat_GetValid os page_length ev kDontCareTag p = Inr (r, p') \<and> (r = None \<longleftrightarrow> pool_avail True p = {#})"
    by (rule sat_get_cases [OF inv os, of True ev kDontCareTag]) auto
  show "\<exists>r p'. sat_GetEmpty os page_length ev kDontCareTag p = Inr (r, p') \<and> (r = None \<longleftrightarrow> pool_avail False p = {#})"
    by (rule sat_get_cases [OF inv os, of False ev kDontCareTag]) auto
  show "\<forall>pe \<in> set hs. (\<exists>p'. sat_PutEmpty os page_length ev pe p = Inr (True, p')) \<and>
       (pe_pattern pe \<noteq> None \<longrightarrow> (\<exists>p'. sat_PutValid os page_length ev pe p = Inr (True, p')))"
  proof (intro ballI conjI impI)
    fix pe assume "pe \<in> set hs"
    then have "?held = add_mset (pe_offset pe) (?held - {#pe_offset pe#})" by simp
    then have inv': "pool_inv ?pages p (add_mset (pe_offset pe) (?held - {#pe_offset pe#}))" using inv by simp
    show "\<exists>p'. sat_PutEmpty os page_length ev pe p = Inr (True, p')"
      by (rule sat_PutEmpty_ok [OF inv' os, of ev]) blast
    assume "pe_pattern pe \<noteq> None"
    then show "\<exists>p'. sat_PutValid os page_length ev pe p = Inr (True, p')"
      by (rule sat_PutValid_ok [OF inv' os, of ev]) blast
  qed
qed

section \<open>Concrete instances\<close>

definition ex_os :: os_layer where
  "ex_os = \<lparr>os_testmem = 0x10000, os_testmemsize = 4096, os_dynamic_mapped_shmem = False, os_page_size = 4096\<rparr>"

definition ex_env :: call_env where
  "ex_env = \<lparr>ev_random = 0, ev_busy = (\<lambda>_. False), ev_timestamp = 0, ev_mmap = (\<lambda>_ _. None), ev_munmap = (\<lambda>_ _. True)\<rparr>"

lemma ex_offsets: "page_offsets 1 4096 = {#0#}"
  by (simp add: page_offsets_def lessThan_Suc)

lemma ex_os_maps: "os_maps ex_os 4096 (page_offsets 1 4096)"
  unfolding ex_offsets by (simp add: os_maps_def ex_os_def)

theorem pool_conserves_witness:
  "\<exists>p. pool_run ex_os 4096 (new_pool False (\<lambda>_. blank_pe) 1 4096, [blank_pe]) (p, []) \<and> pool_avail True p = {#} \<and>
     (\<exists>pe p'. sat_GetEmpty ex_os 4096 ex_env kDontCareTag p = Inr (Some pe, p'))"
proof -
  let ?p0 = "new_pool False (\<lambda>_. blank_pe) 1 4096"
  have inv: "pool_inv (page_offsets 1 4096) ?p0 (page_offsets 1 4096)" by (rule new_pool_inv) simp_all
  have held: "page_offsets 1 4096 = add_mset (pe_offset blank_pe) {#}"
    unfolding ex_offsets by (simp add: blank_pe_def)
  obtain p e where put: "sat_PutEmpty ex_os 4096 ex_env blank_pe ?p0 = Inr (True, p)"
    "pool_avail False p = add_mset e (pool_avail False ?p0)" "pool_avail True p = pool_avail True ?p0"
    by (rule sat_PutEmpty_ok [OF inv [unfolded held] ex_os_maps [unfolded held], of ex_env])
  have run: "pool_run ex_os 4096 (?p0, [blank_pe]) (p, [])"
    using pool_run.put_empty [where hs = "[]" and hs' = "[]", OF _ refl put(1)] pool_run.start by force
  have none: "pool_avail True ?p0 = {#}"
    by (simp add: new_pool_def pool_avail_def one_bag_def PageEntryQueue_new_ok)
  obtain r p' where "sat_GetEmpty ex_os 4096 ex_env kDontCareTag p = Inr (r, p')" "r = None \<longleftrightarrow> pool_avail False p = {#}"
    using pool_conserves [OF _ _ _ _ ex_os_maps _ run, of ex_env] by (auto simp: blank_pe_def)
  then show ?thesis using run put none by (intro exI [of _ p]) auto
qed

end
