(* ===== verification/Invert.thy ===== *)
theory Invert
  imports SatPrelude
begin

text \<open>
  The inversion passes: \<^verbatim>\<open>src/src/invert_workload.h\<close>, \<open>Sat::invert_range_bytes\<close> of
  \<^verbatim>\<open>src/src/sat.h\<close> and \<open>InvertThread::InvertPageUp\<close> and \<open>InvertPageDown\<close> of \<^verbatim>\<open>src/src/worker.cc\<close>. A page is
  a list of 64-bit words; the passes see it as 32-bit words. The cache hints are recorded as the
  word indices they are called with.
\<close>

section \<open>The two loops\<close>

text \<open>
  The pointer is the index \<open>iter\<close>. A pointer that has passed \<open>end\<close> without meeting it runs out of the
  buffer; with \<open>interval = 0\<close> it never moves.
\<close>

primrec invert_run_up :: "nat \<Rightarrow> nat \<Rightarrow> u32 list \<Rightarrow> u32 list res" where
  "invert_run_up 0 iter mem = Inr mem"
| "invert_run_up (Suc n) iter mem =
     res_bind (rd mem iter) (\<lambda>v. res_bind (wr mem iter (NOT v)) (\<lambda>mem'.
       invert_run_up n (iter + 1) mem'))"

function invert_up_loop :: "nat \<Rightarrow> nat \<Rightarrow> nat \<Rightarrow> u32 list \<Rightarrow> nat list \<Rightarrow> (u32 list \<times> nat list) res" where
  "invert_up_loop interval iter stop mem hints =
     (if iter = stop then Inr (mem, hints)
      else if interval = 0 then Inl Diverged
      else if stop < iter then Inl OutOfBounds
      else res_bind (invert_run_up interval iter mem) (\<lambda>mem'.
             invert_up_loop interval (iter + interval) stop mem' (hints @ [iter])))"
  by pat_completeness auto
termination by (relation "measure (\<lambda>(interval, iter, stop, mem, hints). stop + interval - iter)") auto

definition InvertWordsUp :: "u32 list option \<Rightarrow> int \<Rightarrow> int \<Rightarrow> bool \<Rightarrow> (bool \<times> u32 list \<times> nat list) res" where
  "InvertWordsUp base words interval flush_hint =
     (case base of
        None \<Rightarrow> Inr (False, [], [])
      | Some mem \<Rightarrow>
          if words < 0 \<or> interval \<le> 0 \<or> words mod interval \<noteq> 0 \<or> \<not> flush_hint then Inr (False, mem, [])
          else res_bind (invert_up_loop (nat interval) 0 (nat words) mem [])
                 (\<lambda>(mem', hints). Inr (True, mem', hints)))"

text \<open>Downwards the pointer is decremented before each access; it cannot go below the buffer.\<close>

primrec invert_run_down :: "nat \<Rightarrow> nat \<Rightarrow> u32 list \<Rightarrow> u32 list res" where
  "invert_run_down 0 iter mem = Inr mem"
| "invert_run_down (Suc n) iter mem =
     (if iter = 0 then Inl OutOfBounds
      else res_bind (rd mem (iter - 1)) (\<lambda>v. res_bind (wr mem (iter - 1) (NOT v)) (\<lambda>mem'.
             invert_run_down n (iter - 1) mem')))"

function invert_down_loop :: "nat \<Rightarrow> nat \<Rightarrow> u32 list \<Rightarrow> nat list \<Rightarrow> (u32 list \<times> nat list) res" where
  "invert_down_loop interval iter mem hints =
     (if iter = 0 then Inr (mem, hints)
      else if interval = 0 then Inl Diverged
      else res_bind (invert_run_down interval iter mem) (\<lambda>mem'.
             invert_down_loop interval (iter - interval) mem' (hints @ [iter - interval])))"
  by pat_completeness auto
termination by (relation "measure (\<lambda>(interval, iter, mem, hints). iter)") auto

definition InvertWordsDown :: "u32 list option \<Rightarrow> int \<Rightarrow> int \<Rightarrow> bool \<Rightarrow> (bool \<times> u32 list \<times> nat list) res" where
  "InvertWordsDown base words interval flush_hint =
     (case base of
        None \<Rightarrow> Inr (False, [], [])
      | Some mem \<Rightarrow>
          if words < 0 \<or> interval \<le> 0 \<or> words mod interval \<noteq> 0 \<or> \<not> flush_hint then Inr (False, mem, [])
          else res_bind (invert_down_loop (nat interval) (nat words) mem [])
                 (\<lambda>(mem', hints). Inr (True, mem', hints)))"

declare invert_up_loop.simps [simp del] invert_down_loop.simps [simp del]

section \<open>What a pass does\<close>

definition invert_words :: "nat \<Rightarrow> u32 list \<Rightarrow> u32 list" where
  "invert_words n mem = map NOT (take n mem) @ drop n mem"

lemma length_invert_words [simp]: "length (invert_words n mem) = length mem"
  by (simp add: invert_words_def)

lemma nth_invert_words:
  "i < length mem \<Longrightarrow> invert_words n mem ! i = (if i < n then NOT (mem ! i) else mem ! i)"
  by (auto simp: invert_words_def nth_append)

lemma invert_words_twice: "invert_words n (invert_words n mem) = mem"
  by (rule nth_equalityI) (simp_all add: nth_invert_words)

text \<open>Inverting the words \<open>i..<j\<close>.\<close>

definition invert_range :: "nat \<Rightarrow> nat \<Rightarrow> u32 list \<Rightarrow> u32 list" where
  "invert_range i j mem = map (\<lambda>k. if i \<le> k \<and> k < j then NOT (mem ! k) else mem ! k) [0..<length mem]"

lemma length_invert_range [simp]: "length (invert_range i j mem) = length mem"
  by (simp add: invert_range_def)

lemma nth_invert_range:
  "k < length mem \<Longrightarrow> invert_range i j mem ! k = (if i \<le> k \<and> k < j then NOT (mem ! k) else mem ! k)"
  by (simp add: invert_range_def)

lemma invert_range_empty [simp]: "j \<le> i \<Longrightarrow> invert_range i j mem = mem"
  by (rule nth_equalityI) (auto simp: nth_invert_range)

lemma invert_range_join:
  "i \<le> j \<Longrightarrow> j \<le> k \<Longrightarrow> invert_range j k (invert_range i j mem) = invert_range i k mem"
  "i \<le> j \<Longrightarrow> j \<le> k \<Longrightarrow> invert_range i j (invert_range j k mem) = invert_range i k mem"
  by (rule nth_equalityI; auto simp: nth_invert_range)+

lemma invert_range_one: "i < length mem \<Longrightarrow> mem[i := NOT (mem ! i)] = invert_range i (Suc i) mem"
  by (rule nth_equalityI) (auto simp: nth_invert_range nth_list_update)

lemma invert_range_0: "invert_range 0 n mem = invert_words n mem"
  by (rule nth_equalityI) (auto simp: nth_invert_range nth_invert_words)

lemma invert_run_up_eq:
  "iter + n \<le> length mem \<Longrightarrow> invert_run_up n iter mem = Inr (invert_range iter (iter + n) mem)"
proof (induction n arbitrary: iter mem)
  case (Suc n)
  then show ?case
    using Suc.IH [of "iter + 1" "invert_range iter (Suc iter) mem"]
    by (simp add: invert_range_one invert_range_join(1))
qed simp

lemma invert_run_down_eq:
  "n \<le> iter \<Longrightarrow> iter \<le> length mem \<Longrightarrow> invert_run_down n iter mem = Inr (invert_range (iter - n) iter mem)"
proof (induction n arbitrary: iter mem)
  case (Suc n)
  then have "mem[iter - 1 := NOT (mem ! (iter - 1))] = invert_range (iter - 1) iter mem"
    using invert_range_one [of "iter - 1" mem] by simp
  then show ?case
    using Suc.prems Suc.IH [of "iter - 1" "invert_range (iter - 1) iter mem"]
    by (simp add: invert_range_join(2))
qed simp

lemma invert_up_loop_eq:
  assumes "0 < k"
  shows "iter + n * k \<le> length mem \<Longrightarrow>
    invert_up_loop k iter (iter + n * k) mem hints =
      Inr (invert_range iter (iter + n * k) mem, hints @ map (\<lambda>i. iter + i * k) [0..<n])"
proof (induction n arbitrary: iter mem hints)
  case 0
  then show ?case by (simp add: invert_up_loop.simps)
next
  case (Suc n)
  let ?mem = "invert_range iter (iter + k) mem"
  have "invert_up_loop k iter (iter + Suc n * k) mem hints =
      invert_up_loop k (iter + k) ((iter + k) + n * k) ?mem (hints @ [iter])"
    using Suc.prems assms
    by (subst invert_up_loop.simps) (simp add: invert_run_up_eq add.assoc)
  also have "\<dots> = Inr (invert_range iter (iter + Suc n * k) mem,
      hints @ iter # map (\<lambda>i. iter + k + i * k) [0..<n])"
    using Suc.prems Suc.IH [of "iter + k" ?mem] by (simp add: invert_range_join(1) add.assoc)
  also have "iter # map (\<lambda>i. iter + k + i * k) [0..<n] = map (\<lambda>i. iter + i * k) [0..<Suc n]"
    by (simp add: upt_conv_Cons map_Suc_upt [symmetric] add.assoc del: upt_Suc)
  finally show ?case .
qed

lemma invert_down_loop_eq:
  assumes "0 < k"
  shows "n * k \<le> length mem \<Longrightarrow>
    invert_down_loop k (n * k) mem hints =
      Inr (invert_range 0 (n * k) mem, hints @ rev (map (\<lambda>i. i * k) [0..<n]))"
proof (induction n arbitrary: mem hints)
  case 0
  then show ?case by (simp add: invert_down_loop.simps)
next
  case (Suc n)
  let ?mem = "invert_range (n * k) (Suc n * k) mem"
  have "invert_down_loop k (Suc n * k) mem hints = invert_down_loop k (n * k) ?mem (hints @ [n * k])"
    using Suc.prems assms by (subst invert_down_loop.simps) (simp add: invert_run_down_eq)
  also have "\<dots> = Inr (invert_range 0 (Suc n * k) mem, (hints @ [n * k]) @ rev (map (\<lambda>i. i * k) [0..<n]))"
    using Suc.prems Suc.IH [of ?mem "hints @ [n * k]"] by (simp add: invert_range_join(2))
  finally show ?case by simp
qed

section \<open>Pages\<close>

definition halves :: "u64 list \<Rightarrow> u32 list" where
  "halves ws = concat (map (\<lambda>w. [l32_l w, l32_h w]) ws)"

fun joined :: "u32 list \<Rightarrow> u64 list" where
  "joined (l # h # xs) = l64_of l h # joined xs"
| "joined _ = []"

lemma joined_halves [simp]: "joined (halves ws) = ws"
  by (induction ws) (simp_all add: halves_def)

lemma length_halves [simp]: "length (halves ws) = 2 * length ws"
  by (induction ws) (simp_all add: halves_def)

datatype InvertRange = INVERT_RANGE_LEGACY | INVERT_RANGE_FULL

definition invert_range_bytes :: "InvertRange \<Rightarrow> int \<Rightarrow> int" where
  "invert_range_bytes rng page_length =
     (case rng of
        INVERT_RANGE_FULL \<Rightarrow> page_length
      | INVERT_RANGE_LEGACY \<Rightarrow> (page_length div 4096) * (4096 div 8) * 4)"

definition kCacheLineSize :: int where
  "kCacheLineSize = 64"

text \<open>A pass over a page, with the \<open>sat_assert\<close> on the loop's result.\<close>

definition InvertPageUp :: "InvertRange \<Rightarrow> int \<Rightarrow> u64 list \<Rightarrow> u64 list res" where
  "InvertPageUp rng page_length page =
     res_bind (InvertWordsUp (Some (halves page)) (invert_range_bytes rng page_length div 4)
                 (kCacheLineSize div 4) True)
       (\<lambda>(inverted, mem, hints). res_bind (sat_assert inverted) (\<lambda>_. Inr (joined mem)))"

definition InvertPageDown :: "InvertRange \<Rightarrow> int \<Rightarrow> u64 list \<Rightarrow> u64 list res" where
  "InvertPageDown rng page_length page =
     res_bind (InvertWordsDown (Some (halves page)) (invert_range_bytes rng page_length div 4)
                 (kCacheLineSize div 4) True)
       (\<lambda>(inverted, mem, hints). res_bind (sat_assert inverted) (\<lambda>_. Inr (joined mem)))"

text \<open>The four passes of one iteration of \<open>InvertThread::Work\<close>.\<close>

definition invert_four :: "InvertRange \<Rightarrow> int \<Rightarrow> u64 list \<Rightarrow> u64 list res" where
  "invert_four rng page_length page =
     res_bind (InvertPageUp rng page_length page) (\<lambda>p1.
     res_bind (InvertPageDown rng page_length p1) (\<lambda>p2.
     res_bind (InvertPageDown rng page_length p2) (\<lambda>p3.
     InvertPageUp rng page_length p3)))"

section \<open>Properties\<close>

lemma InvertWords_aux:
  assumes "0 \<le> words" "nat words \<le> length mem" "0 < interval" "interval dvd words"
  shows "InvertWordsUp (Some mem) words interval True =
           Inr (True, invert_words (nat words) mem,
                map (\<lambda>i. i * nat interval) [0..<nat words div nat interval])"
    "InvertWordsDown (Some mem) words interval True =
           Inr (True, invert_words (nat words) mem,
                rev (map (\<lambda>i. i * nat interval) [0..<nat words div nat interval]))"
proof -
  define n where "n = nat words div nat interval"
  obtain m where "words = interval * m" using assms(4) by (rule dvdE)
  then have "nat interval dvd nat words" using assms(1,3) by (simp add: nat_mult_distrib)
  then have w: "nat words = n * nat interval" by (simp add: n_def)
  have up: "invert_up_loop (nat interval) 0 (nat words) mem [] =
      Inr (invert_words (nat words) mem, map (\<lambda>i. i * nat interval) [0..<n])"
    and down: "invert_down_loop (nat interval) (nat words) mem [] =
      Inr (invert_words (nat words) mem, rev (map (\<lambda>i. i * nat interval) [0..<n]))"
    using assms(2,3) invert_up_loop_eq [of "nat interval" 0 n mem "[]"]
      invert_down_loop_eq [of "nat interval" n mem "[]"]
    by (simp_all add: w invert_range_0)
  have "words mod interval = 0" using assms(4) by simp
  then show "InvertWordsUp (Some mem) words interval True =
           Inr (True, invert_words (nat words) mem,
                map (\<lambda>i. i * nat interval) [0..<nat words div nat interval])"
    "InvertWordsDown (Some mem) words interval True =
           Inr (True, invert_words (nat words) mem,
                rev (map (\<lambda>i. i * nat interval) [0..<nat words div nat interval]))"
    using assms(1,3) up down by (simp_all add: InvertWordsUp_def InvertWordsDown_def n_def [symmetric])
qed

text \<open>
  Both passes invert exactly the first \<open>words\<close> 32-bit words of the buffer and leave the rest
  alone, for every buffer that is long enough and every positive flush interval dividing \<open>words\<close>;
  the upward pass hints each block's first word in increasing order, the downward pass in decreasing
  order. With a null buffer, a null hint, a negative length or an interval that does not divide
  it nothing is written and the result is false.
\<close>

lemma InvertWords_correct:
  assumes "0 \<le> words" "nat words \<le> length mem" "0 < interval" "interval dvd words"
  shows "InvertWordsUp (Some mem) words interval True =
           Inr (True, invert_words (nat words) mem,
                map (\<lambda>i. i * nat interval) [0..<nat words div nat interval]) \<and>
         InvertWordsDown (Some mem) words interval True =
           Inr (True, invert_words (nat words) mem,
                rev (map (\<lambda>i. i * nat interval) [0..<nat words div nat interval])) \<and>
         InvertWordsUp (Some mem) words interval False = Inr (False, mem, []) \<and>
         InvertWordsDown (Some mem) words interval False = Inr (False, mem, [])"
  using InvertWords_aux [OF assms] by (simp add: InvertWordsUp_def InvertWordsDown_def)

definition invert_page :: "nat \<Rightarrow> u64 list \<Rightarrow> u64 list" where
  "invert_page n page = map NOT (take n page) @ drop n page"

lemma NOT_halves: "NOT (l32_l w) = l32_l (NOT w)" "NOT (l32_h w) = l32_h (NOT w)"
  by (rule bit_eqI; auto simp: l32_l_def l32_h_def bit_simps)+

lemma invert_words_halves: "invert_words (2 * n) (halves page) = halves (invert_page n page)"
proof (induction n arbitrary: page)
  case 0
  then show ?case by (simp add: invert_words_def invert_page_def)
next
  case (Suc n)
  then show ?case
    by (cases page) (simp_all add: invert_words_def invert_page_def halves_def NOT_halves)
qed

lemma length_invert_page [simp]: "length (invert_page n page) = length page"
  by (simp add: invert_page_def)

lemma invert_page_twice [simp]: "invert_page n (invert_page n page) = page"
  by (rule nth_equalityI) (auto simp: invert_page_def nth_append)

text \<open>The number of 64-bit words a pass covers, for a page of a whole number of 64-byte lines.\<close>

lemma invert_range_words:
  assumes "page_length = 8 * int (length page)" "64 dvd page_length"
  obtains n where "invert_range_bytes rng page_length div 4 = int (2 * n)" "n \<le> length page"
    "16 dvd 2 * int n" "invert_range_bytes rng page_length = 8 * int n"
proof (cases rng)
  case INVERT_RANGE_FULL
  have "16 dvd 2 * int (length page)" using assms by presburger
  then show ?thesis using that [of "length page"] assms(1) INVERT_RANGE_FULL
    by (simp add: invert_range_bytes_def)
next
  case INVERT_RANGE_LEGACY
  let ?n = "nat (page_length div 4096 * 256)"
  have nonneg: "0 \<le> page_length div 4096" using assms(1) by simp
  have "page_length div 4096 * 4096 \<le> page_length" by (simp add: minus_mod_eq_div_mult [symmetric])
  then have "page_length div 4096 * 256 \<le> int (length page)" using assms(1) by linarith
  then show ?thesis using that [of ?n] nonneg INVERT_RANGE_LEGACY
    by (simp add: invert_range_bytes_def nat_le_iff)
qed

lemma InvertPage_eq:
  assumes "page_length = 8 * int (length page)" "64 dvd page_length"
  shows "InvertPageUp rng page_length page =
           Inr (invert_page (nat (invert_range_bytes rng page_length div 8)) page)"
    "InvertPageDown rng page_length page =
           Inr (invert_page (nat (invert_range_bytes rng page_length div 8)) page)"
proof -
  obtain n where n: "invert_range_bytes rng page_length div 4 = int (2 * n)" "n \<le> length page"
    "16 dvd 2 * int n" "invert_range_bytes rng page_length = 8 * int n"
    using invert_range_words [OF assms] by blast
  have passes: "InvertWordsUp (Some (halves page)) (int (2 * n)) 16 True =
      Inr (True, invert_words (2 * n) (halves page), map (\<lambda>i. i * 16) [0..<2 * n div 16])"
    "InvertWordsDown (Some (halves page)) (int (2 * n)) 16 True =
      Inr (True, invert_words (2 * n) (halves page), rev (map (\<lambda>i. i * 16) [0..<2 * n div 16]))"
    using n(2,3) InvertWords_aux [of "int (2 * n)" "halves page" 16] by (simp_all add: nat_mult_distrib)
  then show "InvertPageUp rng page_length page =
           Inr (invert_page (nat (invert_range_bytes rng page_length div 8)) page)"
    "InvertPageDown rng page_length page =
           Inr (invert_page (nat (invert_range_bytes rng page_length div 8)) page)"
    using n(4) unfolding InvertPageUp_def InvertPageDown_def n(1)
    by (simp_all add: kCacheLineSize_def invert_words_halves)
qed

lemma invert_four_id:
  "page_length = 8 * int (length page) \<Longrightarrow> 64 dvd page_length \<Longrightarrow> invert_four rng page_length page = Inr page"
  by (simp add: invert_four_def InvertPage_eq)

text \<open>
  C40. One iteration of the invert thread leaves every page as it was: the up, down, down, up passes
  succeed (no assertion fails, no access leaves the page) and restore all the words, in the
  full and in the legacy range, for any page whose length is a multiple of the cache line; after the first
  pass exactly the words in the range are inverted.
\<close>

theorem invert_four_restores:
  assumes "page_length = 8 * int (length page)" "64 dvd page_length"
  shows "invert_four rng page_length page = Inr page \<and>
    InvertPageUp rng page_length page =
      Inr (invert_page (nat (invert_range_bytes rng page_length div 8)) page) \<and>
    InvertPageDown rng page_length page = InvertPageUp rng page_length page"
  using assms by (simp add: invert_four_id InvertPage_eq)

text \<open>
  The legacy range covers at most half of a page, and nothing of a page shorter than 4096
  bytes: with \<open>--invert-range legacy\<close> and a page size of 1024 or 2048 the invert thread changes no word.
\<close>

theorem legacy_range_half:
  assumes "0 \<le> page_length"
  shows "2 * invert_range_bytes INVERT_RANGE_LEGACY page_length \<le> page_length \<and>
    (4096 dvd page_length \<longrightarrow> 2 * invert_range_bytes INVERT_RANGE_LEGACY page_length = page_length) \<and>
    (page_length < 4096 \<longrightarrow> invert_range_bytes INVERT_RANGE_LEGACY page_length = 0)"
  using assms by (auto simp: invert_range_bytes_def minus_mod_eq_div_mult [symmetric] div_pos_pos_trivial)

section \<open>Concrete instances\<close>

theorem InvertWords_correct_witness:
  "InvertWordsUp (Some [1, 2, 3, 4]) 4 2 True = Inr (True, [NOT 1, NOT 2, NOT 3, NOT 4], [0, 2]) \<and>
   InvertWordsDown (Some [1, 2, 3, 4]) 4 2 True = Inr (True, [NOT 1, NOT 2, NOT 3, NOT 4], [2, 0])"
proof -
  have two: "[0..<2] = [0, 1 :: nat]" by (simp add: upt_rec)
  show ?thesis
    using InvertWords_correct [of 4 "[1, 2, 3, 4]" 2] by (simp add: invert_words_def two)
qed

theorem invert_four_restores_witness:
  "invert_four INVERT_RANGE_FULL 64 (replicate 8 5) = Inr (replicate 8 5) \<and>
   InvertPageUp INVERT_RANGE_FULL 64 (replicate 8 5) = Inr (map NOT (replicate 8 5))"
  using invert_four_restores [of 64 "replicate 8 5" INVERT_RANGE_FULL]
  by (simp add: invert_page_def invert_range_bytes_def)

theorem legacy_range_half_witness:
  "invert_range_bytes INVERT_RANGE_LEGACY 4096 = 2048 \<and> invert_range_bytes INVERT_RANGE_LEGACY 2048 = 0"
  using legacy_range_half [of 4096] legacy_range_half [of 2048] by simp

end
