(* ===== verification/Workers.thy ===== *)
theory Workers
  imports PageCopy SatPool Invert
begin

text \<open>
  The memory workers: the loops \<open>FillThread::Work\<close>, \<open>CheckThread::Work\<close>, \<open>CopyThread::Work\<close> and
  \<open>InvertThread::Work\<close> of \<^verbatim>\<open>src/src/worker.cc\<close>, each as a machine whose steps are the stretches of its loop between
  two points where other threads can interfere: taking a page, working on pages it holds, and putting
  a page back. Any number of workers share the pools, the test memory and the global error state; the steps of
  different workers interleave in any order.
\<close>

section \<open>Settings and state\<close>

datatype FillPreset = FILL_PRESET_NONE | FILL_PRESET_ZERO | FILL_PRESET_ONE

text \<open>
  The settings of a run. \<open>sc_cfg\<close> is what the page operations read; \<open>sc_warm_copy\<close> the copy routine of the platform
  behind \<open>OsLayer::AdlerMemcpyWarm\<close>.
\<close>

record settings =
  sc_cfg :: config
  sc_os :: os_layer
  sc_warm :: bool
  sc_strict :: bool
  sc_warm_copy :: copy_fun
  sc_copy_verify_destination :: bool
  sc_error_injection :: bool
  sc_invert_range :: InvertRange
  sc_diag_phase_summary :: bool
  sc_diag_block_history :: bool
  sc_fill_preset :: FillPreset
  sc_fill_verify_every :: int
  sc_skip_final_check :: bool
  sc_final_check_threads_explicit :: bool

text \<open>
  What the outside world answers during one step: the calls on the pools, whether \<open>IsReadyToRun\<close> holds, the CPU,
  the requested memory frequency, its epoch before and after the step's writes, the clock, the value of \<open>random()\<close> for
  the pattern and the byte an error injection hits.
\<close>

record step_env =
  se_call :: call_env
  se_ready :: bool
  se_cpu :: u32
  se_frequency :: int
  se_now :: int
  se_epoch_begin :: u64
  se_epoch :: u64
  se_random :: nat
  se_inject :: "nat option"

text \<open>
  The shared state: the pools, the test memory in 64-bit words, the pattern list, the error state that all workers
  share (the fields of \<open>worker\<close> other than the error count and the statistics) and the block history.
\<close>

record sat =
  sat_pool :: pool
  sat_mem :: "u64 list"
  sat_patternlist :: PatternList
  sat_shared :: worker
  sat_history :: "BlockHistory list option"

datatype thread_kind =
    FillThread bool int
  | CheckThread string
  | CopyThread
  | InvertThread

text \<open>
  Where a worker is in its loop, with the records it holds. \<open>Passed k epoch\<close>: \<open>k\<close> of the four inversions
  are done, the first of them began in that epoch.
\<close>

datatype pc =
    LoopHead
  | HavePage page_entry
  | HaveBoth page_entry page_entry
  | Passed nat u64 page_entry
  | Processed page_entry
  | Transferred page_entry page_entry
  | DstReturned bool page_entry
  | Finished bool

record thread =
  th_kind :: thread_kind
  th_num :: int
  th_tag :: u32
  th_pc :: pc
  th_loops :: int
  th_draining :: bool
  th_errorcount :: int
  th_diag :: diag

text \<open>A worker when \<open>Work\<close> begins.\<close>

definition new_thread :: "thread_kind \<Rightarrow> int \<Rightarrow> u32 \<Rightarrow> diag \<Rightarrow> thread" where
  "new_thread kind num tag diag = \<lparr>th_kind = kind, th_num = num, th_tag = tag, th_pc = LoopHead, th_loops = 0,
     th_draining = (kind = CheckThread ''final_check''), th_errorcount = 0, th_diag = diag\<rparr>"

section \<open>Pages in the test memory\<close>

definition page_words :: "settings \<Rightarrow> nat" where
  "page_words sc = nat (cf_page_length (sc_cfg sc)) div 8"

definition page_start :: "page_entry \<Rightarrow> nat" where
  "page_start pe = unat (pe_offset pe) div 8"

definition load_page :: "settings \<Rightarrow> page_entry \<Rightarrow> u64 list \<Rightarrow> u64 list" where
  "load_page sc pe mem = take (page_words sc) (drop (page_start pe) mem)"

definition store_page :: "page_entry \<Rightarrow> u64 list \<Rightarrow> u64 list \<Rightarrow> u64 list" where
  "store_page pe xs mem = take (page_start pe) mem @ xs @ drop (page_start pe + length xs) mem"

section \<open>What the steps share\<close>

definition now_cfg :: "settings \<Rightarrow> step_env \<Rightarrow> config" where
  "now_cfg sc env = (sc_cfg sc)\<lparr>cf_cpu := se_cpu env, cf_frequency := se_frequency env, cf_now := se_now env,
     cf_epoch := se_epoch env\<rparr>"

text \<open>The worker the page operations see: the shared error state with the thread's own counters.\<close>

definition as_worker :: "thread \<Rightarrow> sat \<Rightarrow> worker" where
  "as_worker th s = (sat_shared s)\<lparr>w_errorcount := th_errorcount th, w_diag := th_diag th\<rparr>"

definition from_worker :: "worker \<Rightarrow> thread \<times> sat \<Rightarrow> thread \<times> sat" where
  "from_worker w = (\<lambda>(th, s).
     (th\<lparr>th_errorcount := w_errorcount w, th_diag := w_diag w\<rparr>,
      s\<lparr>sat_shared := w\<lparr>w_errorcount := w_errorcount (sat_shared s), w_diag := w_diag (sat_shared s)\<rparr>\<rparr>))"

definition error_stop_requested :: "settings \<Rightarrow> sat \<Rightarrow> bool" where
  "error_stop_requested sc s \<longleftrightarrow> cf_stop_on_error (sc_cfg sc) \<and> w_stop (sat_shared s)"

definition legacy_final_check_mode :: "settings \<Rightarrow> bool" where
  "legacy_final_check_mode sc \<longleftrightarrow> \<not> sc_skip_final_check sc \<and> \<not> sc_final_check_threads_explicit sc"

definition note_operation ::
    "settings \<Rightarrow> step_env \<Rightarrow> DiagnosticPhase \<Rightarrow> int \<Rightarrow> int \<Rightarrow> nat \<Rightarrow> thread \<Rightarrow> thread" where
  "note_operation sc env phase rbytes wbytes errors th =
     (if sc_diag_phase_summary sc
      then th\<lparr>th_diag := RecordDiagnosticOperation (se_now env) (se_epoch env) phase (of_int rbytes) (of_int wbytes)
                           (int errors) (th_diag th)\<rparr>
      else th)"

definition note_write :: "settings \<Rightarrow> step_env \<Rightarrow> u64 \<Rightarrow> thread \<Rightarrow> u64 \<Rightarrow> BlockWriter \<Rightarrow> sat \<Rightarrow> sat" where
  "note_write sc env epoch_begin th offset writer s =
     (if sc_diag_block_history sc
      then s\<lparr>sat_history := RecordBlockWrite True (cf_page_length (sc_cfg sc)) (se_now env) offset writer (th_num th)
                              (uint (se_cpu env)) epoch_begin (se_epoch env) (sat_history s)\<rparr>
      else s)"

text \<open>\<open>CrcCheckPage\<close> on a page of the test memory; the result is the number of errors.\<close>

definition check_page ::
    "settings \<Rightarrow> step_env \<Rightarrow> string \<Rightarrow> string \<Rightarrow> page_entry \<Rightarrow> thread \<times> sat \<Rightarrow> (nat \<times> thread \<times> sat) res" where
  "check_page sc env name phase pe = (\<lambda>(th, s).
     res_bind (CrcCheckPage (now_cfg sc env) (patterns (sat_patternlist s)) pe name phase
                 (load_page sc pe (sat_mem s), as_worker th s))
       (\<lambda>(errors, page, w).
          Inr (errors, from_worker w (th, s\<lparr>sat_mem := store_page pe page (sat_mem s)\<rparr>))))"

definition get_valid :: "settings \<Rightarrow> step_env \<Rightarrow> u32 \<Rightarrow> sat \<Rightarrow> (page_entry option \<times> sat) res" where
  "get_valid sc env tag s =
     res_bind (sat_GetValid (sc_os sc) (cf_page_length (sc_cfg sc)) (se_call env) tag (sat_pool s))
       (\<lambda>(r, p). Inr (r, s\<lparr>sat_pool := p\<rparr>))"

definition get_empty :: "settings \<Rightarrow> step_env \<Rightarrow> u32 \<Rightarrow> sat \<Rightarrow> (page_entry option \<times> sat) res" where
  "get_empty sc env tag s =
     res_bind (sat_GetEmpty (sc_os sc) (cf_page_length (sc_cfg sc)) (se_call env) tag (sat_pool s))
       (\<lambda>(r, p). Inr (r, s\<lparr>sat_pool := p\<rparr>))"

definition put_valid :: "settings \<Rightarrow> step_env \<Rightarrow> page_entry \<Rightarrow> sat \<Rightarrow> (bool \<times> sat) res" where
  "put_valid sc env pe s =
     res_bind (sat_PutValid (sc_os sc) (cf_page_length (sc_cfg sc)) (se_call env) pe (sat_pool s))
       (\<lambda>(ok, p). Inr (ok, s\<lparr>sat_pool := p\<rparr>))"

definition put_empty :: "settings \<Rightarrow> step_env \<Rightarrow> page_entry \<Rightarrow> sat \<Rightarrow> (bool \<times> sat) res" where
  "put_empty sc env pe s =
     res_bind (sat_PutEmpty (sc_os sc) (cf_page_length (sc_cfg sc)) (se_call env) pe (sat_pool s))
       (\<lambda>(ok, p). Inr (ok, s\<lparr>sat_pool := p\<rparr>))"

text \<open>After a page went back: the next round, or the end of the loop if that failed.\<close>

definition next_round :: "bool \<Rightarrow> thread \<Rightarrow> thread" where
  "next_round ok th = (if ok then th\<lparr>th_pc := LoopHead, th_loops := th_loops th + 1\<rparr> else th\<lparr>th_pc := Finished False\<rparr>)"

section \<open>Filling\<close>

text \<open>\<open>FillPageRandom\<close>: the record, the page, the pattern list and whether it succeeded.\<close>

definition FillPageRandom ::
    "settings \<Rightarrow> step_env \<Rightarrow> bool \<Rightarrow> page_entry \<Rightarrow> u64 list \<Rightarrow> PatternList \<Rightarrow>
     (bool \<times> page_entry \<times> u64 list \<times> PatternList) res" where
  "FillPageRandom sc env preset_only pe page pl =
     (let cfg = now_cfg sc env
      in if preset_only then
           let pe' = pe\<lparr>pe_pattern := GetPattern pl 0\<rparr>
           in (case sc_fill_preset sc of
                 FILL_PRESET_ZERO \<Rightarrow> res_bind (FillPageWithConstant cfg 0 page) (\<lambda>page'. Inr (True, pe', page', pl))
               | FILL_PRESET_ONE \<Rightarrow> res_bind (FillPageWithConstant cfg (- 1) page) (\<lambda>page'. Inr (True, pe', page', pl))
               | FILL_PRESET_NONE \<Rightarrow> Inr (False, pe', page, pl))
         else if pl_size pl = 0 then Inr (False, pe, page, pl)
         else res_bind (GetRandomPattern pl (se_random env)) (\<lambda>(pattern, pl').
           let pe' = pe\<lparr>pe_pattern := pattern, pe_lastcpu := cf_cpu cfg\<rparr>
           in if pattern = None then Inr (False, pe', page, pl')
              else res_bind (FillPage cfg (patterns pl') pe' page) (\<lambda>(pe'', page'). Inr (True, pe'', page', pl'))))"

definition ShouldVerifyFilledPage :: "settings \<Rightarrow> u64 \<Rightarrow> bool" where
  "ShouldVerifyFilledPage sc page_offset =
     (if sc_fill_verify_every sc \<le> 0 then False
      else (page_offset div of_int (cf_page_length (sc_cfg sc)) + 1) mod of_int (sc_fill_verify_every sc) = 0)"

definition fill_process :: "settings \<Rightarrow> step_env \<Rightarrow> bool \<Rightarrow> page_entry \<Rightarrow> thread \<times> sat \<Rightarrow> (thread \<times> sat) res" where
  "fill_process sc env preset_only pe = (\<lambda>(th, s).
     res_bind (FillPageRandom sc env preset_only pe (load_page sc pe (sat_mem s)) (sat_patternlist s))
       (\<lambda>(ok, pe', page, pl).
          let s1 = s\<lparr>sat_mem := store_page pe page (sat_mem s), sat_patternlist := pl\<rparr>
          in if \<not> ok then Inr (th\<lparr>th_pc := Finished False\<rparr>, s1)
             else
               let s2 = note_write sc env (se_epoch_begin env) th (pe_offset pe')
                          (if preset_only then BLOCK_WRITER_PRESET else BLOCK_WRITER_INITIAL_FILL) s1;
                   th2 = note_operation sc env (if preset_only then DIAG_PHASE_PRESET_FILL else DIAG_PHASE_INITIAL_FILL)
                           0 (cf_page_length (sc_cfg sc)) 0 th
               in if \<not> preset_only \<and> \<not> error_stop_requested sc s2 \<and> ShouldVerifyFilledPage sc (pe_offset pe')
                  then res_bind (check_page sc env ''fill'' ''immediate_check'' pe' (th2, s2)) (\<lambda>(errors, th3, s3).
                    Inr ((note_operation sc env DIAG_PHASE_FILL_IMMEDIATE_CHECK (cf_page_length (sc_cfg sc)) 0 errors th3)
                           \<lparr>th_pc := Processed pe'\<rparr>, s3))
                  else Inr (th2\<lparr>th_pc := Processed pe'\<rparr>, s2)))"

definition FillThread_step :: "settings \<Rightarrow> step_env \<Rightarrow> bool \<Rightarrow> int \<Rightarrow> thread \<times> sat \<Rightarrow> (thread \<times> sat) res" where
  "FillThread_step sc env preset_only num_pages_to_fill = (\<lambda>(th, s).
     case th_pc th of
       LoopHead \<Rightarrow>
         if se_ready env \<and> th_loops th < num_pages_to_fill
         then res_bind (get_empty sc env kDontCareTag s) (\<lambda>(r, s'). Inr (case r of
                None \<Rightarrow> (th\<lparr>th_pc := Finished False\<rparr>, s')
              | Some pe \<Rightarrow> (th\<lparr>th_pc := HavePage pe\<rparr>, s')))
         else Inr (th\<lparr>th_pc := Finished True\<rparr>, s)
     | HavePage pe \<Rightarrow> fill_process sc env preset_only pe (th, s)
     | Processed pe \<Rightarrow> res_bind (put_valid sc env pe s) (\<lambda>(ok, s'). Inr (next_round ok th, s'))
     | _ \<Rightarrow> Inr (th, s))"

section \<open>Checking\<close>

definition CheckThread_step :: "settings \<Rightarrow> step_env \<Rightarrow> string \<Rightarrow> thread \<times> sat \<Rightarrow> (thread \<times> sat) res" where
  "CheckThread_step sc env check_phase = (\<lambda>(th, s).
     let final_check = (check_phase = ''final_check'');
         legacy_final_check = (\<not> final_check \<and> legacy_final_check_mode sc)
     in case th_pc th of
          LoopHead \<Rightarrow>
            if error_stop_requested sc s then Inr (th\<lparr>th_pc := Finished True\<rparr>, s)
            else if \<not> final_check \<and> \<not> legacy_final_check \<and> \<not> se_ready env then Inr (th\<lparr>th_pc := Finished True\<rparr>, s)
            else res_bind (get_valid sc env kDontCareTag s) (\<lambda>(r, s'). Inr (case r of
                   None \<Rightarrow> (th\<lparr>th_pc := Finished (\<not> (\<not> final_check \<and> (if legacy_final_check then se_ready env else True)))\<rparr>, s')
                 | Some pe \<Rightarrow> (th\<lparr>th_pc := HavePage pe\<rparr>, s')))
        | HavePage pe \<Rightarrow>
            res_bind (check_page sc env ''check'' (if th_draining th then ''final_check'' else check_phase) pe (th, s))
              (\<lambda>(errors, th', s'). Inr ((note_operation sc env
                   (if th_draining th then DIAG_PHASE_FINAL_CHECK else DIAG_PHASE_RUNTIME_CHECK)
                   (cf_page_length (sc_cfg sc)) 0 errors th')\<lparr>th_pc := Processed pe\<rparr>, s'))
        | Processed pe \<Rightarrow>
            let stopped_after_check = (\<not> final_check \<and> \<not> se_ready env)
            in if final_check \<or> legacy_final_check \<and> stopped_after_check \<and> \<not> error_stop_requested sc s
               then res_bind (put_empty sc env pe s) (\<lambda>(ok, s').
                      Inr (next_round ok (if legacy_final_check then th\<lparr>th_draining := True\<rparr> else th), s'))
               else res_bind (put_valid sc env pe s) (\<lambda>(ok, s'). Inr (next_round ok th, s'))
        | _ \<Rightarrow> Inr (th, s))"

section \<open>Copying\<close>

text \<open>The byte an injected error overwrites.\<close>

definition inject_byte :: "nat \<Rightarrow> u64 list \<Rightarrow> u64 list" where
  "inject_byte offset page =
     page[offset div 8 := (page ! (offset div 8) AND NOT (push_bit (8 * (offset mod 8)) 0xff))
                            OR push_bit (8 * (offset mod 8)) 0xba]"

definition inject :: "settings \<Rightarrow> step_env \<Rightarrow> u64 list \<Rightarrow> u64 list" where
  "inject sc env page =
     (if sc_error_injection sc
      then case se_inject env of None \<Rightarrow> page | Some n \<Rightarrow> inject_byte (n mod nat (cf_page_length (sc_cfg sc))) page
      else page)"

text \<open>The copy without checks, \<open>memcpy\<close> and new tags.\<close>

definition plain_copy ::
    "config \<Rightarrow> page_entry \<Rightarrow> page_entry \<Rightarrow> u64 list \<times> worker \<Rightarrow>
     (nat \<times> (page_entry \<times> u64 list) \<times> u64 list \<times> worker) res" where
  "plain_copy cfg dst src = (\<lambda>(page, w).
     res_bind (if cf_tag_mode cfg then TagAddrC (pe_addr dst) (nat (cf_page_length cfg)) page else Inr page) (\<lambda>page'.
       Inr (0, (dst\<lparr>pe_pattern := pe_pattern src, pe_lastcpu := cf_cpu cfg, pe_write_dram_frequency := cf_frequency cfg\<rparr>, page'),
            page, w)))"

definition copy_process ::
    "settings \<Rightarrow> step_env \<Rightarrow> page_entry \<Rightarrow> page_entry \<Rightarrow> thread \<times> sat \<Rightarrow> (thread \<times> sat) res" where
  "copy_process sc env src dst = (\<lambda>(th, s).
     let cfg = now_cfg sc env; pats = patterns (sat_patternlist s);
         mem = sat_mem s;
         page = inject sc env (load_page sc src mem)
     in res_bind (if sc_warm sc
                  then CrcWarmCopyPage (sc_warm_copy sc) cfg pats dst src ''copy'' ''source_check''
                         (load_page sc dst mem) (page, as_worker th s)
                  else if sc_strict sc
                  then CrcCopyPage cfg pats dst src ''copy'' ''source_check'' (load_page sc dst mem) (page, as_worker th s)
                  else plain_copy cfg dst src (page, as_worker th s))
          (\<lambda>(copy_errors, (dst', dpage), spage, w).
             case from_worker w (th, s\<lparr>sat_mem := store_page dst dpage (store_page src spage mem)\<rparr>) of (th1, s1) \<Rightarrow>
             let s2 = note_write sc env (se_epoch_begin env) th1 (pe_offset dst')
                        (if copy_errors \<noteq> 0 then BLOCK_WRITER_REPAIR else BLOCK_WRITER_COPY) s1;
                 th2 = note_operation sc env DIAG_PHASE_COPY_TRANSFER (cf_page_length cfg) (cf_page_length cfg) copy_errors th1
             in if sc_copy_verify_destination sc
                then res_bind (check_page sc env ''copy'' ''destination_check'' dst' (th2, s2)) (\<lambda>(errors, th3, s3).
                       Inr ((note_operation sc env DIAG_PHASE_COPY_DESTINATION_CHECK (cf_page_length cfg) 0 errors th3)
                              \<lparr>th_pc := Transferred src dst'\<rparr>, s3))
                else Inr (th2\<lparr>th_pc := Transferred src dst'\<rparr>, s2)))"

text \<open>When no destination is found the source is put back, whether or not that succeeds.\<close>

definition CopyThread_step :: "settings \<Rightarrow> step_env \<Rightarrow> thread \<times> sat \<Rightarrow> (thread \<times> sat) res" where
  "CopyThread_step sc env = (\<lambda>(th, s).
     case th_pc th of
       LoopHead \<Rightarrow>
         if se_ready env \<and> \<not> error_stop_requested sc s
         then res_bind (get_valid sc env (th_tag th) s) (\<lambda>(r, s'). Inr (case r of
                None \<Rightarrow> (th\<lparr>th_pc := Finished False\<rparr>, s')
              | Some src \<Rightarrow> (th\<lparr>th_pc := HavePage src\<rparr>, s')))
         else Inr (th\<lparr>th_pc := Finished True\<rparr>, s)
     | HavePage src \<Rightarrow>
         res_bind (get_empty sc env (th_tag th) s) (\<lambda>(r, s').
           case r of
             None \<Rightarrow> res_bind (put_valid sc env src s') (\<lambda>(ok, s''). Inr (th\<lparr>th_pc := Finished False\<rparr>, s''))
           | Some dst \<Rightarrow> Inr (th\<lparr>th_pc := HaveBoth src dst\<rparr>, s'))
     | HaveBoth src dst \<Rightarrow> copy_process sc env src dst (th, s)
     | Transferred src dst \<Rightarrow>
         res_bind (put_valid sc env dst s) (\<lambda>(ok, s'). Inr (th\<lparr>th_pc := DstReturned ok src\<rparr>, s'))
     | DstReturned dst_returned src \<Rightarrow>
         res_bind (put_empty sc env src s) (\<lambda>(ok, s'). Inr (next_round (dst_returned \<and> ok) th, s'))
     | _ \<Rightarrow> Inr (th, s))"

section \<open>Inverting\<close>

definition invert_pass :: "settings \<Rightarrow> step_env \<Rightarrow> nat \<Rightarrow> page_entry \<Rightarrow> sat \<Rightarrow> (page_entry \<times> sat) res" where
  "invert_pass sc env k pe s =
     res_bind ((if k = 0 \<or> k = 3 then InvertPageUp else InvertPageDown) (sc_invert_range sc) (cf_page_length (sc_cfg sc))
                 (load_page sc pe (sat_mem s)))
       (\<lambda>page. Inr (pe\<lparr>pe_lastcpu := se_cpu env, pe_write_dram_frequency := se_frequency env\<rparr>,
                    s\<lparr>sat_mem := store_page pe page (sat_mem s)\<rparr>))"

definition strict_check ::
    "settings \<Rightarrow> step_env \<Rightarrow> string \<Rightarrow> DiagnosticPhase \<Rightarrow> page_entry \<Rightarrow> thread \<times> sat \<Rightarrow> (thread \<times> sat) res" where
  "strict_check sc env phase dphase pe = (\<lambda>(th, s).
     if sc_strict sc
     then res_bind (check_page sc env ''invert'' phase pe (th, s)) (\<lambda>(errors, th', s').
            Inr (note_operation sc env dphase (cf_page_length (sc_cfg sc)) 0 errors th', s'))
     else Inr (th, s))"

definition InvertThread_step :: "settings \<Rightarrow> step_env \<Rightarrow> thread \<times> sat \<Rightarrow> (thread \<times> sat) res" where
  "InvertThread_step sc env = (\<lambda>(th, s).
     case th_pc th of
       LoopHead \<Rightarrow>
         if se_ready env \<and> \<not> error_stop_requested sc s
         then res_bind (get_valid sc env kDontCareTag s) (\<lambda>(r, s'). Inr (case r of
                None \<Rightarrow> (th\<lparr>th_pc := Finished False\<rparr>, s')
              | Some pe \<Rightarrow> (th\<lparr>th_pc := HavePage pe\<rparr>, s')))
         else Inr (th\<lparr>th_pc := Finished True\<rparr>, s)
     | HavePage pe \<Rightarrow>
         res_bind (strict_check sc env ''precheck'' DIAG_PHASE_INVERT_PRECHECK pe (th, s)) (\<lambda>(th', s').
           Inr (th'\<lparr>th_pc := Passed 0 (se_epoch_begin env) pe\<rparr>, s'))
     | Passed k epoch_begin pe \<Rightarrow>
         if k < 4 then res_bind (invert_pass sc env k pe s) (\<lambda>(pe', s'). Inr (th\<lparr>th_pc := Passed (k + 1) epoch_begin pe'\<rparr>, s'))
         else
           let s1 = note_write sc env epoch_begin th (pe_offset pe) BLOCK_WRITER_INVERT s;
               bytes = invert_range_bytes (sc_invert_range sc) (cf_page_length (sc_cfg sc)) * 4;
               th1 = note_operation sc env DIAG_PHASE_INVERT_RMW bytes bytes 0 th
           in res_bind (strict_check sc env ''postcheck'' DIAG_PHASE_INVERT_POSTCHECK pe (th1, s1)) (\<lambda>(th', s').
                Inr (th'\<lparr>th_pc := Processed pe\<rparr>, s'))
     | Processed pe \<Rightarrow> res_bind (put_valid sc env pe s) (\<lambda>(ok, s'). Inr (next_round ok th, s'))
     | _ \<Rightarrow> Inr (th, s))"

section \<open>Any worker, and any number of them\<close>

definition thread_step :: "settings \<Rightarrow> step_env \<Rightarrow> thread \<times> sat \<Rightarrow> (thread \<times> sat) res" where
  "thread_step sc env x =
     (case th_kind (fst x) of
        FillThread preset_only num \<Rightarrow> FillThread_step sc env preset_only num x
      | CheckThread phase \<Rightarrow> CheckThread_step sc env phase x
      | CopyThread \<Rightarrow> CopyThread_step sc env x
      | InvertThread \<Rightarrow> InvertThread_step sc env x)"

text \<open>A schedule says which worker runs next and what the world answers it.\<close>

primrec run_threads :: "settings \<Rightarrow> (nat \<times> step_env) list \<Rightarrow> thread list \<times> sat \<Rightarrow> (thread list \<times> sat) res" where
  "run_threads sc [] x = Inr x"
| "run_threads sc (e # es) x =
     (if fst e < length (fst x)
      then res_bind (thread_step sc (snd e) (fst x ! fst e, snd x)) (\<lambda>(th, s).
             run_threads sc es ((fst x)[fst e := th], s))
      else run_threads sc es x)"

end
