(* ===== verification/RunControl.thy ===== *)
theory RunControl
  imports PauseBarrier Workers "HOL-Library.Signed_Division"
begin

text \<open>
  The control thread during the test: the loop of \<open>Sat::Run\<close> with \<open>NextOccurance\<close> and \<open>ApplyDramFrequency\<close>, the choice of cores in
  \<open>InitializeThreads\<close>, and the verdict of \<open>PrintResults\<close> (\<^verbatim>\<open>src/src/sat.cc\<close>). The loop prints the time that remains, changes the memory
  frequency, pauses and resumes the workers on schedules that start with the test, and sleeps in between. The clock, the signals, the errors
  counted by the workers and the answers of the kernel are inputs of each turn. Times are seconds.
\<close>

section \<open>Schedules\<close>

text \<open>The division of C rounds towards zero.\<close>

definition NextOccurance :: "int \<Rightarrow> int \<Rightarrow> int \<Rightarrow> int res" where
  "NextOccurance frequency start now =
     (if frequency = 0 then Inl DivisionByZero else Inr (start + frequency + ((now - start) sdiv frequency) * frequency))"

section \<open>Settings and state\<close>

record run_options =
  ro_runtime_seconds :: int
  ro_print_delay :: int
  ro_pause_delay :: int
  ro_pause_duration :: int
  ro_dram_sweep :: bool
  ro_dram_frequencies :: "int list"
  ro_dram_step_seconds :: int
  ro_crazy_error_injection :: bool
  ro_max_errorcount :: u64

text \<open>What the loop does, in order.\<close>

datatype run_action =
    ExitEarly int
  | TooManyErrors int u64
  | Remaining int
  | InjectError
  | SetFrequency int bool
  | PauseAll
  | ResumeAll
  | SleepFor int

text \<open>
  The local variables of \<open>Run\<close>, with the last frequency requested, its epoch and \<open>statuscount_\<close>. A schedule that is off is 0.
\<close>

record run_state =
  rn_now :: int
  rn_next_print :: int
  rn_next_pause :: int
  rn_next_resume :: int
  rn_next_dram_frequency :: int
  rn_next_injection :: int
  rn_index :: nat
  rn_frequency :: int
  rn_epoch :: u64
  rn_statuscount :: int
  rn_log :: "run_action list"

text \<open>
  Writing a frequency: whether the node can be opened, the results of \<open>write\<close> (\<open>None\<close>: interrupted before anything was written), and whether it
  could be closed.
\<close>

record frequency_io =
  fq_open :: bool
  fq_writes :: "int option list"
  fq_close :: bool

text \<open>
  One turn of the loop: whether a signal came, whether \<open>--stop_on_errors\<close> asks to stop, the errors counted so far, the answers for the frequency
  node, and the time after the sleep.
\<close>

record turn_env =
  tn_user_break :: bool
  tn_error_stop :: bool
  tn_errors :: u64
  tn_frequency :: frequency_io
  tn_now :: int

section \<open>The memory frequency\<close>

fun digits :: "nat \<Rightarrow> string" where
  "digits n = (if n < 10 then [char_of (48 + n)] else digits (n div 10) @ [char_of (48 + n mod 10)])"

declare digits.simps [simp del]

definition decimal :: "int \<Rightarrow> string" where
  "decimal i = (if i < 0 then ''-'' @ digits (nat (- i)) else digits (nat i))"

definition frequency_message :: "int \<Rightarrow> string" where
  "frequency_message frequency = ''{class:ddr, res:fixed, val:'' @ decimal frequency @ ''}'' @ [char_of (10 :: nat)]"

text \<open>The loop that repeats an interrupted \<open>write\<close>.\<close>

fun write_retry :: "int option list \<Rightarrow> int res" where
  "write_retry [] = Inl Diverged"
| "write_retry (None # rs) = write_retry rs"
| "write_retry (Some n # rs) = Inr n"

definition ApplyDramFrequency :: "frequency_io \<Rightarrow> int \<Rightarrow> run_state \<Rightarrow> (bool \<times> run_state) res" where
  "ApplyDramFrequency io frequency st =
     (let message = frequency_message frequency
      in if 128 \<le> length message \<or> \<not> fq_open io then Inr (False, st)
         else res_bind (write_retry (fq_writes io)) (\<lambda>written.
                if written \<noteq> int (length message) \<or> \<not> fq_close io then Inr (False, st)
                else Inr (True, st\<lparr>rn_frequency := frequency, rn_epoch := rn_epoch st + 1\<rparr>)))"

section \<open>One turn\<close>

definition logged :: "run_action \<Rightarrow> run_state \<Rightarrow> run_state" where
  "logged a st = st\<lparr>rn_log := rn_log st @ [a]\<rparr>"

definition dram_sweep_active :: "run_options \<Rightarrow> bool" where
  "dram_sweep_active ro \<longleftrightarrow> ro_dram_sweep ro \<and> 1 < length (ro_dram_frequencies ro)"

definition sleep_frequency :: "run_options \<Rightarrow> int" where
  "sleep_frequency ro = (if dram_sweep_active ro then 1 else 5)"

definition kInjectionFrequency :: int where
  "kInjectionFrequency = 10"

definition print_turn :: "run_options \<Rightarrow> int \<Rightarrow> int \<Rightarrow> run_state \<Rightarrow> run_state res" where
  "print_turn ro start seconds_remaining st =
     (if rn_next_print st \<le> rn_now st
      then res_bind (NextOccurance (ro_print_delay ro) start (rn_now st)) (\<lambda>t.
             Inr ((logged (Remaining seconds_remaining) st)\<lparr>rn_next_print := t\<rparr>))
      else Inr st)"

definition inject_turn :: "int \<Rightarrow> run_state \<Rightarrow> run_state res" where
  "inject_turn start st =
     (if rn_next_injection st \<noteq> 0 \<and> rn_next_injection st \<le> rn_now st
      then res_bind (NextOccurance kInjectionFrequency start (rn_now st)) (\<lambda>t.
             Inr ((logged InjectError st)\<lparr>rn_next_injection := t\<rparr>))
      else Inr st)"

text \<open>The result is false if the new frequency could not be set: the loop ends and the run has failed.\<close>

definition frequency_turn :: "run_options \<Rightarrow> int \<Rightarrow> frequency_io \<Rightarrow> run_state \<Rightarrow> (bool \<times> run_state) res" where
  "frequency_turn ro start io st =
     (if rn_next_dram_frequency st \<noteq> 0 \<and> rn_next_dram_frequency st \<le> rn_now st
      then if ro_dram_frequencies ro = [] then Inl DivisionByZero
           else let i = (rn_index st + 1) mod length (ro_dram_frequencies ro); f = ro_dram_frequencies ro ! i
             in res_bind (ApplyDramFrequency io f (st\<lparr>rn_index := i\<rparr>)) (\<lambda>(ok, st1).
                  let st2 = logged (SetFrequency f ok) st1
                  in if \<not> ok then Inr (False, st2\<lparr>rn_statuscount := rn_statuscount st2 + 1\<rparr>)
                     else res_bind (NextOccurance (ro_dram_step_seconds ro) start (rn_now st)) (\<lambda>t.
                            Inr (True, st2\<lparr>rn_next_dram_frequency := t\<rparr>)))
      else Inr (True, st))"

definition pause_turn :: "run_options \<Rightarrow> run_state \<Rightarrow> run_state" where
  "pause_turn ro st =
     (if rn_next_pause st \<noteq> 0 \<and> rn_next_pause st \<le> rn_now st
      then (logged PauseAll st)\<lparr>rn_next_pause := 0, rn_next_resume := rn_now st + ro_pause_duration ro\<rparr>
      else st)"

definition resume_turn :: "run_options \<Rightarrow> int \<Rightarrow> run_state \<Rightarrow> run_state res" where
  "resume_turn ro start st =
     (if rn_next_resume st \<noteq> 0 \<and> rn_next_resume st \<le> rn_now st
      then res_bind (NextOccurance (ro_pause_delay ro) start (rn_now st)) (\<lambda>t.
             Inr ((logged ResumeAll st)\<lparr>rn_next_pause := t, rn_next_resume := 0\<rparr>))
      else Inr st)"

text \<open>What ends the loop before its time.\<close>

datatype turn_result = Continue | Break bool

definition run_turn :: "run_options \<Rightarrow> int \<Rightarrow> int \<Rightarrow> turn_env \<Rightarrow> run_state \<Rightarrow> (turn_result \<times> run_state) res" where
  "run_turn ro start end env st =
     (let seconds_remaining = end - rn_now st
      in if tn_user_break env \<or> tn_error_stop env then Inr (Break True, logged (ExitEarly seconds_remaining) st)
         else if ro_max_errorcount ro \<noteq> 0 \<and> ro_max_errorcount ro < tn_errors env
         then Inr (Break True, logged (TooManyErrors seconds_remaining (tn_errors env)) st)
         else res_bind (print_turn ro start seconds_remaining st) (\<lambda>st1.
              res_bind (inject_turn start st1) (\<lambda>st2.
              res_bind (frequency_turn ro start (tn_frequency env) st2) (\<lambda>(ok, st3).
                if \<not> ok then Inr (Break False, st3)
                else res_bind (resume_turn ro start (pause_turn ro st3)) (\<lambda>st4.
                     res_bind (NextOccurance (sleep_frequency ro) start (rn_now st4)) (\<lambda>t.
                       Inr (Continue, (logged (SleepFor (t - rn_now st4)) st4)\<lparr>rn_now := tn_now env\<rparr>)))))))"

section \<open>The loop\<close>

text \<open>The variables before the loop.\<close>

definition run_start :: "run_options \<Rightarrow> int \<Rightarrow> run_state \<Rightarrow> run_state" where
  "run_start ro start st = st\<lparr>rn_now := start, rn_next_print := start + ro_print_delay ro, rn_next_pause := start + ro_pause_delay ro,
     rn_next_resume := 0, rn_next_dram_frequency := (if dram_sweep_active ro then start + ro_dram_step_seconds ro else 0),
     rn_next_injection := (if ro_crazy_error_injection ro then start + kInjectionFrequency else 0)\<rparr>"

text \<open>One answer per turn; \<open>StillRunning\<close> when there are no more answers and the time is not over.\<close>

fun run_loop :: "run_options \<Rightarrow> int \<Rightarrow> int \<Rightarrow> turn_env list \<Rightarrow> run_state \<Rightarrow> (bool \<times> run_state) res" where
  "run_loop ro start end [] st = (if rn_now st < end then Inl StillRunning else Inr (True, st))"
| "run_loop ro start end (env # envs) st =
     (if rn_now st < end
      then res_bind (run_turn ro start end env st) (\<lambda>(r, st').
             case r of Continue \<Rightarrow> run_loop ro start end envs st' | Break run_ok \<Rightarrow> Inr (run_ok, st'))
      else Inr (True, st))"

text \<open>The request for the first frequency of the list, before the workers start.\<close>

definition first_frequency :: "run_options \<Rightarrow> frequency_io \<Rightarrow> run_state \<Rightarrow> (bool \<times> run_state) res" where
  "first_frequency ro io st =
     (if ro_dram_frequencies ro = [] then Inr (True, st)
      else res_bind (ApplyDramFrequency io (ro_dram_frequencies ro ! 0) (st\<lparr>rn_index := 0\<rparr>)) (\<lambda>(ok, st1).
             Inr (ok, if ok then st1 else st1\<lparr>rn_statuscount := rn_statuscount st1 + 1\<rparr>)))"

section \<open>The deliberate error\<close>

text \<open>
  \<open>--force_errors_like_crazy\<close> gives a valid page the first pattern. The result of \<open>GetValid\<close> is not looked at: without a page, the
  uninitialised record \<open>garbage\<close> is put into the pool.
\<close>

definition inject_error :: "settings \<Rightarrow> step_env \<Rightarrow> page_entry \<Rightarrow> sat \<Rightarrow> sat res" where
  "inject_error sc env garbage s =
     res_bind (get_valid sc env kDontCareTag s) (\<lambda>(r, s1).
       let src = (case r of None \<Rightarrow> garbage | Some pe \<Rightarrow> pe)
       in res_bind (put_valid sc env (src\<lparr>pe_pattern := GetPattern (sat_patternlist s1) 0\<rparr>) s1) (\<lambda>(_, s2). Inr s2))"

section \<open>Cores\<close>

text \<open>The core for copy worker \<open>i\<close>, and for CPU stress worker \<open>i\<close>.\<close>

definition nthbit :: "int \<Rightarrow> int \<Rightarrow> int" where
  "nthbit cores nthcore = ((2 * nthcore) mod cores + ((2 * nthcore) div cores) mod 2) mod cores"

definition stress_core :: "int \<Rightarrow> int \<Rightarrow> int" where
  "stress_core cores i = nthbit cores ((cores - 1) - i)"

section \<open>The verdict\<close>

datatype verdict = PROCEDURAL_ERRORS | HW_PROBLEMS | PASS

definition PrintResults :: "int \<Rightarrow> int \<Rightarrow> verdict" where
  "PrintResults statuscount errorcount =
     (if statuscount \<noteq> 0 then PROCEDURAL_ERRORS else if errorcount \<noteq> 0 then HW_PROBLEMS else PASS)"

section \<open>The schedules are met\<close>

lemma NextOccurance_spec:
  assumes "0 < frequency" "start \<le> now"
  obtains t where "NextOccurance frequency start now = Inr t" "now < t" "t \<le> now + frequency" "frequency dvd t - start"
proof -
  let ?t = "start + frequency + ((now - start) div frequency) * frequency"
  have "(now - start) sdiv frequency = (now - start) div frequency"
    using assms by (cases "now = start") (simp_all add: signed_divide_int_def sgn_if)
  then have "NextOccurance frequency start now = Inr ?t" using assms by (simp add: NextOccurance_def)
  moreover have "now - start = (now - start) div frequency * frequency + (now - start) mod frequency" by simp
  then have "now < ?t" "?t \<le> now + frequency"
    using pos_mod_bound [OF assms(1), of "now - start"] pos_mod_sign [OF assms(1), of "now - start"] by linarith+
  moreover have "frequency dvd ?t - start" by simp
  ultimately show thesis using that by blast
qed

text \<open>Whether the workers are paused after the actions, if pausing and resuming took turns.\<close>

fun pause_state :: "bool \<Rightarrow> run_action list \<Rightarrow> bool option" where
  "pause_state b [] = Some b"
| "pause_state b (PauseAll # as) = (if b then None else pause_state True as)"
| "pause_state b (ResumeAll # as) = (if b then pause_state False as else None)"
| "pause_state b (a # as) = pause_state b as"

lemma pause_state_append: "pause_state b (as @ as') = (case pause_state b as of None \<Rightarrow> None | Some b' \<Rightarrow> pause_state b' as')"
  by (induction b as rule: pause_state.induct) auto

definition sleeps_ok :: "run_action list \<Rightarrow> bool" where
  "sleeps_ok as \<longleftrightarrow> (\<forall>n. SleepFor n \<in> set as \<longrightarrow> 1 \<le> n \<and> n \<le> 5)"

text \<open>Options for which no schedule divides by zero.\<close>

definition schedules_ok :: "run_options \<Rightarrow> bool" where
  "schedules_ok ro \<longleftrightarrow> 0 < ro_print_delay ro \<and> 0 < ro_pause_delay ro \<and> 0 \<le> ro_pause_duration ro \<and>
     (dram_sweep_active ro \<longrightarrow> 0 < ro_dram_step_seconds ro)"

definition loop_inv :: "run_options \<Rightarrow> int \<Rightarrow> run_action list \<Rightarrow> run_state \<Rightarrow> bool" where
  "loop_inv ro start before st \<longleftrightarrow> 0 < start \<and> start \<le> rn_now st \<and> (rn_next_pause st = 0) = (rn_next_resume st \<noteq> 0) \<and>
     (rn_next_dram_frequency st \<noteq> 0 \<longrightarrow> dram_sweep_active ro) \<and>
     (\<exists>as. rn_log st = before @ as \<and> pause_state False as = Some (rn_next_pause st = 0) \<and> sleeps_ok as)"

lemma loop_inv_log:
  assumes "loop_inv ro start before st" "pause_state (rn_next_pause st = 0) [a] = Some (rn_next_pause st' = 0)" "sleeps_ok [a]"
    and "rn_log st' = rn_log st @ [a]" "start \<le> rn_now st'" "(rn_next_pause st' = 0) = (rn_next_resume st' \<noteq> 0)"
    and "rn_next_dram_frequency st' \<noteq> 0 \<Longrightarrow> dram_sweep_active ro"
  shows "loop_inv ro start before st'"
  using assms unfolding loop_inv_def sleeps_ok_def by (auto simp: pause_state_append)

lemma print_turn_ok:
  assumes "schedules_ok ro" "loop_inv ro start before st"
  obtains st' where "print_turn ro start n st = Inr st'" "loop_inv ro start before st'" "rn_now st' = rn_now st"
proof (cases "rn_next_print st \<le> rn_now st")
  case True
  obtain t where "NextOccurance (ro_print_delay ro) start (rn_now st) = Inr t"
    using NextOccurance_spec [of "ro_print_delay ro" start "rn_now st"] assms by (auto simp: schedules_ok_def loop_inv_def)
  then show thesis
    using True assms(2) by (intro that [of "(logged (Remaining n) st)\<lparr>rn_next_print := t\<rparr>"] loop_inv_log [OF assms(2), where a = "Remaining n"])
      (auto simp: print_turn_def logged_def sleeps_ok_def loop_inv_def)
qed (use that assms(2) in \<open>simp add: print_turn_def\<close>)

lemma inject_turn_ok:
  assumes "loop_inv ro start before st"
  obtains st' where "inject_turn start st = Inr st'" "loop_inv ro start before st'" "rn_now st' = rn_now st"
proof (cases "rn_next_injection st \<noteq> 0 \<and> rn_next_injection st \<le> rn_now st")
  case True
  obtain t where "NextOccurance kInjectionFrequency start (rn_now st) = Inr t"
    using NextOccurance_spec [of kInjectionFrequency start "rn_now st"] assms by (auto simp: kInjectionFrequency_def loop_inv_def)
  then show thesis
    using True assms by (intro that [of "(logged InjectError st)\<lparr>rn_next_injection := t\<rparr>"] loop_inv_log [OF assms, where a = InjectError])
      (auto simp: inject_turn_def logged_def sleeps_ok_def loop_inv_def)
qed (use that assms in \<open>auto simp: inject_turn_def\<close>)

lemma apply_cases:
  assumes "write_retry (fq_writes io) \<noteq> Inl Diverged"
  obtains "ApplyDramFrequency io f st = Inr (False, st)"
  | "ApplyDramFrequency io f st = Inr (True, st\<lparr>rn_frequency := f, rn_epoch := rn_epoch st + 1\<rparr>)"
proof -
  have "\<exists>n. write_retry rs = Inr n \<or> write_retry rs = Inl Diverged" for rs by (induction rs rule: write_retry.induct) auto
  then obtain n where "write_retry (fq_writes io) = Inr n" using assms by blast
  then have "ApplyDramFrequency io f st =
      (if (128 \<le> length (frequency_message f) \<or> \<not> fq_open io) \<or> (n \<noteq> int (length (frequency_message f)) \<or> \<not> fq_close io)
       then Inr (False, st) else Inr (True, st\<lparr>rn_frequency := f, rn_epoch := rn_epoch st + 1\<rparr>))"
    unfolding ApplyDramFrequency_def Let_def by simp
  then show thesis using that by presburger
qed

lemma frequency_turn_ok:
  assumes "schedules_ok ro" "loop_inv ro start before st" "write_retry (fq_writes io) \<noteq> Inl Diverged"
  obtains ok st' where "frequency_turn ro start io st = Inr (ok, st')" "loop_inv ro start before st'" "rn_now st' = rn_now st"
proof (cases "rn_next_dram_frequency st \<noteq> 0 \<and> rn_next_dram_frequency st \<le> rn_now st")
  case True
  have sweep: "dram_sweep_active ro" using True assms(2) by (simp add: loop_inv_def)
  then have ne: "ro_dram_frequencies ro \<noteq> []" by (auto simp: dram_sweep_active_def)
  let ?i = "(rn_index st + 1) mod length (ro_dram_frequencies ro)"
  let ?f = "ro_dram_frequencies ro ! ?i"
  obtain t where t: "NextOccurance (ro_dram_step_seconds ro) start (rn_now st) = Inr t"
    using NextOccurance_spec [of "ro_dram_step_seconds ro" start "rn_now st"] assms sweep by (auto simp: schedules_ok_def loop_inv_def)
  show thesis
  proof (cases rule: apply_cases [OF assms(3), of ?f "st\<lparr>rn_index := ?i\<rparr>", case_names bad good])
    case bad
    let ?st = "(logged (SetFrequency ?f False) (st\<lparr>rn_index := ?i\<rparr>))\<lparr>rn_statuscount := rn_statuscount st + 1\<rparr>"
    have "loop_inv ro start before ?st"
      using assms(2) sweep by (intro loop_inv_log [OF assms(2), where a = "SetFrequency ?f False"]) (auto simp: logged_def sleeps_ok_def loop_inv_def)
    then show thesis using that [of False ?st] True ne bad by (simp add: frequency_turn_def Let_def logged_def)
  next
    case good
    let ?st = "(logged (SetFrequency ?f True) (st\<lparr>rn_index := ?i, rn_frequency := ?f, rn_epoch := rn_epoch st + 1\<rparr>))\<lparr>rn_next_dram_frequency := t\<rparr>"
    have "loop_inv ro start before ?st"
      using assms(2) sweep by (intro loop_inv_log [OF assms(2), where a = "SetFrequency ?f True"]) (auto simp: logged_def sleeps_ok_def loop_inv_def)
    then show thesis using that [of True ?st] True ne good t by (simp add: frequency_turn_def Let_def logged_def)
  qed
qed (use that assms(2) in \<open>auto simp: frequency_turn_def\<close>)

lemma pause_turn_ok:
  assumes "schedules_ok ro" "loop_inv ro start before st"
  shows "loop_inv ro start before (pause_turn ro st)" "rn_now (pause_turn ro st) = rn_now st"
proof -
  show "loop_inv ro start before (pause_turn ro st)"
  proof (cases "rn_next_pause st \<noteq> 0 \<and> rn_next_pause st \<le> rn_now st")
    case True
    have "0 < rn_now st + ro_pause_duration ro" using assms by (simp add: schedules_ok_def loop_inv_def)
    then show ?thesis
      using assms(2) True by (intro loop_inv_log [OF assms(2), where a = PauseAll]) (auto simp: pause_turn_def logged_def sleeps_ok_def loop_inv_def)
  qed (use assms(2) in \<open>auto simp: pause_turn_def\<close>)
  show "rn_now (pause_turn ro st) = rn_now st" by (simp add: pause_turn_def logged_def)
qed

lemma resume_turn_ok:
  assumes "schedules_ok ro" "loop_inv ro start before st"
  obtains st' where "resume_turn ro start st = Inr st'" "loop_inv ro start before st'" "rn_now st' = rn_now st"
proof (cases "rn_next_resume st \<noteq> 0 \<and> rn_next_resume st \<le> rn_now st")
  case True
  obtain t where t: "NextOccurance (ro_pause_delay ro) start (rn_now st) = Inr t" "rn_now st < t"
    using NextOccurance_spec [of "ro_pause_delay ro" start "rn_now st"] assms by (auto simp: schedules_ok_def loop_inv_def)
  have "0 < t" using t(2) assms(2) by (simp add: loop_inv_def)
  then show thesis
    using True t assms(2) by (intro that [of "(logged ResumeAll st)\<lparr>rn_next_pause := t, rn_next_resume := 0\<rparr>"] loop_inv_log [OF assms(2), where a = ResumeAll])
      (auto simp: resume_turn_def logged_def sleeps_ok_def loop_inv_def)
qed (use that assms(2) in \<open>auto simp: resume_turn_def\<close>)

lemma run_turn_ok:
  assumes "schedules_ok ro" "loop_inv ro start before st" "write_retry (fq_writes (tn_frequency env)) \<noteq> Inl Diverged" "rn_now st < tn_now env"
  obtains st' where "run_turn ro start end env st = Inr (Continue, st')" "loop_inv ro start before st'" "rn_now st' = tn_now env"
  | b st' where "run_turn ro start end env st = Inr (Break b, st')" "loop_inv ro start before st'"
proof -
  let ?n = "end - rn_now st"
  have now: "start \<le> rn_now st" using assms(2) by (simp add: loop_inv_def)
  have exit: "loop_inv ro start before (logged a st)" if "a = ExitEarly ?n \<or> a = TooManyErrors ?n (tn_errors env)" for a
    using that assms(2) by (intro loop_inv_log [OF assms(2), where a = a]) (auto simp: logged_def sleeps_ok_def loop_inv_def)
  obtain st1 where st1: "print_turn ro start ?n st = Inr st1" "loop_inv ro start before st1" "rn_now st1 = rn_now st"
    by (rule print_turn_ok [OF assms(1,2)])
  obtain st2 where st2: "inject_turn start st1 = Inr st2" "loop_inv ro start before st2" "rn_now st2 = rn_now st1"
    by (rule inject_turn_ok [OF st1(2)])
  obtain ok st3 where st3: "frequency_turn ro start (tn_frequency env) st2 = Inr (ok, st3)" "loop_inv ro start before st3" "rn_now st3 = rn_now st2"
    by (rule frequency_turn_ok [OF assms(1) st2(2) assms(3)])
  note st4 = pause_turn_ok [OF assms(1) st3(2)]
  obtain st5 where st5: "resume_turn ro start (pause_turn ro st3) = Inr st5" "loop_inv ro start before st5" "rn_now st5 = rn_now (pause_turn ro st3)"
    by (rule resume_turn_ok [OF assms(1) st4(1)])
  have same: "rn_now st5 = rn_now st" using st1(3) st2(3) st3(3) st4(2) st5(3) by simp
  have freq: "0 < sleep_frequency ro" "sleep_frequency ro \<le> 5" by (simp_all add: sleep_frequency_def)
  obtain t where t: "NextOccurance (sleep_frequency ro) start (rn_now st) = Inr t" "rn_now st < t" "t \<le> rn_now st + sleep_frequency ro"
    using NextOccurance_spec [OF freq(1) now] by blast
  let ?st = "(logged (SleepFor (t - rn_now st5)) st5)\<lparr>rn_now := tn_now env\<rparr>"
  have "loop_inv ro start before ?st"
    using st5(2) same t freq(2) assms(4) now
    by (intro loop_inv_log [OF st5(2), where a = "SleepFor (t - rn_now st5)"]) (auto simp: logged_def sleeps_ok_def loop_inv_def)
  note sleep = this
  show thesis
  proof -
    consider (early) "tn_user_break env \<or> tn_error_stop env"
      | (many) "\<not> (tn_user_break env \<or> tn_error_stop env)" "ro_max_errorcount ro \<noteq> 0 \<and> ro_max_errorcount ro < tn_errors env"
      | (go) "\<not> (tn_user_break env \<or> tn_error_stop env)" "\<not> (ro_max_errorcount ro \<noteq> 0 \<and> ro_max_errorcount ro < tn_errors env)"
      by blast
    then show thesis
    proof cases
      case early
      then have "run_turn ro start end env st = Inr (Break True, logged (ExitEarly ?n) st)" by (simp add: run_turn_def)
      then show thesis using that(2) exit by blast
    next
      case many
      then have "run_turn ro start end env st = Inr (Break True, logged (TooManyErrors ?n (tn_errors env)) st)" by (simp add: run_turn_def)
      then show thesis using that(2) exit by blast
    next
      case go
      then have "run_turn ro start end env st = (if \<not> ok then Inr (Break False, st3) else Inr (Continue, ?st))"
        unfolding run_turn_def Let_def using st1(1) st2(1) st3(1) st5(1) t(1) same by simp
      then show thesis using that(1) [of ?st] that(2) [of False st3] sleep st3(2) by (cases ok) simp_all
    qed
  qed
qed

text \<open>The clock goes on: after each sleep it is later than before.\<close>

fun clock_advances :: "int \<Rightarrow> turn_env list \<Rightarrow> bool" where
  "clock_advances now [] \<longleftrightarrow> True"
| "clock_advances now (env # envs) \<longleftrightarrow> now < tn_now env \<and> clock_advances (tn_now env) envs"

lemma run_loop_ok:
  "schedules_ok ro \<Longrightarrow> loop_inv ro start before st \<Longrightarrow> clock_advances (rn_now st) envs \<Longrightarrow>
   \<forall>env \<in> set envs. write_retry (fq_writes (tn_frequency env)) \<noteq> Inl Diverged \<Longrightarrow> nat (end - rn_now st) \<le> length envs \<Longrightarrow>
   \<exists>ok st'. run_loop ro start end envs st = Inr (ok, st') \<and> loop_inv ro start before st'"
proof (induction envs arbitrary: st)
  case (Cons env envs)
  show ?case
  proof (cases "rn_now st < end")
    case True
    have io: "write_retry (fq_writes (tn_frequency env)) \<noteq> Inl Diverged" and adv: "rn_now st < tn_now env"
      using Cons.prems(3,4) by auto
    show ?thesis
    proof (cases rule: run_turn_ok [OF Cons.prems(1,2) io adv, of "end", case_names cont break])
      case (cont st')
      have "nat (end - rn_now st') \<le> length envs" using Cons.prems(5) adv cont(3) True by simp
      from Cons.IH [OF Cons.prems(1) cont(2) _ _ this] show ?thesis
        using cont Cons.prems(3,4) True by simp
    next
      case (break b st')
      then show ?thesis using True by simp
    qed
  qed (use Cons.prems in auto)
qed auto

text \<open>Without a sweep the loop does not touch the frequency, and its result is true.\<close>

lemma turn_frames:
  "print_turn ro start n st = Inr st' \<Longrightarrow> rn_statuscount st' = rn_statuscount st \<and> rn_next_dram_frequency st' = rn_next_dram_frequency st"
  "inject_turn start st = Inr st' \<Longrightarrow> rn_statuscount st' = rn_statuscount st \<and> rn_next_dram_frequency st' = rn_next_dram_frequency st"
  "resume_turn ro start st = Inr st' \<Longrightarrow> rn_statuscount st' = rn_statuscount st \<and> rn_next_dram_frequency st' = rn_next_dram_frequency st"
  "rn_statuscount (pause_turn ro st) = rn_statuscount st \<and> rn_next_dram_frequency (pause_turn ro st) = rn_next_dram_frequency st"
  by (auto simp: print_turn_def inject_turn_def resume_turn_def pause_turn_def logged_def res_bind_eq_Inr split: if_splits)

lemma run_turn_no_sweep:
  assumes "rn_next_dram_frequency st = 0" "run_turn ro start end env st = Inr (r, st')"
  shows "r \<noteq> Break False \<and> rn_statuscount st' = rn_statuscount st \<and> rn_next_dram_frequency st' = 0"
  using assms unfolding run_turn_def Let_def
  by (auto simp: res_bind_eq_Inr frequency_turn_def logged_def split: if_splits dest!: turn_frames(1,2,3))
    (simp_all add: turn_frames(4))

lemma run_loop_no_sweep:
  "rn_next_dram_frequency st = 0 \<Longrightarrow> run_loop ro start end envs st = Inr (ok, st') \<Longrightarrow> ok \<and> rn_statuscount st' = rn_statuscount st"
proof (induction envs arbitrary: st)
  case (Cons env envs)
  show ?case
  proof (cases "rn_now st < end")
    case True
    then obtain r st1 where r: "run_turn ro start end env st = Inr (r, st1)"
      using Cons.prems(2) by (cases "run_turn ro start end env st") auto
    note frame = run_turn_no_sweep [OF Cons.prems(1) r]
    show ?thesis
    proof (cases r)
      case Continue
      then show ?thesis using Cons.IH [of st1] Cons.prems(2) True r frame by simp
    next
      case (Break b)
      then show ?thesis using Cons.prems(2) True r frame by simp
    qed
  qed (use Cons.prems in simp)
qed (auto split: if_splits)

section \<open>Properties\<close>

lemma run_start_inv:
  assumes "schedules_ok ro" "0 < start"
  shows "loop_inv ro start (rn_log st) (run_start ro start st)"
  using assms by (auto simp: loop_inv_def run_start_def schedules_ok_def sleeps_ok_def)

text \<open>
  C19. The control loop ends. With positive delays for printing and pausing, and a positive step when frequencies are swept, no schedule divides by
  zero; and if the clock is later after each sleep, the loop ends after at most \<open>runtime_seconds_\<close> turns. In the meantime it sleeps for 1 to 5
  seconds at a time, and it pauses and resumes the workers in turns, beginning with a pause.
\<close>

theorem control_loop_ends:
  assumes "schedules_ok ro" "0 < start" "clock_advances start envs" "nat (ro_runtime_seconds ro) \<le> length envs"
    and "\<forall>env \<in> set envs. write_retry (fq_writes (tn_frequency env)) \<noteq> Inl Diverged"
  shows "\<exists>ok st' as. run_loop ro start (start + ro_runtime_seconds ro) envs (run_start ro start st) = Inr (ok, st') \<and>
    rn_log st' = rn_log st @ as \<and> pause_state False as \<noteq> None \<and> (\<forall>n. SleepFor n \<in> set as \<longrightarrow> 1 \<le> n \<and> n \<le> 5)"
proof -
  have now: "rn_now (run_start ro start st) = start" by (simp add: run_start_def)
  have "clock_advances (rn_now (run_start ro start st)) envs" "nat (start + ro_runtime_seconds ro - rn_now (run_start ro start st)) \<le> length envs"
    using assms(3,4) now by simp_all
  from run_loop_ok [OF assms(1) run_start_inv [OF assms(1,2)] this(1) assms(5) this(2)] show ?thesis
    by (auto simp: loop_inv_def sleeps_ok_def)
qed

section \<open>Concrete instances\<close>

text \<open>Twelve seconds with a pause after five, on a clock that advances by five seconds a turn.\<close>

definition ex_ro :: run_options where
  "ex_ro = \<lparr>ro_runtime_seconds = 12, ro_print_delay = 10, ro_pause_delay = 5, ro_pause_duration = 5, ro_dram_sweep = False, ro_dram_frequencies = [],
     ro_dram_step_seconds = 0, ro_crazy_error_injection = False, ro_max_errorcount = 0\<rparr>"

definition ex_turns :: "turn_env list" where
  "ex_turns = map (\<lambda>k. \<lparr>tn_user_break = False, tn_error_stop = False, tn_errors = 0,
     tn_frequency = \<lparr>fq_open = True, fq_writes = [Some 0], fq_close = True\<rparr>, tn_now = 105 + 5 * int k\<rparr>) [0..<12]"

definition ex_rs :: run_state where
  "ex_rs = \<lparr>rn_now = 0, rn_next_print = 0, rn_next_pause = 0, rn_next_resume = 0, rn_next_dram_frequency = 0, rn_next_injection = 0, rn_index = 0,
     rn_frequency = - 1, rn_epoch = 0, rn_statuscount = 0, rn_log = []\<rparr>"

lemma ex_run:
  "schedules_ok ex_ro" "clock_advances 100 ex_turns" "length ex_turns = 12" "ro_runtime_seconds ex_ro = 12" "ro_dram_frequencies ex_ro = []"
  "\<forall>env \<in> set ex_turns. write_retry (fq_writes (tn_frequency env)) \<noteq> Inl Diverged"
  by (simp_all add: schedules_ok_def ex_ro_def dram_sweep_active_def ex_turns_def upt_rec)

theorem control_loop_ends_witness:
  "\<exists>ok st' as. run_loop ex_ro 100 112 ex_turns (run_start ex_ro 100 ex_rs) = Inr (ok, st') \<and> rn_log st' = as \<and> pause_state False as \<noteq> None"
  using control_loop_ends [OF ex_run(1) _ ex_run(2) _ ex_run(6), of ex_rs] by (simp add: ex_run(3,4)) (auto simp: ex_rs_def)

end
