(* ===== verification/ThreadSetup.thy ===== *)
theory ThreadSetup
  imports RunControl
begin

text \<open>
  The workers of a test: \<open>Sat::InitializeThreads\<close> and \<open>Sat::SpawnThreads\<close> (\<^verbatim>\<open>src/src/sat.cc\<close>) with the part of
  \<open>WorkerThread::InitThread\<close> (\<^verbatim>\<open>src/src/worker.cc\<close>) that numbers a worker and registers it with the status object it obeys. A worker
  that is paused for the power spikes is registered with \<open>power_spike_status_\<close>, the others with \<open>continuous_status_\<close>.
\<close>

section \<open>Settings and state\<close>

datatype worker_type = kMemoryType | kFileIOType | kNetIOType | kNetSlaveType | kCheckType | kInvertType | kDiskType |
  kRandomDiskType | kCPUType | kErrorType | kCCType | kCPUFreqType

datatype status_object = power_spike_status | continuous_status

text \<open>\<open>wk_cpus\<close>: the cores the worker is bound to, \<open>None\<close> if it keeps all that are available.\<close>

record worker_desc =
  wk_type :: worker_type
  wk_num :: int
  wk_status :: status_object
  wk_cpus :: "int set option"
  wk_tag :: u32
  wk_high_priority :: bool

datatype region_mode = NoNuma | kLocalNuma | kRemoteNuma

text \<open>
  The options. \<open>to_cores\<close>: the number of cores the process may run on; \<open>to_cpu_count\<close>: the
  number of processors that \<open>sysconf\<close> reports; \<open>to_num_nodes\<close> and \<open>to_cpus_per_node\<close>: the nodes found by \<open>OsLayer\<close>.
\<close>

record thread_options =
  to_error_poll :: bool
  to_monitor_mode :: bool
  to_memory_threads :: nat
  to_file_threads :: nat
  to_listen_threads :: nat
  to_net_threads :: nat
  to_check_threads :: nat
  to_invert_threads :: nat
  to_disk_threads :: nat
  to_random_threads :: nat
  to_cpu_stress_threads :: nat
  to_cc_test :: bool
  to_cpu_freq_test :: bool
  to_region_mode :: region_mode
  to_region_count :: int
  to_region_mask :: u32
  to_cores :: int
  to_cpu_count :: nat
  to_num_nodes :: int
  to_cpus_per_node :: int

text \<open>\<open>total_threads_\<close>, the workers registered with each status object, and the vectors of \<open>workers_map_\<close> in the order of insertion.\<close>

record thread_setup =
  ss_total :: int
  ss_power :: nat
  ss_continuous :: nat
  ss_map :: "(worker_type \<times> worker_desc list) list"

section \<open>One worker\<close>

definition InitThread :: "worker_type \<Rightarrow> status_object \<Rightarrow> thread_setup \<Rightarrow> worker_desc \<times> thread_setup" where
  "InitThread ty so st =
     (\<lparr>wk_type = ty, wk_num = ss_total st, wk_status = so, wk_cpus = None, wk_tag = 0xffffffff, wk_high_priority = False\<rparr>,
      st\<lparr>ss_total := ss_total st + 1, ss_power := ss_power st + (if so = power_spike_status then 1 else 0),
         ss_continuous := ss_continuous st + (if so = continuous_status then 1 else 0)\<rparr>)"

text \<open>A loop that creates one worker in each turn, or none.\<close>

fun create_loop :: "(nat \<Rightarrow> thread_setup \<Rightarrow> worker_desc list \<times> thread_setup) \<Rightarrow> nat list \<Rightarrow> thread_setup \<Rightarrow> worker_desc list \<times> thread_setup" where
  "create_loop create [] st = ([], st)"
| "create_loop create (i # is) st =
     (case create i st of (w, st1) \<Rightarrow> case create_loop create is st1 of (ws, st2) \<Rightarrow> (w @ ws, st2))"

definition insert_workers :: "worker_type \<Rightarrow> worker_desc list \<times> thread_setup \<Rightarrow> thread_setup" where
  "insert_workers ty = (\<lambda>(ws, st). st\<lparr>ss_map := ss_map st @ [(ty, ws)]\<rparr>)"

definition plain_worker :: "worker_type \<Rightarrow> status_object \<Rightarrow> nat \<Rightarrow> thread_setup \<Rightarrow> worker_desc list \<times> thread_setup" where
  "plain_worker ty so i st = (case InitThread ty so st of (w, st') \<Rightarrow> ([w], st'))"

section \<open>Copy and stress workers\<close>

text \<open>\<open>region_find num\<close>: the bits of the mask in order, 0 if there are not so many.\<close>

definition region_find :: "u32 \<Rightarrow> int \<Rightarrow> int" where
  "region_find rmask num =
     (let rs = filter (bit rmask) [0..<32] in if 0 \<le> num \<and> num < int (length rs) then int (rs ! nat num) else 0)"

definition FindCoreMask :: "thread_options \<Rightarrow> int \<Rightarrow> int set" where
  "FindCoreMask to region =
     (let r = region mod to_num_nodes to in {r * to_cpus_per_node to..<(r + 1) * to_cpus_per_node to})"

definition copy_worker :: "thread_options \<Rightarrow> nat \<Rightarrow> thread_setup \<Rightarrow> worker_desc list \<times> thread_setup" where
  "copy_worker to i st =
     (case InitThread kMemoryType power_spike_status st of (w, st') \<Rightarrow>
        if 1 < to_region_count to \<and> to_region_mode to \<noteq> NoNuma
        then let region = region_find (to_region_mask to) (int i mod to_region_count to); bit = push_bit (nat region) 1
             in ([w\<lparr>wk_cpus := Some (FindCoreMask to region),
                    wk_tag := (if to_region_mode to = kLocalNuma then bit else to_region_mask to AND NOT bit)\<rparr>], st')
        else if int (to_cpu_stress_threads to) + int (to_memory_threads to) \<le> to_cores to
        then ([w\<lparr>wk_cpus := Some {nthbit (to_cores to) (int i)}\<rparr>], st')
        else ([w], st'))"

definition stress_worker :: "thread_options \<Rightarrow> nat \<Rightarrow> thread_setup \<Rightarrow> worker_desc list \<times> thread_setup" where
  "stress_worker to i st =
     (case InitThread kCPUType continuous_status st of (w, st') \<Rightarrow>
        if int (to_cpu_stress_threads to) + int (to_memory_threads to) \<le> to_cores to
        then ([w\<lparr>wk_cpus := Some {stress_core (to_cores to) (int i)}\<rparr>], st')
        else ([w], st'))"

section \<open>The other workers\<close>

definition file_worker_desc :: "nat \<Rightarrow> thread_setup \<Rightarrow> worker_desc list \<times> thread_setup" where
  "file_worker_desc i st = (case InitThread kFileIOType power_spike_status st of (w, st') \<Rightarrow> ([w\<lparr>wk_high_priority := True\<rparr>], st'))"

text \<open>A disk worker that refuses its parameters is deleted; it stays registered.\<close>

definition disk_worker_desc :: "worker_type \<Rightarrow> bool \<Rightarrow> nat \<Rightarrow> thread_setup \<Rightarrow> worker_desc list \<times> thread_setup" where
  "disk_worker_desc ty params_ok i st =
     (case InitThread ty power_spike_status st of (w, st') \<Rightarrow> if params_ok then ([w], st') else ([], st'))"

text \<open>Each disk has one write worker and its random workers.\<close>

fun disk_loop :: "thread_options \<Rightarrow> bool \<Rightarrow> nat \<Rightarrow> thread_setup \<Rightarrow> (worker_desc list \<times> worker_desc list) \<times> thread_setup" where
  "disk_loop to params_ok 0 st = (([], []), st)"
| "disk_loop to params_ok (Suc n) st =
     (case disk_worker_desc kDiskType params_ok 0 st of (d, st1) \<Rightarrow>
      case create_loop (disk_worker_desc kRandomDiskType params_ok) [0..<to_random_threads to] st1 of (r, st2) \<Rightarrow>
      case disk_loop to params_ok n st2 of ((ds, rs), st3) \<Rightarrow> ((d @ ds, r @ rs), st3))"

definition cc_worker :: "nat \<Rightarrow> thread_setup \<Rightarrow> worker_desc list \<times> thread_setup" where
  "cc_worker tnum st = (case InitThread kCCType continuous_status st of (w, st') \<Rightarrow> ([w\<lparr>wk_cpus := Some {int tnum}\<rparr>], st'))"

section \<open>All of them\<close>

definition init_error_poll :: "thread_options \<Rightarrow> thread_setup \<Rightarrow> thread_setup" where
  "init_error_poll to st =
     insert_workers kErrorType (create_loop (plain_worker kErrorType continuous_status) [0..<(if to_error_poll to then 1 else 0)] st)"

definition init_memory :: "thread_options \<Rightarrow> thread_setup \<Rightarrow> thread_setup" where
  "init_memory to st = insert_workers kMemoryType (create_loop (copy_worker to) [0..<to_memory_threads to] st)"

definition init_files :: "thread_options \<Rightarrow> thread_setup \<Rightarrow> thread_setup" where
  "init_files to st = insert_workers kFileIOType (create_loop file_worker_desc [0..<to_file_threads to] st)"

definition init_net :: "thread_options \<Rightarrow> thread_setup \<Rightarrow> thread_setup" where
  "init_net to st =
     (case create_loop (plain_worker kNetSlaveType continuous_status) [0..<(if 0 < to_listen_threads to then 1 else 0)] st of (slaves, st1) \<Rightarrow>
      case create_loop (plain_worker kNetIOType continuous_status) [0..<to_net_threads to] st1 of (nets, st2) \<Rightarrow>
        insert_workers kNetSlaveType (slaves, insert_workers kNetIOType (nets, st2)))"

definition init_check_invert :: "thread_options \<Rightarrow> thread_setup \<Rightarrow> thread_setup" where
  "init_check_invert to st =
     insert_workers kInvertType (create_loop (plain_worker kInvertType continuous_status) [0..<to_invert_threads to]
       (insert_workers kCheckType (create_loop (plain_worker kCheckType continuous_status) [0..<to_check_threads to] st)))"

definition init_disks :: "thread_options \<Rightarrow> bool \<Rightarrow> thread_setup \<Rightarrow> thread_setup" where
  "init_disks to params_ok st =
     (case disk_loop to params_ok (to_disk_threads to) st of ((ds, rs), st') \<Rightarrow>
        insert_workers kRandomDiskType (rs, insert_workers kDiskType (ds, st')))"

definition init_cpu :: "thread_options \<Rightarrow> thread_setup \<Rightarrow> thread_setup" where
  "init_cpu to st = insert_workers kCPUType (create_loop (stress_worker to) [0..<to_cpu_stress_threads to] st)"

definition init_cc :: "thread_options \<Rightarrow> thread_setup \<Rightarrow> thread_setup" where
  "init_cc to st = (if to_cc_test to then insert_workers kCCType (create_loop cc_worker [0..<to_cpu_count to] st) else st)"

definition init_cpu_freq :: "thread_options \<Rightarrow> thread_setup \<Rightarrow> thread_setup" where
  "init_cpu_freq to st =
     (if to_cpu_freq_test to then insert_workers kCPUFreqType (create_loop (plain_worker kCPUFreqType power_spike_status) [0..<1] st) else st)"

text \<open>\<open>params_ok\<close>: whether \<open>DiskThread::SetParameters\<close> accepts the parameters; they are the same for all disk workers.\<close>

definition InitializeThreads :: "thread_options \<Rightarrow> bool \<Rightarrow> thread_setup \<Rightarrow> thread_setup" where
  "InitializeThreads to params_ok st =
     (let st1 = init_error_poll to st
      in if to_monitor_mode to then st1
         else init_cpu_freq to (init_cc to (init_cpu to (init_disks to params_ok (init_check_invert to (init_net to
                (init_files to (init_memory to st1))))))))"

text \<open>The map is walked in the order of the keys.\<close>

fun type_key :: "worker_type \<Rightarrow> nat" where
  "type_key kMemoryType = 0"
| "type_key kFileIOType = 1"
| "type_key kNetIOType = 2"
| "type_key kNetSlaveType = 3"
| "type_key kCheckType = 4"
| "type_key kInvertType = 5"
| "type_key kDiskType = 6"
| "type_key kRandomDiskType = 7"
| "type_key kCPUType = 8"
| "type_key kErrorType = 9"
| "type_key kCCType = 10"
| "type_key kCPUFreqType = 11"

definition all_workers :: "thread_setup \<Rightarrow> worker_desc list" where
  "all_workers st = concat (map snd (sort_key (type_key \<circ> fst) (ss_map st)))"

text \<open>
  \<open>SpawnThreads\<close>: a worker whose thread cannot be created is removed from its status object and counted in \<open>statuscount_\<close>. The result is
  whether all could be created, the workers registered after that, and \<open>statuscount_\<close>.
\<close>

definition SpawnThreads :: "(int \<Rightarrow> bool) \<Rightarrow> thread_setup \<Rightarrow> int \<Rightarrow> bool \<times> thread_setup \<times> int" where
  "SpawnThreads created st statuscount =
     (let failed = filter (\<lambda>w. \<not> created (wk_num w)) (all_workers st)
      in (failed = [], st\<lparr>ss_power := ss_power st - length (filter (\<lambda>w. wk_status w = power_spike_status) failed),
                          ss_continuous := ss_continuous st - length (filter (\<lambda>w. wk_status w = continuous_status) failed)\<rparr>,
          statuscount + int (length failed)))"

section \<open>Numbers and registrations\<close>

text \<open>
  What an initialised state satisfies: the workers have different numbers below \<open>total_threads_\<close>, and each status object counts its workers
  and \<open>lost\<close> more for the first.
\<close>

definition setup_ok :: "nat \<Rightarrow> thread_setup \<Rightarrow> worker_desc list \<Rightarrow> bool" where
  "setup_ok lost st ws \<longleftrightarrow> distinct (map wk_num ws) \<and> (\<forall>w \<in> set ws. wk_num w < ss_total st) \<and>
     ss_power st = length (filter (\<lambda>w. wk_status w = power_spike_status) ws) + lost \<and>
     ss_continuous st = length (filter (\<lambda>w. wk_status w = continuous_status) ws)"

text \<open>One worker in each turn, under the next number.\<close>

definition creates_one :: "(nat \<Rightarrow> thread_setup \<Rightarrow> worker_desc list \<times> thread_setup) \<Rightarrow> bool" where
  "creates_one c \<longleftrightarrow> (\<exists>ty so. \<forall>i st. \<exists>w. c i st = ([w], snd (InitThread ty so st)) \<and> wk_num w = ss_total st \<and> wk_status w = so)"

lemma creates_oneI:
  assumes "\<And>i st. \<exists>w. c i st = ([w], snd (InitThread ty so st)) \<and> wk_num w = ss_total st \<and> wk_status w = so"
  shows "creates_one c"
  unfolding creates_one_def using assms by (intro exI [of _ ty] exI [of _ so]) blast

lemma creates_one_all [simp]:
  "creates_one (plain_worker ty so)" "creates_one (copy_worker to)" "creates_one (stress_worker to)" "creates_one file_worker_desc"
  "creates_one cc_worker" "creates_one (disk_worker_desc ty True)"
  by (rule creates_oneI [of _ ty so], simp add: plain_worker_def InitThread_def)
    (rule creates_oneI [of _ kMemoryType power_spike_status], simp add: copy_worker_def InitThread_def Let_def,
     rule creates_oneI [of _ kCPUType continuous_status], simp add: stress_worker_def InitThread_def,
     rule creates_oneI [of _ kFileIOType power_spike_status], simp add: file_worker_desc_def InitThread_def,
     rule creates_oneI [of _ kCCType continuous_status], simp add: cc_worker_def InitThread_def,
     rule creates_oneI [of _ ty power_spike_status], simp add: disk_worker_desc_def InitThread_def)

lemma setup_ok_add:
  assumes "setup_ok lost st ws" "wk_num w = ss_total st" "wk_status w = so"
  shows "setup_ok lost (snd (InitThread ty so st)) (ws @ [w])" "ss_map (snd (InitThread ty so st)) = ss_map st"
  using assms by (cases so; auto simp: setup_ok_def InitThread_def)+

lemma create_loop_ok:
  assumes "creates_one c"
  shows "setup_ok lost st ws \<Longrightarrow> create_loop c is st = (new, st') \<Longrightarrow>
    setup_ok lost st' (ws @ new) \<and> ss_map st' = ss_map st \<and> length new = length is"
proof (induction "is" arbitrary: st ws new)
  case (Cons i "is")
  obtain ty so where one: "\<And>i st. \<exists>w. c i st = ([w], snd (InitThread ty so st)) \<and> wk_num w = ss_total st \<and> wk_status w = so"
    using assms by (auto simp: creates_one_def)
  obtain w where w: "c i st = ([w], snd (InitThread ty so st))" "wk_num w = ss_total st" "wk_status w = so" using one by blast
  obtain new' where n: "create_loop c is (snd (InitThread ty so st)) = (new', st')" "new = w # new'"
    using Cons.prems(2) w(1) by (auto split: prod.splits)
  note add = setup_ok_add [OF Cons.prems(1) w(2,3), of ty]
  from Cons.IH [OF add(1) n(1)] show ?case using n(2) add(2) by simp
qed simp

text \<open>Refused disk workers are counted and lost.\<close>

lemma lose_one:
  assumes "setup_ok lost st ws"
  shows "setup_ok (Suc lost) (snd (InitThread ty power_spike_status st)) ws" "ss_map (snd (InitThread ty so st)) = ss_map st"
  using assms by (auto simp: setup_ok_def InitThread_def)

lemma disk_worker_refused: "disk_worker_desc ty False i st = ([], snd (InitThread ty power_spike_status st))"
  by (simp add: disk_worker_desc_def split: prod.splits)

lemma lose_loop:
  "setup_ok lost st ws \<Longrightarrow> create_loop (disk_worker_desc ty False) is st = (new, st') \<Longrightarrow>
   new = [] \<and> setup_ok (lost + length is) st' ws \<and> ss_map st' = ss_map st"
proof (induction "is" arbitrary: st lost new)
  case (Cons i "is")
  obtain new' where n: "create_loop (disk_worker_desc ty False) is (snd (InitThread ty power_spike_status st)) = (new', st')" "new = new'"
    using Cons.prems(2) disk_worker_refused [of ty i st] by (auto split: prod.splits)
  from Cons.IH [OF lose_one(1) [OF Cons.prems(1)] n(1)] show ?case using n(2) lose_one(2) [OF Cons.prems(1)] by simp
qed simp

lemma setup_ok_mset:
  assumes "mset ws = mset ws'" "setup_ok lost st ws"
  shows "setup_ok lost st ws'"
proof -
  have "length (filter P ws) = length (filter P ws')" for P using assms(1) by (metis mset_filter size_mset)
  moreover have "distinct (map wk_num ws) = distinct (map wk_num ws')" using assms(1) by (metis mset_eq_imp_distinct_iff mset_map)
  ultimately show ?thesis using assms mset_eq_setD [OF assms(1)] by (simp add: setup_ok_def)
qed

lemma disk_loop_ok:
  "setup_ok lost st ws \<Longrightarrow> disk_loop to params_ok n st = ((ds, rs), st') \<Longrightarrow>
   setup_ok (lost + (if params_ok then 0 else n * (1 + to_random_threads to))) st' (ws @ ds @ rs) \<and> ss_map st' = ss_map st"
proof (induction n arbitrary: st lost ws ds rs)
  case (Suc n)
  obtain d st1 r st2 ds' rs' where c: "disk_worker_desc kDiskType params_ok 0 st = (d, st1)"
    "create_loop (disk_worker_desc kRandomDiskType params_ok) [0..<to_random_threads to] st1 = (r, st2)"
    "disk_loop to params_ok n st2 = ((ds', rs'), st')" "ds = d @ ds'" "rs = r @ rs'"
    using Suc.prems(2) by (auto split: prod.splits)
  show ?case
  proof (cases params_ok)
    case True
    have d: "create_loop (disk_worker_desc kDiskType params_ok) [0] st = (d, st1)" using c(1) by simp
    have one: "creates_one (disk_worker_desc ty params_ok)" for ty using True by simp
    note step1 = create_loop_ok [OF one Suc.prems(1) d]
    note step2 = create_loop_ok [OF one conjunct1 [OF step1] c(2)]
    from Suc.IH [OF conjunct1 [OF step2] c(3)] step1 step2 True show ?thesis
      by (auto simp: c(4,5) intro: setup_ok_mset [rotated])
  next
    case False
    have step1: "d = []" "setup_ok (Suc lost) st1 ws" "ss_map st1 = ss_map st"
      using c(1) False lose_one [OF Suc.prems(1)] disk_worker_refused [of kDiskType 0 st] by auto
    have step2: "r = []" "setup_ok (Suc lost + to_random_threads to) st2 ws" "ss_map st2 = ss_map st1"
      using lose_loop [OF step1(2), of kRandomDiskType "[0..<to_random_threads to]" r st2] c(2) False by auto
    from Suc.IH [OF step2(2) c(3)] show ?thesis using False step1 step2 c(4,5) by (simp add: algebra_simps)
  qed
qed simp

lemma all_workers_mset: "mset (all_workers st) = mset (concat (map snd (ss_map st)))"
proof -
  have "mset (concat xs) = sum_mset (image_mset mset (mset xs))" for xs :: "worker_desc list list" by (induction xs) auto
  then show ?thesis by (simp add: all_workers_def)
qed

lemma all_workers_insert: "mset (all_workers (insert_workers ty (ws, st))) = mset (all_workers st) + mset ws"
  by (simp add: all_workers_mset insert_workers_def)

text \<open>One vector of workers after the other.\<close>

lemma init_vector:
  assumes "creates_one c" "setup_ok lost st (all_workers st)"
  shows "setup_ok lost (insert_workers ty (create_loop c is st)) (all_workers (insert_workers ty (create_loop c is st)))"
proof -
  obtain new st' where c: "create_loop c is st = (new, st')" by force
  note loop = create_loop_ok [OF assms c]
  have "setup_ok lost (insert_workers ty (new, st')) (all_workers st @ new)"
    using loop by (simp add: setup_ok_def insert_workers_def)
  moreover have "mset (all_workers st @ new) = mset (all_workers (insert_workers ty (new, st')))"
    using loop by (simp add: all_workers_insert) (simp add: all_workers_mset)
  ultimately show ?thesis using setup_ok_mset unfolding c by blast
qed

lemma init_net_ok:
  assumes "setup_ok lost st (all_workers st)"
  shows "setup_ok lost (init_net to st) (all_workers (init_net to st))"
proof -
  obtain slaves st1 where s: "create_loop (plain_worker kNetSlaveType continuous_status) [0..<(if 0 < to_listen_threads to then 1 else 0)] st = (slaves, st1)"
    by force
  obtain nets st2 where n: "create_loop (plain_worker kNetIOType continuous_status) [0..<to_net_threads to] st1 = (nets, st2)" by force
  let ?st = "insert_workers kNetSlaveType (slaves, insert_workers kNetIOType (nets, st2))"
  note slaves = create_loop_ok [OF creates_one_all(1) assms s]
  note nets = create_loop_ok [OF creates_one_all(1) conjunct1 [OF slaves] n]
  have "setup_ok lost ?st ((all_workers st @ slaves) @ nets)" using nets by (simp add: setup_ok_def insert_workers_def)
  moreover have "mset ((all_workers st @ slaves) @ nets) = mset (all_workers ?st)"
    using slaves nets by (simp add: all_workers_insert) (simp add: all_workers_mset)
  ultimately have "setup_ok lost ?st (all_workers ?st)" by (rule setup_ok_mset [rotated])
  then show ?thesis using s n by (simp add: init_net_def)
qed

lemma init_disks_ok:
  assumes "setup_ok lost st (all_workers st)"
  shows "setup_ok (lost + (if params_ok then 0 else to_disk_threads to * (1 + to_random_threads to))) (init_disks to params_ok st)
    (all_workers (init_disks to params_ok st))"
proof -
  obtain ds rs st1 where d: "disk_loop to params_ok (to_disk_threads to) st = ((ds, rs), st1)" by (metis prod.exhaust)
  let ?st = "insert_workers kRandomDiskType (rs, insert_workers kDiskType (ds, st1))"
    and ?lost = "lost + (if params_ok then 0 else to_disk_threads to * (1 + to_random_threads to))"
  note loop = disk_loop_ok [OF assms d]
  have "setup_ok ?lost ?st (all_workers st @ ds @ rs)" using loop unfolding setup_ok_def by (simp add: insert_workers_def)
  moreover have "mset (all_workers st @ ds @ rs) = mset (all_workers ?st)"
    using loop by (simp add: all_workers_insert) (simp add: all_workers_mset)
  ultimately have "setup_ok ?lost ?st (all_workers ?st)" by (rule setup_ok_mset [rotated])
  then show ?thesis using d by (simp add: init_disks_def)
qed

lemma init_ok:
  assumes "setup_ok lost st (all_workers st)"
  shows "setup_ok lost (init_error_poll to st) (all_workers (init_error_poll to st))"
    "setup_ok lost (init_memory to st) (all_workers (init_memory to st))" "setup_ok lost (init_files to st) (all_workers (init_files to st))"
    "setup_ok lost (init_check_invert to st) (all_workers (init_check_invert to st))" "setup_ok lost (init_cpu to st) (all_workers (init_cpu to st))"
    "setup_ok lost (init_cc to st) (all_workers (init_cc to st))" "setup_ok lost (init_cpu_freq to st) (all_workers (init_cpu_freq to st))"
  using assms unfolding init_error_poll_def init_memory_def init_files_def init_check_invert_def init_cpu_def init_cc_def init_cpu_freq_def
  by (auto intro!: init_vector simp del: create_loop.simps)

lemma InitializeThreads_ok:
  assumes "setup_ok 0 st (all_workers st)"
  shows "setup_ok (if params_ok \<or> to_monitor_mode to then 0 else to_disk_threads to * (1 + to_random_threads to))
    (InitializeThreads to params_ok st) (all_workers (InitializeThreads to params_ok st))"
proof (cases "to_monitor_mode to")
  case True
  then show ?thesis using init_ok(1) [OF assms] by (simp add: InitializeThreads_def)
next
  case False
  have "setup_ok 0 (init_check_invert to (init_net to (init_files to (init_memory to (init_error_poll to st)))))
      (all_workers (init_check_invert to (init_net to (init_files to (init_memory to (init_error_poll to st))))))"
    by (intro init_ok init_net_ok assms)
  from init_ok(7) [OF init_ok(6) [OF init_ok(5) [OF init_disks_ok [OF this, of params_ok to]]]] show ?thesis
    using False by (simp add: InitializeThreads_def Let_def)
qed

section \<open>Properties\<close>

text \<open>A worker that never takes part keeps \<open>PauseWorkers\<close> from returning.\<close>

lemma absent_worker_blocks:
  assumes "ws_reach n s" "i < length (workers s)" "workers s ! i = Working b"
  shows "control s \<noteq> CPaused"
proof -
  have "Working b \<in> set (workers s)" using assms(2,3) by (metis nth_mem)
  then show ?thesis using ws_invD(1) [OF reach_inv [OF assms(1)]] by fastforce
qed

text \<open>
  C20. Registered and existing workers. \<open>InitializeThreads\<close> gives all workers different numbers, and \<open>continuous_status_\<close> counts exactly the workers that obey
  it. \<open>power_spike_status_\<close> counts exactly its workers if the disk parameters are accepted; if they are refused it counts every deleted disk
  worker as well, and then, as long as one of the registered workers has never acted, no call of \<open>PauseWorkers\<close> returns.
\<close>

theorem workers_registered:
  fixes to :: thread_options and params_ok :: bool
  assumes "ss_map st = []" "ss_power st = 0" "ss_continuous st = 0"
  defines "st' \<equiv> InitializeThreads to params_ok st"
  shows "distinct (map wk_num (all_workers st')) \<and>
    ss_continuous st' = length (filter (\<lambda>w. wk_status w = continuous_status) (all_workers st')) \<and>
    ss_power st' = length (filter (\<lambda>w. wk_status w = power_spike_status) (all_workers st')) +
      (if params_ok \<or> to_monitor_mode to then 0 else to_disk_threads to * (1 + to_random_threads to)) \<and>
    (\<forall>s i b. ws_reach (ss_power st') s \<and> i < length (workers s) \<and> workers s ! i = Working b \<longrightarrow> control s \<noteq> CPaused)"
proof -
  have "all_workers st = []" using assms(1) by (simp add: all_workers_def)
  then have "setup_ok 0 st (all_workers st)" using assms(2,3) by (simp add: setup_ok_def)
  from InitializeThreads_ok [OF this, of params_ok to] show ?thesis using absent_worker_blocks by (auto simp: setup_ok_def st'_def)
qed

lemma nthbit_eq:
  assumes "0 \<le> i" "i < cores"
  shows "nthbit cores i = (if 2 * i < cores then 2 * i else (2 * i - cores + 1) mod cores)"
proof (cases "2 * i < cores")
  case False
  have "(2 * i) div cores = 1" "(2 * i) mod cores = 2 * i - cores"
    using False assms int_div_pos_eq [of "2 * i" cores 1 "2 * i - cores"] int_mod_pos_eq [of "2 * i" cores 1 "2 * i - cores"] by auto
  then show ?thesis using False by (simp add: nthbit_def)
qed (use assms in \<open>simp add: nthbit_def div_pos_pos_trivial mod_pos_pos_trivial\<close>)

text \<open>
  Cores without overlap. The places computed for the copy workers, from below, and for the CPU stress workers, from above, are cores of the
  machine. When there are as many cores as workers they are all different if and only if the number of cores is even or one: for an odd number
  the second copy worker shares its core with another worker.
\<close>

lemma core_placement:
  assumes "0 < cores"
  shows "(\<forall>i. 0 \<le> i \<and> i < cores \<longrightarrow> 0 \<le> nthbit cores i \<and> nthbit cores i < cores \<and> stress_core cores i = nthbit cores (cores - 1 - i)) \<and>
    ((\<forall>i j. 0 \<le> i \<and> i < cores \<and> 0 \<le> j \<and> j < cores \<and> i \<noteq> j \<longrightarrow> nthbit cores i \<noteq> nthbit cores j) \<longleftrightarrow> cores = 1 \<or> even cores)"
proof (intro conjI iffI allI impI)
  fix i assume "0 \<le> i \<and> i < cores"
  then show "0 \<le> nthbit cores i" "nthbit cores i < cores" "stress_core cores i = nthbit cores (cores - 1 - i)"
    using assms by (simp_all add: nthbit_def stress_core_def)
next
  assume inj: "\<forall>i j. 0 \<le> i \<and> i < cores \<and> 0 \<le> j \<and> j < cores \<and> i \<noteq> j \<longrightarrow> nthbit cores i \<noteq> nthbit cores j"
  show "cores = 1 \<or> even cores"
  proof (rule ccontr)
    assume "\<not> (cores = 1 \<or> even cores)"
    then obtain m where m: "cores = 2 * m + 1" "0 < m" using assms by (auto elim!: oddE)
    have "nthbit cores 1 = 2" "nthbit cores (m + 1) = 2"
      using m nthbit_eq [of 1 cores] nthbit_eq [of "m + 1" cores] by auto
    then show False using inj m by (auto dest: spec [of _ 1])
  qed
next
  fix i j assume c: "cores = 1 \<or> even cores" and ij: "0 \<le> i \<and> i < cores \<and> 0 \<le> j \<and> j < cores \<and> i \<noteq> j"
  then obtain m where m: "cores = 2 * m" by (auto elim!: evenE)
  have eq: "nthbit cores k = (if k < m then 2 * k else 2 * (k - m) + 1)" if "0 \<le> k" "k < cores" for k
    using that m nthbit_eq [OF that] by (auto simp: mod_pos_pos_trivial)
  show "nthbit cores i \<noteq> nthbit cores j" using ij eq by (auto split: if_splits) presburger+
qed

section \<open>Concrete instances\<close>

text \<open>Two copy workers and a disk with a random worker, on four cores.\<close>

definition ex_to :: thread_options where
  "ex_to = \<lparr>to_error_poll = False, to_monitor_mode = False, to_memory_threads = 2, to_file_threads = 0, to_listen_threads = 0, to_net_threads = 0,
     to_check_threads = 0, to_invert_threads = 0, to_disk_threads = 1, to_random_threads = 1, to_cpu_stress_threads = 0, to_cc_test = False,
     to_cpu_freq_test = False, to_region_mode = NoNuma, to_region_count = 1, to_region_mask = 1, to_cores = 4, to_cpu_count = 4, to_num_nodes = 1,
     to_cpus_per_node = 4\<rparr>"

definition ex_setup :: thread_setup where
  "ex_setup = \<lparr>ss_total = 0, ss_power = 0, ss_continuous = 0, ss_map = []\<rparr>"

theorem workers_registered_witness:
  "distinct (map wk_num (all_workers (InitializeThreads ex_to False ex_setup))) \<and>
   ss_power (InitializeThreads ex_to False ex_setup) =
     length (filter (\<lambda>w. wk_status w = power_spike_status) (all_workers (InitializeThreads ex_to False ex_setup))) + 2"
  using workers_registered [of ex_setup ex_to False] by (simp add: ex_setup_def ex_to_def)

end
