(* ===== verification/MemTest.thy ===== *)
theory MemTest
  imports Workers
begin

text \<open>
  Correctness of the memory workers as a whole. As long as the memory itself does not corrupt data, no interleaving of
  copy, check and invert workers reports an error, loses a page or leaves a valid page with other data than its pattern;
  the fill workers establish this state; and a wrong word in a valid page is found by the next check of that page.
\<close>

section \<open>Pages in the memory\<close>

lemma nth_store_page:
  assumes "page_start pe + length xs \<le> length mem" "m < length mem"
  shows "store_page pe xs mem ! m =
    (if page_start pe \<le> m \<and> m < page_start pe + length xs then xs ! (m - page_start pe) else mem ! m)"
  using assms by (auto simp: store_page_def nth_append)

lemma length_store_page: "page_start pe + length xs \<le> length mem \<Longrightarrow> length (store_page pe xs mem) = length mem"
  by (simp add: store_page_def)

lemma load_store_same:
  assumes "page_start pe + length xs \<le> length mem" "length xs = page_words sc" "pe_offset pe' = pe_offset pe"
  shows "load_page sc pe' (store_page pe xs mem) = xs"
  using assms by (simp add: load_page_def store_page_def page_start_def)

lemma store_load_same:
  assumes "page_start pe + page_words sc \<le> length mem"
  shows "store_page pe (load_page sc pe mem) mem = mem"
  using assms by (intro nth_equalityI) (auto simp: nth_store_page length_store_page load_page_def)

lemma load_store_other:
  assumes "page_start pe + length xs \<le> length mem" "page_start pe' + page_words sc \<le> length mem"
    and "page_start pe + length xs \<le> page_start pe' \<or> page_start pe' + page_words sc \<le> page_start pe"
  shows "load_page sc pe' (store_page pe xs mem) = load_page sc pe' mem"
  using assms by (intro nth_equalityI) (auto simp: load_page_def length_store_page nth_store_page)

section \<open>The geometry of a run\<close>

text \<open>
  \<open>N\<close> pages of \<open>page_length\<close> bytes, a multiple of the 64-byte cache line, statically mapped; the words are all there. With tags
  the memory starts on a cache line.
\<close>

definition geometry :: "settings \<Rightarrow> nat \<Rightarrow> u64 list \<Rightarrow> bool" where
  "geometry sc N mem \<longleftrightarrow> 1 \<le> N \<and> N \<le> 2 ^ 20 \<and> 0 < cf_page_length (sc_cfg sc) \<and>
     cf_page_length (sc_cfg sc) * 2 ^ 20 < 2 ^ 63 \<and> 64 dvd cf_page_length (sc_cfg sc) \<and>
     os_maps (sc_os sc) (cf_page_length (sc_cfg sc)) (page_offsets N (cf_page_length (sc_cfg sc))) \<and>
     N * page_words sc \<le> length mem \<and> (cf_tag_mode (sc_cfg sc) \<longrightarrow> 64 dvd unat (os_testmem (sc_os sc)))"

abbreviation all_pages :: "settings \<Rightarrow> nat \<Rightarrow> u64 multiset" where
  "all_pages sc N \<equiv> page_offsets N (cf_page_length (sc_cfg sc))"

abbreviation page_addr :: "settings \<Rightarrow> u64 \<Rightarrow> u64" where
  "page_addr sc off \<equiv> os_testmem (sc_os sc) + off"

lemma geometry_length: "geometry sc N mem \<Longrightarrow> length mem' = length mem \<Longrightarrow> geometry sc N mem'"
  by (simp add: geometry_def)

lemma geometry_bytes:
  assumes "geometry sc N mem"
  shows "cf_page_length (sc_cfg sc) = 8 * int (page_words sc)" "nat (cf_page_length (sc_cfg sc)) = 8 * page_words sc"
    "0 < page_words sc" "8 dvd page_words sc"
proof -
  obtain c where c: "cf_page_length (sc_cfg sc) = 64 * c" "0 < c" using assms by (auto simp: geometry_def zero_less_mult_iff)
  then show "cf_page_length (sc_cfg sc) = 8 * int (page_words sc)" "nat (cf_page_length (sc_cfg sc)) = 8 * page_words sc"
    "0 < page_words sc" "8 dvd page_words sc"
    by (auto simp: page_words_def nat_mult_distrib intro!: dvdI [of _ _ "nat c"])
qed

lemma page_index:
  assumes geo: "geometry sc N mem" and off: "pe_offset pe \<in># all_pages sc N"
  obtains i where "i < N" "pe_offset pe = of_nat i * of_int (cf_page_length (sc_cfg sc))"
    "unat (pe_offset pe) = i * nat (cf_page_length (sc_cfg sc))" "page_start pe = i * page_words sc"
proof -
  let ?pl = "cf_page_length (sc_cfg sc)"
  obtain i where i: "i < N" "pe_offset pe = of_nat i * of_int ?pl"
    using off by (auto simp: page_offsets_def)
  have geo': "1 \<le> N" "N \<le> 2 ^ 20" "0 < ?pl" "?pl * 2 ^ 20 < 2 ^ 63" using geo by (auto simp: geometry_def)
  let ?q = "FineLockPEQueue_new (\<lambda>_. undefined) N ?pl"
  have q: "fl_q_size ?q = N" "fl_page_size ?q = ?pl"
    by (simp_all add: FineLockPEQueue_new_def split: prod.splits)
  have "unat (offset_of ?q i) = i * nat ?pl"
    using unat_offset_of(1) [OF FineLockPEQueue_new_wf [OF geo'], of i "\<lambda>_. undefined"] i(1) q by simp
  then have un: "unat (pe_offset pe) = i * nat ?pl" using i(2) q by (simp add: offset_of_def)
  have "page_start pe = i * page_words sc"
    unfolding page_start_def un geometry_bytes(2) [OF geo] by simp
  with i un show thesis using that by blast
qed

lemma page_fits:
  assumes "geometry sc N mem" "pe_offset pe \<in># all_pages sc N"
  shows "page_start pe + page_words sc \<le> length mem"
proof -
  obtain i where i: "i < N" "page_start pe = i * page_words sc" using page_index [OF assms] .
  have "page_start pe + page_words sc = Suc i * page_words sc" using i(2) by simp
  also have "\<dots> \<le> N * page_words sc" using i(1) by (intro mult_le_mono1) simp
  finally show ?thesis using assms(1) by (simp add: geometry_def)
qed

lemma page_disjoint:
  assumes "geometry sc N mem" "pe_offset pe \<in># all_pages sc N" "pe_offset pe' \<in># all_pages sc N"
    and "pe_offset pe \<noteq> pe_offset pe'"
  shows "page_start pe + page_words sc \<le> page_start pe' \<or> page_start pe' + page_words sc \<le> page_start pe"
proof -
  obtain i where i: "pe_offset pe = of_nat i * of_int (cf_page_length (sc_cfg sc))" "page_start pe = i * page_words sc"
    using page_index [OF assms(1,2)] .
  obtain j where j: "pe_offset pe' = of_nat j * of_int (cf_page_length (sc_cfg sc))" "page_start pe' = j * page_words sc"
    using page_index [OF assms(1,3)] .
  have "i \<noteq> j" using assms(4) i(1) j(1) by auto
  then have "Suc i \<le> j \<or> Suc j \<le> i" by linarith
  then have "Suc i * page_words sc \<le> j * page_words sc \<or> Suc j * page_words sc \<le> i * page_words sc"
    by (meson mult_le_mono1)
  then show ?thesis using i(2) j(2) by (simp add: add.commute)
qed

lemma length_load_page: "geometry sc N mem \<Longrightarrow> pe_offset pe \<in># all_pages sc N \<Longrightarrow> length (load_page sc pe mem) = page_words sc"
  using page_fits [of sc N mem pe] by (simp add: load_page_def)

lemma store_frame:
  assumes "geometry sc N mem" "pe_offset pe \<in># all_pages sc N" "pe_offset pe' \<in># all_pages sc N"
    and "length xs = page_words sc"
  shows "load_page sc pe' (store_page pe xs mem) = (if pe_offset pe' = pe_offset pe then xs else load_page sc pe' mem)"
  using page_fits [OF assms(1,2)] page_fits [OF assms(1,3)] page_disjoint [OF assms(1-3)] assms(4)
    load_store_same [of pe xs mem sc pe'] load_store_other [of pe xs mem pe' sc]
  by auto

section \<open>What a page holds\<close>

definition pl_ok :: "PatternList \<Rightarrow> bool" where
  "pl_ok pl \<longleftrightarrow> (\<forall>p \<in> set (patterns pl). wf_page_pattern p) \<and> 0 < length (patterns pl) \<and> pl_size pl = length (patterns pl) \<and>
     weightcount pl = weight_before (patterns pl) (length (patterns pl)) \<and> 0 < weightcount pl \<and>
     (\<forall>i \<in> set (selected_pattern_ids pl). i < length (patterns pl))"

definition holds :: "settings \<Rightarrow> Pattern list \<Rightarrow> u64 list \<Rightarrow> page_entry \<Rightarrow> bool" where
  "holds sc pats mem pe \<longleftrightarrow> (\<exists>k<length pats. pe_pattern pe = Some k \<and>
     load_page sc pe mem = page_data (sc_cfg sc) (pats ! k) (page_addr sc (pe_offset pe)))"

definition tagged_page :: "settings \<Rightarrow> u64 list \<Rightarrow> page_entry \<Rightarrow> bool" where
  "tagged_page sc mem pe \<longleftrightarrow>
     (\<forall>i<page_words sc. is_tag (sc_cfg sc) i \<longrightarrow> load_page sc pe mem ! i = tag_at (page_addr sc (pe_offset pe)) i)"

definition mapped :: "settings \<Rightarrow> nat \<Rightarrow> page_entry \<Rightarrow> bool" where
  "mapped sc N pe \<longleftrightarrow> pe_offset pe \<in># all_pages sc N \<and> pe_addr pe = page_addr sc (pe_offset pe)"

lemma now_cfg_simps [simp]:
  "cf_tag_mode (now_cfg sc env) = cf_tag_mode (sc_cfg sc)" "cf_page_length (now_cfg sc env) = cf_page_length (sc_cfg sc)"
  "cf_stop_on_error (now_cfg sc env) = cf_stop_on_error (sc_cfg sc)" "cf_cpu (now_cfg sc env) = se_cpu env"
  "cf_frequency (now_cfg sc env) = se_frequency env"
  by (simp_all add: now_cfg_def)

lemma now_cfg_data [simp]:
  "page_data (now_cfg sc env) = page_data (sc_cfg sc)" "is_tag (now_cfg sc env) = is_tag (sc_cfg sc)"
  "tag_ok (now_cfg sc env) = tag_ok (sc_cfg sc)"
  by (auto simp: page_data_def is_tag_def tag_ok_def fun_eq_iff)

lemma page_tag_ok:
  assumes "geometry sc N mem" "mapped sc N pe"
  shows "tag_ok (sc_cfg sc) (pe_addr pe)"
proof (cases "cf_tag_mode (sc_cfg sc)")
  case True
  let ?a = "os_testmem (sc_os sc)"
  have off: "pe_offset pe \<in># all_pages sc N" and addr: "pe_addr pe = ?a + pe_offset pe" using assms(2) by (simp_all add: mapped_def)
  obtain i where "unat (pe_offset pe) = i * nat (cf_page_length (sc_cfg sc))"
    using page_index [OF assms(1) off] .
  moreover have "64 dvd nat (cf_page_length (sc_cfg sc))" using geometry_bytes(2,4) [OF assms(1)] by (auto intro: mult_dvd_mono)
  ultimately have "64 dvd unat (pe_offset pe)" by simp
  moreover have "64 dvd unat ?a" using assms(1) True by (simp add: geometry_def)
  ultimately have "64 dvd unat (?a + pe_offset pe)"
    by (simp add: unat_word_ariths dvd_mod_iff)
  then show ?thesis using addr by (simp add: tag_ok_def aligned_def and_0x3f dvd_eq_mod_eq_0)
qed (simp add: tag_ok_def)

lemma holds_page_ok:
  assumes "geometry sc N mem" "mapped sc N pe" "pl_ok pl" "holds sc (patterns pl) mem pe"
  shows "page_ok (now_cfg sc env) (patterns pl) pe (load_page sc pe mem)"
    "load_page sc pe mem = page_data (sc_cfg sc) (pat_of (patterns pl) pe) (pe_addr pe)"
  using assms page_tag_ok [OF assms(1,2)] length_load_page [OF assms(1), of pe] geometry_bytes(2) [OF assms(1)]
  by (auto simp: holds_def mapped_def page_ok_def pl_ok_def pat_of_def)

lemma holds_tagged: "holds sc pats mem pe \<Longrightarrow> tagged_page sc mem pe"
  by (auto simp: holds_def tagged_page_def page_data_ok fill_word_tag page_words_def)

lemma length_page_data: "length (page_data (sc_cfg sc) p a) = page_words sc"
  by (simp add: page_data_def page_words_def)

section \<open>The work of a step on good pages\<close>

lemma from_as_worker [simp]: "from_worker (as_worker th s) (th, s') = (th, s'\<lparr>sat_shared := (sat_shared s)
    \<lparr>w_errorcount := w_errorcount (sat_shared s'), w_diag := w_diag (sat_shared s')\<rparr>\<rparr>)"
  by (simp add: from_worker_def as_worker_def)

lemma note_operation_frame: "\<exists>d. note_operation sc env phase r w errors th = th\<lparr>th_diag := d\<rparr>"
  unfolding note_operation_def by (cases "sc_diag_phase_summary sc") (auto intro: exI [of _ "th_diag th"])

lemma note_write_frame: "\<exists>h. note_write sc env epoch th off writer s = s\<lparr>sat_history := h\<rparr>"
  unfolding note_write_def by (cases "sc_diag_block_history sc") (auto intro: exI [of _ "sat_history s"])

lemma check_page_good:
  assumes "geometry sc N (sat_mem s)" "mapped sc N pe" "pl_ok (sat_patternlist s)"
    and "holds sc (patterns (sat_patternlist s)) (sat_mem s) pe"
  shows "check_page sc env name phase pe (th, s) = Inr (0, th, s)"
proof -
  note ok = holds_page_ok [OF assms]
  have "pe_offset pe \<in># all_pages sc N" using assms(2) by (simp add: mapped_def)
  note same = store_load_same [OF page_fits [OF assms(1) this]]
  show ?thesis
    using CrcCheckPage_clean [of "now_cfg sc env" "patterns (sat_patternlist s)" pe name phase "as_worker th s"] ok same
    by (simp add: check_page_def)
qed

lemma plain_copy_good:
  assumes geo: "geometry sc N mem" and src: "mapped sc N src" "holds sc pats mem src" and dst: "mapped sc N dst"
  shows "plain_copy (now_cfg sc env) dst src (load_page sc src mem, w) =
    Inr (0, (dst\<lparr>pe_pattern := pe_pattern src, pe_lastcpu := se_cpu env, pe_write_dram_frequency := se_frequency env\<rparr>,
             page_data (sc_cfg sc) (pat_of pats src) (pe_addr dst)), load_page sc src mem, w)"
proof -
  let ?data = "load_page sc src mem" and ?cfg = "sc_cfg sc"
  have data: "?data = page_data ?cfg (pat_of pats src) (pe_addr src)" "length ?data = page_words sc"
    using src by (auto simp: holds_def mapped_def pat_of_def length_page_data)
  have "(if cf_tag_mode ?cfg then TagAddrC (pe_addr dst) (nat (cf_page_length ?cfg)) ?data else Inr ?data) =
      Inr (tagged ?cfg (pe_addr dst) ?data)"
    using TagAddrC_eq [OF data(2)] geometry_bytes(2) [OF geo] by (simp add: tagged_def)
  moreover have "tagged ?cfg (pe_addr dst) ?data = page_data ?cfg (pat_of pats src) (pe_addr dst)"
  proof (rule nth_equalityI)
    fix i assume "i < length (tagged ?cfg (pe_addr dst) ?data)"
    then have i: "i < page_words sc" using data(2) by simp
    then show "tagged ?cfg (pe_addr dst) ?data ! i = page_data ?cfg (pat_of pats src) (pe_addr dst) ! i"
      using data nth_tagged [of i ?data ?cfg "pe_addr dst"]
      by (cases "is_tag ?cfg i") (simp_all add: page_data_ok page_words_def fill_word_tag fill_word_data)
  qed (simp add: data(2) length_page_data)
  ultimately show ?thesis by (cases "cf_tag_mode ?cfg") (simp_all add: plain_copy_def)
qed

text \<open>Any of the three copies of a good source to a page with its own tags.\<close>

lemma copy_good:
  assumes geo: "geometry sc N mem" and src: "mapped sc N src" "holds sc (patterns pl) mem src" and dst: "mapped sc N dst"
    and pl: "pl_ok pl" and tags: "tagged_page sc mem dst"
    and warm: "sc_warm sc \<Longrightarrow> page_copier (sc_warm_copy sc) (AdlerAddrMemcpyWarm (sc_warm_copy sc))"
  shows "(if sc_warm sc
          then CrcWarmCopyPage (sc_warm_copy sc) (now_cfg sc env) (patterns pl) dst src name phase (load_page sc dst mem) (load_page sc src mem, w)
          else if sc_strict sc
          then CrcCopyPage (now_cfg sc env) (patterns pl) dst src name phase (load_page sc dst mem) (load_page sc src mem, w)
          else plain_copy (now_cfg sc env) dst src (load_page sc src mem, w)) =
    Inr (0, (dst\<lparr>pe_pattern := pe_pattern src, pe_lastcpu := se_cpu env, pe_write_dram_frequency := se_frequency env\<rparr>,
             page_data (sc_cfg sc) (pat_of (patterns pl) src) (pe_addr dst)), load_page sc src mem, w)"
proof -
  let ?cfg = "now_cfg sc env" and ?pats = "patterns pl" and ?p = "pat_of (patterns pl) src" and ?page = "load_page sc src mem"
    and ?dpage = "load_page sc dst mem"
  note ok = holds_page_ok(1) [OF geo src(1) pl src(2), of env] holds_page_ok(2) [OF geo src(1) pl src(2)]
  have len: "length ?page = page_words sc" "length ?dpage = page_words sc"
    using length_load_page [OF geo] src(1) dst by (auto simp: mapped_def)
  have clean: "bad_words ?cfg ?p (pe_addr src) ?page i j = 0 \<and> wrong_tags ?cfg (pe_addr src) ?page i j = 0"
    if "j \<le> page_words sc" for i j
    using page_data_clean [of j ?cfg ?p "pe_addr src" i] that ok(2) by (simp add: page_words_def)
  have "wrong_tags ?cfg (pe_addr dst) ?dpage 0 (page_words sc) = 0"
    using tags dst by (auto simp: wrong_tags_def filter_empty_conv tagged_page_def mapped_def)
  then have dclean: "wrong_tags ?cfg (pe_addr dst) ?dpage 0 (length ?page) = 0" using len by simp
  have limit: "block_limit ?cfg ?p (pe_addr src) ?page"
    unfolding block_limit_def
  proof (intro allI impI)
    fix b assume "b < length ?page div 512"
    then have "512 * b + 512 \<le> page_words sc"
      using div_times_less_eq_dividend [of "page_words sc" 512] len(1)
      by (simp add: less_eq_div_iff_mult_less_eq Suc_le_eq mult.commute flip: Suc_le_eq)
    then show "bad_words ?cfg ?p (pe_addr src) ?page (512 * b) (512 * b + 512) \<le> 1" using clean by simp
  qed
  have crc: "crc_copy_page copy addr_copy marker ?cfg ?pats dst src name phase ?dpage (?page, w) =
      Inr (0, (dst\<lparr>pe_pattern := pe_pattern src, pe_lastcpu := se_cpu env, pe_write_dram_frequency := se_frequency env\<rparr>,
               page_data (sc_cfg sc) ?p (pe_addr dst)), ?page, w)" if copier: "page_copier copy addr_copy" for copy addr_copy marker
  proof -
    obtain w' extra where r: "crc_copy_page copy addr_copy marker ?cfg ?pats dst src name phase ?dpage (?page, w) =
        Inr (bad_words ?cfg ?p (pe_addr src) ?page 0 (length ?page) +
               wrong_tags ?cfg (pe_addr src) ?page (512 * (length ?page div 512)) (length ?page),
             (dst\<lparr>pe_pattern := pe_pattern src, pe_lastcpu := cf_cpu ?cfg, pe_write_dram_frequency := cf_frequency ?cfg\<rparr>,
              page_data ?cfg ?p (pe_addr dst)), page_data ?cfg ?p (pe_addr src), w')"
      "counted ?cfg (wrong_tags ?cfg (pe_addr src) ?page 0 (length ?page) + bad_words ?cfg ?p (pe_addr src) ?page 0 (length ?page) + extra) w w'"
      "extra \<le> wrong_tags ?cfg (pe_addr dst) ?dpage 0 (length ?page)"
      using page_copier.crc_copy_page_eq [OF copier ok(1) limit, of ?dpage marker dst name phase w] len by auto
    then show ?thesis using clean [of "length ?page"] dclean len(1) ok(2) by simp
  qed
  show ?thesis
    using crc [OF crc_copy.page_copier_axioms] crc [OF warm] plain_copy_good [OF geo src dst, of env w]
    by (simp add: CrcCopyPage_def CrcWarmCopyPage_def)
qed

text \<open>One pass over the selected range; two passes cancel.\<close>

definition inverted :: "settings \<Rightarrow> nat \<Rightarrow> u64 list \<Rightarrow> u64 list" where
  "inverted sc k page =
     (if even k then page
      else invert_page (nat (invert_range_bytes (sc_invert_range sc) (cf_page_length (sc_cfg sc)) div 8)) page)"

lemma inverted_simps [simp]: "inverted sc 0 page = page" "inverted sc 4 page = page" "length (inverted sc k page) = length page"
  by (simp_all add: inverted_def)

lemma invert_pass_good:
  assumes geo: "geometry sc N (sat_mem s)" and pe: "mapped sc N pe" and page: "load_page sc pe (sat_mem s) = inverted sc k page"
  shows "invert_pass sc env k pe s =
    Inr (pe\<lparr>pe_lastcpu := se_cpu env, pe_write_dram_frequency := se_frequency env\<rparr>,
         s\<lparr>sat_mem := store_page pe (inverted sc (Suc k) page) (sat_mem s)\<rparr>)"
proof -
  have len: "length (inverted sc k page) = page_words sc"
    using length_load_page [OF geo, of pe] pe page by (simp add: mapped_def)
  have "cf_page_length (sc_cfg sc) = 8 * int (length (inverted sc k page))" "64 dvd cf_page_length (sc_cfg sc)"
    using geometry_bytes(1) [OF geo] geo len by (auto simp: geometry_def)
  note pass = InvertPage_eq [OF this, of "sc_invert_range sc"]
  show ?thesis
    unfolding invert_pass_def page using pass by (cases "even k") (simp_all add: inverted_def)
qed

lemma GetRandomPattern_ok:
  assumes "pl_ok pl"
  obtains k pl' where "GetRandomPattern pl rnd = Inr (Some k, pl')" "k < length (patterns pl)" "patterns pl' = patterns pl" "pl_ok pl'"
proof (cases "selected_pattern_ids pl = []")
  case True
  let ?W = "weightcount pl" and ?ps = "patterns pl"
  have W: "0 < ?W" "weight_before ?ps (length ?ps) = ?W" "pl_size pl = length ?ps" "0 < length ?ps"
    using assms by (auto simp: pl_ok_def)
  have "0 < int rnd mod ?W + 1" "int rnd mod ?W + 1 \<le> weight_before ?ps (length ?ps) - weight_before ?ps 0"
    using W pos_mod_bound [OF W(1), of "int rnd"] pos_mod_sign [OF W(1), of "int rnd"] by (auto simp: weight_before_def)
  then obtain j where "pick ?ps (length ?ps) (int rnd mod ?W + 1) 0 = Inr j" "j < length ?ps"
    using pick_interval [of 0 ?ps "int rnd mod ?W + 1"] W(4) by auto
  then show thesis using that [of j pl] True W assms by (simp add: GetRandomPattern_def)
next
  case False
  let ?ids = "selected_pattern_ids pl"
  have "?ids ! (unat (selected_pattern_cursor pl) mod length ?ids) \<in> set ?ids" using False by simp
  then have "?ids ! (unat (selected_pattern_cursor pl) mod length ?ids) < length (patterns pl)"
    using assms by (simp add: pl_ok_def)
  then show thesis
    using that [of "?ids ! (unat (selected_pattern_cursor pl) mod length ?ids)"
        "pl\<lparr>selected_pattern_cursor := selected_pattern_cursor pl + 1\<rparr>"] False assms
    by (simp add: GetRandomPattern_def pl_ok_def Let_def)
qed

lemma FillPageRandom_good:
  assumes geo: "geometry sc N mem" and pe: "mapped sc N pe" and pl: "pl_ok pl"
  obtains k pl' pe' where "FillPageRandom sc env False pe (load_page sc pe mem) pl =
      Inr (True, pe', page_data (sc_cfg sc) (patterns pl ! k) (pe_addr pe), pl')"
    "pe_pattern pe' = Some k" "k < length (patterns pl)" "pe_offset pe' = pe_offset pe" "pe_addr pe' = pe_addr pe"
    "patterns pl' = patterns pl" "pl_ok pl'"
proof -
  obtain k pl' where k: "GetRandomPattern pl (se_random env) = Inr (Some k, pl')" "k < length (patterns pl)"
    "patterns pl' = patterns pl" "pl_ok pl'" by (rule GetRandomPattern_ok [OF pl])
  let ?pe = "pe\<lparr>pe_pattern := Some k, pe_lastcpu := se_cpu env\<rparr>"
  have len: "length (load_page sc pe mem) = nat (cf_page_length (now_cfg sc env)) div 8"
    using length_load_page [OF geo, of pe] pe by (simp add: mapped_def page_words_def)
  have "wf_page_pattern (patterns pl' ! k)" using k(2,3) pl by (auto simp: pl_ok_def)
  note fill = FillPage_eq [of ?pe k "patterns pl'", OF _ _ this len]
  have "pl_size pl \<noteq> 0" using pl by (auto simp: pl_ok_def)
  then show thesis
    using that [of "?pe\<lparr>pe_lastcpu := se_cpu env, pe_write_dram_frequency := se_frequency env\<rparr>" k pl'] fill k
    by (simp add: FillPageRandom_def Let_def)
qed

section \<open>The invariant\<close>

fun held_pages :: "pc \<Rightarrow> page_entry list" where
  "held_pages (HavePage pe) = [pe]"
| "held_pages (HaveBoth src dst) = [src, dst]"
| "held_pages (Passed k epoch pe) = [pe]"
| "held_pages (Processed pe) = [pe]"
| "held_pages (Transferred src dst) = [src, dst]"
| "held_pages (DstReturned ok src) = [src]"
| "held_pages _ = []"

fun is_fill :: "thread_kind \<Rightarrow> bool" where
  "is_fill (FillThread preset n) \<longleftrightarrow> \<not> preset"
| "is_fill _ \<longleftrightarrow> False"

text \<open>What a worker knows of the pages it holds at each point of its loop.\<close>

fun pc_ok :: "settings \<Rightarrow> Pattern list \<Rightarrow> u64 list \<Rightarrow> thread_kind \<Rightarrow> pc \<Rightarrow> bool" where
  "pc_ok sc pats mem kind (HavePage pe) \<longleftrightarrow> is_fill kind \<or> holds sc pats mem pe"
| "pc_ok sc pats mem kind (HaveBoth src dst) \<longleftrightarrow> kind = CopyThread \<and> holds sc pats mem src \<and> tagged_page sc mem dst"
| "pc_ok sc pats mem kind (Passed k epoch pe) \<longleftrightarrow> kind = InvertThread \<and> k \<le> 4 \<and>
     (\<exists>j<length pats. pe_pattern pe = Some j \<and>
        load_page sc pe mem = inverted sc k (page_data (sc_cfg sc) (pats ! j) (page_addr sc (pe_offset pe))))"
| "pc_ok sc pats mem kind (Processed pe) \<longleftrightarrow> kind \<noteq> CopyThread \<and> holds sc pats mem pe"
| "pc_ok sc pats mem kind (Transferred src dst) \<longleftrightarrow> kind = CopyThread \<and> holds sc pats mem dst \<and> tagged_page sc mem src"
| "pc_ok sc pats mem kind (DstReturned ok src) \<longleftrightarrow> kind = CopyThread \<and> ok \<and> tagged_page sc mem src"
| "pc_ok sc pats mem kind _ \<longleftrightarrow> True"

text \<open>\<open>fillp\<close>: the initial fill is running; otherwise only check, copy and invert workers run and all pages have their tags.\<close>

definition thread_ok :: "settings \<Rightarrow> nat \<Rightarrow> bool \<Rightarrow> Pattern list \<Rightarrow> u64 list \<Rightarrow> thread \<Rightarrow> bool" where
  "thread_ok sc N fillp pats mem th \<longleftrightarrow>
     (if fillp then is_fill (th_kind th) else \<not> (\<exists>preset n. th_kind th = FillThread preset n)) \<and>
     (\<forall>pe \<in> set (held_pages (th_pc th)). mapped sc N pe) \<and> pc_ok sc pats mem (th_kind th) (th_pc th)"

definition shared_ok :: "settings \<Rightarrow> nat \<Rightarrow> bool \<Rightarrow> sat \<Rightarrow> bool" where
  "shared_ok sc N fillp s \<longleftrightarrow> geometry sc N (sat_mem s) \<and> pl_ok (sat_patternlist s) \<and>
     (\<forall>e \<in># pool_avail True (sat_pool s). holds sc (patterns (sat_patternlist s)) (sat_mem s) e) \<and>
     (\<not> fillp \<longrightarrow> (\<forall>e \<in># pool_avail False (sat_pool s). tagged_page sc (sat_mem s) e))"

definition held_offsets :: "thread \<Rightarrow> u64 multiset" where
  "held_offsets th = image_mset pe_offset (mset (held_pages (th_pc th)))"

lemma holds_cong:
  "pe_offset pe' = pe_offset pe \<Longrightarrow> pe_pattern pe' = pe_pattern pe \<Longrightarrow> holds sc pats mem pe' = holds sc pats mem pe"
  "load_page sc pe mem' = load_page sc pe mem \<Longrightarrow> holds sc pats mem' pe = holds sc pats mem pe"
  by (simp_all add: holds_def load_page_def page_start_def)

lemma tagged_cong:
  "pe_offset pe' = pe_offset pe \<Longrightarrow> tagged_page sc mem pe' = tagged_page sc mem pe"
  "load_page sc pe mem' = load_page sc pe mem \<Longrightarrow> tagged_page sc mem' pe = tagged_page sc mem pe"
  by (simp_all add: tagged_page_def load_page_def page_start_def)

lemma geometry_os: "geometry sc N mem \<Longrightarrow> os_maps (sc_os sc) (cf_page_length (sc_cfg sc)) (all_pages sc N)"
  by (simp add: geometry_def)

lemma geometry_distinct: "geometry sc N mem \<Longrightarrow> count (all_pages sc N) off \<le> 1"
  by (intro count_page_offsets) (auto simp: geometry_def)

text \<open>Pages held, pages available and the pages of other threads are different pages.\<close>

lemma held_disjoint:
  assumes "geometry sc N mem" "pool_inv (all_pages sc N) p (add_mset off R)"
  shows "off \<notin># R" "off \<in># all_pages sc N" "e \<in># pool_avail want p \<Longrightarrow> pe_offset e \<noteq> off \<and> pe_offset e \<in># all_pages sc N"
    "x \<in># R \<Longrightarrow> x \<in># all_pages sc N"
proof -
  let ?T = "image_mset pe_offset (pool_avail True p)" and ?F = "image_mset pe_offset (pool_avail False p)"
  have part: "?T + ?F + add_mset off R = all_pages sc N" by (rule pools.partition [OF assms(2)])
  have "count (?T + ?F + add_mset off R) off \<le> 1" unfolding part by (rule geometry_distinct [OF assms(1)])
  then have zero: "count R off = 0" "count ?T off = 0" "count ?F off = 0" by simp_all
  then show "off \<notin># R" by (simp add: not_in_iff)
  have all: "y \<in># all_pages sc N" if "y \<in># ?T + ?F + add_mset off R" for y using that unfolding part .
  then show "off \<in># all_pages sc N" "x \<in># R \<Longrightarrow> x \<in># all_pages sc N" by simp_all
  assume "e \<in># pool_avail want p"
  then have "pe_offset e \<in># (if want then ?T else ?F)" by auto
  then show "pe_offset e \<noteq> off \<and> pe_offset e \<in># all_pages sc N"
    using zero all [of "pe_offset e"] by (cases want) (auto simp: count_eq_zero_iff)
qed

section \<open>The pool operations keep the invariant\<close>

lemma get_valid_ok:
  assumes inv: "pool_inv (all_pages sc N) (sat_pool s) R" and ok: "shared_ok sc N fillp s"
  obtains p where "get_valid sc env tag s = Inr (None, s\<lparr>sat_pool := p\<rparr>)" "pool_inv (all_pages sc N) p R"
      "shared_ok sc N fillp (s\<lparr>sat_pool := p\<rparr>)"
  | pe p where "get_valid sc env tag s = Inr (Some pe, s\<lparr>sat_pool := p\<rparr>)"
      "pool_inv (all_pages sc N) p (add_mset (pe_offset pe) R)" "shared_ok sc N fillp (s\<lparr>sat_pool := p\<rparr>)"
      "mapped sc N pe" "holds sc (patterns (sat_patternlist s)) (sat_mem s) pe"
proof -
  have geo: "geometry sc N (sat_mem s)" using ok by (simp add: shared_ok_def)
  show thesis
  proof (rule sat_get_cases [OF inv geometry_os [OF geo], of True "se_call env" tag])
    fix p assume "(if True then sat_GetValid else sat_GetEmpty) (sc_os sc) (cf_page_length (sc_cfg sc)) (se_call env) tag (sat_pool s) = Inr (None, p)"
      "pool_inv (all_pages sc N) p R" "pool_avail True p = pool_avail True (sat_pool s)" "pool_avail False p = pool_avail False (sat_pool s)"
    then show thesis using that(1) [of p] ok by (simp add: get_valid_def shared_ok_def)
  next
    fix pe p e assume g: "(if True then sat_GetValid else sat_GetEmpty) (sc_os sc) (cf_page_length (sc_cfg sc)) (se_call env) tag (sat_pool s) = Inr (Some pe, p)"
      "pool_inv (all_pages sc N) p (add_mset (pe_offset pe) R)" "taken (sc_os sc) e pe"
      "pool_avail True (sat_pool s) = add_mset e (pool_avail True p)" "pool_avail (\<not> True) p = pool_avail (\<not> True) (sat_pool s)"
      "pe_offset pe \<in># all_pages sc N"
    have "holds sc (patterns (sat_patternlist s)) (sat_mem s) e" using ok g(4) by (simp add: shared_ok_def)
    then have "holds sc (patterns (sat_patternlist s)) (sat_mem s) pe"
      using g(3) holds_cong(1) [of pe e] by (simp add: taken_def)
    then show thesis
      using that(2) [of pe p] g ok by (auto simp: get_valid_def shared_ok_def mapped_def taken_def)
  qed
qed

lemma get_empty_ok:
  assumes inv: "pool_inv (all_pages sc N) (sat_pool s) R" and ok: "shared_ok sc N fillp s"
  obtains p where "get_empty sc env tag s = Inr (None, s\<lparr>sat_pool := p\<rparr>)" "pool_inv (all_pages sc N) p R"
      "shared_ok sc N fillp (s\<lparr>sat_pool := p\<rparr>)" "pool_avail True p = pool_avail True (sat_pool s)"
  | pe p where "get_empty sc env tag s = Inr (Some pe, s\<lparr>sat_pool := p\<rparr>)"
      "pool_inv (all_pages sc N) p (add_mset (pe_offset pe) R)" "shared_ok sc N fillp (s\<lparr>sat_pool := p\<rparr>)"
      "mapped sc N pe" "\<not> fillp \<Longrightarrow> tagged_page sc (sat_mem s) pe" "pool_avail True p = pool_avail True (sat_pool s)"
proof -
  have geo: "geometry sc N (sat_mem s)" using ok by (simp add: shared_ok_def)
  show thesis
  proof (rule sat_get_cases [OF inv geometry_os [OF geo], of False "se_call env" tag])
    fix p assume "(if False then sat_GetValid else sat_GetEmpty) (sc_os sc) (cf_page_length (sc_cfg sc)) (se_call env) tag (sat_pool s) = Inr (None, p)"
      "pool_inv (all_pages sc N) p R" "pool_avail True p = pool_avail True (sat_pool s)" "pool_avail False p = pool_avail False (sat_pool s)"
    then show thesis using that(1) [of p] ok by (simp add: get_empty_def shared_ok_def)
  next
    fix pe p e assume g: "(if False then sat_GetValid else sat_GetEmpty) (sc_os sc) (cf_page_length (sc_cfg sc)) (se_call env) tag (sat_pool s) = Inr (Some pe, p)"
      "pool_inv (all_pages sc N) p (add_mset (pe_offset pe) R)" "taken (sc_os sc) e pe"
      "pool_avail False (sat_pool s) = add_mset e (pool_avail False p)" "pool_avail (\<not> False) p = pool_avail (\<not> False) (sat_pool s)"
      "pe_offset pe \<in># all_pages sc N"
    have "tagged_page sc (sat_mem s) pe" if "\<not> fillp"
      using that ok g(3,4) tagged_cong(1) [of pe e] by (simp add: shared_ok_def taken_def)
    then show thesis
      using that(2) [of pe p] g ok by (auto simp: get_empty_def shared_ok_def mapped_def taken_def)
  qed
qed

lemma put_valid_ok:
  assumes inv: "pool_inv (all_pages sc N) (sat_pool s) (add_mset (pe_offset pe) R)" and ok: "shared_ok sc N fillp s"
    and pe: "holds sc (patterns (sat_patternlist s)) (sat_mem s) pe"
  obtains p where "put_valid sc env pe s = Inr (True, s\<lparr>sat_pool := p\<rparr>)" "pool_inv (all_pages sc N) p R"
    "shared_ok sc N fillp (s\<lparr>sat_pool := p\<rparr>)" "size (pool_avail True p) = Suc (size (pool_avail True (sat_pool s)))"
proof -
  have geo: "geometry sc N (sat_mem s)" using ok by (simp add: shared_ok_def)
  have "pe_pattern pe \<noteq> None" using pe by (auto simp: holds_def)
  from sat_PutValid_ok [OF inv geometry_os [OF geo] this, of "se_call env"] obtain p where
    p: "sat_PutValid (sc_os sc) (cf_page_length (sc_cfg sc)) (se_call env) pe (sat_pool s) = Inr (True, p)" "pool_inv (all_pages sc N) p R"
    "pool_avail True p = add_mset (pe\<lparr>pe_addr := 0\<rparr>) (pool_avail True (sat_pool s))" "pool_avail False p = pool_avail False (sat_pool s)" .
  moreover have "holds sc (patterns (sat_patternlist s)) (sat_mem s) (pe\<lparr>pe_addr := 0\<rparr>)"
    using pe holds_cong(1) [of "pe\<lparr>pe_addr := 0\<rparr>" pe] by simp
  ultimately show thesis using that [of p] ok by (auto simp: put_valid_def shared_ok_def)
qed

lemma put_empty_ok:
  assumes inv: "pool_inv (all_pages sc N) (sat_pool s) (add_mset (pe_offset pe) R)" and ok: "shared_ok sc N fillp s"
    and pe: "tagged_page sc (sat_mem s) pe"
  obtains p where "put_empty sc env pe s = Inr (True, s\<lparr>sat_pool := p\<rparr>)" "pool_inv (all_pages sc N) p R"
    "shared_ok sc N fillp (s\<lparr>sat_pool := p\<rparr>)"
proof -
  have geo: "geometry sc N (sat_mem s)" using ok by (simp add: shared_ok_def)
  from sat_PutEmpty_ok [OF inv geometry_os [OF geo], of "se_call env"] obtain p e where
    p: "sat_PutEmpty (sc_os sc) (cf_page_length (sc_cfg sc)) (se_call env) pe (sat_pool s) = Inr (True, p)" "pool_inv (all_pages sc N) p R"
    "pe_offset e = pe_offset pe" "pool_avail False p = add_mset e (pool_avail False (sat_pool s))"
    "pool_avail True p = pool_avail True (sat_pool s)" by metis
  moreover have "tagged_page sc (sat_mem s) e" using pe p(3) tagged_cong(1) [of e pe] by simp
  ultimately show thesis using that [of p] ok by (auto simp: put_empty_def shared_ok_def)
qed

text \<open>Writing a page that is held.\<close>

lemma store_ok:
  assumes inv: "pool_inv (all_pages sc N) (sat_pool s) (add_mset (pe_offset pe) R)" and ok: "shared_ok sc N fillp s"
    and xs: "length xs = page_words sc"
  defines "mem \<equiv> store_page pe xs (sat_mem s)"
  shows "shared_ok sc N fillp (s\<lparr>sat_mem := mem\<rparr>)" "length mem = length (sat_mem s)"
    "load_page sc pe mem = xs" "pe_offset pe' \<in># R \<Longrightarrow> load_page sc pe' mem = load_page sc pe' (sat_mem s)"
proof -
  have geo: "geometry sc N (sat_mem s)" using ok by (simp add: shared_ok_def)
  note dis = held_disjoint [OF geo inv]
  show len: "length mem = length (sat_mem s)"
    using length_store_page page_fits [OF geo dis(2)] xs by (simp add: mem_def)
  note frame = store_frame [OF geo dis(2) _ xs, folded mem_def]
  show "load_page sc pe mem = xs" using frame [of pe] dis(2) by simp
  show "pe_offset pe' \<in># R \<Longrightarrow> load_page sc pe' mem = load_page sc pe' (sat_mem s)"
    using frame [of pe'] dis(1,4) by auto
  have "load_page sc e mem = load_page sc e (sat_mem s)" if "e \<in># pool_avail want (sat_pool s)" for e want
    using frame [of e] dis(3) [OF that] by simp
  note same = holds_cong(2) [OF this, of _ True] tagged_cong(2) [OF this, of _ False]
  show "shared_ok sc N fillp (s\<lparr>sat_mem := mem\<rparr>)"
    using ok geometry_length [OF geo len] same by (simp add: shared_ok_def)
qed

section \<open>Every step keeps the invariant\<close>

text \<open>
  \<open>Others\<close> are the offsets of the pages other workers hold. A step leaves those pages alone, reports nothing and leaves
  the worker, the pools and the memory in a good state.
\<close>

text \<open>
  How many steps a worker that is told to stop has left, and which workers stop when told to. A fill worker stops by
  itself after the pages it has to fill; \<open>fill_rounds\<close> are its remaining rounds.
\<close>

fun fill_rounds :: "thread_kind \<Rightarrow> int \<Rightarrow> nat" where
  "fill_rounds (FillThread preset n) loops = nat (n - loops)"
| "fill_rounds _ loops = 0"

fun steps_left :: "thread_kind \<Rightarrow> int \<Rightarrow> pc \<Rightarrow> nat" where
  "steps_left kind loops (Finished ok) = 0"
| "steps_left kind loops LoopHead = 3 * fill_rounds kind loops + 1"
| "steps_left kind loops (Processed pe) = 3 * fill_rounds kind (loops + 1) + 2"
| "steps_left kind loops (DstReturned ok src) = 2"
| "steps_left kind loops (Transferred src dst) = 3"
| "steps_left kind loops (HaveBoth src dst) = 4"
| "steps_left kind loops (Passed k epoch pe) = 7 - k"
| "steps_left kind loops (HavePage pe) = (if is_fill kind then 3 * fill_rounds kind (loops + 1) + 3 else 8)"

abbreviation thread_left :: "thread \<Rightarrow> nat" where
  "thread_left th \<equiv> steps_left (th_kind th) (th_loops th) (th_pc th)"

definition stops :: "settings \<Rightarrow> thread_kind \<Rightarrow> bool" where
  "stops sc kind \<longleftrightarrow> kind = CopyThread \<or> kind = InvertThread \<or>
     (\<exists>phase. kind = CheckThread phase \<and> phase \<noteq> ''final_check'' \<and> \<not> legacy_final_check_mode sc)"

definition stopping :: "settings \<Rightarrow> step_env \<Rightarrow> thread \<Rightarrow> bool" where
  "stopping sc env th \<longleftrightarrow> is_fill (th_kind th) \<or> \<not> se_ready env \<and> stops sc (th_kind th)"

definition step_pre :: "settings \<Rightarrow> nat \<Rightarrow> bool \<Rightarrow> u64 multiset \<Rightarrow> thread \<Rightarrow> sat \<Rightarrow> bool" where
  "step_pre sc N fillp Others th s \<longleftrightarrow> pool_inv (all_pages sc N) (sat_pool s) (held_offsets th + Others) \<and>
     shared_ok sc N fillp s \<and> thread_ok sc N fillp (patterns (sat_patternlist s)) (sat_mem s) th"

definition step_frame :: "settings \<Rightarrow> step_env \<Rightarrow> u64 multiset \<Rightarrow> thread \<Rightarrow> sat \<Rightarrow> thread \<Rightarrow> sat \<Rightarrow> bool" where
  "step_frame sc env Others th s th' s' \<longleftrightarrow>
     (\<forall>pe. pe_offset pe \<in># Others \<longrightarrow> load_page sc pe (sat_mem s') = load_page sc pe (sat_mem s)) \<and>
     patterns (sat_patternlist s') = patterns (sat_patternlist s) \<and>
     th_kind th' = th_kind th \<and> th_errorcount th' = th_errorcount th \<and> sat_shared s' = sat_shared s \<and>
     (stopping sc env th \<longrightarrow> thread_left th' \<le> thread_left th - 1) \<and>
     (is_fill (th_kind th) \<longrightarrow>
        int (size (pool_avail True (sat_pool s'))) - th_loops th' = int (size (pool_avail True (sat_pool s))) - th_loops th)"

abbreviation good_step :: "settings \<Rightarrow> step_env \<Rightarrow> nat \<Rightarrow> bool \<Rightarrow> u64 multiset \<Rightarrow> thread \<Rightarrow> sat \<Rightarrow> (thread \<times> sat) res \<Rightarrow> bool" where
  "good_step sc env N fillp Others th s r \<equiv>
     \<exists>th' s'. r = Inr (th', s') \<and> step_pre sc N fillp Others th' s' \<and> step_frame sc env Others th s th' s'"

lemmas step_defs = step_pre_def step_frame_def thread_ok_def held_offsets_def

lemma tail_ok: "pc_ok sc pats mem kind LoopHead" "pc_ok sc pats mem kind (Finished ok)"
  "held_pages LoopHead = []" "held_pages (Finished ok) = []"
  by simp_all

lemma not_fill: "\<nexists>preset n. kind = FillThread preset n \<Longrightarrow> \<not> is_fill kind"
  by (cases kind) auto

lemma fill_round_less: "loops < n \<Longrightarrow> 3 * nat (n - (loops + 1)) + 3 = 3 * nat (n - loops)"
  by linarith

lemma put_valid_round:
  assumes pre: "step_pre sc N fillp Others th s" and pc: "th_pc th = Processed pe"
  shows "good_step sc env N fillp Others th s (res_bind (put_valid sc env pe s) (\<lambda>(ok, s'). Inr (next_round ok th, s')))"
proof -
  have inv: "pool_inv (all_pages sc N) (sat_pool s) (add_mset (pe_offset pe) Others)"
    and ok: "shared_ok sc N fillp s" "holds sc (patterns (sat_patternlist s)) (sat_mem s) pe"
    using pre pc by (simp_all add: step_defs)
  obtain p where "put_valid sc env pe s = Inr (True, s\<lparr>sat_pool := p\<rparr>)" "pool_inv (all_pages sc N) p Others"
    "shared_ok sc N fillp (s\<lparr>sat_pool := p\<rparr>)" "size (pool_avail True p) = Suc (size (pool_avail True (sat_pool s)))"
    by (rule put_valid_ok [OF inv ok])
  then show ?thesis using pre pc by (simp add: step_defs next_round_def)
qed

lemma get_valid_round:
  assumes pre: "step_pre sc N False Others th s" and pc: "th_pc th = LoopHead" and go: "\<not> stopping sc env th"
  shows "good_step sc env N False Others th s (res_bind (get_valid sc env tag s) (\<lambda>(r, s'). Inr (case r of
      None \<Rightarrow> (th\<lparr>th_pc := Finished b\<rparr>, s') | Some pe \<Rightarrow> (th\<lparr>th_pc := HavePage pe\<rparr>, s'))))"
proof -
  have inv: "pool_inv (all_pages sc N) (sat_pool s) Others" and ok: "shared_ok sc N False s"
    using pre pc by (simp_all add: step_defs)
  show ?thesis
    using pre go pc not_fill [of "th_kind th"] by (rule_tac get_valid_ok [OF inv ok, of env tag]) (simp_all add: step_defs)
qed

lemma FillThread_step_good:
  assumes pre: "step_pre sc N True Others th s" and kind: "th_kind th = FillThread preset num"
  shows "good_step sc env N True Others th s (FillThread_step sc env preset num (th, s))"
proof (cases "th_pc th")
  case LoopHead
  have inv: "pool_inv (all_pages sc N) (sat_pool s) Others" and ok: "shared_ok sc N True s"
    using pre LoopHead by (simp_all add: step_defs)
  have stop: "good_step sc env N True Others th s (Inr (th\<lparr>th_pc := Finished b\<rparr>, s))" for b
    using pre LoopHead by (simp add: step_defs)
  show ?thesis
  proof (cases "se_ready env \<and> th_loops th < num")
    case True
    then show ?thesis
      using LoopHead pre kind fill_round_less [of "th_loops th" num]
      by (rule_tac get_empty_ok [OF inv ok, of env kDontCareTag]) (simp_all add: FillThread_step_def step_defs stopping_def)
  next
    case False
    then have "FillThread_step sc env preset num (th, s) = Inr (th\<lparr>th_pc := Finished True\<rparr>, s)"
      using LoopHead by (auto simp: FillThread_step_def)
    then show ?thesis using stop by simp
  qed
next
  case (HavePage pe)
  have inv: "pool_inv (all_pages sc N) (sat_pool s) (add_mset (pe_offset pe) Others)" and ok: "shared_ok sc N True s"
    and pe: "mapped sc N pe" and p: "\<not> preset"
    using pre HavePage kind by (simp_all add: step_defs)
  have geo: "geometry sc N (sat_mem s)" and pl: "pl_ok (sat_patternlist s)" using ok by (simp_all add: shared_ok_def)
  obtain k pl' pe' where fill: "FillPageRandom sc env False pe (load_page sc pe (sat_mem s)) (sat_patternlist s) =
      Inr (True, pe', page_data (sc_cfg sc) (patterns (sat_patternlist s) ! k) (pe_addr pe), pl')"
    "pe_pattern pe' = Some k" "k < length (patterns (sat_patternlist s))" "pe_offset pe' = pe_offset pe" "pe_addr pe' = pe_addr pe"
    "patterns pl' = patterns (sat_patternlist s)" "pl_ok pl'" by (rule FillPageRandom_good [OF geo pe pl])
  define mem where "mem = store_page pe (page_data (sc_cfg sc) (patterns (sat_patternlist s) ! k) (pe_addr pe)) (sat_mem s)"
  define s1 where "s1 = s\<lparr>sat_mem := mem, sat_patternlist := pl'\<rparr>"
  note store = store_ok [where xs = "page_data (sc_cfg sc) (patterns (sat_patternlist s) ! k) (pe_addr pe)",
      OF inv ok length_page_data, folded mem_def]
  have pe': "mapped sc N pe'" using pe fill(4,5) by (simp add: mapped_def)
  have holds': "holds sc (patterns pl') mem pe'"
    using store(3) fill pe holds_cong(1) [of pe' "pe\<lparr>pe_pattern := Some k\<rparr>"]
    by (auto simp: holds_def mapped_def load_page_def page_start_def mem_def)
  have ok1: "shared_ok sc N True (s1\<lparr>sat_history := h\<rparr>)" for h
    using store(1) fill(6,7) by (simp add: shared_ok_def s1_def)
  obtain d where d: "note_operation sc env DIAG_PHASE_INITIAL_FILL 0 (cf_page_length (sc_cfg sc)) 0 th = th\<lparr>th_diag := d\<rparr>"
    using note_operation_frame by blast
  obtain h where h: "note_write sc env (se_epoch_begin env) th (pe_offset pe') BLOCK_WRITER_INITIAL_FILL s1 = s1\<lparr>sat_history := h\<rparr>"
    using note_write_frame by blast
  have check: "check_page sc env ''fill'' ''immediate_check'' pe' (th2, s1\<lparr>sat_history := h\<rparr>) =
      Inr (0, th2, s1\<lparr>sat_history := h\<rparr>)" for th2
    using ok1 [of h] pe' holds' by (intro check_page_good) (auto simp: shared_ok_def s1_def)
  obtain d2 where d2: "note_operation sc env DIAG_PHASE_FILL_IMMEDIATE_CHECK (cf_page_length (sc_cfg sc)) 0 0 (th\<lparr>th_diag := d\<rparr>) =
      (th\<lparr>th_diag := d\<rparr>)\<lparr>th_diag := d2\<rparr>"
    using note_operation_frame by blast
  have step: "\<exists>d'. FillThread_step sc env preset num (th, s) = Inr (th\<lparr>th_diag := d', th_pc := Processed pe'\<rparr>, s1\<lparr>sat_history := h\<rparr>)"
    using HavePage p fill(1) by (auto simp: FillThread_step_def fill_process_def Let_def mem_def [symmetric]
        s1_def [symmetric] d h check d2)
  then show ?thesis
    using inv ok1 [of h] pe' holds' kind p store(4) fill(4,6) HavePage by (auto simp: step_defs s1_def)
next
  case (Processed pe)
  then show ?thesis using put_valid_round [OF pre Processed, of env] by (simp add: FillThread_step_def)
next
  case (Finished b)
  then show ?thesis using pre by (simp add: FillThread_step_def step_defs)
qed (use pre kind in \<open>simp_all add: step_defs\<close>)

lemma CheckThread_step_good:
  assumes pre: "step_pre sc N False Others th s" and kind: "th_kind th = CheckThread phase"
  shows "good_step sc env N False Others th s (CheckThread_step sc env phase (th, s))"
proof (cases "th_pc th")
  case LoopHead
  have stop: "good_step sc env N False Others th s (Inr (th\<lparr>th_pc := Finished b\<rparr>, s))" for b
    using pre LoopHead by (simp add: step_defs)
  show ?thesis
    using get_valid_round [OF pre LoopHead, of env] stop LoopHead kind
    by (simp add: CheckThread_step_def Let_def stopping_def stops_def)
next
  case (HavePage pe)
  have ok: "shared_ok sc N False s" and pe: "mapped sc N pe" "holds sc (patterns (sat_patternlist s)) (sat_mem s) pe"
    using pre HavePage kind by (simp_all add: step_defs)
  let ?name = "if th_draining th then ''final_check'' else phase"
    and ?diag = "if th_draining th then DIAG_PHASE_FINAL_CHECK else DIAG_PHASE_RUNTIME_CHECK"
  have check: "check_page sc env ''check'' ?name pe (th, s) = Inr (0, th, s)"
    using ok pe by (intro check_page_good) (auto simp: shared_ok_def)
  obtain d where "note_operation sc env ?diag (cf_page_length (sc_cfg sc)) 0 0 th = th\<lparr>th_diag := d\<rparr>"
    using note_operation_frame by blast
  then have "CheckThread_step sc env phase (th, s) = Inr (th\<lparr>th_diag := d, th_pc := Processed pe\<rparr>, s)"
    using HavePage check by (simp add: CheckThread_step_def Let_def)
  then show ?thesis using pre HavePage pe kind by (auto simp: step_defs)
next
  case (Processed pe)
  have inv: "pool_inv (all_pages sc N) (sat_pool s) (add_mset (pe_offset pe) Others)" and ok: "shared_ok sc N False s"
    and tagged: "tagged_page sc (sat_mem s) pe"
    using pre Processed holds_tagged by (auto simp: step_defs)
  obtain p where put: "put_empty sc env pe s = Inr (True, s\<lparr>sat_pool := p\<rparr>)" "pool_inv (all_pages sc N) p Others"
    "shared_ok sc N False (s\<lparr>sat_pool := p\<rparr>)" by (rule put_empty_ok [OF inv ok tagged])
  have "good_step sc env N False Others th s (res_bind (put_empty sc env pe s) (\<lambda>(ok, s').
      Inr (next_round ok (if b then th\<lparr>th_draining := True\<rparr> else th), s')))" for b
    using put pre Processed kind by (simp add: step_defs next_round_def)
  then show ?thesis
    using put_valid_round [OF pre Processed, of env] Processed by (simp add: CheckThread_step_def Let_def del: split_paired_Ex)
next
  case (Finished b)
  then show ?thesis using pre by (simp add: CheckThread_step_def step_defs Let_def)
qed (use pre kind in \<open>simp_all add: step_defs\<close>)

lemma CopyThread_step_good:
  assumes pre: "step_pre sc N False Others th s" and kind: "th_kind th = CopyThread"
    and inject: "\<not> sc_error_injection sc"
    and warm: "sc_warm sc \<Longrightarrow> page_copier (sc_warm_copy sc) (AdlerAddrMemcpyWarm (sc_warm_copy sc))"
  shows "good_step sc env N False Others th s (CopyThread_step sc env (th, s))"
proof (cases "th_pc th")
  case LoopHead
  have stop: "good_step sc env N False Others th s (Inr (th\<lparr>th_pc := Finished b\<rparr>, s))" for b
    using pre LoopHead by (simp add: step_defs)
  show ?thesis
    using get_valid_round [OF pre LoopHead, of env] stop LoopHead kind by (simp add: CopyThread_step_def Let_def stopping_def)
next
  case (HavePage src)
  have inv: "pool_inv (all_pages sc N) (sat_pool s) (add_mset (pe_offset src) Others)" and ok: "shared_ok sc N False s"
    and src: "mapped sc N src" "holds sc (patterns (sat_patternlist s)) (sat_mem s) src"
    using pre HavePage kind by (simp_all add: step_defs)
  show ?thesis
  proof (rule get_empty_ok [OF inv ok, of env "th_tag th"])
    fix p assume g: "get_empty sc env (th_tag th) s = Inr (None, s\<lparr>sat_pool := p\<rparr>)"
      "pool_inv (all_pages sc N) p (add_mset (pe_offset src) Others)" "shared_ok sc N False (s\<lparr>sat_pool := p\<rparr>)"
    obtain p' where "put_valid sc env src (s\<lparr>sat_pool := p\<rparr>) = Inr (True, s\<lparr>sat_pool := p'\<rparr>)"
      "pool_inv (all_pages sc N) p' Others" "shared_ok sc N False (s\<lparr>sat_pool := p'\<rparr>)"
      using put_valid_ok [where s = "s\<lparr>sat_pool := p\<rparr>" and sc = sc and N = N and pe = src and R = Others and
          fillp = False and env = env] g src(2) by auto
    then show ?thesis using g pre HavePage kind by (simp add: CopyThread_step_def step_defs)
  next
    fix dst p assume "get_empty sc env (th_tag th) s = Inr (Some dst, s\<lparr>sat_pool := p\<rparr>)"
      "pool_inv (all_pages sc N) p (add_mset (pe_offset dst) (add_mset (pe_offset src) Others))"
      "shared_ok sc N False (s\<lparr>sat_pool := p\<rparr>)" "mapped sc N dst" "\<not> False \<Longrightarrow> tagged_page sc (sat_mem s) dst"
    then show ?thesis
      using src HavePage kind by (simp add: CopyThread_step_def step_defs add_mset_commute)
  qed
next
  case (HaveBoth src dst)
  have inv: "pool_inv (all_pages sc N) (sat_pool s) (add_mset (pe_offset dst) (add_mset (pe_offset src) Others))"
    and ok: "shared_ok sc N False s" and src: "mapped sc N src" "holds sc (patterns (sat_patternlist s)) (sat_mem s) src"
    and dst: "mapped sc N dst" "tagged_page sc (sat_mem s) dst"
    using pre HaveBoth kind by (simp_all add: step_defs add_mset_commute)
  have geo: "geometry sc N (sat_mem s)" and pl: "pl_ok (sat_patternlist s)" using ok by (simp_all add: shared_ok_def)
  let ?pats = "patterns (sat_patternlist s)"
  let ?data = "page_data (sc_cfg sc) (pat_of ?pats src) (pe_addr dst)"
  define dst' where "dst' = dst\<lparr>pe_pattern := pe_pattern src, pe_lastcpu := se_cpu env, pe_write_dram_frequency := se_frequency env\<rparr>"
  define mem where "mem = store_page dst ?data (sat_mem s)"
  note copy = copy_good [OF geo src dst(1) pl dst(2) warm, of env "''copy''" "''source_check''" "as_worker th s", folded dst'_def]
  have src_same: "store_page src (load_page sc src (sat_mem s)) (sat_mem s) = sat_mem s"
    using store_load_same [OF page_fits [OF geo]] src(1) by (simp add: mapped_def)
  note store = store_ok [where xs = ?data, OF inv ok length_page_data, folded mem_def]
  have dst': "mapped sc N dst'" using dst by (simp add: mapped_def dst'_def)
  obtain k where k: "k < length ?pats" "pe_pattern src = Some k" using src(2) by (auto simp: holds_def)
  have "load_page sc dst' mem = load_page sc dst mem" by (simp add: load_page_def page_start_def dst'_def)
  then have holds': "holds sc ?pats mem dst'"
    using store(3) k dst(1) unfolding holds_def by (intro exI [of _ k]) (simp add: pat_of_def dst'_def mapped_def)
  have tags: "tagged_page sc mem src"
    using store(4) [of src] tagged_cong(2) [where pe = src and mem' = mem and mem = "sat_mem s"] holds_tagged [OF src(2)] by simp
  obtain h where h: "note_write sc env (se_epoch_begin env) th (pe_offset dst') BLOCK_WRITER_COPY (s\<lparr>sat_mem := mem\<rparr>) =
      s\<lparr>sat_mem := mem, sat_history := h\<rparr>"
    using note_write_frame [of sc env "se_epoch_begin env" th "pe_offset dst'" BLOCK_WRITER_COPY "s\<lparr>sat_mem := mem\<rparr>"] by auto
  obtain d where d: "note_operation sc env DIAG_PHASE_COPY_TRANSFER (cf_page_length (sc_cfg sc)) (cf_page_length (sc_cfg sc)) 0 th =
      th\<lparr>th_diag := d\<rparr>"
    using note_operation_frame by blast
  let ?s = "s\<lparr>sat_mem := mem, sat_history := h\<rparr>"
  have ok1: "shared_ok sc N False ?s" using store(1) by (simp add: shared_ok_def)
  have check: "check_page sc env ''copy'' ''destination_check'' dst' (th\<lparr>th_diag := d\<rparr>, ?s) = Inr (0, th\<lparr>th_diag := d\<rparr>, ?s)"
    using ok1 dst' holds' by (intro check_page_good) (auto simp: shared_ok_def)
  obtain d2 where d2: "note_operation sc env DIAG_PHASE_COPY_DESTINATION_CHECK (cf_page_length (sc_cfg sc)) 0 0 (th\<lparr>th_diag := d\<rparr>) =
      (th\<lparr>th_diag := d\<rparr>)\<lparr>th_diag := d2\<rparr>"
    using note_operation_frame by blast
  have "CopyThread_step sc env (th, s) = copy_process sc env src dst (th, s)" using HaveBoth by (simp add: CopyThread_step_def)
  also have "\<exists>d'. \<dots> = Inr (th\<lparr>th_diag := d', th_pc := Transferred src dst'\<rparr>, ?s)"
    using inject by (auto simp: copy_process_def inject_def Let_def copy src_same mem_def [symmetric] h d check d2)
  finally obtain d' where "CopyThread_step sc env (th, s) = Inr (th\<lparr>th_diag := d', th_pc := Transferred src dst'\<rparr>, ?s)" by blast
  then show ?thesis
    using inv ok1 src(1) dst' holds' tags kind store(4) HaveBoth by (simp add: step_defs add_mset_commute dst'_def)
next
  case (Transferred src dst)
  have inv: "pool_inv (all_pages sc N) (sat_pool s) (add_mset (pe_offset dst) (add_mset (pe_offset src) Others))"
    and ok: "shared_ok sc N False s" and dst: "holds sc (patterns (sat_patternlist s)) (sat_mem s) dst"
    using pre Transferred kind by (simp_all add: step_defs add_mset_commute)
  obtain p where "put_valid sc env dst s = Inr (True, s\<lparr>sat_pool := p\<rparr>)"
    "pool_inv (all_pages sc N) p (add_mset (pe_offset src) Others)" "shared_ok sc N False (s\<lparr>sat_pool := p\<rparr>)"
    by (rule put_valid_ok [OF inv ok dst])
  then show ?thesis using pre Transferred by (simp add: CopyThread_step_def step_defs)
next
  case (DstReturned b src)
  have inv: "pool_inv (all_pages sc N) (sat_pool s) (add_mset (pe_offset src) Others)" and ok: "shared_ok sc N False s"
    and src: "tagged_page sc (sat_mem s) src"
    using pre DstReturned by (auto simp: step_defs)
  obtain p where put: "put_empty sc env src s = Inr (True, s\<lparr>sat_pool := p\<rparr>)" "pool_inv (all_pages sc N) p Others"
    "shared_ok sc N False (s\<lparr>sat_pool := p\<rparr>)" by (rule put_empty_ok [OF inv ok src])
  then show ?thesis using pre DstReturned by (simp add: CopyThread_step_def step_defs next_round_def)
next
  case (Finished b)
  then show ?thesis using pre by (simp add: CopyThread_step_def step_defs)
next
  case (Processed pe)
  then show ?thesis using pre kind by (simp add: step_defs)
next
  case (Passed k e pe)
  then show ?thesis using pre kind by (simp add: step_defs)
qed

lemma strict_check_good:
  assumes "shared_ok sc N fillp s" "mapped sc N pe" "holds sc (patterns (sat_patternlist s)) (sat_mem s) pe"
  shows "\<exists>d. strict_check sc env phase dphase pe (th, s) = Inr (th\<lparr>th_diag := d\<rparr>, s)"
proof -
  have "check_page sc env ''invert'' phase pe (th, s) = Inr (0, th, s)"
    using assms by (intro check_page_good) (auto simp: shared_ok_def)
  moreover obtain d where "note_operation sc env dphase (cf_page_length (sc_cfg sc)) 0 0 th = th\<lparr>th_diag := d\<rparr>"
    using note_operation_frame by blast
  moreover have "th = th\<lparr>th_diag := th_diag th\<rparr>" by simp
  ultimately show ?thesis
    by (cases "sc_strict sc") (auto simp: strict_check_def intro: exI [of _ d] exI [of _ "th_diag th"])
qed

lemma InvertThread_step_good:
  assumes pre: "step_pre sc N False Others th s" and kind: "th_kind th = InvertThread"
  shows "good_step sc env N False Others th s (InvertThread_step sc env (th, s))"
proof (cases "th_pc th")
  case LoopHead
  have stop: "good_step sc env N False Others th s (Inr (th\<lparr>th_pc := Finished b\<rparr>, s))" for b
    using pre LoopHead by (simp add: step_defs)
  show ?thesis
    using get_valid_round [OF pre LoopHead, of env] stop LoopHead kind by (simp add: InvertThread_step_def Let_def stopping_def)
next
  case (HavePage pe)
  have ok: "shared_ok sc N False s" and pe: "mapped sc N pe" "holds sc (patterns (sat_patternlist s)) (sat_mem s) pe"
    using pre HavePage kind by (simp_all add: step_defs)
  obtain d where "strict_check sc env ''precheck'' DIAG_PHASE_INVERT_PRECHECK pe (th, s) = Inr (th\<lparr>th_diag := d\<rparr>, s)"
    using strict_check_good [OF ok pe] by blast
  then have "InvertThread_step sc env (th, s) = Inr (th\<lparr>th_diag := d, th_pc := Passed 0 (se_epoch_begin env) pe\<rparr>, s)"
    using HavePage by (simp add: InvertThread_step_def)
  then show ?thesis using pre HavePage pe kind by (auto simp: step_defs holds_def)
next
  case (Passed k epoch pe)
  obtain j where inv: "pool_inv (all_pages sc N) (sat_pool s) (add_mset (pe_offset pe) Others)" and ok: "shared_ok sc N False s"
    and pe: "mapped sc N pe" and k: "k \<le> 4" and j: "j < length (patterns (sat_patternlist s))" "pe_pattern pe = Some j"
    and page: "load_page sc pe (sat_mem s) =
      inverted sc k (page_data (sc_cfg sc) (patterns (sat_patternlist s) ! j) (page_addr sc (pe_offset pe)))"
    using pre Passed by (auto simp: step_defs)
  have geo: "geometry sc N (sat_mem s)" using ok by (simp add: shared_ok_def)
  show ?thesis
  proof (cases "k < 4")
    case True
    define pe' where "pe' = pe\<lparr>pe_lastcpu := se_cpu env, pe_write_dram_frequency := se_frequency env\<rparr>"
    let ?xs = "inverted sc (Suc k) (page_data (sc_cfg sc) (patterns (sat_patternlist s) ! j) (page_addr sc (pe_offset pe)))"
    have step: "InvertThread_step sc env (th, s) =
        Inr (th\<lparr>th_pc := Passed (k + 1) epoch pe'\<rparr>, s\<lparr>sat_mem := store_page pe ?xs (sat_mem s)\<rparr>)"
      using Passed True invert_pass_good [OF geo pe page, of env] by (simp add: InvertThread_step_def pe'_def)
    have xs: "length ?xs = page_words sc" by (simp add: length_page_data)
    note store = store_ok [OF inv ok xs]
    have same: "load_page sc pe' = load_page sc pe" by (simp add: load_page_def page_start_def pe'_def fun_eq_iff)
    show ?thesis
    proof (intro exI conjI)
      show "InvertThread_step sc env (th, s) =
        Inr (th\<lparr>th_pc := Passed (k + 1) epoch pe'\<rparr>, s\<lparr>sat_mem := store_page pe ?xs (sat_mem s)\<rparr>)" by (rule step)
      have fields: "pe_offset pe' = pe_offset pe" "pe_pattern pe' = pe_pattern pe" "mapped sc N pe'"
        using pe by (simp_all add: pe'_def mapped_def)
      show "step_pre sc N False Others (th\<lparr>th_pc := Passed (k + 1) epoch pe'\<rparr>) (s\<lparr>sat_mem := store_page pe ?xs (sat_mem s)\<rparr>)"
        using store inv j kind True fields by (simp add: step_defs same)
      show "step_frame sc env Others th s (th\<lparr>th_pc := Passed (k + 1) epoch pe'\<rparr>) (s\<lparr>sat_mem := store_page pe ?xs (sat_mem s)\<rparr>)"
        using store Passed by (simp add: step_defs)
    qed
  next
    case False
    then have k4: "k = 4" using k by simp
    have holds: "holds sc (patterns (sat_patternlist s)) (sat_mem s) pe" using page j k4 by (auto simp: holds_def)
    let ?bytes = "invert_range_bytes (sc_invert_range sc) (cf_page_length (sc_cfg sc)) * 4"
    obtain h where h: "note_write sc env epoch th (pe_offset pe) BLOCK_WRITER_INVERT s = s\<lparr>sat_history := h\<rparr>"
      using note_write_frame by blast
    obtain d where d: "note_operation sc env DIAG_PHASE_INVERT_RMW ?bytes ?bytes 0 th = th\<lparr>th_diag := d\<rparr>"
      using note_operation_frame by blast
    have ok1: "shared_ok sc N False (s\<lparr>sat_history := h\<rparr>)" using ok by (simp add: shared_ok_def)
    obtain d2 where "strict_check sc env ''postcheck'' DIAG_PHASE_INVERT_POSTCHECK pe (th\<lparr>th_diag := d\<rparr>, s\<lparr>sat_history := h\<rparr>) =
        Inr ((th\<lparr>th_diag := d\<rparr>)\<lparr>th_diag := d2\<rparr>, s\<lparr>sat_history := h\<rparr>)"
      using strict_check_good [OF ok1 pe, of env "''postcheck''" DIAG_PHASE_INVERT_POSTCHECK "th\<lparr>th_diag := d\<rparr>"] holds
      by auto
    then have "InvertThread_step sc env (th, s) = Inr (th\<lparr>th_diag := d2, th_pc := Processed pe\<rparr>, s\<lparr>sat_history := h\<rparr>)"
      using Passed k4 h d by (simp add: InvertThread_step_def Let_def)
    then show ?thesis using inv ok1 pe holds kind Passed k4 by (simp add: step_defs)
  qed
next
  case (Processed pe)
  then show ?thesis using put_valid_round [OF pre Processed, of env] by (simp add: InvertThread_step_def)
next
  case (Finished b)
  then show ?thesis using pre by (simp add: InvertThread_step_def step_defs)
qed (use pre kind in \<open>simp_all add: step_defs\<close>)

text \<open>What the settings must satisfy: no deliberate error injection, and a copy routine of the program.\<close>

definition settings_ok :: "settings \<Rightarrow> bool" where
  "settings_ok sc \<longleftrightarrow> \<not> sc_error_injection sc \<and>
     (sc_warm sc \<longrightarrow> page_copier (sc_warm_copy sc) (AdlerAddrMemcpyWarm (sc_warm_copy sc)))"

lemma thread_step_good:
  assumes sc: "fillp \<or> settings_ok sc" and pre: "step_pre sc N fillp Others th s"
  shows "good_step sc env N fillp Others th s (thread_step sc env (th, s))"
proof (cases "th_kind th")
  case (FillThread preset n)
  then have "fillp" using pre by (auto simp: step_defs split: if_splits)
  then show ?thesis using FillThread FillThread_step_good [of sc N Others th s preset n env] pre by (simp add: thread_step_def)
next
  case (CheckThread phase)
  then have "\<not> fillp" using pre by (auto simp: step_defs split: if_splits)
  then show ?thesis using CheckThread CheckThread_step_good [of sc N Others th s phase env] pre by (simp add: thread_step_def)
next
  case CopyThread
  then have "\<not> fillp" using pre by (auto simp: step_defs split: if_splits)
  then show ?thesis using CopyThread CopyThread_step_good [of sc N Others th s env] pre sc by (simp add: thread_step_def settings_ok_def)
next
  case InvertThread
  then have "\<not> fillp" using pre by (auto simp: step_defs split: if_splits)
  then show ?thesis using InvertThread InvertThread_step_good [of sc N Others th s env] pre by (simp add: thread_step_def)
qed

section \<open>Any interleaving\<close>

definition all_held :: "thread list \<Rightarrow> u64 multiset" where
  "all_held ths = sum_list (map held_offsets ths)"

definition run_ok :: "settings \<Rightarrow> nat \<Rightarrow> bool \<Rightarrow> thread list \<times> sat \<Rightarrow> bool" where
  "run_ok sc N fillp = (\<lambda>(ths, s). pool_inv (all_pages sc N) (sat_pool s) (all_held ths) \<and> shared_ok sc N fillp s \<and>
     (\<forall>th \<in> set ths. thread_ok sc N fillp (patterns (sat_patternlist s)) (sat_mem s) th))"

lemma all_held_split: "i < length ths \<Longrightarrow> all_held ths = held_offsets (ths ! i) + all_held (take i ths @ drop (Suc i) ths)"
  unfolding all_held_def by (subst id_take_nth_drop [of i ths]) (simp_all add: ac_simps)

lemma thread_ok_cong:
  assumes "\<And>pe. pe \<in> set (held_pages (th_pc th)) \<Longrightarrow> load_page sc pe mem' = load_page sc pe mem"
  shows "thread_ok sc N fillp pats mem' th = thread_ok sc N fillp pats mem th"
  using assms by (cases "th_pc th") (simp_all add: thread_ok_def holds_def tagged_page_def)

lemma run_step_ok:
  assumes sc: "fillp \<or> settings_ok sc" and ok: "run_ok sc N fillp (ths, s)" and i: "i < length ths"
  obtains th s' where "thread_step sc env (ths ! i, s) = Inr (th, s')" "run_ok sc N fillp (ths[i := th], s')"
    "th_errorcount th = th_errorcount (ths ! i)" "sat_shared s' = sat_shared s" "th_kind th = th_kind (ths ! i)"
    "stopping sc env (ths ! i) \<longrightarrow> thread_left th \<le> thread_left (ths ! i) - 1"
    "is_fill (th_kind th) \<longrightarrow>
        int (size (pool_avail True (sat_pool s'))) - th_loops th = int (size (pool_avail True (sat_pool s))) - th_loops (ths ! i)"
proof -
  let ?rest = "take i ths @ drop (Suc i) ths"
  have "step_pre sc N fillp (all_held ?rest) (ths ! i) s"
    using ok i all_held_split [OF i] by (auto simp: run_ok_def step_pre_def)
  then obtain th s' where step: "thread_step sc env (ths ! i, s) = Inr (th, s')" "step_pre sc N fillp (all_held ?rest) th s'"
    "step_frame sc env (all_held ?rest) (ths ! i) s th s'"
    using thread_step_good [OF sc] by blast
  let ?ths = "ths[i := th]"
  have "take i ?ths @ drop (Suc i) ?ths = ?rest" by simp
  then have held: "all_held ?ths = held_offsets th + all_held ?rest" using all_held_split [of i ?ths] i by simp
  have same: "patterns (sat_patternlist s') = patterns (sat_patternlist s)"
    "\<And>pe. pe_offset pe \<in># all_held ?rest \<Longrightarrow> load_page sc pe (sat_mem s') = load_page sc pe (sat_mem s)"
    using step(3) by (simp_all add: step_frame_def)
  have others: "thread_ok sc N fillp (patterns (sat_patternlist s')) (sat_mem s') t" if t: "t \<in> set ?rest" for t
  proof -
    have "pe_offset pe \<in># all_held ?rest" if "pe \<in> set (held_pages (th_pc t))" for pe
      using t that unfolding all_held_def held_offsets_def by (simp add: set_mset_sum_list) blast
    then have "thread_ok sc N fillp (patterns (sat_patternlist s)) (sat_mem s') t =
        thread_ok sc N fillp (patterns (sat_patternlist s)) (sat_mem s) t"
      using same(2) by (intro thread_ok_cong) blast
    moreover have "t \<in> set ths" using t in_set_takeD [of t i ths] in_set_dropD [of t "Suc i" ths] by auto
    ultimately show ?thesis using ok same(1) by (simp add: run_ok_def)
  qed
  have "t \<in> set ?ths \<Longrightarrow> t = th \<or> t \<in> set ?rest" for t
    using i by (auto simp: upd_conv_take_nth_drop)
  then have "run_ok sc N fillp (?ths, s')"
    using step(2) held others by (auto simp: run_ok_def step_pre_def)
  then show thesis using that [of th s'] step(1,3) unfolding step_frame_def by metis
qed

definition told_to_stop :: "settings \<Rightarrow> (nat \<times> step_env) list \<Rightarrow> nat \<Rightarrow> thread_kind \<Rightarrow> bool" where
  "told_to_stop sc es i kind \<longleftrightarrow> is_fill kind \<or> stops sc kind \<and> (\<forall>e \<in> set es. fst e = i \<longrightarrow> \<not> se_ready (snd e))"

abbreviation own_steps :: "(nat \<times> step_env) list \<Rightarrow> nat \<Rightarrow> nat" where
  "own_steps es i \<equiv> length (filter (\<lambda>e. fst e = i) es)"

definition fill_balance :: "thread list \<times> sat \<Rightarrow> int" where
  "fill_balance = (\<lambda>(ths, s). int (size (pool_avail True (sat_pool s))) - sum_list (map th_loops ths))"

lemma sum_loops_update:
  "i < length ths \<Longrightarrow> sum_list (map th_loops (ths[i := th])) = sum_list (map th_loops ths) + th_loops th - th_loops (ths ! i)"
proof (induction ths arbitrary: i)
  case (Cons t ths)
  then show ?case by (cases i) auto
qed simp

lemma run_threads_ok:
  assumes sc: "fillp \<or> settings_ok sc"
  shows "run_ok sc N fillp (ths, s) \<Longrightarrow>
    \<exists>ths' s'. run_threads sc es (ths, s) = Inr (ths', s') \<and> run_ok sc N fillp (ths', s') \<and>
      map th_errorcount ths' = map th_errorcount ths \<and> map th_kind ths' = map th_kind ths \<and> sat_shared s' = sat_shared s \<and>
      (\<forall>i<length ths. told_to_stop sc es i (th_kind (ths ! i)) \<longrightarrow> thread_left (ths' ! i) \<le> thread_left (ths ! i) - own_steps es i) \<and>
      (fillp \<longrightarrow> fill_balance (ths', s') = fill_balance (ths, s))"
proof (induction es arbitrary: ths s)
  case (Cons e es)
  show ?case
  proof (cases "fst e < length ths")
    case True
    obtain th s1 where step: "thread_step sc (snd e) (ths ! fst e, s) = Inr (th, s1)" "run_ok sc N fillp (ths[fst e := th], s1)"
      "th_errorcount th = th_errorcount (ths ! fst e)" "sat_shared s1 = sat_shared s" "th_kind th = th_kind (ths ! fst e)"
      "stopping sc (snd e) (ths ! fst e) \<longrightarrow> thread_left th \<le> thread_left (ths ! fst e) - 1"
      "is_fill (th_kind th) \<longrightarrow> int (size (pool_avail True (sat_pool s1))) - th_loops th =
         int (size (pool_avail True (sat_pool s))) - th_loops (ths ! fst e)"
      by (rule run_step_ok [OF sc Cons.prems True, of "snd e"])
    let ?ths = "ths[fst e := th]"
    have counts: "map th_errorcount ?ths = map th_errorcount ths" "map th_kind ?ths = map th_kind ths"
      using True step(3,5) by (metis list_update_id map_update nth_map)+
    from Cons.IH [OF step(2)] obtain ths' s' where run: "run_threads sc es (?ths, s1) = Inr (ths', s')" "run_ok sc N fillp (ths', s')"
      "map th_errorcount ths' = map th_errorcount ths" "map th_kind ths' = map th_kind ths" "sat_shared s' = sat_shared s"
      and left: "\<And>i. i < length ths \<Longrightarrow> told_to_stop sc es i (th_kind (?ths ! i)) \<Longrightarrow>
        thread_left (ths' ! i) \<le> thread_left (?ths ! i) - own_steps es i"
      and fill: "fillp \<Longrightarrow> fill_balance (ths', s') = fill_balance (?ths, s1)"
      unfolding counts step(4) by auto
    have "thread_left (ths' ! i) \<le> thread_left (ths ! i) - own_steps (e # es) i"
      if i: "i < length ths" and told: "told_to_stop sc (e # es) i (th_kind (ths ! i))" for i
    proof (cases "i = fst e")
      case same: True
      have "thread_left (ths' ! i) \<le> thread_left th - own_steps es i"
        using left [OF i] told step(5) i same by (auto simp: told_to_stop_def)
      moreover have "thread_left th \<le> thread_left (ths ! i) - 1"
        using step(6) told same by (auto simp: told_to_stop_def stopping_def)
      ultimately show ?thesis using same by simp
    next
      case False
      then show ?thesis using left [OF i] told by (auto simp: told_to_stop_def)
    qed
    moreover have "fill_balance (?ths, s1) = fill_balance (ths, s)" if fillp
    proof -
      have "th \<in> set ?ths" using True by (rule set_update_memI)
      then have "is_fill (th_kind th)" using step(2) that by (auto simp: run_ok_def thread_ok_def)
      then show ?thesis using step(7) True by (simp add: fill_balance_def sum_loops_update)
    qed
    ultimately show ?thesis using run fill step(1) True by auto
  next
    case False
    obtain ths' s' where "run_threads sc es (ths, s) = Inr (ths', s')" "run_ok sc N fillp (ths', s')"
      "map th_errorcount ths' = map th_errorcount ths" "map th_kind ths' = map th_kind ths" "sat_shared s' = sat_shared s"
      and left: "\<And>i. i < length ths \<Longrightarrow> told_to_stop sc es i (th_kind (ths ! i)) \<Longrightarrow>
        thread_left (ths' ! i) \<le> thread_left (ths ! i) - own_steps es i"
      and "fillp \<Longrightarrow> fill_balance (ths', s') = fill_balance (ths, s)"
      using Cons.IH [OF Cons.prems] by auto
    then show ?thesis using False by (auto simp: told_to_stop_def)
  qed
qed simp

section \<open>Detection\<close>

lemma check_page_detects:
  assumes geo: "geometry sc N (sat_mem s)" and pe: "mapped sc N pe" and pl: "pl_ok (sat_patternlist s)"
    and k: "pe_pattern pe = Some k" "k < length (patterns (sat_patternlist s))"
  defines "page \<equiv> load_page sc pe (sat_mem s)" and "p \<equiv> patterns (sat_patternlist s) ! k"
  assumes limit: "block_limit (sc_cfg sc) p (pe_addr pe) page"
  defines "wrong \<equiv> wrong_tags (sc_cfg sc) (pe_addr pe) page 0 (page_words sc) + bad_words (sc_cfg sc) p (pe_addr pe) page 0 (page_words sc)"
  obtains errors th' s' where "check_page sc env name phase pe (th, s) = Inr (errors, th', s')"
    "th_errorcount th' = th_errorcount th + int wrong" "th_kind th' = th_kind th" "th_pc th' = th_pc th"
    "sat_mem s' = store_page pe (page_data (sc_cfg sc) p (pe_addr pe)) (sat_mem s)"
    "sat_patternlist s' = sat_patternlist s" "sat_pool s' = sat_pool s"
    "w_stop (sat_shared s') = (w_stop (sat_shared s) \<or> wrong \<noteq> 0 \<and> cf_stop_on_error (sc_cfg sc))"
proof -
  let ?cfg = "now_cfg sc env" and ?pats = "patterns (sat_patternlist s)"
  have len: "length page = page_words sc" using length_load_page [OF geo] pe by (simp add: mapped_def page_def)
  have ok: "page_ok ?cfg ?pats pe page"
    using k pl len page_tag_ok [OF geo pe] geometry_bytes(2) [OF geo] by (auto simp: page_ok_def pl_ok_def)
  have p: "pat_of ?pats pe = p" using k by (simp add: pat_of_def p_def)
  have "bad_words ?cfg = bad_words (sc_cfg sc)" "wrong_tags ?cfg = wrong_tags (sc_cfg sc)"
    by (simp_all add: bad_words_def wrong_tags_def fun_eq_iff)
  note same = this
  have "block_limit ?cfg (pat_of ?pats pe) (pe_addr pe) page" using limit unfolding block_limit_def same p .
  from CrcCheckPage_eq [OF ok this, of name phase "as_worker th s"] obtain w' where
    w': "CrcCheckPage ?cfg ?pats pe name phase (page, as_worker th s) =
      Inr (bad_words (sc_cfg sc) p (pe_addr pe) page 0 (page_words sc) +
             wrong_tags (sc_cfg sc) (pe_addr pe) page (512 * (page_words sc div 512)) (page_words sc),
           page_data (sc_cfg sc) p (pe_addr pe), w')" "counted ?cfg wrong (as_worker th s) w'"
    unfolding same p len by (auto simp: wrong_def)
  obtain th' s' where fw: "from_worker w' (th, s\<lparr>sat_mem := store_page pe (page_data (sc_cfg sc) p (pe_addr pe)) (sat_mem s)\<rparr>) = (th', s')"
    by force
  then have "th' = th\<lparr>th_errorcount := w_errorcount w', th_diag := w_diag w'\<rparr>"
    "s' = s\<lparr>sat_mem := store_page pe (page_data (sc_cfg sc) p (pe_addr pe)) (sat_mem s),
            sat_shared := w'\<lparr>w_errorcount := w_errorcount (sat_shared s), w_diag := w_diag (sat_shared s)\<rparr>\<rparr>"
    by (simp_all add: from_worker_def)
  then show thesis
    using that [OF _ _ _ _ _ _ _, of _ th' s'] w' fw
    by (simp add: check_page_def page_def [symmetric] counted_def) (simp add: as_worker_def)
qed

section \<open>Properties\<close>

lemma settings_okI:
  fixes F :: "'f fp"
  assumes "\<not> sc_error_injection sc"
    and "sc_warm sc \<Longrightarrow> sc_warm_copy sc \<in> {AdlerMemcpyWarm False asm F, AdlerMemcpyAsm_sse2 xmm, AdlerMemcpyAsm_aarch64 v,
      AdlerMemcpyAsm_armv7 q}"
  shows "settings_ok sc"
proof -
  have "page_copier (sc_warm_copy sc) (AdlerAddrMemcpyWarm (sc_warm_copy sc))" if "sc_warm sc"
    using assms(2) [OF that]
    by (elim insertE emptyE)
      (simp_all only: warm_c.page_copier_axioms warm_sse2.page_copier_axioms warm_aarch64.page_copier_axioms warm_armv7.page_copier_axioms)
  then show ?thesis using assms(1) by (simp add: settings_ok_def)
qed

definition run_kind :: "thread_kind \<Rightarrow> bool" where
  "run_kind kind \<longleftrightarrow> kind = CopyThread \<or> kind = InvertThread \<or> (\<exists>phase. kind = CheckThread phase)"

lemma start_ok:
  assumes "pool_inv (all_pages sc N) (sat_pool s) {#}" "shared_ok sc N fillp s"
    and "\<forall>th \<in> set ths. th_pc th = LoopHead \<and> (if fillp then is_fill (th_kind th) else run_kind (th_kind th))"
  shows "run_ok sc N fillp (ths, s)"
proof -
  have "all_held ths = {#}" using assms(3) by (induction ths) (simp_all add: all_held_def held_offsets_def)
  then show ?thesis using assms by (auto simp: run_ok_def thread_ok_def run_kind_def split: if_splits)
qed

lemma run_threads_append:
  "run_threads sc (es @ es') x = res_bind (run_threads sc es x) (run_threads sc es')"
proof (induction es arbitrary: x)
  case (Cons e es)
  then show ?case
    by (cases "thread_step sc (snd e) (fst x ! fst e, snd x)") (auto simp: split: prod.splits)
qed simp

lemma all_finished:
  assumes ok: "run_ok sc N fillp (ths, s)" and left: "\<forall>th \<in> set ths. thread_left th = 0"
  shows "(\<forall>th \<in> set ths. \<exists>b. th_pc th = Finished b) \<and> pool_inv (all_pages sc N) (sat_pool s) {#} \<and> shared_ok sc N fillp s"
proof -
  have fin: "\<exists>b. th_pc th = Finished b" if "th \<in> set ths" for th
  proof -
    have "thread_left th = 0" "pc_ok sc (patterns (sat_patternlist s)) (sat_mem s) (th_kind th) (th_pc th)"
      using that ok left by (auto simp: run_ok_def thread_ok_def)
    then show ?thesis by (cases "th_pc th") (auto split: if_splits)
  qed
  then have "held_offsets th = {#}" if "th \<in> set ths" for th
    using that by (fastforce simp: held_offsets_def)
  then have "all_held ths = {#}" unfolding all_held_def by (induction ths) auto
  then show ?thesis using fin ok by (auto simp: run_ok_def)
qed

lemma left_le: "\<not> is_fill kind \<Longrightarrow> fill_rounds kind loops = 0 \<Longrightarrow> fill_rounds kind (loops + 1) = 0 \<Longrightarrow> steps_left kind loops pc \<le> 8"
  by (cases pc) simp_all

lemma stops_left: "stops sc (th_kind th) \<Longrightarrow> thread_left th \<le> 8"
  by (rule left_le) (auto simp: stops_def)

text \<open>
  C7. No false alarms. Take good memory: every available valid page holds exactly the data of its pattern at its
  address, and, with tags, every empty page holds its tags. Then any number of copy, check and invert workers, running
  in any interleaving, with any random numbers, CPU numbers, frequencies and clock, never fail an assertion, count no error and report none;
  every page is always held by one worker or available in one pool, and the available valid pages still hold the data of their pattern.
\<close>

theorem no_false_alarm:
  fixes F :: "'f fp"
  assumes "\<not> sc_error_injection sc"
    and "sc_warm sc \<Longrightarrow> sc_warm_copy sc \<in> {AdlerMemcpyWarm False asm F, AdlerMemcpyAsm_sse2 xmm, AdlerMemcpyAsm_aarch64 v,
      AdlerMemcpyAsm_armv7 q}"
    and "pool_inv (all_pages sc N) (sat_pool s) {#}" "shared_ok sc N False s"
    and "\<forall>th \<in> set ths. th_pc th = LoopHead \<and> run_kind (th_kind th)"
  shows "\<exists>ths' s'. run_threads sc es (ths, s) = Inr (ths', s') \<and>
    map th_errorcount ths' = map th_errorcount ths \<and> sat_shared s' = sat_shared s \<and>
    (\<forall>pe \<in># pool_avail True (sat_pool s'). holds sc (patterns (sat_patternlist s')) (sat_mem s') pe) \<and>
    image_mset pe_offset (pool_avail True (sat_pool s')) + image_mset pe_offset (pool_avail False (sat_pool s')) +
      all_held ths' = all_pages sc N"
proof -
  have sc: "False \<or> settings_ok sc" using settings_okI [OF assms(1,2)] by simp
  have "run_ok sc N False (ths, s)" using start_ok [where sc = sc and N = N and s = s and fillp = False and ths = ths] assms(3-5) by simp
  from run_threads_ok [OF sc this, of es] obtain ths' s' where
    run: "run_threads sc es (ths, s) = Inr (ths', s')" "run_ok sc N False (ths', s')"
    "map th_errorcount ths' = map th_errorcount ths" "sat_shared s' = sat_shared s" by auto
  then have "pool_inv (all_pages sc N) (sat_pool s') (all_held ths')" "shared_ok sc N False s'" by (simp_all add: run_ok_def)
  then show ?thesis using run pools.partition [of "all_pages sc N" "sat_pool s'"] by (auto simp: shared_ok_def)
qed

text \<open>A run that is ended by telling the workers to stop.\<close>

lemma run_to_end:
  assumes sc: "settings_ok sc" and ok: "run_ok sc N False (ths, s)" and kinds: "\<forall>th \<in> set ths. stops sc (th_kind th)"
    and quiet: "\<forall>e \<in> set es'. \<not> se_ready (snd e)" "\<forall>i<length ths. 8 \<le> own_steps es' i"
  obtains ths' s' where "run_threads sc (es @ es') (ths, s) = Inr (ths', s')" "\<forall>th \<in> set ths'. \<exists>b. th_pc th = Finished b"
    "pool_inv (all_pages sc N) (sat_pool s') {#}" "shared_ok sc N False s'" "map th_errorcount ths' = map th_errorcount ths"
    "sat_shared s' = sat_shared s"
proof -
  from run_threads_ok [OF disjI2 [OF sc] ok, of es] obtain ths1 s1 where
    run: "run_threads sc es (ths, s) = Inr (ths1, s1)" "run_ok sc N False (ths1, s1)" "map th_kind ths1 = map th_kind ths"
    "map th_errorcount ths1 = map th_errorcount ths" "sat_shared s1 = sat_shared s" by auto
  from run_threads_ok [OF disjI2 [OF sc] run(2), of es'] obtain ths2 s2 where
    run': "run_threads sc es' (ths1, s1) = Inr (ths2, s2)" "run_ok sc N False (ths2, s2)" "map th_kind ths2 = map th_kind ths1"
    "map th_errorcount ths2 = map th_errorcount ths1" "sat_shared s2 = sat_shared s1"
    and left: "\<And>i. i < length ths1 \<Longrightarrow> told_to_stop sc es' i (th_kind (ths1 ! i)) \<Longrightarrow>
      thread_left (ths2 ! i) \<le> thread_left (ths1 ! i) - own_steps es' i" by auto
  have len: "length ths1 = length ths" "length ths2 = length ths"
    using run(3) run'(3) by (metis length_map)+
  have "thread_left (ths2 ! i) = 0" if i: "i < length ths" for i
  proof -
    have kind: "stops sc (th_kind (ths1 ! i))" using kinds i run(3) len by (metis nth_map nth_mem)
    then have "told_to_stop sc es' i (th_kind (ths1 ! i))" using quiet(1) by (simp add: told_to_stop_def)
    then show ?thesis using left [of i] stops_left [OF kind] quiet(2) i len by fastforce
  qed
  then have "\<forall>th \<in> set ths2. thread_left th = 0" using len by (metis in_set_conv_nth)
  then show thesis using that [of ths2 s2] all_finished [OF run'(2)] run run' by (simp add: run_threads_append)
qed


text \<open>
  The initial fill. Any number of fill workers, in any interleaving, fill pages without reporting an error: every available valid
  page holds the data of its pattern, each round of a worker adds exactly one valid page, no page is lost, and a
  worker that has to fill \<open>n\<close> pages ends after at most \<open>3 * n + 1\<close> of its steps.
\<close>

theorem fill_phase:
  assumes "pool_inv (all_pages sc N) (sat_pool s) {#}" "shared_ok sc N True s"
    and "\<forall>th \<in> set ths. th_pc th = LoopHead \<and> th_loops th = 0 \<and> th_kind th = FillThread False n"
  shows "\<exists>ths' s'. run_threads sc es (ths, s) = Inr (ths', s') \<and>
    map th_errorcount ths' = map th_errorcount ths \<and> sat_shared s' = sat_shared s \<and>
    (\<forall>pe \<in># pool_avail True (sat_pool s'). holds sc (patterns (sat_patternlist s')) (sat_mem s') pe) \<and>
    int (size (pool_avail True (sat_pool s'))) = int (size (pool_avail True (sat_pool s))) + sum_list (map th_loops ths') \<and>
    pool_inv (all_pages sc N) (sat_pool s') (all_held ths') \<and>
    (\<forall>i<length ths. 3 * nat n + 1 \<le> own_steps es i \<longrightarrow> (\<exists>b. th_pc (ths' ! i) = Finished b))"
proof -
  have start: "run_ok sc N True (ths, s)"
    using start_ok [where sc = sc and N = N and s = s and fillp = True and ths = ths] assms by simp
  from run_threads_ok [OF disjI1 [OF TrueI] this, of es] obtain ths' s' where
    run: "run_threads sc es (ths, s) = Inr (ths', s')" "run_ok sc N True (ths', s')"
    "map th_errorcount ths' = map th_errorcount ths" "map th_kind ths' = map th_kind ths" "sat_shared s' = sat_shared s"
    "fill_balance (ths', s') = fill_balance (ths, s)"
    and left: "\<And>i. i < length ths \<Longrightarrow> told_to_stop sc es i (th_kind (ths ! i)) \<Longrightarrow>
      thread_left (ths' ! i) \<le> thread_left (ths ! i) - own_steps es i" by auto
  have len: "length ths' = length ths" using run(4) by (metis length_map)
  have "map th_loops ths = map (\<lambda>_. 0) ths" using assms(3) by simp
  then have "sum_list (map th_loops ths) = 0" by (simp only: sum_list_0)
  then have balance: "int (size (pool_avail True (sat_pool s'))) =
      int (size (pool_avail True (sat_pool s))) + sum_list (map th_loops ths')"
    using run(6) by (simp add: fill_balance_def)
  have "\<exists>b. th_pc (ths' ! i) = Finished b" if i: "i < length ths" "3 * nat n + 1 \<le> own_steps es i" for i
  proof -
    have th: "ths ! i \<in> set ths" "ths' ! i \<in> set ths'" using i(1) len by simp_all
    then have "thread_left (ths ! i) = 3 * nat n + 1" "told_to_stop sc es i (th_kind (ths ! i))"
      using assms(3) by (simp_all add: told_to_stop_def)
    then have "thread_left (ths' ! i) = 0" using left [OF i(1)] i(2) by simp
    moreover have "pc_ok sc (patterns (sat_patternlist s')) (sat_mem s') (th_kind (ths' ! i)) (th_pc (ths' ! i))"
      using run(2) th(2) by (auto simp: run_ok_def thread_ok_def)
    ultimately show ?thesis by (cases "th_pc (ths' ! i)") (auto split: if_splits)
  qed
  then show ?thesis using run balance by (auto simp: run_ok_def shared_ok_def)
qed

section \<open>Concrete instances\<close>

text \<open>One page of 4096 bytes, the program's pattern list, and a pool that holds the page as valid or as empty.\<close>

definition ex_sc :: settings where
  "ex_sc = \<lparr>sc_cfg = ex_cfg, sc_os = ex_os, sc_warm = False, sc_strict = True, sc_warm_copy = AdlerMemcpyC,
     sc_copy_verify_destination = True, sc_error_injection = False, sc_invert_range = INVERT_RANGE_FULL,
     sc_diag_phase_summary = False, sc_diag_block_history = False, sc_fill_preset = FILL_PRESET_NONE,
     sc_fill_verify_every = 1, sc_skip_final_check = False, sc_final_check_threads_explicit = True\<rparr>"

definition ex_step :: "bool \<Rightarrow> step_env" where
  "ex_step ready = \<lparr>se_call = ex_env, se_ready = ready, se_cpu = 0, se_frequency = - 1, se_now = 0, se_epoch_begin = 0,
     se_epoch = 0, se_random = 5, se_inject = None\<rparr>"

abbreviation ex_pl :: PatternList where
  "ex_pl \<equiv> PatternList_Initialize PatternList_new"

definition ex_sat :: "pool \<Rightarrow> u64 list \<Rightarrow> sat" where
  "ex_sat p mem = \<lparr>sat_pool = p, sat_mem = mem, sat_patternlist = ex_pl, sat_shared = ex_worker, sat_history = None\<rparr>"

abbreviation ex_thread :: "thread_kind \<Rightarrow> thread" where
  "ex_thread kind \<equiv> new_thread kind 0 kDontCareTag None"

lemmas ex_simps = ex_sc_def ex_step_def ex_sat_def new_thread_def ex_cfg_def

lemma ex_geometry: "length mem = 512 \<Longrightarrow> geometry ex_sc 1 mem"
  using ex_os_maps by (simp add: geometry_def ex_simps page_words_def)

lemma ex_pl_ok: "pl_ok ex_pl"
proof -
  have "wf_page_pattern p" if "p \<in> set ex_pats" for p
    using that wf_page_PatternList [of _ PatternList_new] by (auto simp: in_set_conv_nth)
  moreover have "selected_pattern_ids ex_pl = []" by (simp add: PatternList_Initialize_def PatternList_new_def Let_def)
  ultimately show ?thesis using weightcount_Initialize [of PatternList_new] by (simp add: pl_ok_def)
qed

lemma ex_pool:
  obtains p where "pool_inv (page_offsets 1 4096) p {#}" "pool_avail True p = {#ex_pe\<lparr>pe_addr := 0\<rparr>#}" "pool_avail False p = {#}"
proof -
  let ?p0 = "new_pool False (\<lambda>_. blank_pe) 1 4096"
  have inv: "pool_inv (page_offsets 1 4096) ?p0 (page_offsets 1 4096)" by (rule new_pool_inv) simp_all
  have held: "page_offsets 1 4096 = add_mset (pe_offset ex_pe) {#}"
    unfolding ex_offsets by (simp add: blank_pe_def)
  have none: "pool_avail b ?p0 = {#}" for b
    by (simp add: new_pool_def pool_avail_def one_bag_def PageEntryQueue_new_ok)
  obtain p where "pool_inv (add_mset (pe_offset ex_pe) {#}) p {#}" "pool_avail True p = add_mset (ex_pe\<lparr>pe_addr := 0\<rparr>) (pool_avail True ?p0)"
    "pool_avail False p = pool_avail False ?p0"
    by (rule sat_PutValid_ok [OF inv [unfolded held] ex_os_maps [unfolded held], of ex_env]) simp_all
  then show thesis using that [of p] none held by simp
qed

lemma ex_empty_pool:
  obtains p where "pool_inv (page_offsets 1 4096) p {#}" "pool_avail True p = {#}"
proof -
  let ?p0 = "new_pool False (\<lambda>_. blank_pe) 1 4096"
  have inv: "pool_inv (page_offsets 1 4096) ?p0 (page_offsets 1 4096)" by (rule new_pool_inv) simp_all
  have held: "page_offsets 1 4096 = add_mset (pe_offset blank_pe) {#}"
    unfolding ex_offsets by (simp add: blank_pe_def)
  have none: "pool_avail b ?p0 = {#}" for b
    by (simp add: new_pool_def pool_avail_def one_bag_def PageEntryQueue_new_ok)
  obtain p where "pool_inv (add_mset (pe_offset blank_pe) {#}) p {#}" "pool_avail True p = pool_avail True ?p0"
    by (rule sat_PutEmpty_ok [OF inv [unfolded held] ex_os_maps [unfolded held], of ex_env])
  then show thesis using that [of p] none held by simp
qed

definition ex_mem :: "u64 list" where
  "ex_mem = page_data ex_cfg (ex_pats ! 3) 0x10000"

lemma length_ex_mem: "length ex_mem = 512"
  by (simp add: ex_mem_def page_data_def ex_cfg_def)

lemma ex_shared_ok:
  assumes "pool_avail True p = {#ex_pe\<lparr>pe_addr := 0\<rparr>#}" "pool_avail False p = {#}"
  shows "shared_ok ex_sc 1 False (ex_sat p ex_mem)"
proof -
  have "holds ex_sc ex_pats ex_mem (ex_pe\<lparr>pe_addr := 0\<rparr>)"
    using length_ex_mem
    by (auto simp: holds_def load_page_def page_start_def page_words_def ex_sc_def blank_pe_def ex_os_def ex_mem_def ex_cfg_def intro: exI [of _ 3])
  then show ?thesis
    using assms ex_geometry [OF length_ex_mem] ex_pl_ok by (simp add: shared_ok_def ex_sat_def)
qed

theorem no_false_alarm_witness:
  "\<exists>p ths' s'. pool_avail True p \<noteq> {#} \<and>
     run_threads ex_sc [(0, ex_step True), (1, ex_step True), (0, ex_step True), (0, ex_step True)]
       ([ex_thread InvertThread, ex_thread (CheckThread ''runtime_check'')], ex_sat p ex_mem) = Inr (ths', s') \<and>
     map th_errorcount ths' = [0, 0]"
proof -
  obtain p where p: "pool_inv (page_offsets 1 4096) p {#}" "pool_avail True p = {#ex_pe\<lparr>pe_addr := 0\<rparr>#}" "pool_avail False p = {#}"
    by (rule ex_pool)
  show ?thesis
    using no_false_alarm [where sc = ex_sc and N = 1 and s = "ex_sat p ex_mem" and
        ths = "[ex_thread InvertThread, ex_thread (CheckThread ''runtime_check'')]" and
        es = "[(0, ex_step True), (1, ex_step True), (0, ex_step True), (0, ex_step True)]"] p ex_shared_ok [OF p(2,3)]
    by (intro exI [of _ p]) (auto simp: ex_simps run_kind_def)
qed


theorem fill_phase_witness:
  "\<exists>p ths' s'. run_threads ex_sc (replicate 4 (0, ex_step True)) ([ex_thread (FillThread False 1)], ex_sat p (replicate 512 0)) = Inr (ths', s') \<and>
     map th_errorcount ths' = [0] \<and> (\<forall>th \<in> set ths'. \<exists>b. th_pc th = Finished b)"
proof -
  obtain p where p: "pool_inv (page_offsets 1 4096) p {#}" "pool_avail True p = {#}"
    by (rule ex_empty_pool)
  have ok: "shared_ok ex_sc 1 True (ex_sat p (replicate 512 0))"
    using p(2) ex_geometry [of "replicate 512 0"] ex_pl_ok by (simp add: shared_ok_def ex_sat_def)
  obtain ths' s' where r: "run_threads ex_sc (replicate 4 (0, ex_step True)) ([ex_thread (FillThread False 1)], ex_sat p (replicate 512 0)) = Inr (ths', s')"
    "map th_errorcount ths' = [0]" "\<exists>b. th_pc (ths' ! 0) = Finished b"
    using fill_phase [where sc = ex_sc and N = 1 and s = "ex_sat p (replicate 512 0)" and ths = "[ex_thread (FillThread False 1)]" and n = 1 and
        es = "replicate 4 (0, ex_step True)"] p ok
    by (auto simp: ex_simps)
  then obtain th where "ths' = [th]" by (auto simp: map_eq_Cons_conv)
  then show ?thesis using r by (intro exI [of _ p] exI [of _ ths'] exI [of _ s']) simp
qed

end
