(* ===== verification/Startup.thy ===== *)
theory Startup
  imports MemTest
begin

text \<open>
  The way from an empty pool to the running test: \<open>Sat::InitializePages\<close> with \<open>RunFillPass\<close>, the post-fill check of
  \<open>PostFillCheckThread::Work\<close>, the bitmap of touched physical pages (\<open>AddrMapInit\<close>, \<open>AddrMapUpdate\<close>, \<open>AddrMapPrint\<close>) and \<open>OsLayer::FindRegion\<close>
  (\<^verbatim>\<open>src/src/sat.cc\<close>, \<^verbatim>\<open>src/src/worker.cc\<close>, \<^verbatim>\<open>src/src/os.cc\<close>). The fill workers of a pass interleave as any workers do; the rest is done
  by the main thread. Delays and log lines have no effect on the state and are left out.
\<close>

section \<open>Settings and state\<close>

text \<open>
  The options \<open>InitializePages\<close> reads beside those of the workers. \<open>su_paddr\<close> is the answer of \<open>VirtualToPhysical\<close>, which reads
  \<^verbatim>\<open>/proc/self/pagemap\<close>; \<open>su_page_size\<close> that of \<open>sysconf\<close>; \<open>su_free_mem\<close> that of \<open>FindFreeMemSize\<close>.
\<close>

record startup =
  su_pages :: int
  su_memory_threads :: int
  su_invert_threads :: int
  su_check_threads :: int
  su_net_threads :: int
  su_file_threads :: int
  su_fill_threads :: int
  su_prefault_pages :: bool
  su_verify_after_fill :: bool
  su_do_page_map :: bool
  su_page_size :: int
  su_paddr :: "u64 \<Rightarrow> u64"
  su_totalmemsize :: int
  su_free_mem :: u64

text \<open>What the outside world answers in the phases: whether \<open>pthread_create\<close> succeeds, the schedules of the fill workers, and the
  values met by the main thread and the verify worker in each round of a loop.\<close>

record init_env =
  ie_put :: "nat \<Rightarrow> step_env"
  ie_prefault :: "nat \<Rightarrow> step_env"
  ie_spawned :: "bool \<Rightarrow> nat \<Rightarrow> bool"
  ie_schedule :: "bool \<Rightarrow> (nat \<times> step_env) list"
  ie_reset :: "nat \<Rightarrow> step_env"
  ie_verify_spawned :: bool
  ie_verify :: "nat \<Rightarrow> step_env"
  ie_restore :: "nat \<Rightarrow> nat"
  ie_split :: "nat \<Rightarrow> step_env"

text \<open>
  The fields of \<open>Sat\<close> that change: beside the shared state of the workers the counts of empty pages and of errors,
  \<open>statuscount_\<close>, the pages per region with their mask and count, the bitmap, and the printed ranges.
\<close>

record init_state =
  is_sat :: sat
  is_freepages :: int
  is_errorcount :: int
  is_statuscount :: int
  is_region :: "int list"
  is_region_mask :: u32
  is_region_count :: int
  is_bitmap_size :: u64
  is_bitmap :: "8 word list"
  is_ranges :: "(u64 \<times> u64) list"

definition bad_status :: "init_state \<Rightarrow> init_state" where
  "bad_status st = st\<lparr>is_statuscount := is_statuscount st + 1\<rparr>"

section \<open>Regions\<close>

text \<open>\<open>regionsize_\<close> and \<open>regioncount_\<close> are computed on the first call and stay; \<open>region_num\<close> is a 32-bit integer.\<close>

definition regionsize :: "int \<Rightarrow> int" where
  "regionsize totalmemsize = (if totalmemsize div 8 < 512 * 2 ^ 20 then 512 * 2 ^ 20 else totalmemsize div 8)"

definition regioncount :: "int \<Rightarrow> int" where
  "regioncount totalmemsize =
     (let c = totalmemsize div regionsize totalmemsize in if c < 1 then 1 else c)"

definition FindRegion :: "int \<Rightarrow> u64 \<Rightarrow> int" where
  "FindRegion totalmemsize addr =
     (let region_num = sint (ucast (addr div of_int (regionsize totalmemsize)) :: 32 word)
      in if regioncount totalmemsize \<le> region_num then region_num mod regioncount totalmemsize else region_num)"

section \<open>The bitmap of touched pages\<close>

definition AddrMapInit :: "startup \<Rightarrow> init_state \<Rightarrow> init_state res" where
  "AddrMapInit su st =
     (if \<not> su_do_page_map su then Inr st
      else let maxsize = su_free_mem su * 4
           in res_bind (sat_assert (maxsize \<noteq> 0)) (\<lambda>_.
                Inr (st\<lparr>is_bitmap_size := maxsize, is_bitmap := replicate (unat (maxsize div 4096 div 8)) 0\<rparr>)))"

text \<open>\<open>offset\<close> is a 32-bit number in the source.\<close>

definition mark_page :: "u64 \<Rightarrow> u64 \<Rightarrow> 8 word list \<Rightarrow> 8 word list res" where
  "mark_page bitmap_size paddr bitmap =
     (let arraysize = bitmap_size div 4096 div 8;
          offset = unat (ucast (paddr div 4096 div 8) :: u32);
          pmask = push_bit (unat (paddr div 4096 mod 8)) 1
      in res_bind (sat_assert (offset < unat arraysize)) (\<lambda>_.
         res_bind (rd bitmap offset) (\<lambda>b. Inr (bitmap[offset := b OR pmask]))))"

text \<open>The loop over the 4-KB blocks of a page, \<open>n\<close> rounds from byte \<open>i\<close> on.\<close>

primrec mark_blocks :: "startup \<Rightarrow> u64 \<Rightarrow> u64 \<Rightarrow> nat \<Rightarrow> nat \<Rightarrow> 8 word list \<Rightarrow> 8 word list res" where
  "mark_blocks su bitmap_size base 0 i bitmap = Inr bitmap"
| "mark_blocks su bitmap_size base (Suc n) i bitmap =
     res_bind (mark_page bitmap_size (su_paddr su (base + of_nat i)) bitmap) (\<lambda>bitmap'.
       mark_blocks su bitmap_size base n (i + 4096) bitmap')"

definition AddrMapUpdate :: "startup \<Rightarrow> int \<Rightarrow> page_entry \<Rightarrow> init_state \<Rightarrow> init_state res" where
  "AddrMapUpdate su page_length pe st =
     (if \<not> su_do_page_map su then Inr st
      else res_bind (mark_blocks su (is_bitmap_size st) (pe_addr pe) ((nat page_length + 4095) div 4096) 0 (is_bitmap st)) (\<lambda>b.
             Inr (st\<lparr>is_bitmap := b\<rparr>)))"

definition touched_page :: "8 word list \<Rightarrow> nat \<Rightarrow> bool" where
  "touched_page bitmap i = bit (bitmap ! (i div 8)) (i mod 8)"

text \<open>The loop over the pages: \<open>n\<close> rounds from page \<open>i\<close> on, with the first page of the current range if there is one.\<close>

primrec print_ranges :: "8 word list \<Rightarrow> nat \<Rightarrow> nat \<Rightarrow> nat option \<Rightarrow> (u64 \<times> u64) list" where
  "print_ranges bitmap 0 i valid_range = []"
| "print_ranges bitmap (Suc n) i valid_range =
     (if touched_page bitmap i \<and> valid_range = None then print_ranges bitmap n (i + 1) (Some i)
      else case valid_range of
        Some first \<Rightarrow>
          if \<not> touched_page bitmap i
          then (of_nat first * 4096, of_nat i * 4096 - 1) # print_ranges bitmap n (i + 1) None
          else print_ranges bitmap n (i + 1) valid_range
      | None \<Rightarrow> print_ranges bitmap n (i + 1) valid_range)"

definition AddrMapPrint :: "startup \<Rightarrow> init_state \<Rightarrow> init_state" where
  "AddrMapPrint su st =
     (if \<not> su_do_page_map su then st
      else st\<lparr>is_ranges := print_ranges (is_bitmap st) (unat (is_bitmap_size st div 4096)) 0 None\<rparr>)"

section \<open>Registering and touching the pages\<close>

primrec empty_pages :: "settings \<Rightarrow> (nat \<Rightarrow> step_env) \<Rightarrow> page_entry \<Rightarrow> nat \<Rightarrow> nat \<Rightarrow> bool \<times> sat \<Rightarrow> (bool \<times> sat) res" where
  "empty_pages sc env garbage 0 i x = Inr x"
| "empty_pages sc env garbage (Suc n) i x =
     (let pe = (init_pe garbage)\<lparr>pe_offset := of_nat i * of_int (cf_page_length (sc_cfg sc))\<rparr>
      in res_bind (put_empty sc (env i) pe (snd x)) (\<lambda>(ok, s). empty_pages sc env garbage n (i + 1) (fst x \<and> ok, s)))"

definition clear_byte :: "nat \<Rightarrow> u64 list \<Rightarrow> u64 list" where
  "clear_byte k page = page[k div 8 := page ! (k div 8) AND NOT (push_bit (8 * (k mod 8)) 0xff)]"

text \<open>One byte in every page of the operating system, \<open>step\<close> bytes apart.\<close>

function clear_bytes :: "nat \<Rightarrow> nat \<Rightarrow> nat \<Rightarrow> u64 list \<Rightarrow> u64 list" where
  "clear_bytes step len offset page =
     (if offset < len \<and> 0 < step then clear_bytes step len (offset + step) (clear_byte offset page) else page)"
  by auto
termination by (relation "measure (\<lambda>(step, len, offset, page). len - offset)") auto

declare clear_bytes.simps [simp del]

primrec prefault :: "settings \<Rightarrow> page_entry \<Rightarrow> startup \<Rightarrow> (nat \<Rightarrow> step_env) \<Rightarrow> nat \<Rightarrow> nat \<Rightarrow> sat \<Rightarrow> (bool \<times> sat) res" where
  "prefault sc garbage su env 0 i s = Inr (True, s)"
| "prefault sc garbage su env (Suc n) i s =
     (let len = cf_page_length (sc_cfg sc);
          step = (if su_page_size su \<le> 0 then 4096 else su_page_size su);
          pe = (init_pe garbage)\<lparr>pe_offset := of_nat i * of_int len\<rparr>
      in res_bind (PrepareTestMem (sc_os sc) (se_call (env i)) (pe_offset pe) (of_int len)) (\<lambda>addr.
         if addr = 0 then Inr (False, s)
         else let page = clear_bytes (nat step) (nat len) 0 (load_page sc pe (sat_mem s));
                  s' = s\<lparr>sat_mem := store_page pe page (sat_mem s)\<rparr>
              in res_bind (ReleaseTestMem (sc_os sc) (se_call (env i)) addr (pe_offset pe) (of_int len)) (\<lambda>_.
                   prefault sc garbage su env n (i + 1) s')))"


section \<open>A fill pass\<close>

definition fill_quota :: "startup \<Rightarrow> int \<Rightarrow> int" where
  "fill_quota su i =
     (if i \<noteq> su_fill_threads su - 1 then su_pages su div su_fill_threads su
      else su_pages su - su_pages su div su_fill_threads su * i)"

text \<open>The statistics \<open>InitThread\<close> sets up, and the workers. \<open>tag_\<close> is not set; a fill worker does not read it.\<close>

definition new_stats :: "settings \<Rightarrow> diag" where
  "new_stats sc =
     (if sc_diag_phase_summary sc
      then Some (replicate (phase_slot DIAG_PHASE_COUNT)
        \<lparr>ds_blocks = 0, ds_read_bytes = 0, ds_write_bytes = 0, ds_checksum_mismatch_regions = 0, ds_word_mismatches = 0,
         ds_first_error_us = - 1, ds_first_error_epoch = 0, ds_first_error_worker_bytes = 0\<rparr>)
      else None)"

definition fill_workers :: "settings \<Rightarrow> startup \<Rightarrow> bool \<Rightarrow> thread list" where
  "fill_workers sc su preset_only =
     map (\<lambda>i. new_thread (FillThread preset_only (fill_quota su (int i))) (int i) kDontCareTag (new_stats sc))
       [0..<nat (su_fill_threads su)]"

definition has_finished :: "thread \<Rightarrow> bool" where
  "has_finished th = (case th_pc th of Finished _ \<Rightarrow> True | _ \<Rightarrow> False)"

text \<open>The loop that makes the pages of a preset pass empty again.\<close>

primrec reset_pages :: "settings \<Rightarrow> (nat \<Rightarrow> step_env) \<Rightarrow> nat \<Rightarrow> nat \<Rightarrow> sat \<Rightarrow> (bool \<times> sat) res" where
  "reset_pages sc env 0 i s = Inr (True, s)"
| "reset_pages sc env (Suc n) i s =
     res_bind (get_valid sc (env i) kDontCareTag s) (\<lambda>(r, s1).
       case r of
         None \<Rightarrow> Inr (False, s1)
       | Some pe \<Rightarrow> res_bind (put_empty sc (env i) pe s1) (\<lambda>(ok, s2).
           if ok then reset_pages sc env n (i + 1) s2 else Inr (False, s2)))"

text \<open>Each worker that could not be created and each that ended with a status other than 1 counts once in \<open>statuscount_\<close>.\<close>

definition RunFillPass :: "settings \<Rightarrow> startup \<Rightarrow> init_env \<Rightarrow> bool \<Rightarrow> init_state \<Rightarrow> (bool \<times> init_state) res" where
  "RunFillPass sc su env preset_only st =
     (let spawned = ie_spawned env preset_only
      in res_bind (run_threads sc (filter (\<lambda>e. spawned (fst e)) (ie_schedule env preset_only))
                     (fill_workers sc su preset_only, is_sat st)) (\<lambda>(ths, s).
           if list_ex (\<lambda>i. spawned i \<and> \<not> has_finished (ths ! i)) [0..<length ths] then Inl StillRunning
           else
             let bad = filter (\<lambda>i. \<not> spawned i \<or> th_pc (ths ! i) = Finished False) [0..<length ths];
                 st1 = st\<lparr>is_sat := s, is_errorcount := is_errorcount st + sum_list (map th_errorcount ths),
                          is_statuscount := is_statuscount st + int (length bad)\<rparr>
             in if preset_only \<and> bad = []
                then res_bind (reset_pages sc (ie_reset env) (nat (su_pages su)) 0 s) (\<lambda>(ok, s').
                       Inr (ok, if ok then st1\<lparr>is_sat := s'\<rparr> else bad_status (st1\<lparr>is_sat := s'\<rparr>)))
                else Inr (bad = [], st1)))"

section \<open>The check after the fill\<close>

definition coarse_grain_queue :: "sat \<Rightarrow> bool" where
  "coarse_grain_queue s = (case sat_pool s of SAT_ONELOCK _ _ \<Rightarrow> True | SAT_FINELOCK _ \<Rightarrow> False)"

text \<open>One round: the result is whether the page was checked.\<close>

definition post_fill_round :: "settings \<Rightarrow> step_env \<Rightarrow> u64 \<Rightarrow> thread \<times> sat \<Rightarrow> (bool \<times> thread \<times> sat) res" where
  "post_fill_round sc env page_offset = (\<lambda>(th, s).
     let coarse_queue = coarse_grain_queue s; os = sc_os sc; len = cf_page_length (sc_cfg sc)
     in res_bind (if coarse_queue then get_valid sc env kDontCareTag s
                  else res_bind (GetValidByOffsetForInitialization os len (se_call env) page_offset (sat_pool s)) (\<lambda>r. Inr (r, s)))
          (\<lambda>(r, s1).
        case r of
          None \<Rightarrow> Inr (False, th, s1)
        | Some pe \<Rightarrow>
            res_bind (check_page sc env ''post_fill'' ''full_check'' pe (th, s1)) (\<lambda>(errors, th2, s2).
              let th3 = note_operation sc env DIAG_PHASE_POST_FILL_CHECK len 0 errors th2
              in if coarse_queue
                 then res_bind (HoldInitializationPage os len (se_call env) pe (sat_pool s2)) (\<lambda>(ok, p).
                        if ok then Inr (True, th3, s2\<lparr>sat_pool := p\<rparr>)
                        else res_bind (put_valid sc env (pe\<lparr>pe_addr := 0\<rparr>) (s2\<lparr>sat_pool := p\<rparr>)) (\<lambda>(_, s3). Inr (False, th3, s3)))
                 else res_bind (ReleaseInitializationPage os len (se_call env) pe) (\<lambda>_. Inr (True, th3, s2)))))"

text \<open>The loop, \<open>n\<close> rounds from page \<open>i\<close> on: its result and the number of pages checked.\<close>

primrec post_fill_loop ::
    "settings \<Rightarrow> (nat \<Rightarrow> step_env) \<Rightarrow> nat \<Rightarrow> nat \<Rightarrow> thread \<times> sat \<Rightarrow> (bool \<times> nat \<times> thread \<times> sat) res" where
  "post_fill_loop sc env 0 i x = Inr (True, i, x)"
| "post_fill_loop sc env (Suc n) i x =
     res_bind (post_fill_round sc (env i) (of_nat i * of_int (cf_page_length (sc_cfg sc))) x) (\<lambda>(ok, x').
       if \<not> ok then Inr (False, i, x')
       else if error_stop_requested sc (snd x') then Inr (True, i + 1, x')
       else post_fill_loop sc env n (i + 1) x')"

definition PostFillCheck :: "settings \<Rightarrow> init_env \<Rightarrow> nat \<Rightarrow> thread \<times> sat \<Rightarrow> (bool \<times> thread \<times> sat) res" where
  "PostFillCheck sc env pages_to_check x =
     res_bind (post_fill_loop sc (ie_verify env) pages_to_check 0 x) (\<lambda>(result, checked_pages, th, s).
       if coarse_grain_queue (snd x)
       then case RestoreInitializationPages (map (ie_restore env) [0..<checked_pages]) (sat_pool s) of (ok, p) \<Rightarrow>
              Inr (result \<and> ok, th\<lparr>th_loops := int checked_pages\<rparr>, s\<lparr>sat_pool := p\<rparr>)
       else Inr (result, th\<lparr>th_loops := int checked_pages\<rparr>, s))"

section \<open>The runtime queues\<close>

definition inc_region :: "int \<Rightarrow> int list \<Rightarrow> int list res" where
  "inc_region region rs =
     (if 0 \<le> region \<and> region < 32 then res_bind (rd rs (nat region)) (\<lambda>c. Inr (rs[nat region := c + 1]))
      else Inl OutOfBounds)"

text \<open>\<open>n\<close> rounds from \<open>i\<close> on. The result is false if a page is missing; the values of \<open>PutEmpty\<close> and \<open>PutValid\<close> are not used.\<close>

primrec split_pages ::
    "settings \<Rightarrow> startup \<Rightarrow> (nat \<Rightarrow> step_env) \<Rightarrow> nat \<Rightarrow> nat \<Rightarrow> init_state \<Rightarrow> (bool \<times> init_state) res" where
  "split_pages sc su env 0 i st = Inr (True, st)"
| "split_pages sc su env (Suc n) i st =
     res_bind (get_valid sc (env i) kInvalidTag (is_sat st)) (\<lambda>(r, s1).
       case r of
         None \<Rightarrow> Inr (False, st\<lparr>is_sat := s1\<rparr>)
       | Some pe \<Rightarrow>
           let paddr = su_paddr su (pe_addr pe);
               region = FindRegion (su_totalmemsize su) paddr;
               pe' = pe\<lparr>pe_paddr := paddr, pe_tag := push_bit (nat region) 1\<rparr>
           in res_bind (inc_region region (is_region st)) (\<lambda>rs.
              res_bind (AddrMapUpdate su (cf_page_length (sc_cfg sc)) pe'
                          (st\<lparr>is_region := rs, is_region_mask := is_region_mask st OR pe_tag pe'\<rparr>)) (\<lambda>st1.
              res_bind (if int i < is_freepages st then put_empty sc (env i) pe' s1 else put_valid sc (env i) pe' s1) (\<lambda>(_, s2).
                split_pages sc su env n (i + 1) (st1\<lparr>is_sat := s2\<rparr>)))))"

section \<open>\<open>InitializePages\<close>\<close>

definition needed_pages :: "startup \<Rightarrow> int" where
  "needed_pages su = su_memory_threads su + su_invert_threads su + su_check_threads su + su_net_threads su + su_file_threads su"

definition free_pages :: "startup \<Rightarrow> bool \<Rightarrow> int" where
  "free_pages su fine = (if fine then su_pages su div 5 * 2 else su_pages su div 100 + 2 * needed_pages su)"

definition count_regions :: "u32 \<Rightarrow> int" where
  "count_regions rmask = int (length (filter (bit rmask) [0..<32]))"

text \<open>The fill passes, the check and the split, after the pages are registered.\<close>

definition verify_after_fill :: "settings \<Rightarrow> startup \<Rightarrow> init_env \<Rightarrow> init_state \<Rightarrow> (bool \<times> init_state) res" where
  "verify_after_fill sc su env st =
     (if su_verify_after_fill su \<and> \<not> error_stop_requested sc (is_sat st)
      then if \<not> ie_verify_spawned env then Inr (False, bad_status st)
           else res_bind (PostFillCheck sc env (nat (su_pages su))
                  (new_thread (CheckThread ''full_check'') (su_fill_threads su) kDontCareTag (new_stats sc), is_sat st)) (\<lambda>(ok, th, s).
                let st1 = st\<lparr>is_sat := s, is_errorcount := is_errorcount st + th_errorcount th\<rparr>
                in Inr (ok, if ok then st1 else bad_status st1))
      else Inr (True, st))"

definition split_queues :: "settings \<Rightarrow> startup \<Rightarrow> init_env \<Rightarrow> init_state \<Rightarrow> (bool \<times> init_state) res" where
  "split_queues sc su env st =
     res_bind (AddrMapInit su st) (\<lambda>st1.
     res_bind (split_pages sc su (ie_split env) (nat (su_pages su)) 0 st1) (\<lambda>(ok, st2).
       if \<not> ok then Inr (False, st2)
       else let st3 = AddrMapPrint su st2
            in Inr (True, st3\<lparr>is_region_count := is_region_count st3 + count_regions (is_region_mask st3)\<rparr>)))"

definition fill_and_split :: "settings \<Rightarrow> startup \<Rightarrow> init_env \<Rightarrow> init_state \<Rightarrow> (bool \<times> init_state) res" where
  "fill_and_split sc su env st =
     res_bind (if sc_fill_preset sc \<noteq> FILL_PRESET_NONE then RunFillPass sc su env True st else Inr (True, st)) (\<lambda>(ok, st1).
       if \<not> ok then Inr (False, st1)
       else res_bind (RunFillPass sc su env False st1) (\<lambda>(ok, st2).
         if \<not> ok then Inr (False, st2)
         else res_bind (verify_after_fill sc su env st2) (\<lambda>(ok, st3).
           if \<not> ok then Inr (False, st3) else split_queues sc su env st3)))"

definition InitializePages :: "settings \<Rightarrow> startup \<Rightarrow> page_entry \<Rightarrow> init_env \<Rightarrow> init_state \<Rightarrow> (bool \<times> init_state) res" where
  "InitializePages sc su garbage env st0 =
     (let st = st0\<lparr>is_freepages := free_pages su (\<not> coarse_grain_queue (is_sat st0))\<rparr>
      in if is_freepages st < needed_pages su then Inr (False, bad_status st)
         else if su_pages su div 2 < is_freepages st then Inr (False, bad_status st)
         else res_bind (empty_pages sc (ie_put env) garbage (nat (su_pages su)) 0 (True, is_sat st)) (\<lambda>(ok, s).
           if \<not> ok then Inr (False, bad_status (st\<lparr>is_sat := s\<rparr>))
           else res_bind (if su_prefault_pages su then prefault sc garbage su (ie_prefault env) (nat (su_pages su)) 0 s else Inr (True, s))
             (\<lambda>(ok, s1).
               if \<not> ok then Inr (False, bad_status (st\<lparr>is_sat := s1\<rparr>))
               else fill_and_split sc su env (st\<lparr>is_sat := s1\<rparr>))))"

end
