(* ===== verification/Options.thy ===== *)
theory Options
  imports ThreadSetup Startup
begin

text \<open>
  The command line: \<open>Sat::Sat\<close> with the defaults, \<open>Sat::ParseArgs\<close> and the number parsers (\<^verbatim>\<open>src/src/sat.cc\<close>), and
  \<open>PrepareDramMapArgs\<close> (\<^verbatim>\<open>src/src/main.cc\<close>). The members of \<open>Sat\<close> that hold numbers and flags are one function from their names to
  integers; an assignment converts to the C type of the member. The options are tables in the order of the code.
\<close>

section \<open>Members\<close>

type_synonym member = string

datatype c_type = Int32 | Int64 | UInt64 | Bool

definition wide_members :: "(member \<times> c_type) list" where
  "wide_members =
     [(''size_'', Int64), (''size_mb_'', Int64), (''reserve_mb_'', Int64), (''min_hugepages_mbytes_'', Int64), (''error_log_limit_'', Int64),
      (''segment_size_'', Int64), (''pause_delay_'', Int64), (''pause_duration_'', Int64), (''paddr_base_'', UInt64), (''channel_hash_'', UInt64),
      (''max_errorcount_'', UInt64), (''filesize'', UInt64), (''dram_sweep_'', Bool), (''verify_after_fill_'', Bool),
      (''copy_verify_destination_'', Bool), (''prefault_pages_'', Bool), (''diag_vm_stats_'', Bool), (''diag_block_history_'', Bool),
      (''diag_phase_summary_'', Bool), (''final_check_threads_explicit_'', Bool), (''skip_final_check_'', Bool), (''stop_on_error_'', Bool),
      (''findfiles_'', Bool), (''error_injection_'', Bool), (''crazy_error_injection_'', Bool), (''use_logfile_'', Bool),
      (''log_timestamps_'', Bool), (''do_page_map_'', Bool), (''cc_test_'', Bool), (''cpu_freq_test_'', Bool), (''use_affinity_'', Bool),
      (''error_poll_'', Bool)]"

definition type_of_member :: "member \<Rightarrow> c_type" where
  "type_of_member m = (case map_of wide_members m of None \<Rightarrow> Int32 | Some t \<Rightarrow> t)"

text \<open>The conversion of a number of a wider type.\<close>

fun convert :: "c_type \<Rightarrow> int \<Rightarrow> int" where
  "convert Int32 v = (v + 2 ^ 31) mod 2 ^ 32 - 2 ^ 31"
| "convert Int64 v = (v + 2 ^ 63) mod 2 ^ 64 - 2 ^ 63"
| "convert UInt64 v = v mod 2 ^ 64"
| "convert Bool v = (if v = 0 then 0 else 1)"

datatype queue_kind = OneLock | FineLocked

record options =
  op_val :: "member \<Rightarrow> int"
  op_queue :: queue_kind
  op_pattern_selector :: string
  op_fill_preset :: FillPreset
  op_fill_direction :: FillDirection
  op_invert_range :: InvertRange
  op_dram_frequencies :: "int list"
  op_dram_frequency_node :: string
  op_dram_map :: bool
  op_logfilename :: string
  op_diskfilename :: "string list"
  op_filename :: "string list"
  op_ipaddrs :: "string list"
  op_channels :: "string list list"
  op_cmdline :: string

definition assign :: "member \<Rightarrow> int \<Rightarrow> options \<Rightarrow> options" where
  "assign m v op = op\<lparr>op_val := (op_val op)(m := convert (type_of_member m) v)\<rparr>"

section \<open>Defaults\<close>

definition kMegabyte :: int where
  "kMegabyte = 2 ^ 20"

definition kSatPageSize :: int where
  "kSatPageSize = 2 ^ 20"

definition kMaxDiagnosticWorkerCount :: int where
  "kMaxDiagnosticWorkerCount = 256"

definition kAllDramFrequencies :: "int list" where
  "kAllDramFrequencies = [547, 768, 1017, 1353, 1555, 1708, 2092, 2736, 3196, 4266, 5333]"

text \<open>The members that do not start as 0.\<close>

definition default_values :: "(member \<times> int) list" where
  "default_values =
     [(''runtime_seconds_'', 20), (''page_length_'', kSatPageSize), (''disk_pages_'', 8), (''channel_hash_'', 64), (''channel_width_'', 64),
      (''dram_step_seconds_'', 3), (''verbosity_'', 8), (''print_delay_'', 10), (''strict_'', 1), (''final_check_threads_'', 8),
      (''log_timestamps_'', 1), (''address_mode_'', 64), (''error_log_limit_'', - 1), (''error_poll_'', 1), (''cc_cacheline_count_'', 2),
      (''cc_inc_count_'', 1000), (''cpu_freq_round_'', 10), (''memory_threads_'', - 1), (''fill_threads_'', 8), (''use_affinity_'', 1),
      (''read_block_size_'', 512), (''write_block_size_'', - 1), (''segment_size_'', - 1), (''cache_size_'', - 1), (''blocks_per_segment_'', - 1),
      (''read_threshold_'', - 1), (''write_threshold_'', - 1), (''non_destructive_'', 1), (''pause_delay_'', 600), (''pause_duration_'', 15)]"

definition Sat_new :: options where
  "Sat_new = \<lparr>op_val = (\<lambda>m. case map_of default_values m of None \<Rightarrow> 0 | Some v \<Rightarrow> v), op_queue = FineLocked, op_pattern_selector = '''',
     op_fill_preset = FILL_PRESET_NONE, op_fill_direction = FILL_DIRECTION_UP, op_invert_range = INVERT_RANGE_LEGACY, op_dram_frequencies = [],
     op_dram_frequency_node = ''/sys/kernel/debug/aoss_send_message'', op_dram_map = False, op_logfilename = '''', op_diskfilename = [],
     op_filename = [], op_ipaddrs = [], op_channels = [], op_cmdline = ''''\<rparr>"

section \<open>Numbers\<close>

definition INT_MAX :: int where
  "INT_MAX = 2 ^ 31 - 1"

definition parse_int_from :: "int \<Rightarrow> string \<Rightarrow> int option" where
  "parse_int_from least s =
     (case strtol10 s of (v, rest, no_error) \<Rightarrow>
        if \<not> no_error \<or> rest = s \<or> rest \<noteq> [] \<or> v < least \<or> INT_MAX < v then None else Some v)"

definition ParsePositiveInt :: "string \<Rightarrow> int option" where
  "ParsePositiveInt = parse_int_from 1"

definition ParseNonNegativeInt :: "string \<Rightarrow> int option" where
  "ParseNonNegativeInt = parse_int_from 0"

text \<open>The items between the commas. A comma at the end leaves an empty item.\<close>

fun split_commas :: "string \<Rightarrow> string list" where
  "split_commas [] = [[]]"
| "split_commas (c # cs) =
     (if c = CHR '','' then [] # split_commas cs
      else case split_commas cs of [] \<Rightarrow> [[c]] | item # items \<Rightarrow> (c # item) # items)"

fun parse_items :: "string list \<Rightarrow> int list option" where
  "parse_items [] = Some []"
| "parse_items (item # items) =
     (case ParsePositiveInt item of None \<Rightarrow> None
      | Some f \<Rightarrow> (case parse_items items of None \<Rightarrow> None | Some fs \<Rightarrow> Some (f # fs)))"

definition ParseDramFrequencyList :: "string \<Rightarrow> int list option" where
  "ParseDramFrequencyList s = (if s = ''all'' then Some kAllDramFrequencies else parse_items (split_commas s))"

text \<open>\<open>strtoull\<close> with base 0: hexadecimal after 0x, octal after 0, decimal otherwise; no number is 0, and too large is the largest number.\<close>

definition digit_of :: "char \<Rightarrow> nat option" where
  "digit_of c = (let n = of_char c :: nat
     in if n \<in> {48 .. 57} then Some (n - 48) else if n \<in> {65 .. 90} then Some (n - 55) else if n \<in> {97 .. 122} then Some (n - 87) else None)"

definition is_digit_in :: "nat \<Rightarrow> char \<Rightarrow> bool" where
  "is_digit_in base c = (case digit_of c of None \<Rightarrow> False | Some d \<Rightarrow> d < base)"

definition value_in :: "nat \<Rightarrow> string \<Rightarrow> nat" where
  "value_in base ds = foldl (\<lambda>n c. base * n + the (digit_of c)) 0 (takeWhile (is_digit_in base) ds)"

fun base_of :: "string \<Rightarrow> nat \<times> string" where
  "base_of s =
     (case s of
        z # x # c # cs \<Rightarrow> (if z = CHR ''0'' \<and> (x = CHR ''x'' \<or> x = CHR ''X'') \<and> is_digit_in 16 c then (16, c # cs)
                         else if z = CHR ''0'' then (8, s) else (10, s))
      | z # cs \<Rightarrow> (if z = CHR ''0'' then (8, s) else (10, s))
      | [] \<Rightarrow> (10, []))"

definition strtoull_base :: "nat \<Rightarrow> string \<Rightarrow> int" where
  "strtoull_base given s =
     (let t = dropWhile is_c_space s;
          (neg, u) = sign_of t;
          (base, v) = (if given = 0 then base_of u else (given, u));
          n = int (value_in base v)
      in if 2 ^ 64 \<le> n then 2 ^ 64 - 1 else if neg then (- n) mod 2 ^ 64 else n)"

abbreviation strtoull :: "string \<Rightarrow> int" where
  "strtoull \<equiv> strtoull_base 0"

section \<open>One option\<close>

text \<open>
  What \<open>ParseArgs\<close> does: go on, return false after so many calls of \<open>bad_status\<close>, or leave the process with a status.
\<close>

datatype 'a parse = Accept 'a | Reject int | Exit int

fun parse_bind :: "'a parse \<Rightarrow> ('a \<Rightarrow> 'b parse) \<Rightarrow> 'b parse" where
  "parse_bind (Accept x) f = f x"
| "parse_bind (Reject n) f = Reject n"
| "parse_bind (Exit n) f = Exit n"

datatype arg_action =
    ARG_KVALUE member int
  | ARG_IVALUE member
  | ARG_SVALUE
  | ArgCoarse
  | ArgPatterns
  | ArgPatternOffset
  | ArgPreset
  | ArgNonNegative member
  | ArgPositive member
  | ArgCount member
  | ArgFinalThreads
  | ArgDirection
  | ArgYield
  | ArgInvertRange
  | ArgFrequencies
  | ArgNode
  | ArgMap
  | ArgDisk
  | ArgFile
  | ArgNet
  | ArgChannel

fun takes_value :: "arg_action \<Rightarrow> bool" where
  "takes_value (ARG_KVALUE m v) \<longleftrightarrow> False"
| "takes_value ArgCoarse \<longleftrightarrow> False"
| "takes_value _ \<longleftrightarrow> True"

definition parsed :: "int option \<Rightarrow> (int \<Rightarrow> bool) \<Rightarrow> member \<Rightarrow> options \<Rightarrow> options parse" where
  "parsed r ok m op = (case r of None \<Rightarrow> Reject 0 | Some v \<Rightarrow> if ok v then Accept (assign m v op) else Reject 0)"

definition select_value :: "(string \<times> 'a) list \<Rightarrow> ('a \<Rightarrow> options) \<Rightarrow> string \<Rightarrow> options parse" where
  "select_value table f arg = (case map_of table arg of None \<Rightarrow> Reject 0 | Some x \<Rightarrow> Accept (f x))"

definition apply_freq :: "string \<Rightarrow> options \<Rightarrow> options parse" where
  "apply_freq arg op =
     (if op_dram_frequencies op \<noteq> [] then Reject 0
      else case ParseDramFrequencyList arg of None \<Rightarrow> Reject 0
        | Some fs \<Rightarrow> Accept (assign ''dram_sweep_'' (if 1 < length fs then 1 else 0) (op\<lparr>op_dram_frequencies := fs\<rparr>)))"

text \<open>An option whose value is there.\<close>

fun apply_value :: "arg_action \<Rightarrow> string \<Rightarrow> options \<Rightarrow> options parse" where
  "apply_value (ARG_IVALUE m) arg op = Accept (assign m (strtoull arg) op)"
| "apply_value ARG_SVALUE arg op = Accept (op\<lparr>op_logfilename := take 254 arg\<rparr>)"
| "apply_value ArgPatterns arg op = Accept (op\<lparr>op_pattern_selector := arg\<rparr>)"
| "apply_value ArgPatternOffset arg op = parsed (ParseNonNegativeInt arg) (\<lambda>v. v mod 4 = 0) ''pattern_byte_offset_'' op"
| "apply_value ArgPreset arg op =
     select_value [(''none'', FILL_PRESET_NONE), (''zero'', FILL_PRESET_ZERO), (''one'', FILL_PRESET_ONE)] (\<lambda>x. op\<lparr>op_fill_preset := x\<rparr>) arg"
| "apply_value (ArgNonNegative m) arg op = parsed (ParseNonNegativeInt arg) (\<lambda>_. True) m op"
| "apply_value (ArgPositive m) arg op = parsed (ParsePositiveInt arg) (\<lambda>_. True) m op"
| "apply_value (ArgCount m) arg op = parsed (ParsePositiveInt arg) (\<lambda>v. v \<le> kMaxDiagnosticWorkerCount) m op"
| "apply_value ArgFinalThreads arg op =
     parse_bind (parsed (ParsePositiveInt arg) (\<lambda>v. v \<le> kMaxDiagnosticWorkerCount) ''final_check_threads_'' op)
       (\<lambda>op'. Accept (assign ''final_check_threads_explicit_'' 1 op'))"
| "apply_value ArgDirection arg op =
     select_value [(''up'', FILL_DIRECTION_UP), (''down'', FILL_DIRECTION_DOWN)] (\<lambda>x. op\<lparr>op_fill_direction := x\<rparr>) arg"
| "apply_value ArgYield arg op = parsed (ParsePositiveInt arg) (\<lambda>v. v mod 64 = 0) ''fill_yield_bytes_'' op"
| "apply_value ArgInvertRange arg op =
     select_value [(''legacy'', INVERT_RANGE_LEGACY), (''full'', INVERT_RANGE_FULL)] (\<lambda>x. op\<lparr>op_invert_range := x\<rparr>) arg"
| "apply_value ArgFrequencies arg op = apply_freq arg op"
| "apply_value ArgNode arg op = (if arg = [] then Reject 0 else Accept (op\<lparr>op_dram_frequency_node := arg\<rparr>))"
| "apply_value ArgMap arg op = select_value [(''lpddr-v1'', True), (''none'', False)] (\<lambda>x. op\<lparr>op_dram_map := x\<rparr>) arg"
| "apply_value ArgDisk arg op = Accept (assign ''disk_threads_'' (op_val op ''disk_threads_'' + 1) (op\<lparr>op_diskfilename := op_diskfilename op @ [arg]\<rparr>))"
| "apply_value ArgFile arg op = Accept (assign ''file_threads_'' (op_val op ''file_threads_'' + 1) (op\<lparr>op_filename := op_filename op @ [arg]\<rparr>))"
| "apply_value ArgNet arg op = Accept (assign ''net_threads_'' (op_val op ''net_threads_'' + 1) (op\<lparr>op_ipaddrs := op_ipaddrs op @ [arg]\<rparr>))"
| "apply_value ArgChannel arg op = Accept (op\<lparr>op_channels := op_channels op @ [split_commas arg]\<rparr>)"
| "apply_value _ arg op = Accept op"

text \<open>An option that is last on the line and lacks its value: some ignore it.\<close>

fun apply_missing :: "arg_action \<Rightarrow> options \<Rightarrow> options parse" where
  "apply_missing (ARG_IVALUE m) op = Accept op"
| "apply_missing ARG_SVALUE op = Accept op"
| "apply_missing ArgDisk op = Accept op"
| "apply_missing ArgFile op = Accept op"
| "apply_missing ArgNet op = Accept op"
| "apply_missing ArgChannel op = Accept op"
| "apply_missing _ op = Reject 0"

fun apply_flag :: "arg_action \<Rightarrow> options \<Rightarrow> options" where
  "apply_flag (ARG_KVALUE m v) op = assign m v op"
| "apply_flag ArgCoarse op = op\<lparr>op_queue := OneLock\<rparr>"
| "apply_flag _ op = op"

section \<open>All options\<close>

text \<open>The options compared before the line that turns \<open>crazy_error_injection_\<close> into \<open>error_injection_\<close>, and those after it.\<close>

definition fill_args :: "(string \<times> arg_action) list" where
  "fill_args =
     [(''--coarse_grain_lock'', ArgCoarse), (''-M'', ARG_IVALUE ''size_mb_''), (''--reserve_memory'', ARG_IVALUE ''reserve_mb_''),
      (''-H'', ARG_IVALUE ''min_hugepages_mbytes_''), (''-s'', ARG_IVALUE ''runtime_seconds_''), (''-P'', ArgPatterns),
      (''--pattern-byte-offset'', ArgPatternOffset), (''--fill-preset'', ArgPreset), (''--verify-after-fill'', ARG_KVALUE ''verify_after_fill_'' 1),
      (''--copy-verify-destination'', ARG_KVALUE ''copy_verify_destination_'' 1), (''--prefault-pages'', ARG_KVALUE ''prefault_pages_'' 1),
      (''--diag-vm-stats'', ARG_KVALUE ''diag_vm_stats_'' 1), (''--diag-block-history'', ARG_KVALUE ''diag_block_history_'' 1),
      (''--diag-phase-summary'', ARG_KVALUE ''diag_phase_summary_'' 1), (''--post-fill-delay'', ArgNonNegative ''post_fill_delay_seconds_''),
      (''--fill-threads'', ArgCount ''fill_threads_''), (''--fill-direction'', ArgDirection),
      (''--fill-verify-every'', ArgPositive ''fill_verify_every_''), (''--fill-yield-bytes'', ArgYield),
      (''--runtime-start-delay'', ArgNonNegative ''runtime_start_delay_seconds_''), (''--invert-range'', ArgInvertRange)]"

definition machine_args :: "(string \<times> arg_action) list" where
  "machine_args =
     [(''--final-check-threads'', ArgFinalThreads), (''--skip-final-check'', ARG_KVALUE ''skip_final_check_'' 1), (''--ddr-freq'', ArgFrequencies),
      (''--ddr-step'', ArgPositive ''dram_step_seconds_''), (''--ddr-node'', ArgNode), (''--dram-map'', ArgMap),
      (''-m'', ARG_IVALUE ''memory_threads_''), (''-i'', ARG_IVALUE ''invert_threads_''), (''-c'', ARG_IVALUE ''check_threads_''),
      (''--cc_inc_count'', ARG_IVALUE ''cc_inc_count_''), (''--cc_line_count'', ARG_IVALUE ''cc_cacheline_count_''),
      (''--cc_line_size'', ARG_IVALUE ''cc_cacheline_size_''), (''--cc_test'', ARG_KVALUE ''cc_test_'' 1),
      (''--cpu_freq_test'', ARG_KVALUE ''cpu_freq_test_'' 1), (''--cpu_freq_threshold'', ARG_IVALUE ''cpu_freq_threshold_''),
      (''--cpu_freq_round'', ARG_IVALUE ''cpu_freq_round_''), (''-C'', ARG_IVALUE ''cpu_stress_threads_''), (''-l'', ARG_SVALUE),
      (''-v'', ARG_IVALUE ''verbosity_''), (''--printsec'', ArgPositive ''print_delay_''), (''--no_timestamps'', ARG_KVALUE ''log_timestamps_'' 0),
      (''--max_errors'', ARG_IVALUE ''max_errorcount_''), (''-p'', ARG_IVALUE ''page_length_''), (''--filesize'', ARG_IVALUE ''filesize''),
      (''--no_affinity'', ARG_KVALUE ''use_affinity_'' 0), (''--local_numa'', ARG_KVALUE ''region_mode_'' 1),
      (''--remote_numa'', ARG_KVALUE ''region_mode_'' 2), (''--findfiles'', ARG_KVALUE ''findfiles_'' 1),
      (''--force_errors'', ARG_KVALUE ''error_injection_'' 1), (''--force_errors_like_crazy'', ARG_KVALUE ''crazy_error_injection_'' 1)]"

definition early_args :: "(string \<times> arg_action) list" where
  "early_args = fill_args @ machine_args"

lemmas early_args_list = early_args_def [unfolded fill_args_def machine_args_def append.simps]

definition late_args :: "(string \<times> arg_action) list" where
  "late_args =
     [(''--stop_on_errors'', ARG_KVALUE ''stop_on_error_'' 1), (''--error-log-limit'', ArgNonNegative ''error_log_limit_''),
      (''--no_errors'', ARG_KVALUE ''error_poll_'' 0), (''-F'', ARG_KVALUE ''strict_'' 0), (''-W'', ARG_KVALUE ''warm_'' 1),
      (''-A'', ARG_KVALUE ''run_on_anything_'' 1), (''--read-block-size'', ARG_IVALUE ''read_block_size_''),
      (''--write-block-size'', ARG_IVALUE ''write_block_size_''), (''--segment-size'', ARG_IVALUE ''segment_size_''),
      (''--cache-size'', ARG_IVALUE ''cache_size_''), (''--blocks-per-segment'', ARG_IVALUE ''blocks_per_segment_''),
      (''--read-threshold'', ARG_IVALUE ''read_threshold_''), (''--write-threshold'', ARG_IVALUE ''write_threshold_''),
      (''--destructive'', ARG_KVALUE ''non_destructive_'' 0), (''--monitor_mode'', ARG_KVALUE ''monitor_mode_'' 1),
      (''--tag_mode'', ARG_KVALUE ''tag_mode_'' 1), (''--do_page_map'', ARG_KVALUE ''do_page_map_'' 1), (''--paddr_base'', ARG_IVALUE ''paddr_base_''),
      (''--pause_delay'', ArgPositive ''pause_delay_''), (''--pause_duration'', ARG_IVALUE ''pause_duration_''), (''-d'', ArgDisk),
      (''--random-threads'', ARG_IVALUE ''random_threads_''), (''-f'', ArgFile), (''-n'', ArgNet), (''--listen'', ARG_KVALUE ''listen_threads_'' 1),
      (''--channel_hash'', ARG_IVALUE ''channel_hash_''), (''--channel_width'', ARG_IVALUE ''channel_width_''), (''--memory_channel'', ArgChannel)]"

definition crazy_line :: "options \<Rightarrow> options" where
  "crazy_line op = (if op_val op ''crazy_error_injection_'' \<noteq> 0 then assign ''error_injection_'' 1 op else op)"

text \<open>The action for an argument, and the options when it is found.\<close>

definition find_action :: "string \<Rightarrow> options \<Rightarrow> arg_action option \<times> options" where
  "find_action arg op =
     (case map_of early_args arg of Some act \<Rightarrow> (Some act, op) | None \<Rightarrow> (map_of late_args arg, crazy_line op))"

fun parse_args :: "string list \<Rightarrow> options \<Rightarrow> options parse" where
  "parse_args [] op = Accept op"
| "parse_args (arg # rest) op =
     (case find_action arg op of
        (None, _) \<Rightarrow> Exit (if arg = ''-h'' \<or> arg = ''--help'' then 0 else 1)
      | (Some act, op1) \<Rightarrow>
          if \<not> takes_value act then parse_args rest (apply_flag act op1)
          else case rest of
            [] \<Rightarrow> apply_missing act op1
          | v # rest' \<Rightarrow> (case apply_value act v op1 of
              Accept op2 \<Rightarrow> parse_args rest' op2 | Reject n \<Rightarrow> Reject n | Exit n \<Rightarrow> Exit n))"

section \<open>The checks at the end\<close>

definition is_power_of_2 :: "int \<Rightarrow> bool" where
  "is_power_of_2 n \<longleftrightarrow> n AND (n - 1) = 0"

definition check_page_length :: "options \<Rightarrow> options parse" where
  "check_page_length op =
     (let n = op_val op ''page_length_'' in if n \<noteq> 0 \<and> is_power_of_2 n \<and> 1023 < n then Accept op else Reject 0)"

definition set_disk_pages :: "options \<Rightarrow> options" where
  "set_disk_pages op =
     (if op_val op ''filesize'' \<noteq> (op_val op ''page_length_'' * op_val op ''disk_pages_'') mod 2 ^ 64
      then let op1 = assign ''disk_pages_'' (op_val op ''filesize'' div op_val op ''page_length_'') op
           in if op_val op1 ''disk_pages_'' = 0 then assign ''disk_pages_'' 1 op1 else op1
      else op)"

text \<open>The tests on the channels; each of them calls \<open>bad_status\<close> and returns false.\<close>

definition bad_channels :: "string list list \<Rightarrow> int \<Rightarrow> bool" where
  "bad_channels cs width \<longleftrightarrow> 2 < length cs \<or> (\<exists>c \<in> set cs. length c \<noteq> length (cs ! 0)) \<or> \<not> is_power_of_2 (int (length (cs ! 0))) \<or>
     width < 16 \<or> \<not> is_power_of_2 width \<or> width div int (length (cs ! 0)) < 8"

definition check_channels :: "options \<Rightarrow> options parse" where
  "check_channels op =
     (if op_channels op = [] then Accept op
      else let op1 = (if length (op_channels op) = 1 then assign ''channel_hash_'' 0 op else op)
           in if bad_channels (op_channels op) (op_val op ''channel_width_'') then Reject 1 else Accept op1)"

definition finish_args :: "string list \<Rightarrow> options \<Rightarrow> options parse" where
  "finish_args argv op0 =
     (let op1 = assign ''size_'' (op_val op0 ''size_mb_'' * kMegabyte) op0;
          op2 = (if op_logfilename op1 \<noteq> [] then assign ''use_logfile_'' 1 op1 else op1)
      in parse_bind (check_page_length op2) (\<lambda>op3.
           if op_val op3 ''page_length_'' < op_val op3 ''fill_yield_bytes_'' then Reject 0
           else if op_val op3 ''print_delay_'' \<le> 0 \<or> op_val op3 ''pause_delay_'' \<le> 0 then Reject 0
           else parse_bind (check_channels (set_disk_pages op3)) (\<lambda>op4.
                  Accept (op4\<lparr>op_cmdline := concat (map (\<lambda>i. (if i = 0 then [] else '' '') @ argv ! i) [0..<length argv])\<rparr>))))"

definition ParseArgs :: "string list \<Rightarrow> options \<Rightarrow> options parse" where
  "ParseArgs argv op =
     (let op0 = assign ''filesize'' (op_val op ''page_length_'' * op_val op ''disk_pages_'') op
      in parse_bind (parse_args (drop 1 argv) op0) (finish_args argv))"

section \<open>The DRAM map option\<close>

text \<open>The result is \<open>None\<close> for a refused profile, or the arguments with the internal name and whether the mapping is on.\<close>

fun prepare_map :: "string list \<Rightarrow> bool \<Rightarrow> (string list \<times> bool) option" where
  "prepare_map (a # v # rest) on =
     (if a \<noteq> ''--dram-map'' then map_option (\<lambda>(as, b). (a # as, b)) (prepare_map (v # rest) on)
      else if v = ''lpddr-v1'' then None
      else map_option (\<lambda>(as, b). (a # (if v = ''sm8975-lp6'' then ''lpddr-v1'' else v) # as, b)) (prepare_map rest (v = ''sm8975-lp6'')))"
| "prepare_map as on = Some (as, on)"

definition PrepareDramMapArgs :: "string list \<Rightarrow> (string list \<times> bool) option" where
  "PrepareDramMapArgs argv =
     (case argv of [] \<Rightarrow> Some ([], False) | prog # args \<Rightarrow> map_option (\<lambda>(as, b). (prog # as, b)) (prepare_map args False))"

section \<open>What accepted options satisfy\<close>

text \<open>The values a member can have after parsing, and members that are only set together with a list.\<close>

definition member_ok :: "member \<Rightarrow> int \<Rightarrow> bool" where
  "member_ok m = (\<lambda>v.
     (m \<in> {''print_delay_'', ''pause_delay_'', ''dram_step_seconds_''} \<longrightarrow> 1 \<le> v) \<and>
     (m \<in> {''fill_threads_'', ''final_check_threads_''} \<longrightarrow> 1 \<le> v \<and> v \<le> 256) \<and>
     (m \<in> {''fill_verify_every_'', ''post_fill_delay_seconds_'', ''runtime_start_delay_seconds_''} \<longrightarrow> 0 \<le> v) \<and>
     (m = ''pattern_byte_offset_'' \<longrightarrow> 0 \<le> v \<and> v mod 4 = 0) \<and>
     (m = ''fill_yield_bytes_'' \<longrightarrow> 0 \<le> v \<and> v mod 64 = 0) \<and>
     (m = ''error_log_limit_'' \<longrightarrow> - 1 \<le> v) \<and>
     (m = ''page_length_'' \<longrightarrow> v < 2 ^ 31) \<and>
     (m = ''disk_pages_'' \<longrightarrow> v \<noteq> 0))"

definition counted_members :: "member list" where
  "counted_members = [''dram_sweep_'', ''disk_threads_'', ''file_threads_'', ''net_threads_'']"

definition args_inv :: "options \<Rightarrow> bool" where
  "args_inv op \<longleftrightarrow> (\<forall>m. member_ok m (op_val op m)) \<and> (\<forall>f \<in> set (op_dram_frequencies op). 1 \<le> f) \<and>
     op_val op ''dram_sweep_'' = (if 1 < length (op_dram_frequencies op) then 1 else 0) \<and>
     op_val op ''disk_threads_'' = convert Int32 (int (length (op_diskfilename op))) \<and>
     op_val op ''file_threads_'' = convert Int32 (int (length (op_filename op))) \<and>
     op_val op ''net_threads_'' = convert Int32 (int (length (op_ipaddrs op))) \<and>
     (\<forall>c \<in> set (op_channels op). c \<noteq> [])"

lemma convert_small:
  assumes "0 \<le> v" "v \<le> INT_MAX" "t \<noteq> Bool"
  shows "convert t v = v"
  using assms by (cases t) (simp_all add: INT_MAX_def)

lemma convert_Suc: "convert Int32 (convert Int32 (int n) + 1) = convert Int32 (int (Suc n))"
  by (simp add: mod_diff_left_eq) (simp add: mod_simps algebra_simps)

lemma parse_int_from_range: "parse_int_from least s = Some v \<Longrightarrow> least \<le> v \<and> v \<le> INT_MAX"
  by (auto simp: parse_int_from_def split: prod.splits if_splits)

lemma op_val_assign: "op_val (assign m v op) x = (if x = m then convert (type_of_member m) v else op_val op x)"
  by (simp add: assign_def)

lemma assign_lists [simp]:
  "op_dram_frequencies (assign m v op) = op_dram_frequencies op" "op_diskfilename (assign m v op) = op_diskfilename op"
  "op_filename (assign m v op) = op_filename op" "op_ipaddrs (assign m v op) = op_ipaddrs op" "op_channels (assign m v op) = op_channels op"
  "op_logfilename (assign m v op) = op_logfilename op"
  by (simp_all add: assign_def)

lemma assign_inv:
  assumes "args_inv op" "m \<notin> set counted_members" "member_ok m (convert (type_of_member m) v)"
  shows "args_inv (assign m v op)"
  using assms by (auto simp: args_inv_def op_val_assign counted_members_def)

lemma args_inv_frames [simp]:
  "args_inv (op\<lparr>op_queue := q\<rparr>) = args_inv op" "args_inv (op\<lparr>op_pattern_selector := sel\<rparr>) = args_inv op"
  "args_inv (op\<lparr>op_fill_preset := pre\<rparr>) = args_inv op" "args_inv (op\<lparr>op_fill_direction := dir\<rparr>) = args_inv op"
  "args_inv (op\<lparr>op_invert_range := ir\<rparr>) = args_inv op" "args_inv (op\<lparr>op_dram_frequency_node := node\<rparr>) = args_inv op"
  "args_inv (op\<lparr>op_dram_map := b\<rparr>) = args_inv op" "args_inv (op\<lparr>op_logfilename := name\<rparr>) = args_inv op"
  "args_inv (op\<lparr>op_cmdline := line\<rparr>) = args_inv op"
  by (simp_all add: args_inv_def)

text \<open>What is needed of the tables.\<close>

fun action_ok :: "arg_action \<Rightarrow> bool" where
  "action_ok (ARG_KVALUE m v) \<longleftrightarrow> m \<notin> set counted_members \<and> member_ok m (convert (type_of_member m) v)"
| "action_ok (ARG_IVALUE m) \<longleftrightarrow> m \<notin> set counted_members \<and> (\<forall>v. member_ok m (convert (type_of_member m) v))"
| "action_ok (ArgNonNegative m) \<longleftrightarrow> m \<notin> set counted_members \<and> type_of_member m \<noteq> Bool \<and> (\<forall>v\<ge>0. member_ok m v)"
| "action_ok (ArgPositive m) \<longleftrightarrow> m \<notin> set counted_members \<and> type_of_member m \<noteq> Bool \<and> (\<forall>v\<ge>1. member_ok m v)"
| "action_ok (ArgCount m) \<longleftrightarrow> m \<notin> set counted_members \<and> type_of_member m \<noteq> Bool \<and> (\<forall>v. 1 \<le> v \<and> v \<le> 256 \<longrightarrow> member_ok m v)"
| "action_ok _ \<longleftrightarrow> True"

lemma convert_int_less: "convert Int32 v < 2147483648"
  using pos_mod_bound [of "2 ^ 32" "v + 2 ^ 31"] by simp

lemma tables_ok: "\<forall>(arg, act) \<in> set early_args. action_ok act" "\<forall>(arg, act) \<in> set late_args. action_ok act"
  by (simp_all add: early_args_list late_args_def counted_members_def member_ok_def type_of_member_def wide_members_def convert_int_less
      del: convert.simps(1-3))

lemma parsed_inv:
  assumes "args_inv op" "parsed r ok m op = Accept op'" "m \<notin> set counted_members" "type_of_member m \<noteq> Bool"
    and "\<And>v. r = Some v \<Longrightarrow> 0 \<le> v \<and> v \<le> INT_MAX" "\<And>v. r = Some v \<Longrightarrow> ok v \<Longrightarrow> member_ok m v"
  shows "args_inv op'"
proof -
  obtain v where v: "r = Some v" "ok v" "op' = assign m v op" using assms(2) by (auto simp: parsed_def split: option.splits if_splits)
  have "member_ok m (convert (type_of_member m) v)" using assms(4-6) v convert_small by metis
  then show ?thesis using assign_inv [OF assms(1,3)] v(3) by simp
qed

lemma split_commas_ne: "split_commas s \<noteq> []"
  by (induction s) (auto split: list.splits)

lemma parse_items_pos: "parse_items items = Some fs \<Longrightarrow> f \<in> set fs \<Longrightarrow> 1 \<le> f"
  by (induction items arbitrary: fs) (auto simp: ParsePositiveInt_def split: option.splits dest: parse_int_from_range)

lemma frequencies_pos: "ParseDramFrequencyList s = Some fs \<Longrightarrow> f \<in> set fs \<Longrightarrow> 1 \<le> f"
  using parse_items_pos by (auto simp: ParseDramFrequencyList_def kAllDramFrequencies_def split: if_splits)

lemma apply_freq_inv:
  assumes inv: "args_inv op" and r: "apply_freq arg op = Accept op'"
  shows "args_inv op'"
proof -
  obtain fs where fs: "ParseDramFrequencyList arg = Some fs" "op' = assign ''dram_sweep_'' (if 1 < length fs then 1 else 0) (op\<lparr>op_dram_frequencies := fs\<rparr>)"
    using r by (auto simp: apply_freq_def split: if_splits option.splits)
  have "type_of_member ''dram_sweep_'' = Bool" by (simp add: type_of_member_def wide_members_def)
  then show ?thesis using inv frequencies_pos [OF fs(1)] by (auto simp: fs(2) args_inv_def op_val_assign member_ok_def)
qed

lemma count_inv:
  assumes "args_inv op"
  shows "args_inv (assign ''disk_threads_'' (op_val op ''disk_threads_'' + 1) (op\<lparr>op_diskfilename := op_diskfilename op @ [arg]\<rparr>))"
    "args_inv (assign ''file_threads_'' (op_val op ''file_threads_'' + 1) (op\<lparr>op_filename := op_filename op @ [arg]\<rparr>))"
    "args_inv (assign ''net_threads_'' (op_val op ''net_threads_'' + 1) (op\<lparr>op_ipaddrs := op_ipaddrs op @ [arg]\<rparr>))"
proof -
  have "type_of_member ''disk_threads_'' = Int32" "type_of_member ''file_threads_'' = Int32" "type_of_member ''net_threads_'' = Int32"
    by (simp_all add: type_of_member_def wide_members_def)
  then show "args_inv (assign ''disk_threads_'' (op_val op ''disk_threads_'' + 1) (op\<lparr>op_diskfilename := op_diskfilename op @ [arg]\<rparr>))"
    "args_inv (assign ''file_threads_'' (op_val op ''file_threads_'' + 1) (op\<lparr>op_filename := op_filename op @ [arg]\<rparr>))"
    "args_inv (assign ''net_threads_'' (op_val op ''net_threads_'' + 1) (op\<lparr>op_ipaddrs := op_ipaddrs op @ [arg]\<rparr>))"
    using assms by (auto simp: args_inv_def op_val_assign member_ok_def convert_Suc simp del: convert.simps of_nat_Suc)
qed

lemma apply_value_inv:
  assumes inv: "args_inv op" and ok: "action_ok act" and r: "apply_value act arg op = Accept op'"
  shows "args_inv op'"
proof (cases act)
  case (ARG_IVALUE m)
  then show ?thesis using assms assign_inv [OF inv, of m "strtoull arg"] by auto
next
  case ArgPatternOffset
  then show ?thesis
    using r parsed_inv [OF inv, of "ParseNonNegativeInt arg"] parse_int_from_range [of 0 arg]
    by (fastforce simp: ParseNonNegativeInt_def counted_members_def type_of_member_def wide_members_def member_ok_def)
next
  case (ArgNonNegative m)
  then show ?thesis
    using r ok parsed_inv [OF inv, of "ParseNonNegativeInt arg" "\<lambda>_. True" m] parse_int_from_range [of 0 arg] by (auto simp: ParseNonNegativeInt_def)
next
  case (ArgPositive m)
  then show ?thesis
    using r ok parsed_inv [OF inv, of "ParsePositiveInt arg" "\<lambda>_. True" m] parse_int_from_range [of 1 arg] by (fastforce simp: ParsePositiveInt_def)
next
  case (ArgCount m)
  then show ?thesis
    using r ok parsed_inv [OF inv, of "ParsePositiveInt arg" "\<lambda>v. v \<le> kMaxDiagnosticWorkerCount" m] parse_int_from_range [of 1 arg]
    by (fastforce simp: ParsePositiveInt_def kMaxDiagnosticWorkerCount_def)
next
  case ArgFinalThreads
  then obtain op1 where op1: "parsed (ParsePositiveInt arg) (\<lambda>v. v \<le> kMaxDiagnosticWorkerCount) ''final_check_threads_'' op = Accept op1"
    "op' = assign ''final_check_threads_explicit_'' 1 op1"
    using r by (cases "parsed (ParsePositiveInt arg) (\<lambda>v. v \<le> kMaxDiagnosticWorkerCount) ''final_check_threads_'' op") auto
  have "args_inv op1"
    using parsed_inv [OF inv op1(1)] parse_int_from_range [of 1 arg]
    by (fastforce simp: ParsePositiveInt_def kMaxDiagnosticWorkerCount_def counted_members_def type_of_member_def wide_members_def member_ok_def)
  then show ?thesis using assign_inv [of op1 "''final_check_threads_explicit_''" 1] op1(2) by (simp add: counted_members_def member_ok_def)
next
  case ArgYield
  then show ?thesis
    using r parsed_inv [OF inv, of "ParsePositiveInt arg"] parse_int_from_range [of 1 arg]
    by (fastforce simp: ParsePositiveInt_def counted_members_def type_of_member_def wide_members_def member_ok_def)
next
  case ArgFrequencies
  then show ?thesis using r apply_freq_inv [OF inv] by simp
next
  case ArgChannel
  have "\<forall>c \<in> set (op_channels op). c \<noteq> []" using inv by (simp add: args_inv_def)
  then have "\<forall>c \<in> set (op_channels op @ [split_commas arg]). c \<noteq> []" using split_commas_ne by auto
  moreover have "op' = op\<lparr>op_channels := op_channels op @ [split_commas arg]\<rparr>" using ArgChannel r by simp
  ultimately show ?thesis using inv unfolding args_inv_def by simp
qed (use inv r count_inv in \<open>auto simp: select_value_def split: option.splits if_splits\<close>)

lemma apply_missing_Accept: "apply_missing act op = Accept op' \<Longrightarrow> op' = op"
  by (cases act) auto

lemma find_action_inv:
  assumes "args_inv op" "find_action arg op = (Some act, op')"
  shows "args_inv op' \<and> action_ok act"
proof -
  have "args_inv (crazy_line op)"
    using assms(1) assign_inv [OF assms(1), of "''error_injection_''" 1] by (simp add: crazy_line_def counted_members_def member_ok_def)
  then show ?thesis using assms tables_ok by (auto simp: find_action_def split: option.splits dest!: map_of_SomeD)
qed

lemma apply_flag_inv: "args_inv op \<Longrightarrow> action_ok act \<Longrightarrow> args_inv (apply_flag act op)"
  by (cases act) (auto intro: assign_inv)

lemma parse_args_inv: "args_inv op \<Longrightarrow> parse_args args op = Accept op' \<Longrightarrow> args_inv op'"
proof (induction args op rule: parse_args.induct)
  case (2 arg rest op)
  obtain act op1 where f: "find_action arg op = (Some act, op1)"
    using "2.prems"(2) by (cases "find_action arg op"; cases "fst (find_action arg op)") auto
  note inv1 = find_action_inv [OF "2.prems"(1) f]
  show ?case
  proof (cases "takes_value act")
    case False
    then show ?thesis using "2.IH"(1) [OF f [symmetric] refl False] "2.prems"(2) f apply_flag_inv inv1 by simp
  next
    case True
    show ?thesis
    proof (cases rest)
      case Nil
      then show ?thesis using "2.prems"(2) f True inv1 apply_missing_Accept by auto
    next
      case (Cons v rest')
      then obtain op2 where op2: "apply_value act v op1 = Accept op2" using "2.prems"(2) f True by (cases "apply_value act v op1") auto
      have "args_inv op2" using apply_value_inv inv1 op2 by blast
      then show ?thesis using "2.IH"(2) [OF f [symmetric] refl _ Cons op2] "2.prems"(2) f True Cons op2 by simp
    qed
  qed
qed simp

lemma power_of_2:
  assumes "is_power_of_2 n" "0 < n"
  obtains k where "n = 2 ^ k"
proof -
  obtain k where k: "2 ^ k \<le> n" "n < 2 ^ Suc k"
    using ex_power_ivl1 [of 2 "nat n"] assms(2) by (auto simp: nat_le_iff nat_less_iff zless_nat_eq_int_zless le_nat_iff)
  have "n = 2 ^ k"
  proof (rule ccontr)
    assume "n \<noteq> 2 ^ k"
    then have "n div 2 ^ k = 1" "(n - 1) div 2 ^ k = 1" using k by (simp_all add: int_div_pos_eq [of _ _ 1 "_ - 2 ^ k"])
    then have "bit n k" "bit (n - 1) k" by (simp_all add: bit_iff_odd)
    then have "bit (n AND (n - 1)) k" by (simp add: bit_and_iff)
    then show False using assms(1) by (simp add: is_power_of_2_def)
  qed
  then show thesis using that by blast
qed

lemma Sat_new_inv: "args_inv Sat_new"
  by (simp add: args_inv_def Sat_new_def member_ok_def default_values_def kSatPageSize_def)

text \<open>The conditions on the memory channels.\<close>

definition channels_ok :: "options \<Rightarrow> bool" where
  "channels_ok op \<longleftrightarrow> op_channels op = [] \<or>
     length (op_channels op) \<le> 2 \<and> (length (op_channels op) = 1 \<longrightarrow> op_val op ''channel_hash_'' = 0) \<and> (\<forall>c \<in> set (op_channels op). length c = length (op_channels op ! 0)) \<and>
     (\<exists>j w. length (op_channels op ! 0) = 2 ^ j \<and> op_val op ''channel_width_'' = 2 ^ w \<and> 4 \<le> w \<and> j + 3 \<le> w)"

definition options_ok :: "options \<Rightarrow> bool" where
  "options_ok op \<longleftrightarrow> args_inv op \<and> channels_ok op \<and> (\<exists>k. 10 \<le> k \<and> k \<le> 30 \<and> op_val op ''page_length_'' = 2 ^ k) \<and>
     op_val op ''fill_yield_bytes_'' \<le> op_val op ''page_length_'' \<and> op_val op ''size_'' = convert Int64 (op_val op ''size_mb_'' * 2 ^ 20)"

lemma check_channels_ok:
  assumes inv: "args_inv op" and r: "check_channels op = Accept op'"
  shows "channels_ok op' \<and> (\<exists>b. op' = (if b then assign ''channel_hash_'' 0 op else op))"
proof (cases "op_channels op = []")
  case False
  let ?cs = "op_channels op" and ?w = "op_val op ''channel_width_''"
  have op': "op' = (if length ?cs = 1 then assign ''channel_hash_'' 0 op else op)" and good: "\<not> bad_channels ?cs ?w"
    using r False unfolding check_channels_def Let_def by (auto split: if_split_asm)
  have cs: "length ?cs \<le> 2" "\<forall>c \<in> set ?cs. length c = length (?cs ! 0)"
    and pow: "is_power_of_2 (int (length (?cs ! 0)))" "16 \<le> ?w" "is_power_of_2 ?w" and div: "8 \<le> ?w div int (length (?cs ! 0))"
    using good unfolding bad_channels_def de_Morgan_disj not_less not_not ball_simps by blast+
  have "?cs ! 0 \<noteq> []" using inv False by (simp add: args_inv_def)
  then obtain j where j: "int (length (?cs ! 0)) = 2 ^ j" using power_of_2 [OF pow(1)] by auto
  obtain w where w: "?w = 2 ^ w" using power_of_2 [OF pow(3)] pow(2) by auto
  have "4 \<le> w" using pow(2) w power_le_imp_le_exp [of "2 :: int" 4 w] by simp
  moreover have "j + 3 \<le> w"
  proof -
    have "8 * 2 ^ j \<le> ?w div 2 ^ j * 2 ^ j" using div j by (intro mult_right_mono) simp_all
    also have "\<dots> \<le> ?w" by (simp add: minus_mod_eq_div_mult [symmetric])
    finally have "(2 :: int) ^ (j + 3) \<le> 2 ^ w" using w by (simp add: power_add)
    then show ?thesis by (rule power_le_imp_le_exp [rotated]) simp
  qed
  moreover have "length (?cs ! 0) = 2 ^ j" using j by (metis of_nat_eq_iff of_nat_numeral of_nat_power)
  moreover have "type_of_member ''channel_hash_'' = UInt64" by (simp add: type_of_member_def wide_members_def)
  ultimately show ?thesis using op' cs w unfolding channels_ok_def by (auto simp: op_val_assign)
qed (use r in \<open>auto simp: check_channels_def channels_ok_def\<close>)

lemma set_disk_pages_inv:
  assumes inv: "args_inv op"
  shows "args_inv (set_disk_pages op)" "m \<noteq> ''disk_pages_'' \<Longrightarrow> op_val (set_disk_pages op) m = op_val op m"
proof -
  have t: "type_of_member ''disk_pages_'' = Int32" by (simp add: type_of_member_def wide_members_def)
  let ?v = "op_val op ''filesize'' div op_val op ''page_length_''" and ?c = "convert Int32 (op_val op ''filesize'' div op_val op ''page_length_'')"
  have one: "assign ''disk_pages_'' 1 (assign ''disk_pages_'' ?v op) = assign ''disk_pages_'' 1 op" by (simp add: assign_def)
  have cases: "set_disk_pages op = op \<or> set_disk_pages op = assign ''disk_pages_'' 1 op \<or> set_disk_pages op = assign ''disk_pages_'' ?v op \<and> ?c \<noteq> 0"
    using t one by (simp add: set_disk_pages_def Let_def op_val_assign del: convert.simps)
  have "args_inv (assign ''disk_pages_'' v op)" if "convert Int32 v \<noteq> 0" for v
    using assign_inv [OF inv, of "''disk_pages_''" v] that t by (simp add: counted_members_def member_ok_def del: convert.simps)
  then show "args_inv (set_disk_pages op)" using cases inv by (auto simp del: convert.simps(2-4))
  show "m \<noteq> ''disk_pages_'' \<Longrightarrow> op_val (set_disk_pages op) m = op_val op m" by (simp add: set_disk_pages_def Let_def op_val_assign)
qed

lemma finish_args_ok:
  assumes inv: "args_inv op" and r: "finish_args argv op = Accept op'"
  shows "options_ok op'"
proof -
  define op2 where "op2 = (let op1 = assign ''size_'' (op_val op ''size_mb_'' * kMegabyte) op
    in if op_logfilename op1 \<noteq> [] then assign ''use_logfile_'' 1 op1 else op1)"
  have t: "type_of_member ''size_'' = Int64" by (simp add: type_of_member_def wide_members_def)
  have inv2: "args_inv op2" unfolding op2_def Let_def
    using inv by (auto intro!: assign_inv simp: counted_members_def member_ok_def)
  have vals: "op_val op2 m = op_val op m" if "m \<notin> {''size_'', ''use_logfile_''}" for m using that by (simp add: op2_def Let_def op_val_assign)
  have size: "op_val op2 ''size_'' = convert Int64 (op_val op ''size_mb_'' * 2 ^ 20)"
    using t by (simp add: op2_def Let_def op_val_assign kMegabyte_def del: convert.simps)
  obtain op3 op4 where c: "check_page_length op2 = Accept op3" "op_val op3 ''fill_yield_bytes_'' \<le> op_val op3 ''page_length_''"
    "check_channels (set_disk_pages op3) = Accept op4" "op' = op4\<lparr>op_cmdline := concat (map (\<lambda>i. (if i = 0 then [] else '' '') @ argv ! i) [0..<length argv])\<rparr>"
    using r unfolding finish_args_def Let_def op2_def [unfolded Let_def, symmetric]
    by (cases "check_page_length op2"; cases "check_channels (set_disk_pages op2)") (auto simp: check_page_length_def Let_def split: if_split_asm)
  have op3: "op3 = op2" "is_power_of_2 (op_val op2 ''page_length_'')" "1023 < op_val op2 ''page_length_''"
    using c(1) by (auto simp: check_page_length_def Let_def split: if_split_asm)
  have inv3: "args_inv (set_disk_pages op2)" by (rule set_disk_pages_inv(1) [OF inv2])
  have ch: "channels_ok op4" "\<exists>b. op4 = (if b then assign ''channel_hash_'' 0 (set_disk_pages op2) else set_disk_pages op2)"
    using check_channels_ok [OF inv3] c(3) op3(1) by auto
  then have val4: "op_val op4 m = op_val op2 m" if "m \<notin> {''disk_pages_'', ''channel_hash_''}" for m
    using that set_disk_pages_inv(2) [OF inv2, of m] by (auto simp: op_val_assign)
  have inv4: "args_inv op4" using ch(2) inv3 assign_inv [OF inv3, of "''channel_hash_''" 0] by (auto simp: counted_members_def member_ok_def)
  obtain k where k: "op_val op2 ''page_length_'' = 2 ^ k" using power_of_2 [OF op3(2)] op3(3) by auto
  have "op_val op2 ''page_length_'' < 2 ^ 31" using inv2 by (simp add: args_inv_def member_ok_def)
  then have "k < 31" "9 < k" using k op3(3) power_less_imp_less_exp [of "2 :: int" k 31] power_less_imp_less_exp [of "2 :: int" 9 k] by simp_all
  then have "\<exists>k. 10 \<le> k \<and> k \<le> 30 \<and> op_val op4 ''page_length_'' = 2 ^ k" using k val4 [of "''page_length_''"] by (intro exI [of _ k]) simp
  moreover have "op_val op4 ''fill_yield_bytes_'' \<le> op_val op4 ''page_length_''" using c(2) op3(1) val4 by simp
  moreover have "op_val op4 ''size_'' = convert Int64 (op_val op4 ''size_mb_'' * 2 ^ 20)"
    using size val4 [of "''size_''"] val4 [of "''size_mb_''"] vals [of "''size_mb_''"] by (simp del: convert.simps)
  ultimately show ?thesis using ch(1) inv4 by (simp add: c(4) options_ok_def channels_ok_def del: convert.simps)
qed

lemma ParseArgs_ok:
  assumes "ParseArgs argv Sat_new = Accept op"
  shows "options_ok op"
proof -
  let ?op0 = "assign ''filesize'' (op_val Sat_new ''page_length_'' * op_val Sat_new ''disk_pages_'') Sat_new"
  have inv0: "args_inv ?op0" by (rule assign_inv [OF Sat_new_inv]) (simp_all add: counted_members_def member_ok_def)
  obtain op1 where "parse_args (drop 1 argv) ?op0 = Accept op1" "finish_args argv op1 = Accept op"
    using assms by (cases "parse_args (drop 1 argv) ?op0") (auto simp: ParseArgs_def)
  then show ?thesis using finish_args_ok parse_args_inv [OF inv0] by blast
qed

section \<open>Numbers that are printed and read\<close>

lemma digits_last: "digits n = (if n < 10 then [] else digits (n div 10)) @ [char_of (48 + n mod 10)]"
  by (subst digits.simps) simp

lemma digit_char:
  assumes "d < 10"
  shows "is_digit (char_of (48 + d))" "digit_value (char_of (48 + d)) = d"
  using assms by (simp_all add: is_digit_def digit_value_def)

lemma digits_digit: "c \<in> set (digits n) \<Longrightarrow> is_digit c"
proof (induction n rule: digits.induct)
  case (1 n)
  then show ?case using digit_char(1) [of "n mod 10"] digit_char(1) [of n] by (cases "n < 10") (auto simp: digits.simps [of n])
qed

lemma digits_roundtrip: "digits_value (digits n) = n"
proof (induction n rule: digits.induct)
  case (1 n)
  then show ?case using digit_char(2) [of "n mod 10"] by (cases "n < 10") (simp_all add: digits.simps [of n] digits_value_def)
qed

lemma digits_ne [simp]: "digits n \<noteq> []"
  by (subst digits.simps) simp

lemma digit_not_special: "is_digit c \<Longrightarrow> \<not> is_c_space c \<and> c \<noteq> CHR ''-'' \<and> c \<noteq> CHR ''+'' \<and> c \<noteq> CHR '',''"
  by (auto simp: is_digit_def is_c_space_def)

lemma whole_digits: "takeWhile is_digit (digits n) = digits n" "dropWhile is_digit (digits n) = []"
  using digits_digit by (simp_all add: takeWhile_eq_all_conv)

lemma strtol10_decimal:
  assumes "- (2 ^ 63) \<le> i" "i < 2 ^ 63"
  shows "strtol10 (decimal i) = (i, [], True)"
proof -
  obtain c cs where d: "digits (nat i) = c # cs" "is_digit c" by (metis digits_digit digits_ne list.exhaust list.set_intros(1))
  show ?thesis
  proof (cases "i < 0")
    case True
    have "dropWhile is_c_space (''-'' @ digits (nat (- i))) = CHR ''-'' # digits (nat (- i))" by (simp add: is_c_space_def)
    then show ?thesis using True assms by (simp add: strtol10_def decimal_def whole_digits digits_roundtrip Let_def sign_of_def)
  next
    case False
    have start: "dropWhile is_c_space (digits (nat i)) = digits (nat i)" using digit_not_special [OF d(2)] by (simp add: d(1))
    have "sign_of (digits (nat i)) = (False, digits (nat i))" using digit_not_special [OF d(2)] by (simp add: d(1) sign_of_def)
    then have "strtol10 (digits (nat i)) = (i, [], True)"
      using False assms by (simp add: strtol10_def start whole_digits digits_roundtrip Let_def)
    then show ?thesis using False by (simp add: decimal_def)
  qed
qed

lemma decimal_ne: "decimal i \<noteq> []"
  by (simp add: decimal_def)

lemma decimal_no_comma: "CHR '','' \<notin> set (decimal i)"
  using digits_digit digit_not_special by (auto simp: decimal_def)

lemma parse_decimal: "parse_int_from least (decimal i) = (if least \<le> i \<and> i \<le> INT_MAX then Some i else None)" if "0 \<le> least"
proof (cases "- (2 ^ 63) \<le> i \<and> i < 2 ^ 63")
  case True
  then show ?thesis using strtol10_decimal [of i] decimal_ne [of i] by (auto simp: parse_int_from_def)
next
  case False
  have "v < least \<or> INT_MAX < v" if "strtol10 (decimal i) = (v, rest, True)" for v rest
  proof -
    obtain c cs where d: "digits (nat i) = c # cs" "is_digit c" by (metis digits_digit digits_ne list.exhaust list.set_intros(1))
    show ?thesis
    proof (cases "i < 0")
      case True
      have "dropWhile is_c_space (''-'' @ digits (nat (- i))) = CHR ''-'' # digits (nat (- i))" by (simp add: is_c_space_def)
      then show ?thesis using True False that by (simp add: strtol10_def decimal_def whole_digits digits_roundtrip Let_def sign_of_def split: if_splits)
    next
      case pos: False
      have "dropWhile is_c_space (digits (nat i)) = digits (nat i)" "sign_of (digits (nat i)) = (False, digits (nat i))"
        using digit_not_special [OF d(2)] by (simp_all add: d(1) sign_of_def)
      then show ?thesis using pos False that by (simp add: strtol10_def decimal_def whole_digits digits_roundtrip Let_def split: if_splits)
    qed
  qed
  moreover have "\<not> (least \<le> i \<and> i \<le> INT_MAX)" using False \<open>0 \<le> least\<close> by (auto simp: INT_MAX_def)
  ultimately show ?thesis by (auto simp: parse_int_from_def split: prod.splits)
qed

fun comma_list :: "string list \<Rightarrow> string" where
  "comma_list [] = []"
| "comma_list [s] = s"
| "comma_list (s # ss) = s @ '','' @ comma_list ss"

lemma split_plain: "CHR '','' \<notin> set s \<Longrightarrow> split_commas s = [s]"
  by (induction s) auto

lemma split_item: "CHR '','' \<notin> set s \<Longrightarrow> split_commas (s @ CHR '','' # rest) = s # split_commas rest"
  by (induction s) auto

lemma split_comma_list: "ss \<noteq> [] \<Longrightarrow> \<forall>s \<in> set ss. CHR '','' \<notin> set s \<Longrightarrow> split_commas (comma_list ss) = ss"
  by (induction ss rule: comma_list.induct) (simp_all add: split_plain split_item)

lemma parse_items_decimal:
  "\<forall>f \<in> set fs. 1 \<le> f \<and> f \<le> INT_MAX \<Longrightarrow> parse_items (map decimal fs) = Some fs"
  by (induction fs) (simp_all add: ParsePositiveInt_def parse_decimal)

section \<open>Properties\<close>

text \<open>
  C21. Accepted command lines. Whatever the arguments, when \<open>ParseArgs\<close> accepts them the options are fit for the rest of the program: the page length is a power of
  two between 1024 and $2^{30}$, the intervals by which the control loop divides are positive, the numbers of fill and final check workers
  are between 1 and 256, offset and yield interval are multiples of the word and the cache line and lie in their ranges, the frequencies are positive and swept
  exactly if there are several, there is one thread for each file and device named, and the memory channels fit together.
\<close>

theorem accepted_options:
  assumes "ParseArgs argv Sat_new = Accept op"
  shows "(\<exists>k. 10 \<le> k \<and> k \<le> 30 \<and> op_val op ''page_length_'' = 2 ^ k) \<and>
    1 \<le> op_val op ''print_delay_'' \<and> 1 \<le> op_val op ''pause_delay_'' \<and> 1 \<le> op_val op ''dram_step_seconds_'' \<and>
    op_val op ''fill_threads_'' \<in> {1..256} \<and> op_val op ''final_check_threads_'' \<in> {1..256} \<and>
    0 \<le> op_val op ''pattern_byte_offset_'' \<and> 4 dvd op_val op ''pattern_byte_offset_'' \<and>
    0 \<le> op_val op ''fill_yield_bytes_'' \<and> 64 dvd op_val op ''fill_yield_bytes_'' \<and> op_val op ''fill_yield_bytes_'' \<le> op_val op ''page_length_'' \<and>
    (\<forall>f \<in> set (op_dram_frequencies op). 1 \<le> f) \<and> (op_val op ''dram_sweep_'' \<noteq> 0 \<longleftrightarrow> 1 < length (op_dram_frequencies op)) \<and>
    (length (op_filename op) < 2 ^ 31 \<longrightarrow> op_val op ''file_threads_'' = int (length (op_filename op))) \<and>
    (length (op_diskfilename op) < 2 ^ 31 \<longrightarrow> op_val op ''disk_threads_'' = int (length (op_diskfilename op))) \<and>
    op_val op ''disk_pages_'' \<noteq> 0 \<and> channels_ok op"
proof -
  have ok: "options_ok op" by (rule ParseArgs_ok [OF assms])
  then have m: "member_ok m (op_val op m)" for m by (simp add: options_ok_def args_inv_def)
  have "convert Int32 (int n) = int n" if "n < 2 ^ 31" for n using that by simp
  then show ?thesis
    using ok m [of "''print_delay_''"] m [of "''pause_delay_''"] m [of "''dram_step_seconds_''"] m [of "''fill_threads_''"]
      m [of "''final_check_threads_''"] m [of "''pattern_byte_offset_''"] m [of "''fill_yield_bytes_''"] m [of "''disk_pages_''"]
    unfolding options_ok_def args_inv_def by (simp add: member_ok_def dvd_eq_mod_eq_0 del: convert.simps)
qed

text \<open>
  Numbers survive printing and parsing. The decimal form of a number is accepted by \<open>ParsePositiveInt\<close> and \<open>ParseNonNegativeInt\<close> exactly if it is in the range
  of the option, and then it gives that number; a list of frequencies printed with commas is read back by \<open>ParseDramFrequencyList\<close> in its order.
\<close>

lemma numbers_roundtrip:
  "ParsePositiveInt (decimal i) = (if 1 \<le> i \<and> i < 2 ^ 31 then Some i else None) \<and>
   ParseNonNegativeInt (decimal i) = (if 0 \<le> i \<and> i < 2 ^ 31 then Some i else None) \<and>
   (fs \<noteq> [] \<and> (\<forall>f \<in> set fs. 1 \<le> f \<and> f < 2 ^ 31) \<longrightarrow> ParseDramFrequencyList (comma_list (map decimal fs)) = Some fs)"
proof (intro conjI impI)
  show "ParsePositiveInt (decimal i) = (if 1 \<le> i \<and> i < 2 ^ 31 then Some i else None)"
    "ParseNonNegativeInt (decimal i) = (if 0 \<le> i \<and> i < 2 ^ 31 then Some i else None)"
    by (simp_all add: ParsePositiveInt_def ParseNonNegativeInt_def parse_decimal INT_MAX_def)
next
  assume fs: "fs \<noteq> [] \<and> (\<forall>f \<in> set fs. 1 \<le> f \<and> f < 2 ^ 31)"
  have split: "split_commas (comma_list (map decimal fs)) = map decimal fs"
    using fs decimal_no_comma by (intro split_comma_list) auto
  have "comma_list (map decimal fs) \<noteq> ''all''"
  proof
    assume "comma_list (map decimal fs) = ''all''"
    then have "decimal (hd fs) = ''all''" using split fs by (cases fs) auto
    then have "digits (nat (hd fs)) = ''all''" using fs by (cases fs) (auto simp: decimal_def)
    then show False using digits_digit [of "CHR ''a''" "nat (hd fs)"] by (simp add: is_digit_def)
  qed
  moreover have "parse_items (map decimal fs) = Some fs" using fs by (intro parse_items_decimal) (force simp: INT_MAX_def)
  ultimately show "ParseDramFrequencyList (comma_list (map decimal fs)) = Some fs"
    using split by (simp add: ParseDramFrequencyList_def)
qed

section \<open>Which options turn on the injection of errors\<close>

definition action_of :: "string \<Rightarrow> arg_action option" where
  "action_of arg = (case map_of early_args arg of Some act \<Rightarrow> Some act | None \<Rightarrow> map_of late_args arg)"

text \<open>The arguments that are options, not values of options.\<close>

function option_words :: "string list \<Rightarrow> string list" where
  "option_words [] = []"
| "option_words (arg # rest) =
     arg # (case action_of arg of None \<Rightarrow> [] | Some act \<Rightarrow> if takes_value act then option_words (tl rest) else option_words rest)"
  by pat_completeness auto
termination by (relation "measure length") auto

text \<open>Whether an option of the second half comes after \<open>--force_errors_like_crazy\<close>.\<close>

fun late_after :: "bool \<Rightarrow> string list \<Rightarrow> bool" where
  "late_after crazy [] \<longleftrightarrow> False"
| "late_after crazy (w # ws) \<longleftrightarrow> crazy \<and> map_of early_args w = None \<or> late_after (crazy \<or> w = ''--force_errors_like_crazy'') ws"

fun sets_member :: "arg_action \<Rightarrow> member \<Rightarrow> bool" where
  "sets_member (ARG_KVALUE m v) x \<longleftrightarrow> x = m"
| "sets_member (ARG_IVALUE m) x \<longleftrightarrow> x = m"
| "sets_member (ArgNonNegative m) x \<longleftrightarrow> x = m"
| "sets_member (ArgPositive m) x \<longleftrightarrow> x = m"
| "sets_member (ArgCount m) x \<longleftrightarrow> x = m"
| "sets_member _ x \<longleftrightarrow> False"

abbreviation injection_member :: "member \<Rightarrow> bool" where
  "injection_member m \<equiv> m = ''error_injection_'' \<or> m = ''crazy_error_injection_''"

lemma apply_value_frame:
  assumes r: "apply_value act arg op = Accept op'" and m: "injection_member m" "\<not> sets_member act m"
  shows "op_val op' m = op_val op m"
proof -
  have parsed: "op_val q m = op_val op m" if "parsed v ok x op = Accept q" "x \<noteq> m" for v ok x q
    using that by (auto simp: parsed_def op_val_assign split: option.splits if_splits)
  show ?thesis
  proof (cases act)
    case ArgFinalThreads
    then obtain q where q: "parsed (ParsePositiveInt arg) (\<lambda>v. v \<le> kMaxDiagnosticWorkerCount) ''final_check_threads_'' op = Accept q"
      "op' = assign ''final_check_threads_explicit_'' 1 q"
      using r by (cases "parsed (ParsePositiveInt arg) (\<lambda>v. v \<le> kMaxDiagnosticWorkerCount) ''final_check_threads_'' op") auto
    then show ?thesis using parsed [OF q(1)] m by (auto simp: op_val_assign)
  next
    case ArgFrequencies
    then show ?thesis using r m by (auto simp: apply_freq_def op_val_assign split: option.splits if_splits)
  qed (use r m parsed in \<open>auto simp: op_val_assign select_value_def split: option.splits if_splits\<close>)
qed

lemma injection_tables:
  "\<forall>(a, act) \<in> set early_args. (a = ''--force_errors'' \<and> act = ARG_KVALUE ''error_injection_'' 1) \<or>
     (a = ''--force_errors_like_crazy'' \<and> act = ARG_KVALUE ''crazy_error_injection_'' 1) \<or>
     a \<notin> {''--force_errors'', ''--force_errors_like_crazy''} \<and> \<not> sets_member act ''error_injection_'' \<and> \<not> sets_member act ''crazy_error_injection_''"
  "\<forall>(a, act) \<in> set late_args. a \<notin> {''--force_errors'', ''--force_errors_like_crazy''} \<and>
     \<not> sets_member act ''error_injection_'' \<and> \<not> sets_member act ''crazy_error_injection_''"
  by (simp_all add: early_args_list late_args_def)

lemma crazy_line_vals:
  "op_val (crazy_line op) ''crazy_error_injection_'' = op_val op ''crazy_error_injection_''"
  "op_val (crazy_line op) ''error_injection_'' \<noteq> 0 \<longleftrightarrow> op_val op ''error_injection_'' \<noteq> 0 \<or> op_val op ''crazy_error_injection_'' \<noteq> 0"
  by (simp_all add: crazy_line_def op_val_assign type_of_member_def wide_members_def)

text \<open>What one option does to the two flags; \<open>op1\<close> are the options when its action starts.\<close>

lemma option_effect:
  assumes f: "find_action arg op = (Some act, op1)"
    and r: "if takes_value act then \<exists>v. apply_value act v op1 = Accept op2 else op2 = apply_flag act op1"
  shows "op_val op2 ''crazy_error_injection_'' \<noteq> 0 \<longleftrightarrow> op_val op ''crazy_error_injection_'' \<noteq> 0 \<or> arg = ''--force_errors_like_crazy''"
    "op_val op2 ''error_injection_'' \<noteq> 0 \<longleftrightarrow> op_val op ''error_injection_'' \<noteq> 0 \<or> arg = ''--force_errors'' \<or>
       op_val op ''crazy_error_injection_'' \<noteq> 0 \<and> map_of early_args arg = None"
proof -
  have flag: "op_val (apply_flag act op1) m = op_val op1 m" if "\<not> sets_member act m" for m using that by (cases act) (auto simp: op_val_assign)
  have frame: "op_val op2 m = op_val op1 m" if "injection_member m" "\<not> sets_member act m" for m
    using r that apply_value_frame [OF _ that, of _ op1 op2] flag by (auto split: if_splits)
  consider (early) "map_of early_args arg = Some act" "op1 = op" | (late) "map_of early_args arg = None" "map_of late_args arg = Some act" "op1 = crazy_line op"
    using f by (auto simp: find_action_def split: option.splits)
  then have "(op_val op2 ''crazy_error_injection_'' \<noteq> 0 \<longleftrightarrow> op_val op ''crazy_error_injection_'' \<noteq> 0 \<or> arg = ''--force_errors_like_crazy'') \<and>
    (op_val op2 ''error_injection_'' \<noteq> 0 \<longleftrightarrow> op_val op ''error_injection_'' \<noteq> 0 \<or> arg = ''--force_errors'' \<or>
       op_val op ''crazy_error_injection_'' \<noteq> 0 \<and> map_of early_args arg = None)"
  proof cases
    case early
    then consider "arg = ''--force_errors''" "act = ARG_KVALUE ''error_injection_'' 1"
      | "arg = ''--force_errors_like_crazy''" "act = ARG_KVALUE ''crazy_error_injection_'' 1"
      | "arg \<notin> {''--force_errors'', ''--force_errors_like_crazy''}" "\<not> sets_member act ''error_injection_''" "\<not> sets_member act ''crazy_error_injection_''"
      using bspec [OF injection_tables(1) map_of_SomeD [OF early(1)]] unfolding prod.case by metis
    then show ?thesis
    proof cases
      case 3
      then show ?thesis using frame early by simp
    qed (use r early in \<open>simp_all add: op_val_assign type_of_member_def wide_members_def\<close>)
  next
    case late
    then have "arg \<notin> {''--force_errors'', ''--force_errors_like_crazy''}" "\<not> sets_member act ''error_injection_''" "\<not> sets_member act ''crazy_error_injection_''"
      using bspec [OF injection_tables(2) map_of_SomeD [OF late(2)]] unfolding prod.case by metis+
    then show ?thesis using frame late crazy_line_vals [of op] by simp
  qed
  then show "op_val op2 ''crazy_error_injection_'' \<noteq> 0 \<longleftrightarrow> op_val op ''crazy_error_injection_'' \<noteq> 0 \<or> arg = ''--force_errors_like_crazy''"
    "op_val op2 ''error_injection_'' \<noteq> 0 \<longleftrightarrow> op_val op ''error_injection_'' \<noteq> 0 \<or> arg = ''--force_errors'' \<or>
       op_val op ''crazy_error_injection_'' \<noteq> 0 \<and> map_of early_args arg = None" by blast+
qed

lemma find_action_of: "fst (find_action arg op) = action_of arg"
  by (simp add: find_action_def action_of_def split: option.splits)

lemma injection_flags:
  "parse_args args op = Accept op' \<Longrightarrow>
   op_val op' ''error_injection_'' \<noteq> 0 \<longleftrightarrow> op_val op ''error_injection_'' \<noteq> 0 \<or> ''--force_errors'' \<in> set (option_words args) \<or>
     late_after (op_val op ''crazy_error_injection_'' \<noteq> 0) (option_words args)"
proof (induction args op rule: parse_args.induct)
  case (2 arg rest op)
  obtain act op1 where f: "find_action arg op = (Some act, op1)"
    using "2.prems" by (cases "find_action arg op"; cases "fst (find_action arg op)") auto
  have act: "action_of arg = Some act" using find_action_of [of arg op] f by simp
  show ?case
  proof (cases "takes_value act")
    case False
    have r: "if takes_value act then \<exists>v. apply_value act v op1 = Accept (apply_flag act op1) else apply_flag act op1 = apply_flag act op1" using False by simp
    have "parse_args rest (apply_flag act op1) = Accept op'" using "2.prems" f False by simp
    from "2.IH"(1) [OF f [symmetric] refl False this] show ?thesis using option_effect [OF f r] act False by auto
  next
    case True
    show ?thesis
    proof (cases rest)
      case Nil
      then have op': "op' = op1" using "2.prems" f True apply_missing_Accept by simp
      have "arg \<noteq> ''--force_errors''" "arg \<noteq> ''--force_errors_like_crazy''"
        using True act by (auto simp: action_of_def early_args_list)
      then show ?thesis using op' f act True Nil crazy_line_vals [of op]
        by (auto simp: find_action_def action_of_def split: option.splits)
    next
      case (Cons v rest')
      then obtain op2 where op2: "apply_value act v op1 = Accept op2" "parse_args rest' op2 = Accept op'"
        using "2.prems" f True by (cases "apply_value act v op1") auto
      have r: "if takes_value act then \<exists>v. apply_value act v op1 = Accept op2 else op2 = apply_flag act op1" using True op2(1) by auto
      from "2.IH"(2) [OF f [symmetric] refl _ Cons op2(1) op2(2)] True show ?thesis using option_effect [OF f r] act Cons by auto
    qed
  qed
qed simp

text \<open>
  The place of \<open>--force_errors_like_crazy\<close> matters. Error injection is on after parsing exactly if \<open>--force_errors\<close> is among the options, or if
  \<open>--force_errors_like_crazy\<close> is and some later option belongs to the second half of the list: as the last option it turns on only
  the injection by the control loop.
\<close>

lemma force_errors_order:
  assumes "parse_args args Sat_new = Accept op"
  shows "op_val op ''error_injection_'' \<noteq> 0 \<longleftrightarrow> ''--force_errors'' \<in> set (option_words args) \<or> late_after False (option_words args)"
  using injection_flags [OF assms] by (simp add: Sat_new_def default_values_def)

section \<open>Concrete instances\<close>

text \<open>A command line with five options.\<close>

lemma parse_early:
  assumes "map_of early_args arg = Some act" "takes_value act" "apply_value act v op = Accept op'"
  shows "parse_args (arg # v # rest) op = parse_args rest op'"
  using assms by (simp add: find_action_def)

lemma op_val_Sat_new: "op_val Sat_new m = (case map_of default_values m of None \<Rightarrow> 0 | Some v \<Rightarrow> v)"
  by (simp add: Sat_new_def)

definition ex_argv :: "string list" where
  "ex_argv = [''stressapptest'', ''-M'', ''1'', ''-p'', ''131072'', ''-m'', ''2'', ''--fill-threads'', ''1'', ''-s'', ''5'']"

definition ex_parsed :: options where
  "ex_parsed = assign ''runtime_seconds_'' 5 (assign ''fill_threads_'' 1 (assign ''memory_threads_'' 2 (assign ''page_length_'' 131072
     (assign ''size_mb_'' 1 (assign ''filesize'' 8388608 Sat_new)))))"

lemmas ex_numbers = strtoull_base_def base_of.simps is_digit_in_def digit_of_def value_in_def sign_of_def is_c_space_def Let_def

lemma ex_parse: "parse_args (tl ex_argv) (assign ''filesize'' (op_val Sat_new ''page_length_'' * op_val Sat_new ''disk_pages_'') Sat_new) = Accept ex_parsed"
proof -
  have m: "map_of early_args ''-M'' = Some (ARG_IVALUE ''size_mb_'')" "map_of early_args ''-p'' = Some (ARG_IVALUE ''page_length_'')"
    "map_of early_args ''-m'' = Some (ARG_IVALUE ''memory_threads_'')" "map_of early_args ''--fill-threads'' = Some (ArgCount ''fill_threads_'')"
    "map_of early_args ''-s'' = Some (ARG_IVALUE ''runtime_seconds_'')"
    by (simp_all add: early_args_list)
  have n: "strtoull ''1'' = 1" "strtoull ''131072'' = 131072" "strtoull ''2'' = 2" "strtoull ''5'' = 5" by (simp_all add: ex_numbers)
  have p: "ParsePositiveInt ''1'' = Some 1" by (simp add: ParsePositiveInt_def parse_int_from_def strtol10_def ex_numbers is_digit_def digits_value_def digit_value_def INT_MAX_def)
  have d: "op_val Sat_new ''page_length_'' * op_val Sat_new ''disk_pages_'' = 8388608" by (simp add: op_val_Sat_new default_values_def kSatPageSize_def)
  show ?thesis unfolding ex_argv_def list.sel d ex_parsed_def
    by (simp add: parse_early m n p parsed_def kMaxDiagnosticWorkerCount_def del: parse_args.simps(2))
qed


lemma ex_val_types:
  "type_of_member ''size_'' = Int64" "type_of_member ''size_mb_'' = Int64" "type_of_member ''filesize'' = UInt64"
  "type_of_member ''page_length_'' = Int32" "type_of_member ''disk_pages_'' = Int32" "type_of_member ''fill_threads_'' = Int32"
  "type_of_member ''memory_threads_'' = Int32" "type_of_member ''runtime_seconds_'' = Int32"
  by (simp_all add: type_of_member_def wide_members_def)

definition ex_op :: options where
  "ex_op = assign ''disk_pages_'' 64 (assign ''size_'' 1048576 ex_parsed)"

lemma ex_parsed_frame [simp]: "op_channels ex_parsed = []" "op_logfilename ex_parsed = []"
  by (simp_all add: ex_parsed_def Sat_new_def)

lemma ex_finish: "finish_args ex_argv ex_parsed =
  Accept (ex_op\<lparr>op_cmdline := concat (map (\<lambda>i. (if i = 0 then [] else '' '') @ ex_argv ! i) [0..<length ex_argv])\<rparr>)"
proof -
  let ?op1 = "assign ''size_'' 1048576 ex_parsed"
  have v: "op_val ?op1 ''page_length_'' = 131072" "op_val ?op1 ''fill_yield_bytes_'' = 0" "op_val ?op1 ''print_delay_'' = 10"
    "op_val ?op1 ''pause_delay_'' = 600" "op_val ?op1 ''filesize'' = 8388608" "op_val ?op1 ''disk_pages_'' = 8" "op_val ex_parsed ''size_mb_'' = 1"
    by (simp_all add: ex_parsed_def op_val_assign ex_val_types op_val_Sat_new default_values_def)
  have "check_page_length ?op1 = Accept ?op1" using v(1) by (simp add: check_page_length_def is_power_of_2_def Let_def)
  moreover have "set_disk_pages ?op1 = ex_op" using v(1,5,6) by (simp add: set_disk_pages_def ex_op_def op_val_assign ex_val_types Let_def)
  moreover have "check_channels ex_op = Accept ex_op" by (simp add: check_channels_def ex_op_def)
  ultimately show ?thesis using v by (simp add: finish_args_def kMegabyte_def Let_def)
qed

lemma ex_accepted: "\<exists>line. ParseArgs ex_argv Sat_new = Accept (ex_op\<lparr>op_cmdline := line\<rparr>)"
  using ex_parse ex_finish by (simp add: ParseArgs_def drop_Suc) blast

theorem accepted_options_witness:
  "\<exists>op. ParseArgs ex_argv Sat_new = Accept op \<and> op_val op ''page_length_'' = 2 ^ 17 \<and> op_val op ''fill_threads_'' \<in> {1..256} \<and> channels_ok op"
proof -
  obtain line where r: "ParseArgs ex_argv Sat_new = Accept (ex_op\<lparr>op_cmdline := line\<rparr>)" using ex_accepted by blast
  have "op_val ex_op ''page_length_'' = 2 ^ 17"
    by (simp add: ex_op_def ex_parsed_def op_val_assign ex_val_types)
  then show ?thesis using r accepted_options [OF r] by simp
qed

end
