(* ===== verification/OsMemory.thy ===== *)
theory OsMemory
  imports Options SatPool
begin

text \<open>
  The memory under test as \<open>OsLayer\<close> finds and allocates it (\<^verbatim>\<open>src/src/os.cc\<close>): \<open>FindHugePages\<close>, \<open>FindFreeMemSize\<close>, \<open>AllocateTestMem\<close>,
  \<open>FreeTestMem\<close>, and \<open>FindDimm\<close>, which names the memory module of an address. What the kernel answers is an argument; the objects the process holds
  are a list of resources.
\<close>

section \<open>Sizes\<close>

text \<open>The result of reading \<^verbatim>\<open>/proc/sys/vm/nr_hugepages\<close>: the number of bytes and the text.\<close>

definition FindHugePages :: "int \<times> string \<Rightarrow> int" where
  "FindHugePages = (\<lambda>(bytes_read, buf).
     if bytes_read \<le> 0 then 0 else if bytes_read = 64 then 0 else convert Int64 (strtoull_base 10 buf))"

record mem_info =
  mi_pages :: int
  mi_pagesize :: int
  mi_hugepages :: "int \<times> string"
  mi_min_hugepages_bytes :: int
  mi_reserve_mb :: int

definition hugepage_bytes :: "int \<times> string \<Rightarrow> int" where
  "hugepage_bytes hp = FindHugePages hp * 2 * kMegabyte"

text \<open>The part for the system: 15 \% of less than 2 GB, or 5 \% and 192 MB, but at least the reserve.\<close>

definition plain_minsize :: "mem_info \<Rightarrow> int" where
  "plain_minsize mi =
     (let totalsize = mi_pages mi * mi_pagesize mi;
          minsize = (if totalsize < 2048 * kMegabyte then (mi_pages mi * 85) div 100 * mi_pagesize mi
                     else (mi_pages mi * 95) div 100 * mi_pagesize mi - 192 * kMegabyte);
          reserve_kb = mi_reserve_mb mi * kMegabyte
      in if 0 < mi_reserve_mb mi \<and> reserve_kb \<le> totalsize \<and> totalsize - minsize < reserve_kb then totalsize - reserve_kb else minsize)"

definition huge_size :: "mem_info \<Rightarrow> int" where
  "huge_size mi =
     (let hugepagesize = hugepage_bytes (mi_hugepages mi);
          minsize = (if 0 < mi_min_hugepages_bytes mi then mi_min_hugepages_bytes mi else hugepagesize)
      in if hugepagesize < minsize then minsize else hugepagesize)"

text \<open>The result is the size and \<open>totalmemsize_\<close>. The printed percentage divides by the physical size.\<close>

definition FindFreeMemSize :: "mem_info \<Rightarrow> int \<Rightarrow> (int \<times> int) res" where
  "FindFreeMemSize mi totalmemsize =
     (if 0 < totalmemsize then Inr (totalmemsize, totalmemsize)
      else if mi_pages mi = - 1 \<or> mi_pagesize mi = - 1 then Inr (0, totalmemsize)
      else let size = (if 0 < hugepage_bytes (mi_hugepages mi) then huge_size mi else plain_minsize mi)
           in if mi_pages mi * mi_pagesize mi = 0 then Inl DivisionByZero else Inr (size, size))"

section \<open>Allocation\<close>

datatype resource = ShmSegment | ShmAttached u64 | ShmFile | ShmMapping u64 | PlainMapping u64 | HeapBlock u64

record os_memory =
  om_use_hugepages :: bool
  om_use_posix_shm :: bool
  om_dynamic :: bool
  om_mmapped :: bool
  om_testmem :: u64
  om_testmemsize :: int
  om_live :: "resource list"

text \<open>
  What the kernel answers: \<open>None\<close> and 0 are failures.
\<close>

record alloc_env =
  al_address_mode :: int
  al_hugepages :: "int \<times> string"
  al_pagesize :: int
  al_shmget :: bool
  al_shmat :: "u64 option"
  al_rmid :: bool
  al_shm_open :: bool
  al_ftruncate :: bool
  al_mmap_shm :: "u64 option"
  al_mmap :: "u64 option"
  al_memalign :: u64

definition hold :: "resource \<Rightarrow> os_memory \<Rightarrow> os_memory" where
  "hold r om = om\<lparr>om_live := r # om_live om\<rparr>"

definition release :: "resource \<Rightarrow> os_memory \<Rightarrow> os_memory" where
  "release r om = om\<lparr>om_live := remove1 r (om_live om)\<rparr>"

definition prefer_posix_shm :: "int \<Rightarrow> alloc_env \<Rightarrow> bool" where
  "prefer_posix_shm len env \<longleftrightarrow> 1400 * kMegabyte \<le> len \<and> al_address_mode env = 32"

definition prefer_hugepages :: "int \<Rightarrow> alloc_env \<Rightarrow> bool" where
  "prefer_hugepages len env \<longleftrightarrow> \<not> prefer_posix_shm len env \<and> len \<le> hugepage_bytes (al_hugepages env)"

definition try_hugepages :: "alloc_env \<Rightarrow> os_memory \<Rightarrow> os_memory" where
  "try_hugepages env om =
     (if \<not> al_shmget env then om
      else case al_shmat env of
        None \<Rightarrow> (if al_rmid env then om else hold ShmSegment om)
      | Some a \<Rightarrow> (hold (ShmAttached a) (hold ShmSegment om))\<lparr>om_use_hugepages := True, om_testmem := a\<rparr>)"

text \<open>With a preference for shared memory there is always one for mapping it as needed, so the whole mapping is never tried.\<close>

definition try_posix_shm :: "bool \<Rightarrow> alloc_env \<Rightarrow> os_memory \<Rightarrow> os_memory" where
  "try_posix_shm prefer_dynamic_mapping env om =
     (if \<not> al_shm_open env then om
      else let om1 = hold ShmFile om
           in if \<not> al_ftruncate env then om1
              else if prefer_dynamic_mapping then om1\<lparr>om_dynamic := True, om_use_posix_shm := True, om_testmem := 0\<rparr>
              else case al_mmap_shm env of
                None \<Rightarrow> om1
              | Some a \<Rightarrow> (hold (ShmMapping a) om1)\<lparr>om_use_posix_shm := True, om_testmem := a\<rparr>)"

definition try_plain :: "alloc_env \<Rightarrow> os_memory \<Rightarrow> os_memory" where
  "try_plain env om =
     (let om1 = (if 4096 \<le> al_pagesize env
                 then (case al_mmap env of None \<Rightarrow> om | Some a \<Rightarrow> (hold (PlainMapping a) om)\<lparr>om_mmapped := True, om_testmem := a\<rparr>)
                 else om)
      in if om_mmapped om1 then om1
         else if al_memalign env = 0 then om1\<lparr>om_testmem := 0\<rparr>
         else (hold (HeapBlock (al_memalign env)) om1)\<lparr>om_testmem := al_memalign env\<rparr>)"

definition AllocateTestMem :: "int \<Rightarrow> alloc_env \<Rightarrow> os_memory \<Rightarrow> (bool \<times> os_memory) res" where
  "AllocateTestMem len env om =
     (if len < 0 then Inl AssertFailed
      else let om1 = (if prefer_hugepages len env then try_hugepages env om else om);
               om2 = (if \<not> om_use_hugepages om1 \<and> prefer_posix_shm len env then try_posix_shm True env om1 else om1);
               om3 = (if \<not> om_use_hugepages om2 \<and> \<not> om_use_posix_shm om2 then try_plain env om2 else om2);
               ok = (om_testmem om3 \<noteq> 0 \<or> om_dynamic om3)
           in Inr (ok, om3\<lparr>om_testmemsize := if ok then len else 0\<rparr>))"

definition FreeTestMem :: "os_memory \<Rightarrow> os_memory" where
  "FreeTestMem om =
     (if om_testmem om = 0 then om
      else let a = om_testmem om;
               om1 = (if om_use_hugepages om then release ShmSegment (release (ShmAttached a) om)
                      else if om_use_posix_shm om then release ShmFile (if om_dynamic om then om else release (ShmMapping a) om)
                      else if om_mmapped om then release (PlainMapping a) om
                      else release (HeapBlock a) om)
           in om1\<lparr>om_testmem := 0, om_testmemsize := 0\<rparr>)"

text \<open>The state before the allocation.\<close>

definition no_memory :: os_memory where
  "no_memory = \<lparr>om_use_hugepages = False, om_use_posix_shm = False, om_dynamic = False, om_mmapped = False, om_testmem = 0, om_testmemsize = 0,
     om_live = []\<rparr>"

section \<open>Memory modules\<close>

definition parity :: "u32 \<Rightarrow> nat" where
  "parity w = length (filter (bit w) [0..<32]) mod 2"

text \<open>The name of the module of an address; \<open>None\<close> if no channels were given.\<close>

definition FindDimm :: "string list list \<Rightarrow> u64 \<Rightarrow> int \<Rightarrow> u64 \<Rightarrow> string option res" where
  "FindDimm channels channel_hash channel_width addr =
     (if channels = [] then Inr None
      else let low = ucast (addr AND channel_hash) :: u32; high = ucast (drop_bit 32 (addr AND channel_hash)) :: u32;
               c = parity high XOR parity low
           in if length channels \<le> c then Inl OutOfBounds
              else let channel = channels ! c; bytes = nat (channel_width div 8)
                   in if length channel = 0 \<or> bytes = 0 \<or> bytes div length channel = 0 then Inl DivisionByZero
                      else let chip = unat addr mod bytes div (bytes div length channel)
                           in if length channel \<le> chip then Inl OutOfBounds else Inr (Some (channel ! chip)))"

section \<open>Properties\<close>

lemma parity_le: "parity w \<le> 1"
  by (simp add: parity_def)

lemma parity_xor_le: "parity v XOR parity w \<le> 1"
proof -
  have "parity v \<in> {0, 1}" "parity w \<in> {0, 1}" using parity_le [of v] parity_le [of w] by auto
  then show ?thesis by auto
qed

lemma parity_0 [simp]: "parity 0 = 0"
  by (simp add: parity_def)

text \<open>
  Every address has a module. For channels that \<open>ParseArgs\<close> accepts, \<open>FindDimm\<close> divides by nothing that is zero, stays in the lists and names the module
  whose bytes of the channel's width hold the address: modules of one channel have equal shares of the bytes. With one channel the hash plays no part.
\<close>

lemma find_dimm_total:
  assumes "channels_ok op" "op_channels op \<noteq> []"
  defines "bytes \<equiv> nat (op_val op ''channel_width_'' div 8)"
  shows "\<exists>c chip. FindDimm (op_channels op) (of_int (op_val op ''channel_hash_'')) (op_val op ''channel_width_'') addr =
      Inr (Some (op_channels op ! c ! chip)) \<and> c < length (op_channels op) \<and> chip < length (op_channels op ! c) \<and>
    chip * (bytes div length (op_channels op ! c)) \<le> unat addr mod bytes \<and>
    unat addr mod bytes < Suc chip * (bytes div length (op_channels op ! c)) \<and> bytes = length (op_channels op ! c) * (bytes div length (op_channels op ! c))"
proof -
  let ?cs = "op_channels op" and ?h = "of_int (op_val op ''channel_hash_'') :: u64"
  define c where "c = parity (ucast (drop_bit 32 (addr AND ?h))) XOR parity (ucast (addr AND ?h) :: u32)"
  obtain j w where jw: "length (?cs ! 0) = 2 ^ j" "op_val op ''channel_width_'' = 2 ^ w" "4 \<le> w" "j + 3 \<le> w"
    and cs: "length ?cs \<le> 2" "length ?cs = 1 \<longrightarrow> op_val op ''channel_hash_'' = 0" "\<forall>x \<in> set ?cs. length x = length (?cs ! 0)"
    using assms(1,2) unfolding channels_ok_def by blast
  have "c \<le> 1" unfolding c_def by (rule parity_xor_le)
  moreover have "c = 0" if "length ?cs = 1" using cs(2) that by (simp add: c_def)
  moreover have "length ?cs = 1 \<or> length ?cs = 2" using cs(1) assms(2) by (cases ?cs; cases "tl ?cs") auto
  ultimately have c: "c < length ?cs" by auto
  then have len: "length (?cs ! c) = 2 ^ j" using cs(3) jw(1) by simp
  obtain v where v: "w = v + 3" "j \<le> v" using jw(4) that [of "w - 3"] by simp
  have "op_val op ''channel_width_'' = 2 ^ v * 8" using jw(2) by (simp add: v(1) power_add)
  then have bytes: "bytes = 2 ^ v" by (simp add: bytes_def nat_power_eq)
  then have share: "bytes = 2 ^ j * 2 ^ (v - j)" using v(2) by (simp add: power_add [symmetric])
  then have div: "bytes div length (?cs ! c) = 2 ^ (v - j)" by (simp add: len)
  define chip where "chip = unat addr mod bytes div 2 ^ (v - j)"
  have "unat addr mod bytes < 2 ^ j * 2 ^ (v - j)" using share bytes by simp
  then have chip: "chip < 2 ^ j" by (simp add: chip_def less_mult_imp_div_less)
  have "FindDimm ?cs ?h (op_val op ''channel_width_'') addr = Inr (Some (?cs ! c ! chip))"
    unfolding FindDimm_def Let_def c_def [symmetric] bytes_def [symmetric] div chip_def [symmetric] using assms(2) c chip len share by simp
  moreover have "chip * 2 ^ (v - j) \<le> unat addr mod bytes" unfolding chip_def by (rule div_times_less_eq_dividend)
  moreover have "unat addr mod bytes < Suc chip * 2 ^ (v - j)" unfolding chip_def using dividend_less_div_times [of "2 ^ (v - j)" "unat addr mod bytes"] by simp
  ultimately show ?thesis using c chip len div share by (intro exI [of _ c] exI [of _ chip]) simp
qed

text \<open>
  What is left for the system. Without huge pages the size that is tested is not negative and not more than the memory, and it leaves the reserve
  that was asked for whenever the memory is larger than that.
\<close>

lemma free_size_bounds:
  assumes "0 < mi_pages mi" "0 < mi_pagesize mi" "mi_pagesize mi \<le> 2 ^ 30" "hugepage_bytes (mi_hugepages mi) \<le> 0"
  defines "all_bytes \<equiv> mi_pages mi * mi_pagesize mi" and "reserve \<equiv> mi_reserve_mb mi * kMegabyte"
  shows "\<exists>size. FindFreeMemSize mi 0 = Inr (size, size) \<and> 0 \<le> size \<and> size \<le> all_bytes \<and> (0 < reserve \<and> reserve \<le> all_bytes \<longrightarrow> size \<le> all_bytes - reserve)"
proof -
  let ?p = "mi_pages mi" and ?g = "mi_pagesize mi"
  have part: "0 \<le> ?p * k div 100 * ?g" "?p * k div 100 * ?g \<le> all_bytes" "all_bytes * k - 100 * ?g \<le> 100 * (?p * k div 100 * ?g)" if "0 \<le> k" "k \<le> 100" for k
  proof -
    have "?p * k div 100 \<le> ?p * 100 div 100" using that assms(1) by (intro zdiv_mono1 mult_left_mono) simp_all
    then have "?p * k div 100 \<le> ?p" "0 \<le> ?p * k div 100" using that assms(1) by (simp_all add: pos_imp_zdiv_nonneg_iff)
    then show "0 \<le> ?p * k div 100 * ?g" "?p * k div 100 * ?g \<le> all_bytes" using assms(2) by (simp_all add: all_bytes_def mult_right_mono)
    have "?p * k - 100 \<le> 100 * (?p * k div 100)" by presburger
    then have "(?p * k - 100) * ?g \<le> 100 * (?p * k div 100) * ?g" using assms(2) by (intro mult_right_mono) simp_all
    then show "all_bytes * k - 100 * ?g \<le> 100 * (?p * k div 100 * ?g)" by (simp add: all_bytes_def algebra_simps)
  qed
  define minsize where "minsize = (if all_bytes < 2048 * kMegabyte then ?p * 85 div 100 * ?g else ?p * 95 div 100 * ?g - 192 * kMegabyte)"
  have min: "0 \<le> minsize" "minsize \<le> all_bytes" using part [of 85] part [of 95] assms(3) by (auto simp: minsize_def kMegabyte_def)
  have "plain_minsize mi = (if 0 < mi_reserve_mb mi \<and> reserve \<le> all_bytes \<and> all_bytes - minsize < reserve then all_bytes - reserve else minsize)"
    by (simp add: plain_minsize_def minsize_def all_bytes_def reserve_def Let_def)
  moreover have "FindFreeMemSize mi 0 = Inr (plain_minsize mi, plain_minsize mi)" using assms(1,2,4) by (auto simp: FindFreeMemSize_def Let_def)
  moreover have "0 < reserve \<longleftrightarrow> 0 < mi_reserve_mb mi" by (simp add: reserve_def kMegabyte_def)
  ultimately show ?thesis using min by auto
qed

lemma try_plain_free:
  assumes "\<not> om_use_hugepages om" "\<not> om_use_posix_shm om" "\<not> om_mmapped om" "om_testmem om = 0" "al_mmap env \<noteq> Some 0"
  shows "om_live (FreeTestMem ((try_plain env om)\<lparr>om_testmemsize := n\<rparr>)) = om_live om" "om_dynamic (try_plain env om) = om_dynamic om"
  using assms by (auto simp: try_plain_def FreeTestMem_def hold_def release_def Let_def split: option.splits)

text \<open>
  C22. Test memory is freed, except shared memory objects. \<open>AllocateTestMem\<close> succeeds exactly if it has an address or maps as needed, and a 64-bit process
  never maps as needed. After \<open>FreeTestMem\<close> the process holds nothing of what it got, except the shared memory object, which stays open in every case
  in which it was opened (when it is mapped as needed there is no address, and \<open>FreeTestMem\<close> returns at once), and a segment the kernel
  refused to remove.
\<close>

theorem test_memory_freed:
  assumes "0 \<le> len" "al_shmat env \<noteq> Some 0" "al_mmap env \<noteq> Some 0"
  shows "\<exists>ok om. AllocateTestMem len env no_memory = Inr (ok, om) \<and> (ok \<longleftrightarrow> om_testmem om \<noteq> 0 \<or> om_dynamic om) \<and>
    om_testmemsize om = (if ok then len else 0) \<and> (al_address_mode env = 64 \<longrightarrow> \<not> om_dynamic om) \<and>
    om_live (FreeTestMem om) =
      (if prefer_posix_shm len env then (if al_shm_open env then [ShmFile] else [])
       else if prefer_hugepages len env \<and> al_shmget env \<and> al_shmat env = None \<and> \<not> al_rmid env then [ShmSegment] else [])"
proof -
  define om2 where "om2 = (if prefer_posix_shm len env then try_posix_shm True env no_memory
    else if prefer_hugepages len env then try_hugepages env no_memory else no_memory)"
  define om3 where "om3 = (if \<not> om_use_hugepages om2 \<and> \<not> om_use_posix_shm om2 then try_plain env om2 else om2)"
  have not_both: "\<not> (prefer_posix_shm len env \<and> prefer_hugepages len env)" by (simp add: prefer_hugepages_def)
  have hp: "om_use_hugepages no_memory = False" by (simp add: no_memory_def)
  have alloc: "AllocateTestMem len env no_memory =
      Inr (om_testmem om3 \<noteq> 0 \<or> om_dynamic om3, om3\<lparr>om_testmemsize := if om_testmem om3 \<noteq> 0 \<or> om_dynamic om3 then len else 0\<rparr>)"
    using assms(1) not_both hp unfolding AllocateTestMem_def Let_def om3_def om2_def by (auto simp: try_hugepages_def hold_def split: option.splits)
  have "om_live (FreeTestMem (om3\<lparr>om_testmemsize := n\<rparr>)) =
      (if prefer_posix_shm len env then (if al_shm_open env then [ShmFile] else [])
       else if prefer_hugepages len env \<and> al_shmget env \<and> al_shmat env = None \<and> \<not> al_rmid env then [ShmSegment] else []) \<and>
      (al_address_mode env = 64 \<longrightarrow> \<not> om_dynamic om3)" for n
  proof (cases "om_use_hugepages om2 \<or> om_use_posix_shm om2")
    case True
    then have om3: "om3 = om2" by (auto simp: om3_def)
    show ?thesis
    proof (cases "prefer_posix_shm len env")
      case posix: True
      then have "om2 = (if al_shm_open env \<and> al_ftruncate env then (hold ShmFile no_memory)\<lparr>om_dynamic := True, om_use_posix_shm := True, om_testmem := 0\<rparr>
          else if al_shm_open env then hold ShmFile no_memory else no_memory)" by (simp add: om2_def try_posix_shm_def Let_def)
      moreover have "al_shm_open env \<and> al_ftruncate env"
        using True posix by (auto simp: om2_def try_posix_shm_def hold_def no_memory_def Let_def split: if_split_asm)
      ultimately have om2: "om2 = (hold ShmFile no_memory)\<lparr>om_dynamic := True, om_use_posix_shm := True, om_testmem := 0\<rparr>" by simp
      have "al_address_mode env \<noteq> 64" using posix by (simp add: prefer_posix_shm_def)
      then show ?thesis using posix \<open>al_shm_open env \<and> al_ftruncate env\<close> by (simp add: om3 om2 FreeTestMem_def hold_def no_memory_def)
    next
      case huge: False
      then obtain a where a: "prefer_hugepages len env" "al_shmget env" "al_shmat env = Some a"
        using True by (auto simp: om2_def try_hugepages_def hold_def no_memory_def split: if_split_asm option.split_asm)
      then have om2: "om2 = (hold (ShmAttached a) (hold ShmSegment no_memory))\<lparr>om_use_hugepages := True, om_testmem := a\<rparr>"
        using huge by (simp add: om2_def try_hugepages_def)
      have "a \<noteq> 0" using assms(2) a(3) by auto
      then show ?thesis using huge a by (simp add: om3 om2 FreeTestMem_def hold_def release_def no_memory_def Let_def)
    qed
  next
    case False
    then have om2: "\<not> om_mmapped om2" "om_testmem om2 = 0" "\<not> om_dynamic om2"
      by (auto simp: om2_def try_posix_shm_def try_hugepages_def hold_def no_memory_def Let_def split: option.splits if_splits)
    have live: "om_live om2 = (if prefer_posix_shm len env then (if al_shm_open env then [ShmFile] else [])
       else if prefer_hugepages len env \<and> al_shmget env \<and> al_shmat env = None \<and> \<not> al_rmid env then [ShmSegment] else [])"
      using False by (auto simp: om2_def try_posix_shm_def try_hugepages_def hold_def no_memory_def Let_def split: option.splits if_splits)
    show ?thesis using False try_plain_free [of om2 env] om2 assms(3) live by (simp add: om3_def)
  qed
  then show ?thesis unfolding alloc
    by (intro exI [of _ "om_testmem om3 \<noteq> 0 \<or> om_dynamic om3"]
        exI [of _ "om3\<lparr>om_testmemsize := if om_testmem om3 \<noteq> 0 \<or> om_dynamic om3 then len else 0\<rparr>"] conjI) simp_all
qed

section \<open>Concrete instances\<close>

definition ex_alloc :: alloc_env where
  "ex_alloc = \<lparr>al_address_mode = 64, al_hugepages = (0, []), al_pagesize = 4096, al_shmget = False, al_shmat = None, al_rmid = True,
     al_shm_open = True, al_ftruncate = True, al_mmap_shm = None, al_mmap = Some 0x10000, al_memalign = 0\<rparr>"

theorem test_memory_freed_witness:
  "\<exists>om. AllocateTestMem 1048576 ex_alloc no_memory = Inr (om_testmem om \<noteq> 0 \<or> om_dynamic om, om) \<and> om_live (FreeTestMem om) = []"
proof -
  have "\<not> prefer_posix_shm 1048576 ex_alloc" "\<not> prefer_hugepages 1048576 ex_alloc"
    by (simp_all add: ex_alloc_def prefer_posix_shm_def prefer_hugepages_def hugepage_bytes_def FindHugePages_def)
  then show ?thesis using test_memory_freed [of 1048576 ex_alloc] by (auto simp: ex_alloc_def)
qed

end
