(* ===== verification/FinalCheck.thy ===== *)
theory FinalCheck
  imports MemTest
begin

text \<open>
  The final check: \<open>CheckThread\<close> workers in the phase \<open>final_check\<close> (\<open>Sat::RunFinalCheck\<close> starts them when the run is over) drain
  the valid pages. Whatever single wrong words the memory holds by then, they find all of them: the errors they count are exactly the
  wrong words and tags of the valid pages.
\<close>

section \<open>What is still to be found\<close>

text \<open>The wrong words and tags of a page, and the pages a check finds them all in.\<close>

definition wrong_in :: "settings \<Rightarrow> Pattern list \<Rightarrow> u64 list \<Rightarrow> page_entry \<Rightarrow> nat" where
  "wrong_in sc pats mem pe =
     wrong_tags (sc_cfg sc) (page_addr sc (pe_offset pe)) (load_page sc pe mem) 0 (page_words sc) +
     bad_words (sc_cfg sc) (pat_of pats pe) (page_addr sc (pe_offset pe)) (load_page sc pe mem) 0 (page_words sc)"

definition checkable :: "settings \<Rightarrow> Pattern list \<Rightarrow> u64 list \<Rightarrow> page_entry \<Rightarrow> bool" where
  "checkable sc pats mem pe \<longleftrightarrow> (\<exists>k<length pats. pe_pattern pe = Some k \<and>
     block_limit (sc_cfg sc) (pats ! k) (page_addr sc (pe_offset pe)) (load_page sc pe mem))"

lemma wrong_in_cong:
  "pe_offset pe' = pe_offset pe \<Longrightarrow> pe_pattern pe' = pe_pattern pe \<Longrightarrow>
     wrong_in sc pats mem pe' = wrong_in sc pats mem pe \<and> checkable sc pats mem pe' = checkable sc pats mem pe"
  "load_page sc pe mem' = load_page sc pe mem \<Longrightarrow>
     wrong_in sc pats mem' pe = wrong_in sc pats mem pe \<and> checkable sc pats mem' pe = checkable sc pats mem pe"
  by (simp_all add: wrong_in_def checkable_def load_page_def page_start_def pat_of_def)

definition mem_ok :: "settings \<Rightarrow> nat \<Rightarrow> sat \<Rightarrow> bool" where
  "mem_ok sc N s \<longleftrightarrow> geometry sc N (sat_mem s) \<and> pl_ok (sat_patternlist s) \<and>
     (\<forall>e \<in># pool_avail True (sat_pool s). checkable sc (patterns (sat_patternlist s)) (sat_mem s) e)"

fun waiting :: "pc \<Rightarrow> page_entry list" where
  "waiting (HavePage pe) = [pe]"
| "waiting _ = []"

fun final_pc :: "settings \<Rightarrow> nat \<Rightarrow> Pattern list \<Rightarrow> u64 list \<Rightarrow> pc \<Rightarrow> bool" where
  "final_pc sc N pats mem (HavePage pe) \<longleftrightarrow> mapped sc N pe \<and> checkable sc pats mem pe"
| "final_pc sc N pats mem (Processed pe) \<longleftrightarrow> mapped sc N pe"
| "final_pc sc N pats mem LoopHead \<longleftrightarrow> True"
| "final_pc sc N pats mem (Finished ok) \<longleftrightarrow> ok"
| "final_pc sc N pats mem _ \<longleftrightarrow> False"

definition to_find :: "settings \<Rightarrow> thread \<Rightarrow> sat \<Rightarrow> int" where
  "to_find sc th s = th_errorcount th + int (sum_list (map (wrong_in sc (patterns (sat_patternlist s)) (sat_mem s)) (waiting (th_pc th))))"

definition in_pool :: "settings \<Rightarrow> sat \<Rightarrow> int" where
  "in_pool sc s = int (\<Sum>e \<in># pool_avail True (sat_pool s). wrong_in sc (patterns (sat_patternlist s)) (sat_mem s) e)"

fun final_left :: "pc \<Rightarrow> nat" where
  "final_left (HavePage pe) = 3"
| "final_left (Processed pe) = 2"
| "final_left LoopHead = 1"
| "final_left _ = 0"

definition final_pre :: "settings \<Rightarrow> nat \<Rightarrow> u64 multiset \<Rightarrow> thread \<Rightarrow> sat \<Rightarrow> bool" where
  "final_pre sc N Others th s \<longleftrightarrow> pool_inv (all_pages sc N) (sat_pool s) (held_offsets th + Others) \<and> mem_ok sc N s \<and>
     th_kind th = CheckThread ''final_check'' \<and> final_pc sc N (patterns (sat_patternlist s)) (sat_mem s) (th_pc th) \<and>
     (th_pc th = Finished True \<longrightarrow> pool_avail True (sat_pool s) = {#})"

definition final_frame :: "settings \<Rightarrow> u64 multiset \<Rightarrow> thread \<Rightarrow> sat \<Rightarrow> thread \<Rightarrow> sat \<Rightarrow> bool" where
  "final_frame sc Others th s th' s' \<longleftrightarrow>
     (\<forall>pe. pe_offset pe \<in># Others \<longrightarrow> load_page sc pe (sat_mem s') = load_page sc pe (sat_mem s)) \<and>
     sat_patternlist s' = sat_patternlist s \<and> to_find sc th' s' + in_pool sc s' = to_find sc th s + in_pool sc s \<and>
     3 * size (pool_avail True (sat_pool s')) + final_left (th_pc th') \<le> 3 * size (pool_avail True (sat_pool s)) + final_left (th_pc th) - 1 \<and>
     size (pool_avail True (sat_pool s')) \<le> size (pool_avail True (sat_pool s))"

lemmas final_defs = final_pre_def final_frame_def held_offsets_def to_find_def

lemma in_pool_cong:
  assumes "\<And>e. e \<in># pool_avail True (sat_pool s) \<Longrightarrow> load_page sc e (sat_mem s') = load_page sc e (sat_mem s)"
    and "sat_pool s' = sat_pool s" "sat_patternlist s' = sat_patternlist s" "geometry sc N (sat_mem s')"
  shows "in_pool sc s' = in_pool sc s" "mem_ok sc N s \<Longrightarrow> mem_ok sc N s'"
proof -
  note same = wrong_in_cong(2) [OF assms(1), of _ "patterns (sat_patternlist s)"]
  have "image_mset (wrong_in sc (patterns (sat_patternlist s)) (sat_mem s')) (pool_avail True (sat_pool s)) =
      image_mset (wrong_in sc (patterns (sat_patternlist s)) (sat_mem s)) (pool_avail True (sat_pool s))"
    using same by (intro image_mset_cong) blast
  then show "in_pool sc s' = in_pool sc s" by (simp add: in_pool_def assms(2,3))
  show "mem_ok sc N s \<Longrightarrow> mem_ok sc N s'" using same assms(2-4) by (auto simp: mem_ok_def)
qed

lemma final_check_page:
  assumes pre: "final_pre sc N Others th s" and pc: "th_pc th = HavePage pe"
  shows "\<exists>th' s'. CheckThread_step sc env ''final_check'' (th, s) = Inr (th', s') \<and> final_pre sc N Others th' s' \<and>
    final_frame sc Others th s th' s'"
proof -
  let ?pats = "patterns (sat_patternlist s)"
  have kind: "th_kind th = CheckThread ''final_check''" and geo: "geometry sc N (sat_mem s)" and pl: "pl_ok (sat_patternlist s)"
    and pe: "mapped sc N pe" and inv: "pool_inv (all_pages sc N) (sat_pool s) (add_mset (pe_offset pe) Others)"
    and ok: "mem_ok sc N s"
    using pre pc by (auto simp: final_defs mem_ok_def)
  obtain k where k: "pe_pattern pe = Some k" "k < length ?pats"
    "block_limit (sc_cfg sc) (?pats ! k) (pe_addr pe) (load_page sc pe (sat_mem s))"
    using pre pc pe by (auto simp: final_pre_def checkable_def mapped_def)
  let ?phase = "if th_draining th then ''final_check'' else ''final_check''"
  obtain errors th1 s1 where c: "check_page sc env ''check'' ?phase pe (th, s) = Inr (errors, th1, s1)"
    "th_errorcount th1 = th_errorcount th + int (wrong_tags (sc_cfg sc) (pe_addr pe) (load_page sc pe (sat_mem s)) 0 (page_words sc) +
       bad_words (sc_cfg sc) (?pats ! k) (pe_addr pe) (load_page sc pe (sat_mem s)) 0 (page_words sc))" "th_kind th1 = th_kind th"
    "sat_mem s1 = store_page pe (page_data (sc_cfg sc) (?pats ! k) (pe_addr pe)) (sat_mem s)"
    "sat_patternlist s1 = sat_patternlist s" "sat_pool s1 = sat_pool s"
    by (rule check_page_detects [OF geo pe pl k, of env "''check''" ?phase th])
  have wrong: "th_errorcount th1 = th_errorcount th + int (wrong_in sc ?pats (sat_mem s) pe)"
    using c(2) k(1) pe by (simp add: wrong_in_def mapped_def pat_of_def)
  let ?diag = "if th_draining th then DIAG_PHASE_FINAL_CHECK else DIAG_PHASE_RUNTIME_CHECK"
  obtain d where d: "note_operation sc env ?diag (cf_page_length (sc_cfg sc)) 0 errors th1 = th1\<lparr>th_diag := d\<rparr>"
    using note_operation_frame by blast
  have step: "CheckThread_step sc env ''final_check'' (th, s) = Inr (th1\<lparr>th_diag := d, th_pc := Processed pe\<rparr>, s1)"
    using pc c(1) d by (simp add: CheckThread_step_def Let_def)
  note dis = held_disjoint [OF geo inv]
  note frame = store_frame [OF geo dis(2) _ length_page_data [of sc "?pats ! k" "pe_addr pe"], folded c(4)]
  have others: "load_page sc e (sat_mem s1) = load_page sc e (sat_mem s)" if "pe_offset e \<in># Others" for e
    using frame [of e] dis(1,4) that by auto
  have pool: "load_page sc e (sat_mem s1) = load_page sc e (sat_mem s)" if "e \<in># pool_avail True (sat_pool s)" for e
    using frame [of e] dis(3) [OF that] by simp
  have "length (sat_mem s1) = length (sat_mem s)"
    using c(4) length_store_page page_fits [OF geo dis(2)] by (simp add: length_page_data)
  note geo1 = geometry_length [OF geo this]
  note same = in_pool_cong [OF pool c(6,5) geo1]
  show ?thesis
    using step kind pe inv others same ok wrong c(3,5,6) pc by (simp add: final_defs)
qed

lemma final_step:
  assumes stop: "\<not> cf_stop_on_error (sc_cfg sc)" and pre: "final_pre sc N Others th s" and left: "final_left (th_pc th) \<noteq> 0"
  shows "\<exists>th' s'. thread_step sc env (th, s) = Inr (th', s') \<and> final_pre sc N Others th' s' \<and> final_frame sc Others th s th' s'"
proof -
  have kind: "th_kind th = CheckThread ''final_check''" and ok: "mem_ok sc N s"
    and geo: "geometry sc N (sat_mem s)" "os_maps (sc_os sc) (cf_page_length (sc_cfg sc)) (all_pages sc N)"
    using pre geometry_os by (auto simp: final_pre_def mem_ok_def)
  have nostop: "\<not> error_stop_requested sc s'" for s' using stop by (simp add: error_stop_requested_def)
  have step: "thread_step sc env (th, s) = CheckThread_step sc env ''final_check'' (th, s)" using kind by (simp add: thread_step_def)
  show ?thesis
  proof (cases "th_pc th")
    case LoopHead
    have inv: "pool_inv (all_pages sc N) (sat_pool s) Others" using pre LoopHead by (simp add: final_defs)
    show ?thesis
    proof (rule sat_get_cases [OF inv geo(2), of True "se_call env" kDontCareTag])
      fix p assume "(if True then sat_GetValid else sat_GetEmpty) (sc_os sc) (cf_page_length (sc_cfg sc)) (se_call env) kDontCareTag (sat_pool s) = Inr (None, p)"
        "pool_inv (all_pages sc N) p Others" "pool_avail True p = pool_avail True (sat_pool s)"
        "kDontCareTag = kDontCareTag \<Longrightarrow> pool_avail True (sat_pool s) = {#}"
      then show ?thesis
        using LoopHead ok kind nostop step by (simp add: CheckThread_step_def get_valid_def final_defs mem_ok_def in_pool_def)
    next
      fix pe p e assume g: "(if True then sat_GetValid else sat_GetEmpty) (sc_os sc) (cf_page_length (sc_cfg sc)) (se_call env) kDontCareTag (sat_pool s) = Inr (Some pe, p)"
        "pool_inv (all_pages sc N) p (add_mset (pe_offset pe) Others)" "taken (sc_os sc) e pe"
        "pool_avail True (sat_pool s) = add_mset e (pool_avail True p)" "pe_offset pe \<in># all_pages sc N"
      have "pe_offset pe = pe_offset e" "pe_pattern pe = pe_pattern e" "mapped sc N pe" using g(3,5) by (auto simp: taken_def mapped_def)
      note pe = this wrong_in_cong(1) [OF this(1,2), of sc "patterns (sat_patternlist s)" "sat_mem s"]
      then show ?thesis
        using LoopHead ok kind nostop step g by (simp add: CheckThread_step_def get_valid_def final_defs mem_ok_def in_pool_def)
    qed
  next
    case (HavePage pe)
    show ?thesis using final_check_page [OF pre HavePage, of env] step by simp
  next
    case (Processed pe)
    have inv: "pool_inv (all_pages sc N) (sat_pool s) (add_mset (pe_offset pe) Others)" using pre Processed by (simp add: final_defs)
    obtain p' where "sat_PutEmpty (sc_os sc) (cf_page_length (sc_cfg sc)) (se_call env) pe (sat_pool s) = Inr (True, p')"
      "pool_inv (all_pages sc N) p' Others" "pool_avail True p' = pool_avail True (sat_pool s)"
      by (rule sat_PutEmpty_ok [OF inv geo(2), of "se_call env"])
    then show ?thesis
      using Processed ok kind step nostop
      by (simp add: CheckThread_step_def put_empty_def final_defs mem_ok_def next_round_def in_pool_def Let_def)
  qed (use pre left in \<open>simp_all add: final_pre_def\<close>)
qed

section \<open>Any interleaving\<close>

definition final_ok :: "settings \<Rightarrow> nat \<Rightarrow> thread list \<times> sat \<Rightarrow> bool" where
  "final_ok sc N = (\<lambda>(ths, s). pool_inv (all_pages sc N) (sat_pool s) (all_held ths) \<and> mem_ok sc N s \<and>
     (\<forall>th \<in> set ths. th_kind th = CheckThread ''final_check'' \<and> final_pc sc N (patterns (sat_patternlist s)) (sat_mem s) (th_pc th) \<and>
        (th_pc th = Finished True \<longrightarrow> pool_avail True (sat_pool s) = {#})))"

definition total :: "settings \<Rightarrow> thread list \<times> sat \<Rightarrow> int" where
  "total sc = (\<lambda>(ths, s). sum_list (map (\<lambda>th. to_find sc th s) ths) + in_pool sc s)"

definition budget :: "thread list \<times> sat \<Rightarrow> nat \<Rightarrow> nat" where
  "budget = (\<lambda>(ths, s) i. 3 * size (pool_avail True (sat_pool s)) + final_left (th_pc (ths ! i)))"

lemma final_cong:
  assumes "\<And>pe. pe \<in> set (held_pages (th_pc th)) \<Longrightarrow> load_page sc pe mem' = load_page sc pe (sat_mem s)"
  shows "final_pc sc N pats mem' (th_pc th) = final_pc sc N pats (sat_mem s) (th_pc th)"
    "sat_mem s' = mem' \<Longrightarrow> sat_patternlist s' = sat_patternlist s \<Longrightarrow> to_find sc th s' = to_find sc th s"
  using assms by (cases "th_pc th"; simp add: to_find_def wrong_in_def checkable_def)+

lemma final_run_step:
  assumes stop: "\<not> cf_stop_on_error (sc_cfg sc)" and ok: "final_ok sc N (ths, s)" and i: "i < length ths"
  shows "\<exists>th s'. thread_step sc env (ths ! i, s) = Inr (th, s') \<and> final_ok sc N (ths[i := th], s') \<and>
    total sc (ths[i := th], s') = total sc (ths, s) \<and> budget (ths[i := th], s') i \<le> budget (ths, s) i - 1 \<and>
    size (pool_avail True (sat_pool s')) \<le> size (pool_avail True (sat_pool s))"
proof (cases "final_left (th_pc (ths ! i)) = 0")
  case True
  have th: "th_kind (ths ! i) = CheckThread ''final_check''" "final_pc sc N (patterns (sat_patternlist s)) (sat_mem s) (th_pc (ths ! i))"
    "th_pc (ths ! i) = Finished True \<longrightarrow> pool_avail True (sat_pool s) = {#}"
    using ok i by (auto simp: final_ok_def)
  then have "th_pc (ths ! i) = Finished True" using True by (cases "th_pc (ths ! i)") simp_all
  then show ?thesis
    using th ok by (intro exI [of _ "ths ! i"] exI [of _ s]) (simp add: thread_step_def CheckThread_step_def Let_def budget_def)
next
  case False
  let ?rest = "take i ths @ drop (Suc i) ths"
  have pre: "final_pre sc N (all_held ?rest) (ths ! i) s"
    using ok i all_held_split [OF i] by (auto simp: final_ok_def final_pre_def)
  obtain th s' where step: "thread_step sc env (ths ! i, s) = Inr (th, s')" "final_pre sc N (all_held ?rest) th s'"
    "final_frame sc (all_held ?rest) (ths ! i) s th s'"
    using final_step [OF stop pre False] by blast
  let ?ths = "ths[i := th]"
  have rest: "take i ?ths @ drop (Suc i) ?ths = ?rest" by simp
  then have held: "all_held ?ths = held_offsets th + all_held ?rest" using all_held_split [of i ?ths] i by simp
  have same: "sat_patternlist s' = sat_patternlist s" "size (pool_avail True (sat_pool s')) \<le> size (pool_avail True (sat_pool s))"
    "\<And>pe. pe_offset pe \<in># all_held ?rest \<Longrightarrow> load_page sc pe (sat_mem s') = load_page sc pe (sat_mem s)"
    "to_find sc th s' + in_pool sc s' = to_find sc (ths ! i) s + in_pool sc s"
    using step(3) by (simp_all add: final_frame_def)
  have others: "final_pc sc N (patterns (sat_patternlist s)) (sat_mem s') (th_pc t) =
      final_pc sc N (patterns (sat_patternlist s)) (sat_mem s) (th_pc t)" "to_find sc t s' = to_find sc t s" if "t \<in> set ?rest" for t
  proof -
    have load: "load_page sc pe (sat_mem s') = load_page sc pe (sat_mem s)" if "pe \<in> set (held_pages (th_pc t))" for pe
      using \<open>t \<in> set ?rest\<close> that by (intro same(3)) (force simp: all_held_def held_offsets_def set_mset_sum_list)
    show "final_pc sc N (patterns (sat_patternlist s)) (sat_mem s') (th_pc t) =
      final_pc sc N (patterns (sat_patternlist s)) (sat_mem s) (th_pc t)" using final_cong(1) load by blast
    show "to_find sc t s' = to_find sc t s" using final_cong(2) [of t sc "sat_mem s'" s s'] load same(1) by blast
  qed
  have split: "sum_list (map f xs) = f (xs ! i) + sum_list (map f (take i xs @ drop (Suc i) xs))"
    if "i < length xs" for f :: "thread \<Rightarrow> int" and xs
    using that by (subst id_take_nth_drop [of i xs]) simp_all
  have map_rest: "map (\<lambda>t. to_find sc t s') ?rest = map (\<lambda>t. to_find sc t s) ?rest"
    using others(2) by (intro map_cong) auto
  have "sum_list (map (\<lambda>t. to_find sc t s') ?ths) = to_find sc th s' + sum_list (map (\<lambda>t. to_find sc t s) ?rest)"
    using split [of ?ths "\<lambda>t. to_find sc t s'"] i unfolding rest map_rest by simp
  moreover have "sum_list (map (\<lambda>t. to_find sc t s) ths) = to_find sc (ths ! i) s + sum_list (map (\<lambda>t. to_find sc t s) ?rest)"
    using split i by blast
  ultimately have tot: "total sc (?ths, s') = total sc (ths, s)" using same(4) by (simp add: total_def)
  have budget: "budget (?ths, s') i \<le> budget (ths, s) i - 1" using step(3) i by (simp add: budget_def final_frame_def)
  have mem: "t \<in> set ?ths \<Longrightarrow> t = th \<or> t \<in> set ?rest" "t \<in> set ?rest \<Longrightarrow> t \<in> set ths" for t
    using i in_set_takeD [of t i ths] in_set_dropD [of t "Suc i" ths] by (auto simp: upd_conv_take_nth_drop)
  have empty: "pool_avail True (sat_pool s) = {#} \<Longrightarrow> pool_avail True (sat_pool s') = {#}" using same(2) by simp
  have "final_ok sc N (?ths, s')"
    using step(2) held others(1) mem empty ok same(1) unfolding final_ok_def final_pre_def by simp blast
  then show ?thesis using step(1) tot budget same(2) by blast
qed

lemma final_run:
  assumes stop: "\<not> cf_stop_on_error (sc_cfg sc)"
  shows "final_ok sc N (ths, s) \<Longrightarrow>
    \<exists>ths' s'. run_threads sc es (ths, s) = Inr (ths', s') \<and> final_ok sc N (ths', s') \<and> length ths' = length ths \<and>
      total sc (ths', s') = total sc (ths, s) \<and>
      (\<forall>i<length ths. budget (ths', s') i \<le> budget (ths, s) i - own_steps es i)"
proof (induction es arbitrary: ths s)
  case (Cons e es)
  show ?case
  proof (cases "fst e < length ths")
    case True
    obtain th s1 where step: "thread_step sc (snd e) (ths ! fst e, s) = Inr (th, s1)" "final_ok sc N (ths[fst e := th], s1)"
      "total sc (ths[fst e := th], s1) = total sc (ths, s)" "budget (ths[fst e := th], s1) (fst e) \<le> budget (ths, s) (fst e) - 1"
      "size (pool_avail True (sat_pool s1)) \<le> size (pool_avail True (sat_pool s))"
      using final_run_step [OF stop Cons.prems True] by blast
    let ?ths = "ths[fst e := th]"
    obtain ths' s' where run: "run_threads sc es (?ths, s1) = Inr (ths', s')" "final_ok sc N (ths', s')" "length ths' = length ths"
      "total sc (ths', s') = total sc (ths, s)" and left: "\<And>i. i < length ths \<Longrightarrow> budget (ths', s') i \<le> budget (?ths, s1) i - own_steps es i"
      using Cons.IH [OF step(2)] step(3) by auto
    have "budget (ths', s') i \<le> budget (ths, s) i - own_steps (e # es) i" if i: "i < length ths" for i
    proof (cases "i = fst e")
      case False
      then have "budget (?ths, s1) i \<le> budget (ths, s) i" using step(5) by (simp add: budget_def)
      then show ?thesis using left [OF i] False by simp
    qed (use left [OF i] step(4) in simp)
    then show ?thesis using run step(1) True by auto
  next
    case False
    obtain ths' s' where "run_threads sc es (ths, s) = Inr (ths', s')" "final_ok sc N (ths', s')" "length ths' = length ths"
      "total sc (ths', s') = total sc (ths, s)" "\<And>i. i < length ths \<Longrightarrow> budget (ths', s') i \<le> budget (ths, s) i - own_steps es i"
      using Cons.IH [OF Cons.prems] by auto
    then show ?thesis using False by auto
  qed
qed simp

lemma final_workers_find_all:
  assumes stop: "\<not> cf_stop_on_error (sc_cfg sc)"
    and start: "pool_inv (all_pages sc N) (sat_pool s) {#}" "geometry sc N (sat_mem s)" "pl_ok (sat_patternlist s)"
    and pages: "\<forall>pe \<in># pool_avail True (sat_pool s). checkable sc (patterns (sat_patternlist s)) (sat_mem s) pe"
    and ths: "ths \<noteq> []" "\<forall>th \<in> set ths. th_pc th = LoopHead \<and> th_kind th = CheckThread ''final_check'' \<and> th_errorcount th = 0"
    and long: "\<forall>i<length ths. 3 * size (pool_avail True (sat_pool s)) + 1 \<le> own_steps es i"
  shows "\<exists>ths' s'. run_threads sc es (ths, s) = Inr (ths', s') \<and> (\<forall>th \<in> set ths'. th_pc th = Finished True) \<and>
    pool_avail True (sat_pool s') = {#} \<and> image_mset pe_offset (pool_avail False (sat_pool s')) = all_pages sc N \<and>
    sum_list (map th_errorcount ths') =
      int (\<Sum>pe \<in># pool_avail True (sat_pool s). wrong_in sc (patterns (sat_patternlist s)) (sat_mem s) pe)"
proof -
  have none: "all_held ths = {#}" "sum_list (map (\<lambda>th. to_find sc th s) ths) = 0"
    using ths(2) by (induction ths) (simp_all add: all_held_def held_offsets_def to_find_def)
  then have "final_ok sc N (ths, s)" using start pages ths(2) by (auto simp: final_ok_def mem_ok_def)
  from final_run [OF stop this, of es] obtain ths' s' where
    run: "run_threads sc es (ths, s) = Inr (ths', s')" "final_ok sc N (ths', s')" "length ths' = length ths"
    "total sc (ths', s') = total sc (ths, s)" and left: "\<And>i. i < length ths \<Longrightarrow> budget (ths', s') i \<le> budget (ths, s) i - own_steps es i"
    by auto
  have fin: "th_pc th = Finished True" if th: "th \<in> set ths'" for th
  proof -
    obtain i where i: "i < length ths" "th = ths' ! i" using th run(3) by (auto simp: in_set_conv_nth)
    have "budget (ths, s) i = 3 * size (pool_avail True (sat_pool s)) + 1" using i(1) ths(2) by (simp add: budget_def)
    then have "budget (ths', s') i = 0" using left [OF i(1)] long i(1) by auto
    then have "final_left (th_pc th) = 0" using i(2) by (simp add: budget_def)
    moreover have "final_pc sc N (patterns (sat_patternlist s')) (sat_mem s') (th_pc th)" using run(2) that by (auto simp: final_ok_def)
    ultimately show ?thesis by (cases "th_pc th") simp_all
  qed
  have "hd ths' \<in> set ths'" using ths(1) run(3) by (metis hd_in_set length_0_conv)
  then have empty: "pool_avail True (sat_pool s') = {#}" using fin run(2) by (auto simp: final_ok_def)
  have "all_held ths' = {#}" using fin by (induction ths') (simp_all add: all_held_def held_offsets_def)
  then have "image_mset pe_offset (pool_avail False (sat_pool s')) = all_pages sc N"
    using run(2) pools.partition [of "all_pages sc N" "sat_pool s'" "{#}"] empty by (simp add: final_ok_def)
  moreover have "(\<Sum>th\<leftarrow>ths'. to_find sc th s') = sum_list (map th_errorcount ths')"
    using fin by (intro arg_cong [where f = sum_list] map_cong) (simp_all add: to_find_def)
  ultimately show ?thesis using run(1,4) fin empty none(2) by (simp add: total_def in_pool_def)
qed


section \<open>Concrete instances\<close>

text \<open>A page with one wrong word.\<close>

abbreviation ex_bad_mem :: "u64 list" where
  "ex_bad_mem \<equiv> ex_mem[7 := NOT (fill_word False (ex_pats ! 3) 0x10000 7)]"

lemma ex_bad_page:
  "checkable ex_sc ex_pats ex_bad_mem (ex_pe\<lparr>pe_addr := 0\<rparr>)" "wrong_in ex_sc ex_pats ex_bad_mem (ex_pe\<lparr>pe_addr := 0\<rparr>) = 1"
  "geometry ex_sc 1 ex_bad_mem"
proof -
  note bad = ex_page_bad [of "NOT (fill_word False (ex_pats ! 3) 0x10000 7)" "ex_pats ! 3" "0x10000", OF NOT_neq, folded ex_mem_def]
  have load: "load_page ex_sc (ex_pe\<lparr>pe_addr := 0\<rparr>) ex_bad_mem = ex_bad_mem" "page_words ex_sc = 512"
    using length_ex_mem by (simp_all add: load_page_def page_start_def page_words_def ex_sc_def blank_pe_def ex_cfg_def)
  have sc: "sc_cfg ex_sc = ex_cfg" "page_addr ex_sc (pe_offset (ex_pe\<lparr>pe_addr := 0\<rparr>)) = 0x10000"
    by (simp_all add: ex_sc_def ex_os_def blank_pe_def)
  show "checkable ex_sc ex_pats ex_bad_mem (ex_pe\<lparr>pe_addr := 0\<rparr>)"
    unfolding checkable_def load sc using bad(2) by (intro exI [of _ 3]) simp
  have "pat_of ex_pats (ex_pe\<lparr>pe_addr := 0\<rparr>) = ex_pats ! 3" by (simp add: pat_of_def)
  then show "wrong_in ex_sc ex_pats ex_bad_mem (ex_pe\<lparr>pe_addr := 0\<rparr>) = 1"
    unfolding wrong_in_def load sc using bad(3,4) by simp
  show "geometry ex_sc 1 ex_bad_mem" by (rule ex_geometry) (simp add: length_ex_mem)
qed


end
