(* ===== verification/StartupTest.thy ===== *)
theory StartupTest
  imports Startup
begin

text \<open>
  Correctness of the start: the fill passes fill every page once whatever the interleaving of their workers, the check after the fill
  finds nothing on good memory, the split leaves the wanted number of empty pages, and the state it ends in is the one the
  theorems about the running workers start from.
\<close>

section \<open>Registering the pages\<close>

definition offsets_from :: "settings \<Rightarrow> nat \<Rightarrow> nat \<Rightarrow> u64 multiset" where
  "offsets_from sc i n = image_mset (\<lambda>j. of_nat j * of_int (cf_page_length (sc_cfg sc))) (mset_set {i..<i + n})"

lemma offsets_from_0 [simp]: "offsets_from sc i 0 = {#}"
  by (simp add: offsets_from_def)

lemma offsets_from_Suc:
  "offsets_from sc i (Suc n) = add_mset (of_nat i * of_int (cf_page_length (sc_cfg sc))) (offsets_from sc (i + 1) n)"
proof -
  have "{i..<i + Suc n} = insert i {i + 1..<i + 1 + n}" by auto
  then show ?thesis by (simp add: offsets_from_def)
qed

lemma all_offsets: "all_pages sc N = offsets_from sc 0 N"
  by (simp add: page_offsets_def offsets_from_def atLeast0LessThan)

abbreviation untagged :: "page_entry \<Rightarrow> bool" where
  "untagged pe \<equiv> pe_tag pe = kInvalidTag"

lemma empty_pages_ok:
  assumes "pool_inv (all_pages sc N) (sat_pool s) (offsets_from sc i n)" "geometry sc N (sat_mem s)"
    and "\<forall>e \<in># pool_avail False (sat_pool s). untagged e"
  shows "\<exists>p. empty_pages sc env garbage n i (b, s) = Inr (b, s\<lparr>sat_pool := p\<rparr>) \<and> pool_inv (all_pages sc N) p {#} \<and>
    pool_avail True p = pool_avail True (sat_pool s) \<and> (\<forall>e \<in># pool_avail False p. untagged e)"
  using assms
proof (induction n arbitrary: i s)
  case 0
  then show ?case by (intro exI [of _ "sat_pool s"]) simp
next
  case (Suc n)
  let ?pe = "(init_pe garbage)\<lparr>pe_offset := of_nat i * of_int (cf_page_length (sc_cfg sc))\<rparr>"
  have inv: "pool_inv (all_pages sc N) (sat_pool s) (add_mset (pe_offset ?pe) (offsets_from sc (i + 1) n))"
    using Suc.prems(1) by (simp add: offsets_from_Suc)
  obtain p e where p: "sat_PutEmpty (sc_os sc) (cf_page_length (sc_cfg sc)) (se_call (env i)) ?pe (sat_pool s) = Inr (True, p)"
    "pool_inv (all_pages sc N) p (offsets_from sc (i + 1) n)" "pe_tag e = pe_tag ?pe"
    "pool_avail False p = add_mset e (pool_avail False (sat_pool s))" "pool_avail True p = pool_avail True (sat_pool s)"
    by (rule sat_PutEmpty_ok [OF inv geometry_os [OF Suc.prems(2)]])
  have "put_empty sc (env i) ?pe s = Inr (True, s\<lparr>sat_pool := p\<rparr>)" using p(1) by (simp add: put_empty_def)
  moreover have "\<exists>p'. empty_pages sc env garbage n (i + 1) (b, s\<lparr>sat_pool := p\<rparr>) = Inr (b, s\<lparr>sat_pool := p\<rparr>\<lparr>sat_pool := p'\<rparr>) \<and>
      pool_inv (all_pages sc N) p' {#} \<and> pool_avail True p' = pool_avail True p \<and> (\<forall>e \<in># pool_avail False p'. untagged e)"
    using Suc.IH [of "s\<lparr>sat_pool := p\<rparr>" "i + 1"] Suc.prems(2,3) p by (simp add: init_pe_def)
  ultimately show ?case using p(5) by (auto simp: Let_def)
qed

section \<open>Touching the pages\<close>

lemma length_clear_bytes [simp]: "length (clear_bytes step len offset page) = length page"
  by (induction step len offset page rule: clear_bytes.induct) (subst clear_bytes.simps, simp add: clear_byte_def)

lemma page_number: "i < N \<Longrightarrow> of_nat i * of_int (cf_page_length (sc_cfg sc)) \<in># all_pages sc N"
  by (auto simp: page_offsets_def)

lemma prefault_ok:
  assumes "geometry sc N (sat_mem s)" "i + n \<le> N"
  shows "\<exists>mem. prefault sc garbage su env n i s = Inr (True, s\<lparr>sat_mem := mem\<rparr>) \<and> length mem = length (sat_mem s)"
  using assms
proof (induction n arbitrary: i s)
  case 0
  then show ?case by (intro exI [of _ "sat_mem s"]) simp
next
  case (Suc n)
  let ?len = "cf_page_length (sc_cfg sc)"
  let ?pe = "(init_pe garbage)\<lparr>pe_offset := of_nat i * of_int ?len\<rparr>"
  have page: "pe_offset ?pe \<in># all_pages sc N" using Suc.prems(2) page_number [of i N sc] by simp
  note os = geometry_os [OF Suc.prems(1)]
  note prep = PrepareTestMem_static [OF os page, of "se_call (env i)"]
  let ?page = "clear_bytes (nat (if su_page_size su \<le> 0 then 4096 else su_page_size su)) (nat ?len) 0 (load_page sc ?pe (sat_mem s))"
  let ?mem = "store_page ?pe ?page (sat_mem s)"
  have len: "length ?mem = length (sat_mem s)"
    using page_fits [OF Suc.prems(1) page] length_load_page [OF Suc.prems(1) page] by (intro length_store_page) simp
  obtain mem where "prefault sc garbage su env n (i + 1) (s\<lparr>sat_mem := ?mem\<rparr>) = Inr (True, s\<lparr>sat_mem := mem\<rparr>)" "length mem = length (sat_mem s)"
    using Suc.IH [of "s\<lparr>sat_mem := ?mem\<rparr>" "i + 1"] Suc.prems len geometry_length [OF Suc.prems(1) len] by auto
  then show ?case using prep os by (auto simp: Let_def ReleaseTestMem_def os_maps_def)
qed

section \<open>A fill pass\<close>

text \<open>What a page must be when a pass has filled it; and where a fill worker with \<open>n\<close> pages to fill is.\<close>

definition pass_page :: "settings \<Rightarrow> bool \<Rightarrow> sat \<Rightarrow> page_entry \<Rightarrow> bool" where
  "pass_page sc preset s pe \<longleftrightarrow> untagged pe \<and> pe_pattern pe \<noteq> None \<and>
     (\<not> preset \<longrightarrow> holds sc (patterns (sat_patternlist s)) (sat_mem s) pe)"

fun pass_pc :: "int \<Rightarrow> int \<Rightarrow> pc \<Rightarrow> bool" where
  "pass_pc n loops LoopHead \<longleftrightarrow> loops \<le> n"
| "pass_pc n loops (HavePage pe) \<longleftrightarrow> loops < n"
| "pass_pc n loops (Processed pe) \<longleftrightarrow> loops < n"
| "pass_pc n loops (Finished b) \<longleftrightarrow> b \<and> loops = n"
| "pass_pc n loops _ \<longleftrightarrow> False"

fun quota :: "thread_kind \<Rightarrow> int" where
  "quota (FillThread preset n) = n"
| "quota _ = 0"

fun pass_left :: "int \<Rightarrow> pc \<Rightarrow> nat" where
  "pass_left todo LoopHead = 3 * nat todo + 1"
| "pass_left todo (HavePage pe) = 3 * nat todo"
| "pass_left todo (Processed pe) = 3 * nat todo - 1"
| "pass_left todo _ = 0"

abbreviation todo :: "thread \<Rightarrow> int" where
  "todo th \<equiv> quota (th_kind th) - th_loops th"

definition pass_thread :: "settings \<Rightarrow> nat \<Rightarrow> bool \<Rightarrow> sat \<Rightarrow> thread \<Rightarrow> bool" where
  "pass_thread sc N preset s th \<longleftrightarrow> (\<exists>n. th_kind th = FillThread preset n) \<and> pass_pc (quota (th_kind th)) (th_loops th) (th_pc th) \<and>
     (\<forall>pe \<in> set (held_pages (th_pc th)). mapped sc N pe \<and> untagged pe) \<and> (\<forall>pe. th_pc th = Processed pe \<longrightarrow> pass_page sc preset s pe)"

definition pass_shared :: "settings \<Rightarrow> nat \<Rightarrow> bool \<Rightarrow> sat \<Rightarrow> bool" where
  "pass_shared sc N preset s \<longleftrightarrow> geometry sc N (sat_mem s) \<and> pl_ok (sat_patternlist s) \<and>
     (\<forall>e \<in># pool_avail True (sat_pool s). pass_page sc preset s e) \<and> (\<forall>e \<in># pool_avail False (sat_pool s). untagged e)"

lemma FillPageWithConstant_ok:
  assumes "length page = nat (cf_page_length cfg) div 8"
  shows "\<exists>page'. FillPageWithConstant cfg v page = Inr page' \<and> length page' = length page"
  unfolding FillPageWithConstant_def using assms by (simp add: Let_def fill_up_filled fill_steps_filled filled_def)

lemma FillPageRandom_pass:
  assumes geo: "geometry sc N mem" and pe: "mapped sc N pe" "untagged pe" and pl: "pl_ok pl" and preset: "preset \<Longrightarrow> sc_fill_preset sc \<noteq> FILL_PRESET_NONE"
  obtains pe' page pl' where "FillPageRandom sc env preset pe (load_page sc pe mem) pl = Inr (True, pe', page, pl')"
    "length page = page_words sc" "pe_offset pe' = pe_offset pe" "mapped sc N pe'" "untagged pe'" "pe_pattern pe' \<noteq> None" "pl_ok pl'"
    "patterns pl' = patterns pl" "\<not> preset \<longrightarrow> holds sc (patterns pl) (store_page pe page mem) pe'"
proof -
  have off: "pe_offset pe \<in># all_pages sc N" using pe(1) by (simp add: mapped_def)
  have len: "length (load_page sc pe mem) = nat (cf_page_length (now_cfg sc env)) div 8"
    using length_load_page [OF geo off] by (simp add: page_words_def)
  show thesis
  proof (cases preset)
    case True
    define v :: u64 where "v = (if sc_fill_preset sc = FILL_PRESET_ZERO then 0 else - 1)"
    obtain page where page: "FillPageWithConstant (now_cfg sc env) v (load_page sc pe mem) = Inr page" "length page = page_words sc"
      using FillPageWithConstant_ok [OF len, of v] len by (auto simp: page_words_def)
    have "GetPattern pl 0 = Some 0" using pl by (simp add: GetPattern_def pl_ok_def)
    then have "FillPageRandom sc env True pe (load_page sc pe mem) pl = Inr (True, pe\<lparr>pe_pattern := Some 0\<rparr>, page, pl)"
      using page(1) preset [OF True] by (cases "sc_fill_preset sc") (simp_all add: FillPageRandom_def v_def)
    note run = this page(2)
    show thesis using run that [of "pe\<lparr>pe_pattern := Some 0\<rparr>" page pl] True pe pl by (simp add: mapped_def)
  next
    case False
    obtain k pl' where k: "GetRandomPattern pl (se_random env) = Inr (Some k, pl')" "k < length (patterns pl)"
      "patterns pl' = patterns pl" "pl_ok pl'" by (rule GetRandomPattern_ok [OF pl])
    let ?pe = "pe\<lparr>pe_pattern := Some k, pe_lastcpu := se_cpu env\<rparr>"
    let ?pe' = "?pe\<lparr>pe_lastcpu := se_cpu env, pe_write_dram_frequency := se_frequency env\<rparr>"
    let ?page = "page_data (sc_cfg sc) (patterns pl' ! k) (pe_addr pe)"
    have "wf_page_pattern (patterns pl' ! k)" using k(2,3) pl by (auto simp: pl_ok_def)
    note fill = FillPage_eq [of ?pe k "patterns pl'", OF _ _ this len]
    have "pl_size pl \<noteq> 0" using pl by (auto simp: pl_ok_def)
    then have run: "FillPageRandom sc env preset pe (load_page sc pe mem) pl = Inr (True, ?pe', ?page, pl')"
      using False fill k by (simp add: FillPageRandom_def Let_def)
    have "load_page sc ?pe' (store_page pe ?page mem) = ?page"
      using store_frame [OF geo off, of ?pe' ?page] off length_page_data by simp
    then have "holds sc (patterns pl) (store_page pe ?page mem) ?pe'" using k(2,3) pe(1) by (simp add: holds_def mapped_def)
    then show thesis using that [OF run] k pe length_page_data by (simp add: mapped_def)
  qed
qed

text \<open>The step of a fill worker: \<open>R\<close> are the pages of the others.\<close>

definition pass_frame :: "settings \<Rightarrow> u64 multiset \<Rightarrow> thread \<Rightarrow> sat \<Rightarrow> thread \<Rightarrow> sat \<Rightarrow> bool" where
  "pass_frame sc R th s th' s' \<longleftrightarrow>
     (\<forall>pe. pe_offset pe \<in># R \<longrightarrow> load_page sc pe (sat_mem s') = load_page sc pe (sat_mem s)) \<and>
     patterns (sat_patternlist s') = patterns (sat_patternlist s) \<and> th_kind th' = th_kind th \<and>
     th_errorcount th' = th_errorcount th \<and> sat_shared s' = sat_shared s \<and>
     pass_left (todo th') (th_pc th') \<le> pass_left (todo th) (th_pc th) - 1 \<and>
     int (size (pool_avail True (sat_pool s'))) - th_loops th' = int (size (pool_avail True (sat_pool s))) - th_loops th"

definition pass_pre :: "settings \<Rightarrow> nat \<Rightarrow> bool \<Rightarrow> u64 multiset \<Rightarrow> thread \<Rightarrow> sat \<Rightarrow> bool" where
  "pass_pre sc N preset R th s \<longleftrightarrow> pool_inv (all_pages sc N) (sat_pool s) (held_offsets th + R) \<and> pass_shared sc N preset s \<and>
     pass_thread sc N preset s th"

abbreviation pass_step :: "settings \<Rightarrow> nat \<Rightarrow> bool \<Rightarrow> u64 multiset \<Rightarrow> thread \<Rightarrow> sat \<Rightarrow> (thread \<times> sat) res \<Rightarrow> bool" where
  "pass_step sc N preset R th s r \<equiv> \<exists>th' s'. r = Inr (th', s') \<and> pass_pre sc N preset R th' s' \<and> pass_frame sc R th s th' s'"

lemmas pass_defs = pass_pre_def pass_frame_def pass_thread_def pass_shared_def held_offsets_def

lemma pass_page_cong:
  "pass_page sc preset (s\<lparr>sat_pool := p\<rparr>) = pass_page sc preset s"
  "pass_page sc preset (s\<lparr>sat_history := h\<rparr>) = pass_page sc preset s"
  "pass_page sc preset s (pe\<lparr>pe_addr := a\<rparr>) = pass_page sc preset s pe"
  using holds_cong(1) [of "pe\<lparr>pe_addr := a\<rparr>" pe] by (auto simp: pass_page_def fun_eq_iff)

lemma pass_LoopHead:
  assumes pre: "pass_pre sc N preset R th s" and pc: "th_pc th = LoopHead" and go: "se_ready env"
    and some: "th_loops th < quota (th_kind th) \<Longrightarrow> pool_avail False (sat_pool s) \<noteq> {#}"
  shows "pass_step sc N preset R th s (FillThread_step sc env preset (quota (th_kind th)) (th, s))"
proof (cases "th_loops th < quota (th_kind th)")
  case True
  have inv: "pool_inv (all_pages sc N) (sat_pool s) R" and geo: "geometry sc N (sat_mem s)"
    and empt: "\<forall>e \<in># pool_avail False (sat_pool s). untagged e" using pre pc by (simp_all add: pass_defs)
  show ?thesis
  proof (cases rule: sat_get_cases [OF inv geometry_os [OF geo], of False "se_call env" kDontCareTag, case_names none got])
    case (none p')
    then show ?thesis using some [OF True] by simp
  next
    case (got pe p' e)
    have get: "get_empty sc env kDontCareTag s = Inr (Some pe, s\<lparr>sat_pool := p'\<rparr>)" using got(1) by (simp add: get_empty_def)
    have "untagged pe" "mapped sc N pe" using empt got(3,4,6) by (auto simp: taken_def mapped_def)
    then have "pass_pre sc N preset R (th\<lparr>th_pc := HavePage pe\<rparr>) (s\<lparr>sat_pool := p'\<rparr>)"
      using pre pc got True by (auto simp: pass_defs pass_page_cong)
    moreover have "pass_frame sc R th s (th\<lparr>th_pc := HavePage pe\<rparr>) (s\<lparr>sat_pool := p'\<rparr>)" using pc got(5) by (simp add: pass_frame_def)
    ultimately show ?thesis using pc go True get by (simp add: FillThread_step_def)
  qed
next
  case False
  then have "th_loops th = quota (th_kind th)" using pre pc by (simp add: pass_defs)
  then show ?thesis using pre pc by (auto simp: FillThread_step_def pass_defs)
qed

lemma pass_Processed:
  assumes pre: "pass_pre sc N preset R th s" and pc: "th_pc th = Processed pe"
  shows "pass_step sc N preset R th s (FillThread_step sc env preset (quota (th_kind th)) (th, s))"
proof -
  have inv: "pool_inv (all_pages sc N) (sat_pool s) (add_mset (pe_offset pe) R)" and geo: "geometry sc N (sat_mem s)"
    and page: "pass_page sc preset s pe" using pre pc by (simp_all add: pass_defs)
  then have pat: "pe_pattern pe \<noteq> None" by (simp add: pass_page_def)
  obtain p where p: "sat_PutValid (sc_os sc) (cf_page_length (sc_cfg sc)) (se_call env) pe (sat_pool s) = Inr (True, p)"
    "pool_inv (all_pages sc N) p R" "pool_avail True p = add_mset (pe\<lparr>pe_addr := 0\<rparr>) (pool_avail True (sat_pool s))"
    "pool_avail False p = pool_avail False (sat_pool s)"
    by (rule sat_PutValid_ok [OF inv geometry_os [OF geo] pat])
  have "put_valid sc env pe s = Inr (True, s\<lparr>sat_pool := p\<rparr>)" using p(1) by (simp add: put_valid_def)
  then show ?thesis
    using pre pc p(2-4) page by (auto simp: FillThread_step_def next_round_def pass_defs pass_page_cong)
qed

lemma fill_process_pass:
  assumes geo: "geometry sc N (sat_mem s)" and pl: "pl_ok (sat_patternlist s)" and pe: "mapped sc N pe" "untagged pe"
    and preset: "preset \<Longrightarrow> sc_fill_preset sc \<noteq> FILL_PRESET_NONE"
  obtains d h pe' page pl' where "fill_process sc env preset pe (th, s) =
      Inr (th\<lparr>th_diag := d, th_pc := Processed pe'\<rparr>, s\<lparr>sat_mem := store_page pe page (sat_mem s), sat_patternlist := pl', sat_history := h\<rparr>)"
    "length page = page_words sc" "pe_offset pe' = pe_offset pe" "mapped sc N pe'" "pl_ok pl'"
    "patterns pl' = patterns (sat_patternlist s)"
    "pass_page sc preset (s\<lparr>sat_mem := store_page pe page (sat_mem s), sat_patternlist := pl', sat_history := h\<rparr>) pe'"
proof -
  obtain pe' page pl' where fill: "FillPageRandom sc env preset pe (load_page sc pe (sat_mem s)) (sat_patternlist s) = Inr (True, pe', page, pl')"
    "length page = page_words sc" "pe_offset pe' = pe_offset pe" "mapped sc N pe'" "untagged pe'" "pe_pattern pe' \<noteq> None" "pl_ok pl'"
    "patterns pl' = patterns (sat_patternlist s)" "\<not> preset \<longrightarrow> holds sc (patterns (sat_patternlist s)) (store_page pe page (sat_mem s)) pe'"
    by (rule FillPageRandom_pass [OF geo pe pl preset])
  define s1 where "s1 = s\<lparr>sat_mem := store_page pe page (sat_mem s), sat_patternlist := pl'\<rparr>"
  obtain h where h: "note_write sc env (se_epoch_begin env) th (pe_offset pe')
      (if preset then BLOCK_WRITER_PRESET else BLOCK_WRITER_INITIAL_FILL) s1 = s1\<lparr>sat_history := h\<rparr>" using note_write_frame by blast
  obtain d where d: "note_operation sc env (if preset then DIAG_PHASE_PRESET_FILL else DIAG_PHASE_INITIAL_FILL) 0
      (cf_page_length (sc_cfg sc)) 0 th = th\<lparr>th_diag := d\<rparr>" using note_operation_frame by blast
  have "length (store_page pe page (sat_mem s)) = length (sat_mem s)"
    using page_fits [OF geo, of pe] pe(1) fill(2) by (intro length_store_page) (simp add: mapped_def)
  from geometry_length [OF geo this] have check: "check_page sc env ''fill'' ''immediate_check'' pe' (th2, s1\<lparr>sat_history := h\<rparr>) =
      Inr (0, th2, s1\<lparr>sat_history := h\<rparr>)" if "\<not> preset" for th2
    using fill(4,7-9) that by (intro check_page_good) (auto simp: s1_def)
  obtain d2 where d2: "note_operation sc env DIAG_PHASE_FILL_IMMEDIATE_CHECK (cf_page_length (sc_cfg sc)) 0 0 (th\<lparr>th_diag := d\<rparr>) =
      (th\<lparr>th_diag := d\<rparr>)\<lparr>th_diag := d2\<rparr>" using note_operation_frame by blast
  let ?verify = "\<not> preset \<and> \<not> error_stop_requested sc (s1\<lparr>sat_history := h\<rparr>) \<and> ShouldVerifyFilledPage sc (pe_offset pe')"
  have "fill_process sc env preset pe (th, s) =
      Inr (th\<lparr>th_diag := if ?verify then d2 else d, th_pc := Processed pe'\<rparr>, s1\<lparr>sat_history := h\<rparr>)"
  proof (cases ?verify)
    case True
    then have "\<not> preset" by blast
    then show ?thesis using True h d fill(1) by (simp add: fill_process_def Let_def s1_def [symmetric] check d2)
  next
    case False
    then show ?thesis by (simp add: fill_process_def fill(1) Let_def s1_def [symmetric] h d del: de_Morgan_conj)
  qed
  then show thesis using that fill by (simp add: s1_def pass_page_def)
qed

lemma pass_HavePage:
  assumes pre: "pass_pre sc N preset R th s" and pc: "th_pc th = HavePage pe"
    and preset: "preset \<Longrightarrow> sc_fill_preset sc \<noteq> FILL_PRESET_NONE"
  shows "pass_step sc N preset R th s (FillThread_step sc env preset (quota (th_kind th)) (th, s))"
proof -
  have inv: "pool_inv (all_pages sc N) (sat_pool s) (add_mset (pe_offset pe) R)" and geo: "geometry sc N (sat_mem s)"
    and pl: "pl_ok (sat_patternlist s)" and pe: "mapped sc N pe" "untagged pe"
    and valid: "\<And>e. e \<in># pool_avail True (sat_pool s) \<Longrightarrow> pass_page sc preset s e" using pre pc by (auto simp: pass_defs)
  obtain d h pe' page pl' where run: "fill_process sc env preset pe (th, s) =
      Inr (th\<lparr>th_diag := d, th_pc := Processed pe'\<rparr>, s\<lparr>sat_mem := store_page pe page (sat_mem s), sat_patternlist := pl', sat_history := h\<rparr>)"
    "length page = page_words sc" "pe_offset pe' = pe_offset pe" "mapped sc N pe'" "pl_ok pl'"
    "patterns pl' = patterns (sat_patternlist s)"
    "pass_page sc preset (s\<lparr>sat_mem := store_page pe page (sat_mem s), sat_patternlist := pl', sat_history := h\<rparr>) pe'"
    by (rule fill_process_pass [OF geo pl pe preset])
  define s' where "s' = s\<lparr>sat_mem := store_page pe page (sat_mem s), sat_patternlist := pl', sat_history := h\<rparr>"
  let ?th = "th\<lparr>th_diag := d, th_pc := Processed pe'\<rparr>"
  have off: "pe_offset pe \<in># all_pages sc N" using pe(1) by (simp add: mapped_def)
  note dis = held_disjoint [OF geo inv]
  have frame: "load_page sc e (sat_mem s') = load_page sc e (sat_mem s)" if "pe_offset e \<in># all_pages sc N" "pe_offset e \<noteq> pe_offset pe" for e
    using store_frame [OF geo off that(1) run(2)] that(2) by (simp add: s'_def)
  have "length (sat_mem s') = length (sat_mem s)"
    using page_fits [OF geo off] run(2) by (simp add: s'_def length_store_page)
  note geo' = geometry_length [OF geo this]
  have "pass_page sc preset s' e" if "e \<in># pool_avail True (sat_pool s)" for e
    using valid [OF that] frame [of e] dis(3) [OF that] run(6) by (auto simp: pass_page_def s'_def holds_def)
  then have "pass_pre sc N preset R ?th s'"
    using pre pc inv geo' run(3-7) by (auto simp: pass_defs s'_def pass_page_def)
  moreover have "load_page sc e (sat_mem s') = load_page sc e (sat_mem s)" if "pe_offset e \<in># R" for e
    using that dis(1,4) by (intro frame) auto
  then have "pass_frame sc R th s ?th s'"
    using pre pc run(6) by (auto simp: pass_defs s'_def)
  moreover have "FillThread_step sc env preset (quota (th_kind th)) (th, s) = Inr (?th, s')"
    using pc run(1) by (simp add: FillThread_step_def s'_def)
  ultimately show ?thesis by blast
qed

subsection \<open>Any interleaving of the workers of a pass\<close>

definition pass_ok :: "settings \<Rightarrow> nat \<Rightarrow> bool \<Rightarrow> thread list \<times> sat \<Rightarrow> bool" where
  "pass_ok sc N preset = (\<lambda>(ths, s). pool_inv (all_pages sc N) (sat_pool s) (all_held ths) \<and> pass_shared sc N preset s \<and>
     (\<forall>th \<in> set ths. pass_thread sc N preset s th) \<and> fill_balance (ths, s) = 0 \<and>
     sum_list (map (\<lambda>th. quota (th_kind th)) ths) = int N)"

lemma sum_list_less:
  fixes f g :: "'a \<Rightarrow> int"
  assumes "\<forall>x \<in> set xs. f x \<le> g x" "y \<in> set xs" "f y < g y"
  shows "sum_list (map f xs) < sum_list (map g xs)"
  using assms
proof (induction xs)
  case (Cons x xs)
  have "sum_list (map f xs) \<le> sum_list (map g xs)" using Cons.prems(1) by (intro sum_list_mono) simp
  then show ?case using Cons by (cases "y = x") (auto simp: add_less_le_mono add_le_less_mono)
qed simp

lemma size_all_held: "int (size (all_held ths)) = sum_list (map (\<lambda>th. int (length (held_pages (th_pc th)))) ths)"
  unfolding all_held_def by (induction ths) (simp_all add: held_offsets_def)

lemma size_all_pages [simp]: "size (page_offsets N len) = N"
  by (simp add: page_offsets_def)

text \<open>The workers together are to fill as many pages as there are: one that still has a page to fill finds one.\<close>

lemma pass_page_left:
  assumes ok: "pass_ok sc N preset (ths, s)" and th: "th \<in> set ths" "th_pc th = LoopHead" "th_loops th < quota (th_kind th)"
  shows "pool_avail False (sat_pool s) \<noteq> {#}"
proof
  assume none: "pool_avail False (sat_pool s) = {#}"
  have inv: "pool_inv (all_pages sc N) (sat_pool s) (all_held ths)" using ok by (simp add: pass_ok_def)
  have "size (pool_avail True (sat_pool s)) + size (all_held ths) = N"
    using arg_cong [where f = size, OF pools.partition [OF inv]] none by simp
  moreover have "sum_list (map (\<lambda>th. th_loops th + int (length (held_pages (th_pc th)))) ths) < sum_list (map (\<lambda>th. quota (th_kind th)) ths)"
  proof (rule sum_list_less [OF _ th(1)])
    show "\<forall>th \<in> set ths. th_loops th + int (length (held_pages (th_pc th))) \<le> quota (th_kind th)"
    proof
      fix t assume "t \<in> set ths"
      then have "pass_pc (quota (th_kind t)) (th_loops t) (th_pc t)" using ok by (simp add: pass_ok_def pass_thread_def)
      then show "th_loops t + int (length (held_pages (th_pc t))) \<le> quota (th_kind t)" by (cases "th_pc t") simp_all
    qed
  qed (use th in simp)
  ultimately show False using ok size_all_held [of ths] by (simp add: pass_ok_def fill_balance_def sum_list_addf)
qed

lemma pass_thread_step:
  assumes ok: "pass_ok sc N preset (ths, s)" and i: "i < length ths" and go: "se_ready env"
    and preset: "preset \<Longrightarrow> sc_fill_preset sc \<noteq> FILL_PRESET_NONE"
  shows "pass_step sc N preset (all_held (take i ths @ drop (Suc i) ths)) (ths ! i) s (thread_step sc env (ths ! i, s))"
proof -
  have th: "ths ! i \<in> set ths" using i by simp
  then obtain n where kind: "th_kind (ths ! i) = FillThread preset n" "pass_pc (quota (th_kind (ths ! i))) (th_loops (ths ! i)) (th_pc (ths ! i))"
    using ok by (auto simp: pass_ok_def pass_thread_def)
  have pre: "pass_pre sc N preset (all_held (take i ths @ drop (Suc i) ths)) (ths ! i) s"
    using ok th all_held_split [OF i] by (simp add: pass_ok_def pass_pre_def)
  note room = pass_page_left [OF ok th]
  have "pass_step sc N preset (all_held (take i ths @ drop (Suc i) ths)) (ths ! i) s
      (FillThread_step sc env preset (quota (th_kind (ths ! i))) (ths ! i, s))"
  proof (cases "th_pc (ths ! i)")
    case LoopHead
    then show ?thesis using pass_LoopHead [OF pre LoopHead go] room by blast
  next
    case (HavePage pe)
    then show ?thesis using pass_HavePage [OF pre HavePage] preset by blast
  next
    case (Processed pe)
    then show ?thesis using pass_Processed [OF pre Processed] by blast
  next
    case (Finished b)
    then show ?thesis using pre by (simp add: FillThread_step_def pass_frame_def)
  qed (use kind in simp_all)
  then show ?thesis using kind(1) by (simp add: thread_step_def)
qed

lemma pass_thread_cong:
  assumes "\<And>pe. pe \<in> set (held_pages (th_pc th)) \<Longrightarrow> load_page sc pe (sat_mem s') = load_page sc pe (sat_mem s)"
    and "patterns (sat_patternlist s') = patterns (sat_patternlist s)"
  shows "pass_thread sc N preset s' th = pass_thread sc N preset s th"
  using assms by (cases "th_pc th") (auto simp: pass_thread_def pass_page_def holds_def)

lemma pass_run_step:
  assumes ok: "pass_ok sc N preset (ths, s)" and i: "i < length ths" and go: "se_ready env"
    and preset: "preset \<Longrightarrow> sc_fill_preset sc \<noteq> FILL_PRESET_NONE"
  obtains th s' where "thread_step sc env (ths ! i, s) = Inr (th, s')" "pass_ok sc N preset (ths[i := th], s')"
    "th_errorcount th = th_errorcount (ths ! i)" "sat_shared s' = sat_shared s" "th_kind th = th_kind (ths ! i)"
    "pass_left (todo th) (th_pc th) \<le> pass_left (todo (ths ! i)) (th_pc (ths ! i)) - 1"
proof -
  let ?rest = "take i ths @ drop (Suc i) ths"
  obtain th s' where step: "thread_step sc env (ths ! i, s) = Inr (th, s')" "pass_pre sc N preset (all_held ?rest) th s'"
    "pass_frame sc (all_held ?rest) (ths ! i) s th s'"
    using pass_thread_step [OF ok i go preset] by blast
  let ?ths = "ths[i := th]"
  have held: "all_held ?ths = held_offsets th + all_held ?rest" using all_held_split [of i ?ths] i by simp
  have others: "pass_thread sc N preset s' t" if t: "t \<in> set ?rest" for t
  proof -
    have "pe_offset pe \<in># all_held ?rest" if "pe \<in> set (held_pages (th_pc t))" for pe
      using t that unfolding all_held_def held_offsets_def by (simp add: set_mset_sum_list) blast
    then have "pass_thread sc N preset s' t = pass_thread sc N preset s t"
      using step(3) by (intro pass_thread_cong) (auto simp: pass_frame_def)
    moreover have "t \<in> set ths" using t in_set_takeD [of t i ths] in_set_dropD [of t "Suc i" ths] by auto
    ultimately show ?thesis using ok by (simp add: pass_ok_def)
  qed
  have "t \<in> set ?ths \<Longrightarrow> t = th \<or> t \<in> set ?rest" for t
    using i by (auto simp: upd_conv_take_nth_drop)
  then have all: "\<forall>t \<in> set ?ths. pass_thread sc N preset s' t" using step(2) others by (auto simp: pass_pre_def)
  have "map (\<lambda>t. quota (th_kind t)) ?ths = map (\<lambda>t. quota (th_kind t)) ths"
    using i step(3) by (metis (no_types, lifting) list_update_id map_update pass_frame_def)
  moreover have "fill_balance (?ths, s') = 0"
    using ok step(3) i by (simp add: pass_ok_def fill_balance_def sum_loops_update pass_frame_def)
  ultimately have "pass_ok sc N preset (?ths, s')"
    using all ok step(2) held by (simp add: pass_ok_def pass_pre_def)
  then show thesis using that [of th s'] step(1,3) unfolding pass_frame_def by metis
qed

lemma pass_run:
  assumes preset: "preset \<longrightarrow> sc_fill_preset sc \<noteq> FILL_PRESET_NONE"
  shows "pass_ok sc N preset (ths, s) \<Longrightarrow> \<forall>e \<in> set es. se_ready (snd e) \<Longrightarrow>
    \<exists>ths' s'. run_threads sc es (ths, s) = Inr (ths', s') \<and> pass_ok sc N preset (ths', s') \<and> length ths' = length ths \<and>
      map th_errorcount ths' = map th_errorcount ths \<and> sat_shared s' = sat_shared s \<and>
      (\<forall>i<length ths. pass_left (todo (ths' ! i)) (th_pc (ths' ! i)) \<le> pass_left (todo (ths ! i)) (th_pc (ths ! i)) - own_steps es i)"
proof (induction es arbitrary: ths s)
  case (Cons e es)
  show ?case
  proof (cases "fst e < length ths")
    case True
    have go: "se_ready (snd e)" using Cons.prems(2) by simp
    obtain th s1 where step: "thread_step sc (snd e) (ths ! fst e, s) = Inr (th, s1)" "pass_ok sc N preset (ths[fst e := th], s1)"
      "th_errorcount th = th_errorcount (ths ! fst e)" "sat_shared s1 = sat_shared s" "th_kind th = th_kind (ths ! fst e)"
      "pass_left (todo th) (th_pc th) \<le> pass_left (todo (ths ! fst e)) (th_pc (ths ! fst e)) - 1"
      by (rule pass_run_step [OF Cons.prems(1) True go preset [rule_format]])
    let ?ths = "ths[fst e := th]"
    have counts: "map th_errorcount ?ths = map th_errorcount ths"
      using True step(3) by (metis list_update_id map_update nth_map)
    have ready: "\<forall>e \<in> set es. se_ready (snd e)" using Cons.prems(2) by simp
    from Cons.IH [OF step(2) ready] obtain ths' s' where run: "run_threads sc es (?ths, s1) = Inr (ths', s')" "pass_ok sc N preset (ths', s')"
      "length ths' = length ths" "map th_errorcount ths' = map th_errorcount ths" "sat_shared s' = sat_shared s"
      and left: "\<And>i. i < length ths \<Longrightarrow>
        pass_left (todo (ths' ! i)) (th_pc (ths' ! i)) \<le> pass_left (todo (?ths ! i)) (th_pc (?ths ! i)) - own_steps es i"
      unfolding counts step(4) by auto
    have "pass_left (todo (ths' ! i)) (th_pc (ths' ! i)) \<le> pass_left (todo (ths ! i)) (th_pc (ths ! i)) - own_steps (e # es) i"
      if i: "i < length ths" for i
      using left [OF i] step(6) True by (cases "i = fst e") auto
    then show ?thesis using run step(1) True by auto
  next
    case False
    then show ?thesis using Cons.IH [OF Cons.prems(1)] Cons.prems(2) by auto
  qed
qed simp

subsection \<open>\<open>RunFillPass\<close>\<close>

text \<open>The start of a pass: every page is empty. \<open>startup_ok\<close>: the pages are there, and so is a fill worker.\<close>

definition all_empty :: "settings \<Rightarrow> nat \<Rightarrow> sat \<Rightarrow> bool" where
  "all_empty sc N s \<longleftrightarrow> pool_inv (all_pages sc N) (sat_pool s) {#} \<and> geometry sc N (sat_mem s) \<and> pl_ok (sat_patternlist s) \<and>
     pool_avail True (sat_pool s) = {#} \<and> (\<forall>e \<in># pool_avail False (sat_pool s). untagged e)"

definition all_filled :: "settings \<Rightarrow> nat \<Rightarrow> bool \<Rightarrow> sat \<Rightarrow> bool" where
  "all_filled sc N preset s \<longleftrightarrow> pool_inv (all_pages sc N) (sat_pool s) {#} \<and> pass_shared sc N preset s \<and> pool_avail False (sat_pool s) = {#}"

definition startup_ok :: "startup \<Rightarrow> nat \<Rightarrow> bool" where
  "startup_ok su N \<longleftrightarrow> su_pages su = int N \<and> 1 \<le> su_fill_threads su"

text \<open>The schedule of a pass lets each worker that was created finish, and nobody tells them to stop.\<close>

definition schedule_ok :: "startup \<Rightarrow> init_env \<Rightarrow> bool \<Rightarrow> bool" where
  "schedule_ok su env preset \<longleftrightarrow> (\<forall>e \<in> set (ie_schedule env preset). se_ready (snd e)) \<and>
     (\<forall>i<nat (su_fill_threads su). ie_spawned env preset i \<longrightarrow> 3 * nat (fill_quota su (int i)) + 1 \<le> own_steps (ie_schedule env preset) i)"

lemma fill_quota_nonneg:
  assumes "startup_ok su N" "0 \<le> i" "i < su_fill_threads su"
  shows "0 \<le> fill_quota su i"
proof -
  let ?q = "su_pages su div su_fill_threads su"
  have "0 \<le> ?q" using assms by (simp add: startup_ok_def pos_imp_zdiv_nonneg_iff)
  moreover have "?q * i \<le> ?q * su_fill_threads su" using assms calculation by (intro mult_left_mono) auto
  moreover have "?q * su_fill_threads su \<le> su_pages su" using assms by (simp add: startup_ok_def minus_mod_eq_div_mult [symmetric])
  ultimately have "0 \<le> ?q" "?q * i \<le> su_pages su" by linarith+
  then show ?thesis unfolding fill_quota_def by auto
qed

text \<open>The workers of a pass are told to fill all pages, and no more.\<close>

lemma sum_fill_quota:
  assumes "startup_ok su N"
  shows "sum_list (map (\<lambda>th. quota (th_kind th)) (fill_workers sc su preset)) = int N"
proof -
  let ?q = "su_pages su div su_fill_threads su"
  obtain m where m: "nat (su_fill_threads su) = Suc m" using assms by (cases "nat (su_fill_threads su)") (auto simp: startup_ok_def)
  then have ft: "su_fill_threads su = int m + 1" by simp
  have "map (\<lambda>i. fill_quota su (int i)) [0..<m] = map (\<lambda>_. ?q) [0..<m]" using ft by (simp add: fill_quota_def)
  then have "sum_list (map (\<lambda>i. fill_quota su (int i)) [0..<m]) = int m * ?q" by (simp only: sum_list_triv length_upt) simp
  then have "sum_list (map (\<lambda>i. fill_quota su (int i)) [0..<Suc m]) = su_pages su"
    using ft by (simp add: fill_quota_def mult.commute)
  then show ?thesis using assms m by (simp add: fill_workers_def new_thread_def comp_def startup_ok_def)
qed

lemma fill_workers_nth:
  assumes "i < nat (su_fill_threads su)"
  shows "th_pc (fill_workers sc su preset ! i) = LoopHead" "th_loops (fill_workers sc su preset ! i) = 0"
    "th_kind (fill_workers sc su preset ! i) = FillThread preset (fill_quota su (int i))" "th_errorcount (fill_workers sc su preset ! i) = 0"
  using assms by (simp_all add: fill_workers_def new_thread_def)

lemma length_fill_workers [simp]: "length (fill_workers sc su preset) = nat (su_fill_threads su)"
  by (simp add: fill_workers_def)

lemma pass_start:
  assumes "startup_ok su N" "all_empty sc N s"
  shows "pass_ok sc N preset (fill_workers sc su preset, s)"
proof -
  let ?ths = "fill_workers sc su preset"
  have th: "th_pc th = LoopHead \<and> th_loops th = 0 \<and> (\<exists>n. th_kind th = FillThread preset n \<and> 0 \<le> n)" if th: "th \<in> set ?ths" for th
  proof -
    obtain i where i: "i < nat (su_fill_threads su)" "th = ?ths ! i" using th by (auto simp: in_set_conv_nth)
    then have "0 \<le> fill_quota su (int i)" using fill_quota_nonneg [OF assms(1), of "int i"] by simp
    then show ?thesis using i fill_workers_nth [OF i(1)] by simp
  qed
  have thread: "pass_thread sc N preset s th" if "th \<in> set ?ths" for th using th [OF that] by (auto simp: pass_thread_def)
  have "map held_offsets ?ths = map (\<lambda>_. {#}) ?ths" "map th_loops ?ths = map (\<lambda>_. 0) ?ths" using th by (simp_all add: held_offsets_def)
  then have "all_held ?ths = {#}" "sum_list (map th_loops ?ths) = 0" unfolding all_held_def by (simp_all only: sum_list_0)
  then show ?thesis
    using assms(2) thread sum_fill_quota [OF assms(1)] by (simp add: pass_ok_def all_empty_def pass_shared_def fill_balance_def)
qed

lemma own_steps_spawned: "spawned i \<Longrightarrow> own_steps (filter (\<lambda>e. spawned (fst e)) es) i = own_steps es i"
  unfolding filter_filter by (metis (mono_tags, lifting))

lemma pass_finished:
  assumes "pass_ok sc N preset (ths, s)" "i < length ths" "pass_left (todo (ths ! i)) (th_pc (ths ! i)) = 0"
  shows "th_pc (ths ! i) = Finished True" "todo (ths ! i) = 0"
proof -
  have "pass_pc (quota (th_kind (ths ! i))) (th_loops (ths ! i)) (th_pc (ths ! i))"
    using assms(1) nth_mem [OF assms(2)] by (simp add: pass_ok_def pass_thread_def del: nth_mem)
  then show "th_pc (ths ! i) = Finished True" "todo (ths ! i) = 0" using assms(3) by (cases "th_pc (ths ! i)"; force)+
qed

definition all_filled_part :: "settings \<Rightarrow> nat \<Rightarrow> sat \<Rightarrow> nat \<Rightarrow> bool" where
  "all_filled_part sc N s n \<longleftrightarrow> pool_inv (all_pages sc N) (sat_pool s) {#} \<and> geometry sc N (sat_mem s) \<and> pl_ok (sat_patternlist s) \<and>
     (\<forall>e \<in># pool_avail True (sat_pool s) + pool_avail False (sat_pool s). untagged e) \<and> size (pool_avail True (sat_pool s)) = n"

lemma reset_pages_ok:
  assumes "all_filled_part sc N s n" 
  shows "\<exists>s'. reset_pages sc env n i s = Inr (True, s') \<and> all_empty sc N s' \<and> sat_shared s' = sat_shared s"
  using assms
proof (induction n arbitrary: i s)
  case 0
  then show ?case by (simp add: all_filled_part_def all_empty_def)
next
  case (Suc n)
  have inv: "pool_inv (all_pages sc N) (sat_pool s) {#}" and geo: "geometry sc N (sat_mem s)"
    and tags: "\<forall>e \<in># pool_avail True (sat_pool s) + pool_avail False (sat_pool s). untagged e"
    and n: "size (pool_avail True (sat_pool s)) = Suc n" using Suc.prems by (simp_all add: all_filled_part_def)
  note os = geometry_os [OF geo]
  show ?case
  proof (cases rule: sat_get_cases [OF inv os, of True "se_call (env i)" kDontCareTag, case_names none got])
    case (none p')
    then show ?thesis using n by simp
  next
    case (got pe p e)
    have tag: "untagged pe" using tags got(3,4) by (simp add: taken_def)
    obtain p2 e2 where p2: "sat_PutEmpty (sc_os sc) (cf_page_length (sc_cfg sc)) (se_call (env i)) pe p = Inr (True, p2)"
      "pool_inv (all_pages sc N) p2 {#}" "pe_tag e2 = pe_tag pe" "pool_avail False p2 = add_mset e2 (pool_avail False p)"
      "pool_avail True p2 = pool_avail True p"
      by (rule sat_PutEmpty_ok [OF got(2) os])
    let ?s = "s\<lparr>sat_pool := p2\<rparr>"
    have "get_valid sc (env i) kDontCareTag s = Inr (Some pe, s\<lparr>sat_pool := p\<rparr>)" "put_empty sc (env i) pe (s\<lparr>sat_pool := p\<rparr>) = Inr (True, ?s)"
      using got(1) p2(1) by (simp_all add: get_valid_def put_empty_def)
    moreover have "all_filled_part sc N ?s n"
      using Suc.prems p2 got(4,5) tags tag n by (auto simp: all_filled_part_def)
    then obtain s' where "reset_pages sc env n (i + 1) ?s = Inr (True, s')" "all_empty sc N s'" "sat_shared s' = sat_shared ?s"
      using Suc.IH by blast
    ultimately show ?thesis by simp
  qed
qed

lemma RunFillPass_ok:
  assumes su: "startup_ok su N" and start: "all_empty sc N (is_sat st)" and sched: "schedule_ok su env preset"
    and preset: "preset \<longrightarrow> sc_fill_preset sc \<noteq> FILL_PRESET_NONE"
  defines "bad \<equiv> filter (\<lambda>i. \<not> ie_spawned env preset i) [0..<nat (su_fill_threads su)]"
  shows "\<exists>s. RunFillPass sc su env preset st = Inr (bad = [], st\<lparr>is_sat := s, is_statuscount := is_statuscount st + int (length bad)\<rparr>) \<and>
    sat_shared s = sat_shared (is_sat st) \<and> (bad = [] \<longrightarrow> (if preset then all_empty sc N s else all_filled sc N False s))"
proof -
  let ?sp = "ie_spawned env preset" and ?ths = "fill_workers sc su preset"
  let ?es = "filter (\<lambda>e. ?sp (fst e)) (ie_schedule env preset)"
  have ready: "\<forall>e \<in> set ?es. se_ready (snd e)" using sched by (simp add: schedule_ok_def)
  from pass_run [OF preset pass_start [OF su start] ready] obtain ths s where
    run: "run_threads sc ?es (?ths, is_sat st) = Inr (ths, s)" "pass_ok sc N preset (ths, s)" "length ths = nat (su_fill_threads su)"
      "map th_errorcount ths = map th_errorcount ?ths" "sat_shared s = sat_shared (is_sat st)"
    and left: "\<And>i. i < nat (su_fill_threads su) \<Longrightarrow>
      pass_left (todo (ths ! i)) (th_pc (ths ! i)) \<le> pass_left (todo (?ths ! i)) (th_pc (?ths ! i)) - own_steps ?es i" by auto
  have fin: "th_pc (ths ! i) = Finished True" "todo (ths ! i) = 0" if i: "i < nat (su_fill_threads su)" "?sp i" for i
  proof -
    have "3 * nat (fill_quota su (int i)) + 1 \<le> own_steps ?es i"
      unfolding own_steps_spawned [where spawned = ?sp, OF i(2)] using sched i by (simp add: schedule_ok_def)
    then have "pass_left (todo (ths ! i)) (th_pc (ths ! i)) = 0" using left [OF i(1)] fill_workers_nth [OF i(1)] by simp
    then show "th_pc (ths ! i) = Finished True" "todo (ths ! i) = 0" using pass_finished [OF run(2)] i(1) run(3) by simp_all
  qed
  have joined: "\<not> list_ex (\<lambda>i. ?sp i \<and> \<not> has_finished (ths ! i)) [0..<length ths]"
    using fin run(3) by (auto simp: list_ex_iff has_finished_def)
  have bad: "filter (\<lambda>i. \<not> ?sp i \<or> th_pc (ths ! i) = Finished False) [0..<length ths] = bad"
    unfolding bad_def run(3) using fin by (intro filter_cong) auto
  have "map th_errorcount ?ths = map (\<lambda>_. 0) ?ths" by (simp add: fill_workers_def new_thread_def)
  then have errors: "sum_list (map th_errorcount ths) = 0" unfolding run(4) by (simp only: sum_list_0)
  have filled: "all_filled_part sc N s N \<and> all_filled sc N preset s" if "bad = []"
  proof -
    have sp: "?sp i" if "i < nat (su_fill_threads su)" for i using that \<open>bad = []\<close> by (auto simp: bad_def filter_empty_conv)
    have th: "th_pc th = Finished True \<and> th_loops th = quota (th_kind th)" if "th \<in> set ths" for th
      using that fin sp run(3) by (force simp: in_set_conv_nth)
    then have "map held_offsets ths = map (\<lambda>_. {#}) ths" "map th_loops ths = map (\<lambda>th. quota (th_kind th)) ths"
      by (simp_all add: held_offsets_def)
    then have "all_held ths = {#}" "sum_list (map th_loops ths) = int N"
      using run(2) unfolding all_held_def by (simp_all only: sum_list_0 pass_ok_def split_conv)
    then have inv: "pool_inv (all_pages sc N) (sat_pool s) {#}" and n: "size (pool_avail True (sat_pool s)) = N"
      using run(2) by (simp_all add: pass_ok_def fill_balance_def)
    have "size (pool_avail False (sat_pool s)) = 0" using arg_cong [where f = size, OF pools.partition [OF inv]] n by simp
    then show ?thesis using run(2) inv n by (auto simp: all_filled_part_def all_filled_def pass_ok_def pass_shared_def pass_page_def)
  qed
  show ?thesis
  proof (cases "preset \<and> bad = []")
    case True
    have N: "nat (su_pages su) = N" using su by (simp add: startup_ok_def)
    obtain s' where "reset_pages sc (ie_reset env) N 0 s = Inr (True, s')" "all_empty sc N s'" "sat_shared s' = sat_shared s"
      using reset_pages_ok filled True by blast
    then show ?thesis using True run(1,5) joined bad errors N by (intro exI [of _ s']) (simp add: RunFillPass_def)
  next
    case False
    then show ?thesis using run(1,5) joined bad errors filled by (intro exI [of _ s]) (auto simp: RunFillPass_def)
  qed
qed

section \<open>The check after the fill\<close>

lemma filled_lookup:
  assumes inv: "pool_inv (all_pages sc N) (SAT_FINELOCK q) {#}" and none: "pool_avail False (SAT_FINELOCK q) = {#}"
    and off: "off \<in># all_pages sc N"
  shows "\<exists>e. GetValidByOffset off q = Some e \<and> e \<in># pool_avail True (SAT_FINELOCK q) \<and> pe_offset e = off"
proof -
  have q: "fl_wf q" "all_pages sc N = fl_offsets q {..<fl_q_size q}" "fl_offsets q (fl_taken q) = {#}" "fl_slots False q = {}"
    and offs: "\<forall>i<fl_q_size q. \<not> fl_locked q ! i \<longrightarrow> pe_offset (fl_pages q ! i) = offset_of q i"
    using inv none by (simp_all add: pool_inv_def fl_inv_def pool_avail_def fl_bag_def mset_set_empty_iff)
  obtain i where i: "i < fl_q_size q" "off = offset_of q i" using off unfolding q(2) by (auto simp: fl_offsets_def)
  have "fl_taken q = {}" using q(3) by (simp add: fl_offsets_def mset_set_empty_iff)
  then have slot: "i \<in> fl_slots True q" "\<not> fl_locked q ! i" using i(1) q(4) by (auto simp: fl_slots_def fl_taken_def not_pred)
  then have "page_is_valid (fl_pages q ! i)" by (simp add: fl_slots_def pred_func_def)
  then show ?thesis
    using GetValidByOffset_at [OF q(1) i(1)] offs i slot by (auto simp: pool_avail_def fl_bag_def)
qed

text \<open>A page that is checked holds its data: nothing is found and nothing changes.\<close>

lemma post_fill_fine:
  assumes ok: "all_filled sc N False s" and p: "sat_pool s = SAT_FINELOCK q" and off: "off \<in># all_pages sc N"
  shows "\<exists>d. post_fill_round sc env off (th, s) = Inr (True, th\<lparr>th_diag := d\<rparr>, s)"
proof -
  have inv: "pool_inv (all_pages sc N) (SAT_FINELOCK q) {#}" and none: "pool_avail False (SAT_FINELOCK q) = {#}"
    and shared: "pass_shared sc N False s" using ok p by (simp_all add: all_filled_def)
  then have geo: "geometry sc N (sat_mem s)" "pl_ok (sat_patternlist s)" by (simp_all add: pass_shared_def)
  obtain e where e: "GetValidByOffset off q = Some e" "e \<in># pool_avail True (SAT_FINELOCK q)" "pe_offset e = off"
    using filled_lookup [OF inv none off] by blast
  let ?pe = "e\<lparr>pe_addr := page_addr sc off, pe_ts := ev_timestamp (se_call env), pe_lastpattern := pe_pattern e\<rparr>"
  note os = geometry_os [OF geo(1)]
  have get: "GetValidByOffsetForInitialization (sc_os sc) (cf_page_length (sc_cfg sc)) (se_call env) off (sat_pool s) = Inr (Some ?pe)"
    using PrepareTestMem_static [OF os off, of "se_call env"] e by (simp add: GetValidByOffsetForInitialization_def p)
  have "holds sc (patterns (sat_patternlist s)) (sat_mem s) ?pe"
    using shared e p holds_cong(1) [of ?pe e] by (auto simp: pass_shared_def pass_page_def)
  then have "check_page sc env ''post_fill'' ''full_check'' ?pe (th, s) = Inr (0, th, s)"
    using geo off e(3) by (intro check_page_good) (auto simp: mapped_def)
  moreover obtain d where "note_operation sc env DIAG_PHASE_POST_FILL_CHECK (cf_page_length (sc_cfg sc)) 0 0 th = th\<lparr>th_diag := d\<rparr>"
    using note_operation_frame by blast
  ultimately show ?thesis
    using get os by (intro exI [of _ d]) (simp add: post_fill_round_def coarse_grain_queue_def p Let_def ReleaseInitializationPage_def ReleaseTestMem_def os_maps_def)
qed

text \<open>With the one-lock queues the pages that are checked wait in the queue of empty pages.\<close>

definition parked :: "settings \<Rightarrow> nat \<Rightarrow> sat \<Rightarrow> nat \<Rightarrow> bool" where
  "parked sc N s n \<longleftrightarrow> pool_inv (all_pages sc N) (sat_pool s) {#} \<and> geometry sc N (sat_mem s) \<and> pl_ok (sat_patternlist s) \<and>
     coarse_grain_queue s \<and> (\<forall>e \<in># pool_avail True (sat_pool s) + pool_avail False (sat_pool s). pass_page sc False s e) \<and>
     size (pool_avail False (sat_pool s)) = n"

lemma pool_get_coarse:
  "pool_get ev want tag p = Inr (r, p') \<Longrightarrow> (\<exists>v e. p = SAT_ONELOCK v e) = (\<exists>v e. p' = SAT_ONELOCK v e)"
  unfolding pool_get_def res_bind_def by (auto split: pool.splits sum.splits)

lemma get_valid_coarse:
  assumes "get_valid sc env tag s = Inr (r, s')"
  shows "coarse_grain_queue s' = coarse_grain_queue s"
proof -
  have c: "coarse_grain_queue x \<longleftrightarrow> (\<exists>v e. sat_pool x = SAT_ONELOCK v e)" for x by (simp add: coarse_grain_queue_def split: pool.splits)
  have "\<exists>r'. pool_get (se_call env) True tag (sat_pool s) = Inr (r', sat_pool s')"
    using assms by (cases "pool_get (se_call env) True tag (sat_pool s)")
      (auto simp: get_valid_def sat_GetValid_def res_bind_def split: sum.splits option.splits if_splits)
  then show ?thesis using pool_get_coarse unfolding c by blast
qed

lemma Hold_ok:
  assumes inv: "pool_inv pages (SAT_ONELOCK v e) (add_mset (pe_offset pe) R)" and os: "os_maps os len pages"
  obtains e' where "HoldInitializationPage os len ev pe (SAT_ONELOCK v e) = Inr (True, SAT_ONELOCK v e')" "pool_inv pages (SAT_ONELOCK v e') R"
    "pool_avail False (SAT_ONELOCK v e') = add_mset (pe\<lparr>pe_addr := 0\<rparr>) (pool_avail False (SAT_ONELOCK v e))"
proof -
  have one: "one_inv pages (v, e) (add_mset (pe_offset pe) R)" using inv by (simp add: pool_inv_def)
  then have q: "q_inv e" by (simp add: one_inv_def)
  obtain e' where "Push (pe\<lparr>pe_addr := 0\<rparr>) e = (True, e')" "q_inv e'" "q_cap e' = q_cap e" "q_bag e' = add_mset (pe\<lparr>pe_addr := 0\<rparr>) (q_bag e)"
    using push_room [OF q one_room(2) [OF one]] by blast
  then show thesis using that [of e'] one unmap_static [OF os, of ev pe]
    by (simp add: HoldInitializationPage_def pool_inv_def one_inv_def pool_avail_def one_bag_def)
qed

lemma post_fill_coarse:
  assumes ok: "parked sc N s n" and more: "n < N"
  shows "\<exists>d s'. post_fill_round sc env off (th, s) = Inr (True, th\<lparr>th_diag := d\<rparr>, s') \<and> parked sc N s' (n + 1) \<and> sat_shared s' = sat_shared s"
proof -
  have inv: "pool_inv (all_pages sc N) (sat_pool s) {#}" and geo: "geometry sc N (sat_mem s)" "pl_ok (sat_patternlist s)"
    and coarse: "coarse_grain_queue s" and n: "size (pool_avail False (sat_pool s)) = n"
    and both: "\<forall>e \<in># pool_avail True (sat_pool s) + pool_avail False (sat_pool s). pass_page sc False s e"
    using ok by (simp_all add: parked_def)
  have pages: "pass_page sc False s e" if "e \<in># pool_avail want (sat_pool s)" for e want using that both by (cases want) simp_all
  note os = geometry_os [OF geo(1)]
  show ?thesis
  proof (cases rule: sat_get_cases [OF inv os, of True "se_call env" kDontCareTag, case_names none got])
    case (none p')
    then show ?thesis using arg_cong [where f = size, OF pools.partition [OF inv]] n more by simp
  next
    case (got pe p e)
    have get: "get_valid sc env kDontCareTag s = Inr (Some pe, s\<lparr>sat_pool := p\<rparr>)" using got(1) by (simp add: get_valid_def)
    then have "coarse_grain_queue (s\<lparr>sat_pool := p\<rparr>)" using coarse get_valid_coarse by blast
    then obtain v m where p: "p = SAT_ONELOCK v m" by (auto simp: coarse_grain_queue_def split: pool.splits)
    have page: "pass_page sc False s pe" "mapped sc N pe"
      using pages [of e True] got(3,4,6) holds_cong(1) [of pe e] by (auto simp: pass_page_def taken_def mapped_def)
    obtain m' where hold: "HoldInitializationPage (sc_os sc) (cf_page_length (sc_cfg sc)) (se_call env) pe p = Inr (True, SAT_ONELOCK v m')"
      "pool_inv (all_pages sc N) (SAT_ONELOCK v m') {#}"
      "pool_avail False (SAT_ONELOCK v m') = add_mset (pe\<lparr>pe_addr := 0\<rparr>) (pool_avail False p)"
      unfolding p using got(2) p by (metis Hold_ok os)
    let ?s = "s\<lparr>sat_pool := SAT_ONELOCK v m'\<rparr>"
    have "check_page sc env ''post_fill'' ''full_check'' pe (th, s\<lparr>sat_pool := p\<rparr>) = Inr (0, th, s\<lparr>sat_pool := p\<rparr>)"
      using geo page by (intro check_page_good) (auto simp: pass_page_def)
    moreover obtain d where "note_operation sc env DIAG_PHASE_POST_FILL_CHECK (cf_page_length (sc_cfg sc)) 0 0 th = th\<lparr>th_diag := d\<rparr>"
      using note_operation_frame by blast
    ultimately have "post_fill_round sc env off (th, s) = Inr (True, th\<lparr>th_diag := d\<rparr>, ?s)"
      using get coarse hold(1) by (simp add: post_fill_round_def Let_def)
    moreover have same: "pool_avail True (SAT_ONELOCK v m') = pool_avail True p" by (simp add: p pool_avail_def one_bag_def)
    have "parked sc N ?s (n + 1)"
      unfolding parked_def
      using hold(2,3) geo same both got(4,5) page(1) n by (simp add: coarse_grain_queue_def pass_page_cong)
    ultimately show ?thesis by (intro exI [of _ d] exI [of _ ?s]) simp
  qed
qed

lemma post_fill_loop_fine:
  assumes ok: "all_filled sc N False s" and p: "sat_pool s = SAT_FINELOCK q"
  shows "i + n \<le> N \<Longrightarrow> \<exists>d c. post_fill_loop sc env n i (th, s) = Inr (True, c, th\<lparr>th_diag := d\<rparr>, s)"
proof (induction n arbitrary: i th)
  case 0
  then show ?case by (auto intro!: exI [of _ "th_diag th"])
next
  case (Suc n)
  let ?off = "of_nat i * of_int (cf_page_length (sc_cfg sc))"
  obtain d where d: "post_fill_round sc (env i) ?off (th, s) = Inr (True, th\<lparr>th_diag := d\<rparr>, s)"
    using post_fill_fine [OF ok p] page_number [of i N sc] Suc.prems by fastforce
  obtain d' c where "post_fill_loop sc env n (i + 1) (th\<lparr>th_diag := d\<rparr>, s) = Inr (True, c, th\<lparr>th_diag := d'\<rparr>, s)"
    using Suc.IH [of "i + 1" "th\<lparr>th_diag := d\<rparr>"] Suc.prems by auto
  then show ?case using d by (cases "error_stop_requested sc s") auto
qed

lemma post_fill_loop_coarse:
  "parked sc N s i \<Longrightarrow> i + n \<le> N \<Longrightarrow> \<exists>d c s'. post_fill_loop sc env n i (th, s) = Inr (True, c, th\<lparr>th_diag := d\<rparr>, s') \<and>
     parked sc N s' c \<and> sat_shared s' = sat_shared s"
proof (induction n arbitrary: i th s)
  case 0
  then show ?case by (auto intro!: exI [of _ "th_diag th"])
next
  case (Suc n)
  obtain d s1 where r: "post_fill_round sc (env i) (of_nat i * of_int (cf_page_length (sc_cfg sc))) (th, s) = Inr (True, th\<lparr>th_diag := d\<rparr>, s1)"
    "parked sc N s1 (i + 1)" "sat_shared s1 = sat_shared s"
    using post_fill_coarse [OF Suc.prems(1)] Suc.prems(2) by fastforce
  show ?case
  proof (cases "error_stop_requested sc s1")
    case True
    then show ?thesis using r by auto
  next
    case False
    obtain d' c s' where "post_fill_loop sc env n (i + 1) (th\<lparr>th_diag := d\<rparr>, s1) = Inr (True, c, th\<lparr>th_diag := d'\<rparr>, s')"
      "parked sc N s' c" "sat_shared s' = sat_shared s"
      using Suc.IH [OF r(2), of "th\<lparr>th_diag := d\<rparr>"] Suc.prems(2) r(3) by auto
    then show ?thesis using r(1) False by auto
  qed
qed

lemma restore_ok:
  assumes "q_inv v" "q_inv e" "size (q_bag v) + length rnds \<le> q_cap v" "size (q_bag e) = length rnds"
  shows "\<exists>v' e'. restore_pages rnds v e = (True, v', e') \<and> q_inv v' \<and> q_inv e' \<and> q_cap v' = q_cap v \<and> q_cap e' = q_cap e \<and>
    q_bag v' = q_bag v + q_bag e \<and> q_bag e' = {#}"
  using assms
proof (induction rnds arbitrary: v e)
  case (Cons r rnds)
  have some: "q_bag e \<noteq> {#}" using Cons.prems(4) by (metis length_Cons nat.distinct(1) size_empty)
  obtain pe e1 where pop: "PopRandom r e = (Some pe, e1)" "q_inv e1" "q_cap e1 = q_cap e" "q_bag e = add_mset pe (q_bag e1)"
    using pop_cases [OF Cons.prems(2), of r] some by auto
  have room: "size (q_bag v) < q_cap v" using Cons.prems(3) by simp
  obtain v1 where push: "Push pe v = (True, v1)" "q_inv v1" "q_cap v1 = q_cap v" "q_bag v1 = add_mset pe (q_bag v)"
    using push_room [OF Cons.prems(1) room] by blast
  have "size (q_bag v1) + length rnds \<le> q_cap v1" "size (q_bag e1) = length rnds"
    using Cons.prems(3,4) push(3,4) pop(4) by (simp_all del: size_q_bag)
  then show ?case using Cons.IH [OF push(2) pop(2)] pop push by auto
next
  case Nil
  then have "q_bag e = {#}" by (metis list.size(3) size_eq_0_iff_empty)
  then show ?case using Nil by simp
qed

lemma Restore_ok:
  assumes ok: "parked sc N s n" and len: "length rnds = n"
  obtains p where "RestoreInitializationPages rnds (sat_pool s) = (True, p)" "all_filled sc N False (s\<lparr>sat_pool := p\<rparr>)"
proof -
  obtain v e where p: "sat_pool s = SAT_ONELOCK v e" using ok by (auto simp: parked_def coarse_grain_queue_def split: pool.splits)
  have inv: "one_inv (all_pages sc N) (v, e) {#}" and n: "size (q_bag e) = length rnds"
    using ok p len by (simp_all add: parked_def pool_inv_def pool_avail_def one_bag_def)
  have q: "q_inv v" "q_inv e" "q_cap v = N" "q_cap e = N"
    and part: "image_mset pe_offset (q_bag v) + image_mset pe_offset (q_bag e) = all_pages sc N" using inv by (simp_all add: one_inv_def)
  have "size (q_bag v) + size (q_bag e) = N" using arg_cong [where f = size, OF part] by (simp only: size_union size_image_mset size_all_pages)
  then have room: "size (q_bag v) + length rnds \<le> q_cap v" using n q(3) by linarith
  obtain v' e' where r: "restore_pages rnds v e = (True, v', e')" "q_inv v'" "q_inv e'" "q_cap v' = q_cap v" "q_cap e' = q_cap e"
    "q_bag v' = q_bag v + q_bag e" "q_bag e' = {#}" using restore_ok [OF q(1,2) room n] by blast
  have both: "\<forall>x \<in># q_bag v + q_bag e. pass_page sc False s x" using ok p by (simp add: parked_def pool_avail_def one_bag_def)
  let ?p = "SAT_ONELOCK v' e'"
  have "pool_inv (all_pages sc N) ?p {#}"
    using inv r both q by (auto simp: pool_inv_def one_inv_def pass_page_def)
  then have "all_filled sc N False (s\<lparr>sat_pool := ?p\<rparr>)"
    using ok r(6,7) both by (simp add: all_filled_def parked_def pass_shared_def pool_avail_def one_bag_def pass_page_cong)
  then show thesis using that [of ?p] r(1) by (simp add: RestoreInitializationPages_def p)
qed

lemma PostFillCheck_ok:
  assumes ok: "all_filled sc N False s"
  shows "\<exists>th' s'. PostFillCheck sc env N (th, s) = Inr (True, th', s') \<and> all_filled sc N False s' \<and> sat_shared s' = sat_shared s \<and>
    th_errorcount th' = th_errorcount th"
proof (cases "sat_pool s")
  case (SAT_FINELOCK q)
  then show ?thesis
    using post_fill_loop_fine [OF ok SAT_FINELOCK, of 0 N "ie_verify env" th] ok
    by (auto simp: PostFillCheck_def coarse_grain_queue_def)
next
  case (SAT_ONELOCK v e)
  then have coarse: "coarse_grain_queue s" by (simp add: coarse_grain_queue_def)
  then have "parked sc N s 0" using ok by (auto simp: parked_def all_filled_def pass_shared_def)
  from post_fill_loop_coarse [OF this, of N "ie_verify env" th] obtain d c s1 where
    loop: "post_fill_loop sc (ie_verify env) N 0 (th, s) = Inr (True, c, th\<lparr>th_diag := d\<rparr>, s1)" "parked sc N s1 c" "sat_shared s1 = sat_shared s" by auto
  obtain p where "RestoreInitializationPages (map (ie_restore env) [0..<c]) (sat_pool s1) = (True, p)" "all_filled sc N False (s1\<lparr>sat_pool := p\<rparr>)"
    using Restore_ok [OF loop(2)] by (metis diff_zero length_map length_upt)
  then show ?thesis using loop coarse by (auto simp: PostFillCheck_def)
qed

section \<open>The runtime queues\<close>

lemma fine_get_none:
  assumes "fl_wf q" "fine_get ev want tag q = Inr (None, q')"
  shows "\<forall>e \<in># fl_bag want q. \<not> tag_matches tag e"
proof (cases rule: fine_get_cases [OF assms(1), of ev want tag, case_names none got])
  case (none q2)
  then show ?thesis by (auto simp: fl_bag_def fl_slots_def fl_avail_def)
next
  case (got pe q2 i)
  then show ?thesis using assms(2) by simp
qed

lemma pool_get_none:
  assumes inv: "pool_inv pages p held" and get: "pool_get ev want tag p = Inr (None, p')"
  shows "\<forall>e \<in># pool_avail want p. \<not> tag_matches tag e"
proof (cases p)
  case (SAT_FINELOCK q)
  then obtain q' where "fine_get ev want tag q = Inr (None, q')" "fl_wf q"
    using get inv by (auto simp: pool_get_def pool_inv_def fl_inv_def res_bind_def split: sum.splits)
  then show ?thesis using fine_get_none SAT_FINELOCK by (simp add: pool_avail_def)
next
  case (SAT_ONELOCK v e)
  have q: "q_inv v" "q_inv e" using inv SAT_ONELOCK by (simp_all add: pool_inv_def one_inv_def)
  then show ?thesis
    using get SAT_ONELOCK pop_cases [OF q(1), of "ev_random ev"] pop_cases [OF q(2), of "ev_random ev"]
    by (cases want) (auto simp: pool_get_def one_get_def pool_avail_def one_bag_def)
qed

lemma get_valid_none:
  assumes inv: "pool_inv (all_pages sc N) (sat_pool s) held" and os: "os_maps (sc_os sc) (cf_page_length (sc_cfg sc)) (all_pages sc N)"
    and get: "get_valid sc env tag s = Inr (None, s')"
  shows "\<forall>e \<in># pool_avail True (sat_pool s). \<not> tag_matches tag e"
proof -
  obtain r p' where r: "pool_get (se_call env) True tag (sat_pool s) = Inr (r, p')" using pools.get_total [OF inv] by blast
  have "r = None"
  proof (cases r)
    case (Some pe)
    have "pool_inv (all_pages sc N) p' (add_mset (pe_offset pe) held)" using pools.get_some [OF inv, of _ True tag pe p'] r Some by blast
    from PrepareTestMem_static [OF os held_is_page [OF this], of "se_call env"] have "get_valid sc env tag s \<noteq> Inr (None, s')"
      using r Some by (auto simp: get_valid_def sat_GetValid_def)
    then show ?thesis using get by simp
  qed simp
  then show ?thesis using pool_get_none [OF inv] r by blast
qed

text \<open>Memory whose physical addresses the machine has: below \<open>2 ^ 60\<close>, and inside the bitmap if there is one.\<close>

definition physical_ok :: "startup \<Rightarrow> bool" where
  "physical_ok su \<longleftrightarrow> 0 \<le> su_totalmemsize su \<and> su_totalmemsize su < 2 ^ 63 \<and> (\<forall>a. su_paddr su a < 2 ^ 60) \<and>
     (su_do_page_map su \<longrightarrow> (\<forall>a. unat (ucast (su_paddr su a div 4096 div 8) :: u32) < unat (su_free_mem su * 4 div 4096 div 8)))"

lemma int_div_less:
  fixes a b c :: int
  assumes "a < c * b" "0 < b"
  shows "a div b < c"
proof -
  have "a div b * b \<le> a" using assms(2) by (simp add: minus_mod_eq_div_mult [symmetric])
  then have "a div b * b < c * b" using assms(1) by linarith
  then show ?thesis using assms(2) by simp
qed

lemma regioncount_bounds:
  assumes "0 \<le> m" "m < 2 ^ 63"
  shows "2 ^ 29 \<le> regionsize m" "regionsize m < 2 ^ 63" "1 \<le> regioncount m" "regioncount m \<le> 8"
proof -
  show size: "2 ^ 29 \<le> regionsize m" "regionsize m < 2 ^ 63" using assms by (auto simp: regionsize_def)
  show "1 \<le> regioncount m" by (simp add: regioncount_def Let_def)
  have "m < 9 * regionsize m" using assms by (auto simp: regionsize_def)
  then have "m div regionsize m < 9" using size(1) by (intro int_div_less) simp_all
  then show "regioncount m \<le> 8" by (simp add: regioncount_def Let_def)
qed

lemma FindRegion_range:
  assumes "0 \<le> m" "m < 2 ^ 63" "addr < 2 ^ 60"
  shows "0 \<le> FindRegion m addr" "FindRegion m addr < regioncount m"
proof -
  note b = regioncount_bounds [OF assms(1,2)]
  let ?q = "addr div of_int (regionsize m)"
  have un: "uint (of_int (regionsize m) :: u64) = regionsize m" using b by (simp add: unsigned_of_int take_bit_int_eq_self)
  have "uint addr < 2 ^ 60" using assms(3) by (simp add: word_less_def)
  then have "uint addr < 2 ^ 31 * 2 ^ 29" by simp
  also have "\<dots> \<le> 2 ^ 31 * regionsize m" using b(1) by (intro mult_left_mono) simp_all
  finally have "uint ?q < 2 ^ 31" using b(1) un int_div_less [of "uint addr" "2 ^ 31" "regionsize m"] by (simp add: uint_div_distrib)
  then have q: "uint ?q < 2147483648" by simp
  have "- (2 ^ 31) \<le> uint ?q" by (rule order_trans [OF _ uint_ge_0]) simp
  then have "sint (ucast ?q :: 32 word) = uint ?q"
    using q signed_take_bit_int_eq_self [of 31 "uint ?q"] by (simp add: signed_ucast_eq)
  moreover have "0 \<le> uint ?q" by simp
  ultimately show "0 \<le> FindRegion m addr" "FindRegion m addr < regioncount m"
    unfolding FindRegion_def using b(3) by (auto simp: Let_def)
qed

text \<open>The bitmap accepts every page.\<close>

definition bitmap_ok :: "startup \<Rightarrow> init_state \<Rightarrow> bool" where
  "bitmap_ok su st \<longleftrightarrow> su_do_page_map su \<longrightarrow>
     is_bitmap_size st = su_free_mem su * 4 \<and> length (is_bitmap st) = unat (is_bitmap_size st div 4096 div 8)"

lemma mark_blocks_ok:
  assumes "physical_ok su" "su_do_page_map su" "bsize = su_free_mem su * 4"
  shows "length bitmap = unat (bsize div 4096 div 8) \<Longrightarrow>
    \<exists>bitmap'. mark_blocks su bsize base n i bitmap = Inr bitmap' \<and> length bitmap' = length bitmap"
proof (induction n arbitrary: i bitmap)
  case (Suc n)
  let ?o = "unat (ucast (su_paddr su (base + of_nat i) div 4096 div 8) :: u32)"
  have "?o < length bitmap" using assms Suc.prems unfolding physical_ok_def by simp
  then obtain bitmap' where "mark_page bsize (su_paddr su (base + of_nat i)) bitmap = Inr bitmap'" "length bitmap' = length bitmap"
    using Suc.prems by (simp add: mark_page_def Let_def sat_assert_def rd_def)
  then show ?case using Suc.IH [of bitmap' "i + 4096"] Suc.prems by auto
qed simp

lemma AddrMapUpdate_ok:
  assumes "physical_ok su" "bitmap_ok su st"
  shows "\<exists>b. AddrMapUpdate su len pe st = Inr (st\<lparr>is_bitmap := b\<rparr>) \<and> bitmap_ok su (st\<lparr>is_bitmap := b\<rparr>)"
proof (cases "su_do_page_map su")
  case True
  then have b: "is_bitmap_size st = su_free_mem su * 4" "length (is_bitmap st) = unat (is_bitmap_size st div 4096 div 8)"
    using assms(2) by (simp_all add: bitmap_ok_def)
  obtain b' where "mark_blocks su (is_bitmap_size st) (pe_addr pe) ((nat len + 4095) div 4096) 0 (is_bitmap st) = Inr b'"
    "length b' = length (is_bitmap st)" using mark_blocks_ok [OF assms(1) True b(1) b(2)] by blast
  then show ?thesis using True b by (intro exI [of _ b']) (simp add: AddrMapUpdate_def bitmap_ok_def)
next
  case False
  then show ?thesis by (intro exI [of _ "is_bitmap st"]) (simp add: AddrMapUpdate_def bitmap_ok_def)
qed

lemma AddrMapInit_ok:
  assumes "physical_ok su"
  shows "\<exists>st'. AddrMapInit su st = Inr st' \<and> bitmap_ok su st' \<and> is_sat st' = is_sat st \<and> is_freepages st' = is_freepages st \<and>
    is_errorcount st' = is_errorcount st \<and> is_statuscount st' = is_statuscount st \<and> is_region st' = is_region st"
proof (cases "su_do_page_map su")
  case True
  then have "0 < unat (su_free_mem su * 4 div 4096 div 8)" using assms unfolding physical_ok_def by (metis gr0I not_less0)
  then have "su_free_mem su * 4 \<noteq> 0" by auto
  then show ?thesis using True by (simp add: AddrMapInit_def sat_assert_def Let_def bitmap_ok_def)
next
  case False
  then show ?thesis by (simp add: AddrMapInit_def bitmap_ok_def)
qed

text \<open>
  The state of the split before round \<open>i\<close>: \<open>min i freepages\<close> pages are empty, and at least \<open>N - i\<close> valid pages have no tag yet, so
  that a page for the round is found. A page of region 0 can be taken again, as its tag shares a bit with \<open>kInvalidTag\<close>.
\<close>

definition split_ok :: "settings \<Rightarrow> nat \<Rightarrow> startup \<Rightarrow> nat \<Rightarrow> init_state \<Rightarrow> bool" where
  "split_ok sc N su i st \<longleftrightarrow> pool_inv (all_pages sc N) (sat_pool (is_sat st)) {#} \<and> shared_ok sc N False (is_sat st) \<and> bitmap_ok su st \<and>
     length (is_region st) = 32 \<and> int (size (pool_avail False (sat_pool (is_sat st)))) = min (int i) (is_freepages st) \<and>
     N \<le> size (filter_mset untagged (pool_avail True (sat_pool (is_sat st)))) + i"

lemma untagged_matches: "untagged e \<Longrightarrow> tag_matches kInvalidTag e"
  by (simp add: tag_matches_def kInvalidTag_def)

lemma power_not_invalid: "r < 32 \<Longrightarrow> push_bit r 1 \<noteq> kInvalidTag"
proof
  assume r: "r < 32" and eq: "push_bit r 1 = kInvalidTag"
  have "bit (push_bit r 1 :: u32) 0" "bit (push_bit r 1 :: u32) 15" unfolding eq by (simp_all add: kInvalidTag_def)
  then show False using r by (auto simp: bit_exp_iff)
qed

lemma split_put:
  assumes inv: "pool_inv (all_pages sc N) (sat_pool s) {#pe_offset pe#}" and ok: "shared_ok sc N False s"
    and pe: "holds sc (patterns (sat_patternlist s)) (sat_mem s) pe" "\<not> untagged pe"
  obtains p where "(if to_empty then put_empty sc env pe s else put_valid sc env pe s) = Inr (True, s\<lparr>sat_pool := p\<rparr>)"
    "pool_inv (all_pages sc N) p {#}" "shared_ok sc N False (s\<lparr>sat_pool := p\<rparr>)"
    "filter_mset untagged (pool_avail True p) = filter_mset untagged (pool_avail True (sat_pool s))"
    "size (pool_avail False p) = size (pool_avail False (sat_pool s)) + (if to_empty then 1 else 0)"
proof -
  have geo: "geometry sc N (sat_mem s)" using ok by (simp add: shared_ok_def)
  note os = geometry_os [OF geo]
  show thesis
  proof (cases to_empty)
    case True
    obtain p e where p: "sat_PutEmpty (sc_os sc) (cf_page_length (sc_cfg sc)) (se_call env) pe (sat_pool s) = Inr (True, p)"
      "pool_inv (all_pages sc N) p {#}" "pe_offset e = pe_offset pe" "pool_avail False p = add_mset e (pool_avail False (sat_pool s))"
      "pool_avail True p = pool_avail True (sat_pool s)"
      by (rule sat_PutEmpty_ok [OF inv os])
    have "tagged_page sc (sat_mem s) e" using holds_tagged [OF pe(1)] tagged_cong(1) [OF p(3)] by simp
    then show thesis using that [of p] p True ok by (simp add: put_empty_def shared_ok_def)
  next
    case False
    have "pe_pattern pe \<noteq> None" using pe(1) by (auto simp: holds_def)
    from sat_PutValid_ok [OF inv os this] obtain p where
      p: "sat_PutValid (sc_os sc) (cf_page_length (sc_cfg sc)) (se_call env) pe (sat_pool s) = Inr (True, p)"
      "pool_inv (all_pages sc N) p {#}" "pool_avail True p = add_mset (pe\<lparr>pe_addr := 0\<rparr>) (pool_avail True (sat_pool s))"
      "pool_avail False p = pool_avail False (sat_pool s)" .
    have "holds sc (patterns (sat_patternlist s)) (sat_mem s) (pe\<lparr>pe_addr := 0\<rparr>)"
      using pe holds_cong(1) [of "pe\<lparr>pe_addr := 0\<rparr>" pe] by simp
    then show thesis using that [of p] p False ok pe(2) by (simp add: put_valid_def shared_ok_def)
  qed
qed

lemma split_round:
  assumes ok: "split_ok sc N su i st" and i: "i < N" and free: "0 \<le> is_freepages st" and phys: "physical_ok su"
  shows "\<exists>st'. split_pages sc su env (Suc n) i st = split_pages sc su env n (i + 1) st' \<and> split_ok sc N su (i + 1) st' \<and>
    is_freepages st' = is_freepages st \<and> is_errorcount st' = is_errorcount st \<and> is_statuscount st' = is_statuscount st \<and>
    sat_shared (is_sat st') = sat_shared (is_sat st)"
proof -
  let ?s = "is_sat st"
  have inv: "pool_inv (all_pages sc N) (sat_pool ?s) {#}" and sh: "shared_ok sc N False ?s" and regs: "length (is_region st) = 32"
    and empties: "int (size (pool_avail False (sat_pool ?s))) = min (int i) (is_freepages st)"
    and raw: "N \<le> size (filter_mset untagged (pool_avail True (sat_pool ?s))) + i" using ok by (simp_all add: split_ok_def)
  have geo: "geometry sc N (sat_mem ?s)" using sh by (simp add: shared_ok_def)
  note os = geometry_os [OF geo]
  have "filter_mset untagged (pool_avail True (sat_pool ?s)) \<noteq> {#}"
    using raw i by (metis add_0 not_le size_empty)
  then obtain u where "u \<in># filter_mset untagged (pool_avail True (sat_pool ?s))" by (rule multiset_nonemptyE)
  then have u: "u \<in># pool_avail True (sat_pool ?s)" "untagged u" by simp_all
  show ?thesis
  proof (cases rule: sat_get_cases [OF inv os, of True "se_call (env i)" kInvalidTag, case_names none got])
    case (none p')
    then have "get_valid sc (env i) kInvalidTag ?s = Inr (None, ?s\<lparr>sat_pool := p'\<rparr>)" by (simp add: get_valid_def)
    from get_valid_none [OF inv os this] show ?thesis using u untagged_matches by blast
  next
    case (got pe p e)
    let ?paddr = "su_paddr su (pe_addr pe)" and ?r = "FindRegion (su_totalmemsize su) (su_paddr su (pe_addr pe))"
    let ?pe = "pe\<lparr>pe_paddr := ?paddr, pe_tag := push_bit (nat ?r) 1\<rparr>"
    have phys': "0 \<le> su_totalmemsize su" "su_totalmemsize su < 2 ^ 63" "?paddr < 2 ^ 60" using phys by (simp_all add: physical_ok_def)
    have r: "0 \<le> ?r" "?r < 32" using FindRegion_range [OF phys'] regioncount_bounds(4) [OF phys'(1,2)] by linarith+
    have "nat ?r < 32" using r by simp
    then obtain rs where rs: "inc_region ?r (is_region st) = Inr rs" "length rs = 32" using r regs by (simp add: inc_region_def rd_def)
    have "bitmap_ok su (st\<lparr>is_region := rs, is_region_mask := is_region_mask st OR pe_tag ?pe\<rparr>)"
      using ok by (simp add: split_ok_def bitmap_ok_def)
    from AddrMapUpdate_ok [OF phys this] obtain b where b: "AddrMapUpdate su (cf_page_length (sc_cfg sc)) ?pe (st\<lparr>is_region := rs, is_region_mask := is_region_mask st OR pe_tag ?pe\<rparr>) =
        Inr (st\<lparr>is_region := rs, is_region_mask := is_region_mask st OR pe_tag ?pe, is_bitmap := b\<rparr>)"
      "bitmap_ok su (st\<lparr>is_region := rs, is_region_mask := is_region_mask st OR pe_tag ?pe, is_bitmap := b\<rparr>)"
      by blast
    have get: "get_valid sc (env i) kInvalidTag ?s = Inr (Some pe, ?s\<lparr>sat_pool := p\<rparr>)" using got(1) by (simp add: get_valid_def)
    have sh1: "shared_ok sc N False (?s\<lparr>sat_pool := p\<rparr>)" using sh got(4,5) by (simp add: shared_ok_def)
    have "holds sc (patterns (sat_patternlist ?s)) (sat_mem ?s) e" using sh got(4) by (simp add: shared_ok_def)
    then have pe: "holds sc (patterns (sat_patternlist ?s)) (sat_mem ?s) ?pe"
      using got(3) holds_cong(1) [of ?pe e] by (simp add: taken_def)
    have tagged: "\<not> untagged ?pe" using power_not_invalid [of "nat ?r"] r by simp
    obtain p2 where p2: "(if int i < is_freepages st then put_empty sc (env i) ?pe (?s\<lparr>sat_pool := p\<rparr>) else put_valid sc (env i) ?pe (?s\<lparr>sat_pool := p\<rparr>)) =
        Inr (True, ?s\<lparr>sat_pool := p2\<rparr>)"
      "pool_inv (all_pages sc N) p2 {#}" "shared_ok sc N False (?s\<lparr>sat_pool := p2\<rparr>)"
      "filter_mset untagged (pool_avail True p2) = filter_mset untagged (pool_avail True p)"
      "size (pool_avail False p2) = size (pool_avail False p) + (if int i < is_freepages st then 1 else 0)"
      using split_put [OF _ sh1, of ?pe "int i < is_freepages st" "env i"] got(2) pe tagged by auto
    let ?st = "st\<lparr>is_region := rs, is_region_mask := is_region_mask st OR pe_tag ?pe, is_bitmap := b, is_sat := ?s\<lparr>sat_pool := p2\<rparr>\<rparr>"
    have "N \<le> size (filter_mset untagged (pool_avail True p)) + (i + 1)" using raw got(4) by (simp split: if_splits)
    moreover have "int (size (pool_avail False p2)) = min (int (i + 1)) (is_freepages st)" using p2(5) got(5) empties by auto
    ultimately have "split_ok sc N su (i + 1) ?st" using p2(2-4) b(2) rs(2) by (simp add: split_ok_def bitmap_ok_def)
    moreover have "split_pages sc su env (Suc n) i st = split_pages sc su env n (i + 1) ?st"
      using get rs(1) b(1) p2(1) by (cases "int i < is_freepages st") (simp_all add: Let_def)
    ultimately show ?thesis by (intro exI [of _ ?st]) simp
  qed
qed

lemma split_pages_ok:
  assumes phys: "physical_ok su"
  shows "split_ok sc N su i st \<Longrightarrow> i + n = N \<Longrightarrow> 0 \<le> is_freepages st \<Longrightarrow>
    \<exists>st'. split_pages sc su env n i st = Inr (True, st') \<and> split_ok sc N su N st' \<and> is_freepages st' = is_freepages st \<and>
      is_errorcount st' = is_errorcount st \<and> is_statuscount st' = is_statuscount st \<and> sat_shared (is_sat st') = sat_shared (is_sat st)"
proof (induction n arbitrary: i st)
  case (Suc n)
  have i: "i < N" using Suc.prems(2) by simp
  obtain st1 where st1: "split_pages sc su env (Suc n) i st = split_pages sc su env n (i + 1) st1" "split_ok sc N su (i + 1) st1"
    "is_freepages st1 = is_freepages st" "is_errorcount st1 = is_errorcount st" "is_statuscount st1 = is_statuscount st"
    "sat_shared (is_sat st1) = sat_shared (is_sat st)"
    using split_round [OF Suc.prems(1) i Suc.prems(3) phys] by blast
  show ?case using Suc.IH [OF st1(2)] Suc.prems st1 by simp
qed simp

lemma split_queues_ok:
  assumes ok: "all_filled sc N False (is_sat st)" and su: "su_pages su = int N" and phys: "physical_ok su"
    and free: "0 \<le> is_freepages st" "is_freepages st \<le> int N" and regs: "length (is_region st) = 32"
  shows "\<exists>st'. split_queues sc su env st = Inr (True, st') \<and> pool_inv (all_pages sc N) (sat_pool (is_sat st')) {#} \<and>
    shared_ok sc N False (is_sat st') \<and> int (size (pool_avail False (sat_pool (is_sat st')))) = is_freepages st \<and>
    is_errorcount st' = is_errorcount st \<and> is_statuscount st' = is_statuscount st \<and> sat_shared (is_sat st') = sat_shared (is_sat st)"
proof -
  obtain st1 where st1: "AddrMapInit su st = Inr st1" "bitmap_ok su st1" "is_sat st1 = is_sat st" "is_freepages st1 = is_freepages st"
    "is_errorcount st1 = is_errorcount st" "is_statuscount st1 = is_statuscount st" "is_region st1 = is_region st"
    using AddrMapInit_ok [OF phys] by blast
  have inv: "pool_inv (all_pages sc N) (sat_pool (is_sat st)) {#}" and none: "pool_avail False (sat_pool (is_sat st)) = {#}"
    and pages: "pass_shared sc N False (is_sat st)" using ok by (simp_all add: all_filled_def)
  have "size (pool_avail True (sat_pool (is_sat st))) = N" using arg_cong [where f = size, OF pools.partition [OF inv]] none by simp
  moreover have "filter_mset untagged (pool_avail True (sat_pool (is_sat st))) = pool_avail True (sat_pool (is_sat st))"
    using pages by (auto simp: filter_mset_eq_conv pass_shared_def pass_page_def)
  ultimately have "split_ok sc N su 0 st1"
    using st1 inv none pages free(1) regs by (simp add: split_ok_def shared_ok_def pass_shared_def pass_page_def)
  from split_pages_ok [OF phys this, of N "ie_split env"] st1(4) free(1) obtain st2 where
    st2: "split_pages sc su (ie_split env) N 0 st1 = Inr (True, st2)" "split_ok sc N su N st2" "is_freepages st2 = is_freepages st1"
      "is_errorcount st2 = is_errorcount st1" "is_statuscount st2 = is_statuscount st1" "sat_shared (is_sat st2) = sat_shared (is_sat st1)"
    by auto
  then show ?thesis
    using st1 su free(2) by (auto simp: split_queues_def AddrMapPrint_def split_ok_def)
qed

section \<open>The whole start\<close>

definition all_spawned :: "startup \<Rightarrow> init_env \<Rightarrow> bool \<Rightarrow> bool" where
  "all_spawned su env preset \<longleftrightarrow> (\<forall>i<nat (su_fill_threads su). ie_spawned env preset i)"

text \<open>The threads that are needed could be created.\<close>

definition threads_created :: "settings \<Rightarrow> startup \<Rightarrow> init_env \<Rightarrow> sat \<Rightarrow> bool" where
  "threads_created sc su env s \<longleftrightarrow> (sc_fill_preset sc \<noteq> FILL_PRESET_NONE \<longrightarrow> all_spawned su env True) \<and> all_spawned su env False \<and>
     (su_verify_after_fill su \<and> \<not> error_stop_requested sc s \<longrightarrow> ie_verify_spawned env)"

text \<open>What the start leaves to the running workers.\<close>

definition ready_to_run :: "settings \<Rightarrow> nat \<Rightarrow> int \<Rightarrow> sat \<Rightarrow> bool" where
  "ready_to_run sc N free s \<longleftrightarrow> pool_inv (all_pages sc N) (sat_pool s) {#} \<and> shared_ok sc N False s \<and>
     int (size (pool_avail False (sat_pool s))) = free \<and> int (size (pool_avail True (sat_pool s))) = int N - free"

lemma RunFillPass_cases:
  assumes "startup_ok su N" "all_empty sc N (is_sat st)" "schedule_ok su env preset" "preset \<longrightarrow> sc_fill_preset sc \<noteq> FILL_PRESET_NONE"
  obtains st' where "RunFillPass sc su env preset st = Inr (all_spawned su env preset, st')" "sat_shared (is_sat st') = sat_shared (is_sat st)"
    "is_errorcount st' = is_errorcount st" "is_region st' = is_region st" "is_freepages st' = is_freepages st"
    "all_spawned su env preset \<Longrightarrow> is_statuscount st' = is_statuscount st \<and>
       (if preset then all_empty sc N (is_sat st') else all_filled sc N False (is_sat st'))"
    "\<not> all_spawned su env preset \<Longrightarrow> is_statuscount st < is_statuscount st'"
proof -
  let ?bad = "filter (\<lambda>i. \<not> ie_spawned env preset i) [0..<nat (su_fill_threads su)]"
  have bad: "?bad = [] \<longleftrightarrow> all_spawned su env preset" by (auto simp: filter_empty_conv all_spawned_def)
  obtain s where "RunFillPass sc su env preset st = Inr (?bad = [], st\<lparr>is_sat := s, is_statuscount := is_statuscount st + int (length ?bad)\<rparr>)"
    "sat_shared s = sat_shared (is_sat st)" "?bad = [] \<longrightarrow> (if preset then all_empty sc N s else all_filled sc N False s)"
    using RunFillPass_ok [OF assms] by blast
  then show thesis
    using that [of "st\<lparr>is_sat := s, is_statuscount := is_statuscount st + int (length ?bad)\<rparr>"] bad by (auto simp: all_spawned_def filter_empty_conv)
qed

lemma verify_after_fill_cases:
  assumes su: "startup_ok su N" and filled: "all_filled sc N False (is_sat st)"
  obtains st' where "verify_after_fill sc su env st =
      Inr (su_verify_after_fill su \<and> \<not> error_stop_requested sc (is_sat st) \<longrightarrow> ie_verify_spawned env, st')"
    "sat_shared (is_sat st') = sat_shared (is_sat st)" "is_errorcount st' = is_errorcount st" "is_region st' = is_region st"
    "is_freepages st' = is_freepages st" "all_filled sc N False (is_sat st')"
    "is_statuscount st' = is_statuscount st +
       (if su_verify_after_fill su \<and> \<not> error_stop_requested sc (is_sat st) \<and> \<not> ie_verify_spawned env then 1 else 0)"
proof (cases "su_verify_after_fill su \<and> \<not> error_stop_requested sc (is_sat st)")
  case True
  show thesis
  proof (cases "ie_verify_spawned env")
    case spawned: True
    let ?th = "new_thread (CheckThread ''full_check'') (su_fill_threads su) kDontCareTag (new_stats sc)"
    have N: "nat (su_pages su) = N" using su by (simp add: startup_ok_def)
    obtain th' s' where "PostFillCheck sc env N (?th, is_sat st) = Inr (True, th', s')" "all_filled sc N False s'"
      "sat_shared s' = sat_shared (is_sat st)" "th_errorcount th' = th_errorcount ?th" using PostFillCheck_ok [OF filled] by blast
    then show thesis using that [of "st\<lparr>is_sat := s', is_errorcount := is_errorcount st\<rparr>"] True spawned N
      by (simp add: verify_after_fill_def new_thread_def)
  next
    case False
    then show thesis using that [of "bad_status st"] True filled by (simp add: verify_after_fill_def bad_status_def)
  qed
next
  case False
  then have "verify_after_fill sc su env st = Inr (True, st)" by (auto simp: verify_after_fill_def)
  then show thesis using that [of st] False filled by auto
qed

lemma fill_and_split_ok:
  assumes su: "startup_ok su N" and start: "all_empty sc N (is_sat st)" and phys: "physical_ok su" and regs: "length (is_region st) = 32"
    and sched: "schedule_ok su env True" "schedule_ok su env False" and free: "0 \<le> is_freepages st" "is_freepages st \<le> int N"
  shows "\<exists>st'. fill_and_split sc su env st = Inr (threads_created sc su env (is_sat st), st') \<and>
    is_errorcount st' = is_errorcount st \<and> sat_shared (is_sat st') = sat_shared (is_sat st) \<and>
    (if threads_created sc su env (is_sat st)
     then is_statuscount st' = is_statuscount st \<and> ready_to_run sc N (is_freepages st) (is_sat st')
     else is_statuscount st < is_statuscount st')"
proof -
  let ?p = "sc_fill_preset sc \<noteq> FILL_PRESET_NONE"
  have split: "\<exists>st'. split_queues sc su env st0 = Inr (True, st') \<and> ready_to_run sc N (is_freepages st) (is_sat st') \<and>
      is_errorcount st' = is_errorcount st0 \<and> is_statuscount st' = is_statuscount st0 \<and> sat_shared (is_sat st') = sat_shared (is_sat st0)"
    if st0: "all_filled sc N False (is_sat st0)" "is_freepages st0 = is_freepages st" "is_region st0 = is_region st" for st0
  proof -
    have "su_pages su = int N" using su by (simp add: startup_ok_def)
    from split_queues_ok [OF st0(1) this phys] st0(2,3) free regs obtain st' where
      st': "split_queues sc su env st0 = Inr (True, st')" "pool_inv (all_pages sc N) (sat_pool (is_sat st')) {#}" "shared_ok sc N False (is_sat st')"
        "int (size (pool_avail False (sat_pool (is_sat st')))) = is_freepages st" "is_errorcount st' = is_errorcount st0"
        "is_statuscount st' = is_statuscount st0" "sat_shared (is_sat st') = sat_shared (is_sat st0)" by auto
    have "size (pool_avail True (sat_pool (is_sat st'))) + size (pool_avail False (sat_pool (is_sat st'))) = N"
      using arg_cong [where f = size, OF pools.partition [OF st'(2)]] by simp
    then have "ready_to_run sc N (is_freepages st) (is_sat st')" using st'(2-4) unfolding ready_to_run_def by linarith
    then show ?thesis using st' by blast
  qed
  obtain st1 where first: "(if ?p then RunFillPass sc su env True st else Inr (True, st)) = Inr (?p \<longrightarrow> all_spawned su env True, st1)"
    "sat_shared (is_sat st1) = sat_shared (is_sat st)" "is_errorcount st1 = is_errorcount st" "is_region st1 = is_region st"
    "is_freepages st1 = is_freepages st" "(?p \<longrightarrow> all_spawned su env True) \<longrightarrow> is_statuscount st1 = is_statuscount st \<and> all_empty sc N (is_sat st1)"
    "\<not> (?p \<longrightarrow> all_spawned su env True) \<longrightarrow> is_statuscount st < is_statuscount st1"
  proof (cases ?p)
    case True
    obtain st1 where "RunFillPass sc su env True st = Inr (all_spawned su env True, st1)" "sat_shared (is_sat st1) = sat_shared (is_sat st)"
      "is_errorcount st1 = is_errorcount st" "is_region st1 = is_region st" "is_freepages st1 = is_freepages st"
      "all_spawned su env True \<longrightarrow> is_statuscount st1 = is_statuscount st \<and> all_empty sc N (is_sat st1)"
      "\<not> all_spawned su env True \<longrightarrow> is_statuscount st < is_statuscount st1"
      by (rule RunFillPass_cases [OF su start sched(1)]) (use True in auto)
    then show thesis using that [of st1] True by simp
  next
    case False
    then show thesis using that [of st] start by simp
  qed
  show ?thesis
  proof (cases "?p \<longrightarrow> all_spawned su env True")
    case False
    then show ?thesis using first by (auto simp: fill_and_split_def threads_created_def simp del: imp_conjL)
  next
    case pre: True
    then have st1: "is_statuscount st1 = is_statuscount st" "all_empty sc N (is_sat st1)" using first(6) by blast+
    obtain st2 where st2: "RunFillPass sc su env False st1 = Inr (all_spawned su env False, st2)" "sat_shared (is_sat st2) = sat_shared (is_sat st)"
      "is_errorcount st2 = is_errorcount st" "is_region st2 = is_region st" "is_freepages st2 = is_freepages st"
      "all_spawned su env False \<longrightarrow> is_statuscount st2 = is_statuscount st \<and> all_filled sc N False (is_sat st2)"
      "\<not> all_spawned su env False \<longrightarrow> is_statuscount st < is_statuscount st2"
      by (rule RunFillPass_cases [OF su st1(2) sched(2)]) (use first st1(1) in auto)
    show ?thesis
    proof (cases "all_spawned su env False")
      case False
      then show ?thesis using first(1) pre st2 by (simp add: fill_and_split_def threads_created_def)
    next
      case fill: True
      then have st2': "is_statuscount st2 = is_statuscount st" "all_filled sc N False (is_sat st2)" using st2(6) by blast+
      have stop: "error_stop_requested sc (is_sat st2) = error_stop_requested sc (is_sat st)" using st2(2) by (simp add: error_stop_requested_def)
      let ?v = "su_verify_after_fill su \<and> \<not> error_stop_requested sc (is_sat st) \<longrightarrow> ie_verify_spawned env"
      obtain st3 where st3: "verify_after_fill sc su env st2 = Inr (?v, st3)" "sat_shared (is_sat st3) = sat_shared (is_sat st)"
        "is_errorcount st3 = is_errorcount st" "is_region st3 = is_region st" "is_freepages st3 = is_freepages st" "all_filled sc N False (is_sat st3)"
        "is_statuscount st3 = is_statuscount st + (if ?v then 0 else 1)"
        by (rule verify_after_fill_cases [OF su st2'(2), of env]) (use st2 st2'(1) stop in auto)
      obtain st4 where "split_queues sc su env st3 = Inr (True, st4)" "ready_to_run sc N (is_freepages st) (is_sat st4)"
        "is_errorcount st4 = is_errorcount st3" "is_statuscount st4 = is_statuscount st3" "sat_shared (is_sat st4) = sat_shared (is_sat st3)"
        using split [OF st3(6,5,4)] by blast
      moreover have "threads_created sc su env (is_sat st) \<longleftrightarrow> ?v" using pre fill by (simp add: threads_created_def)
      ultimately show ?thesis using first(1) pre fill st2(1) st3 by (cases ?v) (auto simp: fill_and_split_def)
    qed
  qed
qed

lemma new_pool_none:
  assumes "1 \<le> n" "n \<le> 2 ^ 20" "0 < page_length" "page_length * 2 ^ 20 < 2 ^ 63"
  shows "pool_avail want (new_pool fine garbage n page_length) = {#}"
proof -
  have "image_mset pe_offset (pool_avail True (new_pool fine garbage n page_length)) +
      image_mset pe_offset (pool_avail False (new_pool fine garbage n page_length)) = {#}"
    using pools.partition [OF new_pool_inv [OF assms, of fine garbage]] by simp
  then show ?thesis by (cases want) simp_all
qed

lemma coarse_new_pool: "coarse_grain_queue s \<longleftrightarrow> \<not> fine" if "sat_pool s = new_pool fine garbage n page_length"
  using that by (simp add: coarse_grain_queue_def new_pool_def)

text \<open>The start of the program: a new pool, test memory, the pattern list, and a region table.\<close>

definition fresh_start :: "settings \<Rightarrow> nat \<Rightarrow> bool \<Rightarrow> init_state \<Rightarrow> bool" where
  "fresh_start sc N fine st \<longleftrightarrow> geometry sc N (sat_mem (is_sat st)) \<and> pl_ok (sat_patternlist (is_sat st)) \<and>
     (\<exists>garbage. sat_pool (is_sat st) = new_pool fine garbage N (cf_page_length (sc_cfg sc))) \<and> length (is_region st) = 32"

definition enough_pages :: "startup \<Rightarrow> bool \<Rightarrow> bool" where
  "enough_pages su fine \<longleftrightarrow> needed_pages su \<le> free_pages su fine \<and> free_pages su fine \<le> su_pages su div 2"

lemma registered:
  assumes "fresh_start sc N fine st"
  obtains p where "empty_pages sc env garbage N 0 (True, is_sat st) = Inr (True, is_sat st\<lparr>sat_pool := p\<rparr>)"
    "all_empty sc N (is_sat st\<lparr>sat_pool := p\<rparr>)"
proof -
  let ?len = "cf_page_length (sc_cfg sc)"
  have geo: "geometry sc N (sat_mem (is_sat st))" using assms by (simp add: fresh_start_def)
  then have size: "1 \<le> N" "N \<le> 2 ^ 20" "0 < ?len" "?len * 2 ^ 20 < 2 ^ 63" by (simp_all add: geometry_def)
  obtain g where g: "sat_pool (is_sat st) = new_pool fine g N ?len" using assms by (auto simp: fresh_start_def)
  have inv: "pool_inv (all_pages sc N) (sat_pool (is_sat st)) (offsets_from sc 0 N)"
    unfolding g all_offsets [symmetric] by (rule new_pool_inv [OF size])
  have none: "pool_avail want (sat_pool (is_sat st)) = {#}" for want unfolding g by (rule new_pool_none [OF size])
  obtain p where "empty_pages sc env garbage N 0 (True, is_sat st) = Inr (True, is_sat st\<lparr>sat_pool := p\<rparr>)" "pool_inv (all_pages sc N) p {#}"
    "pool_avail True p = {#}" "\<forall>e \<in># pool_avail False p. untagged e"
    using empty_pages_ok [OF inv geo, of env garbage True] none by auto
  then show thesis using that [of p] assms by (simp add: all_empty_def fresh_start_def)
qed

lemma InitializePages_ok:
  assumes fresh: "fresh_start sc N fine st" and su: "startup_ok su N" "0 \<le> needed_pages su" and phys: "physical_ok su"
    and sched: "schedule_ok su env True" "schedule_ok su env False"
  shows "\<exists>ok st'. InitializePages sc su garbage env st = Inr (ok, st') \<and>
    (ok \<longleftrightarrow> enough_pages su fine \<and> threads_created sc su env (is_sat st)) \<and>
    is_errorcount st' = is_errorcount st \<and> sat_shared (is_sat st') = sat_shared (is_sat st) \<and>
    (ok \<longrightarrow> is_statuscount st' = is_statuscount st \<and> ready_to_run sc N (free_pages su fine) (is_sat st')) \<and>
    (\<not> ok \<longrightarrow> is_statuscount st < is_statuscount st')"
proof -
  let ?st = "st\<lparr>is_freepages := free_pages su fine\<rparr>"
  have fine: "\<not> coarse_grain_queue (is_sat st) \<longleftrightarrow> fine" using fresh coarse_new_pool by (auto simp: fresh_start_def)
  have N: "nat (su_pages su) = N" "su_pages su = int N" using su(1) by (simp_all add: startup_ok_def)
  show ?thesis
  proof (cases "enough_pages su fine")
    case False
    then have "InitializePages sc su garbage env st = Inr (False, bad_status ?st)"
      by (auto simp: InitializePages_def fine enough_pages_def Let_def)
    then show ?thesis using False by (intro exI [of _ False] exI [of _ "bad_status ?st"]) (simp add: bad_status_def)
  next
    case True
    have free: "0 \<le> free_pages su fine" "free_pages su fine \<le> int N"
      using True su(2) N(2) by (auto simp: enough_pages_def)
    obtain p where p: "empty_pages sc (ie_put env) garbage N 0 (True, is_sat st) = Inr (True, is_sat st\<lparr>sat_pool := p\<rparr>)"
      "all_empty sc N (is_sat st\<lparr>sat_pool := p\<rparr>)" by (rule registered [OF fresh])
    let ?s = "is_sat st\<lparr>sat_pool := p\<rparr>"
    have geo: "geometry sc N (sat_mem ?s)" using p(2) by (simp add: all_empty_def)
    obtain mem where mem: "(if su_prefault_pages su then prefault sc garbage su (ie_prefault env) N 0 ?s else Inr (True, ?s)) =
        Inr (True, ?s\<lparr>sat_mem := mem\<rparr>)" "length mem = length (sat_mem ?s)"
      using prefault_ok [OF geo, of 0 N garbage su "ie_prefault env"] that [of "sat_mem ?s"] by (cases "su_prefault_pages su") auto
    let ?s2 = "?s\<lparr>sat_mem := mem\<rparr>"
    have start: "all_empty sc N (is_sat (?st\<lparr>is_sat := ?s2\<rparr>))" using p(2) geometry_length [OF geo mem(2)] by (simp add: all_empty_def)
    have created: "threads_created sc su env ?s2 = threads_created sc su env (is_sat st)" by (simp add: threads_created_def error_stop_requested_def)
    have regs: "length (is_region (?st\<lparr>is_sat := ?s2\<rparr>)) = 32" using fresh by (simp add: fresh_start_def)
    have run: "InitializePages sc su garbage env st = fill_and_split sc su env (?st\<lparr>is_sat := ?s2\<rparr>)"
      using True p(1) [folded N(1)] mem(1) [folded N(1)] by (simp add: InitializePages_def fine enough_pages_def Let_def split del: if_split)
    show ?thesis
      unfolding run using fill_and_split_ok [OF su(1) start phys regs sched] free True created by (auto split: if_splits)
  qed
qed

section \<open>The printed ranges\<close>

text \<open>The ranges in page numbers, without the last page.\<close>

primrec runs :: "8 word list \<Rightarrow> nat \<Rightarrow> nat \<Rightarrow> nat option \<Rightarrow> (nat \<times> nat) list" where
  "runs bitmap 0 i r = []"
| "runs bitmap (Suc n) i r =
     (if touched_page bitmap i then runs bitmap n (i + 1) (Some (case r of None \<Rightarrow> i | Some first \<Rightarrow> first))
      else (case r of None \<Rightarrow> [] | Some first \<Rightarrow> [(first, i)]) @ runs bitmap n (i + 1) None)"

lemma print_ranges_runs: "print_ranges bitmap n i r = map (\<lambda>(a, b). (of_nat a * 4096, of_nat b * 4096 - 1)) (runs bitmap n i r)"
  by (induction n arbitrary: i r) (auto split: option.splits)

lemma runs_bounds:
  "(a, b) \<in> set (runs bitmap n i r) \<Longrightarrow> \<forall>f. r = Some f \<longrightarrow> f < i \<Longrightarrow> a < b \<and> b < i + n"
proof (induction n arbitrary: i r)
  case (Suc n)
  show ?case
  proof (cases "touched_page bitmap i")
    case True
    then show ?thesis using Suc.IH [of "i + 1" "Some (case r of None \<Rightarrow> i | Some first \<Rightarrow> first)"] Suc.prems by (auto split: option.splits)
  next
    case False
    then show ?thesis using Suc.IH [of "i + 1" None] Suc.prems by (auto split: option.splits)
  qed
qed simp

lemma runs_start: "(a, b) \<in> set (runs bitmap n (i + 1) None) \<Longrightarrow> i < a"
proof -
  have "(a, b) \<in> set (runs bitmap n i' r) \<Longrightarrow> \<forall>f. r = Some f \<longrightarrow> i < f \<Longrightarrow> i < i' \<Longrightarrow> i < a" for i' r
  proof (induction n arbitrary: i' r)
    case (Suc n)
    then show ?case by (auto split: if_splits option.splits)
  qed simp
  then show "(a, b) \<in> set (runs bitmap n (i + 1) None) \<Longrightarrow> i < a" by simp
qed

lemma runs_exact:
  assumes "\<forall>f. r = Some f \<longrightarrow> f < i \<and> (\<forall>m. f \<le> m \<and> m < i \<longrightarrow> touched_page bitmap m)"
    and "case r of None \<Rightarrow> i \<le> k | Some f \<Rightarrow> f \<le> k"
  shows "(\<exists>(a, b) \<in> set (runs bitmap n i r). a \<le> k \<and> k < b) \<longleftrightarrow> touched_page bitmap k \<and> (\<exists>j. k < j \<and> i \<le> j \<and> j < i + n \<and> \<not> touched_page bitmap j)"
  using assms
proof (induction n arbitrary: i r)
  case (Suc n)
  show ?case
  proof (cases "touched_page bitmap i")
    case True
    let ?f = "case r of None \<Rightarrow> i | Some first \<Rightarrow> first"
    have f: "?f < i + 1 \<and> (\<forall>m. ?f \<le> m \<and> m < i + 1 \<longrightarrow> touched_page bitmap m)" "?f \<le> k"
      using Suc.prems True by (auto split: option.splits simp: less_Suc_eq)
    have "(\<exists>j. k < j \<and> i \<le> j \<and> j < i + Suc n \<and> \<not> touched_page bitmap j) \<longleftrightarrow> (\<exists>j. k < j \<and> i + 1 \<le> j \<and> j < i + 1 + n \<and> \<not> touched_page bitmap j)"
      using True by (metis Suc_eq_plus1 add_Suc_right add_Suc_shift le_antisym not_less_eq_eq Suc_leD)
    then show ?thesis using Suc.IH [of "Some ?f" "i + 1"] f True by simp
  next
    case False
    show ?thesis
    proof (cases "k < i")
      case True
      then obtain f where r: "r = Some f" "f \<le> k" using Suc.prems(2) by (cases r) auto
      then have "touched_page bitmap k" using Suc.prems(1) True by auto
      then show ?thesis using r True False by auto
    next
      case ge: False
      have "\<not> (\<exists>(a, b) \<in> set (case r of None \<Rightarrow> [] | Some first \<Rightarrow> [(first, i)]). a \<le> k \<and> k < b)" using ge by (auto split: option.splits)
      moreover have "(\<exists>(a, b) \<in> set (runs bitmap n (i + 1) None). a \<le> k \<and> k < b) \<longleftrightarrow>
          i < k \<and> touched_page bitmap k \<and> (\<exists>j. k < j \<and> i + 1 \<le> j \<and> j < i + 1 + n \<and> \<not> touched_page bitmap j)"
      proof (cases "i < k")
        case True
        then show ?thesis using Suc.IH [of None "i + 1"] by simp
      next
        case False
        then have "k = i" using ge by simp
        have "i < a" if "(a, b) \<in> set (runs bitmap n (i + 1) None)" for a b
          using that by (rule runs_start)
        then show ?thesis using \<open>k = i\<close> by force
      qed
      moreover have "k = i \<or> i < k" using ge by linarith
      ultimately show ?thesis using False ge by (auto simp: Bex_def)
    qed
  qed
qed simp

lemma page_address:
  fixes P :: nat
  assumes "P \<le> 2 ^ 52" "a < P"
  shows "unat (of_nat a * 4096 :: u64) = a * 4096"
proof -
  have "a * 4096 < 2 ^ 64" using assms by simp
  then show ?thesis by (simp add: unat_word_ariths unat_of_nat)
qed

lemma page_in_range:
  assumes "P \<le> 2 ^ 52" "k < P" "a < b" "b < P"
  shows "of_nat a * 4096 \<le> (of_nat k * 4096 :: u64) \<and> of_nat k * 4096 \<le> (of_nat b * 4096 - 1 :: u64) \<longleftrightarrow> a \<le> k \<and> k < b"
proof -
  have un: "unat (of_nat x * 4096 :: u64) = x * 4096" if "x < P" for x by (rule page_address [OF assms(1) that])
  have "unat (of_nat b * 4096 - 1 :: u64) = b * 4096 - 1" using un [OF assms(4)] assms(3) by (subst unat_minus_one) (auto simp: unat_eq_0 [symmetric])
  then show ?thesis using un [OF assms(2)] un [of a] assms(3,4) by (auto simp: word_le_nat_alt)
qed

section \<open>Properties\<close>

text \<open>
  C6. The start is correct and reports what goes wrong. From a new pool, whatever the test memory holds and however the fill workers interleave,
  \<open>InitializePages\<close> returns; it counts no error on good memory; and it succeeds exactly if there are enough pages for the workers and all
  threads could be created. Then exactly \<open>freepages\<close> pages are empty, all others are valid and hold the data of their pattern at their address, and
  every page is available once. If it fails, \<open>statuscount_\<close> says so.
\<close>

theorem initialize_pages_correct:
  assumes "fresh_start sc N fine st" "startup_ok su N" "0 \<le> needed_pages su" "physical_ok su"
    and "schedule_ok su env True" "schedule_ok su env False"
  shows "\<exists>ok st'. InitializePages sc su garbage env st = Inr (ok, st') \<and>
    (ok \<longleftrightarrow> enough_pages su fine \<and> threads_created sc su env (is_sat st)) \<and>
    is_errorcount st' = is_errorcount st \<and> sat_shared (is_sat st') = sat_shared (is_sat st) \<and>
    (ok \<longrightarrow> is_statuscount st' = is_statuscount st \<and> ready_to_run sc N (free_pages su fine) (is_sat st')) \<and>
    (\<not> ok \<longrightarrow> is_statuscount st < is_statuscount st')"
  by (rule InitializePages_ok [OF assms])

text \<open>
  The ranges of physical memory that are printed: a page lies in one of them exactly if it was touched and some later page of the
  bitmap was not. A range that reaches the end of the bitmap is therefore not printed.
\<close>

lemma printed_ranges_exact:
  assumes "su_do_page_map su" "k < unat (is_bitmap_size st div 4096)"
  shows "(\<exists>(a, b) \<in> set (is_ranges (AddrMapPrint su st)). a \<le> of_nat k * 4096 \<and> of_nat k * 4096 \<le> b) \<longleftrightarrow>
    touched_page (is_bitmap st) k \<and> (\<exists>j. k < j \<and> j < unat (is_bitmap_size st div 4096) \<and> \<not> touched_page (is_bitmap st) j)"
proof -
  let ?P = "unat (is_bitmap_size st div 4096)" and ?rs = "runs (is_bitmap st) (unat (is_bitmap_size st div 4096)) 0 None"
  have "unat (is_bitmap_size st) < 2 ^ LENGTH(64)" by (rule unsigned_less)
  then have P: "?P \<le> 2 ^ 52" by (simp add: unat_div_distrib)
  have "(\<exists>(a, b) \<in> set (is_ranges (AddrMapPrint su st)). a \<le> of_nat k * 4096 \<and> of_nat k * 4096 \<le> b) \<longleftrightarrow>
      (\<exists>(a, b) \<in> set ?rs. of_nat a * 4096 \<le> (of_nat k * 4096 :: u64) \<and> of_nat k * 4096 \<le> (of_nat b * 4096 - 1 :: u64))"
    using assms(1) by (simp add: AddrMapPrint_def print_ranges_runs split_beta)
  also have "\<dots> \<longleftrightarrow> (\<exists>(a, b) \<in> set ?rs. a \<le> k \<and> k < b)"
  proof (rule bex_cong [OF refl], clarify)
    fix a b assume "(a, b) \<in> set ?rs"
    from runs_bounds [OF this] have "a < b" "b < ?P" by simp_all
    then show "of_nat a * 4096 \<le> (of_nat k * 4096 :: u64) \<and> of_nat k * 4096 \<le> (of_nat b * 4096 - 1 :: u64) \<longleftrightarrow> a \<le> k \<and> k < b"
      by (rule page_in_range [OF P assms(2)])
  qed
  finally show ?thesis using runs_exact [of None 0 "is_bitmap st" k ?P] by simp
qed

section \<open>Concrete instances\<close>

text \<open>Five pages, one fill worker, two copy workers, the fine-lock queue; no physical address is known.\<close>

definition ex_sc5 :: settings where
  "ex_sc5 = ex_sc\<lparr>sc_os := ex_os\<lparr>os_testmemsize := 20480\<rparr>\<rparr>"

definition ex_su :: startup where
  "ex_su = \<lparr>su_pages = 5, su_memory_threads = 2, su_invert_threads = 0, su_check_threads = 0, su_net_threads = 0, su_file_threads = 0,
     su_fill_threads = 1, su_prefault_pages = True, su_verify_after_fill = True, su_do_page_map = False, su_page_size = 4096,
     su_paddr = (\<lambda>_. 0), su_totalmemsize = 2 ^ 30, su_free_mem = 2 ^ 30\<rparr>"

definition ex_ie :: "init_env" where
  "ex_ie = \<lparr>ie_put = (\<lambda>_. ex_step True), ie_prefault = (\<lambda>_. ex_step True), ie_spawned = (\<lambda>_ _. True),
     ie_schedule = (\<lambda>_. replicate 16 (0, ex_step True)), ie_reset = (\<lambda>_. ex_step True), ie_verify_spawned = True,
     ie_verify = (\<lambda>_. ex_step True), ie_restore = (\<lambda>_. 0), ie_split = (\<lambda>_. ex_step True)\<rparr>"

definition ex_init :: init_state where
  "ex_init = \<lparr>is_sat = ex_sat (new_pool True (\<lambda>_. blank_pe) 5 4096) (replicate 2560 7), is_freepages = 0, is_errorcount = 0, is_statuscount = 0,
     is_region = replicate 32 0, is_region_mask = 0, is_region_count = 0, is_bitmap_size = 0, is_bitmap = [], is_ranges = []\<rparr>"

lemma ex_geometry5: "geometry ex_sc5 5 (replicate 2560 7)"
proof -
  have "page_offsets 5 4096 = mset [0, 4096, 8192, 12288, 16384]"
    by (simp add: page_offsets_def lessThan_nat_numeral lessThan_Suc)
  then have "os_maps (ex_os\<lparr>os_testmemsize := 20480\<rparr>) 4096 (page_offsets 5 4096)" by (simp add: os_maps_def ex_os_def)
  then show ?thesis by (simp add: geometry_def ex_sc5_def ex_simps page_words_def)
qed

lemma ex_start:
  "fresh_start ex_sc5 5 True ex_init" "startup_ok ex_su 5" "0 \<le> needed_pages ex_su" "physical_ok ex_su" "enough_pages ex_su True"
  "schedule_ok ex_su ex_ie preset" "threads_created ex_sc5 ex_su ex_ie s"
  using ex_geometry5 ex_pl_ok
  by (auto simp: fresh_start_def ex_init_def ex_sat_def ex_sc5_def ex_simps startup_ok_def needed_pages_def ex_su_def physical_ok_def enough_pages_def
      free_pages_def schedule_ok_def ex_ie_def fill_quota_def threads_created_def all_spawned_def)

theorem initialize_pages_correct_witness:
  "\<exists>st'. InitializePages ex_sc5 ex_su blank_pe ex_ie ex_init = Inr (True, st') \<and> is_errorcount st' = 0 \<and> is_statuscount st' = 0 \<and>
     size (pool_avail False (sat_pool (is_sat st'))) = 2 \<and> size (pool_avail True (sat_pool (is_sat st'))) = 3"
proof -
  have free: "free_pages ex_su True = 2" by (simp add: free_pages_def ex_su_def)
  from initialize_pages_correct [OF ex_start(1-4) ex_start(6) ex_start(6), of blank_pe] obtain ok st' where
    r: "InitializePages ex_sc5 ex_su blank_pe ex_ie ex_init = Inr (ok, st')" "ok \<longleftrightarrow> enough_pages ex_su True \<and> threads_created ex_sc5 ex_su ex_ie (is_sat ex_init)"
      "is_errorcount st' = is_errorcount ex_init" "ok \<longrightarrow> is_statuscount st' = is_statuscount ex_init \<and> ready_to_run ex_sc5 5 (free_pages ex_su True) (is_sat st')"
    by blast
  then show ?thesis using ex_start(5,7) free by (auto simp: ready_to_run_def ex_init_def)
qed

end
