(* ===== verification/Supply.thy ===== *)
theory Supply
  imports MemTest
begin

text \<open>
  No worker goes without a page. The copy, invert and runtime check workers keep the number of valid and of empty pages, counting those
  they hold; a worker asks for a valid page when it holds none, and for an empty page when it holds one valid page. With as
  many pages of each kind as there are workers no request fails, so that no worker ends with a false status.
\<close>

section \<open>The stock of pages\<close>

fun held_valid :: "pc \<Rightarrow> nat" where
  "held_valid (HavePage pe) = 1"
| "held_valid (HaveBoth src dst) = 1"
| "held_valid (Passed k epoch pe) = 1"
| "held_valid (Processed pe) = 1"
| "held_valid (Transferred src dst) = 1"
| "held_valid _ = 0"

fun held_empty :: "pc \<Rightarrow> nat" where
  "held_empty (HaveBoth src dst) = 1"
| "held_empty (Transferred src dst) = 1"
| "held_empty (DstReturned ok src) = 1"
| "held_empty _ = 0"

abbreviation valid_pages :: "sat \<Rightarrow> nat" where
  "valid_pages s \<equiv> size (pool_avail True (sat_pool s))"

abbreviation empty_stock :: "sat \<Rightarrow> nat" where
  "empty_stock s \<equiv> size (pool_avail False (sat_pool s))"

text \<open>What a step does to the stock, and when it can end a worker with a failure.\<close>

definition stock_step :: "thread \<Rightarrow> sat \<Rightarrow> thread \<Rightarrow> sat \<Rightarrow> bool" where
  "stock_step th s th' s' \<longleftrightarrow> valid_pages s' + held_valid (th_pc th') = valid_pages s + held_valid (th_pc th) \<and>
     empty_stock s' + held_empty (th_pc th') = empty_stock s + held_empty (th_pc th) \<and>
     th_tag th' = th_tag th \<and> th_kind th' = th_kind th \<and>
     (th_pc th' = Finished False \<longrightarrow> th_pc th = Finished False \<or> th_pc th = LoopHead \<and> valid_pages s = 0 \<or>
        (\<exists>src. th_pc th = HavePage src) \<and> th_kind th = CopyThread \<and> empty_stock s = 0)"

section \<open>The operations\<close>

lemma note_simps [simp]:
  "th_pc (note_operation sc env phase r w errors th) = th_pc th" "th_kind (note_operation sc env phase r w errors th) = th_kind th"
  "th_tag (note_operation sc env phase r w errors th) = th_tag th" "sat_pool (note_write sc env epoch th' off writer s) = sat_pool s"
  by (simp_all add: note_operation_def note_write_def)

lemma from_worker_frame:
  "from_worker w (th, s) = (th', s') \<Longrightarrow> sat_pool s' = sat_pool s \<and> th_pc th' = th_pc th \<and> th_kind th' = th_kind th \<and> th_tag th' = th_tag th"
  by (auto simp: from_worker_def)

lemma check_page_frame:
  "check_page sc env name phase pe (th, s) = Inr (errors, th', s') \<Longrightarrow>
   sat_pool s' = sat_pool s \<and> th_pc th' = th_pc th \<and> th_kind th' = th_kind th \<and> th_tag th' = th_tag th"
  by (auto simp: check_page_def res_bind_eq_Inr dest!: from_worker_frame)

lemma copy_process_frame:
  assumes "copy_process sc env src dst (th, s) = Inr (th', s')"
  shows "\<exists>dst'. th_pc th' = Transferred src dst' \<and> sat_pool s' = sat_pool s \<and> th_kind th' = th_kind th \<and> th_tag th' = th_tag th"
proof -
  let ?cfg = "now_cfg sc env" and ?pats = "patterns (sat_patternlist s)" and ?mem = "sat_mem s"
  let ?page = "inject sc env (load_page sc src ?mem)"
  define copy where "copy = (if sc_warm sc
      then CrcWarmCopyPage (sc_warm_copy sc) ?cfg ?pats dst src ''copy'' ''source_check'' (load_page sc dst ?mem) (?page, as_worker th s)
      else if sc_strict sc then CrcCopyPage ?cfg ?pats dst src ''copy'' ''source_check'' (load_page sc dst ?mem) (?page, as_worker th s)
      else plain_copy ?cfg dst src (?page, as_worker th s))"
  obtain errors dst' dpage spage w where c: "copy = Inr (errors, (dst', dpage), spage, w)"
    using assms unfolding copy_process_def Let_def prod.case copy_def [symmetric] by (cases copy) auto
  obtain th1 s1 where f: "from_worker w (th, s\<lparr>sat_mem := store_page dst dpage (store_page src spage ?mem)\<rparr>) = (th1, s1)" by force
  note frame = from_worker_frame [OF f]
  show ?thesis
  proof (cases "sc_copy_verify_destination sc")
    case True
    then show ?thesis
      using assms frame unfolding copy_process_def Let_def prod.case copy_def [symmetric]
      by (auto simp: c f res_bind_eq_Inr dest!: check_page_frame)
  next
    case False
    then show ?thesis
      using assms frame unfolding copy_process_def Let_def prod.case copy_def [symmetric] by (auto simp: c f)
  qed
qed

lemma strict_check_frame:
  "strict_check sc env phase dphase pe (th, s) = Inr (th', s') \<Longrightarrow>
   sat_pool s' = sat_pool s \<and> th_pc th' = th_pc th \<and> th_kind th' = th_kind th \<and> th_tag th' = th_tag th"
  by (auto simp: strict_check_def res_bind_eq_Inr split: if_splits dest!: check_page_frame)

lemma invert_pass_frame: "invert_pass sc env k pe s = Inr (pe', s') \<Longrightarrow> sat_pool s' = sat_pool s"
  by (auto simp: invert_pass_def res_bind_eq_Inr)

lemma get_valid_stock:
  assumes "pool_inv (all_pages sc N) (sat_pool s) R" "geometry sc N (sat_mem s)"
  obtains s' where "get_valid sc env kDontCareTag s = Inr (None, s')" "valid_pages s = 0" "valid_pages s' = valid_pages s" "empty_stock s' = empty_stock s"
  | pe s' where "get_valid sc env kDontCareTag s = Inr (Some pe, s')" "valid_pages s = Suc (valid_pages s')" "empty_stock s' = empty_stock s"
  by (rule sat_get_cases [OF assms(1) geometry_os [OF assms(2)], of True "se_call env" kDontCareTag])
    (use that in \<open>auto simp: get_valid_def\<close>)

lemma get_empty_stock:
  assumes "pool_inv (all_pages sc N) (sat_pool s) R" "geometry sc N (sat_mem s)"
  obtains p where "get_empty sc env kDontCareTag s = Inr (None, s\<lparr>sat_pool := p\<rparr>)" "empty_stock s = 0" "pool_inv (all_pages sc N) p R"
      "pool_avail True p = pool_avail True (sat_pool s)" "pool_avail False p = pool_avail False (sat_pool s)"
  | pe s' where "get_empty sc env kDontCareTag s = Inr (Some pe, s')" "empty_stock s = Suc (empty_stock s')" "valid_pages s' = valid_pages s"
  by (rule sat_get_cases [OF assms(1) geometry_os [OF assms(2)], of False "se_call env" kDontCareTag])
    (use that in \<open>auto simp: get_empty_def\<close>)

lemma put_valid_stock:
  assumes "pool_inv (all_pages sc N) (sat_pool s) (add_mset (pe_offset pe) R)" "geometry sc N (sat_mem s)" "pe_pattern pe \<noteq> None"
  obtains s' where "put_valid sc env pe s = Inr (True, s')" "valid_pages s' = Suc (valid_pages s)" "empty_stock s' = empty_stock s"
  by (rule sat_PutValid_ok [OF assms(1) geometry_os [OF assms(2)] assms(3), of "se_call env"]) (use that in \<open>auto simp: put_valid_def\<close>)

lemma put_empty_stock:
  assumes "pool_inv (all_pages sc N) (sat_pool s) (add_mset (pe_offset pe) R)" "geometry sc N (sat_mem s)"
  obtains s' where "put_empty sc env pe s = Inr (True, s')" "empty_stock s' = Suc (empty_stock s)" "valid_pages s' = valid_pages s"
  by (rule sat_PutEmpty_ok [OF assms(1) geometry_os [OF assms(2)], of "se_call env"]) (use that in \<open>auto simp: put_empty_def\<close>)

section \<open>Every step keeps the stock\<close>

lemma stock_get:
  assumes pre: "step_pre sc N False Others th s" and pc: "th_pc th = LoopHead"
    and step: "res_bind (get_valid sc env kDontCareTag s) (\<lambda>(r, s'). Inr (case r of
      None \<Rightarrow> (th\<lparr>th_pc := Finished b\<rparr>, s') | Some pe \<Rightarrow> (th\<lparr>th_pc := HavePage pe\<rparr>, s'))) = Inr (th', s')"
  shows "stock_step th s th' s'"
proof -
  have inv: "pool_inv (all_pages sc N) (sat_pool s) (held_offsets th + Others)" and geo: "geometry sc N (sat_mem s)"
    using pre by (simp_all add: step_pre_def shared_ok_def)
  show ?thesis
    by (rule get_valid_stock [OF inv geo, of env]) (use step pc in \<open>auto simp: stock_step_def\<close>)
qed

lemma stock_put:
  assumes pre: "step_pre sc N False Others th s" and pc: "th_pc th = Processed pe"
    and step: "res_bind (put_valid sc env pe s) (\<lambda>(ok, s'). Inr (next_round ok th, s')) = Inr (th', s')"
  shows "stock_step th s th' s'"
proof -
  have inv: "pool_inv (all_pages sc N) (sat_pool s) (add_mset (pe_offset pe) Others)" and geo: "geometry sc N (sat_mem s)"
    and pat: "pe_pattern pe \<noteq> None"
    using pre pc by (auto simp: step_pre_def shared_ok_def held_offsets_def thread_ok_def holds_def)
  show ?thesis
    by (rule put_valid_stock [OF inv geo pat, of env]) (use step pc in \<open>auto simp: stock_step_def next_round_def\<close>)
qed

lemma stock_same:
  assumes "sat_pool s' = sat_pool s" "th_tag th' = th_tag th" "th_kind th' = th_kind th" "held_valid (th_pc th') = held_valid (th_pc th)"
    and "held_empty (th_pc th') = held_empty (th_pc th)" "th_pc th' = Finished False \<Longrightarrow> th_pc th = Finished False"
  shows "stock_step th s th' s'"
  using assms by (simp add: stock_step_def)

lemma copy_stock:
  assumes pre: "step_pre sc N False Others th s" and kind: "th_kind th = CopyThread" and tag: "th_tag th = kDontCareTag"
    and step: "CopyThread_step sc env (th, s) = Inr (th', s')"
  shows "stock_step th s th' s'"
proof -
  have geo: "geometry sc N (sat_mem s)" using pre by (simp add: step_pre_def shared_ok_def)
  show ?thesis
  proof (cases "th_pc th")
    case LoopHead
    show ?thesis
    proof (cases "se_ready env \<and> \<not> error_stop_requested sc s")
      case True
      then show ?thesis using stock_get [OF pre LoopHead, of env False] step LoopHead tag by (simp add: CopyThread_step_def)
    next
      case False
      then show ?thesis using step LoopHead by (intro stock_same) (auto simp: CopyThread_step_def)
    qed
  next
    case (HavePage src)
    have inv: "pool_inv (all_pages sc N) (sat_pool s) (add_mset (pe_offset src) Others)" and pat: "pe_pattern src \<noteq> None"
      using pre HavePage kind by (auto simp: step_pre_def held_offsets_def thread_ok_def holds_def)
    show ?thesis
    proof (rule get_empty_stock [OF inv geo, of env])
      fix p assume none: "get_empty sc env kDontCareTag s = Inr (None, s\<lparr>sat_pool := p\<rparr>)" "empty_stock s = 0"
        "pool_inv (all_pages sc N) p (add_mset (pe_offset src) Others)"
        "pool_avail True p = pool_avail True (sat_pool s)" "pool_avail False p = pool_avail False (sat_pool s)"
      have inv': "pool_inv (all_pages sc N) (sat_pool (s\<lparr>sat_pool := p\<rparr>)) (add_mset (pe_offset src) Others)"
        and geo': "geometry sc N (sat_mem (s\<lparr>sat_pool := p\<rparr>))" using none(3) geo by simp_all
      show ?thesis
        by (rule put_valid_stock [OF inv' geo' pat, of env])
          (use none step HavePage kind tag in \<open>auto simp: CopyThread_step_def stock_step_def\<close>)
    next
      fix dst s1 assume "get_empty sc env kDontCareTag s = Inr (Some dst, s1)" "empty_stock s = Suc (empty_stock s1)" "valid_pages s1 = valid_pages s"
      then show ?thesis using step HavePage tag by (auto simp: CopyThread_step_def stock_step_def)
    qed
  next
    case (HaveBoth src dst)
    then have "copy_process sc env src dst (th, s) = Inr (th', s')" using step by (simp add: CopyThread_step_def)
    then show ?thesis using copy_process_frame [of sc env src dst th s th' s'] HaveBoth by (intro stock_same) auto
  next
    case (Transferred src dst)
    have inv: "pool_inv (all_pages sc N) (sat_pool s) (add_mset (pe_offset dst) (add_mset (pe_offset src) Others))" and pat: "pe_pattern dst \<noteq> None"
      using pre Transferred kind by (auto simp: step_pre_def held_offsets_def thread_ok_def holds_def add_mset_commute)
    show ?thesis
      by (rule put_valid_stock [OF inv geo pat, of env]) (use step Transferred in \<open>auto simp: CopyThread_step_def stock_step_def\<close>)
  next
    case (DstReturned b src)
    have inv: "pool_inv (all_pages sc N) (sat_pool s) (add_mset (pe_offset src) Others)" and b
      using pre DstReturned by (auto simp: step_pre_def held_offsets_def thread_ok_def)
    show ?thesis
      by (rule put_empty_stock [OF inv geo, of env]) (use step DstReturned \<open>b\<close> in \<open>auto simp: CopyThread_step_def stock_step_def next_round_def\<close>)
  next
    case (Finished b)
    then show ?thesis using step by (intro stock_same) (auto simp: CopyThread_step_def)
  qed (use pre kind in \<open>auto simp: step_pre_def thread_ok_def\<close>)
qed

lemma check_stock:
  assumes pre: "step_pre sc N False Others th s" and kind: "th_kind th = CheckThread phase" "phase \<noteq> ''final_check''" "\<not> legacy_final_check_mode sc"
    and step: "CheckThread_step sc env phase (th, s) = Inr (th', s')"
  shows "stock_step th s th' s'"
proof (cases "th_pc th")
  case LoopHead
  show ?thesis
  proof (cases "se_ready env \<and> \<not> error_stop_requested sc s")
    case True
    then show ?thesis
      using stock_get [OF pre LoopHead, of env "\<not> (\<not> False \<and> (if False then se_ready env else True))" th' s'] step LoopHead kind
      by (simp add: CheckThread_step_def Let_def)
  next
    case False
    then show ?thesis using step LoopHead kind by (intro stock_same) (auto simp: CheckThread_step_def Let_def split: if_splits)
  qed
next
  case (HavePage pe)
  obtain errors th1 where "check_page sc env ''check'' (if th_draining th then ''final_check'' else phase) pe (th, s) = Inr (errors, th1, s')"
    "th' = (note_operation sc env (if th_draining th then DIAG_PHASE_FINAL_CHECK else DIAG_PHASE_RUNTIME_CHECK)
      (cf_page_length (sc_cfg sc)) 0 errors th1)\<lparr>th_pc := Processed pe\<rparr>"
    using step HavePage unfolding CheckThread_step_def Let_def by (auto simp: res_bind_eq_Inr)
  then show ?thesis using check_page_frame HavePage by (intro stock_same) fastforce+
next
  case (Processed pe)
  then show ?thesis using stock_put [OF pre Processed, of env th' s'] step kind by (simp add: CheckThread_step_def Let_def)
next
  case (Finished b)
  then show ?thesis using step by (intro stock_same) (auto simp: CheckThread_step_def Let_def)
qed (use pre kind in \<open>auto simp: step_pre_def thread_ok_def\<close>)

lemma invert_stock:
  assumes pre: "step_pre sc N False Others th s" and kind: "th_kind th = InvertThread"
    and step: "InvertThread_step sc env (th, s) = Inr (th', s')"
  shows "stock_step th s th' s'"
proof (cases "th_pc th")
  case LoopHead
  show ?thesis
  proof (cases "se_ready env \<and> \<not> error_stop_requested sc s")
    case True
    then show ?thesis using stock_get [OF pre LoopHead, of env False] step LoopHead by (simp add: InvertThread_step_def)
  next
    case False
    then show ?thesis using step LoopHead by (intro stock_same) (auto simp: InvertThread_step_def)
  qed
next
  case (HavePage pe)
  then obtain th1 where "strict_check sc env ''precheck'' DIAG_PHASE_INVERT_PRECHECK pe (th, s) = Inr (th1, s')"
    "th' = th1\<lparr>th_pc := Passed 0 (se_epoch_begin env) pe\<rparr>"
    using step by (auto simp: InvertThread_step_def res_bind_eq_Inr)
  then show ?thesis using strict_check_frame HavePage by (intro stock_same) fastforce+
next
  case (Passed k epoch pe)
  show ?thesis
  proof (cases "k < 4")
    case True
    then obtain pe' where "invert_pass sc env k pe s = Inr (pe', s')" "th' = th\<lparr>th_pc := Passed (k + 1) epoch pe'\<rparr>"
      using step Passed by (auto simp: InvertThread_step_def res_bind_eq_Inr)
    then show ?thesis using invert_pass_frame Passed by (intro stock_same) auto
  next
    case False
    then obtain th1 s1 th2 where "strict_check sc env ''postcheck'' DIAG_PHASE_INVERT_POSTCHECK pe (th1, s1) = Inr (th2, s')"
      "th' = th2\<lparr>th_pc := Processed pe\<rparr>" "sat_pool s1 = sat_pool s" "th_kind th1 = th_kind th" "th_tag th1 = th_tag th"
      using step Passed by (auto simp: InvertThread_step_def res_bind_eq_Inr Let_def)
    then show ?thesis using strict_check_frame Passed by (intro stock_same) fastforce+
  qed
next
  case (Processed pe)
  then show ?thesis using stock_put [OF pre Processed, of env th' s'] step by (simp add: InvertThread_step_def)
next
  case (Finished b)
  then show ?thesis using step by (intro stock_same) (auto simp: InvertThread_step_def)
qed (use pre kind in \<open>auto simp: step_pre_def thread_ok_def\<close>)

lemma stock_step_ok:
  assumes pre: "step_pre sc N False Others th s" and kind: "stops sc (th_kind th)" and tag: "th_tag th = kDontCareTag"
    and step: "thread_step sc env (th, s) = Inr (th', s')"
  shows "stock_step th s th' s'"
  using kind copy_stock [OF pre _ tag] check_stock [OF pre] invert_stock [OF pre] step
  unfolding stops_def by (auto simp: thread_step_def)

section \<open>Any interleaving\<close>

definition supplied :: "settings \<Rightarrow> thread list \<Rightarrow> sat \<Rightarrow> bool" where
  "supplied sc ths s \<longleftrightarrow> (\<forall>th \<in> set ths. stops sc (th_kind th) \<and> th_tag th = kDontCareTag \<and> th_pc th \<noteq> Finished False) \<and>
     length ths \<le> valid_pages s + sum_list (map (\<lambda>th. held_valid (th_pc th)) ths) \<and>
     length ths \<le> empty_stock s + sum_list (map (\<lambda>th. held_empty (th_pc th)) ths)"

lemma held_le_1: "held_valid pc \<le> 1" "held_empty pc \<le> 1"
  by (cases pc; simp)+

lemma stock_sum_update:
  "i < length xs \<Longrightarrow> sum_list (map f (xs[i := x])) + f (xs ! i) = sum_list (map f xs) + (f x :: nat)"
proof (induction xs arbitrary: i)
  case (Cons y ys)
  then show ?case by (cases i) (auto simp: add.commute add.left_commute)
qed simp

lemma sum_others:
  assumes "i < length xs" "\<And>x. f x \<le> 1"
  shows "sum_list (map f xs) < length xs + f (xs ! i)"
proof -
  have "sum_list (map f ys) \<le> length ys" for ys using assms(2) by (induction ys) (simp_all add: add_le_mono [of _ 1, simplified])
  then have le: "sum_list (map f (take i xs)) \<le> i" "sum_list (map f (drop (Suc i) xs)) \<le> length xs - Suc i"
    using assms(1) by (metis length_take less_imp_le min.absorb2, metis length_drop)
  have "sum_list (map f xs) = sum_list (map f (take i xs)) + f (xs ! i) + sum_list (map f (drop (Suc i) xs))"
    by (subst id_take_nth_drop [OF assms(1)]) simp
  then show ?thesis using le assms(1) by linarith
qed

lemma supplied_step:
  assumes ok: "run_ok sc N False (ths, s)" and sup: "supplied sc ths s" and i: "i < length ths"
    and step: "thread_step sc env (ths ! i, s) = Inr (th, s')"
  shows "supplied sc (ths[i := th]) s'"
proof -
  let ?v = "\<lambda>th. held_valid (th_pc th)" and ?e = "\<lambda>th. held_empty (th_pc th)"
  have pre: "step_pre sc N False (all_held (take i ths @ drop (Suc i) ths)) (ths ! i) s"
    using ok i all_held_split [OF i] by (auto simp: run_ok_def step_pre_def)
  have th: "stops sc (th_kind (ths ! i))" "th_tag (ths ! i) = kDontCareTag" "th_pc (ths ! i) \<noteq> Finished False"
    and enough: "length ths \<le> valid_pages s + sum_list (map ?v ths)" "length ths \<le> empty_stock s + sum_list (map ?e ths)"
    using sup i by (auto simp: supplied_def)
  have st: "stock_step (ths ! i) s th s'" by (rule stock_step_ok [OF pre th(1,2) step])
  have "valid_pages s \<noteq> 0" if "th_pc (ths ! i) = LoopHead"
    using that enough(1) sum_others [OF i, of ?v] held_le_1(1) by fastforce
  moreover have "empty_stock s \<noteq> 0" if "th_pc (ths ! i) = HavePage src" for src
    using that enough(2) sum_others [OF i, of ?e] held_le_1(2) by fastforce
  ultimately have good: "th_pc th \<noteq> Finished False" using st th(3) by (auto simp: stock_step_def)
  have "length ths \<le> valid_pages s' + sum_list (map ?v (ths[i := th]))" "length ths \<le> empty_stock s' + sum_list (map ?e (ths[i := th]))"
    using st enough stock_sum_update [OF i, of ?v th] stock_sum_update [OF i, of ?e th] by (auto simp: stock_step_def)
  moreover have "stops sc (th_kind th)" "th_tag th = kDontCareTag" using st th by (simp_all add: stock_step_def)
  ultimately show ?thesis
    using sup good by (auto simp: supplied_def dest!: set_update_subset_insert [THEN subsetD])
qed

lemma run_supplied:
  assumes sc: "settings_ok sc"
  shows "run_ok sc N False (ths, s) \<Longrightarrow> supplied sc ths s \<Longrightarrow> run_threads sc es (ths, s) = Inr (ths', s') \<Longrightarrow> supplied sc ths' s'"
proof (induction es arbitrary: ths s)
  case (Cons e es)
  show ?case
  proof (cases "fst e < length ths")
    case True
    obtain th s1 where step: "thread_step sc (snd e) (ths ! fst e, s) = Inr (th, s1)" "run_ok sc N False (ths[fst e := th], s1)"
      by (rule run_step_ok [OF disjI2 [OF sc] Cons.prems(1) True, of "snd e"])
    from Cons.IH [OF step(2) supplied_step [OF Cons.prems(1,2) True step(1)]] show ?thesis using Cons.prems(3) True step(1) by simp
  next
    case False
    then show ?thesis using Cons by simp
  qed
qed simp

lemma supplied_start:
  assumes "\<forall>th \<in> set ths. th_pc th = LoopHead \<and> stops sc (th_kind th) \<and> th_tag th = kDontCareTag"
    and "length ths \<le> valid_pages s" "length ths \<le> empty_stock s"
  shows "supplied sc ths s"
  using assms by (auto simp: supplied_def)

end
