(* ===== verification/SatRun.thy ===== *)
theory SatRun
  imports FinalCheck StartupTest Supply ThreadSetup
begin

text \<open>
  A whole run: \<open>Sat::Run\<close>, \<open>Sat::JoinThreads\<close>, \<open>Sat::GetTotalErrorCount\<close> and the verdict (\<^verbatim>\<open>src/src/sat.cc\<close>), for tests whose workers are the
  copy, check and invert workers and the error poll worker. The control loop and the workers run side by side; what the workers see of the loop is
  the answer of \<open>IsReadyToRun\<close> in each of their steps.
\<close>

section \<open>Definitions\<close>

definition thread_of_desc :: "settings \<Rightarrow> worker_desc \<Rightarrow> thread list" where
  "thread_of_desc sc w =
     (case wk_type w of
        kMemoryType \<Rightarrow> [new_thread CopyThread (wk_num w) (wk_tag w) (new_stats sc)]
      | kCheckType \<Rightarrow> [new_thread (CheckThread ''runtime_check'') (wk_num w) (wk_tag w) (new_stats sc)]
      | kInvertType \<Rightarrow> [new_thread InvertThread (wk_num w) (wk_tag w) (new_stats sc)]
      | _ \<Rightarrow> [])"

text \<open>The workers that use the page pools.\<close>

definition pool_workers :: "settings \<Rightarrow> thread_setup \<Rightarrow> thread list" where
  "pool_workers sc st = concat (map (thread_of_desc sc) (all_workers st))"

text \<open>
  What the outside world answers: whether the disk workers accept their parameters; which threads can be created, by number; the schedule of the workers and of the final check workers; the clock
  and the answers for the loop.
\<close>

text \<open>\<open>re_polls\<close>: how often the error poll worker asks.\<close>

record run_env =
  re_disk_params_ok :: bool
  re_created :: "int \<Rightarrow> bool"
  re_schedule :: "(nat \<times> step_env) list"
  re_polls :: nat
  re_first_frequency :: frequency_io
  re_start :: int
  re_turns :: "turn_env list"
  re_final_created :: "nat \<Rightarrow> bool"
  re_final_schedule :: "(nat \<times> step_env) list"

text \<open>
  The error poll worker: \<open>ErrorPoll\<close> of the generic \<open>OsLayer\<close> reports nothing. \<open>other_worker\<close>: whether a worker ended well, and its errors.
\<close>

definition ErrorPoll :: int where
  "ErrorPoll = 0"

type_synonym other_worker = "bool \<times> int"

fun error_poll_work :: "nat \<Rightarrow> int \<Rightarrow> other_worker" where
  "error_poll_work 0 errorcount = (True, errorcount + ErrorPoll)"
| "error_poll_work (Suc n) errorcount = error_poll_work n (errorcount + ErrorPoll)"

definition poll_workers :: "run_env \<Rightarrow> thread_setup \<Rightarrow> other_worker list" where
  "poll_workers env st =
     map (\<lambda>w. if re_created env (wk_num w) then error_poll_work (re_polls env) 0 else (False, 0))
       (filter (\<lambda>w. wk_type w = kErrorType) (all_workers st))"

definition GetTotalErrorCount :: "int \<Rightarrow> thread list \<Rightarrow> other_worker list \<Rightarrow> int" where
  "GetTotalErrorCount initialization_errorcount ths others =
     initialization_errorcount + sum_list (map th_errorcount ths) + sum_list (map snd others)"

definition final_check_enabled :: "settings \<Rightarrow> thread_options \<Rightarrow> sat \<Rightarrow> bool" where
  "final_check_enabled sc to s \<longleftrightarrow> \<not> to_monitor_mode to \<and> \<not> sc_skip_final_check sc \<and> \<not> error_stop_requested sc s"

definition final_workers :: "settings \<Rightarrow> int \<Rightarrow> int \<Rightarrow> thread list" where
  "final_workers sc total_threads n =
     map (\<lambda>i. new_thread (CheckThread ''final_check'') (total_threads + int i) kDontCareTag (new_stats sc)) [0..<nat n]"

text \<open>
  The final check workers that could be created run to their end. A worker that was not created, and one whose status is not 1, counts in
  \<open>statuscount_\<close>. The result is \<open>errorcount_\<close>, \<open>statuscount_\<close> and the state.
\<close>

definition final_check ::
    "settings \<Rightarrow> thread_options \<Rightarrow> run_env \<Rightarrow> int \<Rightarrow> int \<Rightarrow> int \<Rightarrow> int \<Rightarrow> sat \<Rightarrow> (int \<times> int \<times> sat) res" where
  "final_check sc to env total_threads reap_check_threads errorcount statuscount s =
     (if \<not> final_check_enabled sc to s then Inr (errorcount, statuscount, s)
      else
        let ws = final_workers sc total_threads reap_check_threads; created = re_final_created env
        in res_bind (run_threads sc (filter (\<lambda>e. created (fst e)) (re_final_schedule env)) (ws, s)) (\<lambda>(ths, s').
             if list_ex (\<lambda>i. created i \<and> \<not> has_finished (ths ! i)) [0..<length ths] then Inl StillRunning
             else
               let made = map ((!) ths) (filter created [0..<length ths]);
                   missing = length (filter (\<lambda>i. \<not> created i) [0..<length ths]);
                   bad = length (filter (\<lambda>th. th_pc th \<noteq> Finished True) made)
               in Inr (errorcount + sum_list (map th_errorcount made), statuscount + int missing + int bad, s')))"

text \<open>
  \<open>JoinThreads\<close>: the runtime workers have ended; then the final check; then the statuses of all workers. A worker whose thread was not created
  has a false status.
\<close>

definition JoinThreads ::
    "settings \<Rightarrow> thread_options \<Rightarrow> run_env \<Rightarrow> int \<Rightarrow> int \<Rightarrow> int \<Rightarrow> int \<Rightarrow> other_worker list \<Rightarrow> thread list \<times> sat \<Rightarrow>
     (int \<times> int \<times> sat) res" where
  "JoinThreads sc to env total_threads reap_check_threads initialization_errorcount statuscount others = (\<lambda>(ths, s).
     if list_ex (\<lambda>th. re_created env (th_num th) \<and> \<not> has_finished th) ths then Inl StillRunning
     else
       let errorcount = GetTotalErrorCount initialization_errorcount ths others;
           bad = length (filter (\<lambda>th. th_pc th \<noteq> Finished True) ths) + length (filter (\<lambda>w. \<not> fst w) others)
       in final_check sc to env total_threads reap_check_threads errorcount (statuscount + int bad) s)"

text \<open>The number of final check workers.\<close>

definition reap_check_count :: "settings \<Rightarrow> int \<Rightarrow> int \<Rightarrow> int" where
  "reap_check_count sc final_check_threads fill_threads = (if sc_final_check_threads_explicit sc then final_check_threads else fill_threads)"

text \<open>
  \<open>Run\<close>. The result is what it returns, \<open>errorcount_\<close> and \<open>statuscount_\<close>. The loop and the workers act on separate parts of the state unless
  \<open>--force_errors_like_crazy\<close> is given; the effect of that option on the pools is \<open>inject_error\<close> and is not interleaved here.
\<close>

definition Run ::
    "settings \<Rightarrow> run_options \<Rightarrow> thread_options \<Rightarrow> run_env \<Rightarrow> int \<Rightarrow> int \<Rightarrow> run_state \<Rightarrow> init_state \<Rightarrow> (bool \<times> int \<times> int) res" where
  "Run sc ro to env total_threads reap_check_threads rs st =
     (if error_stop_requested sc (is_sat st) then Inr (True, GetTotalErrorCount (is_errorcount st) [] [], is_statuscount st)
      else res_bind (first_frequency ro (re_first_frequency env) (rs\<lparr>rn_statuscount := is_statuscount st\<rparr>)) (\<lambda>(ok, rs1).
        if \<not> ok then Inr (False, 0, rn_statuscount rs1)
        else
          let setup0 = InitializeThreads to (re_disk_params_ok env) \<lparr>ss_total = total_threads, ss_power = 0, ss_continuous = 0, ss_map = []\<rparr>;
              start = re_start env
          in case SpawnThreads (re_created env) setup0 (rn_statuscount rs1) of (spawned, setup1, bad_spawns) \<Rightarrow>
             let rs2 = run_start ro start (rs1\<lparr>rn_statuscount := bad_spawns\<rparr>); ths = pool_workers sc setup1
             in res_bind (if spawned then run_loop ro start (start + ro_runtime_seconds ro) (re_turns env) rs2 else Inr (False, rs2)) (\<lambda>(result, rs3).
                res_bind (run_threads sc (filter (\<lambda>e. fst e < length ths \<and> re_created env (th_num (ths ! fst e))) (re_schedule env)) (ths, is_sat st)) (\<lambda>(ths', s').
                res_bind (JoinThreads sc to env (ss_total setup1) reap_check_threads (is_errorcount st) (rn_statuscount rs3)
                    (poll_workers env setup1) (ths', s')) (\<lambda>(errors, statuses, s'').
                  Inr (result, errors, statuses))))))"

text \<open>\<open>InitializePages\<close> has found the regions.\<close>

definition with_regions :: "thread_options \<Rightarrow> init_state \<Rightarrow> thread_options" where
  "with_regions to st = to\<lparr>to_region_count := is_region_count st, to_region_mask := is_region_mask st\<rparr>"

text \<open>The end of \<open>main\<close>: what \<open>PrintResults\<close> prints, and the exit status.\<close>

definition exit_of :: "bool \<times> int \<times> int \<Rightarrow> verdict \<times> int" where
  "exit_of = (\<lambda>(result, errors, statuses).
     let statuscount = (if result then statuses else statuses + 1)
     in (PrintResults statuscount errors, if statuscount \<noteq> 0 then 1 else if errors \<noteq> 0 then 1 else 0))"

text \<open>
  \<open>main\<close> after the options are read and the memory is there: \<open>InitializePages\<close> (the end of \<open>Initialize\<close>), \<open>Run\<close> if that has succeeded, one more in
  \<open>statuscount_\<close> for the one that failed, and \<open>PrintResults\<close>. The result is the verdict and the exit status of the process.
\<close>

definition main_test ::
    "settings \<Rightarrow> startup \<Rightarrow> page_entry \<Rightarrow> init_env \<Rightarrow> run_options \<Rightarrow> thread_options \<Rightarrow> run_env \<Rightarrow> int \<Rightarrow> run_state \<Rightarrow> init_state \<Rightarrow>
     (verdict \<times> int) res" where
  "main_test sc su garbage ienv ro to env final_check_threads rs st =
     res_bind (InitializePages sc su garbage ienv st) (\<lambda>(ok, st').
     res_bind (if ok then Run sc ro (with_regions to st') env 0 (reap_check_count sc final_check_threads (su_fill_threads su)) rs st' else Inr (False, 0, is_statuscount st')) (\<lambda>r.
       Inr (exit_of r)))"

section \<open>The workers that are created\<close>

lemma create_loop_frame:
  assumes "creates_one c"
  shows "length (fst (create_loop c is st)) = length is \<and> ss_map (snd (create_loop c is st)) = ss_map st"
proof (induction "is" arbitrary: st)
  case (Cons i "is")
  obtain ty so where one: "\<And>i st. \<exists>w. c i st = ([w], snd (InitThread ty so st)) \<and> wk_num w = ss_total st \<and> wk_status w = so"
    using assms by (auto simp: creates_one_def)
  obtain w where w: "c i st = ([w], snd (InitThread ty so st))" using one by blast
  obtain new st' where new: "create_loop c is (snd (InitThread ty so st)) = (new, st')" by force
  have "length new = length is" "ss_map st' = ss_map st" using Cons.IH [of "snd (InitThread ty so st)"] new by (simp_all add: InitThread_def)
  then show ?case using w new by simp
qed simp

lemma create_loop_all:
  assumes "\<And>i st. i \<in> set is \<Longrightarrow> \<forall>w \<in> set (fst (c i st)). P w"
  shows "\<forall>w \<in> set (fst (create_loop c is st)). P w"
  using assms
proof (induction "is" arbitrary: st)
  case (Cons i "is")
  obtain x1 st1 x2 st2 where c: "c i st = (x1, st1)" "create_loop c is st1 = (x2, st2)" by (metis prod.exhaust)
  then show ?case using Cons.prems [of i st] Cons.IH [of st1] Cons.prems by auto
qed simp

text \<open>The workers that may use the pools.\<close>

abbreviation users :: "thread_setup \<Rightarrow> nat" where
  "users st \<equiv> length (filter (\<lambda>w. wk_type w \<noteq> kErrorType) (all_workers st))"

lemma insert_frame:
  assumes "creates_one c"
  shows "users (insert_workers ty (create_loop c is st)) \<le> users st + length is"
    "set (all_workers (insert_workers ty (create_loop c is st))) = set (all_workers st) \<union> set (fst (create_loop c is st))"
proof -
  obtain new st' where c: "create_loop c is st = (new, st')" by force
  have "mset (all_workers st') = mset (all_workers st)" using conjunct2 [OF create_loop_frame [OF assms, of "is" st]] c by (simp add: all_workers_mset)
  then have all: "mset (all_workers (insert_workers ty (create_loop c is st))) = mset (all_workers st) + mset new"
    by (simp add: c all_workers_insert)
  have "users (insert_workers ty (create_loop c is st)) = size (filter_mset (\<lambda>w. wk_type w \<noteq> kErrorType) (mset (all_workers st) + mset new))"
    by (simp only: all [symmetric] mset_filter [symmetric] size_mset)
  also have "\<dots> = users st + length (filter (\<lambda>w. wk_type w \<noteq> kErrorType) new)"
    by (simp only: filter_union_mset size_union mset_filter [symmetric] size_mset)
  also have "\<dots> \<le> users st + length new" by simp
  also have "\<dots> = users st + length is" using conjunct1 [OF create_loop_frame [OF assms, of "is" st]] by (simp add: c)
  finally show "users (insert_workers ty (create_loop c is st)) \<le> users st + length is" .
  show "set (all_workers (insert_workers ty (create_loop c is st))) = set (all_workers st) \<union> set (fst (create_loop c is st))"
    using arg_cong [where f = set_mset, OF all] by (simp add: c)
qed

text \<open>A test with copy, check and invert workers, which take pages of any region, and perhaps the error poll worker.\<close>

definition only_pool_workers :: "thread_options \<Rightarrow> bool" where
  "only_pool_workers to \<longleftrightarrow> \<not> to_monitor_mode to \<and> to_file_threads to = 0 \<and> to_listen_threads to = 0 \<and>
     to_net_threads to = 0 \<and> to_disk_threads to = 0 \<and> to_cpu_stress_threads to = 0 \<and> \<not> to_cc_test to \<and> \<not> to_cpu_freq_test to \<and>
     to_region_mode to = NoNuma"

definition pool_desc :: "thread_options \<Rightarrow> worker_desc \<Rightarrow> bool" where
  "pool_desc to w \<longleftrightarrow> wk_tag w = kDontCareTag \<and> (wk_type w = kCheckType \<longrightarrow> 0 < to_check_threads to)"

lemma pool_desc_loops:
  "\<forall>w \<in> set (fst (create_loop (plain_worker kCheckType so) [0..<to_check_threads to] st)). pool_desc to w"
  "\<forall>w \<in> set (fst (create_loop (plain_worker kInvertType so) is st)). pool_desc to w"
  "to_region_mode to = NoNuma \<Longrightarrow> \<forall>w \<in> set (fst (create_loop (copy_worker to) is st)). pool_desc to w"
  "\<forall>w \<in> set (fst (create_loop (plain_worker kErrorType so) is st)). pool_desc to w \<and> wk_type w = kErrorType"
  by (rule create_loop_all; auto simp: plain_worker_def copy_worker_def InitThread_def pool_desc_def kDontCareTag_def Let_def split: if_splits)+

lemma no_workers: "mset (all_workers (insert_workers ty ([], st))) = mset (all_workers st)"
  by (simp add: all_workers_insert)

lemma same_workers:
  assumes "mset (all_workers st) = mset (all_workers st')"
  shows "users st = users st'" "set (all_workers st) = set (all_workers st')"
  using assms by (metis mset_filter size_mset, metis set_mset_mset)

lemma InitializeThreads_pool:
  fixes to :: thread_options and params_ok :: bool and st :: thread_setup
  assumes only: "only_pool_workers to" and start: "ss_map st = []"
  defines "st' \<equiv> InitializeThreads to params_ok st"
  shows "users st' \<le> to_memory_threads to + to_check_threads to + to_invert_threads to"
    "w \<in> set (all_workers st') \<Longrightarrow> pool_desc to w"
proof -
  define st1 where "st1 = init_error_poll to st"
  define st2 where "st2 = init_memory to st1"
  define st3 where "st3 = init_net to (init_files to st2)"
  define st4 where "st4 = init_check_invert to st3"
  have st': "st' = init_cpu to (init_disks to params_ok st4)"
    using only by (simp add: st'_def InitializeThreads_def only_pool_workers_def st1_def st2_def st3_def st4_def init_cc_def init_cpu_freq_def)
  have st: "all_workers st = []" using start by (simp add: all_workers_def)
  have s1: "\<And>w. w \<in> set (all_workers st1) \<Longrightarrow> pool_desc to w \<and> wk_type w = kErrorType"
    using insert_frame(2) [OF creates_one_all(1), of kErrorType kErrorType continuous_status "[0..<(if to_error_poll to then 1 else 0)]" st]
      pool_desc_loops(4) st unfolding st1_def init_error_poll_def by (metis UnE empty_iff list.set(1))
  then have l1: "users st1 = 0" by (simp add: filter_empty_conv)
  have e3: "mset (all_workers st3) = mset (all_workers st2)"
    using only by (simp add: st3_def init_net_def init_files_def only_pool_workers_def no_workers)
  have e5: "mset (all_workers st') = mset (all_workers st4)"
    using only by (simp add: st' init_cpu_def init_disks_def only_pool_workers_def no_workers)
  have l2: "users st2 \<le> to_memory_threads to"
    and s2: "\<And>w. w \<in> set (all_workers st2) \<Longrightarrow> pool_desc to w"
    using insert_frame [OF creates_one_all(2), of kMemoryType to "[0..<to_memory_threads to]" st1] l1 s1 pool_desc_loops(3) only
    by (auto simp: st2_def init_memory_def only_pool_workers_def)
  define st5 where "st5 = insert_workers kCheckType (create_loop (plain_worker kCheckType continuous_status) [0..<to_check_threads to] st3)"
  have l5: "users st5 \<le> to_memory_threads to + to_check_threads to" and s5: "\<And>w. w \<in> set (all_workers st5) \<Longrightarrow> pool_desc to w"
    using insert_frame [OF creates_one_all(1), of kCheckType kCheckType continuous_status "[0..<to_check_threads to]" st3]
      same_workers [OF e3] l2 s2 pool_desc_loops(1)
    by (auto simp: st5_def)
  have st4: "st4 = insert_workers kInvertType (create_loop (plain_worker kInvertType continuous_status) [0..<to_invert_threads to] st5)"
    by (simp add: st4_def st5_def init_check_invert_def)
  have "users st4 \<le> to_memory_threads to + to_check_threads to + to_invert_threads to"
    and s4: "\<And>w. w \<in> set (all_workers st4) \<Longrightarrow> pool_desc to w"
    using insert_frame [OF creates_one_all(1), of kInvertType kInvertType continuous_status "[0..<to_invert_threads to]" st5]
      l5 s5 pool_desc_loops(2)
    by (auto simp: st4)
  then show "users st' \<le> to_memory_threads to + to_check_threads to + to_invert_threads to"
    "w \<in> set (all_workers st') \<Longrightarrow> pool_desc to w"
    using same_workers [OF e5] by simp_all
qed

text \<open>The threads of these workers at their start.\<close>

lemma pool_workers_start:
  assumes th: "th \<in> set (pool_workers sc st)" and ws: "\<And>w. w \<in> set (all_workers st) \<Longrightarrow> pool_desc to w"
    and mode: "to_check_threads to = 0 \<or> \<not> legacy_final_check_mode sc"
  shows "th_pc th = LoopHead \<and> stops sc (th_kind th) \<and> th_tag th = kDontCareTag" "th_errorcount th = 0"
proof -
  obtain w where w: "w \<in> set (all_workers st)" "th \<in> set (thread_of_desc sc w)" using th by (auto simp: pool_workers_def)
  then show "th_pc th = LoopHead \<and> stops sc (th_kind th) \<and> th_tag th = kDontCareTag" "th_errorcount th = 0"
    using ws [OF w(1)] mode by (auto simp: thread_of_desc_def new_thread_def pool_desc_def stops_def split: worker_type.splits)
qed

lemma length_pool_workers: "length (pool_workers sc st) \<le> users st"
proof -
  have one: "length (thread_of_desc sc w) \<le> (if wk_type w = kErrorType then 0 else 1)" for w
    by (simp add: thread_of_desc_def split: worker_type.splits)
  have "length (concat (map (thread_of_desc sc) ws)) \<le> length (filter (\<lambda>w. wk_type w \<noteq> kErrorType) ws)" for ws
  proof (induction ws)
    case (Cons w ws)
    then show ?case using one [of w] by (auto split: if_splits)
  qed simp
  then show ?thesis by (simp add: pool_workers_def)
qed

lemma error_poll_clean: "error_poll_work n e = (True, e)"
  by (induction n arbitrary: e) (simp_all add: ErrorPoll_def)

lemma poll_workers_clean: "\<forall>n. re_created env n \<Longrightarrow> \<forall>w \<in> set (poll_workers env st). w = (True, 0)"
  by (auto simp: poll_workers_def error_poll_clean)

section \<open>A run on good memory\<close>

lemma holds_checkable:
  assumes geo: "geometry sc N mem" and pe: "holds sc pats mem pe"
  shows "checkable sc pats mem pe" "wrong_in sc pats mem pe = 0"
proof -
  obtain k where k: "k < length pats" "pe_pattern pe = Some k" "load_page sc pe mem = page_data (sc_cfg sc) (pats ! k) (page_addr sc (pe_offset pe))"
    using pe by (auto simp: holds_def)
  let ?page = "page_data (sc_cfg sc) (pats ! k) (page_addr sc (pe_offset pe))"
  have len: "length ?page = page_words sc" by (simp add: page_data_def page_words_def)
  have clean: "bad_words (sc_cfg sc) (pats ! k) (page_addr sc (pe_offset pe)) ?page i j = 0 \<and>
      wrong_tags (sc_cfg sc) (page_addr sc (pe_offset pe)) ?page i j = 0" if "j \<le> page_words sc" for i j
    using that by (intro page_data_clean) (simp add: page_words_def)
  have "512 * b + 512 \<le> page_words sc" if "b < page_words sc div 512" for b using that by linarith
  then have "block_limit (sc_cfg sc) (pats ! k) (page_addr sc (pe_offset pe)) ?page" using clean len by (simp add: block_limit_def)
  then show "checkable sc pats mem pe" using k by (auto simp: checkable_def)
  show "wrong_in sc pats mem pe = 0" using clean k by (simp add: wrong_in_def pat_of_def)
qed

text \<open>What the world must do for a run to reach its end: threads are created, each worker gets enough turns after it was told to stop, and the clock advances.\<close>

definition run_completes :: "run_options \<Rightarrow> thread_options \<Rightarrow> nat \<Rightarrow> nat \<Rightarrow> run_env \<Rightarrow> bool" where
  "run_completes ro to N k env \<longleftrightarrow> (\<forall>n. re_created env n) \<and> (\<forall>i. re_final_created env i) \<and>
     (\<exists>es es'. re_schedule env = es @ es' \<and> (\<forall>e \<in> set es'. \<not> se_ready (snd e)) \<and>
        (\<forall>i<to_memory_threads to + to_check_threads to + to_invert_threads to. 8 \<le> own_steps es' i)) \<and>
     (\<forall>i<k. 3 * N + 1 \<le> own_steps (re_final_schedule env) i) \<and>
     0 < re_start env \<and> clock_advances (re_start env) (re_turns env) \<and> nat (ro_runtime_seconds ro) \<le> length (re_turns env) \<and>
     (\<forall>t \<in> set (re_turns env). write_retry (fq_writes (tn_frequency t)) \<noteq> Inl Diverged)"

abbreviation wrong_words :: "settings \<Rightarrow> sat \<Rightarrow> int" where
  "wrong_words sc s \<equiv> int (\<Sum>pe \<in># pool_avail True (sat_pool s). wrong_in sc (patterns (sat_patternlist s)) (sat_mem s) pe)"

lemma final_check_counts:
  assumes stop: "\<not> cf_stop_on_error (sc_cfg sc)" and inv: "pool_inv (all_pages sc N) (sat_pool s) {#}"
    and geo: "geometry sc N (sat_mem s)" and pl: "pl_ok (sat_patternlist s)"
    and check: "\<forall>pe \<in># pool_avail True (sat_pool s). checkable sc (patterns (sat_patternlist s)) (sat_mem s) pe"
    and k: "0 < k" and env: "\<forall>i. re_final_created env i" "\<forall>i<k. 3 * N + 1 \<le> own_steps (re_final_schedule env) i"
    and on: "final_check_enabled sc to s"
  shows "\<exists>s'. final_check sc to env total_threads (int k) errors statuses s = Inr (errors + wrong_words sc s, statuses, s')"
proof -
  let ?ws = "final_workers sc total_threads (int k)"
  have size: "size (pool_avail True (sat_pool s)) \<le> N" using arg_cong [where f = size, OF pools.partition [OF inv]] by simp
  have len: "length ?ws = k" by (simp add: final_workers_def)
  have long: "\<forall>i<length ?ws. 3 * size (pool_avail True (sat_pool s)) + 1 \<le> own_steps (re_final_schedule env) i"
  proof (intro allI impI)
    fix i assume "i < length ?ws"
    then have "3 * N + 1 \<le> own_steps (re_final_schedule env) i" using env(2) len by simp
    then show "3 * size (pool_avail True (sat_pool s)) + 1 \<le> own_steps (re_final_schedule env) i" using size by linarith
  qed
  have ws: "?ws \<noteq> []" "\<forall>th \<in> set ?ws. th_pc th = LoopHead \<and> th_kind th = CheckThread ''final_check'' \<and> th_errorcount th = 0"
    using len k by (auto simp: final_workers_def new_thread_def)
  from final_workers_find_all [OF stop inv geo pl check ws long] obtain ths s' where run: "run_threads sc (re_final_schedule env) (?ws, s) = Inr (ths, s')"
    "\<forall>th \<in> set ths. th_pc th = Finished True" "sum_list (map th_errorcount ths) = wrong_words sc s" by blast
  have "map ((!) ths) [0..<length ths] = ths" by (rule map_nth)
  then show ?thesis using on run env(1) by (simp add: final_check_def Let_def list_ex_iff has_finished_def)
qed

lemma final_check_clean:
  assumes stop: "\<not> cf_stop_on_error (sc_cfg sc)" and inv: "pool_inv (all_pages sc N) (sat_pool s) {#}" and ok: "shared_ok sc N False s"
    and k: "0 < k" and env: "\<forall>i. re_final_created env i" "\<forall>i<k. 3 * N + 1 \<le> own_steps (re_final_schedule env) i"
  shows "\<exists>s'. final_check sc to env total_threads (int k) errors statuses s = Inr (errors, statuses, s')"
proof (cases "final_check_enabled sc to s")
  case True
  have geo: "geometry sc N (sat_mem s)" and pl: "pl_ok (sat_patternlist s)" using ok by (simp_all add: shared_ok_def)
  have check: "\<forall>pe \<in># pool_avail True (sat_pool s). checkable sc (patterns (sat_patternlist s)) (sat_mem s) pe"
    and none: "\<forall>pe \<in># pool_avail True (sat_pool s). wrong_in sc (patterns (sat_patternlist s)) (sat_mem s) pe = 0"
    using holds_checkable [OF geo] ok by (auto simp: shared_ok_def)
  have "(\<Sum>pe \<in># pool_avail True (sat_pool s). wrong_in sc (patterns (sat_patternlist s)) (sat_mem s) pe) = 0" using none by simp
  then have "wrong_words sc s = 0" by (simp only: of_nat_0)
  then show ?thesis using final_check_counts [OF stop inv geo pl check k env True, of total_threads errors statuses] by simp
qed (simp add: final_check_def)

lemma JoinThreads_clean:
  assumes stop: "\<not> cf_stop_on_error (sc_cfg sc)" and inv: "pool_inv (all_pages sc N) (sat_pool s) {#}" and ok: "shared_ok sc N False s"
    and k: "0 < k" and env: "\<forall>i. re_final_created env i" "\<forall>i<k. 3 * N + 1 \<le> own_steps (re_final_schedule env) i"
    and ths: "\<forall>th \<in> set ths. th_pc th = Finished True" "map th_errorcount ths = map (\<lambda>_. 0) ths"
    and others: "\<forall>w \<in> set others. w = (True, 0)"
  shows "\<exists>s'. JoinThreads sc to env total_threads (int k) 0 statuses others (ths, s) = Inr (0, statuses, s')"
proof -
  have "map snd others = map (\<lambda>_. 0) others" "filter (\<lambda>w. \<not> fst w) others = []" using others by (auto simp: filter_empty_conv)
  then have none: "sum_list (map snd others) = 0" "filter (\<lambda>w. \<not> fst w) others = []" by (simp_all only: sum_list_0)
  have "sum_list (map th_errorcount ths) = 0" by (simp only: ths(2) sum_list_0)
  moreover have "filter (\<lambda>th. th_pc th \<noteq> Finished True) ths = []" "\<not> list_ex (\<lambda>th. re_created env (th_num th) \<and> \<not> has_finished th) ths"
    using ths(1) by (auto simp: filter_empty_conv list_ex_iff has_finished_def)
  ultimately have "JoinThreads sc to env total_threads (int k) 0 statuses others (ths, s) = final_check sc to env total_threads (int k) 0 statuses s"
    using none by (simp add: JoinThreads_def GetTotalErrorCount_def)
  then show ?thesis using final_check_clean [OF stop inv ok k env, of to total_threads 0 statuses] by metis
qed

lemma own_steps_filter: "i < n \<Longrightarrow> own_steps (filter (\<lambda>e. fst e < n) es) i = own_steps es i"
  by (induction es) auto

text \<open>The workers run until they are told to stop and end well.\<close>

lemma workers_end_well:
  assumes sc: "settings_ok sc" and ready: "ready_to_run sc N free s" and room: "int (length ths) \<le> free" "int (length ths) \<le> int N - free"
    and ths: "\<forall>th \<in> set ths. th_pc th = LoopHead \<and> stops sc (th_kind th) \<and> th_tag th = kDontCareTag" "\<forall>th \<in> set ths. th_errorcount th = 0"
    and quiet: "\<forall>e \<in> set es'. \<not> se_ready (snd e)" "\<forall>i<length ths. 8 \<le> own_steps es' i"
  obtains ths' s' where "run_threads sc (filter (\<lambda>e. fst e < length ths) (es @ es')) (ths, s) = Inr (ths', s')"
    "\<forall>th \<in> set ths'. th_pc th = Finished True" "map th_errorcount ths' = map (\<lambda>_. 0) ths'"
    "pool_inv (all_pages sc N) (sat_pool s') {#}" "shared_ok sc N False s'"
proof -
  let ?f = "filter (\<lambda>e :: nat \<times> step_env. fst e < length ths)"
  have inv: "pool_inv (all_pages sc N) (sat_pool s) {#}" and sh: "shared_ok sc N False s"
    and stock: "length ths \<le> valid_pages s" "length ths \<le> empty_stock s" using ready room by (auto simp: ready_to_run_def)
  have "\<forall>th \<in> set ths. th_pc th = LoopHead \<and> run_kind (th_kind th)" using ths(1) by (auto simp: stops_def run_kind_def)
  then have ok: "run_ok sc N False (ths, s)" using start_ok [where fillp = False] inv sh by simp
  have kinds: "\<forall>th \<in> set ths. stops sc (th_kind th)" using ths(1) by blast
  have q: "\<forall>e \<in> set (?f es'). \<not> se_ready (snd e)" "\<forall>i<length ths. 8 \<le> own_steps (?f es') i" using quiet own_steps_filter by auto
  obtain ths' s' where run: "run_threads sc (?f es @ ?f es') (ths, s) = Inr (ths', s')" "\<forall>th \<in> set ths'. \<exists>b. th_pc th = Finished b"
    "pool_inv (all_pages sc N) (sat_pool s') {#}" "shared_ok sc N False s'" "map th_errorcount ths' = map th_errorcount ths"
    by (rule run_to_end [OF sc ok kinds q])
  have "supplied sc ths' s'" by (rule run_supplied [OF sc ok supplied_start [OF ths(1) stock] run(1)])
  then have fin: "\<forall>th \<in> set ths'. th_pc th = Finished True" using run(2) by (auto simp: supplied_def) (metis (full_types))
  have "map th_errorcount ths = map (\<lambda>_. 0) ths" using ths(2) by simp
  then have "map th_errorcount ths' = map (\<lambda>_. 0) ths'" using run(5) by (metis length_map map_replicate_const)
  then show thesis using that run fin by simp
qed

text \<open>The options of \<open>InitializePages\<close> and of \<open>InitializeThreads\<close> are the same members of \<open>Sat\<close>.\<close>

definition options_agree :: "startup \<Rightarrow> thread_options \<Rightarrow> bool" where
  "options_agree su to \<longleftrightarrow> su_memory_threads su = int (to_memory_threads to) \<and> su_invert_threads su = int (to_invert_threads to) \<and>
     su_check_threads su = int (to_check_threads to) \<and> su_net_threads su = int (to_net_threads to) \<and> su_file_threads su = int (to_file_threads to)"

lemma room_for_workers:
  assumes "options_agree su to" "enough_pages su fine" "su_pages su = int N"
  defines "n \<equiv> to_memory_threads to + to_check_threads to + to_invert_threads to"
  shows "int n \<le> free_pages su fine" "int n \<le> int N - free_pages su fine"
  using assms by (auto simp: options_agree_def enough_pages_def needed_pages_def)

lemma Run_clean:
  assumes sc: "settings_ok sc" and stop: "\<not> cf_stop_on_error (sc_cfg sc)" and ready: "ready_to_run sc N free (is_sat st)"
    and n: "int (to_memory_threads to + to_check_threads to + to_invert_threads to) \<le> free"
      "int (to_memory_threads to + to_check_threads to + to_invert_threads to) \<le> int N - free"
    and to: "only_pool_workers to" "to_check_threads to = 0 \<or> \<not> legacy_final_check_mode sc"
    and ro: "schedules_ok ro" "ro_dram_frequencies ro = []" and k: "0 < k" and env: "run_completes ro to N k env"
    and counts: "is_errorcount st = 0" "is_statuscount st = 0"
  shows "Run sc ro to env 0 (int k) rs st = Inr (True, 0, 0)"
proof -
  let ?setup0 = "InitializeThreads to (re_disk_params_ok env) \<lparr>ss_total = 0, ss_power = 0, ss_continuous = 0, ss_map = []\<rparr>"
  let ?rs = "run_start ro (re_start env) (rs\<lparr>rn_statuscount := 0\<rparr>)" and ?ths = "pool_workers sc ?setup0"
  note pool = InitializeThreads_pool [OF to(1), where params_ok = "re_disk_params_ok env" and st = "\<lparr>ss_total = 0, ss_power = 0, ss_continuous = 0, ss_map = []\<rparr>"]
  have env': "\<forall>n. re_created env n" "\<forall>i. re_final_created env i" "\<forall>i<k. 3 * N + 1 \<le> own_steps (re_final_schedule env) i" "0 < re_start env"
    "clock_advances (re_start env) (re_turns env)" "nat (ro_runtime_seconds ro) \<le> length (re_turns env)"
    "\<forall>t \<in> set (re_turns env). write_retry (fq_writes (tn_frequency t)) \<noteq> Inl Diverged" using env by (simp_all add: run_completes_def)
  obtain es es' where es: "re_schedule env = es @ es'" "\<forall>e \<in> set es'. \<not> se_ready (snd e)"
    "\<forall>i<to_memory_threads to + to_check_threads to + to_invert_threads to. 8 \<le> own_steps es' i" using env by (auto simp: run_completes_def)
  have spawn: "SpawnThreads (re_created env) ?setup0 0 = (True, ?setup0, 0)" using env'(1) by (simp add: SpawnThreads_def)
  have now: "rn_now ?rs = re_start env" "rn_statuscount ?rs = 0" "rn_next_dram_frequency ?rs = 0"
    using ro(2) by (simp_all add: run_start_def dram_sweep_active_def)
  obtain result rs3 where loop: "run_loop ro (re_start env) (re_start env + ro_runtime_seconds ro) (re_turns env) ?rs = Inr (result, rs3)"
    using run_loop_ok [OF ro(1) run_start_inv [OF ro(1) env'(4)] _ env'(7), of "rs\<lparr>rn_statuscount := 0\<rparr>" "re_start env + ro_runtime_seconds ro"] env'(5,6)
    by (auto simp: now(1))
  have res: "result" "rn_statuscount rs3 = 0" using run_loop_no_sweep [OF now(3) loop] now(2) by simp_all
  have len: "length ?ths \<le> to_memory_threads to + to_check_threads to + to_invert_threads to" 
    using length_pool_workers [of sc ?setup0] pool(1) by simp
  have start: "\<forall>th \<in> set ?ths. th_pc th = LoopHead \<and> stops sc (th_kind th) \<and> th_tag th = kDontCareTag" "\<forall>th \<in> set ?ths. th_errorcount th = 0"
    using pool_workers_start [OF _ pool(2) to(2)] by auto
  have room: "int (length ?ths) \<le> free" "int (length ?ths) \<le> int N - free" using len n by linarith+
  have q: "\<forall>i<length ?ths. 8 \<le> own_steps es' i" using es(3) len by simp
  obtain ths' s' where run: "run_threads sc (filter (\<lambda>e. fst e < length ?ths) (es @ es')) (?ths, is_sat st) = Inr (ths', s')"
    "\<forall>th \<in> set ths'. th_pc th = Finished True" "map th_errorcount ths' = map (\<lambda>_. 0) ths'"
    "pool_inv (all_pages sc N) (sat_pool s') {#}" "shared_ok sc N False s'"
    by (rule workers_end_well [OF sc ready room start es(2) q])
  obtain s'' where join: "JoinThreads sc to env (ss_total ?setup0) (int k) 0 0 (poll_workers env ?setup0) (ths', s') = Inr (0, 0, s'')"
    using JoinThreads_clean [OF stop run(4,5) k env'(2,3) run(2,3) poll_workers_clean [OF env'(1)], of to "ss_total ?setup0" 0 ?setup0] by blast
  show ?thesis
    using stop counts ro(2) spawn loop res run(1) join env'(1) es(1)
    by (simp add: Run_def error_stop_requested_def first_frequency_def Let_def)
qed

lemma with_regions_frame [simp]:
  "only_pool_workers (with_regions to st) = only_pool_workers to" "run_completes ro (with_regions to st) N k env = run_completes ro to N k env"
  "to_memory_threads (with_regions to st) = to_memory_threads to" "to_check_threads (with_regions to st) = to_check_threads to"
  "to_invert_threads (with_regions to st) = to_invert_threads to"
  by (simp_all add: with_regions_def only_pool_workers_def run_completes_def)

text \<open>What the statuses add: one for every worker that did not end well.\<close>

definition failed_workers :: "thread list \<Rightarrow> other_worker list \<Rightarrow> int" where
  "failed_workers ths others = int (length (filter (\<lambda>th. th_pc th \<noteq> Finished True) ths) + length (filter (\<lambda>w. \<not> fst w) others))"

lemma main_test_verdict:
  fixes F :: "'f fp"
  assumes start: "fresh_start sc N fine st" "startup_ok su N" "0 \<le> needed_pages su" "physical_ok su" "schedule_ok su ienv True" "schedule_ok su ienv False"
    and counts: "is_errorcount st = 0" "is_statuscount st = 0" and inject: "\<not> sc_error_injection sc" "\<not> cf_stop_on_error (sc_cfg sc)"
    and warm: "sc_warm sc \<Longrightarrow> sc_warm_copy sc \<in> {AdlerMemcpyWarm False asm F, AdlerMemcpyAsm_sse2 xmm, AdlerMemcpyAsm_aarch64 v,
      AdlerMemcpyAsm_armv7 q}"
    and to: "options_agree su to" "only_pool_workers to" "to_check_threads to = 0 \<or> \<not> legacy_final_check_mode sc"
    and ro: "schedules_ok ro" "ro_dram_frequencies ro = []" "\<not> ro_crazy_error_injection ro"
    and k: "reap_check_count sc final_check_threads (su_fill_threads su) = int k" "0 < k" and env: "run_completes ro to N k env"
  shows "main_test sc su garbage ienv ro to env final_check_threads rs st =
    (if enough_pages su fine \<and> threads_created sc su ienv (is_sat st) then Inr (PASS, 0) else Inr (PROCEDURAL_ERRORS, 1))"
proof -
  have sc: "settings_ok sc" by (rule settings_okI [OF inject(1) warm])
  obtain ok st' where init: "InitializePages sc su garbage ienv st = Inr (ok, st')" "ok \<longleftrightarrow> enough_pages su fine \<and> threads_created sc su ienv (is_sat st)"
    "is_errorcount st' = 0" "ok \<longrightarrow> is_statuscount st' = 0 \<and> ready_to_run sc N (free_pages su fine) (is_sat st')" "\<not> ok \<longrightarrow> 0 < is_statuscount st'"
    using InitializePages_ok [OF start, of garbage] counts by auto
  show ?thesis
  proof (cases ok)
    case True
    have N: "su_pages su = int N" using start(2) by (simp add: startup_ok_def)
    note room = room_for_workers [OF to(1) _ N, of fine]
    have "Run sc ro (with_regions to st') env 0 (int k) rs st' = Inr (True, 0, 0)"
    proof (rule Run_clean [where N = N and free = "free_pages su fine", OF sc inject(2) _ _ _ _ _ ro(1,2) k(2) _ init(3)])
    qed (use to(2,3) env init(2,4) room True in simp_all)
    then have "main_test sc su garbage ienv ro to env final_check_threads rs st = Inr (PASS, 0)"
      using True init(1) k(1) by (simp add: main_test_def exit_of_def PrintResults_def)
    then show ?thesis using True init(2) by simp
  next
    case False
    then have "is_statuscount st' + 1 \<noteq> 0" using init(5) by linarith
    then have "main_test sc su garbage ienv ro to env final_check_threads rs st = Inr (PROCEDURAL_ERRORS, 1)"
      using False init(1) by (simp add: main_test_def exit_of_def PrintResults_def)
    then show ?thesis using False init(2) by auto
  qed
qed

section \<open>Properties\<close>



section \<open>Concrete instances\<close>

text \<open>Two copy workers on five pages, then one final check worker.\<close>

definition ex_re :: run_env where
  "ex_re = \<lparr>re_disk_params_ok = True, re_created = (\<lambda>_. True),
     re_schedule = [(0, ex_step True), (1, ex_step True)] @ concat (replicate 8 [(0, ex_step False), (1, ex_step False)]),
     re_polls = 3, re_first_frequency = \<lparr>fq_open = True, fq_writes = [], fq_close = True\<rparr>, re_start = 100, re_turns = ex_turns, re_final_created = (\<lambda>_. True),
     re_final_schedule = replicate 16 (0, ex_step False)\<rparr>"

definition ex_to2 :: thread_options where
  "ex_to2 = ex_to\<lparr>to_disk_threads := 0, to_error_poll := True\<rparr>"

lemma ex_completes: "run_completes ex_ro ex_to2 5 1 ex_re"
proof -
  let ?es' = "concat (replicate 8 [(0, ex_step False), (1, ex_step False)])"
  have "own_steps ?es' 0 = 8" "own_steps ?es' 1 = 8" "\<forall>e \<in> set ?es'. \<not> se_ready (snd e)" by (simp_all add: eval_nat_numeral ex_step_def)
  then show ?thesis unfolding run_completes_def
    using ex_run by (intro conjI exI [of _ "[(0, ex_step True), (1, ex_step True)]"] exI [of _ ?es'])
      (auto simp: ex_re_def ex_to2_def ex_to_def less_Suc_eq numeral_2_eq_2)
qed



end
