(* ===== verification/MainProgram.thy ===== *)
theory MainProgram
  imports OsMemory SatRun
begin

text \<open>
  The process: \<open>main\<close> (\<^verbatim>\<open>src/src/main.cc\<close>), \<open>Sat::Initialize\<close> with \<open>InitializeLogfile\<close>, \<open>CheckEnvironment\<close>, \<open>AllocateMemory\<close>
  and \<open>InitializePatterns\<close>, \<open>Sat::Cleanup\<close> (\<^verbatim>\<open>src/src/sat.cc\<close>), and what they need of \<open>OsLayer\<close> (\<^verbatim>\<open>src/src/os.cc\<close>). It joins the
  options of \<open>Options\<close>, the memory of \<open>OsMemory\<close> and the test of \<open>SatRun\<close>: from a command line and a machine to the exit status.
\<close>

section \<open>The machine\<close>

text \<open>
  The build (a debug build, the open source build), the answers of the kernel, the contents of the memory at the start, the values
  in uninitialised records, the block routine of \<open>-W\<close>, and the answers during the start and the run.
\<close>

record machine =
  mc_debug_build :: bool
  mc_open_source :: bool
  mc_log_opened :: bool
  mc_log_seek :: bool
  mc_num_cpus :: int
  mc_cpu_count :: int
  mc_cores :: int
  mc_cpu_freq_can_run :: bool
  mc_mem_info :: mem_info
  mc_alloc :: alloc_env
  mc_history_allocated :: bool
  mc_contents :: "u64 list"
  mc_pagemap :: "nat \<Rightarrow> u64 option"
  mc_queue_garbage :: "nat \<Rightarrow> page_entry"
  mc_entry_garbage :: page_entry
  mc_warm_copy :: copy_fun
  mc_frequency :: frequency_io
  mc_init :: init_env
  mc_run :: run_env

text \<open>\<open>pagemap\<close> is the entry at a byte position of \<^verbatim>\<open>/proc/self/pagemap\<close>, or \<open>None\<close> if it cannot be read.\<close>

definition VirtualToPhysical :: "int \<Rightarrow> (nat \<Rightarrow> u64 option) \<Rightarrow> u64 \<Rightarrow> u64" where
  "VirtualToPhysical pagesize pagemap vaddr =
     (case pagemap (unat vaddr div nat pagesize * 8) of
        None \<Rightarrow> 0
      | Some frame \<Rightarrow>
          if \<not> bit frame 63 \<or> bit frame 62 then 0
          else ((frame AND mask 55) * of_int pagesize) OR (vaddr AND of_int (pagesize - 1)))"

definition IsSupported :: "machine \<Rightarrow> bool" where
  "IsSupported mc = mc_open_source mc"

definition FindFileDevices :: "string list" where
  "FindFileDevices = []"

section \<open>Checking the environment\<close>

definition quot :: "int \<Rightarrow> int \<Rightarrow> int" where
  "quot a b = (if a < 0 then - (- a div b) else a div b)"

definition InitializeLogfile :: "machine \<Rightarrow> options \<Rightarrow> bool" where
  "InitializeLogfile mc op \<longleftrightarrow> op_val op ''use_logfile_'' = 0 \<or> mc_log_opened mc \<and> mc_log_seek mc"

text \<open>The sizes that \<open>Initialize\<close> passes to the \<open>OsLayer\<close>.\<close>

definition os_mem_info :: "machine \<Rightarrow> options \<Rightarrow> mem_info" where
  "os_mem_info mc op = (mc_mem_info mc)
     \<lparr>mi_min_hugepages_bytes := (if 0 < op_val op ''min_hugepages_mbytes_'' then convert Int64 (op_val op ''min_hugepages_mbytes_'' * kMegabyte) else 0),
      mi_reserve_mb := (if 0 < op_val op ''reserve_mb_'' then op_val op ''reserve_mb_'' else 0)\<rparr>"

definition cpu_freq_refused :: "machine \<Rightarrow> options \<Rightarrow> bool" where
  "cpu_freq_refused mc op \<longleftrightarrow> op_val op ''cpu_freq_test_'' \<noteq> 0 \<and>
     (\<not> mc_cpu_freq_can_run mc \<or> op_val op ''cpu_freq_threshold_'' \<le> 0 \<or> op_val op ''cpu_freq_round_'' < 0)"

definition default_threads :: "machine \<Rightarrow> options \<Rightarrow> options" where
  "default_threads mc op = (if op_val op ''memory_threads_'' = - 1 then assign ''memory_threads_'' (mc_num_cpus mc) op else op)"

definition set_size :: "options \<Rightarrow> options" where
  "set_size op = assign ''size_'' (op_val op ''size_mb_'' * kMegabyte) op"

text \<open>The options with the size, and \<open>totalmemsize_\<close>.\<close>

definition default_size :: "machine \<Rightarrow> options \<Rightarrow> (options \<times> int) res" where
  "default_size mc op =
     (if op_val op ''size_mb_'' = 0
      then res_bind (FindFreeMemSize (os_mem_info mc op) 0) (\<lambda>(size, totalmemsize).
             Inr (set_size (assign ''size_mb_'' (quot size kMegabyte) op), totalmemsize))
      else Inr (set_size op, 0))"

definition add_file :: "string \<Rightarrow> options \<Rightarrow> options" where
  "add_file name op = assign ''file_threads_'' (op_val op ''file_threads_'' + 1) (op\<lparr>op_filename := op_filename op @ [name]\<rparr>)"

text \<open>The disks are taken from the end of the list.\<close>

definition find_files :: "options \<Rightarrow> options" where
  "find_files op =
     (if op_val op ''findfiles_'' \<noteq> 0 \<and> op_val op ''file_threads_'' = 0
      then foldl (\<lambda>op disk. add_file (disk @ ''/sat_disk.b'') (add_file (disk @ ''/sat_disk.a'') op)) op (rev FindFileDevices)
      else op)"

definition tag_mode_refused :: "options \<Rightarrow> bool" where
  "tag_mode_refused op \<longleftrightarrow> op_val op ''tag_mode_'' \<noteq> 0 \<and>
     (0 < op_val op ''file_threads_'' \<or> 0 < op_val op ''disk_threads_'' \<or> 0 < op_val op ''net_threads_'')"

definition floor_size :: "options \<Rightarrow> options" where
  "floor_size op =
     (if op_val op ''address_mode_'' = 32 then set_size (assign ''size_mb_'' (quot (op_val op ''size_mb_'') 4 * 4) op) else op)"

definition CheckEnvironment :: "machine \<Rightarrow> options \<Rightarrow> (options \<times> int) parse res" where
  "CheckEnvironment mc op =
     (if mc_debug_build mc \<and> op_val op ''run_on_anything_'' = 0 then Inr (Reject 1)
      else if cpu_freq_refused mc op then Inr (Reject 1)
      else res_bind (default_size mc (default_threads mc op)) (\<lambda>(op1, totalmemsize).
        let op2 = find_files op1
        in if op_val op2 ''size_'' < 1 then Inr (Reject 1)
           else if tag_mode_refused op2 then Inr (Reject 1)
           else if \<not> IsSupported mc \<and> op_val op2 ''run_on_anything_'' = 0 then Inr (Reject 1)
           else Inr (Accept (floor_size op2, totalmemsize))))"

section \<open>Resources\<close>

definition AllocateMemory :: "machine \<Rightarrow> options \<Rightarrow> (bool \<times> os_memory) res" where
  "AllocateMemory mc op = AllocateTestMem (op_val op ''size_'') ((mc_alloc mc)\<lparr>al_address_mode := op_val op ''address_mode_''\<rparr>) no_memory"

definition InitializePatterns :: "options \<Rightarrow> PatternList parse" where
  "InitializePatterns op =
     (let pl = PatternList_Initialize (SetByteOffset PatternList_new (of_int (op_val op ''pattern_byte_offset_'')))
      in if op_pattern_selector op = [] then Accept pl
         else case SetPatternSequence pl (op_pattern_selector op) of (ok, pl') \<Rightarrow> if ok then Accept pl' else Reject 1)"

definition pages_of :: "options \<Rightarrow> int" where
  "pages_of op = quot (op_val op ''size_'') (op_val op ''page_length_'')"

definition new_history :: "options \<Rightarrow> BlockHistory list option" where
  "new_history op =
     (if op_val op ''diag_block_history_'' \<noteq> 0
      then Some (replicate (nat (pages_of op)) \<lparr>bh_generation = 0, bh_write_complete_us = - 1, bh_frequency_epoch_begin = 0,
        bh_frequency_epoch_end = 0, bh_writer_thread = - 1, bh_writer_cpu = - 1, bh_writer = BLOCK_WRITER_UNKNOWN\<rparr>)
      else None)"

text \<open>What the parts of the program read of the members of \<open>Sat\<close>. The CPU, frequency, clock and epoch of \<open>cf_cpu\<close> and the following fields are set in each step.\<close>

definition settings_of :: "machine \<Rightarrow> options \<Rightarrow> os_memory \<Rightarrow> settings" where
  "settings_of mc op om =
     \<lparr>sc_cfg = \<lparr>cf_tag_mode = op_val op ''tag_mode_'' \<noteq> 0, cf_stop_on_error = op_val op ''stop_on_error_'' \<noteq> 0,
        cf_page_length = op_val op ''page_length_'', cf_fill_direction = op_fill_direction op, cf_fill_yield_bytes = op_val op ''fill_yield_bytes_'',
        cf_verbosity = op_val op ''verbosity_'', cf_error_log_limit = op_val op ''error_log_limit_'', cf_cpu = 0, cf_frequency = - 1, cf_now = 0, cf_epoch = 0\<rparr>,
      sc_os = \<lparr>os_testmem = om_testmem om, os_testmemsize = of_int (om_testmemsize om), os_dynamic_mapped_shmem = om_dynamic om,
        os_page_size = al_pagesize (mc_alloc mc)\<rparr>,
      sc_warm = op_val op ''warm_'' \<noteq> 0, sc_strict = op_val op ''strict_'' \<noteq> 0, sc_warm_copy = mc_warm_copy mc,
      sc_copy_verify_destination = op_val op ''copy_verify_destination_'' \<noteq> 0, sc_error_injection = op_val op ''error_injection_'' \<noteq> 0,
      sc_invert_range = op_invert_range op, sc_diag_phase_summary = op_val op ''diag_phase_summary_'' \<noteq> 0,
      sc_diag_block_history = op_val op ''diag_block_history_'' \<noteq> 0, sc_fill_preset = op_fill_preset op,
      sc_fill_verify_every = op_val op ''fill_verify_every_'', sc_skip_final_check = op_val op ''skip_final_check_'' \<noteq> 0,
      sc_final_check_threads_explicit = op_val op ''final_check_threads_explicit_'' \<noteq> 0\<rparr>"

text \<open>\<open>free_mem\<close> and \<open>all_mem\<close>: the result of \<open>FindFreeMemSize\<close> in \<open>AddrMapInit\<close>, and \<open>totalmemsize_\<close> after it.\<close>

definition startup_of :: "machine \<Rightarrow> options \<Rightarrow> int \<Rightarrow> int \<Rightarrow> startup" where
  "startup_of mc op free_mem all_mem =
     \<lparr>su_pages = pages_of op, su_memory_threads = op_val op ''memory_threads_'', su_invert_threads = op_val op ''invert_threads_'',
      su_check_threads = op_val op ''check_threads_'', su_net_threads = op_val op ''net_threads_'', su_file_threads = op_val op ''file_threads_'',
      su_fill_threads = op_val op ''fill_threads_'', su_prefault_pages = op_val op ''prefault_pages_'' \<noteq> 0,
      su_verify_after_fill = op_val op ''verify_after_fill_'' \<noteq> 0, su_do_page_map = op_val op ''do_page_map_'' \<noteq> 0,
      su_page_size = al_pagesize (mc_alloc mc), su_paddr = VirtualToPhysical (al_pagesize (mc_alloc mc)) (mc_pagemap mc),
      su_totalmemsize = all_mem, su_free_mem = of_int free_mem\<rparr>"

definition thread_options_of :: "machine \<Rightarrow> options \<Rightarrow> thread_options" where
  "thread_options_of mc op =
     \<lparr>to_error_poll = op_val op ''error_poll_'' \<noteq> 0, to_monitor_mode = op_val op ''monitor_mode_'' \<noteq> 0,
      to_memory_threads = nat (op_val op ''memory_threads_''), to_file_threads = nat (op_val op ''file_threads_''),
      to_listen_threads = nat (op_val op ''listen_threads_''), to_net_threads = nat (op_val op ''net_threads_''),
      to_check_threads = nat (op_val op ''check_threads_''), to_invert_threads = nat (op_val op ''invert_threads_''),
      to_disk_threads = nat (op_val op ''disk_threads_''), to_random_threads = nat (op_val op ''random_threads_''),
      to_cpu_stress_threads = nat (op_val op ''cpu_stress_threads_''), to_cc_test = op_val op ''cc_test_'' \<noteq> 0,
      to_cpu_freq_test = op_val op ''cpu_freq_test_'' \<noteq> 0,
      to_region_mode = (if op_val op ''region_mode_'' = 1 then kLocalNuma else if op_val op ''region_mode_'' = 2 then kRemoteNuma else NoNuma),
      to_region_count = 0, to_region_mask = 0, to_cores = mc_cores mc, to_cpu_count = nat (mc_cpu_count mc),
      to_num_nodes = 1, to_cpus_per_node = mc_num_cpus mc\<rparr>"

definition run_options_of :: "options \<Rightarrow> run_options" where
  "run_options_of op =
     \<lparr>ro_runtime_seconds = op_val op ''runtime_seconds_'', ro_print_delay = op_val op ''print_delay_'', ro_pause_delay = op_val op ''pause_delay_'',
      ro_pause_duration = op_val op ''pause_duration_'', ro_dram_sweep = op_val op ''dram_sweep_'' \<noteq> 0, ro_dram_frequencies = op_dram_frequencies op,
      ro_dram_step_seconds = op_val op ''dram_step_seconds_'', ro_crazy_error_injection = op_val op ''crazy_error_injection_'' \<noteq> 0,
      ro_max_errorcount = of_int (op_val op ''max_errorcount_'')\<rparr>"

definition new_run_state :: run_state where
  "new_run_state = \<lparr>rn_now = 0, rn_next_print = 0, rn_next_pause = 0, rn_next_resume = 0, rn_next_dram_frequency = 0, rn_next_injection = 0,
     rn_index = 0, rn_frequency = - 1, rn_epoch = 0, rn_statuscount = 0, rn_log = []\<rparr>"

definition new_init_state :: "pool \<Rightarrow> u64 list \<Rightarrow> PatternList \<Rightarrow> BlockHistory list option \<Rightarrow> init_state" where
  "new_init_state p mem pl history =
     \<lparr>is_sat = \<lparr>sat_pool = p, sat_mem = mem, sat_patternlist = pl,
        sat_shared = \<lparr>w_errorcount = 0, w_diag = None, w_stop = False, w_log_attempted = 0, w_log_detailed = 0, w_log_suppressed = 0,
          w_diagnosed = [], w_reports = []\<rparr>, sat_history = history\<rparr>,
      is_freepages = 0, is_errorcount = 0, is_statuscount = 0, is_region = replicate 32 0, is_region_mask = 0, is_region_count = 0,
      is_bitmap_size = 0, is_bitmap = [], is_ranges = []\<rparr>"

section \<open>The process\<close>

text \<open>
  What the process leaves: the verdict it printed, if any; the exit status; and the objects of the test memory it still holds
  after \<open>Cleanup\<close>.
\<close>

type_synonym outcome = "verdict option \<times> int \<times> resource list"

definition Cleanup :: "os_memory \<Rightarrow> resource list" where
  "Cleanup om = om_live (FreeTestMem om)"

text \<open>\<open>Initialize\<close> has returned false after so many calls of \<open>bad_status\<close>; \<open>main\<close> adds one.\<close>

definition failed :: "int \<Rightarrow> os_memory \<Rightarrow> outcome" where
  "failed statuscount om = (case exit_of (False, 0, statuscount) of (v, n) \<Rightarrow> (Some v, n, Cleanup om))"

definition ended :: "os_memory \<Rightarrow> verdict \<times> int \<Rightarrow> outcome" where
  "ended om = (\<lambda>(v, n). (Some v, n, Cleanup om))"

text \<open>\<open>Run\<close> in monitor mode, without memory: the pools and patterns are not looked at.\<close>

definition monitor_run :: "machine \<Rightarrow> options \<Rightarrow> outcome res" where
  "monitor_run mc op =
     (let sc = settings_of mc op no_memory; garbage = mc_queue_garbage mc
      in res_bind (Run sc (run_options_of op) (thread_options_of mc op) (mc_run mc) 0
            (reap_check_count sc (op_val op ''final_check_threads_'') (op_val op ''fill_threads_'')) new_run_state
            (new_init_state (new_pool False garbage 0 (op_val op ''page_length_'')) [] PatternList_new None)) (\<lambda>r.
         Inr (ended no_memory (exit_of r))))"

text \<open>The state before the pages are registered.\<close>

definition test_state :: "machine \<Rightarrow> options \<Rightarrow> PatternList \<Rightarrow> init_state" where
  "test_state mc op pl =
     new_init_state (new_pool (op_queue op = FineLocked) (mc_queue_garbage mc) (nat (pages_of op)) (op_val op ''page_length_'')) (mc_contents mc) pl (new_history op)"

text \<open>From the patterns on: the first frequency, the block history, the queues, and the test.\<close>

definition test_run :: "machine \<Rightarrow> options \<Rightarrow> int \<Rightarrow> os_memory \<Rightarrow> PatternList \<Rightarrow> outcome res" where
  "test_run mc op totalmemsize om pl =
     (let ro = run_options_of op
      in res_bind (first_frequency ro (mc_frequency mc) new_run_state) (\<lambda>(ok, rs).
         if \<not> ok then Inr (failed (rn_statuscount rs) om)
         else if op_val op ''diag_block_history_'' \<noteq> 0 \<and> \<not> mc_history_allocated mc then Inr (failed 1 om)
         else res_bind (if op_val op ''do_page_map_'' \<noteq> 0 then FindFreeMemSize (os_mem_info mc op) totalmemsize else Inr (0, totalmemsize)) (\<lambda>(free_mem, all_mem).
           res_bind (main_test (settings_of mc op om) (startup_of mc op free_mem all_mem) (mc_entry_garbage mc) (mc_init mc) ro (thread_options_of mc op)
             (mc_run mc) (op_val op ''final_check_threads_'') rs (test_state mc op pl)) (\<lambda>r. Inr (ended om r)))))"

definition start_test :: "machine \<Rightarrow> options \<Rightarrow> outcome res" where
  "start_test mc op0 =
     (if \<not> InitializeLogfile mc op0 then Inr (failed 1 no_memory)
      else res_bind (CheckEnvironment mc op0) (\<lambda>r. case r of
        Accept (op, totalmemsize) \<Rightarrow>
          if op_val op ''monitor_mode_'' \<noteq> 0 then monitor_run mc op
          else res_bind (AllocateMemory mc op) (\<lambda>(ok, om).
                 if \<not> ok then Inr (failed 1 om)
                 else case InitializePatterns op of
                   Accept pl \<Rightarrow> test_run mc op totalmemsize om pl
                 | Reject n \<Rightarrow> Inr (failed n om)
                 | Exit n \<Rightarrow> Inr (None, n, []))
      | Reject n \<Rightarrow> Inr (failed n no_memory)
      | Exit n \<Rightarrow> Inr (None, n, [])))"

definition sat_main :: "machine \<Rightarrow> string list \<Rightarrow> outcome res" where
  "sat_main mc argv =
     (case PrepareDramMapArgs argv of
        None \<Rightarrow> Inr (None, 1, [])
      | Some (argv', _) \<Rightarrow> (case ParseArgs argv' Sat_new of
          Accept op \<Rightarrow> start_test mc op
        | Reject n \<Rightarrow> Inr (failed n no_memory)
        | Exit n \<Rightarrow> Inr (None, n, [])))"

section \<open>What the members of \<open>Sat\<close> give\<close>

text \<open>The options after a successful \<open>CheckEnvironment\<close> when \<open>-M\<close> was given.\<close>

abbreviation checked_options :: "machine \<Rightarrow> options \<Rightarrow> options" where
  "checked_options mc op \<equiv> set_size (default_threads mc op)"

text \<open>A test of copy, check and invert workers without deliberate errors and without a change of the frequency.\<close>

definition plain_test :: "options \<Rightarrow> bool" where
  "plain_test op \<longleftrightarrow> 0 < op_val op ''size_mb_'' \<and> op_val op ''size_mb_'' < 2 ^ 43 \<and> op_val op ''address_mode_'' = 64 \<and>
     - 1 \<le> op_val op ''memory_threads_'' \<and> 0 \<le> op_val op ''invert_threads_'' \<and> 0 \<le> op_val op ''check_threads_'' \<and>
     (\<forall>m \<in> {''monitor_mode_'', ''file_threads_'', ''listen_threads_'', ''net_threads_'', ''disk_threads_'', ''cpu_stress_threads_'', ''cc_test_'',
        ''cpu_freq_test_'', ''region_mode_'', ''do_page_map_'', ''error_injection_'', ''crazy_error_injection_'', ''stop_on_error_''}. op_val op m = 0) \<and>
     (op_val op ''check_threads_'' = 0 \<or> op_val op ''skip_final_check_'' \<noteq> 0 \<or> op_val op ''final_check_threads_explicit_'' \<noteq> 0) \<and>
     op_dram_frequencies op = [] \<and> 0 \<le> op_val op ''pause_duration_''"

lemma set_size_frame [simp]:
  "op_dram_frequencies (set_size op) = op_dram_frequencies op" "op_queue (set_size op) = op_queue op" "op_pattern_selector (set_size op) = op_pattern_selector op"
  "op_fill_preset (set_size op) = op_fill_preset op"
  "op_dram_frequencies (default_threads mc op) = op_dram_frequencies op" "op_queue (default_threads mc op) = op_queue op"
  "op_pattern_selector (default_threads mc op) = op_pattern_selector op" "op_fill_preset (default_threads mc op) = op_fill_preset op"
  by (simp_all add: set_size_def default_threads_def assign_def)

lemma checked_val:
  assumes "0 < op_val op ''size_mb_''" "op_val op ''size_mb_'' < 2 ^ 43" "0 \<le> mc_num_cpus mc" "mc_num_cpus mc \<le> INT_MAX"
  shows "op_val (checked_options mc op) m =
    (if m = ''size_'' then op_val op ''size_mb_'' * 2 ^ 20
     else if m = ''memory_threads_'' \<and> op_val op m = - 1 then mc_num_cpus mc else op_val op m)"
proof -
  have t: "type_of_member ''size_'' = Int64" "type_of_member ''memory_threads_'' = Int32" by (simp_all add: type_of_member_def wide_members_def)
  have "convert Int64 (op_val op ''size_mb_'' * 2 ^ 20) = op_val op ''size_mb_'' * 2 ^ 20" using assms(1,2) by simp
  moreover have "convert Int32 (mc_num_cpus mc) = mc_num_cpus mc" using assms(3,4) by (intro convert_small) simp_all
  ultimately show ?thesis
    by (auto simp: set_size_def default_threads_def op_val_assign t kMegabyte_def simp del: convert.simps)
qed

lemma InitializePatterns_ok:
  assumes "InitializePatterns op = Accept pl"
  shows "pl_ok pl"
proof -
  define pl0 where "pl0 = PatternList_Initialize (SetByteOffset PatternList_new (of_int (op_val op ''pattern_byte_offset_'')))"
  have sel: "selected_pattern_ids pl0 = []" by (simp add: pl0_def PatternList_Initialize_def SetByteOffset_def PatternList_new_def Let_def)
  have wf: "\<forall>p \<in> set (patterns pl0). wf_page_pattern p" using wf_page_PatternList by (auto simp: pl0_def in_set_conv_nth)
  have ok: "pl_ok (pl0\<lparr>selected_pattern_ids := ids, selected_pattern_cursor := c\<rparr>)" if "\<forall>i \<in> set ids. i < pl_size pl0" for ids c
    using that wf weightcount_Initialize [of "SetByteOffset PatternList_new (of_int (op_val op ''pattern_byte_offset_''))"]
    by (simp add: pl_ok_def pl0_def)
  show ?thesis
  proof (cases "op_pattern_selector op = []")
    case True
    then have "pl = pl0\<lparr>selected_pattern_ids := [], selected_pattern_cursor := selected_pattern_cursor pl0\<rparr>"
      using assms sel by (simp add: InitializePatterns_def pl0_def Let_def)
    then show ?thesis using ok [of "[]" "selected_pattern_cursor pl0"] by simp
  next
    case False
    then obtain ids where "select_all pl0 (op_pattern_selector op) [] = Some ids" "pl = pl0\<lparr>selected_pattern_ids := ids, selected_pattern_cursor := 0\<rparr>"
      using assms by (auto simp: InitializePatterns_def pl0_def [symmetric] SetPatternSequence_def split: option.splits if_splits)
    then show ?thesis using ok select_all_bound [of pl0 _ "[]"] by simp
  qed
qed

text \<open>The test memory: an address that is not zero, and the pages in it.\<close>

definition memory_ok :: "machine \<Rightarrow> options \<Rightarrow> os_memory \<Rightarrow> bool" where
  "memory_ok mc op om \<longleftrightarrow> \<not> om_dynamic om \<and> om_testmem om \<noteq> 0 \<and> om_testmemsize om = op_val op ''size_mb_'' * 2 ^ 20 \<and>
     unat (om_testmem om) + nat (op_val op ''size_mb_'' * 2 ^ 20) < 2 ^ 64 \<and> 64 dvd unat (om_testmem om) \<and>
     nat (op_val op ''size_mb_'' * 2 ^ 20) div 8 \<le> length (mc_contents mc)"

lemma geometry_of_options:
  assumes op: "op_val op ''page_length_'' = 2 ^ k" "10 \<le> k" "k \<le> 30" and mem: "memory_ok mc op' om"
    and N: "1 \<le> N" "N \<le> 2 ^ 20" "int N * 2 ^ k \<le> op_val op' ''size_mb_'' * 2 ^ 20"
  shows "geometry (settings_of mc op om) N (mc_contents mc)"
proof -
  define sz where "sz = nat (op_val op' ''size_mb_'' * 2 ^ 20)"
  let ?a = "unat (om_testmem om)"
  have "0 \<le> op_val op' ''size_mb_'' * 2 ^ 20" using N(3) by (rule order.trans [rotated]) simp
  then have size: "N * 2 ^ k \<le> sz" "int sz = op_val op' ''size_mb_'' * 2 ^ 20" using N(3) by (simp_all add: sz_def le_nat_iff)
  have a: "?a + sz < 2 ^ 64" "0 < ?a" "64 dvd ?a" "sz div 8 \<le> length (mc_contents mc)" using mem by (simp_all add: memory_ok_def unat_gt_0 sz_def)
  have k: "(2 :: int) ^ k \<le> 2 ^ 30" "(64 :: int) dvd 2 ^ k"
    using op(2,3) le_imp_power_dvd [of 6 k "2 :: int"] power_increasing [of k 30 "2 :: int"] by simp_all
  have small: "unat (of_nat n :: u64) = n" if "n < 2 ^ 64" for n using that by (simp add: unat_of_nat)
  have off: "of_nat i * of_int (2 ^ k) + of_int (2 ^ k) \<le> (of_int (int sz) :: u64) \<and> om_testmem om + of_nat i * of_int (2 ^ k) \<noteq> 0" if "i < N" for i
  proof -
    have "Suc i * 2 ^ k \<le> N * 2 ^ k" using that by (intro mult_right_mono) simp_all
    then have le: "i * 2 ^ k + 2 ^ k \<le> sz" using size(1) by simp
    then have u: "unat (of_nat (i * 2 ^ k + 2 ^ k) :: u64) = i * 2 ^ k + 2 ^ k" "unat (of_nat sz :: u64) = sz"
      using a(1) by (intro small; simp)+
    have "(of_nat (i * 2 ^ k + 2 ^ k) :: u64) \<le> of_nat sz" using le by (simp only: word_le_nat_alt u)
    then have first: "of_nat i * of_int (2 ^ k) + of_int (2 ^ k) \<le> (of_int (int sz) :: u64)" by simp
    have "om_testmem om + of_nat i * of_int (2 ^ k) = of_nat (?a + i * 2 ^ k)" by simp
    moreover have "unat (of_nat (?a + i * 2 ^ k) :: u64) = ?a + i * 2 ^ k" using le a(1) by (intro small) simp
    ultimately have "unat (om_testmem om + of_nat i * of_int (2 ^ k)) = ?a + i * 2 ^ k" by (simp only:)
    then have "om_testmem om + of_nat i * of_int (2 ^ k) \<noteq> 0" using a(2) by (metis add_is_0 less_irrefl unat_0)
    with first show ?thesis by blast
  qed
  have osl: "os_testmemsize (sc_os (settings_of mc op om)) = of_int (int sz)" "os_testmem (sc_os (settings_of mc op om)) = om_testmem om"
    "\<not> os_dynamic_mapped_shmem (sc_os (settings_of mc op om))" using mem size(2) by (simp_all add: memory_ok_def settings_of_def)
  have maps: "os_maps (sc_os (settings_of mc op om)) (2 ^ k) (page_offsets N (2 ^ k))"
    unfolding os_maps_def osl page_offsets_def using off osl(3) by auto
  obtain j where "k = j + 3" using op(2) that [of "k - 3"] by simp
  then have "N * (2 ^ k div 8) \<le> N * 2 ^ k div 8" by (simp add: power_add)
  then have words: "N * page_words (settings_of mc op om) \<le> length (mc_contents mc)"
    using div_le_mono [OF size(1), of 8] a(4) op(1) by (simp add: page_words_def settings_of_def nat_power_eq)
  show ?thesis using N(1,2) k op(1) maps words a(3) by (simp add: geometry_def settings_of_def)
qed

section \<open>The run\<close>

lemma pages_of_checked:
  assumes "0 < op_val op ''size_mb_''" "op_val op ''size_mb_'' < 2 ^ 43" "0 \<le> mc_num_cpus mc" "mc_num_cpus mc \<le> INT_MAX"
    and "op_val op ''page_length_'' = 2 ^ k"
  shows "pages_of (checked_options mc op) = op_val op ''size_mb_'' * 2 ^ 20 div 2 ^ k"
  using assms by (simp add: pages_of_def checked_val quot_def)

lemma CheckEnvironment_plain:
  assumes test: "plain_test op" and cpus: "0 \<le> mc_num_cpus mc" "mc_num_cpus mc \<le> INT_MAX"
    and build: "\<not> mc_debug_build mc \<or> op_val op ''run_on_anything_'' \<noteq> 0" "mc_open_source mc"
  shows "CheckEnvironment mc op = Inr (Accept (checked_options mc op, 0))"
proof -
  have size: "0 < op_val op ''size_mb_''" "op_val op ''size_mb_'' < 2 ^ 43" using test by (simp_all add: plain_test_def)
  note val = checked_val [OF size cpus]
  have mb: "op_val (default_threads mc op) ''size_mb_'' = op_val op ''size_mb_''" by (simp add: default_threads_def op_val_assign)
  have "default_size mc (default_threads mc op) = Inr (checked_options mc op, 0)" using size(1) mb by (simp add: default_size_def)
  moreover have "find_files (checked_options mc op) = checked_options mc op" by (simp add: find_files_def FindFileDevices_def)
  moreover have "floor_size (checked_options mc op) = checked_options mc op" using test by (simp add: floor_size_def val plain_test_def)
  moreover have "\<not> cpu_freq_refused mc op" "\<not> tag_mode_refused (checked_options mc op)"
    using test by (simp_all add: cpu_freq_refused_def tag_mode_refused_def val plain_test_def)
  moreover have "1 \<le> op_val (checked_options mc op) ''size_''" using size(1) by (simp add: val)
  ultimately show ?thesis using build by (auto simp: CheckEnvironment_def IsSupported_def Let_def)
qed

lemma run_of_options:
  assumes "options_ok op" "plain_test op" "0 \<le> mc_num_cpus mc" "mc_num_cpus mc \<le> INT_MAX"
  defines "op' \<equiv> checked_options mc op"
  shows "options_agree (startup_of mc op' f t) (thread_options_of mc op')" "only_pool_workers (thread_options_of mc op')"
    "to_check_threads (thread_options_of mc op') = 0 \<or> \<not> legacy_final_check_mode (settings_of mc op' om)"
    "schedules_ok (run_options_of op')" "ro_dram_frequencies (run_options_of op') = []" "\<not> ro_crazy_error_injection (run_options_of op')"
    "0 \<le> needed_pages (startup_of mc op' f t)" "\<not> sc_error_injection (settings_of mc op' om)" "\<not> cf_stop_on_error (sc_cfg (settings_of mc op' om))"
    "1 \<le> op_val op' ''fill_threads_''" "1 \<le> op_val op' ''final_check_threads_''"
proof -
  have size: "0 < op_val op ''size_mb_''" "op_val op ''size_mb_'' < 2 ^ 43" using assms(2) by (simp_all add: plain_test_def)
  note val = checked_val [OF size assms(3,4), folded op'_def]
  note defs = startup_of_def thread_options_of_def settings_of_def run_options_of_def plain_test_def
  have freq: "op_dram_frequencies op' = op_dram_frequencies op" by (simp add: op'_def)
  have m: "member_ok m (op_val op m)" for m using assms(1) by (simp add: options_ok_def args_inv_def)
  show "options_agree (startup_of mc op' f t) (thread_options_of mc op')" "0 \<le> needed_pages (startup_of mc op' f t)"
    using assms(2,3) by (simp_all add: options_agree_def needed_pages_def val defs)
  show "only_pool_workers (thread_options_of mc op')" using assms(2) by (simp add: only_pool_workers_def val defs)
  show "to_check_threads (thread_options_of mc op') = 0 \<or> \<not> legacy_final_check_mode (settings_of mc op' om)"
    using assms(2) by (auto simp: legacy_final_check_mode_def val defs)
  show "schedules_ok (run_options_of op')" using assms(2) m [of "''print_delay_''"] m [of "''pause_delay_''"]
    by (simp add: schedules_ok_def dram_sweep_active_def freq val defs member_ok_def)
  show "ro_dram_frequencies (run_options_of op') = []" "\<not> ro_crazy_error_injection (run_options_of op')"
    "\<not> sc_error_injection (settings_of mc op' om)" "\<not> cf_stop_on_error (sc_cfg (settings_of mc op' om))"
    using assms(2) freq by (simp_all add: val defs)
  show "1 \<le> op_val op' ''fill_threads_''" "1 \<le> op_val op' ''final_check_threads_''"
    using m [of "''fill_threads_''"] m [of "''final_check_threads_''"] by (simp_all add: val member_ok_def)
qed

lemma fresh_test_state:
  assumes "pl_ok pl" "geometry (settings_of mc op om) N (mc_contents mc)" "nat (pages_of op) = N"
  shows "fresh_start (settings_of mc op om) N (op_queue op = FineLocked) (test_state mc op pl)"
    "is_errorcount (test_state mc op pl) = 0" "is_statuscount (test_state mc op pl) = 0"
  using assms by (auto simp: fresh_start_def test_state_def new_init_state_def settings_of_def)

lemma test_run_verdict:
  fixes F :: "'f fp" and op :: options and mc :: machine
  defines "op' \<equiv> checked_options mc op" and "su \<equiv> startup_of mc (checked_options mc op) 0 0"
  assumes op: "options_ok op" "plain_test op" and cpus: "0 \<le> mc_num_cpus mc" "mc_num_cpus mc \<le> INT_MAX"
    and history: "op_val op ''diag_block_history_'' = 0 \<or> mc_history_allocated mc"
    and paddr: "\<forall>a. VirtualToPhysical (al_pagesize (mc_alloc mc)) (mc_pagemap mc) a < 2 ^ 60"
    and mem: "memory_ok mc op om" and pl: "pl_ok pl"
    and N: "int N = op_val op ''size_mb_'' * 2 ^ 20 div op_val op ''page_length_''" "1 \<le> N" "N \<le> 2 ^ 20"
    and warm: "op_val op ''warm_'' \<noteq> 0 \<Longrightarrow> mc_warm_copy mc \<in> {AdlerMemcpyWarm False asm F, AdlerMemcpyAsm_sse2 xmm, AdlerMemcpyAsm_aarch64 v,
      AdlerMemcpyAsm_armv7 q}"
    and sched: "schedule_ok su (mc_init mc) True" "schedule_ok su (mc_init mc) False"
    and k: "int k = (if op_val op ''final_check_threads_explicit_'' \<noteq> 0 then op_val op ''final_check_threads_'' else op_val op ''fill_threads_'')"
    and env: "run_completes (run_options_of op') (thread_options_of mc op') N k (mc_run mc)"
  shows "test_run mc op' 0 om pl =
    Inr (ended om (if enough_pages su (op_queue op = FineLocked) \<and> threads_created (settings_of mc op' om) su (mc_init mc) (is_sat (test_state mc op' pl))
      then (PASS, 0) else (PROCEDURAL_ERRORS, 1)))"
proof -
  let ?sc = "settings_of mc op' om"
  have size: "0 < op_val op ''size_mb_''" "op_val op ''size_mb_'' < 2 ^ 43" using op(2) by (simp_all add: plain_test_def)
  note val = checked_val [OF size cpus, folded op'_def] and run = run_of_options [OF op cpus, folded op'_def]
  obtain e where e: "op_val op ''page_length_'' = 2 ^ e" "10 \<le> e" "e \<le> 30" using op(1) by (auto simp: options_ok_def)
  have pages: "pages_of op' = int N" using pages_of_checked [OF size cpus e(1)] N(1) e(1) by (simp add: op'_def)
  have page_length: "op_val op' ''page_length_'' = 2 ^ e" using e(1) by (simp add: val)
  have "int N * 2 ^ e \<le> op_val op ''size_mb_'' * 2 ^ 20" using N(1) e(1) by (simp add: minus_mod_eq_div_mult [symmetric])
  then have geo: "geometry ?sc N (mc_contents mc)" by (rule geometry_of_options [OF page_length e(2,3) mem N(2,3)])
  have fresh: "fresh_start ?sc N (op_queue op = FineLocked) (test_state mc op' pl)" "is_errorcount (test_state mc op' pl) = 0" "is_statuscount (test_state mc op' pl) = 0"
    using fresh_test_state [OF pl geo] pages by (simp_all add: op'_def)
  have su: "startup_ok su N" using pages run(10) by (simp add: startup_ok_def su_def op'_def [symmetric] startup_of_def)
  have phys: "physical_ok su" using paddr op(2)
    by (simp add: physical_ok_def su_def op'_def [symmetric] startup_of_def val plain_test_def)
  have "sc_warm ?sc \<Longrightarrow> sc_warm_copy ?sc \<in> {AdlerMemcpyWarm False asm F, AdlerMemcpyAsm_sse2 xmm, AdlerMemcpyAsm_aarch64 v, AdlerMemcpyAsm_armv7 q}"
    using warm by (simp add: settings_of_def val)
  moreover have "reap_check_count ?sc (op_val op' ''final_check_threads_'') (su_fill_threads su) = int k"
    using k by (simp add: reap_check_count_def settings_of_def startup_of_def su_def op'_def [symmetric] val)
  moreover have "0 < int k" using k run(10,11) by (simp add: val split: if_splits)
  ultimately have "main_test ?sc su (mc_entry_garbage mc) (mc_init mc) (run_options_of op') (thread_options_of mc op') (mc_run mc)
      (op_val op' ''final_check_threads_'') new_run_state (test_state mc op' pl) =
    (if enough_pages su (op_queue op = FineLocked) \<and> threads_created ?sc su (mc_init mc) (is_sat (test_state mc op' pl)) then Inr (PASS, 0) else Inr (PROCEDURAL_ERRORS, 1))"
    using run(7)
    by (intro main_test_verdict [OF fresh(1) su _ phys sched fresh(2,3) run(8,9) _ _ run(2,3) run(4-6) _ _ env]) (simp_all add: su_def op'_def [symmetric] run(1))
  moreover have "op_val op' ''do_page_map_'' = 0" "op_val op' ''diag_block_history_'' = 0 \<or> mc_history_allocated mc"
    using op(2) history by (simp_all add: val plain_test_def)
  ultimately show ?thesis using run(5) by (auto simp: test_run_def first_frequency_def su_def op'_def [symmetric])
qed

section \<open>The exit status\<close>

definition truthful :: "outcome \<Rightarrow> bool" where
  "truthful = (\<lambda>(v, n, kept). v \<noteq> None \<and> n \<in> {0, 1} \<and> (n = 0 \<longleftrightarrow> v = Some PASS))"

lemma exit_of_truthful: "truthful (ended om (exit_of r))" "truthful (failed n om)"
  by (cases r; auto simp: truthful_def ended_def failed_def exit_of_def PrintResults_def Let_def)+

lemma CheckEnvironment_no_exit: "CheckEnvironment mc op \<noteq> Inr (Exit n)"
  by (auto simp: CheckEnvironment_def res_bind_eq_Inr Let_def split: if_splits)

lemma InitializePatterns_no_exit: "InitializePatterns op \<noteq> Exit n"
  by (simp add: InitializePatterns_def Let_def split: prod.split)

lemma test_run_truthful:
  assumes "test_run mc op t om pl = Inr out"
  shows "truthful out"
proof -
  have "truthful out" if "main_test sc su g ie ro to env fc rs st = Inr r" "out = ended om r" for sc su g ie ro to env fc rs st r
    using that exit_of_truthful(1) by (auto simp: main_test_def res_bind_eq_Inr)
  then show ?thesis using assms exit_of_truthful(2) by (auto simp: test_run_def res_bind_eq_Inr Let_def split: if_splits)
qed

lemma start_test_truthful:
  assumes "start_test mc op0 = Inr out"
  shows "truthful out"
proof (cases "InitializeLogfile mc op0")
  case True
  then obtain r where r: "CheckEnvironment mc op0 = Inr r" using assms by (auto simp: start_test_def res_bind_eq_Inr)
  show ?thesis
  proof (cases r)
    case (Accept x)
    obtain op t where x: "x = (op, t)" by force
    show ?thesis
    proof (cases "op_val op ''monitor_mode_'' = 0")
      case False
      then show ?thesis using assms True r Accept x exit_of_truthful(1) by (auto simp: start_test_def monitor_run_def res_bind_eq_Inr Let_def)
    next
      case test: True
      then obtain ok om where om: "AllocateMemory mc op = Inr (ok, om)" using assms True r Accept x by (auto simp: start_test_def res_bind_eq_Inr)
      have "\<exists>pl n. out = failed n om \<or> test_run mc op t om pl = Inr out"
        using assms True r Accept x test om InitializePatterns_no_exit [of op]
        by (cases "InitializePatterns op") (auto simp: start_test_def split: if_split_asm)
      then show ?thesis using exit_of_truthful(2) test_run_truthful by blast
    qed
  qed (use assms True r exit_of_truthful(2) CheckEnvironment_no_exit in \<open>auto simp: start_test_def\<close>)
qed (use assms exit_of_truthful(2) in \<open>auto simp: start_test_def\<close>)

lemma apply_no_exit: "apply_value act arg op \<noteq> Exit n" "apply_missing act op \<noteq> Exit n"
proof -
  have "parsed r ok m op \<noteq> Exit n" for r ok m by (simp add: parsed_def split: option.split)
  moreover have "parse_bind (parsed r ok m op) (\<lambda>op'. Accept (assign x v op')) \<noteq> Exit n" for r ok m x v by (simp add: parsed_def split: option.split)
  ultimately show "apply_value act arg op \<noteq> Exit n" by (cases act) (auto simp: select_value_def apply_freq_def split: option.split)
  show "apply_missing act op \<noteq> Exit n" by (cases act) auto
qed

lemma parse_args_Exit:
  "parse_args args op = Exit n \<Longrightarrow> n \<in> {0, 1} \<and> (n = 0 \<longrightarrow> ''-h'' \<in> set args \<or> ''--help'' \<in> set args)"
proof (induction args op rule: parse_args.induct)
  case (2 arg rest op)
  obtain a op1 where f: "find_action arg op = (a, op1)" by force
  show ?case
  proof (cases a)
    case None
    then show ?thesis using "2.prems" f by (auto split: if_splits)
  next
    case (Some act)
    note f' = f [unfolded Some]
    show ?thesis
    proof (cases "takes_value act")
      case False
      then show ?thesis using "2.IH"(1) [OF f' [symmetric] refl False] "2.prems" f' by auto
    next
      case True
      show ?thesis
      proof (cases rest)
        case Nil
        then show ?thesis using "2.prems" f' True apply_no_exit(2) by simp
      next
        case (Cons v rest')
        show ?thesis
        proof (cases "apply_value act v op1")
          case (Accept op2)
          then show ?thesis using "2.IH"(2) [OF f' [symmetric] refl _ Cons Accept] "2.prems" f' True Cons by auto
        qed (use "2.prems" f' True Cons apply_no_exit(1) in auto)
      qed
    qed
  qed
qed simp

lemma parse_bind_Exit: "parse_bind x f = Exit n \<longleftrightarrow> x = Exit n \<or> (\<exists>y. x = Accept y \<and> f y = Exit n)"
  by (cases x) auto

lemma ParseArgs_Exit: "ParseArgs argv op = Exit n \<Longrightarrow> n \<in> {0, 1} \<and> (n = 0 \<longrightarrow> ''-h'' \<in> set (tl argv) \<or> ''--help'' \<in> set (tl argv))"
proof -
  assume r: "ParseArgs argv op = Exit n"
  have checks: "check_page_length q \<noteq> Exit n" "check_channels q \<noteq> Exit n" for q by (simp_all add: check_page_length_def check_channels_def Let_def)
  have "finish_args argv op' \<noteq> Exit n" for op'
    unfolding finish_args_def Let_def by (auto simp: parse_bind_Exit checks)
  then have "parse_args (drop 1 argv) (assign ''filesize'' (op_val op ''page_length_'' * op_val op ''disk_pages_'') op) = Exit n"
    using r unfolding ParseArgs_def Let_def by (cases "parse_args (drop 1 argv) (assign ''filesize'' (op_val op ''page_length_'' * op_val op ''disk_pages_'') op)") auto
  from parse_args_Exit [OF this] show ?thesis by (simp add: drop_Suc)
qed

lemma prepare_map_set: "prepare_map args on = Some (args', b) \<Longrightarrow> set args' \<subseteq> insert ''lpddr-v1'' (set args)"
proof (induction args on arbitrary: args' b rule: prepare_map.induct)
  case (1 a v rest on)
  show ?case
  proof (cases "a = ''--dram-map''")
    case False
    then obtain as where "prepare_map (v # rest) on = Some (as, b)" "args' = a # as" using "1.prems" by auto
    then show ?thesis using "1.IH"(1) [OF False, of as b] by auto
  next
    case True
    then have v: "v \<noteq> ''lpddr-v1''" using "1.prems" by auto
    then obtain as where "prepare_map rest (v = ''sm8975-lp6'') = Some (as, b)" "args' = a # (if v = ''sm8975-lp6'' then ''lpddr-v1'' else v) # as"
      using "1.prems" True by auto
    then show ?thesis using "1.IH"(2) [of as b] True v by auto
  qed
qed auto

section \<open>Properties\<close>



section \<open>Concrete instances\<close>

text \<open>The command line of \<open>Options\<close> on a machine with four processors: eight pages, two copy workers, one worker for fill and final check.\<close>

definition ex_mc :: machine where
  "ex_mc = \<lparr>mc_debug_build = False, mc_open_source = True, mc_log_opened = True, mc_log_seek = True, mc_num_cpus = 4, mc_cpu_count = 4, mc_cores = 4,
     mc_cpu_freq_can_run = False,
     mc_mem_info = \<lparr>mi_pages = 262144, mi_pagesize = 4096, mi_hugepages = (0, []), mi_min_hugepages_bytes = 0, mi_reserve_mb = 0\<rparr>,
     mc_alloc = ex_alloc, mc_history_allocated = True, mc_contents = replicate 131072 7, mc_pagemap = (\<lambda>_. None), mc_queue_garbage = (\<lambda>_. blank_pe),
     mc_entry_garbage = blank_pe, mc_warm_copy = AdlerMemcpyC, mc_frequency = \<lparr>fq_open = True, fq_writes = [], fq_close = True\<rparr>,
     mc_init = ex_ie\<lparr>ie_schedule := (\<lambda>_. replicate 25 (0, ex_step True))\<rparr>,
     mc_run = ex_re\<lparr>re_final_schedule := replicate 25 (0, ex_step False)\<rparr>\<rparr>"

definition ex_om :: os_memory where
  "ex_om = \<lparr>om_use_hugepages = False, om_use_posix_shm = False, om_dynamic = False, om_mmapped = True, om_testmem = 0x10000, om_testmemsize = 1048576,
     om_live = [PlainMapping 0x10000]\<rparr>"

lemma ex_op_val: "op_val ex_op m = (case map_of [(''disk_pages_'', 64), (''size_'', 1048576), (''runtime_seconds_'', 5), (''fill_threads_'', 1),
    (''memory_threads_'', 2), (''page_length_'', 131072), (''size_mb_'', 1), (''filesize'', 8388608)] m of
  Some v \<Rightarrow> v | None \<Rightarrow> op_val Sat_new m)"
  by (simp add: ex_op_def ex_parsed_def op_val_assign ex_val_types)

lemma ex_mc_cpus: "0 \<le> mc_num_cpus ex_mc" "mc_num_cpus ex_mc \<le> INT_MAX"
  by (simp_all add: ex_mc_def INT_MAX_def)

lemma ex_mc_fields:
  "ie_schedule (mc_init ex_mc) preset = replicate 25 (0, ex_step True)" "ie_spawned (mc_init ex_mc) = (\<lambda>_ _. True)" "mc_pagemap ex_mc = (\<lambda>_. None)"
  "\<not> mc_debug_build ex_mc" "mc_open_source ex_mc" "mc_history_allocated ex_mc"
  "mc_alloc ex_mc = ex_alloc"
  by (simp_all add: ex_mc_def ex_ie_def)

lemma ex_op_frame:
  "op_dram_frequencies ex_op = []" "op_queue ex_op = FineLocked" "op_pattern_selector ex_op = []" "op_fill_preset ex_op = FILL_PRESET_NONE"
  by (simp_all add: ex_op_def ex_parsed_def assign_def Sat_new_def)

lemma ex_plain_test: "plain_test (ex_op\<lparr>op_cmdline := line\<rparr>)"
  by (simp add: plain_test_def ex_op_frame ex_op_val op_val_Sat_new default_values_def)

lemma ex_checked_val: "op_val (checked_options ex_mc (ex_op\<lparr>op_cmdline := line\<rparr>)) m = op_val ex_op m"
  using checked_val [OF _ _ ex_mc_cpus, of "ex_op\<lparr>op_cmdline := line\<rparr>" m] by (simp add: ex_op_val)

lemma ex_memory: "AllocateMemory ex_mc (checked_options ex_mc (ex_op\<lparr>op_cmdline := line\<rparr>)) = Inr (True, ex_om)"
  "memory_ok ex_mc (ex_op\<lparr>op_cmdline := line\<rparr>) ex_om" "Cleanup ex_om = []"
proof -
  have "op_val ex_op ''size_'' = 1048576" "op_val ex_op ''address_mode_'' = 64" by (simp_all add: ex_op_val op_val_Sat_new default_values_def)
  then show "AllocateMemory ex_mc (checked_options ex_mc (ex_op\<lparr>op_cmdline := line\<rparr>)) = Inr (True, ex_om)"
    by (simp add: AllocateMemory_def ex_checked_val AllocateTestMem_def prefer_posix_shm_def prefer_hugepages_def hugepage_bytes_def FindHugePages_def
        try_plain_def hold_def no_memory_def ex_mc_fields ex_alloc_def ex_om_def Let_def)
  show "memory_ok ex_mc (ex_op\<lparr>op_cmdline := line\<rparr>) ex_om" by (simp add: memory_ok_def ex_om_def ex_op_val ex_mc_def)
  show "Cleanup ex_om = []" by (simp add: Cleanup_def FreeTestMem_def release_def ex_om_def Let_def)
qed

lemma ex_main_completes: "to_memory_threads to = 2 \<Longrightarrow> to_check_threads to = 0 \<Longrightarrow> to_invert_threads to = 0 \<Longrightarrow> ro_runtime_seconds ro = 5 \<Longrightarrow>
  run_completes ro to 8 1 (mc_run ex_mc)"
proof -
  assume to: "to_memory_threads to = 2" "to_check_threads to = 0" "to_invert_threads to = 0" "ro_runtime_seconds ro = 5"
  let ?es' = "concat (replicate 8 [(0, ex_step False), (1, ex_step False)])"
  have "own_steps ?es' 0 = 8" "own_steps ?es' 1 = 8" "\<forall>e \<in> set ?es'. \<not> se_ready (snd e)" by (simp_all add: eval_nat_numeral ex_step_def)
  then show ?thesis unfolding run_completes_def using ex_run to
    by (intro conjI exI [of _ "[(0, ex_step True), (1, ex_step True)]"] exI [of _ ?es']) (auto simp: ex_mc_def ex_re_def less_Suc_eq numeral_2_eq_2)
qed



end
