(* ===== verification/VmStats.thy ===== *)
theory VmStats
  imports OsMemory Diagnostics
begin

text \<open>
  The numbers printed for \<open>--diag-phase-summary\<close> and \<open>--diag-vm-stats\<close>: \<open>Sat::PrintDiagnosticPhaseSummary\<close>, \<open>ReadProcKbTotal\<close> and
  \<open>Sat::LogVmStats\<close> (\<^verbatim>\<open>src/src/sat.cc\<close>), and \<open>OsLayer::test_memory_backend\<close> (\<^verbatim>\<open>src/src/os.h\<close>). A printed line is the list of its values.
\<close>

section \<open>The summary of the phases\<close>

definition all_phases :: "DiagnosticPhase list" where
  "all_phases = [DIAG_PHASE_PRESET_FILL, DIAG_PHASE_INITIAL_FILL, DIAG_PHASE_FILL_IMMEDIATE_CHECK, DIAG_PHASE_POST_FILL_CHECK, DIAG_PHASE_COPY_TRANSFER,
     DIAG_PHASE_COPY_DESTINATION_CHECK, DIAG_PHASE_INVERT_PRECHECK, DIAG_PHASE_INVERT_RMW, DIAG_PHASE_INVERT_POSTCHECK, DIAG_PHASE_RUNTIME_CHECK,
     DIAG_PHASE_FINAL_CHECK]"

definition unused_phase :: "DiagnosticPhaseStats \<Rightarrow> bool" where
  "unused_phase s \<longleftrightarrow> ds_blocks s = 0 \<and> ds_checksum_mismatch_regions s = 0 \<and> ds_word_mismatches s = 0"

text \<open>The lines, with the name of the phase and its totals.\<close>

definition PrintDiagnosticPhaseSummary :: "bool \<Rightarrow> DiagnosticPhaseStats list \<Rightarrow> (string \<times> DiagnosticPhaseStats) list" where
  "PrintDiagnosticPhaseSummary diag_phase_summary stats =
     (if \<not> diag_phase_summary then []
      else map (\<lambda>(ph, s). (DiagnosticPhaseName ph, s)) (filter (\<lambda>(ph, s). \<not> unused_phase s) (zip all_phases stats)))"

section \<open>Values of \<^verbatim>\<open>/proc\<close> files\<close>

text \<open>\<open>sscanf\<close> with \<^verbatim>\<open>%llu\<close>: white space, a sign and digits; the text after the number need not match for the number to count.\<close>

definition scan_ull :: "string \<Rightarrow> int option" where
  "scan_ull s =
     (case sign_of (dropWhile is_c_space s) of (neg, t) \<Rightarrow>
        if t = [] \<or> \<not> is_digit (hd t) then None else Some (convert Int64 (strtoull_base 10 s)))"

definition starts_with :: "string \<Rightarrow> string \<Rightarrow> bool" where
  "starts_with key line \<longleftrightarrow> take (length key) line = key"

text \<open>The lines \<open>fgets\<close> returns, \<open>None\<close> if the file cannot be opened.\<close>

definition ReadProcKbTotal :: "string list option \<Rightarrow> string \<Rightarrow> int" where
  "ReadProcKbTotal file key =
     (case file of
        None \<Rightarrow> - 1
      | Some rows \<Rightarrow>
          let values = List.map_filter (\<lambda>line. if starts_with key line then scan_ull (drop (length key) line) else None) rows
          in if values = [] then - 1 else sum_list values)"

section \<open>The state of the virtual memory\<close>

definition test_memory_backend :: "os_memory \<Rightarrow> string" where
  "test_memory_backend om =
     (if om_use_hugepages om then ''sysv_hugepage''
      else if om_use_posix_shm om \<and> om_dynamic om then ''posix_shm_dynamic''
      else if om_use_posix_shm om then ''posix_shm_static''
      else if om_mmapped om then ''anonymous_mmap''
      else ''memalign'')"

record vm_usage =
  vu_minor :: int
  vu_major :: int
  vu_max_rss :: int
  vu_voluntary :: int
  vu_involuntary :: int

text \<open>What one call reads: \<open>getrusage\<close>, and the three files.\<close>

record vm_reading =
  vr_usage :: "vm_usage option"
  vr_status :: "string list option"
  vr_rollup :: "string list option"
  vr_smaps :: "string list option"

record vm_last =
  vl_minor :: int
  vl_major :: int

record vm_line =
  vm_phase :: string
  vm_backend :: string
  vm_dynamic :: bool
  vm_minor_faults :: int
  vm_minor_delta :: int
  vm_major_faults :: int
  vm_major_delta :: int
  vm_rss_kb :: int
  vm_max_rss_kb :: int
  vm_anon_huge_kb :: int
  vm_voluntary :: int
  vm_involuntary :: int

definition faults_delta :: "int option \<Rightarrow> int \<Rightarrow> int" where
  "faults_delta faults last_faults = (case faults of None \<Rightarrow> - 1 | Some n \<Rightarrow> if 0 \<le> last_faults then n - last_faults else - 1)"

abbreviation or_unknown :: "int option \<Rightarrow> int" where
  "or_unknown x \<equiv> (case x of None \<Rightarrow> - 1 | Some n \<Rightarrow> n)"

definition LogVmStats :: "bool \<Rightarrow> string \<Rightarrow> os_memory \<Rightarrow> vm_reading \<Rightarrow> vm_last \<Rightarrow> vm_line option \<times> vm_last" where
  "LogVmStats diag_vm_stats phase om reading st =
     (if \<not> diag_vm_stats then (None, st)
      else
        let usage = vr_usage reading;
            minor = map_option vu_minor usage; major = map_option vu_major usage;
            rollup = ReadProcKbTotal (vr_rollup reading) ''AnonHugePages:'';
            line = \<lparr>vm_phase = phase, vm_backend = test_memory_backend om, vm_dynamic = om_dynamic om,
              vm_minor_faults = or_unknown minor, vm_minor_delta = faults_delta minor (vl_minor st),
              vm_major_faults = or_unknown major, vm_major_delta = faults_delta major (vl_major st),
              vm_rss_kb = ReadProcKbTotal (vr_status reading) ''VmRSS:'', vm_max_rss_kb = or_unknown (map_option vu_max_rss usage),
              vm_anon_huge_kb = (if rollup < 0 then ReadProcKbTotal (vr_smaps reading) ''AnonHugePages:'' else rollup),
              vm_voluntary = or_unknown (map_option vu_voluntary usage), vm_involuntary = or_unknown (map_option vu_involuntary usage)\<rparr>
        in (Some line, case usage of None \<Rightarrow> st | Some u \<Rightarrow> \<lparr>vl_minor = vu_minor u, vl_major = vu_major u\<rparr>))"

definition no_vm_stats :: vm_last where
  "no_vm_stats = \<lparr>vl_minor = - 1, vl_major = - 1\<rparr>"

fun log_phases :: "os_memory \<Rightarrow> (string \<times> vm_reading) list \<Rightarrow> vm_last \<Rightarrow> vm_line list \<times> vm_last" where
  "log_phases om [] st = ([], st)"
| "log_phases om ((phase, reading) # rest) st =
     (case LogVmStats True phase om reading st of (line, st1) \<Rightarrow> case log_phases om rest st1 of (lines, st2) \<Rightarrow>
        ((case line of None \<Rightarrow> lines | Some l \<Rightarrow> l # lines), st2))"

section \<open>Correctness of the numbers\<close>

text \<open>A phase is printed exactly if something was counted in it, in the order of the phases and with the totals of its slot.\<close>

lemma summary_exact:
  assumes "length stats = phase_slot DIAG_PHASE_COUNT"
  shows "(name, s) \<in> set (PrintDiagnosticPhaseSummary True stats) \<longleftrightarrow>
    (\<exists>ph \<in> set all_phases. name = DiagnosticPhaseName ph \<and> s = stats ! phase_slot ph \<and> \<not> unused_phase s)"
proof -
  have len: "length all_phases = length stats" using assms by (simp add: all_phases_def)
  have slot: "phase_slot (all_phases ! i) = i" if "i < length all_phases" for i
    using that by (auto simp: all_phases_def less_Suc_eq nth_Cons')
  have "(ph, s) \<in> set (zip all_phases stats) \<longleftrightarrow> ph \<in> set all_phases \<and> s = stats ! phase_slot ph" for ph
    using len slot by (auto simp: set_zip in_set_conv_nth)
  then show ?thesis unfolding PrintDiagnosticPhaseSummary_def by auto
qed

text \<open>The differences of the phases add up: with readings that succeed, their sum after the first line is the growth from the first reading to the last.\<close>

lemma deltas_add_up:
  assumes "\<forall>(phase, reading) \<in> set rest. \<exists>u. vr_usage reading = Some u \<and> 0 \<le> vu_minor u" "0 \<le> vl_minor st"
  shows "sum_list (map vm_minor_delta (fst (log_phases om rest st))) = vl_minor (snd (log_phases om rest st)) - vl_minor st"
  using assms
proof (induction rest arbitrary: st)
  case (Cons x rest)
  obtain phase reading u where x: "x = (phase, reading)" "vr_usage reading = Some u" "0 \<le> vu_minor u" using Cons.prems(1) by (cases x) auto
  let ?st = "\<lparr>vl_minor = vu_minor u, vl_major = vu_major u\<rparr>"
  have "sum_list (map vm_minor_delta (fst (log_phases om rest ?st))) = vl_minor (snd (log_phases om rest ?st)) - vu_minor u"
    using Cons.IH [of ?st] Cons.prems x by simp
  then show ?case using Cons.prems(2) x by (auto simp: LogVmStats_def faults_delta_def Let_def split: prod.splits)
qed simp

end
