(* ===== verification/CacheCoherency.thy ===== *)
theory CacheCoherency
  imports SatPrelude
begin

text \<open>
  The cache coherency test: the counters that \<open>Sat::InitializeThreads\<close> allocates and \<open>Sat::CacheLineSize\<close> (\<^verbatim>\<open>src/src/sat.cc\<close>), and
  \<open>CpuCacheCoherencyThread\<close> (\<^verbatim>\<open>src/src/worker.cc\<close>). Every thread has one byte in each cache line; loads and stores of these
  bytes are single steps, and the steps of the threads interleave.
\<close>

section \<open>The counters\<close>

text \<open>The largest of the sizes of the levels.\<close>

definition CacheLineSize :: "int list \<Rightarrow> int" where
  "CacheLineSize sizes = (case sizes of [] \<Rightarrow> 0 | level1 # rest \<Rightarrow> foldl (\<lambda>big x. if big < x then x else big) level1 rest)"

definition cc_line_size :: "int \<Rightarrow> int list \<Rightarrow> int" where
  "cc_line_size cc_cacheline_size sizes =
     (if cc_cacheline_size \<le> 0 then (let n = CacheLineSize sizes in if n < 64 then 64 else n) else cc_cacheline_size)"

text \<open>One chunk for each cache line structure, cleared for the processors; the rest of it is not set.\<close>

definition cc_row :: "(nat \<Rightarrow> 8 word) \<Rightarrow> int \<Rightarrow> int \<Rightarrow> 8 word list" where
  "cc_row garbage line_size num_cpus =
     (let needed_lines = (num_cpus + line_size - 1) div line_size; bytes = nat (line_size * needed_lines)
      in replicate (nat num_cpus) 0 @ map garbage [nat num_cpus..<bytes])"

definition cc_rows :: "(nat \<Rightarrow> 8 word) \<Rightarrow> int \<Rightarrow> int \<Rightarrow> nat \<Rightarrow> 8 word list list" where
  "cc_rows garbage line_size num_cpus cc_cacheline_count = replicate cc_cacheline_count (cc_row garbage line_size num_cpus)"

section \<open>The thread\<close>

record cc_config =
  cc_lines :: nat
  cc_count :: nat
  cc_inc :: int
  cc_injection :: bool
  cc_stop_on_error :: bool
  cc_signed_char :: bool

text \<open>Where a thread is: at the head of its loop, before an increment, between its load and its store, in the sum before a load and before the
  reset, before the comparison.\<close>

datatype cc_pc = CcHead | CcLoad nat | CcStore nat nat "8 word" | CcSum nat u32 | CcReset nat u32 | CcCompare u32 | CcDone

record cc_thread =
  cc_num :: nat
  cc_r :: u64
  cc_pc :: cc_pc
  cc_errorcount :: int
  cc_total_inc :: u64

record cc_shared =
  cc_cells :: "8 word list list"
  cc_stop :: bool

definition kRandomPolynomial :: u64 where
  "kRandomPolynomial = 0xD800000000000000"

definition SimpleRandom :: "u64 \<Rightarrow> u64" where
  "SimpleRandom seed = drop_bit 1 seed XOR (- (seed AND 1) AND kRandomPolynomial)"

definition cc_offset :: "cc_config \<Rightarrow> nat \<Rightarrow> nat \<Rightarrow> nat" where
  "cc_offset cf line num = (if odd line \<and> odd num then cc_count cf - cc_count cf mod 2 - num else num)"

definition cc_load :: "cc_config \<Rightarrow> nat \<Rightarrow> nat \<Rightarrow> 8 word list list \<Rightarrow> 8 word res" where
  "cc_load cf line num cells = res_bind (rd cells line) (\<lambda>row. rd row (cc_offset cf line num))"

definition cc_store :: "cc_config \<Rightarrow> nat \<Rightarrow> nat \<Rightarrow> 8 word \<Rightarrow> 8 word list list \<Rightarrow> 8 word list list res" where
  "cc_store cf line num v cells =
     res_bind (rd cells line) (\<lambda>row. res_bind (wr row (cc_offset cf line num) v) (\<lambda>row'. wr cells line row'))"

definition char_to_int :: "cc_config \<Rightarrow> 8 word \<Rightarrow> u32" where
  "char_to_int cf v = (if cc_signed_char cf then scast v else ucast v)"

text \<open>One step. \<open>ready\<close> is the answer of \<open>IsReadyToRun\<close>; \<open>r % cc_cacheline_count_\<close> fails for no cache lines.\<close>

definition cc_step :: "cc_config \<Rightarrow> bool \<Rightarrow> cc_thread \<times> cc_shared \<Rightarrow> (cc_thread \<times> cc_shared) res" where
  "cc_step cf ready = (\<lambda>(th, sh).
     case cc_pc th of
       CcHead \<Rightarrow> Inr (th\<lparr>cc_pc := (if ready \<and> \<not> cc_stop sh then CcLoad 0 else CcDone)\<rparr>, sh)
     | CcLoad i \<Rightarrow>
         if int i < cc_inc cf
         then let r = SimpleRandom (cc_r th)
              in if cc_lines cf = 0 then Inl DivisionByZero
                 else let line = unat r mod cc_lines cf
                      in res_bind (cc_load cf line (cc_num th) (cc_cells sh)) (\<lambda>v. Inr (th\<lparr>cc_r := r, cc_pc := CcStore i line v\<rparr>, sh))
         else Inr (th\<lparr>cc_pc := CcSum 0 0, cc_total_inc := cc_total_inc th + of_int (cc_inc cf)\<rparr>, sh)
     | CcStore i line v \<Rightarrow>
         res_bind (cc_store cf line (cc_num th) (v + 1) (cc_cells sh)) (\<lambda>cells. Inr (th\<lparr>cc_pc := CcLoad (Suc i)\<rparr>, sh\<lparr>cc_cells := cells\<rparr>))
     | CcSum line acc \<Rightarrow>
         if line < cc_lines cf
         then res_bind (cc_load cf line (cc_num th) (cc_cells sh)) (\<lambda>v. Inr (th\<lparr>cc_pc := CcReset line (acc + char_to_int cf v)\<rparr>, sh))
         else Inr (th\<lparr>cc_pc := CcCompare (if cc_injection cf then - 1 else acc)\<rparr>, sh)
     | CcReset line acc \<Rightarrow>
         res_bind (cc_store cf line (cc_num th) 0 (cc_cells sh)) (\<lambda>cells. Inr (th\<lparr>cc_pc := CcSum (Suc line) acc\<rparr>, sh\<lparr>cc_cells := cells\<rparr>))
     | CcCompare acc \<Rightarrow>
         if acc AND 0xff \<noteq> of_int (cc_inc cf) AND 0xff
         then Inr (th\<lparr>cc_errorcount := cc_errorcount th + 1, cc_pc := CcHead\<rparr>, sh\<lparr>cc_stop := cc_stop sh \<or> cc_stop_on_error cf\<rparr>)
         else Inr (th\<lparr>cc_pc := CcHead\<rparr>, sh)
     | CcDone \<Rightarrow> Inr (th, sh))"

text \<open>A schedule: which thread takes a step, and whether it is told to go on.\<close>

fun run_cc :: "cc_config \<Rightarrow> (nat \<times> bool) list \<Rightarrow> cc_thread list \<times> cc_shared \<Rightarrow> (cc_thread list \<times> cc_shared) res" where
  "run_cc cf [] x = Inr x"
| "run_cc cf ((t, ready) # es) (ths, sh) =
     (if t < length ths then res_bind (cc_step cf ready (ths ! t, sh)) (\<lambda>(th, sh'). run_cc cf es (ths[t := th], sh'))
      else run_cc cf es (ths, sh))"

section \<open>Every thread has its own bytes\<close>

lemma cc_offset_less: "num < cc_count cf \<Longrightarrow> cc_offset cf line num < cc_count cf"
  by (auto simp: cc_offset_def elim!: oddE)

lemma cc_offset_inj:
  assumes "num < cc_count cf" "num' < cc_count cf" "cc_offset cf line num = cc_offset cf line num'"
  shows "num = num'"
proof (cases "odd line")
  case True
  define m where "m = cc_count cf - cc_count cf mod 2"
  have m: "even m" "n < m" if "odd n" "n < cc_count cf" for n
    using that by (auto simp: m_def minus_mod_eq_mult_div elim!: oddE) presburger+
  show ?thesis using assms True m(2) [of num] m(2) [of num'] m(1) [of num] m(1) [of num']
    by (cases "odd num"; cases "odd num'") (auto simp: cc_offset_def m_def [symmetric])
qed (use assms in \<open>simp add: cc_offset_def\<close>)

definition cells_ok :: "cc_config \<Rightarrow> 8 word list list \<Rightarrow> bool" where
  "cells_ok cf cells \<longleftrightarrow> length cells = cc_lines cf \<and> (\<forall>row \<in> set cells. cc_count cf \<le> length row)"

abbreviation cell :: "cc_config \<Rightarrow> nat \<Rightarrow> 8 word list list \<Rightarrow> nat \<Rightarrow> 8 word" where
  "cell cf num cells line \<equiv> cells ! line ! cc_offset cf line num"

abbreviation set_cell :: "cc_config \<Rightarrow> nat \<Rightarrow> nat \<Rightarrow> 8 word \<Rightarrow> 8 word list list \<Rightarrow> 8 word list list" where
  "set_cell cf num line v cells \<equiv> cells[line := (cells ! line)[cc_offset cf line num := v]]"

lemma cell_access:
  assumes "cells_ok cf cells" "line < cc_lines cf" "num < cc_count cf"
  shows "cc_load cf line num cells = Inr (cell cf num cells line)" "cc_store cf line num v cells = Inr (set_cell cf num line v cells)"
    "cells_ok cf (set_cell cf num line v cells)"
proof -
  have row: "line < length cells" "cc_offset cf line num < length (cells ! line)"
    using assms cc_offset_less [OF assms(3), of line] by (auto simp: cells_ok_def dest!: nth_mem intro: less_le_trans)
  then show "cc_load cf line num cells = Inr (cell cf num cells line)" "cc_store cf line num v cells = Inr (set_cell cf num line v cells)"
    by (simp_all add: cc_load_def cc_store_def)
  show "cells_ok cf (set_cell cf num line v cells)" using assms(1) row
    by (auto simp: cells_ok_def all_set_conv_all_nth nth_list_update)
qed

lemma cell_update:
  assumes "cells_ok cf cells" "line < cc_lines cf" "num < cc_count cf" "num' < cc_count cf" "l < cc_lines cf"
  shows "cell cf num' (set_cell cf num line v cells) l = (if num' = num \<and> l = line then v else cell cf num' cells l)"
proof -
  have row: "line < length cells" "cc_offset cf line num < length (cells ! line)" "l < length cells"
    using assms cc_offset_less [OF assms(3), of line] by (auto simp: cells_ok_def dest!: nth_mem intro: less_le_trans)
  then show ?thesis using cc_offset_inj [OF assms(3,4), of line] by (auto simp: nth_list_update)
qed

section \<open>The counters agree\<close>

definition own_sum :: "cc_config \<Rightarrow> nat \<Rightarrow> 8 word list list \<Rightarrow> nat \<Rightarrow> 8 word" where
  "own_sum cf num cells k = (\<Sum>line = k..<cc_lines cf. cell cf num cells line)"

definition cleared :: "cc_config \<Rightarrow> nat \<Rightarrow> 8 word list list \<Rightarrow> nat \<Rightarrow> bool" where
  "cleared cf num cells n \<longleftrightarrow> (\<forall>line<n. cell cf num cells line = 0)"

text \<open>What a thread knows of its bytes. Sums are taken modulo 256.\<close>

definition pc_inv :: "cc_config \<Rightarrow> nat \<Rightarrow> 8 word list list \<Rightarrow> cc_pc \<Rightarrow> bool" where
  "pc_inv cf num cells pc \<longleftrightarrow>
     (case pc of
        CcHead \<Rightarrow> cleared cf num cells (cc_lines cf)
      | CcLoad i \<Rightarrow> int i \<le> cc_inc cf \<and> own_sum cf num cells 0 = of_nat i
      | CcStore i line v \<Rightarrow> int i < cc_inc cf \<and> line < cc_lines cf \<and> v = cell cf num cells line \<and> own_sum cf num cells 0 = of_nat i
      | CcSum line acc \<Rightarrow> line \<le> cc_lines cf \<and> cleared cf num cells line \<and> ucast acc + own_sum cf num cells line = of_int (cc_inc cf)
      | CcReset line acc \<Rightarrow> line < cc_lines cf \<and> cleared cf num cells line \<and> ucast acc + own_sum cf num cells (Suc line) = of_int (cc_inc cf)
      | CcCompare acc \<Rightarrow> cleared cf num cells (cc_lines cf) \<and> (ucast acc :: 8 word) = of_int (cc_inc cf)
      | CcDone \<Rightarrow> True)"

lemma own_sum_first: "line < cc_lines cf \<Longrightarrow> own_sum cf num cells line = cell cf num cells line + own_sum cf num cells (Suc line)"
  by (simp add: own_sum_def sum.atLeast_Suc_lessThan)

lemma own_sum_update:
  assumes "cells_ok cf cells" "line < cc_lines cf" "num < cc_count cf"
  shows "own_sum cf num (set_cell cf num line v cells) k = (if k \<le> line then own_sum cf num cells k + v - cell cf num cells line else own_sum cf num cells k)"
proof -
  let ?cells = "set_cell cf num line v cells"
  have same: "(\<Sum>l \<in> S. cell cf num ?cells l) = (\<Sum>l \<in> S. cell cf num cells l)" if "S \<subseteq> {..<cc_lines cf} - {line}" for S
  proof (rule sum.cong [OF refl])
    fix l assume "l \<in> S"
    then have "l < cc_lines cf" "l \<noteq> line" using that by auto
    then show "cell cf num ?cells l = cell cf num cells l" using cell_update [OF assms assms(3), of l v] by simp
  qed
  show ?thesis
  proof (cases "k \<le> line")
    case True
    have split: "own_sum cf num c k = cell cf num c line + (\<Sum>l \<in> {k..<cc_lines cf} - {line}. cell cf num c l)" for c
      unfolding own_sum_def using True assms(2) by (intro sum.remove) auto
    have "cell cf num ?cells line = v" using cell_update [OF assms assms(3,2)] by simp
    then show ?thesis using True same [of "{k..<cc_lines cf} - {line}"] by (simp add: split subset_iff)
  next
    case False
    then show ?thesis unfolding own_sum_def by (subst same) auto
  qed
qed

lemma other_thread:
  assumes "cells_ok cf cells" "line < cc_lines cf" "num < cc_count cf" "num' < cc_count cf" "num' \<noteq> num" "pc_inv cf num' cells pc"
  shows "pc_inv cf num' (set_cell cf num line v cells) pc"
proof -
  have same: "cell cf num' (set_cell cf num line v cells) l = cell cf num' cells l" if "l < cc_lines cf" for l
    using cell_update [OF assms(1-4) that] assms(5) by simp
  then have "own_sum cf num' (set_cell cf num line v cells) k = own_sum cf num' cells k" for k
    unfolding own_sum_def by (intro sum.cong) simp_all
  moreover have "cleared cf num' (set_cell cf num line v cells) n = cleared cf num' cells n" if "n \<le> cc_lines cf" for n
    using same that by (auto simp: cleared_def)
  ultimately show ?thesis using assms(6) same by (auto simp: pc_inv_def split: cc_pc.splits)
qed

lemma own_sum_cleared: "cleared cf num cells (cc_lines cf) \<Longrightarrow> own_sum cf num cells 0 = 0"
  by (simp add: own_sum_def cleared_def)

lemma low_byte: "(acc AND 0xff = of_int n AND 0xff) \<longleftrightarrow> (ucast acc :: 8 word) = of_int n" for acc :: u32
proof -
  have "acc AND 0xff = of_int n AND 0xff \<longleftrightarrow> take_bit 8 acc = take_bit 8 (of_int n)" by (simp add: take_bit_eq_mask mask_eq_exp_minus_1)
  also have "\<dots> \<longleftrightarrow> (ucast acc :: 8 word) = of_int n" by transfer (simp add: take_bit_take_bit)
  finally show ?thesis .
qed

section \<open>All threads\<close>

definition cc_inv :: "cc_config \<Rightarrow> cc_thread list \<times> cc_shared \<Rightarrow> bool" where
  "cc_inv cf = (\<lambda>(ths, sh). cells_ok cf (cc_cells sh) \<and> length ths \<le> cc_count cf \<and>
     (\<forall>t<length ths. cc_num (ths ! t) = t \<and> pc_inv cf t (cc_cells sh) (cc_pc (ths ! t))))"

lemma ucast_char: "(ucast (char_to_int cf v) :: 8 word) = v"
  by (rule bit_word_eqI) (auto simp: char_to_int_def bit_simps)

lemma ucast_sum: "(ucast (a + b) :: 8 word) = ucast a + ucast b" for a b :: u32
proof -
  have "(a mod 2 ^ 32 + b mod 2 ^ 32) mod 2 ^ 8 = (a + b) mod 2 ^ 8" for a b :: int
    by (rule mod_add_cong; rule mod_mod_cancel; simp)
  then have "take_bit 8 (take_bit 32 a + take_bit 32 b) = take_bit 8 (a + b)" for a b :: int by (simp only: take_bit_eq_mod)
  then show ?thesis by transfer simp
qed

text \<open>What one step of a thread does: it counts no error, and it changes at most one of its own bytes.\<close>

lemma cc_step_ok:
  assumes cf: "0 < cc_lines cf" "0 \<le> cc_inc cf" "\<not> cc_injection cf" and cells: "cells_ok cf (cc_cells sh)" and num: "cc_num th < cc_count cf"
    and inv: "pc_inv cf (cc_num th) (cc_cells sh) (cc_pc th)"
  obtains th' sh' where "cc_step cf ready (th, sh) = Inr (th', sh')" "cc_num th' = cc_num th" "cc_errorcount th' = cc_errorcount th" "cc_stop sh' = cc_stop sh"
    "pc_inv cf (cc_num th) (cc_cells sh') (cc_pc th')"
    "cc_cells sh' = cc_cells sh \<or> (\<exists>line<cc_lines cf. \<exists>v. cc_cells sh' = set_cell cf (cc_num th) line v (cc_cells sh))"
proof (cases "cc_pc th")
  case CcHead
  then show thesis using that inv cf own_sum_cleared by (simp add: cc_step_def pc_inv_def)
next
  case (CcLoad i)
  show thesis
  proof (cases "int i < cc_inc cf")
    case True
    have "unat (SimpleRandom (cc_r th)) mod cc_lines cf < cc_lines cf" using cf(1) by simp
    then show thesis using that True CcLoad inv cf(1) cell_access(1) [OF cells _ num] by (simp add: cc_step_def pc_inv_def Let_def)
  next
    case False
    then have "int i = cc_inc cf" using CcLoad inv by (simp add: pc_inv_def)
    then have "(of_nat i :: 8 word) = of_int (cc_inc cf)" by (metis of_int_of_nat_eq)
    then show thesis using that False CcLoad inv by (simp add: cc_step_def pc_inv_def cleared_def)
  qed
next
  case (CcStore i line v)
  then have i: "int i < cc_inc cf" "line < cc_lines cf" "v = cell cf (cc_num th) (cc_cells sh) line" "own_sum cf (cc_num th) (cc_cells sh) 0 = of_nat i"
    using inv by (simp_all add: pc_inv_def)
  have "own_sum cf (cc_num th) (set_cell cf (cc_num th) line (v + 1) (cc_cells sh)) 0 = of_nat (Suc i)"
    using own_sum_update [OF cells i(2) num, of "v + 1" 0] i(3,4) by simp
  then show thesis using that CcStore i cell_access(2) [OF cells i(2) num] by (simp add: cc_step_def pc_inv_def) blast
next
  case (CcSum line acc)
  show thesis
  proof (cases "line < cc_lines cf")
    case True
    then show thesis using that CcSum inv cell_access(1) [OF cells True num] own_sum_first [OF True, of "cc_num th" "cc_cells sh"]
      by (simp add: cc_step_def pc_inv_def ucast_char ucast_sum algebra_simps)
  next
    case False
    then show thesis using that CcSum inv cf(3) by (auto simp: cc_step_def pc_inv_def own_sum_def)
  qed
next
  case (CcReset line acc)
  then have line: "line < cc_lines cf" "cleared cf (cc_num th) (cc_cells sh) line" using inv by (simp_all add: pc_inv_def)
  have "cleared cf (cc_num th) (set_cell cf (cc_num th) line 0 (cc_cells sh)) (Suc line)"
    using cell_update [OF cells line(1) num num] line by (auto simp: cleared_def less_Suc_eq)
  then show thesis using that CcReset inv line(1) cell_access(2) [OF cells line(1) num] own_sum_update [OF cells line(1) num, of 0 "Suc line"]
    by (simp add: cc_step_def pc_inv_def) blast
next
  case (CcCompare acc)
  then show thesis using that inv by (simp add: cc_step_def pc_inv_def low_byte)
next
  case CcDone
  then show thesis using that by (simp add: cc_step_def pc_inv_def)
qed

lemma run_cc_ok:
  assumes cf: "0 < cc_lines cf" "0 \<le> cc_inc cf" "\<not> cc_injection cf" and inv: "cc_inv cf (ths, sh)"
  shows "\<exists>ths' sh'. run_cc cf es (ths, sh) = Inr (ths', sh') \<and> cc_inv cf (ths', sh') \<and> map cc_errorcount ths' = map cc_errorcount ths \<and> cc_stop sh' = cc_stop sh"
  using inv
proof (induction es arbitrary: ths sh)
  case (Cons e es)
  obtain t ready where e: "e = (t, ready)" by force
  show ?case
  proof (cases "t < length ths")
    case True
    have t: "cells_ok cf (cc_cells sh)" "cc_num (ths ! t) = t" "t < cc_count cf" "pc_inv cf t (cc_cells sh) (cc_pc (ths ! t))"
      using Cons.prems True by (simp_all add: cc_inv_def)
    obtain th' sh' where step: "cc_step cf ready (ths ! t, sh) = Inr (th', sh')" "cc_num th' = t" "cc_errorcount th' = cc_errorcount (ths ! t)" "cc_stop sh' = cc_stop sh"
      "pc_inv cf t (cc_cells sh') (cc_pc th')" "cc_cells sh' = cc_cells sh \<or> (\<exists>line<cc_lines cf. \<exists>v. cc_cells sh' = set_cell cf t line v (cc_cells sh))"
      by (rule cc_step_ok [OF cf t(1), of "ths ! t"]) (use t in auto)
    have others: "pc_inv cf u (cc_cells sh') (cc_pc (ths ! u))" if "u < length ths" "u \<noteq> t" for u
      using step(6) other_thread [OF t(1) _ t(3)] Cons.prems that by (auto simp: cc_inv_def)
    have "cells_ok cf (cc_cells sh')" using step(6) cell_access(3) [OF t(1) _ t(3)] t(1) by auto
    moreover have "cc_num (ths[t := th'] ! u) = u \<and> pc_inv cf u (cc_cells sh') (cc_pc (ths[t := th'] ! u))" if "u < length ths" for u
      using that others [OF that] Cons.prems step(2,5) by (cases "u = t") (auto simp: cc_inv_def)
    ultimately have "cc_inv cf (ths[t := th'], sh')" using Cons.prems by (simp add: cc_inv_def)
    from Cons.IH [OF this] obtain ths2 sh2 where r: "run_cc cf es (ths[t := th'], sh') = Inr (ths2, sh2)" "cc_inv cf (ths2, sh2)"
      "map cc_errorcount ths2 = map cc_errorcount (ths[t := th'])" "cc_stop sh2 = cc_stop sh'" by blast
    have "map cc_errorcount (ths[t := th']) = map cc_errorcount ths" using step(3) True by (simp add: map_update list_update_same_conv)
    then show ?thesis using e True step r by auto
  qed (use Cons e in simp)
qed simp

lemma cc_row_length: "0 < line_size \<Longrightarrow> 0 \<le> num_cpus \<Longrightarrow> nat num_cpus \<le> length (cc_row garbage line_size num_cpus)"
  by (simp add: cc_row_def Let_def)

lemma cc_rows_start:
  assumes "cc_lines cf = n" "cc_count cf = nat num_cpus" "t < nat num_cpus"
  shows "cells_ok cf (cc_rows garbage line_size num_cpus n)" "pc_inv cf t (cc_rows garbage line_size num_cpus n) CcHead"
proof -
  have row: "nat num_cpus \<le> length (cc_row garbage line_size num_cpus)" "\<forall>i<nat num_cpus. cc_row garbage line_size num_cpus ! i = 0"
    by (simp_all add: cc_row_def Let_def nth_append)
  show "cells_ok cf (cc_rows garbage line_size num_cpus n)" using row(1) assms by (simp add: cells_ok_def cc_rows_def)
  show "pc_inv cf t (cc_rows garbage line_size num_cpus n) CcHead"
    using row(2) assms cc_offset_less [of t cf] by (simp add: pc_inv_def cleared_def cc_rows_def)
qed

text \<open>
  A round that finds other counts reports it: from the end of its increments to the next head of its loop a thread that runs alone counts one error exactly if
  the sum of its bytes is not the number of its increments modulo 256.
\<close>

lemma sum_phase:
  assumes cells: "cells_ok cf (cc_cells sh)" and num: "cc_num th < cc_count cf" and line: "line + n = cc_lines cf" and pc: "cc_pc th = CcSum line acc"
    and t: "t < length ths" "ths ! t = th" and inj: "\<not> cc_injection cf"
  shows "\<exists>th' sh'. run_cc cf (replicate (2 * n + 2) (t, ready)) (ths, sh) = Inr (ths[t := th'], sh') \<and> cc_pc th' = CcHead \<and>
    cc_errorcount th' = cc_errorcount th + (if ucast acc + own_sum cf (cc_num th) (cc_cells sh) line = of_int (cc_inc cf) then 0 else 1)"
  using assms
proof (induction n arbitrary: line th sh ths acc)
  case 0
  then have "line = cc_lines cf" by simp
  then show ?case using 0 by (auto simp: cc_step_def own_sum_def low_byte numeral_2_eq_2)
next
  case (Suc n)
  have lt: "line < cc_lines cf" using Suc.prems(3) by simp
  let ?v = "cell cf (cc_num th) (cc_cells sh) line"
  let ?th = "th\<lparr>cc_pc := CcSum (Suc line) (acc + char_to_int cf ?v)\<rparr>" and ?sh = "sh\<lparr>cc_cells := set_cell cf (cc_num th) line 0 (cc_cells sh)\<rparr>"
  have two: "run_cc cf (replicate (2 * Suc n + 2) (t, ready)) (ths, sh) = run_cc cf (replicate (2 * n + 2) (t, ready)) (ths[t := ?th], ?sh)"
    using Suc.prems lt cell_access(1,2) [OF Suc.prems(1) lt Suc.prems(2)] by (simp add: cc_step_def)
  have "own_sum cf (cc_num th) (cc_cells ?sh) (Suc line) = own_sum cf (cc_num th) (cc_cells sh) (Suc line)"
    using own_sum_update [OF Suc.prems(1) lt Suc.prems(2), of 0 "Suc line"] by simp
  then have eq: "ucast (acc + char_to_int cf ?v) + own_sum cf (cc_num th) (cc_cells ?sh) (Suc line) = ucast acc + own_sum cf (cc_num th) (cc_cells sh) line"
    using own_sum_first [OF lt, of "cc_num th" "cc_cells sh"] by (simp add: ucast_sum ucast_char algebra_simps)
  have "cells_ok cf (cc_cells ?sh)" using cell_access(3) [OF Suc.prems(1) lt Suc.prems(2)] by simp
  from Suc.IH [of ?sh ?th "Suc line" "acc + char_to_int cf ?v" "ths[t := ?th]", OF this] Suc.prems eq show ?case unfolding two by simp
qed

section \<open>Properties\<close>

text \<open>
  C23. Coherent caches raise no alarm. On memory where a load returns what the last store wrote, any number of cache coherency threads in any interleaving of their loads and stores, from the
  counters \<open>InitializeThreads\<close> has allocated, stay inside the rows, count no error and ask for no stop: the mirrored positions in odd cache lines never give two
  threads the same byte, and counting modulo 256 loses nothing.
\<close>

theorem coherency_no_false_alarm:
  assumes "0 < cc_lines cf" "0 \<le> cc_inc cf" "\<not> cc_injection cf" "cc_count cf = nat num_cpus" "length ths \<le> nat num_cpus"
    and "\<forall>t<length ths. cc_num (ths ! t) = t \<and> cc_pc (ths ! t) = CcHead \<and> cc_errorcount (ths ! t) = 0"
    and "cc_cells sh = cc_rows garbage (cc_line_size line_size sizes) num_cpus (cc_lines cf)" "\<not> cc_stop sh"
  shows "\<exists>ths' sh'. run_cc cf es (ths, sh) = Inr (ths', sh') \<and> (\<forall>th \<in> set ths'. cc_errorcount th = 0) \<and> \<not> cc_stop sh'"
proof -
  have cells: "cells_ok cf (cc_cells sh)" if "ths \<noteq> []"
  proof -
    have "0 < nat num_cpus" using that assms(5) by (metis gr_zeroI le_zero_eq length_0_conv)
    then show ?thesis unfolding assms(7) by (rule cc_rows_start(1) [OF refl assms(4)])
  qed
  show ?thesis
  proof (cases "ths = []")
    case True
    have "run_cc cf es ([], sh) = Inr ([], sh)" by (induction es) auto
    then show ?thesis using True assms(8) by simp
  next
    case False
    then have "cc_inv cf (ths, sh)"
      using cells assms(4-7) cc_rows_start(2) [of cf "cc_lines cf" num_cpus _ garbage "cc_line_size line_size sizes"] by (simp add: cc_inv_def)
    from run_cc_ok [OF assms(1-3) this, of es] obtain ths' sh' where r: "run_cc cf es (ths, sh) = Inr (ths', sh')" "map cc_errorcount ths' = map cc_errorcount ths"
      "cc_stop sh' = cc_stop sh" by blast
    have "length ths' = length ths" using arg_cong [where f = length, OF r(2)] by simp
    then have "\<forall>t<length ths'. cc_errorcount (ths' ! t) = 0" using arg_cong [where f = "\<lambda>l. l ! t" for t, OF r(2)] assms(6) by (metis nth_map)
    then show ?thesis using r assms(8) by (auto simp: in_set_conv_nth)
  qed
qed

section \<open>Concrete instances\<close>

text \<open>Three threads, two cache lines of 64 bytes, five increments in a round.\<close>

definition ex_cc :: cc_config where
  "ex_cc = \<lparr>cc_lines = 2, cc_count = 3, cc_inc = 5, cc_injection = False, cc_stop_on_error = True, cc_signed_char = True\<rparr>"

definition ex_cc_threads :: "cc_thread list" where
  "ex_cc_threads = map (\<lambda>t. \<lparr>cc_num = t, cc_r = 12345, cc_pc = CcHead, cc_errorcount = 0, cc_total_inc = 0\<rparr>) [0..<3]"

theorem coherency_no_false_alarm_witness:
  "\<exists>ths' sh'. run_cc ex_cc (concat (replicate 40 [(0, True), (2, True), (1, True)]))
     (ex_cc_threads, \<lparr>cc_cells = cc_rows (\<lambda>_. 9) 64 3 2, cc_stop = False\<rparr>) = Inr (ths', sh') \<and> (\<forall>th \<in> set ths'. cc_errorcount th = 0) \<and> \<not> cc_stop sh'"
  using coherency_no_false_alarm [where cf = ex_cc and num_cpus = 3 and ths = ex_cc_threads and line_size = 0 and sizes = "[64]" and garbage = "\<lambda>_. 9"
      and sh = "\<lparr>cc_cells = cc_rows (\<lambda>_. 9) 64 3 2, cc_stop = False\<rparr>"]
  by (simp add: ex_cc_def ex_cc_threads_def cc_line_size_def CacheLineSize_def)

end
