(* ===== verification/FineLockThreads.thy ===== *)
theory FineLockThreads
  imports FineLock
begin

text \<open>
  Any number of threads on one fine-lock queue (\<^verbatim>\<open>src/src/finelock_queue.cc\<close>). A step is one
  access to shared state: drawing a random number, looking at a page record without its lock, a
  \<open>trylock\<close>, the second look under the lock, or putting a page back. Between the first look and the
  lock any other thread may run, which is why the code looks twice.
\<close>

section \<open>Threads\<close>

text \<open>
  The local state of a thread in \<open>GetRandomWithPredicateTag\<close>: the wanted kind and tag, the round,
  the next value of the walk and its random start. A \<open>Holding\<close> thread owns the record the call
  returned and may have changed anything but its offset.
\<close>

datatype thread =
    Idle
  | Probing bool u32 nat nat nat
  | Trying bool u32 nat nat nat nat
  | Checking bool u32 nat nat nat nat
  | Holding page_entry

type_synonym conc = "FineLockPEQueue \<times> (nat \<Rightarrow> thread)"

inductive fl_step :: "conc \<Rightarrow> conc \<Rightarrow> bool" where
  start: "\<lbrakk>th t = Idle; fl_q_size q \<noteq> 0; GetRandom64 busy q = (rnd, q')\<rbrakk> \<Longrightarrow>
    fl_step (q, th) (q', th(t := Probing want tag 0 1 (unat rnd mod fl_q_size q)))"
| skip: "\<lbrakk>th t = Probing want tag i next_try first_try; i < fl_q_size q;
      index = probe_index q next_try first_try; lcg_skip q (lcg64 q next_try) = Some next_try';
      \<not> (pred_func want (fl_pages q ! index) \<and> tag_matches tag (fl_pages q ! index))\<rbrakk> \<Longrightarrow>
    fl_step (q, th) (q, th(t := Probing want tag (i + 1) next_try' first_try))"
| look: "\<lbrakk>th t = Probing want tag i next_try first_try; i < fl_q_size q;
      index = probe_index q next_try first_try; lcg_skip q (lcg64 q next_try) = Some next_try';
      pred_func want (fl_pages q ! index); tag_matches tag (fl_pages q ! index)\<rbrakk> \<Longrightarrow>
    fl_step (q, th) (q, th(t := Trying want tag i next_try' first_try index))"
| trylock_busy: "\<lbrakk>th t = Trying want tag i next_try first_try index; fl_locked q ! index\<rbrakk> \<Longrightarrow>
    fl_step (q, th) (q, th(t := Probing want tag (i + 1) next_try first_try))"
| trylock: "\<lbrakk>th t = Trying want tag i next_try first_try index; \<not> fl_locked q ! index\<rbrakk> \<Longrightarrow>
    fl_step (q, th) (q\<lparr>fl_locked := (fl_locked q)[index := True]\<rparr>,
                     th(t := Checking want tag i next_try first_try index))"
| release: "\<lbrakk>th t = Checking want tag i next_try first_try index; \<not> pred_func want (fl_pages q ! index)\<rbrakk> \<Longrightarrow>
    fl_step (q, th) (q\<lparr>fl_locked := (fl_locked q)[index := False]\<rparr>,
                     th(t := Probing want tag (i + 1) next_try first_try))"
| take: "\<lbrakk>th t = Checking want tag i next_try first_try index; pred_func want (fl_pages q ! index)\<rbrakk> \<Longrightarrow>
    fl_step (q, th) (q, th(t := Holding (metrics want (fl_metric q) i (fl_pages q ! index))))"
| give_up: "\<lbrakk>th t = Probing want tag i next_try first_try; \<not> i < fl_q_size q\<rbrakk> \<Longrightarrow>
    fl_step (q, th) (q, th(t := Idle))"
| work: "\<lbrakk>th t = Holding pe; pe_offset pe' = pe_offset pe\<rbrakk> \<Longrightarrow>
    fl_step (q, th) (q, th(t := Holding pe'))"
| put_empty: "\<lbrakk>th t = Holding pe; fl_PutEmpty pe q = Inr (True, q')\<rbrakk> \<Longrightarrow>
    fl_step (q, th) (q', th(t := Idle))"
| put_valid: "\<lbrakk>th t = Holding pe; fl_PutValid pe q = Inr (True, q')\<rbrakk> \<Longrightarrow>
    fl_step (q, th) (q', th(t := Idle))"

abbreviation fl_steps :: "conc \<Rightarrow> conc \<Rightarrow> bool" where
  "fl_steps \<equiv> fl_step\<^sup>*\<^sup>*"

section \<open>Ownership\<close>

text \<open>The page entries a thread owns.\<close>

definition owns :: "FineLockPEQueue \<Rightarrow> thread \<Rightarrow> nat \<Rightarrow> bool" where
  "owns q s i \<longleftrightarrow> i < fl_q_size q \<and>
     (case s of Checking want tag r x f index \<Rightarrow> i = index
      | Holding pe \<Rightarrow> pe_offset pe = offset_of q i
      | _ \<Rightarrow> False)"

definition placed :: "FineLockPEQueue \<Rightarrow> thread \<Rightarrow> bool" where
  "placed q s \<longleftrightarrow>
     (case s of Trying want tag r x f index \<Rightarrow> index < fl_q_size q
      | Checking want tag r x f index \<Rightarrow> index < fl_q_size q
      | Holding pe \<Rightarrow> \<exists>i<fl_q_size q. pe_offset pe = offset_of q i
      | _ \<Rightarrow> True)"

definition conc_inv :: "conc \<Rightarrow> bool" where
  "conc_inv = (\<lambda>(q, th). fl_ready q \<and> (\<forall>t. placed q (th t)) \<and>
     (\<forall>i<fl_q_size q. fl_locked q ! i \<longleftrightarrow> (\<exists>t. owns q (th t) i)) \<and>
     (\<forall>t u i. owns q (th t) i \<longrightarrow> owns q (th u) i \<longrightarrow> t = u))"

lemma owns_simps [simp]:
  "\<not> owns q Idle i" "\<not> owns q (Probing want tag r x f) i" "\<not> owns q (Trying want tag r x f index) i"
  "owns q (Checking want tag r x f index) i \<longleftrightarrow> i < fl_q_size q \<and> i = index"
  "owns q (Holding pe) i \<longleftrightarrow> i < fl_q_size q \<and> pe_offset pe = offset_of q i"
  by (auto simp: owns_def)

lemma placed_simps [simp]:
  "placed q Idle" "placed q (Probing want tag r x f)"
  "placed q (Trying want tag r x f index) \<longleftrightarrow> index < fl_q_size q"
  "placed q (Checking want tag r x f index) \<longleftrightarrow> index < fl_q_size q"
  "placed q (Holding pe) \<longleftrightarrow> (\<exists>i<fl_q_size q. pe_offset pe = offset_of q i)"
  by (auto simp: placed_def)

lemma owns_cong:
  assumes "fl_q_size q' = fl_q_size q" "fl_page_size q' = fl_page_size q"
  shows "owns q' s i = owns q s i" "placed q' s = placed q s"
  using assms by (auto simp: owns_def placed_def offset_of_def split: thread.splits)

text \<open>What a step of one thread has to keep for the whole system.\<close>

lemma conc_inv_update:
  assumes inv: "conc_inv (q, th)"
    and same: "fl_q_size q' = fl_q_size q" "fl_page_size q' = fl_page_size q"
    and ready: "fl_ready q'" and placed: "placed q s"
    and acquire: "\<And>i. owns q s i \<Longrightarrow> owns q (th t) i \<or> \<not> fl_locked q ! i"
    and locked: "\<And>i. i < fl_q_size q \<Longrightarrow>
      fl_locked q' ! i \<longleftrightarrow> owns q s i \<or> fl_locked q ! i \<and> \<not> owns q (th t) i"
  shows "conc_inv (q', th(t := s))"
proof -
  have old: "\<And>u. placed q (th u)" "\<And>i. i < fl_q_size q \<Longrightarrow> fl_locked q ! i \<longleftrightarrow> (\<exists>u. owns q (th u) i)"
    "\<And>u v i. owns q (th u) i \<Longrightarrow> owns q (th v) i \<Longrightarrow> u = v"
    using inv by (auto simp: conc_inv_def)
  have lt: "owns q x i \<Longrightarrow> i < fl_q_size q" for x i by (simp add: owns_def)
  have "fl_locked q' ! i \<longleftrightarrow> (\<exists>u. owns q ((th(t := s)) u) i)" if "i < fl_q_size q" for i
    using locked [OF that] old(2) [OF that] old(3) [of _ i t] by (auto split: if_splits)
  moreover have "u = v" if "owns q ((th(t := s)) u) i" "owns q ((th(t := s)) v) i" for u v i
    using that acquire [of i] old(2) [of i] old(3) [of _ i] lt [of _ i] by (auto split: if_splits)
  moreover have "placed q ((th(t := s)) u)" for u using placed old(1) by simp
  ultimately show ?thesis
    using ready unfolding conc_inv_def prod.case owns_cong [OF same] same by blast
qed

lemma conc_inv_same:
  assumes inv: "conc_inv (q, th)" and same: "\<And>j. owns q s j \<longleftrightarrow> owns q (th t) j" and placed: "placed q s"
  shows "conc_inv (q, th(t := s))"
proof (rule conc_inv_update [OF inv])
  have "owns q (th t) j \<Longrightarrow> fl_locked q ! j" for j using inv by (auto simp: conc_inv_def owns_def)
  then show "fl_locked q ! j \<longleftrightarrow> owns q s j \<or> fl_locked q ! j \<and> \<not> owns q (th t) j" for j
    using same [of j] by blast
  show "fl_ready q" using inv by (simp add: conc_inv_def)
qed (use same placed in blast)+

lemma fl_ready_locks [simp]: "fl_ready (q\<lparr>fl_locked := (fl_locked q)[i := b]\<rparr>) = fl_ready q"
  by (simp add: fl_ready_def fl_wf_def offset_of_def)

lemma fl_ready_put:
  "fl_ready q \<Longrightarrow> i < fl_q_size q \<Longrightarrow> pe_offset pe = offset_of q i \<Longrightarrow>
   fl_ready (q\<lparr>fl_pages := (fl_pages q)[i := pe], fl_locked := (fl_locked q)[i := b]\<rparr>)"
  by (auto simp: fl_ready_def fl_wf_def offset_of_def nth_list_update)

lemma metrics_offset [simp]: "pe_offset (metrics want metric i pe) = pe_offset pe"
  by (simp add: metrics_def split: queue_metric.splits)

lemma fl_ready_wf: "fl_ready q \<Longrightarrow> fl_wf q"
  by (simp add: fl_ready_def)

lemma fl_wf_lengths:
  "fl_wf q \<Longrightarrow> length (fl_pages q) = fl_q_size q" "fl_wf q \<Longrightarrow> length (fl_locked q) = fl_q_size q"
  by (simp_all add: fl_wf_def)

lemma conc_inv_put:
  assumes inv: "conc_inv (q, th)" and t: "th t = Holding pe"
    and put: "\<And>i. i < fl_q_size q \<Longrightarrow> pe_offset pe = offset_of q i \<Longrightarrow>
      q' = q\<lparr>fl_pages := (fl_pages q)[i := pe'], fl_locked := (fl_locked q)[i := False]\<rparr>"
    and off: "pe_offset pe' = pe_offset pe"
  shows "conc_inv (q', th(t := Idle))"
proof -
  have ready: "fl_ready q" and "placed q (th t)" using inv by (auto simp: conc_inv_def)
  then obtain i where i: "i < fl_q_size q" "pe_offset pe = offset_of q i" using t by auto
  have q': "q' = q\<lparr>fl_pages := (fl_pages q)[i := pe'], fl_locked := (fl_locked q)[i := False]\<rparr>"
    by (rule put [OF i])
  have own: "owns q (th t) j \<longleftrightarrow> j < fl_q_size q \<and> j = i" for j
    using t i offset_of_inj [OF fl_ready_wf [OF ready], of i j] by auto
  show ?thesis
  proof (rule conc_inv_update [OF inv])
    show "fl_ready q'" unfolding q' using ready off i by (intro fl_ready_put) simp_all
    show "fl_locked q' ! j \<longleftrightarrow> owns q Idle j \<or> fl_locked q ! j \<and> \<not> owns q (th t) j"
      if "j < fl_q_size q" for j
      using that fl_wf_lengths [OF fl_ready_wf [OF ready]] own [of j] i(1)
      by (simp add: q' nth_list_update)
  qed (simp_all add: q')
qed

lemma conc_inv_step: "fl_step c c' \<Longrightarrow> conc_inv c \<Longrightarrow> conc_inv c'"
proof (induction rule: fl_step.induct)
  case (start th t q busy rnd q' want tag)
  then have ready: "fl_ready q" by (simp add: conc_inv_def)
  then obtain seeds where "fl_wf q'" "q' = q\<lparr>fl_rand_seed := seeds\<rparr>"
    using GetRandom64_frame [OF fl_ready_wf start(3)] by auto
  with ready start show ?case
    by (intro conc_inv_update [OF start(4)]) (auto simp: fl_ready_def offset_of_def)
next
  case (look th t want tag i next_try first_try q index next_try')
  then have "index < fl_q_size q" using probe_index_less by (auto simp: conc_inv_def fl_ready_def)
  with look show ?case by (intro conc_inv_update [OF look(7)]) (auto simp: conc_inv_def)
next
  case (trylock th t want tag i next_try first_try index q)
  have "fl_ready q" "placed q (th t)" using trylock(3) by (simp_all add: conc_inv_def)
  with trylock show ?case
    by (intro conc_inv_update [OF trylock(3)]) (auto simp: nth_list_update fl_wf_lengths fl_ready_wf)
next
  case (release th t want tag i next_try first_try index q)
  have "fl_ready q" "placed q (th t)" using release(3) by (simp_all add: conc_inv_def)
  with release show ?case
    by (intro conc_inv_update [OF release(3)]) (auto simp: nth_list_update fl_wf_lengths fl_ready_wf)
next
  case (take th t want tag i next_try first_try index q)
  have ready: "fl_ready q" "placed q (th t)"
    using take(3) by (simp_all add: conc_inv_def)
  let ?s = "Holding (metrics want (fl_metric q) i (fl_pages q ! index))"
  have index: "index < fl_q_size q" using ready(2) take(1) by simp
  have eq: "owns q ?s j \<longleftrightarrow> owns q (th t) j" for j
    using ready(1) index take(1) offset_of_inj [OF fl_ready_wf [OF ready(1)], of index j]
    by (auto simp: fl_ready_def)
  show ?case using take(3) eq ready(1) index by (intro conc_inv_same) (auto simp: fl_ready_def)
next
  case (work th t pe pe' q)
  then have "owns q (Holding pe') j \<longleftrightarrow> owns q (th t) j" for j by simp
  moreover have "placed q (th t)" using work(3) by (simp add: conc_inv_def)
  ultimately show ?case using work by (intro conc_inv_same) auto
next
  case (put_empty th t pe q q')
  then have "fl_wf q" by (simp add: conc_inv_def fl_ready_def)
  then show ?case
    using put_empty fl_PutEmpty_eq [of q _ pe] 
    by (intro conc_inv_put [OF put_empty(3,1), of _ "pe\<lparr>pe_pattern := None, pe_write_dram_frequency := - 1\<rparr>"]) auto
next
  case (put_valid th t pe q q')
  then have "fl_wf q" by (simp add: conc_inv_def fl_ready_def)
  moreover have "page_is_valid pe" using put_valid(2) by (auto simp: fl_PutValid_def split: if_splits)
  ultimately show ?case
    using put_valid fl_PutValid_eq [of q _ pe] by (intro conc_inv_put [OF put_valid(3,1)]) auto
qed (auto intro!: conc_inv_same)

section \<open>Properties\<close>

definition all_idle :: "nat \<Rightarrow> thread" where
  "all_idle t = Idle"

lemma conc_inv_init:
  "fl_ready q \<Longrightarrow> \<forall>i<fl_q_size q. \<not> fl_locked q ! i \<Longrightarrow> conc_inv (q, all_idle)"
  by (simp add: conc_inv_def all_idle_def)

lemma conc_inv_steps: "fl_steps c c' \<Longrightarrow> conc_inv c \<Longrightarrow> conc_inv c'"
  by (induction rule: rtranclp_induct) (auto intro: conc_inv_step)

text \<open>
  C24. Mutual exclusion and no leak: starting with all pages unlocked and at their offsets, whatever
  the interleaving of any number of threads, two threads never hold the same page, an entry is
  locked exactly when some thread owns it, and every page a thread holds can be put back:
  \<open>PutEmpty\<close> of it succeeds.
\<close>

theorem threads_exclusive:
  assumes "fl_ready q" "\<forall>i<fl_q_size q. \<not> fl_locked q ! i" "fl_steps (q, all_idle) (q', th)"
  shows "(\<forall>t u pe pe'. th t = Holding pe \<longrightarrow> th u = Holding pe' \<longrightarrow> pe_offset pe = pe_offset pe' \<longrightarrow> t = u) \<and>
    (\<forall>i<fl_q_size q'. fl_locked q' ! i \<longleftrightarrow> (\<exists>t. owns q' (th t) i)) \<and>
    (\<forall>t pe. th t = Holding pe \<longrightarrow> (\<exists>q''. fl_PutEmpty pe q' = Inr (True, q'')))"
proof -
  have inv: "conc_inv (q', th)"
    using conc_inv_steps [OF assms(3)] conc_inv_init [OF assms(1,2)] by simp
  have hold: "\<exists>i<fl_q_size q'. pe_offset pe = offset_of q' i" if "th t = Holding pe" for t pe
    using inv that by (simp add: conc_inv_def) (metis placed_simps(5))
  have "t = u" if t: "th t = Holding pe" and u: "th u = Holding pe'" "pe_offset pe = pe_offset pe'" for t u pe pe'
  proof -
    obtain i where "i < fl_q_size q'" "pe_offset pe = offset_of q' i" using hold [OF t] by blast
    then have "owns q' (th t) i" "owns q' (th u) i" using t u by simp_all
    then show ?thesis using inv unfolding conc_inv_def by blast
  qed
  moreover have "\<exists>q''. fl_PutEmpty pe q' = Inr (True, q'')" if "th t = Holding pe" for t pe
    using hold [OF that] fl_PutEmpty_eq [of q' _ pe] inv by (auto simp: conc_inv_def fl_ready_def)
  ultimately show ?thesis using inv by (auto simp: conc_inv_def)
qed

text \<open>
  A held page is left alone: as long as a thread holds a page, no step of another thread changes the
  page's entry in the queue or its lock.
\<close>

lemma held_page_undisturbed:
  assumes "conc_inv (q, th)" "fl_step (q, th) (q', th')" "owns q (th t) i" "th' t = th t"
  shows "fl_pages q' ! i = fl_pages q ! i \<and> fl_locked q' ! i"
proof -
  have locked: "fl_locked q ! i" and uniq: "\<And>u. owns q (th u) i \<Longrightarrow> u = t"
    and ready: "fl_ready q" and i: "i < fl_q_size q" and pl: "\<And>u. placed q (th u)"
    using assms(1,3) by (auto simp: conc_inv_def owns_def)
  have put: "fl_pages q'' ! i = fl_pages q ! i \<and> fl_locked q'' ! i"
    if u: "th u = Holding pe" "u \<noteq> t" and q'': "\<And>j. j < fl_q_size q \<Longrightarrow> pe_offset pe = offset_of q j \<Longrightarrow>
      q'' = q\<lparr>fl_pages := (fl_pages q)[j := pe'], fl_locked := (fl_locked q)[j := False]\<rparr>" for u pe pe' q''
  proof -
    obtain j where j: "j < fl_q_size q" "pe_offset pe = offset_of q j" using pl [of u] u(1) by auto
    then have "j \<noteq> i" using uniq [of u] u by auto
    then show ?thesis using q'' [OF j] locked by simp
  qed
  show ?thesis
    using assms(2)
  proof cases
    case (put_empty u pe)
    then have "u \<noteq> t" using assms(3,4) by auto
    then show ?thesis
      using put [of u pe q'] put_empty fl_PutEmpty_eq [OF fl_ready_wf [OF ready], of _ pe] by simp
  next
    case (put_valid u pe)
    then have "u \<noteq> t" using assms(3,4) by auto
    moreover have "page_is_valid pe" using put_valid by (auto simp: fl_PutValid_def split: if_splits)
    ultimately show ?thesis
      using put [of u pe q'] put_valid fl_PutValid_eq [OF fl_ready_wf [OF ready], of _ pe] by simp
  next
    case (start u busy rnd want tag)
    then show ?thesis using GetRandom64_frame [OF fl_ready_wf [OF ready]] locked by fastforce
  next
    case (release u want tag r x f index)
    then have "index \<noteq> i" using uniq [of u] i assms(3,4) by auto
    with release locked show ?thesis by simp
  next
    case (trylock u want tag r x f index)
    then have "index \<noteq> i" using locked by auto
    with trylock locked show ?thesis by simp
  qed (use locked in simp_all)
qed

section \<open>Concrete instances\<close>

lemma small_ready: "fl_ready (small_queue\<lparr>fl_locked := [b]\<rparr>)"
  using small_queue_wf by (simp add: fl_ready_def fl_wf_def offset_of_def blank_pe_def)

lemma small_start:
  "\<exists>q' want tag first_try. fl_step (small_queue\<lparr>fl_locked := [b]\<rparr>, th(t := Idle))
     (q', (th(t := Idle))(t := Probing want tag 0 1 first_try))"
proof -
  let ?q = "small_queue\<lparr>fl_locked := [b]\<rparr>"
  obtain rnd q' where "GetRandom64 (\<lambda>_. False) ?q = (rnd, q')" by force
  then have "fl_step (?q, th(t := Idle)) (q', (th(t := Idle))(t := Probing True kDontCareTag 0 1 (unat rnd mod fl_q_size ?q)))"
    by (intro fl_step.start) simp_all
  then show ?thesis by blast
qed

theorem threads_exclusive_witness:
  "\<exists>q' th. fl_steps (small_queue\<lparr>fl_locked := [False]\<rparr>, all_idle) (q', th) \<and> th 0 \<noteq> Idle \<and>
     (\<forall>i<fl_q_size q'. fl_locked q' ! i \<longleftrightarrow> (\<exists>t. owns q' (th t) i))"
proof -
  have idle: "all_idle(0 := Idle) = all_idle" by (simp add: all_idle_def fun_eq_iff)
  obtain q' want tag f where step: "fl_step (small_queue\<lparr>fl_locked := [False]\<rparr>, all_idle)
      (q', all_idle(0 := Probing want tag 0 1 f))"
    using small_start [of False all_idle 0] unfolding idle by blast
  then have steps: "fl_steps (small_queue\<lparr>fl_locked := [False]\<rparr>, all_idle) (q', all_idle(0 := Probing want tag 0 1 f))"
    by (rule r_into_rtranclp)
  have "\<forall>i<fl_q_size (small_queue\<lparr>fl_locked := [False]\<rparr>). \<not> fl_locked (small_queue\<lparr>fl_locked := [False]\<rparr>) ! i"
    by simp
  from threads_exclusive [OF small_ready this steps]
  have "\<forall>i<fl_q_size q'. fl_locked q' ! i \<longleftrightarrow> (\<exists>t. owns q' ((all_idle(0 := Probing want tag 0 1 f)) t) i)"
    by blast
  with steps show ?thesis by (intro exI [of _ q'] exI [of _ "all_idle(0 := Probing want tag 0 1 f)"] conjI) simp_all
qed

theorem held_page_undisturbed_witness:
  "\<exists>q' th'. fl_step (small_queue\<lparr>fl_locked := [True]\<rparr>, all_idle(0 := Holding blank_pe)) (q', th') \<and>
     th' 1 \<noteq> Idle \<and> fl_pages q' ! 0 = blank_pe \<and> fl_locked q' ! 0"
proof -
  let ?q = "small_queue\<lparr>fl_locked := [True]\<rparr>" and ?th = "all_idle(0 := Holding blank_pe)"
  have th: "?th(1 := Idle) = ?th" by (auto simp: all_idle_def fun_eq_iff)
  have own: "owns ?q (?th t) i \<longleftrightarrow> t = 0 \<and> i = 0" for t i
    by (auto simp: all_idle_def offset_of_def blank_pe_def)
  have "\<forall>t. placed ?q (?th t)" by (auto simp: all_idle_def offset_of_def blank_pe_def)
  then have inv: "conc_inv (?q, ?th)"
    using small_ready own by (simp add: conc_inv_def del: fun_upd_apply)
  obtain q' want tag f where step: "fl_step (?q, ?th) (q', ?th(1 := Probing want tag 0 1 f))"
    using small_start [of True ?th 1] unfolding th by blast
  have "fl_pages q' ! 0 = fl_pages ?q ! 0 \<and> fl_locked q' ! 0"
    by (rule held_page_undisturbed [OF inv step, of 0]) (use own [of 0 0] in simp_all)
  with step show ?thesis
    by (intro exI [of _ q'] exI [of _ "?th(1 := Probing want tag 0 1 f)"] conjI) simp_all
qed

end
