(* ===== verification/DramAddress.thy ===== *)
theory DramAddress
  imports SatPrelude
begin

text \<open>
  The DRAM coordinates of a failing word (\<^verbatim>\<open>src/src/sm8975_mapping.h\<close>, \<^verbatim>\<open>src/src/dram_address.h\<close>): from a physical
  address to channel, chip select, subchannel, bank, row and column, and from the wrong bits of a word to the data lines
  and beats of the LPDDR6 packet they travel in. The functions write through pointers to locals of their callers;
  here they return the value. The rows that \<open>FormatSm8975Lp6Rows\<close> (\<^verbatim>\<open>src/src/logger.cc\<close>) prints are records.
\<close>

section \<open>Topology\<close>

record Sm8975Topology =
  channel :: u32
  chip_select :: u32
  subchannel :: u32
  bank :: u32
  row :: u32
  mat :: int
  column :: u32
  normalized_address :: u64

definition Sm8975AddressBit :: "u64 \<Rightarrow> nat \<Rightarrow> u32" where
  "Sm8975AddressBit v n = ucast (drop_bit n v AND 1)"

definition NormalizeSm8975Address :: "u64 \<Rightarrow> u64" where
  "NormalizeSm8975Address raw =
     (if raw < 0x100000000 then raw - 0x80000000 else raw - 0x800000000) AND 0xFFFFFFFFF"

definition kRanges :: "(u32 \<times> u32) list" where
  "kRanges =
    [(0x000, 0x55F), (0x560, 0xABF), (0xAC0, 0x101F),
     (0x1020, 0x153F), (0x1540, 0x1A9F), (0x1AA0, 0x1FFF),
     (0x2000, 0x255F), (0x2560, 0x2ABF), (0x2AC0, 0x301F),
     (0x3020, 0x353F), (0x3540, 0x3A9F), (0x3AA0, 0x3FFF),
     (0x4000, 0x455F), (0x4560, 0x4ABF), (0x4AC0, 0x501F),
     (0x5020, 0x553F), (0x5540, 0x5A9F), (0x5AA0, 0x5FFF),
     (0x6000, 0x655F), (0x6560, 0x6ABF), (0x6AC0, 0x701F),
     (0x7020, 0x753F), (0x7540, 0x7A9F), (0x7AA0, 0x7FFF)]"

fun mat_loop :: "u32 \<Rightarrow> int \<Rightarrow> (u32 \<times> u32) list \<Rightarrow> int" where
  "mat_loop r i [] = - 1"
| "mat_loop r i ((lo, hi) # rest) = (if lo \<le> r \<and> r \<le> hi then i else mat_loop r (i + 1) rest)"

definition Sm8975MatForRow :: "u32 \<Rightarrow> int" where
  "Sm8975MatForRow r = mat_loop r 0 kRanges"

fun row_loop :: "u64 \<Rightarrow> nat \<Rightarrow> nat \<Rightarrow> u32 \<Rightarrow> u32" where
  "row_loop decoded 0 index acc = acc"
| "row_loop decoded (Suc k) index acc =
     row_loop decoded k (Suc index) (acc OR push_bit index (Sm8975AddressBit decoded (18 + index)))"

definition DecodeSm8975Address :: "u64 \<Rightarrow> Sm8975Topology" where
  "DecodeSm8975Address raw =
     (let decoded = NormalizeSm8975Address raw;
          a = Sm8975AddressBit decoded;
          ch0 = a 8;
          ch1 = a 9 XOR a 11 XOR a 13 XOR a 15 XOR a 17 XOR a 19;
          bk0 = a 16 XOR a 19 XOR a 20 XOR a 22 XOR a 24 XOR a 25 XOR a 26 XOR a 27 XOR a 31;
          bk1 = a 17 XOR a 20 XOR a 21 XOR a 23 XOR a 25 XOR a 26 XOR a 27 XOR a 28 XOR a 32;
          bk2 = a 7 XOR a 18 XOR a 21 XOR a 22 XOR a 24 XOR a 26 XOR a 27 XOR a 28 XOR a 29;
          bk3 = a 13 XOR a 18 XOR a 19 XOR a 21 XOR a 23 XOR a 24 XOR a 25 XOR a 26 XOR a 30;
          r = row_loop decoded 15 0 0
      in \<lparr>channel = push_bit 1 ch1 OR ch0,
          chip_select = a 32 XOR a 33,
          subchannel = a 10 XOR a 11 XOR a 12 XOR a 13,
          bank = push_bit 3 bk3 OR push_bit 2 bk2 OR push_bit 1 bk1 OR bk0,
          row = r,
          mat = Sm8975MatForRow r,
          column = push_bit 5 (a 15) OR push_bit 4 (a 14) OR push_bit 3 (a 12) OR push_bit 2 (a 11) OR push_bit 1 (a 6) OR a 5,
          normalized_address = decoded\<rparr>)"

datatype DramAddressMapProfile = DRAM_ADDRESS_MAP_NONE | DRAM_ADDRESS_MAP_SM8975_LP6

record DramAddress =
  da_channel :: u32
  da_rank :: u32
  da_subchannel :: u32
  da_bank_group :: u32
  da_bank :: u32
  da_row :: u32
  da_column :: u32
  da_byte_offset :: u32

definition DecodeDramAddress :: "DramAddressMapProfile \<Rightarrow> u64 \<Rightarrow> DramAddress option" where
  "DecodeDramAddress profile physical_address =
     (if profile \<noteq> DRAM_ADDRESS_MAP_SM8975_LP6 then None
      else let t = DecodeSm8975Address physical_address
           in Some \<lparr>da_channel = channel t, da_rank = chip_select t, da_subchannel = subchannel t, da_bank_group = 0,
                    da_bank = bank t, da_row = row t, da_column = column t,
                    da_byte_offset = ucast (normalized_address t AND 0x1F)\<rparr>)"

section \<open>Packets\<close>

definition kHexTable :: "int list list" where
  "kHexTable =
    [[0, 1, 2, 3, 4, 5],
     [6, 7, 8, 9, 10, 11],
     [12, 13, - 1, 14, 15, - 1],
     [16, 17, 18, 19, 20, 21],
     [22, 23, 24, 25, 26, 27],
     [28, 29, - 1, 30, 31, - 1]]"

definition Sm8975HexRegion :: "nat \<Rightarrow> nat \<Rightarrow> int" where
  "Sm8975HexRegion dq bl = (if 12 \<le> dq \<or> 24 \<le> bl then - 1 else kHexTable ! (bl div 4) ! (dq div 2))"

text \<open>The cells in the order of the three nested loops, and the innermost body that counts to \<open>data_bit\<close>.\<close>

definition hole :: "nat \<Rightarrow> nat \<Rightarrow> bool" where
  "hole bl_group dq \<longleftrightarrow> (bl_group = 2 \<or> bl_group = 5) \<and> (dq = 4 \<or> dq = 5 \<or> dq = 10 \<or> dq = 11)"

definition cells :: "(nat \<times> nat) list" where
  "cells = concat (map (\<lambda>bl_group. concat (map (\<lambda>dq.
     if hole bl_group dq then [] else map (\<lambda>bit_in_cell. (dq, bl_group * 4 + bit_in_cell)) [0..<4]) [0..<12])) [0..<6])"

fun coordinate_loop :: "nat \<Rightarrow> nat \<Rightarrow> (nat \<times> nat) list \<Rightarrow> (nat \<times> nat \<times> int) option" where
  "coordinate_loop data_bit current [] = None"
| "coordinate_loop data_bit current ((dq, bl) # rest) =
     (if current = data_bit then Some (dq, bl, Sm8975HexRegion dq bl) else coordinate_loop data_bit (current + 1) rest)"

definition Sm8975DataBitToCoordinate :: "nat \<Rightarrow> (nat \<times> nat \<times> int) option" where
  "Sm8975DataBitToCoordinate data_bit = (if 256 \<le> data_bit then None else coordinate_loop data_bit 0 cells)"

text \<open>\<open>Sm8975MismatchMapping\<close>: the first \<open>count\<close> entries of its three arrays of 64.\<close>

type_synonym mismatch_mapping = "(nat \<times> nat \<times> int) list"

fun word32_loop :: "nat \<Rightarrow> u32 \<Rightarrow> u32 \<Rightarrow> nat list \<Rightarrow> mismatch_mapping \<Rightarrow> mismatch_mapping" where
  "word32_loop word_index expected actual [] acc = acc"
| "word32_loop word_index expected actual (b # bits) acc =
     (if drop_bit b expected AND 1 = drop_bit b actual AND 1 then word32_loop word_index expected actual bits acc
      else case Sm8975DataBitToCoordinate (word_index * 32 + b) of
             None \<Rightarrow> word32_loop word_index expected actual bits acc
           | Some c \<Rightarrow> if 64 \<le> length acc then acc else word32_loop word_index expected actual bits (acc @ [c]))"

definition MapSm8975MismatchWord32 :: "u64 \<Rightarrow> u32 \<Rightarrow> u32 \<Rightarrow> mismatch_mapping" where
  "MapSm8975MismatchWord32 address expected actual =
     (if expected = actual then []
      else let packet_base = address - address mod 32;
               word_index = unat ((address - packet_base) div 4)
           in word32_loop word_index expected actual [0..<32] [])"

definition MapSm8975MismatchBits :: "u64 \<Rightarrow> u64 \<Rightarrow> u64 \<Rightarrow> mismatch_mapping" where
  "MapSm8975MismatchBits physical_address expected actual =
     (let word_base = physical_address AND NOT 7
      in foldl (\<lambda>acc half.
           let expected_word = ucast (drop_bit (half * 32) expected AND 0xFFFFFFFF);
               actual_word = ucast (drop_bit (half * 32) actual AND 0xFFFFFFFF)
           in if expected_word = actual_word then acc
              else take 64 (acc @ MapSm8975MismatchWord32 (word_base + of_nat half * 4) expected_word actual_word)) [] [0, 1])"

text \<open>The rows of the log: \<open>None\<close> when there is no physical address.\<close>

definition Sm8975Lp6Rows :: "u64 \<Rightarrow> u64 \<Rightarrow> u64 \<Rightarrow> (u64 \<times> Sm8975Topology \<times> mismatch_mapping) list option" where
  "Sm8975Lp6Rows physical_address expected actual =
     (if physical_address = 0 then None
      else let word_base = physical_address AND NOT 7
           in Some (concat (map (\<lambda>half.
                let expected_word = ucast (drop_bit (half * 32) expected AND 0xFFFFFFFF);
                    actual_word = ucast (drop_bit (half * 32) actual AND 0xFFFFFFFF);
                    address = word_base + of_nat half * 4
                in if expected_word = actual_word then []
                   else [(address, DecodeSm8975Address address, MapSm8975MismatchWord32 address expected_word actual_word)])
              [0, 1])))"

section \<open>Bits\<close>

lemma AddressBit_of_bool: "Sm8975AddressBit v n = of_bool (bit v n)"
  by (rule bit_eqI) (auto simp: Sm8975AddressBit_def bit_simps)

lemma xor_of_bool: "(of_bool p XOR of_bool q :: u32) = of_bool (p \<noteq> q)"
  by (cases p; cases q) simp_all

lemma bit_of_bool_word: "bit (of_bool p :: 'a :: len word) n \<longleftrightarrow> p \<and> n = 0"
  by (cases p) (simp_all add: bit_simps)

lemma row_loop_bits:
  "bit (row_loop d k i acc) n \<longleftrightarrow> n < 32 \<and> (bit acc n \<or> i \<le> n \<and> n < i + k \<and> bit d (18 + n))"
proof (induction d k i acc rule: row_loop.induct)
  case (1 d i acc)
  then show ?case by (auto dest: bit_imp_le_length)
next
  case (2 d k i acc)
  have "bit (push_bit i (Sm8975AddressBit d (18 + i))) n \<longleftrightarrow> n < 32 \<and> n = i \<and> bit d (18 + n)"
    by (auto simp: AddressBit_of_bool bit_simps bit_of_bool_word)
  then show ?case using 2 by (cases "i = n") (auto simp: bit_or_iff)
qed

lemma row_bits: "bit (row (DecodeSm8975Address raw)) n \<longleftrightarrow> n < 15 \<and> bit (NormalizeSm8975Address raw) (18 + n)"
  by (auto simp: DecodeSm8975Address_def Let_def row_loop_bits)

lemma Normalize_mask:
  "NormalizeSm8975Address raw = take_bit 36 (if raw < 0x100000000 then raw - 0x80000000 else raw - 0x800000000)"
proof -
  have "(0xFFFFFFFFF :: u64) = mask 36" by (simp add: mask_eq_exp_minus_1)
  then show ?thesis by (simp only: NormalizeSm8975Address_def take_bit_eq_mask)
qed

lemmas decode_simps = DecodeSm8975Address_def Let_def AddressBit_of_bool xor_of_bool bit_simps bit_of_bool_word

text \<open>Each field as bits of the normalized address.\<close>

lemma field_bits:
  fixes raw :: u64
  defines "b \<equiv> bit (NormalizeSm8975Address raw)" and "t \<equiv> DecodeSm8975Address raw"
  shows "bit (channel t) 0 \<longleftrightarrow> b 8"
    "bit (channel t) 1 \<longleftrightarrow> (b 9 \<noteq> (b 11 \<noteq> (b 13 \<noteq> (b 15 \<noteq> (b 17 \<noteq> b 19)))))"
    "bit (chip_select t) 0 \<longleftrightarrow> (b 32 \<noteq> b 33)"
    "bit (subchannel t) 0 \<longleftrightarrow> (b 10 \<noteq> (b 11 \<noteq> (b 12 \<noteq> b 13)))"
    "bit (bank t) 0 \<longleftrightarrow> (b 16 \<noteq> (b 19 \<noteq> (b 20 \<noteq> (b 22 \<noteq> (b 24 \<noteq> (b 25 \<noteq> (b 26 \<noteq> (b 27 \<noteq> b 31))))))))"
    "bit (bank t) 1 \<longleftrightarrow> (b 17 \<noteq> (b 20 \<noteq> (b 21 \<noteq> (b 23 \<noteq> (b 25 \<noteq> (b 26 \<noteq> (b 27 \<noteq> (b 28 \<noteq> b 32))))))))"
    "bit (bank t) 2 \<longleftrightarrow> (b 7 \<noteq> (b 18 \<noteq> (b 21 \<noteq> (b 22 \<noteq> (b 24 \<noteq> (b 26 \<noteq> (b 27 \<noteq> (b 28 \<noteq> b 29))))))))"
    "bit (bank t) 3 \<longleftrightarrow> (b 13 \<noteq> (b 18 \<noteq> (b 19 \<noteq> (b 21 \<noteq> (b 23 \<noteq> (b 24 \<noteq> (b 25 \<noteq> (b 26 \<noteq> b 30))))))))"
    "bit (column t) 0 \<longleftrightarrow> b 5" "bit (column t) 1 \<longleftrightarrow> b 6" "bit (column t) 2 \<longleftrightarrow> b 11"
    "bit (column t) 3 \<longleftrightarrow> b 12" "bit (column t) 4 \<longleftrightarrow> b 14" "bit (column t) 5 \<longleftrightarrow> b 15"
  unfolding b_def t_def by (simp_all add: decode_simps)

lemma less_exp_no_bit: "\<not> (unat w < 2 ^ k \<and> k \<le> n \<and> bit w n)" for w :: u64
proof (rule notI, elim conjE)
  assume *: "unat w < 2 ^ k" "k \<le> n" "bit w n"
  have "(2 :: nat) ^ k \<le> 2 ^ n" using *(2) by simp
  then have "unat w < 2 ^ n" using *(1) by linarith
  then have "unat w div 2 ^ n = 0" by (rule div_less)
  moreover have "bit (unat w) n" using *(3) bit_imp_le_length [OF *(3)] by (simp add: bit_unsigned_iff)
  ultimately show False by (simp add: bit_iff_odd)
qed

lemma less_exp_bits:
  fixes w :: u32
  assumes "\<And>n. bit w n \<Longrightarrow> n < k"
  shows "unat w < 2 ^ k"
proof -
  have "take_bit k w = w" using assms(1) by (intro bit_eqI) (auto simp: bit_simps)
  then have "unat w = take_bit k (unat w)" by (metis unsigned_take_bit_eq)
  then show ?thesis by (metis take_bit_nat_less_exp)
qed

section \<open>Rows and mats\<close>

fun contiguous :: "nat \<Rightarrow> (u32 \<times> u32) list \<Rightarrow> nat \<Rightarrow> bool" where
  "contiguous s [] e \<longleftrightarrow> s = e"
| "contiguous s ((lo, hi) # rest) e \<longleftrightarrow> unat lo = s \<and> contiguous (Suc (unat hi)) rest e"

lemma mat_loop_contiguous:
  "contiguous s rs e \<Longrightarrow> s \<le> unat r \<Longrightarrow> unat r < e \<Longrightarrow>
   \<exists>k<length rs. mat_loop r i rs = i + int k \<and> fst (rs ! k) \<le> r \<and> r \<le> snd (rs ! k)"
proof (induction rs arbitrary: s i)
  case (Cons p rs)
  obtain lo hi where p: "p = (lo, hi)" by force
  show ?case
  proof (cases "lo \<le> r \<and> r \<le> hi")
    case False
    have s: "unat lo = s" "contiguous (Suc (unat hi)) rs e" using Cons.prems(1) p by simp_all
    then have "Suc (unat hi) \<le> unat r" using False Cons.prems(2) by (auto simp: word_le_nat_alt)
    from Cons.IH [OF s(2) this Cons.prems(3), of "i + 1"] obtain k where
      "k < length rs" "mat_loop r (i + 1) rs = i + 1 + int k" "fst (rs ! k) \<le> r \<and> r \<le> snd (rs ! k)" by blast
    then show ?thesis using False p by (intro exI [of _ "Suc k"]) auto
  qed (use p in \<open>auto intro: exI [of _ 0]\<close>)
qed simp

lemma contiguous_kRanges: "contiguous 0 kRanges 0x8000"
  by (simp add: kRanges_def)

section \<open>Cells of a packet\<close>

lemma length_cells: "length cells = 256"
  by (simp add: cells_def hole_def upt_rec)

lemma in_concat_map: "x \<in> set (concat (map f xs)) \<longleftrightarrow> (\<exists>y \<in> set xs. x \<in> set (f y))"
  by simp

lemma in_cells: "c \<in> set cells \<longleftrightarrow> (\<exists>g<6. \<exists>dq<12. \<not> hole g dq \<and> (\<exists>b<4. c = (dq, g * 4 + b)))"
proof
  assume "\<exists>g<6. \<exists>dq<12. \<not> hole g dq \<and> (\<exists>b<4. c = (dq, g * 4 + b))"
  then obtain g dq b where c: "g < 6" "dq < 12" "\<not> hole g dq" "b < 4" "c = (dq, g * 4 + b)" by blast
  then show "c \<in> set cells"
    unfolding cells_def in_concat_map by (intro bexI [of _ g] bexI [of _ dq]) auto
qed (auto simp: cells_def split: if_splits)

lemma set_cells: "set cells = {(dq, bl). dq < 12 \<and> bl < 24 \<and> \<not> hole (bl div 4) dq}"
proof (intro set_eqI iffI)
  fix c assume "c \<in> set cells"
  then obtain g dq b where "g < 6" "dq < 12" "\<not> hole g dq" "b < 4" "c = (dq, g * 4 + b)" by (auto simp: in_cells)
  then show "c \<in> {(dq, bl). dq < 12 \<and> bl < 24 \<and> \<not> hole (bl div 4) dq}" by simp
next
  fix c assume "c \<in> {(dq, bl). dq < 12 \<and> bl < 24 \<and> \<not> hole (bl div 4) dq}"
  then obtain dq bl where c: "c = (dq, bl)" "dq < 12" "bl < 24" "\<not> hole (bl div 4) dq" by auto
  then show "c \<in> set cells"
    unfolding in_cells by (intro exI [of _ "bl div 4"] conjI exI [of _ dq] exI [of _ "bl mod 4"]) auto
qed

lemma distinct_cells: "distinct cells"
proof (rule card_distinct)
  let ?holes = "{4, 5, 10, 11 :: nat} \<times> ({8..<12} \<union> {20..<24 :: nat})"
  have "hole (bl div 4) dq \<longleftrightarrow> (dq, bl) \<in> ?holes" if "bl < 24" for dq bl :: nat
    using that by (auto simp: hole_def)
  then have set: "set cells = {..<12} \<times> {..<24} - ?holes" unfolding set_cells by auto
  have "card ({8..<12} \<union> {20..<24 :: nat}) = 8" by (subst card_Un_disjoint) auto
  then have "card ?holes = 32" unfolding card_cartesian_product by simp
  then have "card ({..<12} \<times> {..<24 :: nat} - ?holes) = 256"
    by (subst card_Diff_subset) (auto simp: card_cartesian_product)
  then show "card (set cells) = length cells" by (simp only: set length_cells)
qed

lemma hex_cells:
  assumes "(dq, bl) \<in> set cells"
  shows "0 \<le> Sm8975HexRegion dq bl \<and> Sm8975HexRegion dq bl < 32"
proof -
  have *: "dq < 12" "bl < 24" "\<not> hole (bl div 4) dq" using assms by (auto simp: set_cells)
  then have "bl div 4 \<in> {0, 1, 2, 3, 4, 5}" "dq div 2 \<in> {0, 1, 2, 3, 4, 5}" by auto
  moreover have "\<not> ((bl div 4 = 2 \<or> bl div 4 = 5) \<and> (dq div 2 = 2 \<or> dq div 2 = 5))" using *(3) by (auto simp: hole_def)
  ultimately show ?thesis using * by (auto simp: Sm8975HexRegion_def kHexTable_def)
qed

definition cell_at :: "nat \<Rightarrow> nat \<times> nat \<times> int" where
  "cell_at i = (fst (cells ! i), snd (cells ! i), Sm8975HexRegion (fst (cells ! i)) (snd (cells ! i)))"

lemma coordinate_loop_nth:
  "c \<le> d \<Longrightarrow> d < c + length xs \<Longrightarrow>
   coordinate_loop d c xs = Some (fst (xs ! (d - c)), snd (xs ! (d - c)), Sm8975HexRegion (fst (xs ! (d - c))) (snd (xs ! (d - c))))"
  by (induction d c xs rule: coordinate_loop.induct) (auto simp: nth_Cons')

lemma DataBit_cell: "i < 256 \<Longrightarrow> Sm8975DataBitToCoordinate i = Some (cell_at i)"
  by (simp add: Sm8975DataBitToCoordinate_def cell_at_def coordinate_loop_nth length_cells)

lemma and_1_bit: "drop_bit b (x :: u32) AND 1 = drop_bit b y AND 1 \<longleftrightarrow> bit x b = bit y b"
proof -
  have "drop_bit b z AND 1 = of_bool (bit z b)" for z :: u32 by (rule bit_eqI) (auto simp: bit_simps)
  then show ?thesis by simp
qed

lemma word32_loop_eq:
  "length acc + length bits \<le> 64 \<Longrightarrow> (\<And>b. b \<in> set bits \<Longrightarrow> wi * 32 + b < 256) \<Longrightarrow>
   word32_loop wi e a bits acc = acc @ map (\<lambda>b. cell_at (wi * 32 + b)) (filter (\<lambda>b. bit e b \<noteq> bit a b) bits)"
  by (induction wi e a bits acc rule: word32_loop.induct) (auto simp: and_1_bit DataBit_cell)

lemma word_index_less: "n mod 32 div 4 < (8 :: nat)"
  by presburger

lemma MapSm8975MismatchWord32_eq:
  "MapSm8975MismatchWord32 address e a =
     map (\<lambda>b. cell_at (unat address mod 32 div 4 * 32 + b)) (filter (\<lambda>b. bit e b \<noteq> bit a b) [0..<32])"
proof -
  let ?wi = "unat address mod 32 div 4"
  have "unat ((address - (address - address mod 32)) div 4) = ?wi"
    by (simp add: unat_div unat_mod)
  moreover have "word32_loop ?wi e a [0..<32] [] = map (\<lambda>b. cell_at (?wi * 32 + b)) (filter (\<lambda>b. bit e b \<noteq> bit a b) [0..<32])"
    using word_index_less [of "unat address"] by (subst word32_loop_eq) auto
  ultimately show ?thesis by (simp add: MapSm8975MismatchWord32_def Let_def)
qed

lemma unat_word_base:
  "unat ((p AND NOT 7) + of_nat h * 4 :: u64) mod 32 div 4 = unat p mod 32 div 8 * 2 + h" if "h < 2" for p :: u64
proof -
  have mask: "(7 :: u64) = mask 3" by (simp add: mask_eq_exp_minus_1)
  have "p AND NOT (mask 3) = push_bit 3 (drop_bit 3 p)"
    by (rule bit_eqI) (auto simp: bit_simps)
  then have "unat (p AND NOT 7) = unat (push_bit 3 (drop_bit 3 p))" by (simp only: mask)
  also have "\<dots> = take_bit 64 (push_bit 3 (drop_bit 3 (unat p)))" by (simp add: unsigned_push_bit_eq unsigned_drop_bit_eq take_bit_nat_eq_self [OF unat_u64_less])
  also have "\<dots> = 8 * (unat p div 8)"
    using unat_u64_less [of p] by (subst take_bit_nat_eq_self) (auto simp: push_bit_eq_mult drop_bit_eq_div)
  finally have base: "unat (p AND NOT 7) = 8 * (unat p div 8)" .
  have "unat ((p AND NOT 7) + of_nat h * 4) = (8 * (unat p div 8) + h * 4) mod 2 ^ 64"
    unfolding base [symmetric] using that by (auto simp: less_2_cases_iff unat_word_ariths)
  then have "unat ((p AND NOT 7) + of_nat h * 4) mod 32 = (8 * (unat p div 8) + h * 4) mod 32"
    by (simp add: mod_mod_cancel)
  moreover have "(8 * (m div 8) + h * 4) mod 32 div 4 = m mod 32 div 8 * 2 + h" for m :: nat
  proof -
    have "(8 * (m div 8) + h * 4) mod 32 = 4 * ((2 * (m div 8) + h) mod 8)"
      using mult_mod_right [of 4 "2 * (m div 8) + h" 8] by (simp add: algebra_simps)
    moreover have "(2 * (m div 8) + h) mod 8 = 2 * (m div 8 mod 4) + h"
      using mod_mult2_eq [of "2 * (m div 8) + h" 2 4] that by (auto simp: less_2_cases_iff)
    moreover have "m mod 32 div 8 = m div 8 mod 4" using mod_mult2_eq [of m 8 4] by simp
    ultimately show ?thesis by simp
  qed
  ultimately show ?thesis by simp
qed

section \<open>Properties\<close>


text \<open>
  C32. Every field of a decoded address has its width: two bits of channel, one of chip select and subchannel, four of bank, fifteen of row and
  six of column; and every row lies in exactly the mat that is reported for it, so the mat is never the -1 of a row out of range.
\<close>

theorem decode_fields:
  fixes raw :: u64
  defines "t \<equiv> DecodeSm8975Address raw"
  shows "unat (channel t) < 4 \<and> unat (chip_select t) < 2 \<and> unat (subchannel t) < 2 \<and> unat (bank t) < 16 \<and> unat (row t) < 32768 \<and>
    unat (column t) < 64 \<and> 0 \<le> mat t \<and> mat t < 24 \<and>
    fst (kRanges ! nat (mat t)) \<le> row t \<and> row t \<le> snd (kRanges ! nat (mat t))"
proof -
  obtain p1 p2 p3 p4 p5 p6 p7 p8 p9 where "channel t = push_bit 1 (of_bool p1) OR of_bool p2" "chip_select t = of_bool p3" "subchannel t = of_bool p4"
    "bank t = push_bit 3 (of_bool p5) OR push_bit 2 (of_bool p6) OR push_bit 1 (of_bool p7) OR of_bool p8" "p9"
    unfolding t_def DecodeSm8975Address_def Let_def AddressBit_of_bool xor_of_bool Sm8975Topology.simps by blast
  note fields = this(1-4)
  have bits: "bit (channel t) n \<Longrightarrow> n < 2" "bit (chip_select t) n \<Longrightarrow> n < 1" "bit (subchannel t) n \<Longrightarrow> n < 1"
    "bit (bank t) n \<Longrightarrow> n < 4" for n
    unfolding fields bit_or_iff bit_push_bit_iff bit_of_bool_word by auto
  have cols: "bit (column t) n \<Longrightarrow> n < 6" for n
    unfolding t_def DecodeSm8975Address_def Let_def AddressBit_of_bool Sm8975Topology.simps bit_or_iff bit_push_bit_iff bit_of_bool_word
    by auto
  have row: "unat (row t) < 2 ^ 15" by (rule less_exp_bits) (simp add: t_def row_bits)
  have "mat t = mat_loop (row t) 0 kRanges" by (simp add: t_def DecodeSm8975Address_def Let_def Sm8975MatForRow_def)
  moreover obtain k where "k < length kRanges" "mat_loop (row t) 0 kRanges = 0 + int k" "fst (kRanges ! k) \<le> row t" "row t \<le> snd (kRanges ! k)"
    using mat_loop_contiguous [OF contiguous_kRanges, of "row t" 0] row by auto
  moreover have "length kRanges = 24" by (simp add: kRanges_def)
  ultimately show ?thesis
    using less_exp_bits [OF bits(1)] less_exp_bits [OF bits(2)] less_exp_bits [OF bits(3)] less_exp_bits [OF bits(4)]
      less_exp_bits [OF cols] row by simp
qed

text \<open>
  C33. The mismatch mapping is exact: for the word at a physical address it lists one entry for each bit that differs, in order, and
  the entry is the cell of the LPDDR6 packet that carries this bit of the 32-byte packet. Different bits of a packet have different
  cells, none of them one of the holes of the packet, so every HEX region is one of 0 to 31.
\<close>

theorem mismatch_bits_exact:
  fixes p e a :: u64
  defines "wrong \<equiv> filter (\<lambda>i. bit e i \<noteq> bit a i) [0..<64]"
  shows "MapSm8975MismatchBits p e a = map (\<lambda>i. cell_at (64 * (unat p mod 32 div 8) + i)) wrong \<and>
    distinct (map (\<lambda>(dq, bl, hex). (dq, bl)) (MapSm8975MismatchBits p e a)) \<and>
    list_all (\<lambda>(dq, bl, hex). dq < 12 \<and> bl < 24 \<and> \<not> hole (bl div 4) dq \<and> 0 \<le> hex \<and> hex < 32) (MapSm8975MismatchBits p e a)"
proof -
  let ?q = "unat p mod 32 div 8" and ?m = "MapSm8975MismatchBits p e a"
  have m: "(0xFFFFFFFF :: u64) = mask 32" by (simp add: mask_eq_exp_minus_1)
  let ?half = "\<lambda>w h. ucast (drop_bit (h * 32) w AND 0xFFFFFFFF) :: u32"
  have bits: "bit (?half w h) b = bit w (32 * h + b)" if "b < 32" "h < 2" for w :: u64 and h b
    unfolding m using that by (auto simp: bit_simps less_2_cases_iff)
  have half: "MapSm8975MismatchWord32 ((p AND NOT 7) + of_nat h * 4) (?half e h) (?half a h) =
      map (\<lambda>i. cell_at (64 * ?q + i)) (filter (\<lambda>i. bit e i \<noteq> bit a i) [32 * h..<32 * h + 32])" if h: "h < 2" for h
  proof -
    have "filter (\<lambda>i. bit e i \<noteq> bit a i) [32 * h..<32 * h + 32] = map ((+) (32 * h)) (filter (\<lambda>b. bit e (32 * h + b) \<noteq> bit a (32 * h + b)) [0..<32])"
      using map_add_upt [of "32 * h" 32] by (simp add: filter_map comp_def add.commute flip: map_add_upt)
    moreover have "filter (\<lambda>b. bit (?half e h) b \<noteq> bit (?half a h) b) [0..<32] = filter (\<lambda>b. bit e (32 * h + b) \<noteq> bit a (32 * h + b)) [0..<32]"
      using bits h by (intro filter_cong) auto
    ultimately show ?thesis
      unfolding MapSm8975MismatchWord32_eq unat_word_base [OF h] by (simp add: algebra_simps comp_def)
  qed
  define F where "F = (\<lambda>h. map (\<lambda>i. cell_at (64 * ?q + i)) (filter (\<lambda>i. bit e i \<noteq> bit a i) [32 * h..<32 * h + 32]))"
  have same: "F h = []" if eq: "?half e h = ?half a h" and h: "h < 2" for h
  proof -
    have "bit e i = bit a i" if "32 * h \<le> i" "i < 32 * h + 32" for i
      using bits [of "i - 32 * h" h e] bits [of "i - 32 * h" h a] eq h that by simp
    then show ?thesis by (simp add: F_def filter_empty_conv)
  qed
  have len: "length (F h) \<le> 32" for h using length_filter_le [of "\<lambda>i. bit e i \<noteq> bit a i" "[32 * h..<32 * h + 32]"] by (simp add: F_def)
  have step: "(if ?half e h = ?half a h then acc
      else take 64 (acc @ MapSm8975MismatchWord32 ((p AND NOT 7) + of_nat h * 4) (?half e h) (?half a h))) = acc @ F h"
    if "h < 2" "length acc \<le> 32" for h acc
    using half [OF that(1)] same [OF _ that(1)] len [of h] that(2) by (auto simp: F_def)
  have p0: "(0 :: nat) < 2" "length ([] :: mismatch_mapping) \<le> 32" and p1: "(1 :: nat) < 2" "length ([] @ F 0) \<le> 32"
    using len [of 0] by simp_all
  have "?m = ([] @ F 0) @ F 1"
    unfolding MapSm8975MismatchBits_def Let_def foldl.simps step [OF p0] step [OF p1] by (rule refl)
  then have "?m = F 0 @ F 1" by simp
  also have "\<dots> = map (\<lambda>i. cell_at (64 * ?q + i)) wrong"
    unfolding wrong_def F_def map_append [symmetric] filter_append [symmetric]
    using upt_add_eq_append [of 0 32 32] by (simp del: upt_rec_numeral upt_conv_Cons_Cons)
  finally have eq: "?m = map (\<lambda>i. cell_at (64 * ?q + i)) wrong" .
  have q: "?q < 4" by (simp add: less_mult_imp_div_less)
  have less: "64 * ?q + i < 256" if "i \<in> set wrong" for i using q that by (auto simp: wrong_def)
  have "map (\<lambda>(dq, bl, hex). (dq, bl)) ?m = map (\<lambda>i. cells ! (64 * ?q + i)) wrong"
    unfolding eq by (simp add: cell_at_def)
  moreover have "distinct (map (\<lambda>i. cells ! (64 * ?q + i)) wrong)"
    using less by (auto simp: distinct_map wrong_def inj_on_def nth_eq_iff_index_eq distinct_cells length_cells)
  ultimately have dist: "distinct (map (\<lambda>(dq, bl, hex). (dq, bl)) ?m)" by (simp only:)
  have cell: "dq < 12 \<and> bl < 24 \<and> \<not> hole (bl div 4) dq \<and> 0 \<le> hex \<and> hex < 32" if "(dq, bl, hex) \<in> set ?m" for dq bl hex
  proof -
    obtain i where "i \<in> set wrong" "(dq, bl, hex) = cell_at (64 * ?q + i)" using \<open>(dq, bl, hex) \<in> set ?m\<close> unfolding eq by auto
    then have "(dq, bl) \<in> set cells" "hex = Sm8975HexRegion dq bl" using less nth_mem [of "64 * ?q + i" cells] by (auto simp: cell_at_def length_cells)
    then show ?thesis using hex_cells by (auto simp: set_cells)
  qed
  then have "list_all (\<lambda>(dq, bl, hex). dq < 12 \<and> bl < 24 \<and> \<not> hole (bl div 4) dq \<and> 0 \<le> hex \<and> hex < 32) ?m"
    unfolding list_all_iff by blast
  then show ?thesis using eq dist by blast
qed

section \<open>Concrete instances\<close>


end
