(* ===== verification/DiskBlocks.thy ===== *)
theory DiskBlocks
  imports SatPrelude "HOL-Library.Multiset"
begin

text \<open>
  The table of disk blocks under test (\<^verbatim>\<open>src/src/disk_blocks.cc\<close>): write threads allocate unused blocks of a device and remove them,
  read threads take references to random blocks and release them. Pointers are numbers and \<open>tb_heap\<close> holds the objects
  that have not been deleted, so that a use after \<open>delete\<close> is an error. Each operation runs under the mutexes of the table
  and is one step.
\<close>

section \<open>State\<close>

record BlockData =
  bd_address :: int
  bd_size :: int
  bd_references :: int
  bd_initialized :: bool
  bd_pattern :: "nat option"

record DiskBlockTable =
  tb_sector_size :: int
  tb_write_block_size :: int
  tb_device_sectors :: int
  tb_segment_size :: int
  tb_pos_to_addr :: "int list"
  tb_addr_to_block :: "int \<rightharpoonup> nat \<times> nat"
  tb_size :: nat
  tb_heap :: "nat \<rightharpoonup> BlockData"
  tb_next :: nat

definition BlockData_new :: BlockData where
  "BlockData_new = \<lparr>bd_address = 0, bd_size = 0, bd_references = 0, bd_initialized = False, bd_pattern = None\<rparr>"

definition DiskBlockTable_new :: DiskBlockTable where
  "DiskBlockTable_new = \<lparr>tb_sector_size = 0, tb_write_block_size = 0, tb_device_sectors = 0, tb_segment_size = 0,
     tb_pos_to_addr = [], tb_addr_to_block = Map.empty, tb_size = 0, tb_heap = Map.empty, tb_next = 0\<rparr>"

definition deref :: "nat \<Rightarrow> DiskBlockTable \<Rightarrow> BlockData res" where
  "deref b t = (case tb_heap t b of None \<Rightarrow> Inl UseAfterFree | Some bd \<Rightarrow> Inr bd)"

section \<open>Operations\<close>

text \<open>The 64 bits of \<open>Random64\<close>, from three values of \<open>random()\<close>.\<close>

definition Random64 :: "u64 \<Rightarrow> u64 \<Rightarrow> u64 \<Rightarrow> u64" where
  "Random64 r1 r2 r3 =
     (let x = push_bit 30 (push_bit 30 r1 XOR r2) XOR r3
      in if 0 \<le> sint x then x else - x)"

definition SetParameters :: "int \<Rightarrow> int \<Rightarrow> int \<Rightarrow> int \<Rightarrow> DiskBlockTable \<Rightarrow> DiskBlockTable res" where
  "SetParameters sector_size write_block_size device_sectors segment_size t =
     res_bind (sat_assert (tb_size t = 0)) (\<lambda>_.
       Inr (t\<lparr>tb_sector_size := sector_size, tb_write_block_size := write_block_size, tb_device_sectors := device_sectors,
              tb_segment_size := segment_size\<rparr>))"

definition InsertOnStructure :: "nat \<Rightarrow> DiskBlockTable \<Rightarrow> DiskBlockTable res" where
  "InsertOnStructure b t =
     res_bind (deref b t) (\<lambda>bd.
       let address = bd_address bd
       in Inr (t\<lparr>tb_pos_to_addr := (if length (tb_pos_to_addr t) \<le> tb_size t then tb_pos_to_addr t @ [address]
                                     else (tb_pos_to_addr t)[tb_size t := address]),
                 tb_addr_to_block := (tb_addr_to_block t)(address \<mapsto> (b, tb_size t)),
                 tb_size := tb_size t + 1\<rparr>))"

definition RemoveBlock :: "nat \<Rightarrow> DiskBlockTable \<Rightarrow> (bool \<times> DiskBlockTable) res" where
  "RemoveBlock b t =
     res_bind (deref b t) (\<lambda>bd.
       let address = bd_address bd
       in case tb_addr_to_block t address of
            None \<Rightarrow> Inr (False, t)
          | Some (b', curr_pos) \<Rightarrow>
              res_bind (if tb_size t = 0 then Inl OutOfBounds else Inr (tb_size t - 1)) (\<lambda>last_pos.
              res_bind (rd (tb_pos_to_addr t) last_pos) (\<lambda>last_addr.
                case tb_addr_to_block t last_addr of
                  None \<Rightarrow> Inl AssertFailed
                | Some (last_b, _) \<Rightarrow>
                     res_bind (wr (tb_pos_to_addr t) curr_pos last_addr) (\<lambda>pos.
                     let refs = bd_references bd - 1
                     in Inr (0 \<le> refs,
                          t\<lparr>tb_pos_to_addr := pos,
                            tb_addr_to_block := ((tb_addr_to_block t)(last_addr \<mapsto> (last_b, curr_pos)))(address := None),
                            tb_size := tb_size t - 1,
                            tb_heap := (tb_heap t)(b := if refs = 0 then None else Some (bd\<lparr>bd_references := refs\<rparr>))\<rparr>)))))"

definition ReleaseBlock :: "nat \<Rightarrow> DiskBlockTable \<Rightarrow> (bool \<times> DiskBlockTable) res" where
  "ReleaseBlock b t =
     res_bind (deref b t) (\<lambda>bd.
       let references = bd_references bd
       in Inr (if references = 1 then (True, t\<lparr>tb_heap := (tb_heap t)(b := None)\<rparr>)
               else if references > 0
               then (True, t\<lparr>tb_heap := (tb_heap t)(b \<mapsto> bd\<lparr>bd_references := references - 1\<rparr>)\<rparr>)
               else (False, t)))"

text \<open>
  \<open>timed_out\<close>: the wait of two seconds ended with \<open>ETIMEDOUT\<close>; with an empty table the call returns in no other way.
  \<open>rnd\<close> is the value of \<open>Random64\<close>; the remainder is taken of the unsigned value.
\<close>

definition GetRandomBlock :: "bool \<Rightarrow> u64 \<Rightarrow> DiskBlockTable \<Rightarrow> (nat option \<times> DiskBlockTable) res" where
  "GetRandomBlock timed_out rnd t =
     (if timed_out \<or> tb_size t = 0 then Inr (None, t)
      else res_bind (rd (tb_pos_to_addr t) (unat rnd mod tb_size t)) (\<lambda>address.
             case tb_addr_to_block t address of
               None \<Rightarrow> Inl AssertFailed
             | Some (b, _) \<Rightarrow>
                 res_bind (deref b t) (\<lambda>bd.
                   Inr (if bd_initialized bd
                        then (Some b, t\<lparr>tb_heap := (tb_heap t)(b \<mapsto> bd\<lparr>bd_references := bd_references bd + 1\<rparr>)\<rparr>)
                        else (None, t)))))"

definition kBlockRetry :: nat where
  "kBlockRetry = 100"

definition candidate :: "u64 \<Rightarrow> int \<Rightarrow> int \<Rightarrow> DiskBlockTable \<Rightarrow> int option res" where
  "candidate rnd segment num_sectors t =
     (let r = uint (rnd AND 0x7FFFFFFFFFFFFFFF); ss = tb_segment_size t;
          room = (if ss = - 1 then tb_device_sectors t else ss)
      in if num_sectors = 0 \<or> room div num_sectors = 0 then Inl DivisionByZero
         else if ss = - 1 then Inr (Some (r mod (room div num_sectors) * num_sectors))
         else let sector = r mod (room div num_sectors) * num_sectors + segment * ss
              in Inr (if sector + num_sectors > (segment + 1) * ss then None else Some sector))"

text \<open>\<open>n\<close> tries are left; \<open>rnds i\<close> is the random number of the next one.\<close>

primrec find_sector :: "nat \<Rightarrow> (nat \<Rightarrow> u64) \<Rightarrow> nat \<Rightarrow> int \<Rightarrow> int \<Rightarrow> DiskBlockTable \<Rightarrow> int option res" where
  "find_sector 0 rnds i segment num_sectors t = Inr None"
| "find_sector (Suc n) rnds i segment num_sectors t =
     res_bind (candidate (rnds i) segment num_sectors t) (\<lambda>c.
       case c of
         Some sector \<Rightarrow>
           if sector + num_sectors > tb_device_sectors t \<or> tb_addr_to_block t sector \<noteq> None
           then find_sector n rnds (Suc i) segment num_sectors t else Inr (Some sector)
       | None \<Rightarrow> find_sector n rnds (Suc i) segment num_sectors t)"

definition GetUnusedBlock :: "(nat \<Rightarrow> u64) \<Rightarrow> int \<Rightarrow> DiskBlockTable \<Rightarrow> (nat option \<times> DiskBlockTable) res" where
  "GetUnusedBlock rnds segment t =
     res_bind (sat_assert (tb_device_sectors t \<noteq> 0)) (\<lambda>_.
     if tb_sector_size t = 0 then Inl DivisionByZero
     else let num_sectors = tb_write_block_size t div tb_sector_size t
          in res_bind (find_sector kBlockRetry rnds 0 segment num_sectors t) (\<lambda>found.
               case found of
                 None \<Rightarrow> Inr (None, t)
               | Some sector \<Rightarrow>
                   let b = tb_next t;
                       bd = BlockData_new\<lparr>bd_address := sector, bd_size := tb_write_block_size t, bd_references := 1\<rparr>
                   in res_bind (InsertOnStructure b (t\<lparr>tb_heap := (tb_heap t)(b \<mapsto> bd), tb_next := b + 1\<rparr>)) (\<lambda>t'.
                        Inr (Some b, t'))))"

definition set_initialized :: "nat \<Rightarrow> DiskBlockTable \<Rightarrow> DiskBlockTable res" where
  "set_initialized b t =
     res_bind (deref b t) (\<lambda>bd. Inr (t\<lparr>tb_heap := (tb_heap t)(b \<mapsto> bd\<lparr>bd_initialized := True\<rparr>)\<rparr>))"

definition initialized :: "nat \<Rightarrow> DiskBlockTable \<Rightarrow> bool res" where
  "initialized b t = res_bind (deref b t) (\<lambda>bd. Inr (bd_initialized bd))"

definition set_pattern :: "nat option \<Rightarrow> nat \<Rightarrow> DiskBlockTable \<Rightarrow> DiskBlockTable res" where
  "set_pattern p b t =
     res_bind (deref b t) (\<lambda>bd. Inr (t\<lparr>tb_heap := (tb_heap t)(b \<mapsto> bd\<lparr>bd_pattern := p\<rparr>)\<rparr>))"

section \<open>The invariant\<close>

abbreviation block_sectors :: "DiskBlockTable \<Rightarrow> int" where
  "block_sectors t \<equiv> tb_write_block_size t div tb_sector_size t"

definition params_ok :: "DiskBlockTable \<Rightarrow> bool" where
  "params_ok t \<longleftrightarrow> 0 < tb_sector_size t \<and> 0 < block_sectors t \<and> block_sectors t \<le> tb_device_sectors t \<and>
     (tb_segment_size t = - 1 \<or> block_sectors t \<le> tb_segment_size t)"

text \<open>A place for a block: within the device, and aligned in the device or in its segment.\<close>

definition slot :: "DiskBlockTable \<Rightarrow> int \<Rightarrow> bool" where
  "slot t a \<longleftrightarrow> 0 \<le> a \<and> a + block_sectors t \<le> tb_device_sectors t \<and>
     (if tb_segment_size t = - 1 then block_sectors t dvd a
      else \<exists>seg k. 0 \<le> k \<and> a = seg * tb_segment_size t + k * block_sectors t \<and>
             a + block_sectors t \<le> (seg + 1) * tb_segment_size t)"

text \<open>\<open>W\<close>: the blocks that write threads own; \<open>R\<close>: the references of read threads.\<close>

definition table_ok :: "DiskBlockTable \<Rightarrow> nat set \<Rightarrow> bool" where
  "table_ok t W \<longleftrightarrow> tb_size t \<le> length (tb_pos_to_addr t) \<and>
     (\<forall>i<tb_size t. \<exists>b. tb_addr_to_block t (tb_pos_to_addr t ! i) = Some (b, i)) \<and>
     (\<forall>a b p. tb_addr_to_block t a = Some (b, p) \<longrightarrow> p < tb_size t \<and> tb_pos_to_addr t ! p = a \<and> b \<in> W \<and> slot t a \<and>
        (\<exists>bd. tb_heap t b = Some bd \<and> bd_address bd = a)) \<and>
     (\<forall>b \<in> W. \<exists>a p. tb_addr_to_block t a = Some (b, p))"

fun ref_ok :: "BlockData option \<Rightarrow> bool \<Rightarrow> nat \<Rightarrow> bool" where
  "ref_ok None owned readers \<longleftrightarrow> \<not> owned \<and> readers = 0"
| "ref_ok (Some bd) owned readers \<longleftrightarrow> bd_references bd = of_bool owned + int readers \<and> 0 < bd_references bd"

definition refs_ok :: "DiskBlockTable \<Rightarrow> nat set \<Rightarrow> nat multiset \<Rightarrow> bool" where
  "refs_ok t W R \<longleftrightarrow> (\<forall>b. ref_ok (tb_heap t b) (b \<in> W) (count R b)) \<and> (\<forall>b \<ge> tb_next t. tb_heap t b = None)"

lemma refs_ok_update:
  assumes "refs_ok t W R" "tb_next t \<le> tb_next t'" "x < tb_next t'"
    and "\<And>b. b \<noteq> x \<Longrightarrow> tb_heap t' b = tb_heap t b \<and> (b \<in> W' \<longleftrightarrow> b \<in> W) \<and> count R' b = count R b"
    and "ref_ok (tb_heap t' x) (x \<in> W') (count R' x)"
  shows "refs_ok t' W' R'"
  unfolding refs_ok_def
proof (intro conjI allI impI)
  fix b show "ref_ok (tb_heap t' b) (b \<in> W') (count R' b)"
    using assms(1,5) assms(4) [of b] by (cases "b = x") (auto simp: refs_ok_def)
next
  fix b assume "tb_next t' \<le> b"
  then show "tb_heap t' b = None" using assms(1-3) assms(4) [of b] by (auto simp: refs_ok_def)
qed

lemma refs_okD:
  assumes "refs_ok t W R" "b \<in> W \<or> b \<in># R"
  obtains bd where "tb_heap t b = Some bd" "bd_references bd = of_bool (b \<in> W) + int (count R b)" "b < tb_next t"
proof -
  have ok: "ref_ok (tb_heap t b) (b \<in> W) (count R b)" "tb_next t \<le> b \<Longrightarrow> tb_heap t b = None" using assms(1) by (auto simp: refs_ok_def)
  then obtain bd where "tb_heap t b = Some bd" using assms(2) by (cases "tb_heap t b") (auto simp flip: count_greater_zero_iff)
  then show thesis using that ok by (cases "tb_next t \<le> b") auto
qed

lemma table_okD:
  assumes "table_ok t W"
  shows "tb_size t \<le> length (tb_pos_to_addr t)"
    "i < tb_size t \<Longrightarrow> \<exists>b. tb_addr_to_block t (tb_pos_to_addr t ! i) = Some (b, i)"
    "tb_addr_to_block t a = Some (b, p) \<Longrightarrow> p < tb_size t \<and> tb_pos_to_addr t ! p = a \<and> b \<in> W \<and> slot t a \<and>
       (\<exists>bd. tb_heap t b = Some bd \<and> bd_address bd = a)"
    "b \<in> W \<Longrightarrow> \<exists>a p. tb_addr_to_block t a = Some (b, p)"
  using assms unfolding table_ok_def by blast+

lemma table_okI:
  assumes "tb_size t \<le> length (tb_pos_to_addr t)"
    and "\<And>i. i < tb_size t \<Longrightarrow> \<exists>b. tb_addr_to_block t (tb_pos_to_addr t ! i) = Some (b, i)"
    and "\<And>a b p. tb_addr_to_block t a = Some (b, p) \<Longrightarrow> p < tb_size t \<and> tb_pos_to_addr t ! p = a \<and> b \<in> W \<and> slot t a \<and>
       (\<exists>bd. tb_heap t b = Some bd \<and> bd_address bd = a)"
    and "\<And>b. b \<in> W \<Longrightarrow> \<exists>a p. tb_addr_to_block t a = Some (b, p)"
  shows "table_ok t W"
  using assms unfolding table_ok_def by blast

lemma slots_disjoint:
  assumes "params_ok t" "slot t a" "slot t b" "a < b"
  shows "a + block_sectors t \<le> b"
proof (cases "tb_segment_size t = - 1")
  case True
  let ?n = "block_sectors t"
  obtain k l where kl: "a = ?n * k" "b = ?n * l" using assms(2,3) True by (auto simp: slot_def elim!: dvdE)
  have "0 < ?n" using assms(1) by (simp add: params_ok_def)
  then have "k + 1 \<le> l" using assms(4) kl by (simp add: mult_less_cancel_left)
  then have "?n * (k + 1) \<le> ?n * l" using \<open>0 < ?n\<close> by (intro mult_left_mono) auto
  then show ?thesis using kl by (simp add: algebra_simps)
next
  case False
  let ?n = "block_sectors t" and ?s = "tb_segment_size t"
  obtain seg k where a: "a = seg * ?s + k * ?n" "0 \<le> k" "a + ?n \<le> (seg + 1) * ?s" using assms(2) False by (auto simp: slot_def)
  obtain seg' k' where b: "b = seg' * ?s + k' * ?n" "0 \<le> k'" "b + ?n \<le> (seg' + 1) * ?s" using assms(3) False by (auto simp: slot_def)
  have n: "0 < ?n" "0 < ?s" using assms(1) False by (auto simp: params_ok_def)
  consider "seg < seg'" | "seg = seg'" | "seg' < seg" by linarith
  then show ?thesis
  proof cases
    case 1
    then have "(seg + 1) * ?s \<le> seg' * ?s" using n by (intro mult_right_mono) auto
    moreover have "0 \<le> k' * ?n" using b(2) n by simp
    ultimately show ?thesis using a b by linarith
  next
    case 2
    then have "k * ?n < k' * ?n" using assms(4) a b by simp
    then have "k + 1 \<le> k'" using n by (simp add: mult_less_cancel_right)
    then have "(k + 1) * ?n \<le> k' * ?n" using n by (intro mult_right_mono) auto
    then show ?thesis using a b 2 by (simp add: algebra_simps)
  next
    case 3
    then have "(seg' + 1) * ?s \<le> seg * ?s" using n by (intro mult_right_mono) auto
    moreover have "0 \<le> k * ?n" using a(2) n by simp
    ultimately show ?thesis using a b n assms(4) by linarith
  qed
qed

section \<open>The operations keep the invariant\<close>

lemma candidate_ok:
  assumes p: "params_ok t" and seg: "0 \<le> segment"
  obtains c where "candidate rnd segment (block_sectors t) t = Inr c"
    "\<And>a. c = Some a \<Longrightarrow> a + block_sectors t \<le> tb_device_sectors t \<Longrightarrow> slot t a"
proof -
  let ?n = "block_sectors t" and ?r = "uint (rnd AND 0x7FFFFFFFFFFFFFFF)"
  let ?room = "if tb_segment_size t = - 1 then tb_device_sectors t else tb_segment_size t"
  have n: "0 < ?n" "?n \<le> ?room" using p by (auto simp: params_ok_def)
  then have d: "0 < ?room div ?n" by (simp add: pos_imp_zdiv_pos_iff)
  have k: "0 \<le> ?r mod (?room div ?n)" using d by simp
  show thesis
  proof (cases "tb_segment_size t = - 1")
    case True
    have "slot t (?r mod (?room div ?n) * ?n)" if "?r mod (?room div ?n) * ?n + ?n \<le> tb_device_sectors t"
      using that k n True by (simp add: slot_def)
    then show thesis using that [of "Some (?r mod (?room div ?n) * ?n)"] d n True by (auto simp: candidate_def Let_def)
  next
    case False
    let ?a = "?r mod (?room div ?n) * ?n + segment * tb_segment_size t"
    have "0 < tb_segment_size t" using n False by simp
    then have "0 \<le> ?a" using k n seg by simp
    moreover have "\<exists>seg k. 0 \<le> k \<and> ?a = seg * tb_segment_size t + k * ?n \<and> ?a + ?n \<le> (seg + 1) * tb_segment_size t"
      if "?a + ?n \<le> (segment + 1) * tb_segment_size t"
      by (rule exI [of _ segment], rule exI [of _ "?r mod (?room div ?n)"]) (use that k in simp)
    ultimately have "slot t ?a" if "?a + ?n \<le> tb_device_sectors t" "?a + ?n \<le> (segment + 1) * tb_segment_size t"
      using that False unfolding slot_def by simp
    moreover have "candidate rnd segment ?n t = Inr (if ?a + ?n > (segment + 1) * tb_segment_size t then None else Some ?a)"
      using d n False by (simp add: candidate_def Let_def)
    ultimately show thesis by (intro that) (auto split: if_splits)
  qed
qed

lemma find_sector_ok:
  assumes "params_ok t" "0 \<le> segment"
  shows "\<exists>r. find_sector n rnds i segment (block_sectors t) t = Inr r \<and>
    (\<forall>a. r = Some a \<longrightarrow> slot t a \<and> tb_addr_to_block t a = None)"
proof (induction n arbitrary: i)
  case (Suc n)
  obtain c where c: "candidate (rnds i) segment (block_sectors t) t = Inr c"
    "\<And>a. c = Some a \<Longrightarrow> a + block_sectors t \<le> tb_device_sectors t \<Longrightarrow> slot t a"
    using candidate_ok [OF assms] by blast
  show ?case using c Suc [of "Suc i"] by (cases c) (auto simp del: not_None_eq)
qed simp

lemma slot_cong:
  "tb_sector_size t' = tb_sector_size t \<Longrightarrow> tb_write_block_size t' = tb_write_block_size t \<Longrightarrow>
   tb_device_sectors t' = tb_device_sectors t \<Longrightarrow> tb_segment_size t' = tb_segment_size t \<Longrightarrow> slot t' = slot t"
  by (simp add: slot_def fun_eq_iff)

lemma GetUnusedBlock_ok:
  assumes p: "params_ok t" and seg: "0 \<le> segment" and ok: "table_ok t W" "refs_ok t W R"
  obtains "GetUnusedBlock rnds segment t = Inr (None, t)"
  | t' where "GetUnusedBlock rnds segment t = Inr (Some (tb_next t), t')" "table_ok t' (insert (tb_next t) W)"
      "refs_ok t' (insert (tb_next t) W) R" "params_ok t'" "tb_next t \<notin> W" 
      "\<forall>x bd. tb_heap t' x = Some bd \<longrightarrow> \<not> bd_initialized bd \<or> tb_heap t x = Some bd"
proof -
  obtain r where r: "find_sector kBlockRetry rnds 0 segment (block_sectors t) t = Inr r"
    "\<And>a. r = Some a \<Longrightarrow> slot t a \<and> tb_addr_to_block t a = None"
    using find_sector_ok [OF p seg] by blast
  have dev: "tb_device_sectors t \<noteq> 0" "tb_sector_size t \<noteq> 0" using p by (auto simp: params_ok_def)
  show thesis
  proof (cases r)
    case None
    then show thesis using that(1) r(1) dev by (simp add: GetUnusedBlock_def Let_def)
  next
    case (Some a)
    have a: "slot t a" "tb_addr_to_block t a = None" using r(2) [OF Some] by auto
    let ?b = "tb_next t"
    let ?bd = "BlockData_new\<lparr>bd_address := a, bd_size := tb_write_block_size t, bd_references := 1\<rparr>"
    let ?t' = "t\<lparr>tb_heap := (tb_heap t)(?b \<mapsto> ?bd), tb_next := ?b + 1,
      tb_pos_to_addr := (if length (tb_pos_to_addr t) \<le> tb_size t then tb_pos_to_addr t @ [a] else (tb_pos_to_addr t)[tb_size t := a]),
      tb_addr_to_block := (tb_addr_to_block t)(a \<mapsto> (?b, tb_size t)), tb_size := tb_size t + 1\<rparr>"
    have fresh: "tb_heap t ?b = None" "ref_ok (tb_heap t ?b) (?b \<in> W) (count R ?b)" using ok(2) unfolding refs_ok_def by blast+
    then have "?b \<notin> W \<and> count R ?b = 0" by simp
    note fresh = fresh this
    have step: "GetUnusedBlock rnds segment t = Inr (Some ?b, ?t')"
      using r(1) Some dev by (simp add: GetUnusedBlock_def Let_def InsertOnStructure_def deref_def BlockData_new_def)
    have pos: "tb_pos_to_addr ?t' ! i = (if i = tb_size t then a else tb_pos_to_addr t ! i)" if "i \<le> tb_size t" for i
      using that table_okD(1) [OF ok(1)] by (auto simp: nth_append nth_list_update)
    have "table_ok ?t' (insert ?b W)"
    proof (rule table_okI)
      show "tb_size ?t' \<le> length (tb_pos_to_addr ?t')" using table_okD(1) [OF ok(1)] by simp
    next
      fix i assume "i < tb_size ?t'"
      then have i: "i = tb_size t \<or> i < tb_size t" by auto
      show "\<exists>b. tb_addr_to_block ?t' (tb_pos_to_addr ?t' ! i) = Some (b, i)"
      proof (cases "i = tb_size t")
        case False
        then obtain b where b: "tb_addr_to_block t (tb_pos_to_addr t ! i) = Some (b, i)" using table_okD(2) [OF ok(1)] i by blast
        then have "tb_pos_to_addr t ! i \<noteq> a" using a(2) by auto
        then show ?thesis using pos [of i] i False b by (simp del: nth_list_update)
      qed (use pos [of i] in \<open>simp del: nth_list_update\<close>)
    next
      fix a' b p assume atb: "tb_addr_to_block ?t' a' = Some (b, p)"
      show "p < tb_size ?t' \<and> tb_pos_to_addr ?t' ! p = a' \<and> b \<in> insert ?b W \<and> slot ?t' a' \<and>
        (\<exists>bd. tb_heap ?t' b = Some bd \<and> bd_address bd = a')"
      proof (cases "a' = a")
        case True
        then have "b = ?b" "p = tb_size t" using atb by simp_all
        then show ?thesis using True pos [of p] a(1) slot_cong [of ?t' t] by (simp add: BlockData_new_def)
      next
        case False
        then have "tb_addr_to_block t a' = Some (b, p)" using atb by simp
        note old = table_okD(3) [OF ok(1) this]
        then have "b \<noteq> ?b" using fresh by auto
        then show ?thesis using old pos [of p] slot_cong [of ?t' t] by auto
      qed
    next
      fix b assume bW: "b \<in> insert ?b W"
      show "\<exists>a' p. tb_addr_to_block ?t' a' = Some (b, p)"
      proof (cases "b = ?b")
        case False
        then obtain a' p where b: "tb_addr_to_block t a' = Some (b, p)" using table_okD(4) [OF ok(1)] bW by blast
        then have "a' \<noteq> a" using a(2) by auto
        then show ?thesis using b by auto
      qed auto
    qed
    moreover have "refs_ok ?t' (insert ?b W) R"
      using fresh by (intro refs_ok_update [OF ok(2), where x = ?b]) (auto simp: BlockData_new_def)
    moreover have "params_ok ?t'" using p by (simp add: params_ok_def)
    ultimately show thesis using that(2) step fresh by (simp add: BlockData_new_def)
  qed
qed

lemma RemoveBlock_ok:
  assumes ok: "table_ok t W" "refs_ok t W R" and b: "b \<in> W"
  obtains t' where "RemoveBlock b t = Inr (True, t')" "table_ok t' (W - {b})" "refs_ok t' (W - {b}) R" "slot t' = slot t" "params_ok t' = params_ok t"
    "\<forall>x bd. tb_heap t' x = Some bd \<longrightarrow> (\<exists>bd'. tb_heap t x = Some bd' \<and> bd_initialized bd = bd_initialized bd')"
proof -
  obtain a p where a: "tb_addr_to_block t a = Some (b, p)" using table_okD(4) [OF ok(1) b] by blast
  note pa = table_okD(3) [OF ok(1) a]
  obtain bd where bd: "tb_heap t b = Some bd" "bd_references bd = 1 + int (count R b)" "b < tb_next t"
    using refs_okD [OF ok(2), of b] b by auto
  have addr: "bd_address bd = a" using pa bd(1) by auto
  let ?last = "tb_size t - 1"
  have last: "?last < tb_size t" "?last < length (tb_pos_to_addr t)" using pa table_okD(1) [OF ok(1)] by auto
  define la where "la = tb_pos_to_addr t ! ?last"
  obtain lb where lb: "tb_addr_to_block t la = Some (lb, ?last)" using table_okD(2) [OF ok(1) last(1)] by (auto simp: la_def)
  let ?refs = "bd_references bd - 1"
  let ?t' = "t\<lparr>tb_pos_to_addr := (tb_pos_to_addr t)[p := la],
    tb_addr_to_block := ((tb_addr_to_block t)(la \<mapsto> (lb, p)))(a := None), tb_size := ?last,
    tb_heap := (tb_heap t)(b := if ?refs = 0 then None else Some (bd\<lparr>bd_references := ?refs\<rparr>))\<rparr>"
  have plen: "p < length (tb_pos_to_addr t)" using pa table_okD(1) [OF ok(1)] by simp
  have step: "RemoveBlock b t = Inr (True, ?t')"
    unfolding RemoveBlock_def deref_def bd(1) option.case res_bind_Inr Let_def addr a prod.case
    using last lb plen pa bd(2) by (simp add: la_def)
  have inj: "tb_pos_to_addr t ! i = tb_pos_to_addr t ! j \<Longrightarrow> i < tb_size t \<Longrightarrow> j < tb_size t \<Longrightarrow> i = j" for i j
    using table_okD(2) [OF ok(1), of i] table_okD(2) [OF ok(1), of j] by (metis option.inject prod.inject)
  have uniq: "a' = a" if "tb_addr_to_block t a' = Some (b, q)" for a' q
    using table_okD(3) [OF ok(1) that] bd(1) addr by auto
  have "table_ok ?t' (W - {b})"
  proof (rule table_okI)
    show "tb_size ?t' \<le> length (tb_pos_to_addr ?t')" using table_okD(1) [OF ok(1)] by simp
  next
    fix i assume i: "i < tb_size ?t'"
    show "\<exists>b. tb_addr_to_block ?t' (tb_pos_to_addr ?t' ! i) = Some (b, i)"
    proof (cases "i = p")
      case True
      then have "la \<noteq> a" using i inj [of p ?last] pa last(1) by (auto simp: la_def)
      then show ?thesis using True plen by simp
    next
      case False
      obtain c where c: "tb_addr_to_block t (tb_pos_to_addr t ! i) = Some (c, i)" using table_okD(2) [OF ok(1), of i] i by fastforce
      have "tb_pos_to_addr t ! i \<noteq> a" "tb_pos_to_addr t ! i \<noteq> la" using c a lb False i by auto
      then show ?thesis using c False by simp
    qed
  next
    fix a' c q assume atb: "tb_addr_to_block ?t' a' = Some (c, q)"
    then have a': "a' \<noteq> a" by auto
    show "q < tb_size ?t' \<and> tb_pos_to_addr ?t' ! q = a' \<and> c \<in> W - {b} \<and> slot ?t' a' \<and> (\<exists>bd. tb_heap ?t' c = Some bd \<and> bd_address bd = a')"
    proof (cases "a' = la")
      case True
      then have cq: "c = lb" "q = p" using atb a' by auto
      note old = table_okD(3) [OF ok(1) lb]
      have "p \<noteq> ?last" using a' True pa by (auto simp: la_def)
      moreover have "lb \<noteq> b" using uniq [of la] lb a' True by auto
      ultimately show ?thesis using cq True old pa plen slot_cong [of ?t' t] by auto
    next
      case False
      then have old': "tb_addr_to_block t a' = Some (c, q)" using atb a' by simp
      note old = table_okD(3) [OF ok(1) old']
      have "q \<noteq> p" using old pa a' by auto
      moreover have "q \<noteq> ?last" using old False by (auto simp: la_def)
      moreover have "c \<noteq> b" using uniq old' a' by auto
      ultimately show ?thesis using old slot_cong [of ?t' t] by auto
    qed
  next
    fix c assume c: "c \<in> W - {b}"
    then obtain a' q where old: "tb_addr_to_block t a' = Some (c, q)" using table_okD(4) [OF ok(1)] by blast
    then have "a' \<noteq> a" using a c by auto
    then show "\<exists>a' p. tb_addr_to_block ?t' a' = Some (c, p)" using old lb by (intro exI [of _ a']) auto
  qed
  moreover have "refs_ok ?t' (W - {b}) R"
    using bd by (intro refs_ok_update [OF ok(2), where x = b]) auto
  ultimately show thesis using that [OF step] slot_cong [of ?t' t] bd(1) by (auto simp: params_ok_def)
qed

text \<open>A change of a block's object that keeps its address.\<close>

lemma table_ok_heap:
  assumes "table_ok t W" and "\<And>b bd. b \<in> W \<Longrightarrow> tb_heap t b = Some bd \<Longrightarrow> \<exists>bd'. h b = Some bd' \<and> bd_address bd' = bd_address bd"
  shows "table_ok (t\<lparr>tb_heap := h\<rparr>) W"
proof (rule table_okI)
  fix a b p assume "tb_addr_to_block (t\<lparr>tb_heap := h\<rparr>) a = Some (b, p)"
  then have atb: "tb_addr_to_block t a = Some (b, p)" by simp
  note old = table_okD(3) [OF assms(1) atb]
  then show "p < tb_size (t\<lparr>tb_heap := h\<rparr>) \<and> tb_pos_to_addr (t\<lparr>tb_heap := h\<rparr>) ! p = a \<and> b \<in> W \<and> slot (t\<lparr>tb_heap := h\<rparr>) a \<and>
      (\<exists>bd. tb_heap (t\<lparr>tb_heap := h\<rparr>) b = Some bd \<and> bd_address bd = a)"
    using assms(2) [of b] slot_cong [of "t\<lparr>tb_heap := h\<rparr>" t] by auto
qed (use table_okD [OF assms(1)] in auto)

lemma GetRandomBlock_ok:
  assumes ok: "table_ok t W" "refs_ok t W R"
  obtains "GetRandomBlock timed_out rnd t = Inr (None, t)"
  | b bd where "GetRandomBlock timed_out rnd t = Inr (Some b, t\<lparr>tb_heap := (tb_heap t)(b \<mapsto> bd\<lparr>bd_references := bd_references bd + 1\<rparr>)\<rparr>)"
      "b \<in> W" "tb_heap t b = Some bd" "bd_initialized bd"
      "table_ok (t\<lparr>tb_heap := (tb_heap t)(b \<mapsto> bd\<lparr>bd_references := bd_references bd + 1\<rparr>)\<rparr>) W"
      "refs_ok (t\<lparr>tb_heap := (tb_heap t)(b \<mapsto> bd\<lparr>bd_references := bd_references bd + 1\<rparr>)\<rparr>) W (add_mset b R)"
proof (cases "timed_out \<or> tb_size t = 0")
  case True
  then show thesis using that(1) by (simp add: GetRandomBlock_def)
next
  case False
  let ?i = "unat rnd mod tb_size t"
  have i: "?i < tb_size t" using False by simp
  then have i': "?i < length (tb_pos_to_addr t)" using table_okD(1) [OF ok(1)] by linarith
  obtain b where b: "tb_addr_to_block t (tb_pos_to_addr t ! ?i) = Some (b, ?i)" using table_okD(2) [OF ok(1) i] by blast
  then have bW: "b \<in> W" using table_okD(3) [OF ok(1) b] by blast
  obtain bd where bd: "tb_heap t b = Some bd" "bd_references bd = 1 + int (count R b)" "b < tb_next t"
    using refs_okD [OF ok(2), of b] bW by auto
  let ?t' = "t\<lparr>tb_heap := (tb_heap t)(b \<mapsto> bd\<lparr>bd_references := bd_references bd + 1\<rparr>)\<rparr>"
  have step: "GetRandomBlock timed_out rnd t = Inr (if bd_initialized bd then (Some b, ?t') else (None, t))"
    using False i' b bd(1) by (simp add: GetRandomBlock_def deref_def)
  show thesis
  proof (cases "bd_initialized bd")
    case True
    have "table_ok ?t' W" using bd(1) by (intro table_ok_heap [OF ok(1)]) auto
    moreover have "refs_ok ?t' W (add_mset b R)" using bd bW by (intro refs_ok_update [OF ok(2), where x = b]) auto
    ultimately show thesis using that(2) step True bW bd(1) by auto
  qed (use step that(1) in simp)
qed

lemma ReleaseBlock_ok:
  assumes ok: "table_ok t W" "refs_ok t W (add_mset b R)"
  obtains h where "ReleaseBlock b t = Inr (True, t\<lparr>tb_heap := h\<rparr>)" "table_ok (t\<lparr>tb_heap := h\<rparr>) W" "refs_ok (t\<lparr>tb_heap := h\<rparr>) W R"
    "\<forall>x bd. h x = Some bd \<longrightarrow> (\<exists>bd'. tb_heap t x = Some bd' \<and> bd_initialized bd = bd_initialized bd')"
proof -
  obtain bd where bd: "tb_heap t b = Some bd" "bd_references bd = of_bool (b \<in> W) + int (count R b) + 1" "b < tb_next t"
    by (rule refs_okD [OF ok(2), of b]) auto
  let ?h = "(tb_heap t)(b := if bd_references bd = 1 then None else Some (bd\<lparr>bd_references := bd_references bd - 1\<rparr>))"
  have "ReleaseBlock b t = Inr (True, t\<lparr>tb_heap := ?h\<rparr>)"
    using bd by (simp add: ReleaseBlock_def deref_def Let_def)
  moreover have "table_ok (t\<lparr>tb_heap := ?h\<rparr>) W" using bd by (intro table_ok_heap [OF ok(1)]) auto
  moreover have "refs_ok (t\<lparr>tb_heap := ?h\<rparr>) W R" using bd by (intro refs_ok_update [OF ok(2), where x = b]) auto
  ultimately show thesis using that [of ?h] bd(1) by auto
qed

lemma object_update_ok:
  assumes ok: "table_ok t W" "refs_ok t W R" and b: "b \<in> W \<or> b \<in># R" and bd: "tb_heap t b = Some bd"
    and f: "bd_address bd' = bd_address bd" "bd_references bd' = bd_references bd"
  shows "table_ok (t\<lparr>tb_heap := (tb_heap t)(b \<mapsto> bd')\<rparr>) W" "refs_ok (t\<lparr>tb_heap := (tb_heap t)(b \<mapsto> bd')\<rparr>) W R"
proof -
  show "table_ok (t\<lparr>tb_heap := (tb_heap t)(b \<mapsto> bd')\<rparr>) W" using bd f by (intro table_ok_heap [OF ok(1)]) auto
  have "ref_ok (tb_heap t b) (b \<in> W) (count R b)" "b < tb_next t" using ok(2) refs_okD [OF ok(2) b] by (auto simp: refs_ok_def)
  then show "refs_ok (t\<lparr>tb_heap := (tb_heap t)(b \<mapsto> bd')\<rparr>) W R"
    using bd f by (intro refs_ok_update [OF ok(2), where x = b]) auto
qed

section \<open>Any use of the table\<close>

text \<open>
  Write and read threads in any order: a write thread removes blocks it got, a read thread releases references it got. \<open>marks\<close> says
  whether write threads call \<open>set_initialized\<close> after writing a block.
\<close>

inductive disk_run :: "bool \<Rightarrow> DiskBlockTable \<Rightarrow> DiskBlockTable \<times> nat set \<times> nat multiset \<Rightarrow> bool" for marks t0 where
  start: "disk_run marks t0 (t0, {}, {#})"
| unused: "\<lbrakk>disk_run marks t0 (t, W, R); 0 \<le> segment; GetUnusedBlock rnds segment t = Inr (Some b, t')\<rbrakk> \<Longrightarrow>
    disk_run marks t0 (t', insert b W, R)"
| pattern: "\<lbrakk>disk_run marks t0 (t, W, R); b \<in> W; set_pattern p b t = Inr t'\<rbrakk> \<Longrightarrow> disk_run marks t0 (t', W, R)"
| mark: "\<lbrakk>disk_run marks t0 (t, W, R); marks; b \<in> W; set_initialized b t = Inr t'\<rbrakk> \<Longrightarrow> disk_run marks t0 (t', W, R)"
| remove: "\<lbrakk>disk_run marks t0 (t, W, R); b \<in> W; RemoveBlock b t = Inr (ok, t')\<rbrakk> \<Longrightarrow> disk_run marks t0 (t', W - {b}, R)"
| random: "\<lbrakk>disk_run marks t0 (t, W, R); GetRandomBlock timed_out rnd t = Inr (Some b, t')\<rbrakk> \<Longrightarrow>
    disk_run marks t0 (t', W, add_mset b R)"
| release: "\<lbrakk>disk_run marks t0 (t, W, add_mset b R); ReleaseBlock b t = Inr (ok, t')\<rbrakk> \<Longrightarrow> disk_run marks t0 (t', W, R)"

definition no_marks :: "DiskBlockTable \<Rightarrow> bool" where
  "no_marks t \<longleftrightarrow> (\<forall>b bd. tb_heap t b = Some bd \<longrightarrow> \<not> bd_initialized bd)"

lemma disk_run_ok:
  assumes "disk_run marks t0 s" "params_ok t0" "tb_size t0 = 0" "tb_addr_to_block t0 = Map.empty" "tb_heap t0 = Map.empty"
  shows "case s of (t, W, R) \<Rightarrow> table_ok t W \<and> refs_ok t W R \<and> params_ok t \<and> (\<not> marks \<longrightarrow> no_marks t)"
  using assms(1)
proof (induction rule: disk_run.induct)
  case start
  then show ?case using assms by (simp add: table_ok_def refs_ok_def no_marks_def)
next
  case (unused t W R segment rnds b t')
  then have ok: "params_ok t" "0 \<le> segment" "table_ok t W" "refs_ok t W R" and nm: "\<not> marks \<longrightarrow> no_marks t" by simp_all
  show ?case
  proof (rule GetUnusedBlock_ok [OF ok, of rnds])
    fix t'' assume t'': "GetUnusedBlock rnds segment t = Inr (Some (tb_next t), t'')" "table_ok t'' (insert (tb_next t) W)"
      "refs_ok t'' (insert (tb_next t) W) R" "params_ok t''"
      "\<forall>x bd. tb_heap t'' x = Some bd \<longrightarrow> \<not> bd_initialized bd \<or> tb_heap t x = Some bd"
    then have "no_marks t''" if "no_marks t" using that unfolding no_marks_def by blast
    then show ?case using t'' unused(3) nm by simp
  qed (use unused(3) in simp)
next
  case (pattern t W R b p t')
  then obtain bd where bd: "tb_heap t b = Some bd" "t' = t\<lparr>tb_heap := (tb_heap t)(b \<mapsto> bd\<lparr>bd_pattern := p\<rparr>)\<rparr>"
    by (auto simp: set_pattern_def deref_def split: option.splits)
  then show ?case
    using pattern object_update_ok [of t W R b bd "bd\<lparr>bd_pattern := p\<rparr>"] by (auto simp: params_ok_def no_marks_def)
next
  case (mark t W R b t')
  then obtain bd where bd: "tb_heap t b = Some bd" "t' = t\<lparr>tb_heap := (tb_heap t)(b \<mapsto> bd\<lparr>bd_initialized := True\<rparr>)\<rparr>"
    by (auto simp: set_initialized_def deref_def split: option.splits)
  then show ?case
    using mark object_update_ok [of t W R b bd "bd\<lparr>bd_initialized := True\<rparr>"] by (auto simp: params_ok_def)
next
  case (remove t W R b ok t')
  then have ok: "table_ok t W" "refs_ok t W R" "b \<in> W" and nm: "\<not> marks \<longrightarrow> no_marks t" "params_ok t" by simp_all
  show ?case
    using remove(3) nm by (rule_tac RemoveBlock_ok [OF ok]) (fastforce simp: no_marks_def)
next
  case (random t W R timed_out rnd b t')
  then have ok: "table_ok t W" "refs_ok t W R" and nm: "\<not> marks \<longrightarrow> no_marks t" "params_ok t" by simp_all
  show ?case
    using random(2) nm by (rule_tac GetRandomBlock_ok [OF ok, of timed_out rnd]) (auto simp: no_marks_def params_ok_def)
next
  case (release t W b R ok t')
  then have ok: "table_ok t W" "refs_ok t W (add_mset b R)" and nm: "\<not> marks \<longrightarrow> no_marks t" "params_ok t" by simp_all
  show ?case
    using release(2) nm by (rule_tac ReleaseBlock_ok [OF ok]) (fastforce simp: no_marks_def params_ok_def)
qed

section \<open>Properties\<close>


text \<open>
  Random disk threads never read a block. A write thread that has written a block calls the accessor \<open>initialized()\<close> where it
  should call \<open>set_initialized()\<close>, and nothing else calls the latter. So in every run of the program every request of a random disk thread
  returns no block.
\<close>

lemma random_disk_idle:
  assumes par: "SetParameters sector_size write_block_size device_sectors segment_size DiskBlockTable_new = Inr t0" "params_ok t0"
    and run: "disk_run False t0 (t, W, R)"
  shows "GetRandomBlock timed_out rnd t = Inr (None, t)"
proof -
  have "tb_size t0 = 0" "tb_addr_to_block t0 = Map.empty" "tb_heap t0 = Map.empty"
    using par(1) by (auto simp: SetParameters_def DiskBlockTable_new_def)
  from disk_run_ok [OF run par(2) this] have ok: "table_ok t W" "refs_ok t W R" "no_marks t" by auto
  show ?thesis
    using ok(3) by (rule_tac GetRandomBlock_ok [OF ok(1,2), of timed_out rnd]) (auto simp: no_marks_def)
qed

section \<open>Concrete instances\<close>

definition ex_table :: DiskBlockTable where
  "ex_table = DiskBlockTable_new\<lparr>tb_sector_size := 512, tb_write_block_size := 1024, tb_device_sectors := 100, tb_segment_size := - 1\<rparr>"

lemma ex_table_ok:
  "SetParameters 512 1024 100 (- 1) DiskBlockTable_new = Inr ex_table" "params_ok ex_table"
  by (simp_all add: ex_table_def SetParameters_def params_ok_def DiskBlockTable_new_def)

lemma ex_table_run: "\<exists>t'. disk_run marks ex_table (t', {0}, {#}) \<and> tb_size t' = 1"
proof -
  have retry: "kBlockRetry = Suc 99" by (simp add: kBlockRetry_def)
  have "find_sector kBlockRetry (\<lambda>_. 7) 0 0 2 ex_table = Inr (Some 14)"
    unfolding retry find_sector.simps by (simp add: candidate_def ex_table_def DiskBlockTable_new_def Let_def)
  then obtain t' where "GetUnusedBlock (\<lambda>_. 7) 0 ex_table = Inr (Some 0, t')" "tb_size t' = 1"
    by (simp add: GetUnusedBlock_def ex_table_def DiskBlockTable_new_def InsertOnStructure_def deref_def BlockData_new_def Let_def)
  then show ?thesis using disk_run.unused [OF disk_run.start, where segment = 0 and rnds = "\<lambda>_. 7"] by fastforce
qed


theorem random_disk_idle_witness:
  "\<exists>t. disk_run False ex_table (t, {0}, {#}) \<and> GetRandomBlock False 5 t = Inr (None, t)"
proof -
  obtain t where t: "disk_run False ex_table (t, {0}, {#})" using ex_table_run by blast
  then show ?thesis using random_disk_idle [OF ex_table_ok t, of False 5] by blast
qed

end
