(* ===== verification/DiskThreads.thy ===== *)
theory DiskThreads
  imports DiskBlocks Workers "HOL-Library.Signed_Division"
begin

text \<open>
  The disk workers of \<^verbatim>\<open>src/src/worker.cc\<close>: \<open>DiskThread\<close> writes blocks to a device, reads them back and compares them with
  their pattern, \<open>RandomDiskThread\<close> reads blocks that a \<open>DiskThread\<close> wrote. A worker is a machine whose steps are the stretches of its
  loop between two operations on the shared block table. The device, the asynchronous I/O and the clock are answered by the
  environment of a step; \<open>dk_requests\<close> records the requests that were submitted.
\<close>

section \<open>State\<close>

definition kSectorSize :: int where
  "kSectorSize = 512"

datatype io_request = IoWrite int "u64 list" | IoRead int int

datatype disk_pc =
    DkStart
  | DkHead
  | DkWriting
  | DkAllocated nat
  | DkFlush
  | DkReading
  | DkPopped nat
  | DkVerified nat
  | DkFailed nat
  | DkDraining bool "bool option"
  | DkHolding nat
  | DkRelease nat
  | DkFinished bool

record DiskThread =
  dk_random :: bool
  dk_read_block_size :: int
  dk_write_block_size :: int
  dk_segment_size :: int
  dk_cache_size :: int
  dk_queue_size :: int
  dk_blocks_per_segment :: int
  dk_read_threshold :: int
  dk_write_threshold :: int
  dk_device_sectors :: int
  dk_non_destructive :: bool
  dk_update_block_table :: bool
  dk_in_flight :: "nat list"
  dk_blocks_written :: int
  dk_blocks_read :: int
  dk_pages_copied :: int
  dk_errorcount :: int
  dk_diag :: diag
  dk_status :: bool
  dk_block_num :: int
  dk_num_segments :: int
  dk_pc :: disk_pc
  dk_requests :: "io_request list"

text \<open>\<open>status_\<close> is false from \<open>InitThread\<close> on.\<close>

definition DiskThread_new :: DiskThread where
  "DiskThread_new =
     \<lparr>dk_random = False, dk_read_block_size = kSectorSize, dk_write_block_size = kSectorSize, dk_segment_size = - 1,
      dk_cache_size = 16 * 1024 * 1024, dk_queue_size = 16 * 1024 * 1024 div kSectorSize * 3 div 2, dk_blocks_per_segment = 32,
      dk_read_threshold = 100000, dk_write_threshold = 100000, dk_device_sectors = 0, dk_non_destructive = False,
      dk_update_block_table = True, dk_in_flight = [], dk_blocks_written = 0, dk_blocks_read = 0, dk_pages_copied = 0,
      dk_errorcount = 0, dk_diag = None, dk_status = False, dk_block_num = 0, dk_num_segments = 0, dk_pc = DkStart,
      dk_requests = []\<rparr>"

definition RandomDiskThread_new :: DiskThread where
  "RandomDiskThread_new = DiskThread_new\<lparr>dk_random := True, dk_update_block_table := False\<rparr>"

section \<open>Parameters\<close>

text \<open>Division and remainder of C: truncated, undefined for a divisor of 0. \<open>to_int\<close> is the conversion to a 32-bit \<open>int\<close>.\<close>

definition cdiv :: "int \<Rightarrow> int \<Rightarrow> int res" where
  "cdiv a b = (if b = 0 then Inl DivisionByZero else Inr (a sdiv b))"

definition cmod :: "int \<Rightarrow> int \<Rightarrow> int res" where
  "cmod a b = (if b = 0 then Inl DivisionByZero else Inr (a smod b))"

definition to_int :: "int \<Rightarrow> int" where
  "to_int x = signed_take_bit 31 x"

text \<open>The result of \<open>SetParameters\<close> is whether the thread is used; \<open>None\<close> stands for an early \<open>return false\<close>.\<close>

definition set_read_block :: "int \<Rightarrow> DiskThread \<Rightarrow> DiskThread option res" where
  "set_read_block read_block_size dk =
     (if read_block_size = - 1 then Inr (Some dk)
      else res_bind (cmod read_block_size kSectorSize) (\<lambda>r.
             Inr (if r \<noteq> 0 then None else Some (dk\<lparr>dk_read_block_size := read_block_size\<rparr>))))"

definition set_write_block :: "int \<Rightarrow> DiskThread \<Rightarrow> DiskThread option res" where
  "set_write_block write_block_size dk =
     (if write_block_size \<noteq> - 1
      then res_bind (cmod write_block_size kSectorSize) (\<lambda>r.
             if r \<noteq> 0 then Inr None
             else res_bind (cmod write_block_size (dk_read_block_size dk)) (\<lambda>r'.
                    Inr (if r' \<noteq> 0 then None else Some (dk\<lparr>dk_write_block_size := write_block_size\<rparr>))))
      else if dk_read_block_size dk > dk_write_block_size dk
      then Inr (Some (dk\<lparr>dk_write_block_size := dk_read_block_size dk\<rparr>))
      else res_bind (cmod (dk_write_block_size dk) (dk_read_block_size dk)) (\<lambda>r. Inr (if r \<noteq> 0 then None else Some dk)))"

definition set_limits :: "int \<Rightarrow> int \<Rightarrow> int \<Rightarrow> int \<Rightarrow> DiskThread \<Rightarrow> DiskThread option" where
  "set_limits cache_size blocks_per_segment read_threshold write_threshold dk =
     (let dk1 = (if cache_size \<noteq> - 1 then dk\<lparr>dk_cache_size := to_int cache_size\<rparr> else dk)
      in if blocks_per_segment \<noteq> - 1 \<and> blocks_per_segment \<le> 0 then None
         else let dk2 = (if blocks_per_segment \<noteq> - 1 then dk1\<lparr>dk_blocks_per_segment := blocks_per_segment\<rparr> else dk1)
         in if read_threshold \<noteq> - 1 \<and> read_threshold \<le> 0 then None
         else let dk3 = (if read_threshold \<noteq> - 1 then dk2\<lparr>dk_read_threshold := read_threshold\<rparr> else dk2)
         in if write_threshold \<noteq> - 1 \<and> write_threshold \<le> 0 then None
         else Some (if write_threshold \<noteq> - 1 then dk3\<lparr>dk_write_threshold := write_threshold\<rparr> else dk3))"

definition set_segment :: "int \<Rightarrow> DiskThread \<Rightarrow> DiskThread option res" where
  "set_segment segment_size dk =
     (if segment_size = - 1 then Inr (Some dk)
      else res_bind (cmod segment_size kSectorSize) (\<lambda>r.
             if r \<noteq> 0 then Inr None
             else res_bind (cdiv segment_size kSectorSize) (\<lambda>q. Inr (Some (dk\<lparr>dk_segment_size := q\<rparr>)))))"

definition update_table :: "DiskThread \<Rightarrow> DiskBlockTable \<Rightarrow> DiskBlockTable res" where
  "update_table dk t =
     (if dk_update_block_table dk
      then DiskBlocks.SetParameters kSectorSize (dk_write_block_size dk) (dk_device_sectors dk) (dk_segment_size dk) t
      else Inr t)"

definition opt_bind :: "'a option res \<Rightarrow> ('a \<Rightarrow> 'b option res) \<Rightarrow> 'b option res" where
  "opt_bind x f = res_bind x (\<lambda>r. case r of None \<Rightarrow> Inr None | Some a \<Rightarrow> f a)"

record disk_params =
  dp_read_block_size :: int
  dp_write_block_size :: int
  dp_segment_size :: int
  dp_cache_size :: int
  dp_blocks_per_segment :: int
  dp_read_threshold :: int
  dp_write_threshold :: int
  dp_non_destructive :: bool

definition DiskThread_SetParameters :: "disk_params \<Rightarrow> DiskThread \<times> DiskBlockTable \<Rightarrow> (DiskThread \<times> DiskBlockTable) option res" where
  "DiskThread_SetParameters P = (\<lambda>(dk, t).
     opt_bind (set_read_block (dp_read_block_size P) dk) (\<lambda>dk1.
     opt_bind (set_write_block (dp_write_block_size P) dk1) (\<lambda>dk2.
     opt_bind (Inr (set_limits (dp_cache_size P) (dp_blocks_per_segment P) (dp_read_threshold P) (dp_write_threshold P) dk2)) (\<lambda>dk3.
     opt_bind (set_segment (dp_segment_size P) dk3) (\<lambda>dk4.
     res_bind (cdiv (dk_cache_size dk4) (dk_write_block_size dk4)) (\<lambda>q.
     let dk5 = dk4\<lparr>dk_non_destructive := dp_non_destructive P, dk_queue_size := q * 3 sdiv 2\<rparr>
     in res_bind (update_table dk5 t) (\<lambda>t'. Inr (Some (dk5, t')))))))))"

section \<open>Opening the device\<close>

text \<open>The answers of \<open>fstat\<close> and the \<open>ioctl\<close> for the size of a block device, in bytes.\<close>

datatype device_stat = StatFails | BlockDevice "int option" | RegularFile int | OtherFile

definition GetDiskSize :: "device_stat \<Rightarrow> DiskThread \<times> DiskBlockTable \<Rightarrow> (bool \<times> DiskThread \<times> DiskBlockTable) res" where
  "GetDiskSize st = (\<lambda>(dk, t).
     let finish = (\<lambda>bytes. let dk' = dk\<lparr>dk_device_sectors := bytes sdiv kSectorSize\<rparr>
                           in res_bind (update_table dk' t) (\<lambda>t'. Inr (True, dk', t')))
     in case st of
          StatFails \<Rightarrow> Inr (False, dk, t)
        | BlockDevice None \<Rightarrow> Inr (False, dk, t)
        | BlockDevice (Some bytes) \<Rightarrow>
            if bytes = 0 then Inr (False, dk\<lparr>dk_errorcount := dk_errorcount dk + 1, dk_status := True\<rparr>, t) else finish bytes
        | RegularFile bytes \<Rightarrow> finish bytes
        | OtherFile \<Rightarrow> Inr (False, dk, t))"

section \<open>One asynchronous request\<close>

text \<open>
  The answers of \<open>io_submit\<close> and \<open>io_getevents\<close>: the submission fails, no event arrives (interrupted or not), or the event carries
  the number of bytes transferred or a negative error. The result is whether the request succeeded and the errors to count.
\<close>

datatype io_result = SubmitFails | NoEvent bool | Event int

definition AsyncDiskIO :: "io_result \<Rightarrow> int \<Rightarrow> bool \<times> int" where
  "AsyncDiskIO r nbytes =
     (case r of
        SubmitFails \<Rightarrow> (False, 0)
      | NoEvent interrupted \<Rightarrow> (False, if interrupted then 0 else 1)
      | Event res \<Rightarrow> if res \<noteq> nbytes then (False, 1) else (True, 0))"

section \<open>The environment of a step\<close>

text \<open>
  \<open>de_step\<close>: what the memory side is answered. \<open>de_device k\<close>: the 64-bit word the device returns for the bytes \<open>8 * k\<close> to
  \<open>8 * k + 7\<close> when it is read. \<open>de_reads\<close>: for each read request of a validation the value of \<open>random()\<close> and the outcome.
  \<open>de_opened\<close>: the answers of \<open>open\<close>, of the allocation of the buffer and of \<open>io_setup\<close>. \<open>de_buffer\<close>: the address of the buffer.
\<close>

record disk_env =
  de_step :: step_env
  de_ready_no_pause :: bool
  de_rnds :: "nat \<Rightarrow> u64"
  de_timed_out :: bool
  de_opened :: bool
  de_stat :: device_stat
  de_alloc :: bool
  de_io_setup :: bool
  de_write :: io_result
  de_seek :: bool
  de_reads :: "(nat \<times> io_result) list"
  de_device :: "int \<Rightarrow> u64"
  de_flush :: bool
  de_buffer :: u64

section \<open>Writing a block\<close>

text \<open>
  The fallback when no valid page is available fills \<open>size / wordsize_\<close> 32-bit words of the zeroed buffer, with \<open>wordsize_\<close> 8.
\<close>

definition fallback_words :: "Pattern \<Rightarrow> nat \<Rightarrow> u64 list" where
  "fallback_words p nbytes =
     map (\<lambda>j. l64_of (if 2 * j < nbytes div 8 then pattern p (of_nat (2 * j)) else 0)
                     (if 2 * j + 1 < nbytes div 8 then pattern p (of_nat (2 * j + 1)) else 0)) [0..<nbytes div 8]"

definition block_data :: "settings \<Rightarrow> disk_env \<Rightarrow> nat \<Rightarrow> sat \<Rightarrow> (u64 list \<times> nat option \<times> sat) res" where
  "block_data sc env nbytes s =
     res_bind (if nat (cf_page_length (sc_cfg sc)) < nbytes then Inl OutOfBounds else Inr ()) (\<lambda>_.
     res_bind (get_valid sc (de_step env) kDontCareTag s) (\<lambda>(r, s1).
       case r of
         None \<Rightarrow> res_bind (GetRandomPattern (sat_patternlist s1) (se_random (de_step env))) (\<lambda>(pid, pl).
                   case pid of
                     None \<Rightarrow> Inl NullPointer
                   | Some k \<Rightarrow> Inr (fallback_words (patterns pl ! k) nbytes, pid, s1\<lparr>sat_patternlist := pl\<rparr>))
       | Some pe \<Rightarrow> res_bind (put_valid sc (de_step env) pe s1) (\<lambda>(ok, s2).
                      Inr (take (nbytes div 8) (load_page sc pe (sat_mem s1)), pe_pattern pe, s2))))"

definition WriteBlockToDisk ::
    "settings \<Rightarrow> disk_env \<Rightarrow> nat \<Rightarrow> DiskThread \<times> DiskBlockTable \<times> sat \<Rightarrow> (bool \<times> DiskThread \<times> DiskBlockTable \<times> sat) res" where
  "WriteBlockToDisk sc env b = (\<lambda>(dk, t, s).
     res_bind (deref b t) (\<lambda>bd.
     res_bind (block_data sc env (nat (bd_size bd)) s) (\<lambda>(words, pid, s').
     res_bind (set_pattern pid b t) (\<lambda>t'.
       case AsyncDiskIO (de_write env) (bd_size bd) of (ok, errors) \<Rightarrow>
         Inr (ok, dk\<lparr>dk_errorcount := dk_errorcount dk + errors,
                     dk_requests := dk_requests dk @ [IoWrite (bd_address bd * kSectorSize) words]\<rparr>, t', s')))))"

section \<open>Validating a block\<close>

definition read_buffer :: "disk_env \<Rightarrow> int \<Rightarrow> int \<Rightarrow> u64 list" where
  "read_buffer env offset bytes = map (\<lambda>i. de_device env (offset div 8 + int i)) [0..<nat bytes div 8]"

definition disk_labels :: region_labels where
  "disk_labels = \<lparr>rl_lastcpu = 0, rl_offset = 0, rl_write_dram_frequency = - 1, rl_worker_name = ''unknown'', rl_phase = ''unknown'',
     rl_sat_page_offset = - 1\<rparr>"

text \<open>The worker that \<open>CheckRegion\<close> sees.\<close>

definition disk_worker :: "DiskThread \<Rightarrow> sat \<Rightarrow> worker" where
  "disk_worker dk s = (sat_shared s)\<lparr>w_errorcount := dk_errorcount dk, w_diag := dk_diag dk\<rparr>"

definition from_disk_worker :: "worker \<Rightarrow> DiskThread \<times> sat \<Rightarrow> DiskThread \<times> sat" where
  "from_disk_worker w = (\<lambda>(dk, s).
     (dk\<lparr>dk_errorcount := w_errorcount w, dk_diag := w_diag w\<rparr>,
      s\<lparr>sat_shared := w\<lparr>w_errorcount := w_errorcount (sat_shared s), w_diag := w_diag (sat_shared s)\<rparr>\<rparr>))"

text \<open>The comparison of the group just read; \<open>bytes_read\<close> is passed as the offset of the pattern.\<close>

definition compare_group ::
    "settings \<Rightarrow> disk_env \<Rightarrow> nat option \<Rightarrow> int \<Rightarrow> int \<Rightarrow> u64 list \<Rightarrow> DiskThread \<times> sat \<Rightarrow> (DiskThread \<times> sat) res" where
  "compare_group sc env pid bytes_read bytes buffer = (\<lambda>(dk, s).
     if dk_non_destructive dk then Inr (dk, s)
     else case pid of
            None \<Rightarrow> Inl NullPointer
          | Some k \<Rightarrow>
              res_bind (CheckRegion (now_cfg sc (de_step env)) (patterns (sat_patternlist s)) k (de_buffer env) disk_labels (nat bytes)
                          bytes_read (buffer, disk_worker dk s)) (\<lambda>(errors, (_, w), _).
                case from_disk_worker w (dk, s) of (dk', s') \<Rightarrow>
                  Inr (if errors \<noteq> 0 then dk'\<lparr>dk_errorcount := dk_errorcount dk' + 1\<rparr> else dk', s')))"

text \<open>
  One turn of the loop per answer; \<open>Diverged\<close> if the loop needs more answers than there are. The buffer has the size of a page.
\<close>

fun validate_loop ::
    "settings \<Rightarrow> disk_env \<Rightarrow> nat option \<Rightarrow> int \<Rightarrow> int \<Rightarrow> int \<Rightarrow> (nat \<times> io_result) list \<Rightarrow> DiskThread \<times> sat \<Rightarrow>
     (bool \<times> DiskThread \<times> sat) res" where
  "validate_loop sc env pid start bytes_read blocks [] (dk, s) = (if blocks = 0 then Inr (True, dk, s) else Inl Diverged)"
| "validate_loop sc env pid start bytes_read blocks ((rnd, result) # reads) (dk, s) =
     (if blocks = 0 then Inr (True, dk, s)
      else let current_blocks = int rnd smod blocks + 1;
               current_bytes = current_blocks * dk_read_block_size dk
           in if current_bytes < 0 \<or> cf_page_length (sc_cfg sc) < current_bytes then Inl OutOfBounds
              else
                case AsyncDiskIO result current_bytes of (ok, errors) \<Rightarrow>
                let dk1 = dk\<lparr>dk_errorcount := dk_errorcount dk + errors,
                             dk_requests := dk_requests dk @ [IoRead (start + bytes_read) current_bytes]\<rparr>
                in if \<not> ok then Inr (False, dk1, s)
                   else res_bind (compare_group sc env pid bytes_read current_bytes (read_buffer env (start + bytes_read) current_bytes)
                                    (dk1, s)) (\<lambda>(dk2, s2).
                          validate_loop sc env pid start (bytes_read + current_blocks * dk_read_block_size dk2)
                            (blocks - current_blocks) reads (dk2, s2)))"

text \<open>The size of a block is a \<open>uint64\<close>, so the read block size is converted before the division.\<close>

definition ValidateBlockOnDisk ::
    "settings \<Rightarrow> disk_env \<Rightarrow> nat \<Rightarrow> DiskThread \<times> DiskBlockTable \<times> sat \<Rightarrow> (bool \<times> DiskThread \<times> DiskBlockTable \<times> sat) res" where
  "ValidateBlockOnDisk sc env b = (\<lambda>(dk, t, s).
     res_bind (deref b t) (\<lambda>bd.
       let divisor = uint (of_int (dk_read_block_size dk) :: u64)
       in if divisor = 0 then Inl DivisionByZero
          else if \<not> de_seek env then Inr (False, dk, t, s)
          else res_bind (validate_loop sc env (bd_pattern bd) (bd_address bd * kSectorSize) 0 (bd_size bd div divisor) (de_reads env)
                           (dk, s)) (\<lambda>(ok, dk', s'). Inr (ok, dk', t, s'))))"

section \<open>The loops\<close>

text \<open>The number of segments, the entry of \<open>DoWork\<close>.\<close>

definition count_segments :: "DiskThread \<Rightarrow> int res" where
  "count_segments dk =
     (if dk_segment_size dk = - 1 then Inr 1
      else res_bind (cdiv (dk_device_sectors dk) (dk_segment_size dk)) (\<lambda>q.
           res_bind (cmod (dk_device_sectors dk) (dk_segment_size dk)) (\<lambda>r. Inr (if r \<noteq> 0 then q + 1 else q))))"

definition DoWork_enter :: "DiskThread \<Rightarrow> DiskThread res" where
  "DoWork_enter dk =
     (if dk_random dk then Inr (dk\<lparr>dk_pc := DkHead\<rparr>)
      else res_bind (count_segments dk) (\<lambda>n.
           if \<not> (- (2 ^ 31) \<le> 3 * dk_cache_size dk \<and> 3 * dk_cache_size dk < 2 ^ 31) then Inl SignedOverflow
           else res_bind (sat_assert (dk_device_sectors dk * kSectorSize > 3 * dk_cache_size dk)) (\<lambda>_.
                  Inr (dk\<lparr>dk_num_segments := n, dk_block_num := 0, dk_pc := DkHead\<rparr>))))"

text \<open>\<open>Work\<close> up to the call of \<open>DoWork\<close>.\<close>

definition Work_start :: "disk_env \<Rightarrow> DiskThread \<times> DiskBlockTable \<Rightarrow> (DiskThread \<times> DiskBlockTable) res" where
  "Work_start env = (\<lambda>(dk, t).
     let fail = (\<lambda>dk. dk\<lparr>dk_status := False, dk_pc := DkFinished False\<rparr>)
     in if \<not> de_opened env then Inr (fail dk, t)
        else res_bind (GetDiskSize (de_stat env) (dk, t)) (\<lambda>(ok, dk1, t1).
          if \<not> ok \<or> \<not> de_alloc env \<or> \<not> de_io_setup env then Inr (fail dk1, t1)
          else res_bind (DoWork_enter dk1) (\<lambda>dk2. Inr (dk2, t1))))"

definition finish :: "bool \<Rightarrow> DiskThread \<Rightarrow> DiskThread" where
  "finish result dk = dk\<lparr>dk_status := result, dk_pc := DkFinished result\<rparr>"

definition write_room :: "DiskThread \<Rightarrow> bool" where
  "write_room dk \<longleftrightarrow> int (length (dk_in_flight dk)) < uint (of_int (dk_queue_size dk + 1) :: u64)"

text \<open>
  One turn of the loop of \<open>RemoveInFlightBlocks\<close>; \<open>ok\<close> is its result so far, and \<open>answer\<close> what its caller returns whatever the result is.
\<close>

definition RemoveInFlightBlocks ::
    "bool \<Rightarrow> bool option \<Rightarrow> DiskThread \<times> DiskBlockTable \<Rightarrow> (DiskThread \<times> DiskBlockTable) res" where
  "RemoveInFlightBlocks ok answer = (\<lambda>(dk, t).
     case dk_in_flight dk of
       b # bs \<Rightarrow> res_bind (RemoveBlock b t) (\<lambda>(ok', t').
                   Inr (dk\<lparr>dk_in_flight := bs, dk_pc := DkDraining (ok \<and> ok') answer\<rparr>, t'))
     | [] \<Rightarrow> Inr (case answer of
                Some a \<Rightarrow> finish a dk
              | None \<Rightarrow> finish ok (if ok then dk\<lparr>dk_pages_copied := dk_blocks_written dk + dk_blocks_read dk\<rparr> else dk), t))"

definition DoWork_step :: "settings \<Rightarrow> disk_env \<Rightarrow> DiskThread \<times> DiskBlockTable \<times> sat \<Rightarrow> (DiskThread \<times> DiskBlockTable \<times> sat) res" where
  "DoWork_step sc env = (\<lambda>(dk, t, s).
     case dk_pc dk of
       DkHead \<Rightarrow>
         Inr (dk\<lparr>dk_pc := if se_ready (de_step env) \<and> \<not> error_stop_requested sc s then DkWriting else DkDraining True None\<rparr>, t, s)
     | DkWriting \<Rightarrow>
         if de_ready_no_pause env \<and> write_room dk
         then res_bind (cdiv (dk_block_num dk) (dk_blocks_per_segment dk)) (\<lambda>q.
              res_bind (cmod q (dk_num_segments dk)) (\<lambda>segment.
              res_bind (GetUnusedBlock (de_rnds env) segment t) (\<lambda>(r, t').
                let dk' = dk\<lparr>dk_block_num := dk_block_num dk + 1\<rparr>
                in Inr (case r of None \<Rightarrow> dk' | Some b \<Rightarrow> dk'\<lparr>dk_pc := DkAllocated b\<rparr>, t', s))))
         else Inr (dk\<lparr>dk_pc := DkFlush\<rparr>, t, s)
     | DkAllocated b \<Rightarrow>
         res_bind (if dk_non_destructive dk then Inr (True, dk, t, s)
                   else res_bind (WriteBlockToDisk sc env b (dk, t, s)) (\<lambda>(ok, dk', t', s').
                          Inr (ok, if ok then dk'\<lparr>dk_blocks_written := dk_blocks_written dk' + 1\<rparr> else dk', t', s')))
           (\<lambda>(ok, dk', t', s').
              if \<not> ok then Inr (dk'\<lparr>dk_pc := DkFailed b\<rparr>, t', s')
              else res_bind (DiskBlocks.initialized b t') (\<lambda>_. Inr (dk'\<lparr>dk_in_flight := dk_in_flight dk' @ [b], dk_pc := DkWriting\<rparr>, t', s')))
     | DkFlush \<Rightarrow> Inr (dk\<lparr>dk_pc := if de_flush env then DkReading else DkDraining True (Some False)\<rparr>, t, s)
     | DkReading \<Rightarrow>
         Inr (if de_ready_no_pause env
              then case dk_in_flight dk of
                     [] \<Rightarrow> dk\<lparr>dk_pc := DkHead\<rparr>
                   | b # bs \<Rightarrow> dk\<lparr>dk_in_flight := bs, dk_pc := DkPopped b\<rparr>
              else dk\<lparr>dk_pc := DkHead\<rparr>, t, s)
     | DkPopped b \<Rightarrow>
         res_bind (ValidateBlockOnDisk sc env b (dk, t, s)) (\<lambda>(ok, dk', t', s').
           Inr (dk'\<lparr>dk_pc := if ok then DkVerified b else DkFailed b\<rparr>, t', s'))
     | DkVerified b \<Rightarrow>
         res_bind (RemoveBlock b t) (\<lambda>(_, t').
           Inr (dk\<lparr>dk_blocks_read := dk_blocks_read dk + 1, dk_pc := DkReading\<rparr>, t', s))
     | DkFailed b \<Rightarrow>
         res_bind (RemoveBlock b t) (\<lambda>(_, t'). Inr (dk\<lparr>dk_pc := DkDraining True (Some True)\<rparr>, t', s))
     | DkDraining ok answer \<Rightarrow>
         res_bind (RemoveInFlightBlocks ok answer (dk, t)) (\<lambda>(dk', t'). Inr (dk', t', s))
     | _ \<Rightarrow> Inr (dk, t, s))"

definition RandomDoWork_step :: "settings \<Rightarrow> disk_env \<Rightarrow> DiskThread \<times> DiskBlockTable \<times> sat \<Rightarrow> (DiskThread \<times> DiskBlockTable \<times> sat) res" where
  "RandomDoWork_step sc env = (\<lambda>(dk, t, s).
     case dk_pc dk of
       DkHead \<Rightarrow>
         if se_ready (de_step env) \<and> \<not> error_stop_requested sc s
         then res_bind (GetRandomBlock (de_timed_out env) (de_rnds env 0) t) (\<lambda>(r, t').
                Inr (case r of None \<Rightarrow> dk | Some b \<Rightarrow> dk\<lparr>dk_pc := DkHolding b\<rparr>, t', s))
         else Inr (finish True (dk\<lparr>dk_pages_copied := dk_blocks_read dk\<rparr>), t, s)
     | DkHolding b \<Rightarrow>
         res_bind (ValidateBlockOnDisk sc env b (dk, t, s)) (\<lambda>(_, dk', t', s'). Inr (dk'\<lparr>dk_pc := DkRelease b\<rparr>, t', s'))
     | DkRelease b \<Rightarrow>
         res_bind (ReleaseBlock b t) (\<lambda>(_, t'). Inr (dk\<lparr>dk_blocks_read := dk_blocks_read dk + 1, dk_pc := DkHead\<rparr>, t', s))
     | _ \<Rightarrow> Inr (dk, t, s))"

definition disk_step :: "settings \<Rightarrow> disk_env \<Rightarrow> DiskThread \<times> DiskBlockTable \<times> sat \<Rightarrow> (DiskThread \<times> DiskBlockTable \<times> sat) res" where
  "disk_step sc env = (\<lambda>(dk, t, s).
     if dk_pc dk = DkStart then res_bind (Work_start env (dk, t)) (\<lambda>(dk', t'). Inr (dk', t', s))
     else (if dk_random dk then RandomDoWork_step else DoWork_step) sc env (dk, t, s))"

text \<open>The disk workers of one device, in any order.\<close>

primrec run_disks ::
    "settings \<Rightarrow> (nat \<times> disk_env) list \<Rightarrow> DiskThread list \<times> DiskBlockTable \<times> sat \<Rightarrow>
     (DiskThread list \<times> DiskBlockTable \<times> sat) res" where
  "run_disks sc [] x = Inr x"
| "run_disks sc (e # es) x =
     (case x of (dks, t, s) \<Rightarrow>
        if fst e < length dks
        then res_bind (disk_step sc (snd e) (dks ! fst e, t, s)) (\<lambda>(dk, t', s'). run_disks sc es (dks[fst e := dk], t', s'))
        else run_disks sc es x)"

end
