(* ===== verification/DiskTest.thy ===== *)
theory DiskTest
  imports DiskThreads MemTest
begin

text \<open>
  Correctness of the disk workers: which parameters they accept, that the validation of a block ends and reads it exactly once, what it
  finds, and that any interleaving of the workers of a device is safe.
\<close>

section \<open>Parameters\<close>

lemma smod_0_iff: "a smod b = 0 \<longleftrightarrow> b dvd (a :: int)"
  by (simp add: signed_modulo_int_def sgn_eq_0_iff dvd_eq_mod_eq_0 [symmetric]) auto

lemma smod_nonneg: "0 \<le> a \<Longrightarrow> 0 < b \<Longrightarrow> a smod b = a mod (b :: int)"
  by (simp add: smod_mod_positive)

lemma sdiv_nonneg: "0 \<le> a \<Longrightarrow> 0 < b \<Longrightarrow> a sdiv b = a div (b :: int)"
  by (cases "a = 0") (simp_all add: signed_divide_int_def sgn_mult)

text \<open>The effective block sizes, and the conditions that the messages of \<open>SetParameters\<close> name.\<close>

definition read_block :: "disk_params \<Rightarrow> int" where
  "read_block P = (if dp_read_block_size P = - 1 then 512 else dp_read_block_size P)"

definition write_block :: "disk_params \<Rightarrow> int" where
  "write_block P = (if dp_write_block_size P = - 1 then max 512 (read_block P) else dp_write_block_size P)"

definition acceptable :: "disk_params \<Rightarrow> bool" where
  "acceptable P \<longleftrightarrow> 512 dvd read_block P \<and> 512 dvd write_block P \<and> read_block P dvd write_block P \<and>
     (dp_blocks_per_segment P = - 1 \<or> 0 < dp_blocks_per_segment P) \<and>
     (dp_read_threshold P = - 1 \<or> 0 < dp_read_threshold P) \<and> (dp_write_threshold P = - 1 \<or> 0 < dp_write_threshold P) \<and>
     (dp_segment_size P = - 1 \<or> 512 dvd dp_segment_size P)"

lemma set_read_block_new:
  "dk_read_block_size dk = 512 \<Longrightarrow> set_read_block (dp_read_block_size P) dk =
     Inr (if 512 dvd read_block P then Some (dk\<lparr>dk_read_block_size := read_block P\<rparr>) else None)"
  by (simp add: set_read_block_def read_block_def cmod_def kSectorSize_def smod_0_iff)

lemma set_write_block_new:
  assumes "dk_read_block_size dk = read_block P" "dk_write_block_size dk = 512" "512 dvd read_block P"
  shows "set_write_block (dp_write_block_size P) dk =
    (if read_block P = 0 \<and> 512 dvd write_block P then Inl DivisionByZero
     else Inr (if 512 dvd write_block P \<and> read_block P dvd write_block P
               then Some (dk\<lparr>dk_write_block_size := write_block P\<rparr>) else None))"
  using assms by (auto simp: set_write_block_def write_block_def cmod_def kSectorSize_def smod_0_iff)

lemma set_limits_eq:
  "set_limits c b r w dk =
     (if (b = - 1 \<or> 0 < b) \<and> (r = - 1 \<or> 0 < r) \<and> (w = - 1 \<or> 0 < w)
      then Some (dk\<lparr>dk_cache_size := if c = - 1 then dk_cache_size dk else to_int c,
                    dk_blocks_per_segment := if b = - 1 then dk_blocks_per_segment dk else b,
                    dk_read_threshold := if r = - 1 then dk_read_threshold dk else r,
                    dk_write_threshold := if w = - 1 then dk_write_threshold dk else w\<rparr>)
      else None)"
  by (auto simp: set_limits_def Let_def)

lemma set_segment_eq:
  "set_segment g dk =
     Inr (if g = - 1 then Some dk else if 512 dvd g then Some (dk\<lparr>dk_segment_size := g sdiv 512\<rparr>) else None)"
  by (simp add: set_segment_def cmod_def cdiv_def kSectorSize_def smod_0_iff)

lemma opt_bind_simps [simp]: "opt_bind (Inr None) f = Inr None" "opt_bind (Inr (Some a)) f = f a" "opt_bind (Inl e) f = Inl e"
  by (simp_all add: opt_bind_def)

text \<open>The thread that \<open>SetParameters\<close> leaves.\<close>

definition configured :: "disk_params \<Rightarrow> DiskThread \<Rightarrow> DiskThread" where
  "configured P dk = dk\<lparr>dk_read_block_size := read_block P, dk_write_block_size := write_block P,
     dk_cache_size := if dp_cache_size P = - 1 then dk_cache_size dk else to_int (dp_cache_size P),
     dk_blocks_per_segment := if dp_blocks_per_segment P = - 1 then dk_blocks_per_segment dk else dp_blocks_per_segment P,
     dk_read_threshold := if dp_read_threshold P = - 1 then dk_read_threshold dk else dp_read_threshold P,
     dk_write_threshold := if dp_write_threshold P = - 1 then dk_write_threshold dk else dp_write_threshold P,
     dk_segment_size := if dp_segment_size P = - 1 then dk_segment_size dk else dp_segment_size P sdiv 512,
     dk_non_destructive := dp_non_destructive P,
     dk_queue_size := (if dp_cache_size P = - 1 then dk_cache_size dk else to_int (dp_cache_size P)) sdiv write_block P * 3 sdiv 2\<rparr>"

lemma SetParameters_eq:
  assumes new: "dk_read_block_size dk = 512" "dk_write_block_size dk = 512" "tb_size t = 0"
  shows "DiskThread_SetParameters P (dk, t) =
    (if 512 dvd read_block P \<and> read_block P = 0 \<and> 512 dvd write_block P then Inl DivisionByZero
     else if \<not> acceptable P then Inr None
     else if write_block P = 0 then Inl DivisionByZero
     else res_bind (update_table (configured P dk) t) (\<lambda>t'. Inr (Some (configured P dk, t'))))"
proof (cases "512 dvd read_block P")
  case False
  then show ?thesis by (simp add: DiskThread_SetParameters_def set_read_block_new [OF new(1)] acceptable_def)
next
  case True
  let ?dk1 = "dk\<lparr>dk_read_block_size := read_block P\<rparr>"
  have w: "set_write_block (dp_write_block_size P) ?dk1 =
    (if read_block P = 0 \<and> 512 dvd write_block P then Inl DivisionByZero
     else Inr (if 512 dvd write_block P \<and> read_block P dvd write_block P
               then Some (?dk1\<lparr>dk_write_block_size := write_block P\<rparr>) else None))"
    using set_write_block_new [of ?dk1 P] new True by simp
  show ?thesis
    using True new
    by (simp add: DiskThread_SetParameters_def set_read_block_new w set_limits_eq set_segment_eq cdiv_def acceptable_def configured_def
        kSectorSize_def Let_def)
qed

text \<open>
  \<open>SetParameters\<close> of a new disk thread accepts exactly the parameters its messages describe: sector-aligned block and segment
  sizes, a write block that is a multiple of the read block, positive limits. It then hands the table the parameters of the thread. It
  rejects all others, except that a read or write block of size 0 passes the checks and ends the program with a division by zero.
\<close>

lemma SetParameters_spec:
  "(case DiskThread_SetParameters P (DiskThread_new, DiskBlockTable_new) of
      Inr (Some (dk, t)) \<Rightarrow> acceptable P \<and> write_block P \<noteq> 0 \<and> dk = configured P DiskThread_new \<and>
        tb_sector_size t = 512 \<and> tb_write_block_size t = write_block P \<and> tb_device_sectors t = 0 \<and>
        tb_segment_size t = dk_segment_size dk
    | Inr None \<Rightarrow> \<not> acceptable P
    | Inl e \<Rightarrow> e = DivisionByZero \<and> 512 dvd read_block P \<and> 512 dvd write_block P \<and> (read_block P = 0 \<or> write_block P = 0)) \<and>
   (read_block P = 0 \<and> 512 dvd write_block P \<longrightarrow>
      DiskThread_SetParameters P (DiskThread_new, DiskBlockTable_new) = Inl DivisionByZero)"
proof -
  have "dk_read_block_size DiskThread_new = 512" "dk_write_block_size DiskThread_new = 512" "tb_size DiskBlockTable_new = 0"
    by (simp_all add: DiskThread_new_def DiskBlockTable_new_def kSectorSize_def)
  note eq = SetParameters_eq [OF this, of P]
  have "update_table (configured P DiskThread_new) DiskBlockTable_new =
      Inr (DiskBlockTable_new\<lparr>tb_sector_size := 512, tb_write_block_size := write_block P, tb_device_sectors := 0,
        tb_segment_size := dk_segment_size (configured P DiskThread_new)\<rparr>)"
    by (simp add: update_table_def configured_def DiskBlocks.SetParameters_def DiskThread_new_def DiskBlockTable_new_def kSectorSize_def)
  then show ?thesis unfolding eq by (auto simp: acceptable_def DiskBlockTable_new_def)
qed

section \<open>Validating a block\<close>

text \<open>The wrong words of a group, by the data that \<open>CheckRegion\<close> is asked to expect.\<close>

definition group_wrong :: "settings \<Rightarrow> disk_env \<Rightarrow> Pattern \<Rightarrow> int \<Rightarrow> int \<Rightarrow> int \<Rightarrow> nat" where
  "group_wrong sc env p start bytes_read bytes =
     length (mismatches (expected_word (cf_tag_mode (sc_cfg sc)) p (de_buffer env) bytes_read)
       (read_buffer env (start + bytes_read) bytes) 0 (nat bytes div 8))"

text \<open>The errors that the comparison of a group counts: each wrong word, and one for the group.\<close>

definition group_cost :: "settings \<Rightarrow> disk_env \<Rightarrow> DiskThread \<Rightarrow> Pattern list \<Rightarrow> nat option \<Rightarrow> int \<Rightarrow> int \<Rightarrow> int \<Rightarrow> int" where
  "group_cost sc env dk pats pid start bytes_read bytes =
     (if dk_non_destructive dk then 0
      else let m = group_wrong sc env (pats ! the pid) start bytes_read bytes in int m + of_bool (m \<noteq> 0))"

lemma compare_group_eq:
  assumes "dk_non_destructive dk \<or> pid \<noteq> None"
  shows "\<exists>d w. compare_group sc env pid bytes_read bytes (read_buffer env (start + bytes_read) bytes) (dk, s) =
    Inr (dk\<lparr>dk_errorcount := dk_errorcount dk + group_cost sc env dk (patterns (sat_patternlist s)) pid start bytes_read bytes,
            dk_diag := d\<rparr>, s\<lparr>sat_shared := w\<rparr>)"
proof (cases "dk_non_destructive dk")
  case True
  then show ?thesis by (intro exI [of _ "dk_diag dk"] exI [of _ "sat_shared s"]) (simp add: compare_group_def group_cost_def)
next
  case False
  then obtain k where k: "pid = Some k" using assms by auto
  let ?cfg = "now_cfg sc (de_step env)" and ?mem = "read_buffer env (start + bytes_read) bytes" and ?pats = "patterns (sat_patternlist s)"
  let ?n = "group_wrong sc env (?pats ! k) start bytes_read bytes"
  have "nat bytes div 8 \<le> length ?mem" by (simp add: read_buffer_def)
  from CheckRegion_eq [OF this, of ?cfg ?pats k "de_buffer env" disk_labels bytes_read "disk_worker dk s"]
  obtain mem' w' blocks where cr: "CheckRegion ?cfg ?pats k (de_buffer env) disk_labels (nat bytes) bytes_read (?mem, disk_worker dk s) =
      Inr (?n, (mem', w'), blocks)" "w_errorcount w' = dk_errorcount dk + int ?n"
    by (auto simp: group_wrong_def disk_worker_def)
  show ?thesis using False
    by (intro exI [of _ "w_diag w'"] exI [of _ "w'\<lparr>w_errorcount := w_errorcount (sat_shared s), w_diag := w_diag (sat_shared s)\<rparr>"])
      (simp add: compare_group_def k cr from_disk_worker_def group_cost_def Let_def)
qed

text \<open>The requests of a validation: contiguous reads of whole read blocks.\<close>

fun reads_from :: "int \<Rightarrow> int \<Rightarrow> int \<Rightarrow> io_request list \<Rightarrow> bool" where
  "reads_from rb pos stop [] \<longleftrightarrow> pos = stop"
| "reads_from rb pos stop (IoRead off n # rs) \<longleftrightarrow> off = pos \<and> 0 < n \<and> rb dvd n \<and> reads_from rb (pos + n) stop rs"
| "reads_from rb pos stop (IoWrite off ws # rs) \<longleftrightarrow> False"

fun cost_of :: "(int \<Rightarrow> int \<Rightarrow> int) \<Rightarrow> int \<Rightarrow> io_request list \<Rightarrow> int" where
  "cost_of cost start [] = 0"
| "cost_of cost start (IoRead off n # rs) = cost (off - start) n + cost_of cost start rs"
| "cost_of cost start (IoWrite off ws # rs) = cost_of cost start rs"

lemma validate_loop_eq:
  assumes "0 < dk_read_block_size dk" "0 \<le> blocks" "blocks * dk_read_block_size dk \<le> cf_page_length (sc_cfg sc)"
    and "dk_non_destructive dk \<or> pid \<noteq> None" "nat blocks \<le> length reads"
  shows "\<exists>ok e d rs w last. validate_loop sc env pid start bytes_read blocks reads (dk, s) =
      Inr (ok, dk\<lparr>dk_errorcount := dk_errorcount dk + cost_of (group_cost sc env dk (patterns (sat_patternlist s)) pid start) start rs + e,
                  dk_diag := d, dk_requests := dk_requests dk @ rs @ last\<rparr>, s\<lparr>sat_shared := w\<rparr>) \<and>
      length (rs @ last) \<le> nat blocks \<and>
      (if ok then e = 0 \<and> last = [] \<and>
         reads_from (dk_read_block_size dk) (start + bytes_read) (start + bytes_read + blocks * dk_read_block_size dk) rs
       else (e = 0 \<or> e = 1) \<and> (\<exists>pos n. last = [IoRead pos n] \<and> reads_from (dk_read_block_size dk) (start + bytes_read) pos rs \<and>
              0 < n \<and> dk_read_block_size dk dvd n \<and> pos + n \<le> start + bytes_read + blocks * dk_read_block_size dk))"
  using assms
proof (induction reads arbitrary: blocks bytes_read dk s)
  case Nil
  then show ?case
    by (intro exI [of _ True] exI [of _ 0] exI [of _ "dk_diag dk"] exI [of _ "[]"] exI [of _ "sat_shared s"]) simp
next
  case (Cons a reads)
  obtain rnd result where a: "a = (rnd, result)" by (cases a)
  show ?case
  proof (cases "blocks = 0")
    case True
    then show ?thesis unfolding a
      by (intro exI [of _ True] exI [of _ 0] exI [of _ "dk_diag dk"] exI [of _ "[]"] exI [of _ "sat_shared s"]) simp
  next
    case False
    let ?rb = "dk_read_block_size dk" and ?cb = "int rnd smod blocks + 1"
    let ?pats = "patterns (sat_patternlist s)"
    define n where "n = ?cb * ?rb"
    have cb: "0 < ?cb" "?cb \<le> blocks" using Cons.prems(2) False smod_int_compares(1,2) [of "int rnd" blocks] by auto
    have n: "0 < n" "?rb dvd n" "n \<le> blocks * ?rb" using cb Cons.prems(1) by (auto simp: n_def intro: mult_right_mono)
    have room: "\<not> (n < 0 \<or> cf_page_length (sc_cfg sc) < n)" using n Cons.prems(3) by linarith
    obtain ok1 e1 where io: "AsyncDiskIO result n = (ok1, e1)" by (cases "AsyncDiskIO result n")
    have e1: "if ok1 then e1 = 0 else e1 = 0 \<or> e1 = 1" using io by (auto simp: AsyncDiskIO_def split: io_result.splits if_splits)
    let ?dk1 = "dk\<lparr>dk_errorcount := dk_errorcount dk + e1, dk_requests := dk_requests dk @ [IoRead (start + bytes_read) n]\<rparr>"
    have step: "validate_loop sc env pid start bytes_read blocks (a # reads) (dk, s) =
      (if \<not> ok1 then Inr (False, ?dk1, s)
       else res_bind (compare_group sc env pid bytes_read n (read_buffer env (start + bytes_read) n) (?dk1, s)) (\<lambda>(dk2, s2).
              validate_loop sc env pid start (bytes_read + ?cb * dk_read_block_size dk2) (blocks - ?cb) reads (dk2, s2)))"
      unfolding a validate_loop.simps using False room io by (simp add: Let_def flip: n_def)
    show ?thesis
    proof (cases ok1)
      case False
      then show ?thesis unfolding step using e1 n cb
        by (intro exI [of _ False] exI [of _ e1] exI [of _ "dk_diag dk"] exI [of _ "[]"] exI [of _ "sat_shared s"]
            exI [of _ "[IoRead (start + bytes_read) n]"]) auto
    next
      case True
      then have "e1 = 0" using e1 by simp
      let ?cost = "\<lambda>dk. group_cost sc env dk ?pats pid start"
      obtain d1 w1 where cmp: "compare_group sc env pid bytes_read n (read_buffer env (start + bytes_read) n) (?dk1, s) =
          Inr (?dk1\<lparr>dk_errorcount := dk_errorcount ?dk1 + ?cost ?dk1 bytes_read n, dk_diag := d1\<rparr>, s\<lparr>sat_shared := w1\<rparr>)"
        using compare_group_eq [of ?dk1 pid sc env bytes_read n start s] Cons.prems(4) by auto
      define dk2 where "dk2 = ?dk1\<lparr>dk_errorcount := dk_errorcount ?dk1 + ?cost ?dk1 bytes_read n, dk_diag := d1\<rparr>"
      define s2 where "s2 = s\<lparr>sat_shared := w1\<rparr>"
      have dk2: "dk_read_block_size dk2 = ?rb" "dk_non_destructive dk2 = dk_non_destructive dk" "sat_patternlist s2 = sat_patternlist s"
        by (simp_all add: dk2_def s2_def)
      have same: "?cost dk2 = ?cost dk" "?cost ?dk1 = ?cost dk" by (simp_all add: group_cost_def fun_eq_iff dk2)
      have rest: "start + (bytes_read + n) + (blocks - ?cb) * ?rb = start + bytes_read + blocks * ?rb"
        by (simp add: n_def algebra_simps)
      have pre: "0 < dk_read_block_size dk2" "0 \<le> blocks - ?cb" "(blocks - ?cb) * dk_read_block_size dk2 \<le> cf_page_length (sc_cfg sc)"
        "dk_non_destructive dk2 \<or> pid \<noteq> None" "nat (blocks - ?cb) \<le> length reads"
        using Cons.prems cb n rest by (auto simp: nat_diff_distrib dk2)
      obtain ok e d rs w last where ih: "validate_loop sc env pid start (bytes_read + n) (blocks - ?cb) reads (dk2, s2) =
          Inr (ok, dk2\<lparr>dk_errorcount := dk_errorcount dk2 + cost_of (?cost dk) start rs + e, dk_diag := d,
                 dk_requests := dk_requests dk2 @ rs @ last\<rparr>, s2\<lparr>sat_shared := w\<rparr>)"
        "length (rs @ last) \<le> nat (blocks - ?cb)"
        "if ok then e = 0 \<and> last = [] \<and> reads_from ?rb (start + (bytes_read + n)) (start + (bytes_read + n) + (blocks - ?cb) * ?rb) rs
         else (e = 0 \<or> e = 1) \<and> (\<exists>pos m. last = [IoRead pos m] \<and> reads_from ?rb (start + (bytes_read + n)) pos rs \<and>
              0 < m \<and> ?rb dvd m \<and> pos + m \<le> start + (bytes_read + n) + (blocks - ?cb) * ?rb)"
        using Cons.IH [OF pre, of "bytes_read + n" s2] unfolding dk2 same by blast
      let ?rs = "IoRead (start + bytes_read) n # rs"
      have final: "dk2\<lparr>dk_errorcount := dk_errorcount dk2 + cost_of (?cost dk) start rs + e, dk_diag := d,
          dk_requests := dk_requests dk2 @ rs @ last\<rparr> =
        dk\<lparr>dk_errorcount := dk_errorcount dk + cost_of (?cost dk) start ?rs + e, dk_diag := d, dk_requests := dk_requests dk @ ?rs @ last\<rparr>"
        unfolding dk2_def same(2) using \<open>e1 = 0\<close> by simp
      have "validate_loop sc env pid start bytes_read blocks (a # reads) (dk, s) =
        validate_loop sc env pid start (bytes_read + n) (blocks - ?cb) reads (dk2, s2)"
        unfolding step cmp [folded dk2_def s2_def] using True by (simp add: dk2(1) n_def)
      then have "validate_loop sc env pid start bytes_read blocks (a # reads) (dk, s) =
        Inr (ok, dk\<lparr>dk_errorcount := dk_errorcount dk + cost_of (?cost dk) start ?rs + e, dk_diag := d,
               dk_requests := dk_requests dk @ ?rs @ last\<rparr>, s\<lparr>sat_shared := w\<rparr>)"
        unfolding ih(1) final by (simp add: s2_def)
      moreover have "length (?rs @ last) \<le> nat blocks" using ih(2) cb by simp
      moreover have "if ok then e = 0 \<and> last = [] \<and> reads_from ?rb (start + bytes_read) (start + bytes_read + blocks * ?rb) ?rs
       else (e = 0 \<or> e = 1) \<and> (\<exists>pos m. last = [IoRead pos m] \<and> reads_from ?rb (start + bytes_read) pos ?rs \<and>
              0 < m \<and> ?rb dvd m \<and> pos + m \<le> start + bytes_read + blocks * ?rb)"
        using ih(3) [unfolded rest] n(1,2) unfolding reads_from.simps add.assoc [of start bytes_read n, symmetric] by (cases ok) auto
      ultimately show ?thesis by blast
    qed
  qed
qed

text \<open>What a thread may be asked to validate: read blocks of whole sectors, write blocks of whole read blocks that fit the buffer.\<close>

definition sizes_ok :: "settings \<Rightarrow> DiskThread \<Rightarrow> bool" where
  "sizes_ok sc dk \<longleftrightarrow> 0 < dk_read_block_size dk \<and> dk_read_block_size dk < 2 ^ 31 \<and> 512 dvd dk_read_block_size dk \<and>
     0 < dk_write_block_size dk \<and> dk_read_block_size dk dvd dk_write_block_size dk \<and>
     dk_write_block_size dk \<le> cf_page_length (sc_cfg sc)"

lemma reads_from_snoc:
  "reads_from rb pos stop rs \<Longrightarrow> 0 < n \<Longrightarrow> rb dvd n \<Longrightarrow> reads_from rb pos (stop + n) (rs @ [IoRead stop n])"
  by (induction rb pos stop rs rule: reads_from.induct) auto

lemma Validate_cases:
  fixes s
  assumes dk: "sizes_ok sc dk" and bd: "tb_heap t b = Some bd" "bd_size bd = dk_write_block_size dk"
    and pat: "dk_non_destructive dk \<or> bd_pattern bd \<noteq> None"
    and reads: "nat (dk_write_block_size dk div dk_read_block_size dk) \<le> length (de_reads env)"
  defines "start \<equiv> bd_address bd * 512"
  obtains (passed) d rs w where "ValidateBlockOnDisk sc env b (dk, t, s) =
      Inr (True, dk\<lparr>dk_errorcount := dk_errorcount dk +
                     cost_of (group_cost sc env dk (patterns (sat_patternlist s)) (bd_pattern bd) start) start rs,
                   dk_diag := d, dk_requests := dk_requests dk @ rs\<rparr>, t, s\<lparr>sat_shared := w\<rparr>)"
      "length rs \<le> nat (bd_size bd div dk_read_block_size dk)" "reads_from (dk_read_block_size dk) start (start + bd_size bd) rs"
  | (stopped) e d rs w pos where "ValidateBlockOnDisk sc env b (dk, t, s) =
      Inr (False, dk\<lparr>dk_errorcount := e, dk_diag := d, dk_requests := dk_requests dk @ rs\<rparr>, t, s\<lparr>sat_shared := w\<rparr>)"
      "length rs \<le> nat (bd_size bd div dk_read_block_size dk)" "reads_from (dk_read_block_size dk) start pos rs" "pos \<le> start + bd_size bd"
proof -
  let ?rb = "dk_read_block_size dk" and ?wb = "dk_write_block_size dk"
  have rb: "0 < ?rb" "?rb < 2 ^ 31" "?rb dvd ?wb" "0 < ?wb" "?wb \<le> cf_page_length (sc_cfg sc)" using dk by (simp_all add: sizes_ok_def)
  then have "uint (of_int ?rb :: u64) = ?rb" by (simp add: uint_word_of_int_eq take_bit_int_eq_self)
  then have eq: "ValidateBlockOnDisk sc env b (dk, t, s) =
    (if \<not> de_seek env then Inr (False, dk, t, s)
     else res_bind (validate_loop sc env (bd_pattern bd) start 0 (?wb div ?rb) (de_reads env) (dk, s))
       (\<lambda>(ok, dk', s'). Inr (ok, dk', t, s')))"
    using rb(1) bd by (simp add: ValidateBlockOnDisk_def deref_def kSectorSize_def Let_def start_def)
  show thesis
  proof (cases "de_seek env")
    case False
    then show thesis using stopped [where e = "dk_errorcount dk" and d = "dk_diag dk" and rs = "[]" and w = "sat_shared s" and pos = start] eq bd(2) rb(4) by simp
  next
    case True
    let ?cost = "cost_of (group_cost sc env dk (patterns (sat_patternlist s)) (bd_pattern bd) start) start"
    have q: "0 \<le> ?wb div ?rb" "?wb div ?rb * ?rb = ?wb" using rb by (simp_all add: pos_imp_zdiv_nonneg_iff)
    obtain ok e d rs w last where loop:
      "validate_loop sc env (bd_pattern bd) start 0 (?wb div ?rb) (de_reads env) (dk, s) =
        Inr (ok, dk\<lparr>dk_errorcount := dk_errorcount dk + ?cost rs + e, dk_diag := d, dk_requests := dk_requests dk @ rs @ last\<rparr>,
             s\<lparr>sat_shared := w\<rparr>)"
      "length (rs @ last) \<le> nat (?wb div ?rb)"
      "if ok then e = 0 \<and> last = [] \<and> reads_from ?rb (start + 0) (start + 0 + ?wb div ?rb * ?rb) rs
       else (e = 0 \<or> e = 1) \<and> (\<exists>pos n. last = [IoRead pos n] \<and> reads_from ?rb (start + 0) pos rs \<and>
              0 < n \<and> ?rb dvd n \<and> pos + n \<le> start + 0 + ?wb div ?rb * ?rb)"
      using validate_loop_eq [OF rb(1) q(1) _ pat reads, of sc env start 0 s] rb(5) unfolding q(2) by blast
    have v: "ValidateBlockOnDisk sc env b (dk, t, s) =
        Inr (ok, dk\<lparr>dk_errorcount := dk_errorcount dk + ?cost rs + e, dk_diag := d, dk_requests := dk_requests dk @ rs @ last\<rparr>, t,
             s\<lparr>sat_shared := w\<rparr>)"
      unfolding eq loop(1) using True by simp
    show thesis
    proof (cases ok)
      case True
      then show thesis using passed [where d = d and rs = rs and w = w] v loop(2) loop(3) [unfolded q(2)] bd(2) by simp
    next
      case False
      then obtain pos n where "last = [IoRead pos n]" "reads_from ?rb start pos rs" "0 < n" "?rb dvd n" "pos + n \<le> start + ?wb"
        using loop(3) [unfolded q(2)] by auto
      then show thesis
        using stopped [where e = "dk_errorcount dk + ?cost rs + e" and d = d and rs = "rs @ last" and w = w and pos = "pos + n"] v loop(2) False bd(2) reads_from_snoc by simp
    qed
  qed
qed

lemma exI4: "x = Inr (a, b, c, d) \<Longrightarrow> P a b d rs \<Longrightarrow> \<exists>a b d rs. x = Inr (a, b, c, d) \<and> P a b d rs"
  by blast

text \<open>
  The validation of a block ends: it takes at most as many reads as the block has read blocks, whatever groups \<open>random()\<close>
  chooses. The reads are contiguous, each of one or more whole read blocks within the block; when it returns true they
  cover the block from its first to its last byte, each byte once.
\<close>

lemma validate_reads_once:
  assumes "sizes_ok sc dk" "tb_heap t b = Some bd" "bd_size bd = dk_write_block_size dk"
    and "dk_non_destructive dk \<or> bd_pattern bd \<noteq> None"
    and "nat (dk_write_block_size dk div dk_read_block_size dk) \<le> length (de_reads env)"
  shows "\<exists>ok dk' s' rs. ValidateBlockOnDisk sc env b (dk, t, s) = Inr (ok, dk', t, s') \<and> dk_requests dk' = dk_requests dk @ rs \<and>
    int (length rs) \<le> dk_write_block_size dk div dk_read_block_size dk \<and>
    (ok \<longrightarrow> reads_from (dk_read_block_size dk) (bd_address bd * 512) (bd_address bd * 512 + bd_size bd) rs) \<and>
    (\<exists>pos \<le> bd_address bd * 512 + bd_size bd. reads_from (dk_read_block_size dk) (bd_address bd * 512) pos rs)"
proof -
  have size: "0 < bd_size bd" "0 \<le> dk_write_block_size dk div dk_read_block_size dk"
    using assms(1,3) by (simp_all add: sizes_ok_def pos_imp_zdiv_nonneg_iff)
  show ?thesis
  proof (cases rule: Validate_cases [OF assms, where s = s, case_names passed stopped])
    case (passed d rs w)
    from passed(1) show ?thesis by (rule exI4) (use passed size assms(3) in \<open>auto simp: le_nat_iff\<close>)
  next
    case (stopped e d rs w pos)
    from stopped(1) show ?thesis by (rule exI4) (use stopped size assms(3) in \<open>auto simp: le_nat_iff\<close>)
  qed
qed

section \<open>What a validation finds\<close>

text \<open>The pattern repeats after 128 words of 32 bits, 512 bytes.\<close>

definition sector_periodic :: "Pattern \<Rightarrow> bool" where
  "sector_periodic p \<longleftrightarrow> (\<forall>x. pattern p (x + 128) = pattern p x)"

lemma sector_periodic_add: "sector_periodic p \<Longrightarrow> pattern p (x + of_nat (128 * k)) = pattern p x"
proof (induction k)
  case (Suc k)
  have "pattern p ((x + of_nat (128 * k)) + 128) = pattern p (x + of_nat (128 * k))"
    using Suc.prems by (simp add: sector_periodic_def)
  then show ?case using Suc.IH Suc.prems by (simp add: algebra_simps)
qed simp

text \<open>A table of \<open>n\<close> words on a bus of \<open>2 ^ busshift\<close> words repeats after \<open>n * 2 ^ busshift\<close> words.\<close>

lemma take_bit_add_128:
  assumes "k \<le> 7"
  shows "take_bit k (x + 128 :: u32) = take_bit k x"
proof (rule bit_word_eqI)
  have "take_bit 7 (x + 128) = take_bit 7 x"
    by (simp add: word_unat_eq_iff unsigned_take_bit_eq take_bit_eq_mod unat_word_ariths mod_mod_cancel)
  then show "bit (take_bit k (x + 128)) i = bit (take_bit k x) i" for i
    using assms by (auto simp: bit_take_bit_iff dest!: arg_cong [where f = "\<lambda>w. bit w i"])
qed

lemma sector_periodic_short:
  assumes "pd_mask (pat_data p) = mask k" "k + busshift p \<le> 7"
  shows "sector_periodic p"
proof -
  have i: "pattern_index p (x + 128) = pattern_index p x" for x
    using assms take_bit_add_128 [of "k + busshift p" x]
    by (simp add: pattern_index_def take_bit_drop_bit add.commute flip: take_bit_eq_mask)
  have "pattern p (x + 128) = pattern p x" for x
    using i [of x] i [of "x + word_offset p"] by (simp add: pattern_def pattern_unshifted_def ac_simps)
  then show ?thesis by (simp add: sector_periodic_def)
qed

text \<open>The words of a block at \<open>start\<close> that differ from the data of the pattern.\<close>

definition wrong_words :: "disk_env \<Rightarrow> Pattern \<Rightarrow> int \<Rightarrow> nat \<Rightarrow> nat \<Rightarrow> nat set" where
  "wrong_words env p start lo hi = {k. lo \<le> k \<and> k < hi \<and> de_device env (start div 8 + int k) \<noteq> pattern_word p k}"

lemma expected_group:
  assumes "sector_periodic p"
  shows "expected_word False p a (512 * int m) i = pattern_word p (64 * m + i)"
proof -
  have e: "(of_int (2 * int i + 512 * int m) :: u32) = of_nat (2 * i) + of_nat (128 * (4 * m))"
    "(of_int (2 * int i + 512 * int m + 1) :: u32) = of_nat (2 * i + 1) + of_nat (128 * (4 * m))"
    by simp_all
  have w: "(of_nat (2 * (64 * m + i)) :: u32) = of_nat (2 * i) + of_nat (128 * m)"
    "(of_nat (2 * (64 * m + i) + 1) :: u32) = of_nat (2 * i + 1) + of_nat (128 * m)"
    by simp_all
  show ?thesis
    unfolding expected_word_def pattern_word_def Let_def e w sector_periodic_add [OF assms] by simp
qed

lemma group_wrong_eq:
  assumes "sector_periodic p" "\<not> cf_tag_mode (sc_cfg sc)" "8 dvd start" "bytes_read = 512 * int m" "0 \<le> bytes"
  shows "group_wrong sc env p start bytes_read bytes = card (wrong_words env p start (64 * m) (64 * m + nat bytes div 8))"
proof -
  let ?n = "nat bytes div 8"
  have div8: "(start + 512 * int m) div 8 = start div 8 + 64 * int m"
    using assms(3) by (elim dvdE) simp
  have "group_wrong sc env p start bytes_read bytes =
      card {i. i < ?n \<and> de_device env (start div 8 + int (64 * m + i)) \<noteq> pattern_word p (64 * m + i)}"
    unfolding group_wrong_def mismatches_def assms(4) using assms(2)
    by (subst distinct_card [symmetric])
      (auto simp: read_buffer_def expected_group [OF assms(1)] div8 add.assoc intro!: arg_cong [where f = card])
  also have "\<dots> = card ((+) (64 * m) ` {i. i < ?n \<and> de_device env (start div 8 + int (64 * m + i)) \<noteq> pattern_word p (64 * m + i)})"
    by (rule card_image [symmetric]) simp
  also have "(+) (64 * m) ` {i. i < ?n \<and> de_device env (start div 8 + int (64 * m + i)) \<noteq> pattern_word p (64 * m + i)} =
      wrong_words env p start (64 * m) (64 * m + ?n)"
    (is "_ ` ?A = ?B")
  proof (intro equalityI subsetI)
    fix k assume "k \<in> ?B"
    then show "k \<in> (+) (64 * m) ` ?A" by (intro image_eqI [of _ _ "k - 64 * m"]) (auto simp: wrong_words_def)
  qed (auto simp: wrong_words_def)
  finally show ?thesis .
qed

lemma finite_wrong [simp]: "finite (wrong_words env p start lo hi)"
  by (simp add: wrong_words_def)

lemma wrong_split: "lo \<le> mid \<Longrightarrow> mid \<le> hi \<Longrightarrow>
    card (wrong_words env p start lo hi) = card (wrong_words env p start lo mid) + card (wrong_words env p start mid hi)"
  by (subst card_Un_disjoint [symmetric]) (auto simp: wrong_words_def intro!: arg_cong [where f = card])

text \<open>A complete set of reads counts every wrong word, and nothing if there is none.\<close>

lemma cost_of_reads:
  fixes env
  assumes p: "sector_periodic p" "\<not> cf_tag_mode (sc_cfg sc)" "8 dvd start" and rb: "512 dvd rb"
    and dk: "\<not> dk_non_destructive dk" "pats ! the pid = p"
    and r: "reads_from rb pos stop rs" "pos = start + 512 * int m"
  defines "c \<equiv> cost_of (group_cost sc env dk pats pid start) start rs"
  shows "\<exists>n\<ge>m. stop = start + 512 * int n \<and> int (card (wrong_words env p start (64 * m) (64 * n))) \<le> c \<and>
    (wrong_words env p start (64 * m) (64 * n) = {} \<longrightarrow> c = 0)"
  using rb r unfolding c_def
proof (induction rb pos stop rs arbitrary: m rule: reads_from.induct)
  case (1 rb pos stop)
  then show ?case by (intro exI [of _ m]) (simp add: wrong_words_def)
next
  case (2 rb pos stop off n rs)
  have off: "off = pos" "0 < n" "rb dvd n" and rest: "reads_from rb (pos + n) stop rs" using 2 by simp_all
  have "512 dvd n" using dvd_trans [OF 2(2) off(3)] .
  then obtain q where q: "n = 512 * q" by blast
  have "0 < q" using off(2) q by simp
  let ?k = "nat q"
  have n: "n = 512 * int ?k" using q \<open>0 < q\<close> by simp
  have nx: "pos + n = start + 512 * int (m + ?k)" using 2(4) n by simp
  obtain N where N: "m + ?k \<le> N" "stop = start + 512 * int N"
    "int (card (wrong_words env p start (64 * (m + ?k)) (64 * N))) \<le> cost_of (group_cost sc env dk pats pid start) start rs"
    "wrong_words env p start (64 * (m + ?k)) (64 * N) = {} \<Longrightarrow> cost_of (group_cost sc env dk pats pid start) start rs = 0"
    using 2(1) [OF 2(2) rest nx] by blast
  let ?W = "wrong_words env p start (64 * m) (64 * (m + ?k))"
  have "nat n div 8 = 64 * ?k" unfolding q using \<open>0 < q\<close> by (simp add: nat_mult_distrib)
  then have g: "group_wrong sc env p start (off - start) n = card ?W"
    using group_wrong_eq [OF p, of "off - start" m n env] 2(4) off by (simp add: distrib_left)
  have split: "card (wrong_words env p start (64 * m) (64 * N)) =
      card ?W + card (wrong_words env p start (64 * (m + ?k)) (64 * N))"
    using N(1) by (intro wrong_split) simp_all
  show ?case
  proof (intro exI [of _ N] conjI impI)
    show "int (card (wrong_words env p start (64 * m) (64 * N))) \<le> cost_of (group_cost sc env dk pats pid start) start (IoRead off n # rs)"
      using N(3) split dk by (simp add: group_cost_def g Let_def)
    assume "wrong_words env p start (64 * m) (64 * N) = {}"
    then have "card ?W = 0" "wrong_words env p start (64 * (m + ?k)) (64 * N) = {}" using split by simp_all
    then show "cost_of (group_cost sc env dk pats pid start) start (IoRead off n # rs) = 0"
      using N(4) dk by (simp add: group_cost_def g Let_def)
  qed (use N in simp_all)
qed simp

lemma validate_counts:
  assumes dk: "sizes_ok sc dk" "\<not> dk_non_destructive dk" and bd: "tb_heap t b = Some bd" "bd_size bd = dk_write_block_size dk"
    and reads: "nat (dk_write_block_size dk div dk_read_block_size dk) \<le> length (de_reads env)"
    and pat: "bd_pattern bd = Some k" "sector_periodic (patterns (sat_patternlist s) ! k)" and tag: "\<not> cf_tag_mode (sc_cfg sc)"
    and run: "ValidateBlockOnDisk sc env b (dk, t, s) = Inr (True, dk', t', s')"
  defines "wrong \<equiv> {i. i < nat (bd_size bd) div 8 \<and>
    de_device env (64 * bd_address bd + int i) \<noteq> pattern_word (patterns (sat_patternlist s) ! k) i}"
  shows "dk_errorcount dk + int (card wrong) \<le> dk_errorcount dk' \<and> (dk_errorcount dk' = dk_errorcount dk \<longleftrightarrow> wrong = {})"
proof -
  let ?start = "bd_address bd * 512" and ?p = "patterns (sat_patternlist s) ! k" and ?wb = "dk_write_block_size dk"
  have nd: "dk_non_destructive dk \<or> bd_pattern bd \<noteq> None" using pat(1) by simp
  show ?thesis
  proof (cases rule: Validate_cases [OF dk(1) bd nd reads, where s = s, case_names passed stopped])
    case (passed d rs w)
    let ?c = "cost_of (group_cost sc env dk (patterns (sat_patternlist s)) (bd_pattern bd) ?start) ?start rs"
    have rb: "512 dvd dk_read_block_size dk" "0 < ?wb" using dk(1) by (simp_all add: sizes_ok_def)
    obtain n where n: "?start + bd_size bd = ?start + 512 * int n" "int (card (wrong_words env ?p ?start (64 * 0) (64 * n))) \<le> ?c"
      "wrong_words env ?p ?start (64 * 0) (64 * n) = {} \<Longrightarrow> ?c = 0"
      using cost_of_reads [OF pat(2) tag _ rb(1) dk(2) _ passed(3), where pid = "bd_pattern bd" and m = 0 and env = env and pats = "patterns (sat_patternlist s)" and start = ?start] pat(1)
      by auto
    have "nat (bd_size bd) div 8 = 64 * n" using n(1) by simp
    then have "wrong_words env ?p ?start (64 * 0) (64 * n) = wrong" by (auto simp: wrong_words_def wrong_def)
    moreover have "dk_errorcount dk' = dk_errorcount dk + ?c" using run passed(1) by auto
    moreover have "finite wrong" by (simp add: wrong_def)
    ultimately show ?thesis using n by auto
  qed (use run in simp)
qed

text \<open>
  C29. A block that a disk worker wrote is validated exactly, for every pattern that repeats each sector: whatever groups \<open>random()\<close>
  chooses, a validation that reads the block adds at least one error per wrong word, and adds none exactly if the device returned the
  data of the pattern.
\<close>

theorem validate_exact:
  assumes dk: "sizes_ok sc dk" "\<not> dk_non_destructive dk" and bd: "tb_heap t b = Some bd" "bd_size bd = dk_write_block_size dk"
    and reads: "nat (dk_write_block_size dk div dk_read_block_size dk) \<le> length (de_reads env)"
    and pat: "bd_pattern bd = Some k" "sector_periodic (patterns (sat_patternlist s) ! k)" and tag: "\<not> cf_tag_mode (sc_cfg sc)"
    and run: "ValidateBlockOnDisk sc env b (dk, t, s) = Inr (True, dk', t', s')"
  shows "let wrong = {i. i < nat (bd_size bd) div 8 \<and>
      de_device env (64 * bd_address bd + int i) \<noteq> pattern_word (patterns (sat_patternlist s) ! k) i}
    in dk_errorcount dk + int (card wrong) \<le> dk_errorcount dk' \<and> (dk_errorcount dk' = dk_errorcount dk \<longleftrightarrow> wrong = {})"
  using validate_counts [OF assms] by simp

section \<open>What is written\<close>

lemma length_fallback [simp]: "length (fallback_words p n) = n div 8"
  by (simp add: fallback_words_def)

lemma block_data_ok:
  assumes inv: "pool_inv (all_pages sc N) (sat_pool s) R" and ok: "shared_ok sc N False s" and n: "n \<le> nat (cf_page_length (sc_cfg sc))"
  obtains ws k s' where "block_data sc env n s = Inr (ws, Some k, s')" "pool_inv (all_pages sc N) (sat_pool s') R" "shared_ok sc N False s'"
    "k < length (patterns (sat_patternlist s))" "patterns (sat_patternlist s') = patterns (sat_patternlist s)" "sat_mem s' = sat_mem s"
    "sat_shared s' = sat_shared s" "length ws = n div 8"
    "pool_avail True (sat_pool s) \<noteq> {#} \<Longrightarrow> \<not> cf_tag_mode (sc_cfg sc) \<Longrightarrow> ws = map (pattern_word (patterns (sat_patternlist s) ! k)) [0..<n div 8]"
    "pool_avail True (sat_pool s) = {#} \<Longrightarrow> ws = fallback_words (patterns (sat_patternlist s) ! k) n"
proof -
  let ?env = "de_step env" and ?pats = "patterns (sat_patternlist s)"
  have geo: "geometry sc N (sat_mem s)" and pl: "pl_ok (sat_patternlist s)" using ok by (simp_all add: shared_ok_def)
  show thesis
  proof (rule sat_get_cases [OF inv geometry_os [OF geo], of True "se_call ?env" kDontCareTag])
    fix p assume g: "(if True then sat_GetValid else sat_GetEmpty) (sc_os sc) (cf_page_length (sc_cfg sc)) (se_call ?env) kDontCareTag (sat_pool s) =
        Inr (None, p)" "pool_inv (all_pages sc N) p R" "pool_avail True p = pool_avail True (sat_pool s)"
      "pool_avail False p = pool_avail False (sat_pool s)" "kDontCareTag = kDontCareTag \<Longrightarrow> pool_avail True (sat_pool s) = {#}"
    obtain k pl' where k: "GetRandomPattern (sat_patternlist s) (se_random ?env) = Inr (Some k, pl')" "k < length ?pats"
      "patterns pl' = ?pats" "pl_ok pl'" using GetRandomPattern_ok [OF pl] .
    let ?s' = "s\<lparr>sat_pool := p, sat_patternlist := pl'\<rparr>"
    have "block_data sc env n s = Inr (fallback_words (?pats ! k) n, Some k, ?s')"
      using n g(1) k by (simp add: block_data_def get_valid_def)
    moreover have "shared_ok sc N False ?s'" using ok g(3,4) k(3,4) by (simp add: shared_ok_def)
    ultimately show thesis using that [of "fallback_words (?pats ! k) n" k ?s'] g k by simp
  next
    fix pe p e assume g: "(if True then sat_GetValid else sat_GetEmpty) (sc_os sc) (cf_page_length (sc_cfg sc)) (se_call ?env) kDontCareTag (sat_pool s) =
        Inr (Some pe, p)" "pool_inv (all_pages sc N) p (add_mset (pe_offset pe) R)" "taken (sc_os sc) e pe"
      "pool_avail True (sat_pool s) = add_mset e (pool_avail True p)" "pool_avail (\<not> True) p = pool_avail (\<not> True) (sat_pool s)"
      "pe_offset pe \<in># all_pages sc N"
    let ?s1 = "s\<lparr>sat_pool := p\<rparr>"
    have "holds sc ?pats (sat_mem s) e" using ok g(4) by (simp add: shared_ok_def)
    then have h: "holds sc ?pats (sat_mem s) pe" using g(3) holds_cong(1) [of pe e] by (simp add: taken_def)
    have s1: "pool_inv (all_pages sc N) (sat_pool ?s1) (add_mset (pe_offset pe) R)" "shared_ok sc N False ?s1"
      "holds sc (patterns (sat_patternlist ?s1)) (sat_mem ?s1) pe"
      using g(2,4,5) ok h by (simp_all add: shared_ok_def)
    obtain q where q: "put_valid sc ?env pe ?s1 = Inr (True, ?s1\<lparr>sat_pool := q\<rparr>)" "pool_inv (all_pages sc N) q R"
      "shared_ok sc N False (?s1\<lparr>sat_pool := q\<rparr>)" using put_valid_ok [OF s1] by metis
    obtain k where k: "k < length ?pats" "pe_pattern pe = Some k"
      "load_page sc pe (sat_mem s) = page_data (sc_cfg sc) (?pats ! k) (page_addr sc (pe_offset pe))" using h by (auto simp: holds_def)
    let ?ws = "take (n div 8) (load_page sc pe (sat_mem s))"
    have nw: "n div 8 \<le> nat (cf_page_length (sc_cfg sc)) div 8" using n by (rule div_le_mono)
    have "block_data sc env n s = Inr (?ws, Some k, s\<lparr>sat_pool := q\<rparr>)"
      using n g(1) q(1) k(2) by (simp add: block_data_def get_valid_def)
    moreover have "?ws = map (pattern_word (?pats ! k)) [0..<n div 8]" if "\<not> cf_tag_mode (sc_cfg sc)"
      using that nw by (simp add: k(3) page_data_def take_map take_upt fill_word_def)
    moreover have "length ?ws = n div 8" using nw by (simp add: k(3) page_data_def)
    ultimately show thesis using that [of ?ws k "s\<lparr>sat_pool := q\<rparr>"] q(2,3) k(1) g(4) by simp
  qed
qed

lemma WriteBlock_ok:
  assumes inv: "pool_inv (all_pages sc N) (sat_pool s) R" and ok: "shared_ok sc N False s" and dk: "sizes_ok sc dk"
    and bd: "tb_heap t b = Some bd" "bd_size bd = dk_write_block_size dk"
  obtains r e ws k s' where "WriteBlockToDisk sc env b (dk, t, s) =
      Inr (r, dk\<lparr>dk_errorcount := dk_errorcount dk + e, dk_requests := dk_requests dk @ [IoWrite (bd_address bd * 512) ws]\<rparr>,
           t\<lparr>tb_heap := (tb_heap t)(b \<mapsto> bd\<lparr>bd_pattern := Some k\<rparr>)\<rparr>, s')"
    "pool_inv (all_pages sc N) (sat_pool s') R" "shared_ok sc N False s'" "patterns (sat_patternlist s') = patterns (sat_patternlist s)"
    "k < length (patterns (sat_patternlist s))" "length ws = nat (bd_size bd) div 8"
    "pool_avail True (sat_pool s) \<noteq> {#} \<Longrightarrow> \<not> cf_tag_mode (sc_cfg sc) \<Longrightarrow>
       ws = map (pattern_word (patterns (sat_patternlist s) ! k)) [0..<nat (bd_size bd) div 8]"
    "pool_avail True (sat_pool s) = {#} \<Longrightarrow> ws = fallback_words (patterns (sat_patternlist s) ! k) (nat (bd_size bd))"
proof -
  have "nat (bd_size bd) \<le> nat (cf_page_length (sc_cfg sc))" using dk bd(2) by (intro nat_mono) (simp add: sizes_ok_def)
  from block_data_ok [OF inv ok this, of env] obtain ws k s' where d: "block_data sc env (nat (bd_size bd)) s = Inr (ws, Some k, s')"
    "pool_inv (all_pages sc N) (sat_pool s') R" "shared_ok sc N False s'"
    "k < length (patterns (sat_patternlist s))" "patterns (sat_patternlist s') = patterns (sat_patternlist s)"
    "length ws = nat (bd_size bd) div 8"
    "pool_avail True (sat_pool s) \<noteq> {#} \<Longrightarrow> \<not> cf_tag_mode (sc_cfg sc) \<Longrightarrow>
       ws = map (pattern_word (patterns (sat_patternlist s) ! k)) [0..<nat (bd_size bd) div 8]"
    "pool_avail True (sat_pool s) = {#} \<Longrightarrow> ws = fallback_words (patterns (sat_patternlist s) ! k) (nat (bd_size bd))" by blast
  obtain r e where "AsyncDiskIO (de_write env) (bd_size bd) = (r, e)" by (cases "AsyncDiskIO (de_write env) (bd_size bd)")
  then have "WriteBlockToDisk sc env b (dk, t, s) =
      Inr (r, dk\<lparr>dk_errorcount := dk_errorcount dk + e, dk_requests := dk_requests dk @ [IoWrite (bd_address bd * 512) ws]\<rparr>,
           t\<lparr>tb_heap := (tb_heap t)(b \<mapsto> bd\<lparr>bd_pattern := Some k\<rparr>)\<rparr>, s')"
    using bd(1) d(1) by (simp add: WriteBlockToDisk_def deref_def set_pattern_def kSectorSize_def)
  then show thesis using that d by blast
qed

lemma fallback_upper: "n div 16 \<le> i \<Longrightarrow> i < n div 8 \<Longrightarrow> 16 dvd n \<Longrightarrow> fallback_words p n ! i = l64_of 0 0"
  by (auto simp: fallback_words_def elim!: dvdE)


text \<open>
  A sound device can be reported as failing. The second group of a block is compared with the data at the offset of its first
  byte where the offset of its first 32-bit word is meant. For the 256-bit walking ones, whose period is 2048 bytes, these differ: a
  block of two sectors that the device returns as it was written, read one sector at a time, counts an error.
\<close>

theorem validate_false_alarm:
  assumes dk: "sizes_ok sc dk" "dk_read_block_size dk = 512" "dk_write_block_size dk = 1024" "\<not> dk_non_destructive dk"
    and bd: "tb_heap t b = Some bd" "bd_size bd = 1024" "bd_pattern bd = Some 3" and tag: "\<not> cf_tag_mode (sc_cfg sc)"
    and pats: "patterns (sat_patternlist s) = patterns (PatternList_Initialize PatternList_new)"
    and intact: "\<forall>i<128. de_device env (64 * bd_address bd + int i) = pattern_word (patterns (sat_patternlist s) ! 3) i"
    and io: "de_seek env" "de_reads env = [(0, Event 512), (0, Event 512)]"
  shows "\<exists>dk' s'. ValidateBlockOnDisk sc env b (dk, t, s) = Inr (True, dk', t, s') \<and> dk_errorcount dk < dk_errorcount dk'"
proof -
  let ?p = "patterns (sat_patternlist s) ! 3" and ?start = "bd_address bd * 512"
  have p: "?p = variant 0 walkingOnes False 3 256"
    by (simp add: pats PatternList_Initialize_def PatternList_new_def Let_def pattern_array_def variants_def)
  have div8: "(bd_address bd * 512 + 512) div 8 = 64 * bd_address bd + 64" by simp
  have fields: "pat_data ?p = walkingOnes" "busshift ?p = 3" "word_offset ?p = 0" "\<not> inverse ?p"
    unfolding p by (simp_all add: variant_def Pattern_Initialize_def CalculateCrc_def Let_def)
  have "pattern_word ?p 64 \<noteq> expected_word False ?p (de_buffer env) 512 0"
    using fields by (simp add: pattern_word_def expected_word_def pattern_def pattern_unshifted_def pattern_index_def walkingOnes_def
        pattern_data_def Let_def)
  moreover have "de_device env (64 * bd_address bd + int 64) = pattern_word ?p 64" using intact by (auto dest: spec [of _ 64])
  ultimately have "read_buffer env (?start + 512) 512 ! 0 \<noteq> expected_word False ?p (de_buffer env) 512 0"
    by (simp add: read_buffer_def div8)
  then have "group_wrong sc env ?p ?start 512 512 \<noteq> 0"
    using tag by (auto simp: group_wrong_def mismatches_def filter_empty_conv)
  then have cost: "0 < group_cost sc env dk (patterns (sat_patternlist s)) (Some 3) ?start 512 512"
    if "\<not> dk_non_destructive dk" for dk :: DiskThread using that by (simp add: group_cost_def Let_def)
  have cost0: "0 \<le> group_cost sc env dk (patterns (sat_patternlist s)) (Some 3) ?start 0 512" for dk :: DiskThread
    by (simp add: group_cost_def Let_def)
  have room: "1024 \<le> cf_page_length (sc_cfg sc)" using dk(1,3) by (simp add: sizes_ok_def)
  let ?dk1 = "dk\<lparr>dk_requests := dk_requests dk @ [IoRead ?start 512]\<rparr>"
  obtain d1 w1 where g1: "compare_group sc env (Some 3) 0 512 (read_buffer env ?start 512) (?dk1, s) =
      Inr (?dk1\<lparr>dk_errorcount := dk_errorcount ?dk1 + group_cost sc env ?dk1 (patterns (sat_patternlist s)) (Some 3) ?start 0 512,
        dk_diag := d1\<rparr>, s\<lparr>sat_shared := w1\<rparr>)"
    using compare_group_eq [of ?dk1 "Some 3" sc env 0 512 ?start s] by auto
  define dk2 where "dk2 = ?dk1\<lparr>dk_errorcount := dk_errorcount ?dk1 + group_cost sc env ?dk1 (patterns (sat_patternlist s)) (Some 3) ?start 0 512,
        dk_diag := d1\<rparr>"
  define s2 where "s2 = s\<lparr>sat_shared := w1\<rparr>"
  let ?dk3 = "dk2\<lparr>dk_requests := dk_requests dk2 @ [IoRead (?start + 512) 512]\<rparr>"
  have dk2: "dk_read_block_size dk2 = 512" "\<not> dk_non_destructive dk2" "sat_patternlist s2 = sat_patternlist s"
    "dk_errorcount dk \<le> dk_errorcount dk2" using dk cost0 by (simp_all add: dk2_def s2_def)
  obtain d2 w2 where g2: "compare_group sc env (Some 3) 512 512 (read_buffer env (?start + 512) 512) (?dk3, s2) =
      Inr (?dk3\<lparr>dk_errorcount := dk_errorcount ?dk3 + group_cost sc env ?dk3 (patterns (sat_patternlist s)) (Some 3) ?start 512 512,
        dk_diag := d2\<rparr>, s2\<lparr>sat_shared := w2\<rparr>)"
    using compare_group_eq [of ?dk3 "Some 3" sc env 512 512 ?start s2] unfolding dk2(3) by blast
  let ?dk4 = "?dk3\<lparr>dk_errorcount := dk_errorcount ?dk3 + group_cost sc env ?dk3 (patterns (sat_patternlist s)) (Some 3) ?start 512 512,
        dk_diag := d2\<rparr>"
  have "validate_loop sc env (Some 3) ?start 0 2 [(0, Event 512), (0, Event 512)] (dk, s) =
      validate_loop sc env (Some 3) ?start 512 1 [(0, Event 512)] (dk2, s2)"
    using room dk(2) dk2(1)
    by (subst validate_loop.simps(2)) (simp add: AsyncDiskIO_def Let_def g1 [folded dk2_def s2_def] del: validate_loop.simps)
  also have "\<dots> = Inr (True, ?dk4, s2\<lparr>sat_shared := w2\<rparr>)"
    using room dk2(1) by (simp add: AsyncDiskIO_def Let_def g2)
  finally have "ValidateBlockOnDisk sc env b (dk, t, s) = Inr (True, ?dk4, t, s2\<lparr>sat_shared := w2\<rparr>)"
    using io bd dk(2) by (simp add: ValidateBlockOnDisk_def deref_def kSectorSize_def Let_def del: validate_loop.simps)
  moreover have "dk_errorcount dk < dk_errorcount ?dk4" using cost [of ?dk3] dk2(2,4) by simp
  ultimately show ?thesis by blast
qed

section \<open>The workers of a device\<close>

text \<open>How the table operations change the objects.\<close>

lemma GetUnusedBlock_heap:
  assumes "GetUnusedBlock rnds segment t = Inr (Some b, t')"
  shows "b = tb_next t \<and> tb_write_block_size t' = tb_write_block_size t \<and>
    (\<exists>a. tb_heap t' = (tb_heap t)(b \<mapsto> BlockData_new\<lparr>bd_address := a, bd_size := tb_write_block_size t, bd_references := 1\<rparr>))"
proof -
  let ?bd = "\<lambda>a. BlockData_new\<lparr>bd_address := a, bd_size := tb_write_block_size t, bd_references := 1\<rparr>"
  obtain a where a: "b = tb_next t" "InsertOnStructure b (t\<lparr>tb_heap := (tb_heap t)(b \<mapsto> ?bd a), tb_next := b + 1\<rparr>) = Inr t'"
    using assms unfolding GetUnusedBlock_def Let_def res_bind_eq_Inr by (auto simp: res_bind_eq_Inr split: if_splits option.splits)
  then have "tb_write_block_size t' = tb_write_block_size t \<and> tb_heap t' = (tb_heap t)(b \<mapsto> ?bd a)"
    by (auto simp: InsertOnStructure_def deref_def Let_def)
  then show ?thesis using a(1) by blast
qed

lemma RemoveBlock_heap:
  assumes "RemoveBlock b t = Inr (ok, t')"
  shows "tb_write_block_size t' = tb_write_block_size t \<and> (\<forall>x. x \<noteq> b \<longrightarrow> tb_heap t' x = tb_heap t x)"
  using assms by (auto simp: RemoveBlock_def Let_def res_bind_eq_Inr split: if_splits option.splits prod.splits)

text \<open>The blocks a write worker owns.\<close>

fun pc_blocks :: "disk_pc \<Rightarrow> nat list" where
  "pc_blocks (DkAllocated b) = [b]"
| "pc_blocks (DkPopped b) = [b]"
| "pc_blocks (DkVerified b) = [b]"
| "pc_blocks (DkFailed b) = [b]"
| "pc_blocks _ = []"

abbreviation owned :: "DiskThread \<Rightarrow> nat list" where
  "owned dk \<equiv> pc_blocks (dk_pc dk) @ dk_in_flight dk"

fun idle :: "disk_pc \<Rightarrow> bool" where
  "idle DkStart = True"
| "idle (DkFinished _) = True"
| "idle _ = False"

text \<open>The settings of a worker, which no step changes, and the device it may meet.\<close>

definition worker_ok :: "settings \<Rightarrow> DiskThread \<Rightarrow> bool" where
  "worker_ok sc dk \<longleftrightarrow> sizes_ok sc dk \<and> 0 < dk_blocks_per_segment dk \<and> 0 \<le> dk_cache_size dk \<and> 3 * dk_cache_size dk < 2 ^ 31 \<and>
     0 \<le> dk_queue_size dk \<and> dk_queue_size dk < 2 ^ 31 \<and>
     (dk_segment_size dk = - 1 \<or> dk_write_block_size dk div 512 \<le> dk_segment_size dk) \<and> dk_update_block_table dk"

definition big_enough :: "DiskThread \<Rightarrow> int \<Rightarrow> bool" where
  "big_enough dk bytes \<longleftrightarrow> 3 * dk_cache_size dk < bytes div 512 * 512 \<and> dk_write_block_size dk \<le> bytes div 512 * 512 \<and> 0 \<le> bytes"

fun device_ok :: "DiskThread \<Rightarrow> device_stat \<Rightarrow> bool" where
  "device_ok dk (BlockDevice (Some bytes)) \<longleftrightarrow> bytes = 0 \<or> big_enough dk bytes"
| "device_ok dk (RegularFile bytes) \<longleftrightarrow> big_enough dk bytes"
| "device_ok dk _ \<longleftrightarrow> True"

definition block_ok :: "DiskThread \<Rightarrow> DiskBlockTable \<Rightarrow> nat \<Rightarrow> bool" where
  "block_ok dk t b \<longleftrightarrow> (\<exists>bd. tb_heap t b = Some bd \<and> bd_size bd = dk_write_block_size dk \<and>
     (dk_non_destructive dk \<or> bd_pattern bd \<noteq> None \<or> dk_pc dk = DkAllocated b \<or> dk_pc dk = DkFailed b))"

definition writer_inv :: "settings \<Rightarrow> DiskThread \<Rightarrow> DiskBlockTable \<Rightarrow> bool" where
  "writer_inv sc dk t \<longleftrightarrow> worker_ok sc dk \<and> table_ok t (set (owned dk)) \<and> refs_ok t (set (owned dk)) {#} \<and> no_marks t \<and>
     distinct (owned dk) \<and> (\<forall>b \<in> set (owned dk). block_ok dk t b) \<and>
     int (length (dk_in_flight dk)) + of_bool (\<exists>b. dk_pc dk = DkAllocated b) \<le> dk_queue_size dk + 1 \<and>
     (if idle (dk_pc dk) then dk_in_flight dk = []
      else 0 < dk_num_segments dk \<and> 0 \<le> dk_block_num dk \<and> params_ok t \<and> tb_write_block_size t = dk_write_block_size dk)"

lemma writer_invD:
  assumes "writer_inv sc dk t"
  shows "worker_ok sc dk" "table_ok t (set (owned dk))" "refs_ok t (set (owned dk)) {#}" "no_marks t" "distinct (owned dk)"
    "\<And>b. b \<in> set (owned dk) \<Longrightarrow> block_ok dk t b"
    "int (length (dk_in_flight dk)) + of_bool (\<exists>b. dk_pc dk = DkAllocated b) \<le> dk_queue_size dk + 1"
    "idle (dk_pc dk) \<Longrightarrow> dk_in_flight dk = []"
    "\<not> idle (dk_pc dk) \<Longrightarrow> 0 < dk_num_segments dk" "\<not> idle (dk_pc dk) \<Longrightarrow> 0 \<le> dk_block_num dk" "\<not> idle (dk_pc dk) \<Longrightarrow> params_ok t"
    "\<not> idle (dk_pc dk) \<Longrightarrow> tb_write_block_size t = dk_write_block_size dk"
  using assms by (auto simp: writer_inv_def)

lemma writer_invI:
  assumes "worker_ok sc dk" "table_ok t (set (owned dk))" "refs_ok t (set (owned dk)) {#}" "no_marks t" "distinct (owned dk)"
    "\<And>b. b \<in> set (owned dk) \<Longrightarrow> block_ok dk t b"
    "int (length (dk_in_flight dk)) + of_bool (\<exists>b. dk_pc dk = DkAllocated b) \<le> dk_queue_size dk + 1"
    "idle (dk_pc dk) \<Longrightarrow> dk_in_flight dk = []"
    "\<not> idle (dk_pc dk) \<Longrightarrow> 0 < dk_num_segments dk \<and> 0 \<le> dk_block_num dk \<and> params_ok t \<and> tb_write_block_size t = dk_write_block_size dk"
  shows "writer_inv sc dk t"
  using assms by (auto simp: writer_inv_def)

text \<open>Moving on without touching a block: only the place in the loop and the counters change.\<close>

lemma writer_inv_move:
  assumes "writer_inv sc dk t" "worker_ok sc dk'" "owned dk' = owned dk" "\<not> idle (dk_pc dk')" "\<not> idle (dk_pc dk)"
    and "dk_write_block_size dk' = dk_write_block_size dk" "dk_non_destructive dk' = dk_non_destructive dk"
    and "dk_num_segments dk' = dk_num_segments dk" "dk_block_num dk \<le> dk_block_num dk'" "dk_queue_size dk' = dk_queue_size dk"
    and "\<And>b. dk_pc dk \<noteq> DkAllocated b" "\<And>b. dk_pc dk' \<noteq> DkAllocated b" "\<And>b. dk_pc dk \<noteq> DkFailed b"
    and "length (dk_in_flight dk') \<le> length (dk_in_flight dk)"
  shows "writer_inv sc dk' t"
proof (rule writer_invI)
  fix b assume "b \<in> set (owned dk')"
  then have "block_ok dk t b" using writer_invD(6) [OF assms(1)] assms(3) by simp
  then show "block_ok dk' t b" using assms(6,7,11,13) by (auto simp: block_ok_def)
next
  show "int (length (dk_in_flight dk')) + of_bool (\<exists>b. dk_pc dk' = DkAllocated b) \<le> dk_queue_size dk' + 1"
    using writer_invD(7) [OF assms(1)] assms(10-12,14) by simp
qed (use assms writer_invD(2-5,9-12) [OF assms(1)] in \<open>auto simp del: set_append\<close>)

text \<open>The memory side that the workers leave as they found it.\<close>

definition memory_side :: "settings \<Rightarrow> nat \<Rightarrow> u64 multiset \<Rightarrow> sat \<Rightarrow> bool" where
  "memory_side sc N R s \<longleftrightarrow> shared_ok sc N False s \<and> pool_inv (all_pages sc N) (sat_pool s) R"

definition same_worker :: "DiskThread \<Rightarrow> DiskThread \<Rightarrow> bool" where
  "same_worker dk dk' \<longleftrightarrow> dk_random dk' = dk_random dk \<and> dk_read_block_size dk' = dk_read_block_size dk \<and>
     dk_write_block_size dk' = dk_write_block_size dk \<and> dk_queue_size dk' = dk_queue_size dk"

abbreviation writer_step :: "settings \<Rightarrow> disk_env \<Rightarrow> nat \<Rightarrow> u64 multiset \<Rightarrow> DiskThread \<Rightarrow> DiskBlockTable \<Rightarrow> sat \<Rightarrow> bool" where
  "writer_step sc env N R dk t s \<equiv> \<exists>dk' t' s'. DoWork_step sc env (dk, t, s) = Inr (dk', t', s') \<and> writer_inv sc dk' t' \<and>
     same_worker dk dk' \<and> dk_pc dk' \<noteq> DkStart \<and> memory_side sc N R s'"

lemma writer_stepI:
  "DoWork_step sc env (dk, t, s) = Inr (dk', t', s') \<Longrightarrow> writer_inv sc dk' t' \<Longrightarrow> same_worker dk dk' \<Longrightarrow> dk_pc dk' \<noteq> DkStart \<Longrightarrow>
   memory_side sc N R s' \<Longrightarrow> writer_step sc env N R dk t s"
  by blast

lemma write_room_eq:
  assumes "worker_ok sc dk"
  shows "write_room dk \<longleftrightarrow> int (length (dk_in_flight dk)) < dk_queue_size dk + 1"
proof -
  have "uint (of_int (dk_queue_size dk + 1) :: u64) = dk_queue_size dk + 1"
    using assms by (simp add: worker_ok_def uint_word_of_int_eq take_bit_int_eq_self del: of_int_add)
  then show ?thesis by (simp add: write_room_def)
qed

lemma writer_allocates:
  assumes inv: "writer_inv sc dk t" and pc: "dk_pc dk = DkWriting" and mem: "memory_side sc N R s"
  shows "writer_step sc env N R dk t s"
proof (cases "de_ready_no_pause env \<and> write_room dk")
  case False
  then have "DoWork_step sc env (dk, t, s) = Inr (dk\<lparr>dk_pc := DkFlush\<rparr>, t, s)" by (auto simp: DoWork_step_def pc)
  then show ?thesis
    by (rule writer_stepI) (use inv pc mem writer_invD(1) [OF inv] in \<open>auto intro!: writer_inv_move [OF inv] simp: same_worker_def worker_ok_def sizes_ok_def\<close>)
next
  case True
  note d = writer_invD [OF inv]
  have seg: "0 < dk_num_segments dk" "0 \<le> dk_block_num dk" "0 < dk_blocks_per_segment dk"
    using d(1,9,10) pc by (simp_all add: worker_ok_def)
  let ?q = "dk_block_num dk div dk_blocks_per_segment dk"
  let ?seg = "?q mod dk_num_segments dk" and ?dk = "dk\<lparr>dk_block_num := dk_block_num dk + 1\<rparr>"
  have "0 \<le> ?q" using seg by (simp add: pos_imp_zdiv_nonneg_iff)
  then have step: "DoWork_step sc env (dk, t, s) = res_bind (GetUnusedBlock (de_rnds env) ?seg t) (\<lambda>(r, t').
      Inr (case r of None \<Rightarrow> ?dk | Some b \<Rightarrow> ?dk\<lparr>dk_pc := DkAllocated b\<rparr>, t', s))"
    using True seg by (simp add: DoWork_step_def pc cdiv_def cmod_def sdiv_nonneg smod_nonneg Let_def)
  have p: "params_ok t" "0 \<le> ?seg" using d(11) pc seg by simp_all
  show ?thesis
  proof (rule GetUnusedBlock_ok [OF p d(2,3), of "de_rnds env"])
    assume "GetUnusedBlock (de_rnds env) ?seg t = Inr (None, t)"
    then have "DoWork_step sc env (dk, t, s) = Inr (?dk, t, s)" unfolding step by simp
    then show ?thesis
      by (rule writer_stepI)
        (use inv pc mem d(1) in \<open>auto intro!: writer_inv_move [OF inv] simp: same_worker_def worker_ok_def sizes_ok_def\<close>)
  next
    fix t' let ?b = "tb_next t"
    assume g: "GetUnusedBlock (de_rnds env) ?seg t = Inr (Some ?b, t')" "table_ok t' (insert ?b (set (owned dk)))"
      "refs_ok t' (insert ?b (set (owned dk))) {#}" "params_ok t'" "?b \<notin> set (owned dk)"
      "\<forall>x bd. tb_heap t' x = Some bd \<longrightarrow> \<not> bd_initialized bd \<or> tb_heap t x = Some bd"
    note h = GetUnusedBlock_heap [OF g(1)]
    let ?dk' = "?dk\<lparr>dk_pc := DkAllocated ?b\<rparr>"
    have "DoWork_step sc env (dk, t, s) = Inr (?dk', t', s)" unfolding step g(1) by simp
    moreover have "writer_inv sc ?dk' t'"
    proof (rule writer_invI)
      show "no_marks t'" using g(6) d(4) unfolding no_marks_def by blast
      show "int (length (dk_in_flight ?dk')) + of_bool (\<exists>b. dk_pc ?dk' = DkAllocated b) \<le> dk_queue_size ?dk' + 1"
        using True write_room_eq [OF d(1)] by simp
      fix b assume "b \<in> set (owned ?dk')"
      then show "block_ok ?dk' t' b" using h d(6) [of b] d(12) pc g(5) by (auto simp: block_ok_def)
    qed (use g h d pc in \<open>auto simp: worker_ok_def sizes_ok_def\<close>)
    ultimately show ?thesis by (rule writer_stepI) (simp_all add: same_worker_def mem)
  qed
qed

text \<open>Giving up an owned block.\<close>

lemma writer_removes:
  assumes inv: "writer_inv sc dk t" and bs: "owned dk = b # owned dk'" "\<not> idle (dk_pc dk)" "\<not> idle (dk_pc dk')"
    and dk': "worker_ok sc dk'" "dk_write_block_size dk' = dk_write_block_size dk" "dk_non_destructive dk' = dk_non_destructive dk"
      "dk_num_segments dk' = dk_num_segments dk" "dk_block_num dk' = dk_block_num dk" "dk_queue_size dk' = dk_queue_size dk"
      "length (dk_in_flight dk') \<le> length (dk_in_flight dk)"
    and pc: "\<And>x. dk_pc dk \<noteq> DkAllocated x" "\<And>x. dk_pc dk' \<noteq> DkAllocated x" "\<And>x. dk_pc dk = DkFailed x \<Longrightarrow> x = b"
  obtains t' where "RemoveBlock b t = Inr (True, t')" "writer_inv sc dk' t'"
proof -
  note d = writer_invD [OF inv]
  have b: "b \<in> set (owned dk)" "set (owned dk) - {b} = set (owned dk')" "b \<notin> set (owned dk')" "distinct (owned dk')"
    using d(5) unfolding bs(1) by auto
  show thesis
  proof (rule RemoveBlock_ok [OF d(2,3) b(1)])
    fix t' assume r: "RemoveBlock b t = Inr (True, t')" "table_ok t' (set (owned dk) - {b})" "refs_ok t' (set (owned dk) - {b}) {#}"
      "slot t' = slot t" "params_ok t' = params_ok t"
      "\<forall>x bd. tb_heap t' x = Some bd \<longrightarrow> (\<exists>bd'. tb_heap t x = Some bd' \<and> bd_initialized bd = bd_initialized bd')"
    note h = RemoveBlock_heap [OF r(1)]
    have "writer_inv sc dk' t'"
    proof (rule writer_invI)
      show "no_marks t'" using r(6) d(4) unfolding no_marks_def by blast
      show "int (length (dk_in_flight dk')) + of_bool (\<exists>b. dk_pc dk' = DkAllocated b) \<le> dk_queue_size dk' + 1"
        using d(7) dk'(6,7) pc(1,2) by simp
      show "table_ok t' (set (owned dk'))" "refs_ok t' (set (owned dk')) {#}" using r(2,3) b(2) by simp_all
      show "0 < dk_num_segments dk' \<and> 0 \<le> dk_block_num dk' \<and> params_ok t' \<and> tb_write_block_size t' = dk_write_block_size dk'"
        using d(9-12) [OF bs(2)] dk' r(5) h by simp
      fix x assume x: "x \<in> set (owned dk')"
      then have "x \<noteq> b" "block_ok dk t x" using b(3) d(6) bs(1) by auto
      then show "block_ok dk' t' x" using h dk'(2,3) pc by (auto simp: block_ok_def)
    qed (use dk'(1) b(4) bs(3) in auto)
    then show thesis using that r(1) by blast
  qed
qed

lemma writer_gives_up:
  assumes inv: "writer_inv sc dk t" and mem: "memory_side sc N R s"
    and pc: "dk_pc dk = DkVerified b \<or> dk_pc dk = DkFailed b \<or> (\<exists>ok answer. dk_pc dk = DkDraining ok answer)"
  shows "writer_step sc env N R dk t s"
  using pc
proof (elim disjE exE)
  assume pc: "dk_pc dk = DkVerified b"
  let ?dk' = "dk\<lparr>dk_blocks_read := dk_blocks_read dk + 1, dk_pc := DkReading\<rparr>"
  obtain t' where t': "RemoveBlock b t = Inr (True, t')" "writer_inv sc ?dk' t'"
    by (rule writer_removes [OF inv, of b ?dk']) (use pc writer_invD(1) [OF inv] in \<open>auto simp: worker_ok_def sizes_ok_def\<close>)
  show ?thesis by (rule writer_stepI [OF _ t'(2)]) (use pc t' mem in \<open>auto simp: DoWork_step_def same_worker_def\<close>)
next
  assume pc: "dk_pc dk = DkFailed b"
  let ?dk' = "dk\<lparr>dk_pc := DkDraining True (Some True)\<rparr>"
  obtain t' where t': "RemoveBlock b t = Inr (True, t')" "writer_inv sc ?dk' t'"
    by (rule writer_removes [OF inv, of b ?dk']) (use pc writer_invD(1) [OF inv] in \<open>auto simp: worker_ok_def sizes_ok_def\<close>)
  show ?thesis by (rule writer_stepI [OF _ t'(2)]) (use pc t' mem in \<open>auto simp: DoWork_step_def same_worker_def\<close>)
next
  fix ok answer assume pc: "dk_pc dk = DkDraining ok answer"
  show ?thesis
  proof (cases "dk_in_flight dk")
    case (Cons x bs)
    let ?dk' = "dk\<lparr>dk_in_flight := bs, dk_pc := DkDraining ok answer\<rparr>"
    obtain t' where t': "RemoveBlock x t = Inr (True, t')" "writer_inv sc ?dk' t'"
      by (rule writer_removes [OF inv, of x ?dk']) (use pc Cons writer_invD(1) [OF inv] in \<open>auto simp: worker_ok_def sizes_ok_def\<close>)
    show ?thesis by (rule writer_stepI [OF _ t'(2)]) (use pc Cons t' mem in \<open>auto simp: DoWork_step_def RemoveInFlightBlocks_def same_worker_def\<close>)
  next
    case Nil
    note d = writer_invD [OF inv]
    let ?dk' = "case answer of Some a \<Rightarrow> finish a dk
      | None \<Rightarrow> finish ok (if ok then dk\<lparr>dk_pages_copied := dk_blocks_written dk + dk_blocks_read dk\<rparr> else dk)"
    have f: "owned ?dk' = []" "idle (dk_pc ?dk')" "dk_pc ?dk' \<noteq> DkStart" "same_worker dk ?dk'" "worker_ok sc ?dk'"
      "dk_queue_size ?dk' = dk_queue_size dk" "dk_in_flight ?dk' = []" "\<And>b. dk_pc ?dk' \<noteq> DkAllocated b"
      using Nil d(1) by (auto simp: finish_def same_worker_def worker_ok_def sizes_ok_def split: option.splits)
    have "writer_inv sc ?dk' t"
    proof (rule writer_invI)
      show "table_ok t (set (owned ?dk'))" "refs_ok t (set (owned ?dk')) {#}" using d(2,3) pc Nil f(1) by simp_all
      show "int (length (dk_in_flight ?dk')) + of_bool (\<exists>b. dk_pc ?dk' = DkAllocated b) \<le> dk_queue_size ?dk' + 1"
        using d(1) f(6-8) by (simp add: worker_ok_def)
    qed (use f d(4) in simp_all)
    moreover have "DoWork_step sc env (dk, t, s) = Inr (?dk', t, s)" using pc Nil by (simp add: DoWork_step_def RemoveInFlightBlocks_def split: option.splits)
    ultimately show ?thesis using f(3,4) mem by blast
  qed
qed

text \<open>An allocated block gets its pattern, and is then queued or given up.\<close>

lemma allocated_pattern:
  assumes inv: "writer_inv sc dk t" and pc: "dk_pc dk = DkAllocated b" and bd: "tb_heap t b = Some bd"
  shows "writer_inv sc dk (t\<lparr>tb_heap := (tb_heap t)(b \<mapsto> bd\<lparr>bd_pattern := p\<rparr>)\<rparr>)"
proof (rule writer_invI)
  note d = writer_invD [OF inv]
  let ?t = "t\<lparr>tb_heap := (tb_heap t)(b \<mapsto> bd\<lparr>bd_pattern := p\<rparr>)\<rparr>"
  have b: "b \<in> set (owned dk) \<or> b \<in># {#}" using pc by simp
  note u = object_update_ok [OF d(2,3) b bd, of "bd\<lparr>bd_pattern := p\<rparr>"]
  show "table_ok ?t (set (owned dk))" "refs_ok ?t (set (owned dk)) {#}" using u by simp_all
  show "no_marks ?t" using d(4) bd by (auto simp: no_marks_def)
  show "\<not> idle (dk_pc dk) \<Longrightarrow> 0 < dk_num_segments dk \<and> 0 \<le> dk_block_num dk \<and> params_ok ?t \<and> tb_write_block_size ?t = dk_write_block_size dk"
    using d(9-12) by (simp add: params_ok_def)
  fix x assume "x \<in> set (owned dk)"
  then show "block_ok dk ?t x" using d(6) [of x] pc bd by (auto simp: block_ok_def)
qed (use writer_invD(1,5,7,8) [OF inv] in auto)

lemma allocated_moves:
  assumes inv: "writer_inv sc dk t" and pc: "dk_pc dk = DkAllocated b"
    and dk': "worker_ok sc dk'" "dk_write_block_size dk' = dk_write_block_size dk" "dk_non_destructive dk' = dk_non_destructive dk"
      "dk_num_segments dk' = dk_num_segments dk" "dk_block_num dk' = dk_block_num dk" "dk_queue_size dk' = dk_queue_size dk"
    and to: "dk_pc dk' = DkFailed b \<and> dk_in_flight dk' = dk_in_flight dk \<or>
      dk_pc dk' = DkWriting \<and> dk_in_flight dk' = dk_in_flight dk @ [b] \<and>
      (dk_non_destructive dk \<or> (\<exists>bd. tb_heap t b = Some bd \<and> bd_pattern bd \<noteq> None))"
  shows "writer_inv sc dk' t"
proof (rule writer_invI)
  note d = writer_invD [OF inv]
  have same: "set (owned dk') = set (owned dk)" "\<not> idle (dk_pc dk)" using to pc by auto
  show "table_ok t (set (owned dk'))" "refs_ok t (set (owned dk')) {#}" using d(2,3) same by simp_all
  show "distinct (owned dk')" using d(5) to pc by auto
  show "int (length (dk_in_flight dk')) + of_bool (\<exists>b. dk_pc dk' = DkAllocated b) \<le> dk_queue_size dk' + 1"
    using d(7) to pc dk'(6) by auto
  show "0 < dk_num_segments dk' \<and> 0 \<le> dk_block_num dk' \<and> params_ok t \<and> tb_write_block_size t = dk_write_block_size dk'"
    using d(9-12) [OF same(2)] dk' by simp
  fix x assume "x \<in> set (owned dk')"
  then have "block_ok dk t x" using d(6) same(1) by blast
  then show "block_ok dk' t x" using to pc dk'(2,3) by (auto simp: block_ok_def)
qed (use writer_invD(4) [OF inv] dk'(1) to in auto)

lemma writer_writes:
  assumes inv: "writer_inv sc dk t" and mem: "memory_side sc N R s" and pc: "dk_pc dk = DkAllocated b"
  shows "writer_step sc env N R dk t s"
proof -
  note d = writer_invD [OF inv]
  obtain bd where bd: "tb_heap t b = Some bd" "bd_size bd = dk_write_block_size dk" using d(6) [of b] pc by (auto simp: block_ok_def)
  have wok: "worker_ok sc dk'" if "worker_ok sc dk" "dk_read_block_size dk' = dk_read_block_size dk"
      "dk_write_block_size dk' = dk_write_block_size dk" "dk_blocks_per_segment dk' = dk_blocks_per_segment dk"
      "dk_cache_size dk' = dk_cache_size dk" "dk_queue_size dk' = dk_queue_size dk" "dk_segment_size dk' = dk_segment_size dk"
      "dk_update_block_table dk' = dk_update_block_table dk" for dk' :: DiskThread
    using that by (simp add: worker_ok_def sizes_ok_def)
  show ?thesis
  proof (cases "dk_non_destructive dk")
    case True
    let ?dk' = "dk\<lparr>dk_in_flight := dk_in_flight dk @ [b], dk_pc := DkWriting\<rparr>"
    have "DoWork_step sc env (dk, t, s) = Inr (?dk', t, s)"
      using pc True bd(1) by (simp add: DoWork_step_def DiskBlocks.initialized_def deref_def)
    moreover have "writer_inv sc ?dk' t" by (rule allocated_moves [OF inv pc wok [OF d(1)]]) (use True in simp_all)
    ultimately show ?thesis by (rule writer_stepI) (simp_all add: same_worker_def mem)
  next
    case False
    have m: "pool_inv (all_pages sc N) (sat_pool s) R" "shared_ok sc N False s" and sz: "sizes_ok sc dk"
      using mem d(1) by (simp_all add: memory_side_def worker_ok_def)
    obtain r e ws k s' where w: "WriteBlockToDisk sc env b (dk, t, s) =
        Inr (r, dk\<lparr>dk_errorcount := dk_errorcount dk + e, dk_requests := dk_requests dk @ [IoWrite (bd_address bd * 512) ws]\<rparr>,
             t\<lparr>tb_heap := (tb_heap t)(b \<mapsto> bd\<lparr>bd_pattern := Some k\<rparr>)\<rparr>, s')"
      "pool_inv (all_pages sc N) (sat_pool s') R" "shared_ok sc N False s'"
      by (rule WriteBlock_ok [OF m sz bd]) blast
    let ?t = "t\<lparr>tb_heap := (tb_heap t)(b \<mapsto> bd\<lparr>bd_pattern := Some k\<rparr>)\<rparr>"
    let ?dk1 = "dk\<lparr>dk_errorcount := dk_errorcount dk + e, dk_requests := dk_requests dk @ [IoWrite (bd_address bd * 512) ws]\<rparr>"
    let ?dk' = "if r then ?dk1\<lparr>dk_blocks_written := dk_blocks_written dk + 1, dk_in_flight := dk_in_flight dk @ [b], dk_pc := DkWriting\<rparr>
      else ?dk1\<lparr>dk_pc := DkFailed b\<rparr>"
    have "DoWork_step sc env (dk, t, s) = Inr (?dk', ?t, s')"
      using pc False w(1) by (simp add: DoWork_step_def DiskBlocks.initialized_def deref_def)
    moreover have "writer_inv sc ?dk' ?t"
      by (rule allocated_moves [OF allocated_pattern [OF inv pc bd(1)] pc wok [OF d(1)]]) simp_all
    ultimately show ?thesis by (rule writer_stepI) (use w(2,3) in \<open>auto simp: same_worker_def memory_side_def\<close>)
  qed
qed

lemma writer_validates:
  assumes inv: "writer_inv sc dk t" and mem: "memory_side sc N R s" and pc: "dk_pc dk = DkPopped b"
    and reads: "nat (dk_write_block_size dk div dk_read_block_size dk) \<le> length (de_reads env)"
  shows "writer_step sc env N R dk t s"
proof -
  note d = writer_invD [OF inv]
  obtain bd where bd: "tb_heap t b = Some bd" "bd_size bd = dk_write_block_size dk" "dk_non_destructive dk \<or> bd_pattern bd \<noteq> None"
    using d(6) [of b] pc by (auto simp: block_ok_def)
  have sz: "sizes_ok sc dk" using d(1) by (simp add: worker_ok_def)
  obtain ok e dg rs w where v: "ValidateBlockOnDisk sc env b (dk, t, s) =
      Inr (ok, dk\<lparr>dk_errorcount := e, dk_diag := dg, dk_requests := dk_requests dk @ rs\<rparr>, t, s\<lparr>sat_shared := w\<rparr>)"
    by (rule Validate_cases [OF sz bd reads, where s = s]) blast+
  let ?dk' = "dk\<lparr>dk_errorcount := e, dk_diag := dg, dk_requests := dk_requests dk @ rs, dk_pc := if ok then DkVerified b else DkFailed b\<rparr>"
  have "DoWork_step sc env (dk, t, s) = Inr (?dk', t, s\<lparr>sat_shared := w\<rparr>)" using v pc by (simp add: DoWork_step_def)
  moreover have "writer_inv sc ?dk' t"
    by (rule writer_inv_move [OF inv]) (use d(1) pc in \<open>auto simp: worker_ok_def sizes_ok_def\<close>)
  ultimately show ?thesis by (rule writer_stepI) (use mem in \<open>auto simp: same_worker_def memory_side_def shared_ok_def\<close>)
qed

lemma writer_step_ok:
  assumes inv: "writer_inv sc dk t" and mem: "memory_side sc N R s" and pc: "dk_pc dk \<noteq> DkStart"
    and reads: "nat (dk_write_block_size dk div dk_read_block_size dk) \<le> length (de_reads env)"
  shows "writer_step sc env N R dk t s"
proof (cases "dk_pc dk")
  case DkHead
  let ?dk' = "dk\<lparr>dk_pc := if se_ready (de_step env) \<and> \<not> error_stop_requested sc s then DkWriting else DkDraining True None\<rparr>"
  have "writer_inv sc ?dk' t"
    by (rule writer_inv_move [OF inv]) (use writer_invD(1) [OF inv] DkHead in \<open>auto simp: worker_ok_def sizes_ok_def\<close>)
  then show ?thesis by (rule writer_stepI [rotated]) (auto simp: DoWork_step_def DkHead same_worker_def mem)
next
  case DkFlush
  let ?dk' = "dk\<lparr>dk_pc := if de_flush env then DkReading else DkDraining True (Some False)\<rparr>"
  have "writer_inv sc ?dk' t"
    by (rule writer_inv_move [OF inv]) (use writer_invD(1) [OF inv] DkFlush in \<open>auto simp: worker_ok_def sizes_ok_def\<close>)
  then show ?thesis by (rule writer_stepI [rotated]) (auto simp: DoWork_step_def DkFlush same_worker_def mem)
next
  case DkReading
  let ?dk' = "if de_ready_no_pause env
    then case dk_in_flight dk of [] \<Rightarrow> dk\<lparr>dk_pc := DkHead\<rparr> | b # bs \<Rightarrow> dk\<lparr>dk_in_flight := bs, dk_pc := DkPopped b\<rparr>
    else dk\<lparr>dk_pc := DkHead\<rparr>"
  have "writer_inv sc ?dk' t"
    by (rule writer_inv_move [OF inv])
      (use writer_invD(1) [OF inv] DkReading in \<open>auto simp: worker_ok_def sizes_ok_def split: list.splits\<close>)
  then show ?thesis by (rule writer_stepI [rotated]) (auto simp: DoWork_step_def DkReading same_worker_def mem split: list.splits)
next
  case (DkHolding b)
  with inv show ?thesis by (intro writer_stepI [rotated, OF inv]) (auto simp: DoWork_step_def same_worker_def mem)
next
  case (DkRelease b)
  with inv show ?thesis by (intro writer_stepI [rotated, OF inv]) (auto simp: DoWork_step_def same_worker_def mem)
next
  case (DkFinished ok)
  with inv show ?thesis by (intro writer_stepI [rotated, OF inv]) (auto simp: DoWork_step_def same_worker_def mem)
qed (use pc writer_allocates [OF inv _ mem] writer_writes [OF inv mem] writer_gives_up [OF inv mem] writer_validates [OF inv mem _ reads] in auto)

text \<open>The start of a write worker.\<close>

lemma table_ok_empty: "table_ok t {} \<Longrightarrow> tb_size t = 0 \<and> tb_addr_to_block t = Map.empty"
  unfolding table_ok_def by (auto simp: fun_eq_iff) (metis option.exhaust surj_pair)

lemma whole_sectors:
  assumes "worker_ok sc dk"
  obtains q where "dk_write_block_size dk = 512 * q" "0 < q"
proof -
  have "512 dvd dk_write_block_size dk" "0 < dk_write_block_size dk" using assms dvd_trans by (auto simp: worker_ok_def sizes_ok_def)
  then show thesis using that by (auto elim!: dvdE)
qed

lemma writer_params:
  assumes inv: "writer_inv sc dk t" and idle: "idle (dk_pc dk)"
    and dk': "dk' = dk\<lparr>dk_device_sectors := bytes div 512\<rparr>" and big: "big_enough dk bytes"
  obtains t' where "update_table dk' t = Inr t'" "writer_inv sc dk' t'" "params_ok t'" "tb_write_block_size t' = dk_write_block_size dk"
proof -
  note d = writer_invD [OF inv]
  have own: "owned dk = []" using d(8) [OF idle] idle by (cases "dk_pc dk") auto
  have t: "tb_size t = 0" "tb_addr_to_block t = Map.empty" "table_ok t {}" "refs_ok t {} {#}" using table_ok_empty d(2,3) own by auto
  let ?t = "t\<lparr>tb_sector_size := 512, tb_write_block_size := dk_write_block_size dk, tb_device_sectors := bytes div 512,
    tb_segment_size := dk_segment_size dk\<rparr>"
  have "update_table dk' t = Inr ?t"
    using d(1) t(1) by (simp add: update_table_def dk' DiskBlocks.SetParameters_def kSectorSize_def worker_ok_def)
  moreover have "writer_inv sc dk' ?t"
  proof (rule writer_invI)
    show "table_ok ?t (set (owned dk'))" using t own by (simp add: dk' table_ok_def)
    show "refs_ok ?t (set (owned dk')) {#}" using t(4) own by (simp add: dk' refs_ok_def)
    show "int (length (dk_in_flight dk')) + of_bool (\<exists>b. dk_pc dk' = DkAllocated b) \<le> dk_queue_size dk' + 1" using d(7) by (simp add: dk')
  qed (use d own idle in \<open>auto simp: dk' worker_ok_def sizes_ok_def no_marks_def\<close>)
  moreover have "params_ok ?t"
  proof -
    obtain q where "dk_write_block_size dk = 512 * q" "0 < q" using whole_sectors [OF d(1)] .
    then show ?thesis using big d(1) by (auto simp: params_ok_def big_enough_def worker_ok_def)
  qed
  ultimately show thesis using that by simp
qed

lemma segments_ok:
  assumes "dk_segment_size dk = - 1 \<or> 0 < dk_segment_size dk" "0 < dk_device_sectors dk"
  obtains n where "count_segments dk = Inr n" "0 < n"
proof (cases "dk_segment_size dk = - 1")
  case True
  then show thesis using that by (simp add: count_segments_def)
next
  case False
  let ?d = "dk_device_sectors dk" and ?s = "dk_segment_size dk"
  have s: "0 < ?s" using False assms(1) by simp
  have q: "0 \<le> ?d div ?s" using assms(2) s by (simp add: pos_imp_zdiv_nonneg_iff)
  have eq: "count_segments dk = Inr (if ?d mod ?s \<noteq> 0 then ?d div ?s + 1 else ?d div ?s)"
    using False s assms(2) by (simp add: count_segments_def cdiv_def cmod_def sdiv_nonneg smod_nonneg)
  have "?d div ?s \<noteq> 0 \<or> ?d mod ?s \<noteq> 0" using assms(2) by (metis add_0 div_mult_mod_eq less_irrefl mult_zero_left)
  then show thesis using that [OF eq] q by (auto split: if_splits)
qed

lemma writer_inv_idle:
  assumes "writer_inv sc dk t" "idle (dk_pc dk)" "idle (dk_pc dk')" "dk_in_flight dk' = dk_in_flight dk" "worker_ok sc dk'"
    and "dk_queue_size dk' = dk_queue_size dk"
  shows "writer_inv sc dk' t"
proof (rule writer_invI)
  note d = writer_invD [OF assms(1)]
  have own: "owned dk = []" "owned dk' = []" using d(8) [OF assms(2)] assms(2-4) by (cases "dk_pc dk"; cases "dk_pc dk'"; simp)+
  show "table_ok t (set (owned dk'))" "refs_ok t (set (owned dk')) {#}" using d(2,3) unfolding own by simp_all
  show "int (length (dk_in_flight dk')) + of_bool (\<exists>b. dk_pc dk' = DkAllocated b) \<le> dk_queue_size dk' + 1"
    using own(2) assms(3,5) by (cases "dk_pc dk'") (auto simp: worker_ok_def)
qed (use assms writer_invD(4,8) [OF assms(1)] in \<open>auto elim: idle.elims\<close>)

lemma writer_fails:
  assumes "writer_inv sc dk t" "idle (dk_pc dk)"
  shows "writer_inv sc (dk\<lparr>dk_errorcount := e, dk_status := st, dk_pc := DkFinished False\<rparr>) t"
  by (rule writer_inv_idle [OF assms]) (use writer_invD(1) [OF assms(1)] in \<open>auto simp: worker_ok_def sizes_ok_def\<close>)

lemma GetDiskSize_ok:
  assumes inv: "writer_inv sc dk t" and pc: "dk_pc dk = DkStart" and dev: "device_ok dk st"
  obtains (unusable) e status where "GetDiskSize st (dk, t) = Inr (False, dk\<lparr>dk_errorcount := e, dk_status := status\<rparr>, t)"
  | (usable) bytes t' where "GetDiskSize st (dk, t) = Inr (True, dk\<lparr>dk_device_sectors := bytes div 512\<rparr>, t')" "big_enough dk bytes"
      "writer_inv sc (dk\<lparr>dk_device_sectors := bytes div 512\<rparr>) t'" "params_ok t'" "tb_write_block_size t' = dk_write_block_size dk"
proof -
  have same: "dk\<lparr>dk_errorcount := dk_errorcount dk, dk_status := dk_status dk\<rparr> = dk" by simp
  have size: thesis if st: "st = BlockDevice (Some bytes) \<and> bytes \<noteq> 0 \<or> st = RegularFile bytes" for bytes
  proof -
    have big: "big_enough dk bytes" using st dev by auto
    obtain t' where t': "update_table (dk\<lparr>dk_device_sectors := bytes div 512\<rparr>) t = Inr t'"
      "writer_inv sc (dk\<lparr>dk_device_sectors := bytes div 512\<rparr>) t'" "params_ok t'" "tb_write_block_size t' = dk_write_block_size dk"
      using writer_params [OF inv _ refl big] pc by auto
    have "bytes sdiv 512 = bytes div 512" using big by (simp add: big_enough_def sdiv_nonneg)
    then have "GetDiskSize st (dk, t) = Inr (True, dk\<lparr>dk_device_sectors := bytes div 512\<rparr>, t')"
      using st t'(1) by (auto simp: GetDiskSize_def kSectorSize_def Let_def)
    then show thesis using usable big t' by blast
  qed
  show thesis
  proof (cases "\<exists>bytes. st = BlockDevice (Some bytes) \<and> bytes \<noteq> 0 \<or> st = RegularFile bytes")
    case True
    then show thesis using size by blast
  next
    case False
    then have "GetDiskSize st (dk, t) = Inr (False, dk, t) \<or>
        GetDiskSize st (dk, t) = Inr (False, dk\<lparr>dk_errorcount := dk_errorcount dk + 1, dk_status := True\<rparr>, t)"
      by (auto simp: GetDiskSize_def Let_def split: device_stat.splits option.splits)
    then show thesis using unusable same by metis
  qed
qed

lemma writer_starts:
  assumes inv: "writer_inv sc dk t" and pc: "dk_pc dk = DkStart" and dev: "device_ok dk (de_stat env)" and writer: "\<not> dk_random dk"
  shows "\<exists>dk' t'. Work_start env (dk, t) = Inr (dk', t') \<and> writer_inv sc dk' t' \<and> same_worker dk dk' \<and> dk_pc dk' \<noteq> DkStart"
proof (cases "de_opened env")
  case False
  then show ?thesis
    using writer_fails [OF inv, where e = "dk_errorcount dk" and st = False] pc by (auto simp: Work_start_def Let_def same_worker_def)
next
  case True
  show ?thesis
  proof (rule GetDiskSize_ok [OF inv pc dev])
    fix e status assume "GetDiskSize (de_stat env) (dk, t) = Inr (False, dk\<lparr>dk_errorcount := e, dk_status := status\<rparr>, t)"
    then show ?thesis
      using True writer_fails [OF inv, where e = e and st = False] pc by (auto simp: Work_start_def Let_def same_worker_def)
  next
    fix bytes t' let ?dk1 = "dk\<lparr>dk_device_sectors := bytes div 512\<rparr>"
    assume g: "GetDiskSize (de_stat env) (dk, t) = Inr (True, ?dk1, t')" "big_enough dk bytes" "writer_inv sc ?dk1 t'"
      "params_ok t'" "tb_write_block_size t' = dk_write_block_size dk"
    show ?thesis
    proof (cases "de_alloc env \<and> de_io_setup env")
      case ok: True
      note d = writer_invD [OF g(3)]
      have "0 < dk_device_sectors ?dk1" "dk_segment_size ?dk1 = - 1 \<or> 0 < dk_segment_size ?dk1"
        using g(2) d(1) by (rule_tac whole_sectors [OF d(1)], auto simp: big_enough_def worker_ok_def)+
      then obtain n where n: "count_segments ?dk1 = Inr n" "0 < n" using segments_ok [of ?dk1] by blast
      let ?dk' = "?dk1\<lparr>dk_num_segments := n, dk_block_num := 0, dk_pc := DkHead\<rparr>"
      have "Work_start env (dk, t) = Inr (?dk', t')"
        using True g(1,2) ok n d(1) writer
        by (simp add: Work_start_def DoWork_enter_def Let_def big_enough_def worker_ok_def kSectorSize_def)
      moreover have "writer_inv sc ?dk' t'"
      proof (rule writer_invI)
        show "int (length (dk_in_flight ?dk')) + of_bool (\<exists>b. dk_pc ?dk' = DkAllocated b) \<le> dk_queue_size ?dk' + 1"
          using d(7) pc by simp
      qed (use d pc n(2) g(4,5) in \<open>auto simp: worker_ok_def sizes_ok_def\<close>)
      ultimately show ?thesis by (intro exI [of _ ?dk'] exI [of _ t']) (simp add: same_worker_def)
    next
      case False
      then have "Work_start env (dk, t) = Inr (?dk1\<lparr>dk_errorcount := dk_errorcount dk, dk_status := False, dk_pc := DkFinished False\<rparr>, t')"
        using True g(1) by (auto simp: Work_start_def Let_def)
      then show ?thesis
        using writer_fails [OF g(3), where e = "dk_errorcount dk" and st = False] pc by (auto simp: same_worker_def)
    qed
  qed
qed

text \<open>
  A random worker finds no block (no block is ever marked), so it owns none.
\<close>

definition reader_inv :: "DiskThread \<Rightarrow> bool" where
  "reader_inv dk \<longleftrightarrow> dk_random dk \<and> \<not> dk_update_block_table dk \<and> (idle (dk_pc dk) \<or> dk_pc dk = DkHead)"

lemma reader_step_ok:
  assumes dk: "reader_inv dk" and w: "writer_inv sc wdk t" and mem: "memory_side sc N R s"
  shows "\<exists>dk'. disk_step sc env (dk, t, s) = Inr (dk', t, s) \<and> reader_inv dk'"
proof (cases "dk_pc dk")
  case DkStart
  have size: "\<exists>ok dk'. GetDiskSize st (dk, t) = Inr (ok, dk', t) \<and> dk_random dk' \<and> \<not> dk_update_block_table dk'" for st
    using dk by (auto simp: GetDiskSize_def Let_def update_table_def reader_inv_def split: device_stat.splits option.splits)
  obtain ok dk' where "GetDiskSize (de_stat env) (dk, t) = Inr (ok, dk', t)" "dk_random dk'" "\<not> dk_update_block_table dk'"
    using size by blast
  then show ?thesis
    using DkStart dk by (auto simp: disk_step_def Work_start_def Let_def DoWork_enter_def reader_inv_def)
next
  case DkHead
  have "GetRandomBlock (de_timed_out env) (de_rnds env 0) t = Inr (None, t)"
    by (rule GetRandomBlock_ok [OF writer_invD(2,3) [OF w], of "de_timed_out env" "de_rnds env 0"])
      (use writer_invD(4) [OF w] in \<open>auto simp: no_marks_def\<close>)
  then show ?thesis
    using DkHead dk by (auto simp: disk_step_def RandomDoWork_step_def reader_inv_def finish_def)
qed (use dk in \<open>auto simp: reader_inv_def disk_step_def RandomDoWork_step_def\<close>)

text \<open>\<open>dk0\<close> is the write worker as \<open>SetParameters\<close> left it.\<close>

definition disks_inv :: "settings \<Rightarrow> nat \<Rightarrow> u64 multiset \<Rightarrow> DiskThread \<Rightarrow> DiskThread list \<times> DiskBlockTable \<times> sat \<Rightarrow> bool" where
  "disks_inv sc N R dk0 = (\<lambda>(dks, t, s). \<exists>dk rdks. dks = dk # rdks \<and> writer_inv sc dk t \<and> same_worker dk0 dk \<and>
     (dk_pc dk = DkStart \<longrightarrow> dk = dk0) \<and> list_all reader_inv rdks \<and> memory_side sc N R s)"

definition disk_env_ok :: "DiskThread \<Rightarrow> disk_env \<Rightarrow> bool" where
  "disk_env_ok dk env \<longleftrightarrow> device_ok dk (de_stat env) \<and> nat (dk_write_block_size dk div dk_read_block_size dk) \<le> length (de_reads env)"

lemma disks_step_ok:
  assumes inv: "disks_inv sc N R dk0 (dks, t, s)" and w: "\<not> dk_random dk0" and env: "disk_env_ok dk0 env" and i: "i < length dks"
  shows "\<exists>dk' t' s'. disk_step sc env (dks ! i, t, s) = Inr (dk', t', s') \<and> disks_inv sc N R dk0 (dks[i := dk'], t', s')"
proof -
  obtain dk rdks where d: "dks = dk # rdks" "writer_inv sc dk t" "same_worker dk0 dk" "dk_pc dk = DkStart \<longrightarrow> dk = dk0"
    "list_all reader_inv rdks" "memory_side sc N R s" using inv by (auto simp: disks_inv_def)
  show ?thesis
  proof (cases i)
    case 0
    have nr: "\<not> dk_random dk" using d(3) w by (simp add: same_worker_def)
    have "\<exists>dk' t' s'. disk_step sc env (dk, t, s) = Inr (dk', t', s') \<and> writer_inv sc dk' t' \<and> same_worker dk dk' \<and>
        dk_pc dk' \<noteq> DkStart \<and> memory_side sc N R s'"
    proof (cases "dk_pc dk = DkStart")
      case True
      then have "device_ok dk (de_stat env)" using d(4) env by (simp add: disk_env_ok_def)
      from writer_starts [OF d(2) True this nr] obtain dk' t' where "Work_start env (dk, t) = Inr (dk', t')" "writer_inv sc dk' t'"
        "same_worker dk dk'" "dk_pc dk' \<noteq> DkStart" by blast
      then show ?thesis using True d(6) by (auto simp: disk_step_def)
    next
      case False
      have "nat (dk_write_block_size dk div dk_read_block_size dk) \<le> length (de_reads env)"
        using env d(3) by (simp add: disk_env_ok_def same_worker_def)
      from writer_step_ok [OF d(2,6) False this] show ?thesis using False nr by (simp add: disk_step_def)
    qed
    then obtain dk' t' s' where s: "disk_step sc env (dk, t, s) = Inr (dk', t', s')" "writer_inv sc dk' t'" "same_worker dk dk'"
      "dk_pc dk' \<noteq> DkStart" "memory_side sc N R s'" by blast
    have "same_worker dk0 dk'" using d(3) s(3) by (simp add: same_worker_def)
    then show ?thesis using 0 s d by (intro exI [of _ dk'] exI [of _ t'] exI [of _ s']) (simp add: disks_inv_def)
  next
    case (Suc j)
    then have "reader_inv (rdks ! j)" using d(1,5) i by (simp add: list_all_length)
    from reader_step_ok [OF this d(2,6)] obtain dk' where dk': "disk_step sc env (rdks ! j, t, s) = Inr (dk', t, s)" "reader_inv dk'" by blast
    have "list_all reader_inv (rdks[j := dk'])" using d(1,5) dk'(2) i Suc by (auto simp: list_all_length nth_list_update)
    then show ?thesis using Suc dk' d by (intro exI [of _ dk'] exI [of _ t] exI [of _ s]) (simp add: disks_inv_def)
  qed
qed

lemma run_disks_ok:
  assumes "disks_inv sc N R dk0 x" "\<not> dk_random dk0" "list_all (\<lambda>e. disk_env_ok dk0 (snd e)) es"
  shows "\<exists>x'. run_disks sc es x = Inr x' \<and> disks_inv sc N R dk0 x' \<and> length (fst x') = length (fst x)"
  using assms(1,3)
proof (induction es arbitrary: x)
  case (Cons e es)
  obtain dks t s where x: "x = (dks, t, s)" by (cases x)
  show ?case
  proof (cases "fst e < length dks")
    case True
    from disks_step_ok [OF Cons.prems(1) [unfolded x] assms(2) _ True, of "snd e"] Cons.prems(2)
    obtain dk' t' s' where "disk_step sc (snd e) (dks ! fst e, t, s) = Inr (dk', t', s')" "disks_inv sc N R dk0 (dks[fst e := dk'], t', s')"
      by auto
    then show ?thesis using Cons.IH [of "(dks[fst e := dk'], t', s')"] Cons.prems(2) True x by simp
  next
    case False
    then show ?thesis using Cons.IH [of x] Cons.prems x by simp
  qed
qed simp


section \<open>Concrete instances\<close>

text \<open>Write blocks of two sectors, read one sector at a time, and the program's patterns.\<close>

definition ex_params :: "int \<Rightarrow> disk_params" where
  "ex_params rb = \<lparr>dp_read_block_size = rb, dp_write_block_size = 1024, dp_segment_size = - 1, dp_cache_size = - 1,
     dp_blocks_per_segment = - 1, dp_read_threshold = - 1, dp_write_threshold = - 1, dp_non_destructive = False\<rparr>"

definition ex_disk :: DiskThread where
  "ex_disk = configured (ex_params 512) DiskThread_new"

definition ex_block :: "nat \<Rightarrow> BlockData" where
  "ex_block k = BlockData_new\<lparr>bd_address := 6, bd_size := 1024, bd_references := 1, bd_pattern := Some k\<rparr>"

definition ex_blocks :: "nat \<Rightarrow> DiskBlockTable" where
  "ex_blocks k = DiskBlockTable_new\<lparr>tb_heap := [0 \<mapsto> ex_block k]\<rparr>"

definition ex_disk_env :: "(int \<Rightarrow> u64) \<Rightarrow> disk_env" where
  "ex_disk_env device = \<lparr>de_step = ex_step True, de_ready_no_pause = True, de_rnds = (\<lambda>_. 7), de_timed_out = False, de_opened = True,
     de_stat = RegularFile 67108864, de_alloc = True, de_io_setup = True, de_write = Event 1024, de_seek = True,
     de_reads = [(0, Event 512), (0, Event 512)], de_device = device, de_flush = True, de_buffer = 0x10000\<rparr>"

lemmas ex_disk_simps = ex_disk_def configured_def ex_params_def read_block_def write_block_def DiskThread_new_def kSectorSize_def

lemma ex_sizes: "sizes_ok ex_sc ex_disk" "dk_read_block_size ex_disk = 512" "dk_write_block_size ex_disk = 1024"
  "\<not> dk_non_destructive ex_disk" "\<not> cf_tag_mode (sc_cfg ex_sc)" "nat (1024 div 512) \<le> length (de_reads (ex_disk_env device))"
  by (simp_all add: sizes_ok_def ex_disk_simps ex_sc_def ex_cfg_def ex_disk_env_def)

lemma ex_blocks_simps [simp]: "tb_heap (ex_blocks k) 0 = Some (ex_block k)" "bd_size (ex_block k) = 1024" "bd_pattern (ex_block k) = Some k"
  "bd_address (ex_block k) = 6"
  by (simp_all add: ex_blocks_def ex_block_def)

text \<open>The walking ones on a bus of 32 bits, inverted.\<close>

lemma ex_pats_4:
  "pat_data (ex_pats ! 4) = walkingOnes" "busshift (ex_pats ! 4) = 0" "word_offset (ex_pats ! 4) = 0" "inverse (ex_pats ! 4)"
  by (simp_all add: PatternList_Initialize_def PatternList_new_def Let_def pattern_array_def variants_def variant_def Pattern_Initialize_def
      CalculateCrc_def)

lemma ex_periodic: "sector_periodic (ex_pats ! 4)"
  by (rule sector_periodic_short [where k = 6]) (simp_all add: ex_pats_4 walkingOnes_def pattern_data_def mask_eq_exp_minus_1)

theorem validate_reads_once_witness:
  "\<exists>ok dk' s' rs. ValidateBlockOnDisk ex_sc (ex_disk_env (\<lambda>_. 0)) 0 (ex_disk, ex_blocks 4, ex_sat (new_pool False (\<lambda>_. blank_pe) 1 4096) []) =
     Inr (ok, dk', ex_blocks 4, s') \<and> dk_requests dk' = dk_requests ex_disk @ rs \<and> length rs \<le> 2"
  using validate_reads_once [where sc = ex_sc and dk = ex_disk and t = "ex_blocks 4" and b = 0 and bd = "ex_block 4" and
      env = "ex_disk_env (\<lambda>_. 0)" and s = "ex_sat (new_pool False (\<lambda>_. blank_pe) 1 4096) []"] ex_sizes
  by auto

lemma ex_validated:
  "\<exists>dk' s'. ValidateBlockOnDisk ex_sc (ex_disk_env device) 0 (ex_disk, ex_blocks k, s) = Inr (True, dk', ex_blocks k, s')"
proof -
  have "\<exists>d w. compare_group ex_sc (ex_disk_env device) (Some k) br n (read_buffer (ex_disk_env device) (start + br) n) (dk, s) =
      Inr (dk\<lparr>dk_errorcount := dk_errorcount dk + group_cost ex_sc (ex_disk_env device) dk (patterns (sat_patternlist s)) (Some k) start br n,
        dk_diag := d\<rparr>, s\<lparr>sat_shared := w\<rparr>)" for br n start dk s
    by (rule compare_group_eq) simp
  note group = this [of 0 512 3072 "ex_disk\<lparr>dk_requests := dk_requests ex_disk @ [IoRead 3072 512]\<rparr>" s]
  obtain dk1 s1 where g1: "compare_group ex_sc (ex_disk_env device) (Some k) 0 512 (read_buffer (ex_disk_env device) 3072 512)
      (ex_disk\<lparr>dk_requests := dk_requests ex_disk @ [IoRead 3072 512]\<rparr>, s) = Inr (dk1, s1)" "dk_read_block_size dk1 = 512"
    using group ex_sizes(2) by auto
  obtain dk2 s2 where g2: "compare_group ex_sc (ex_disk_env device) (Some k) 512 512 (read_buffer (ex_disk_env device) 3584 512)
      (dk1\<lparr>dk_requests := dk_requests dk1 @ [IoRead 3584 512]\<rparr>, s1) = Inr (dk2, s2)"
    using compare_group_eq [of "dk1\<lparr>dk_requests := dk_requests dk1 @ [IoRead 3584 512]\<rparr>" "Some k" ex_sc "ex_disk_env device" 512 512 3072 s1]
    by auto
  have env: "de_seek (ex_disk_env device)" "de_reads (ex_disk_env device) = [(0, Event 512), (0, Event 512)]" "cf_page_length (sc_cfg ex_sc) = 4096"
    by (simp_all add: ex_disk_env_def ex_sc_def ex_cfg_def)
  show ?thesis
    using g1 g2 ex_sizes(2) by (simp add: ValidateBlockOnDisk_def deref_def kSectorSize_def Let_def AsyncDiskIO_def env)
qed

theorem validate_exact_witness:
  "\<exists>dk' s'. ValidateBlockOnDisk ex_sc (ex_disk_env (\<lambda>k. pattern_word (ex_pats ! 4) (nat (k - 384)))) 0
       (ex_disk, ex_blocks 4, ex_sat (new_pool False (\<lambda>_. blank_pe) 1 4096) []) = Inr (True, dk', ex_blocks 4, s') \<and>
     dk_errorcount dk' = dk_errorcount ex_disk"
proof -
  let ?env = "ex_disk_env (\<lambda>k. pattern_word (ex_pats ! 4) (nat (k - 384)))" and ?s = "ex_sat (new_pool False (\<lambda>_. blank_pe) 1 4096) []"
  obtain dk' s' where v: "ValidateBlockOnDisk ex_sc ?env 0 (ex_disk, ex_blocks 4, ?s) = Inr (True, dk', ex_blocks 4, s')"
    using ex_validated by blast
  have "de_device ?env = (\<lambda>k. pattern_word (ex_pats ! 4) (nat (k - 384)))" by (simp add: ex_disk_env_def)
  then show ?thesis
    using validate_exact [where sc = ex_sc and dk = ex_disk and t = "ex_blocks 4" and b = 0 and bd = "ex_block 4" and env = ?env and s = ?s and
        k = 4, OF ex_sizes(1,4) _ _ _ _ _ ex_sizes(5) v] ex_sizes ex_periodic v
    by (auto simp: ex_sat_def)
qed

theorem validate_false_alarm_witness:
  "\<exists>dk' s'. ValidateBlockOnDisk ex_sc (ex_disk_env (\<lambda>k. pattern_word (ex_pats ! 3) (nat (k - 384)))) 0
       (ex_disk, ex_blocks 3, ex_sat (new_pool False (\<lambda>_. blank_pe) 1 4096) []) = Inr (True, dk', ex_blocks 3, s') \<and>
     dk_errorcount ex_disk < dk_errorcount dk'"
  using validate_false_alarm [where sc = ex_sc and dk = ex_disk and t = "ex_blocks 3" and b = 0 and bd = "ex_block 3" and
      env = "ex_disk_env (\<lambda>k. pattern_word (ex_pats ! 3) (nat (k - 384)))" and s = "ex_sat (new_pool False (\<lambda>_. blank_pe) 1 4096) []"] ex_sizes
  by (simp add: ex_sat_def ex_disk_env_def)

lemma ex_created:
  obtains t0 where "DiskThread_SetParameters (ex_params 512) (DiskThread_new, DiskBlockTable_new) = Inr (Some (ex_disk, t0))"
    "DiskThread_SetParameters (ex_params 512) (RandomDiskThread_new, t0) = Inr (Some (configured (ex_params 512) RandomDiskThread_new, t0))"
proof -
  let ?t0 = "DiskBlockTable_new\<lparr>tb_sector_size := 512, tb_write_block_size := 1024, tb_device_sectors := 0, tb_segment_size := - 1\<rparr>"
  have new: "dk_read_block_size DiskThread_new = 512" "dk_write_block_size DiskThread_new = 512" "tb_size DiskBlockTable_new = 0"
    "dk_read_block_size RandomDiskThread_new = 512" "dk_write_block_size RandomDiskThread_new = 512" "tb_size ?t0 = 0"
    by (simp_all add: DiskThread_new_def RandomDiskThread_new_def DiskBlockTable_new_def kSectorSize_def)
  have ok: "acceptable (ex_params 512)" "read_block (ex_params 512) = 512" "write_block (ex_params 512) = 1024"
    by (simp_all add: acceptable_def ex_params_def read_block_def write_block_def)
  have "update_table ex_disk DiskBlockTable_new = Inr ?t0"
    by (simp add: update_table_def DiskBlocks.SetParameters_def ex_disk_simps DiskBlockTable_new_def)
  moreover have "update_table (configured (ex_params 512) RandomDiskThread_new) ?t0 = Inr ?t0"
    by (simp add: update_table_def configured_def RandomDiskThread_new_def DiskThread_new_def)
  ultimately show thesis
    using that [of ?t0] SetParameters_eq [OF new(1-3), of "ex_params 512"] SetParameters_eq [OF new(4-6), of "ex_params 512"] ok
    by (simp add: ex_disk_def)
qed


text \<open>No valid page, and the inverted walking ones as the chosen pattern.\<close>

definition ex_disk_sat :: "pool \<Rightarrow> sat" where
  "ex_disk_sat p = (ex_sat p (replicate 512 0))\<lparr>sat_patternlist := ex_pl\<lparr>selected_pattern_ids := [4]\<rparr>\<rparr>"

lemma ex_written:
  assumes p: "pool_inv (page_offsets 1 4096) p {#}" "pool_avail True p = {#}"
  shows "shared_ok ex_sc 1 False (ex_disk_sat p)"
    "\<exists>ws dk1 t1 s1. WriteBlockToDisk ex_sc (ex_disk_env device) 0 (ex_disk, ex_blocks 0, ex_disk_sat p) = Inr (True, dk1, t1, s1) \<and>
       last (dk_requests dk1) = IoWrite 3072 ws \<and> tb_heap t1 = [0 \<mapsto> ex_block 4] \<and> length ws = 128"
proof -
  have pl: "pl_ok (ex_pl\<lparr>selected_pattern_ids := [4]\<rparr>)" using ex_pl_ok by (simp add: pl_ok_def)
  show ok: "shared_ok ex_sc 1 False (ex_disk_sat p)"
    using p(2) ex_geometry [of "replicate 512 0"] pl
    by (simp add: shared_ok_def ex_disk_sat_def ex_sat_def tagged_page_def is_tag_def ex_sc_def ex_cfg_def)
  have os: "os_maps (sc_os ex_sc) 4096 (page_offsets 1 4096)" using ex_os_maps by (simp add: ex_sc_def)
  obtain p' where g: "sat_GetValid (sc_os ex_sc) 4096 (se_call (ex_step True)) kDontCareTag p = Inr (None, p')"
    by (rule sat_get_cases [OF p(1) os, of True "se_call (ex_step True)" kDontCareTag]) (use p(2) in auto)
  have "block_data ex_sc (ex_disk_env device) 1024 (ex_disk_sat p) =
      Inr (fallback_words (ex_pats ! 4) 1024, Some 4, (ex_disk_sat p)\<lparr>sat_pool := p', sat_patternlist :=
        (ex_pl\<lparr>selected_pattern_ids := [4]\<rparr>)\<lparr>selected_pattern_cursor := selected_pattern_cursor ex_pl + 1\<rparr>\<rparr>)"
    using g by (simp add: block_data_def get_valid_def ex_disk_sat_def ex_sat_def ex_disk_env_def GetRandomPattern_def Let_def ex_sc_def ex_cfg_def)
  then show "\<exists>ws dk1 t1 s1. WriteBlockToDisk ex_sc (ex_disk_env device) 0 (ex_disk, ex_blocks 0, ex_disk_sat p) = Inr (True, dk1, t1, s1) \<and>
       last (dk_requests dk1) = IoWrite 3072 ws \<and> tb_heap t1 = [0 \<mapsto> ex_block 4] \<and> length ws = 128"
    by (simp add: WriteBlockToDisk_def deref_def set_pattern_def AsyncDiskIO_def kSectorSize_def)
      (simp add: ex_disk_env_def ex_blocks_def ex_block_def fun_eq_iff)
qed


end
