(* ===== verification/FileThread.thy ===== *)
theory FileThread
  imports MemTest
begin

text \<open>
  The file worker: \<open>FileThread\<close> of \<^verbatim>\<open>src/src/worker.cc\<close> and \<^verbatim>\<open>src/src/worker.h\<close>. It takes valid pages, marks each
  512-byte sector with a tag, writes the pages to a file, reads them back into empty pages, checks the tags, puts the pattern back
  in their place and returns the pages as valid. The file itself, the allocator and the page cache belong to the operating system:
  their answers are inputs of each step. A step is a stretch of the loop between two points where other threads can interfere.
\<close>

section \<open>Sector tags\<close>

type_synonym u8 = "8 word"

text \<open>The first four bytes of a sector, in the order of the structure; on the little-endian targets they are the low half of its first word.\<close>

record SectorTag =
  tg_magic :: u8
  tg_block :: u8
  tg_sector :: u8
  tg_pass :: u8

definition tag_to_word :: "SectorTag \<Rightarrow> u32" where
  "tag_to_word t = ucast (tg_magic t) OR push_bit 8 (ucast (tg_block t)) OR push_bit 16 (ucast (tg_sector t)) OR
     push_bit 24 (ucast (tg_pass t))"

definition word_to_tag :: "u32 \<Rightarrow> SectorTag" where
  "word_to_tag w = \<lparr>tg_magic = ucast w, tg_block = ucast (drop_bit 8 w), tg_sector = ucast (drop_bit 16 w),
     tg_pass = ucast (drop_bit 24 w)\<rparr>"

text \<open>Writing the low half of a 64-bit word.\<close>

definition set_low :: "u32 \<Rightarrow> u64 \<Rightarrow> u64" where
  "set_low x w = l64_of x (l32_h w)"

section \<open>State\<close>

text \<open>What is known of a page on its way through the file: \<open>FileThread::PageRec\<close>.\<close>

record PageRec =
  pr_pattern :: "nat option"
  pr_src :: u64
  pr_dst :: u64

text \<open>
  Where the worker is. \<open>FWrite i\<close> and \<open>FRead i result\<close>: the heads of the loops of \<open>WritePages\<close> and \<open>ReadPages\<close>. \<open>FCopyLocal\<close> and
  \<open>FPutBack\<close> are only reached when the pages of the pool cannot be used for direct I/O.
\<close>

datatype file_pc =
    FStart
  | FHead
  | FWrite nat
  | FCopyLocal nat page_entry
  | FPutBack nat page_entry page_entry
  | FHaveSrc nat page_entry
  | FWritten nat bool page_entry
  | FRead nat bool
  | FHaveDst nat bool page_entry
  | FReadFailed page_entry
  | FReadBack nat bool page_entry
  | FEnd
  | FDone bool

text \<open>
  \<open>fi_file\<close>: the data of the calls of \<open>write\<close>, by their position in the file in pages. \<open>fi_tag_errors\<close>: what was reported to
  \<open>AddHDDSectorTagError\<close>: block, byte offset and sector as found, source and destination address.
\<close>

record FileThread =
  fi_num :: int
  fi_pass :: int
  fi_page_io :: bool
  fi_local :: "u64 list"
  fi_local_addr :: u64
  fi_recs :: "PageRec list"
  fi_file :: "u64 list list"
  fi_pc :: file_pc
  fi_loops :: int
  fi_errorcount :: int
  fi_diag :: diag
  fi_tag_errors :: "(u8 \<times> int \<times> u8 \<times> u64 \<times> u64) list"
  fi_status :: bool
  fi_pages_copied :: int

definition FileThread_new :: "int \<Rightarrow> diag \<Rightarrow> FileThread" where
  "FileThread_new num diag = \<lparr>fi_num = num, fi_pass = 0, fi_page_io = True, fi_local = [], fi_local_addr = 0, fi_recs = [], fi_file = [],
     fi_pc = FStart, fi_loops = 0, fi_errorcount = 0, fi_diag = diag, fi_tag_errors = [], fi_status = False, fi_pages_copied = 0\<rparr>"

text \<open>
  What the outside world answers during one step: the memory side; whether the memory can be used for DMA and, if not, the
  allocated buffer (\<open>None\<close>: no memory); whether the file could be opened; the number of bytes \<open>write\<close> and \<open>read\<close> returned and what the
  buffer holds after the read; \<open>FlushPageCache\<close>; the static call counter of \<open>SectorValidatePage\<close> after its increment; and
  the uninitialised record on the stack.
\<close>

record file_env =
  fe_step :: step_env
  fe_normal_mem :: bool
  fe_local :: "(u64 \<times> u64 list) option"
  fe_opened :: bool
  fe_write :: int
  fe_read :: int
  fe_buffer :: "u64 list"
  fe_flush :: bool
  fe_calls :: nat
  fe_entry :: page_entry

section \<open>Tagging and validating a page\<close>

definition tag_magic :: "FileThread \<Rightarrow> u8" where
  "tag_magic f = of_int (0xba + fi_num f)"

definition expected_tag :: "FileThread \<Rightarrow> int \<Rightarrow> nat \<Rightarrow> SectorTag" where
  "expected_tag f block sec = \<lparr>tg_magic = tag_magic f, tg_block = of_int block, tg_sector = of_nat sec, tg_pass = of_int (fi_pass f)\<rparr>"

primrec tag_sectors :: "FileThread \<Rightarrow> int \<Rightarrow> nat \<Rightarrow> nat \<Rightarrow> u64 list \<Rightarrow> u64 list res" where
  "tag_sectors f block 0 sec page = Inr page"
| "tag_sectors f block (Suc n) sec page =
     res_bind (rd page (64 * sec)) (\<lambda>w.
     res_bind (wr page (64 * sec) (set_low (tag_to_word (expected_tag f block sec)) w))
       (tag_sectors f block n (sec + 1)))"

definition sectors :: "settings \<Rightarrow> nat" where
  "sectors sc = nat (cf_page_length (sc_cfg sc)) div 512"

definition SectorTagPage :: "settings \<Rightarrow> FileThread \<Rightarrow> int \<Rightarrow> u64 list \<Rightarrow> u64 list res" where
  "SectorTagPage sc f block page = tag_sectors f block (sectors sc) 0 page"

text \<open>The byte of the tag that is blamed.\<close>

definition tag_offset :: "SectorTag \<Rightarrow> SectorTag \<Rightarrow> nat \<Rightarrow> int" where
  "tag_offset expected tag sec =
     int sec * 512 + (if tg_block tag \<noteq> tg_block expected then 1
                      else if tg_sector tag \<noteq> tg_sector expected then 2
                      else if tg_pass tag \<noteq> tg_pass expected then 3 else 0)"

text \<open>The loop over the sectors; it collects the bad sectors with the reports to the diagnoser and puts the pattern back.\<close>

primrec validate_sectors ::
    "FileThread \<Rightarrow> Pattern \<Rightarrow> PageRec \<Rightarrow> int \<Rightarrow> nat \<Rightarrow> nat \<Rightarrow> u64 list \<Rightarrow>
     ((nat \<times> (u8 \<times> int \<times> u8 \<times> u64 \<times> u64)) list \<times> u64 list) res" where
  "validate_sectors f p rec block 0 sec page = Inr ([], page)"
| "validate_sectors f p rec block (Suc n) sec page =
     res_bind (rd page (64 * sec)) (\<lambda>w.
       let tag = word_to_tag (l32_l w); expected = expected_tag f block sec;
           report = (sec, tg_block tag, tag_offset expected tag sec, tg_sector tag, pr_src rec, pr_dst rec)
       in res_bind (wr page (64 * sec) (set_low (pattern p (of_nat (128 * sec))) w)) (\<lambda>page'.
          res_bind (validate_sectors f p rec block n (sec + 1) page') (\<lambda>(bad, page'').
            Inr (if tag \<noteq> expected then report # bad else bad, page''))))"

text \<open>
  The deliberate damage of error injection: on the second call the passes of the sectors 8 to 16, on the eighteenth the 32-bit word 27.
\<close>

primrec spoil_passes :: "nat \<Rightarrow> nat \<Rightarrow> u64 list \<Rightarrow> u64 list res" where
  "spoil_passes 0 sec page = Inr page"
| "spoil_passes (Suc n) sec page =
     res_bind (rd page (64 * sec)) (\<lambda>w.
     res_bind (wr page (64 * sec) (set_low (tag_to_word ((word_to_tag (l32_l w))\<lparr>tg_pass := 27\<rparr>)) w)) (spoil_passes n (sec + 1)))"

definition inject_tags :: "settings \<Rightarrow> nat \<Rightarrow> u64 list \<Rightarrow> u64 list res" where
  "inject_tags sc calls page =
     (if \<not> sc_error_injection sc then Inr page
      else if calls = 2 then spoil_passes 9 8 page
      else if calls = 18 then res_bind (rd page 13) (\<lambda>w. wr page 13 (l64_of (l32_l w) 0xbadda7a))
      else Inr page)"

text \<open>
  The repair after a tag error: \<open>page_length / wordsize_\<close> 32-bit words, with \<open>wordsize_\<close> 8, once for each page-size block between the
  first and the last bad sector; every turn writes the same words.
\<close>

primrec refill_words :: "Pattern \<Rightarrow> nat \<Rightarrow> nat \<Rightarrow> u64 list \<Rightarrow> u64 list res" where
  "refill_words p 0 i page = Inr page"
| "refill_words p (Suc n) i page =
     res_bind (rd page (i div 2)) (\<lambda>w.
     res_bind (wr page (i div 2) (if even i then l64_of (pattern p (of_nat i)) (l32_h w) else l64_of (l32_l w) (pattern p (of_nat i))))
       (refill_words p n (i + 1)))"

definition refill_bad :: "settings \<Rightarrow> Pattern \<Rightarrow> int \<Rightarrow> nat list \<Rightarrow> u64 list \<Rightarrow> u64 list res" where
  "refill_bad sc p block bad page =
     (let page_length = cf_page_length (sc_cfg sc);
          firstsector = block * page_length div 512 + int (hd bad);
          lastsector = block * page_length div 512 + int (last bad)
      in if firstsector * 512 div page_length \<le> lastsector * 512 div page_length
         then refill_words p (nat page_length div 8) 0 page else Inr page)"

definition SectorValidatePage ::
    "settings \<Rightarrow> nat \<Rightarrow> PageRec \<Rightarrow> page_entry \<Rightarrow> int \<Rightarrow> u64 list \<Rightarrow> FileThread \<times> sat \<Rightarrow> (u64 list \<times> FileThread \<times> sat) res" where
  "SectorValidatePage sc calls rec dst block page = (\<lambda>(f, s).
     res_bind (inject_tags sc calls page) (\<lambda>page1.
     res_bind (pattern_of (patterns (sat_patternlist s)) dst) (\<lambda>k.
     let p = patterns (sat_patternlist s) ! k in
     res_bind (validate_sectors f p rec block (sectors sc) 0 page1) (\<lambda>(bad, page2).
       let f' = f\<lparr>fi_errorcount := fi_errorcount f + int (length bad), fi_tag_errors := fi_tag_errors f @ map snd bad\<rparr>
       in if bad = [] then Inr (page2, f', s)
          else res_bind (refill_bad sc p block (map fst bad) page2) (\<lambda>page3.
                 Inr (page3, f', if cf_stop_on_error (sc_cfg sc) then s\<lparr>sat_shared := (sat_shared s)\<lparr>w_stop := True\<rparr>\<rparr> else s))))))"

section \<open>The pages of the worker\<close>

definition load_buf :: "settings \<Rightarrow> page_entry \<Rightarrow> FileThread \<times> sat \<Rightarrow> u64 list" where
  "load_buf sc pe = (\<lambda>(f, s). if fi_page_io f then load_page sc pe (sat_mem s) else fi_local f)"

definition store_buf :: "page_entry \<Rightarrow> u64 list \<Rightarrow> FileThread \<times> sat \<Rightarrow> FileThread \<times> sat" where
  "store_buf pe xs = (\<lambda>(f, s). if fi_page_io f then (f, s\<lparr>sat_mem := store_page pe xs (sat_mem s)\<rparr>) else (f\<lparr>fi_local := xs\<rparr>, s))"

definition file_worker :: "FileThread \<Rightarrow> sat \<Rightarrow> worker" where
  "file_worker f s = (sat_shared s)\<lparr>w_errorcount := fi_errorcount f, w_diag := fi_diag f\<rparr>"

definition from_file_worker :: "worker \<Rightarrow> FileThread \<times> sat \<Rightarrow> FileThread \<times> sat" where
  "from_file_worker w = (\<lambda>(f, s).
     (f\<lparr>fi_errorcount := w_errorcount w, fi_diag := w_diag w\<rparr>,
      s\<lparr>sat_shared := w\<lparr>w_errorcount := w_errorcount (sat_shared s), w_diag := w_diag (sat_shared s)\<rparr>\<rparr>))"

text \<open>
  \<open>CrcCheckPage\<close> of the file worker. Its own \<open>ProcessError\<close> differs from that of the other workers in the text of the line and in what
  it tells the diagnoser, which are not distinguished here.
\<close>

definition file_check :: "settings \<Rightarrow> step_env \<Rightarrow> string \<Rightarrow> page_entry \<Rightarrow> FileThread \<times> sat \<Rightarrow> (nat \<times> FileThread \<times> sat) res" where
  "file_check sc env phase pe = (\<lambda>(f, s).
     res_bind (CrcCheckPage (now_cfg sc env) (patterns (sat_patternlist s)) pe ''file'' phase (load_buf sc pe (f, s), file_worker f s))
       (\<lambda>(errors, page, w). Inr (errors, from_file_worker w (store_buf pe page (f, s)))))"

definition PagePrepare :: "file_env \<Rightarrow> FileThread \<Rightarrow> bool \<times> FileThread" where
  "PagePrepare env f =
     (if fe_normal_mem env then (True, f\<lparr>fi_page_io := True\<rparr>)
      else case fe_local env of
             None \<Rightarrow> (False, f\<lparr>fi_page_io := False, fi_status := False\<rparr>)
           | Some (addr, buffer) \<Rightarrow> (True, f\<lparr>fi_page_io := False, fi_local_addr := addr, fi_local := buffer\<rparr>))"

definition GetEmptyPage :: "settings \<Rightarrow> file_env \<Rightarrow> FileThread \<Rightarrow> sat \<Rightarrow> (page_entry option \<times> sat) res" where
  "GetEmptyPage sc env f s =
     (if fi_page_io f then get_empty sc (fe_step env) kDontCareTag s
      else Inr (Some ((fe_entry env)\<lparr>pe_addr := fi_local_addr f, pe_offset := 0, pe_pattern := None, pe_lastcpu := 0,
                                     pe_write_dram_frequency := - 1\<rparr>), s))"

definition PutEmptyPage :: "settings \<Rightarrow> file_env \<Rightarrow> page_entry \<Rightarrow> FileThread \<Rightarrow> sat \<Rightarrow> (bool \<times> sat) res" where
  "PutEmptyPage sc env pe f s = (if fi_page_io f then put_empty sc (fe_step env) pe s else Inr (True, s))"

definition PutValidPage :: "settings \<Rightarrow> file_env \<Rightarrow> page_entry \<Rightarrow> FileThread \<Rightarrow> sat \<Rightarrow> (bool \<times> sat) res" where
  "PutValidPage sc env pe f s = (if fi_page_io f then put_valid sc (fe_step env) pe s else Inr (True, s))"

text \<open>The copy of \<open>GetValidPage\<close> into the local buffer.\<close>

definition copy_local :: "settings \<Rightarrow> file_env \<Rightarrow> page_entry \<Rightarrow> FileThread \<times> sat \<Rightarrow> (page_entry \<times> FileThread \<times> sat) res" where
  "copy_local sc env tmp = (\<lambda>(f, s).
     res_bind (CrcCopyPage (now_cfg sc (fe_step env)) (patterns (sat_patternlist s))
                 ((fe_entry env)\<lparr>pe_addr := fi_local_addr f, pe_offset := 0\<rparr>) tmp ''file'' ''source_copy_check''
                 (fi_local f) (load_page sc tmp (sat_mem s), file_worker f s))
       (\<lambda>(errors, (src, dpage), spage, w).
          Inr (src, from_file_worker w (f\<lparr>fi_local := dpage\<rparr>, s\<lparr>sat_mem := store_page tmp spage (sat_mem s)\<rparr>))))"

section \<open>Writing and reading\<close>

text \<open>\<open>write\<close> at the page position \<open>i\<close> of the file.\<close>

definition file_put :: "nat \<Rightarrow> 'a \<Rightarrow> 'a list \<Rightarrow> 'a list" where
  "file_put i x xs = take i xs @ x # drop (Suc i) xs"

definition WritePageToFile :: "settings \<Rightarrow> file_env \<Rightarrow> nat \<Rightarrow> page_entry \<Rightarrow> FileThread \<times> sat \<Rightarrow> bool \<times> FileThread" where
  "WritePageToFile sc env i src = (\<lambda>(f, s).
     if fe_write env \<noteq> cf_page_length (sc_cfg sc) then (False, f\<lparr>fi_errorcount := fi_errorcount f + 1\<rparr>)
     else (True, f\<lparr>fi_file := file_put i (load_buf sc src (f, s)) (fi_file f)\<rparr>))"

text \<open>The body of the loop of \<open>WritePages\<close> between taking a page and returning it.\<close>

definition write_process :: "settings \<Rightarrow> file_env \<Rightarrow> nat \<Rightarrow> page_entry \<Rightarrow> FileThread \<times> sat \<Rightarrow> (FileThread \<times> sat) res" where
  "write_process sc env i src = (\<lambda>(f, s).
     res_bind (rd (fi_recs f) i) (\<lambda>rec.
       let f1 = f\<lparr>fi_recs := (fi_recs f)[i := rec\<lparr>pr_pattern := pe_pattern src, pr_src := pe_addr src\<rparr>]\<rparr>
       in res_bind (if sc_strict sc
                    then res_bind (file_check sc (fe_step env) ''source_check'' src (f1, s)) (\<lambda>(errors, x). Inr x)
                    else Inr (f1, s)) (\<lambda>(f2, s2).
          res_bind (SectorTagPage sc f2 (int i) (load_buf sc src (f2, s2))) (\<lambda>page.
            case store_buf src page (f2, s2) of (f3, s3) \<Rightarrow>
            case WritePageToFile sc env i src (f3, s3) of (ok, f4) \<Rightarrow>
              Inr (f4\<lparr>fi_pc := FWritten i ok src\<rparr>, s3)))))"

text \<open>
  \<open>ReadPageFromFile\<close> and the rest of the body of the loop of \<open>ReadPages\<close>. The block history is only kept for pages of the pool.
\<close>

definition ReadPageFromFile ::
    "settings \<Rightarrow> file_env \<Rightarrow> page_entry \<Rightarrow> FileThread \<times> sat \<Rightarrow> bool \<times> page_entry \<times> FileThread \<times> sat" where
  "ReadPageFromFile sc env dst = (\<lambda>(f, s).
     case store_buf dst (fe_buffer env) (f, s) of (f1, s1) \<Rightarrow>
       if fe_read env \<noteq> cf_page_length (sc_cfg sc) then (False, dst, f1\<lparr>fi_errorcount := fi_errorcount f1 + 1\<rparr>, s1)
       else (True, dst\<lparr>pe_write_dram_frequency := se_frequency (fe_step env)\<rparr>, f1, s1))"

definition note_file_write :: "settings \<Rightarrow> step_env \<Rightarrow> u64 \<Rightarrow> FileThread \<times> sat \<Rightarrow> sat" where
  "note_file_write sc env offset = (\<lambda>(f, s).
     if fi_page_io f \<and> sc_diag_block_history sc
     then s\<lparr>sat_history := RecordBlockWrite True (cf_page_length (sc_cfg sc)) (se_now env) offset BLOCK_WRITER_FILE (fi_num f)
                             (uint (se_cpu env)) (se_epoch_begin env) (se_epoch env) (sat_history s)\<rparr>
     else s)"

definition read_process :: "settings \<Rightarrow> file_env \<Rightarrow> nat \<Rightarrow> bool \<Rightarrow> page_entry \<Rightarrow> FileThread \<times> sat \<Rightarrow> (FileThread \<times> sat) res" where
  "read_process sc env i result pe = (\<lambda>(f, s).
     res_bind (rd (fi_recs f) i) (\<lambda>rec.
       let dst = pe\<lparr>pe_pattern := pr_pattern rec, pe_lastcpu := se_cpu (fe_step env)\<rparr>;
           rec' = rec\<lparr>pr_dst := pe_addr dst\<rparr>;
           f1 = f\<lparr>fi_recs := (fi_recs f)[i := rec']\<rparr>
       in case ReadPageFromFile sc env dst (f1, s) of (ok, dst2, f2, s2) \<Rightarrow>
          if \<not> ok then Inr (f2\<lparr>fi_pc := FReadFailed dst2\<rparr>, s2)
          else
            let s3 = note_file_write sc (fe_step env) (pe_offset dst2) (f2, s2) in
            res_bind (SectorValidatePage sc (fe_calls env) rec' dst2 (int i) (load_buf sc dst2 (f2, s3)) (f2, s3)) (\<lambda>(page, f4, s4).
              case store_buf dst2 page (f4, s4) of (f5, s5) \<Rightarrow>
              if sc_strict sc
              then res_bind (file_check sc (fe_step env) ''destination_check'' dst2 (f5, s5)) (\<lambda>(errors, f6, s6).
                     Inr (f6\<lparr>fi_pc := FReadBack i (result \<and> errors = 0) dst2\<rparr>, s6))
              else Inr (f5\<lparr>fi_pc := FReadBack i result dst2\<rparr>, s5))))"

section \<open>The work loop\<close>

text \<open>The start of \<open>Work\<close>: \<open>PagePrepare\<close>, \<open>OpenFile\<close> and the page records with their fresh patterns.\<close>

definition FileWork_start :: "file_env \<Rightarrow> nat \<Rightarrow> FileThread \<Rightarrow> FileThread" where
  "FileWork_start env disk_pages f =
     (case PagePrepare env f of (ok, f1) \<Rightarrow>
        if \<not> ok then f1\<lparr>fi_status := False, fi_pc := FDone False\<rparr>
        else if \<not> fe_opened env then f1\<lparr>fi_status := False, fi_pages_copied := 0, fi_pc := FDone False\<rparr>
        else f1\<lparr>fi_pass := 0, fi_recs := replicate disk_pages \<lparr>pr_pattern = None, pr_src = 0, pr_dst = 0\<rparr>, fi_pc := FHead\<rparr>)"

definition file_step :: "settings \<Rightarrow> nat \<Rightarrow> file_env \<Rightarrow> FileThread \<times> sat \<Rightarrow> (FileThread \<times> sat) res" where
  "file_step sc disk_pages env = (\<lambda>(f, s).
     case fi_pc f of
       FStart \<Rightarrow> Inr (FileWork_start env disk_pages f, s)
     | FHead \<Rightarrow> Inr (f\<lparr>fi_pc := (if se_ready (fe_step env) \<and> \<not> error_stop_requested sc s then FWrite 0 else FEnd)\<rparr>, s)
     | FWrite i \<Rightarrow>
         if i < disk_pages
         then res_bind (get_valid sc (fe_step env) kDontCareTag s) (\<lambda>(r, s'). Inr (case r of
                None \<Rightarrow> (f\<lparr>fi_pc := FEnd\<rparr>, s')
              | Some pe \<Rightarrow> (f\<lparr>fi_pc := (if fi_page_io f then FHaveSrc i pe else FCopyLocal i pe)\<rparr>, s')))
         else Inr (f\<lparr>fi_pc := (if fe_flush env then FRead 0 True else FEnd)\<rparr>, s)
     | FCopyLocal i tmp \<Rightarrow>
         res_bind (copy_local sc env tmp (f, s)) (\<lambda>(src, f', s'). Inr (f'\<lparr>fi_pc := FPutBack i tmp src\<rparr>, s'))
     | FPutBack i tmp src \<Rightarrow>
         res_bind (put_valid sc (fe_step env) tmp s) (\<lambda>(ok, s').
           Inr (f\<lparr>fi_pc := (if ok then FHaveSrc i src else FEnd)\<rparr>, s'))
     | FHaveSrc i src \<Rightarrow> write_process sc env i src (f, s)
     | FWritten i ok src \<Rightarrow>
         res_bind (PutEmptyPage sc env src f s) (\<lambda>(put, s').
           Inr (f\<lparr>fi_pc := (if put \<and> ok then FWrite (i + 1) else FEnd)\<rparr>, s'))
     | FRead i result \<Rightarrow>
         if i < disk_pages
         then res_bind (GetEmptyPage sc env f s) (\<lambda>(r, s'). Inr (case r of
                None \<Rightarrow> (f\<lparr>fi_pc := FEnd\<rparr>, s')
              | Some pe \<Rightarrow> (f\<lparr>fi_pc := FHaveDst i result pe\<rparr>, s')))
         else if result then Inr (f\<lparr>fi_loops := fi_loops f + 1, fi_pass := fi_loops f + 1, fi_pc := FHead\<rparr>, s)
         else Inr (f\<lparr>fi_pc := FEnd\<rparr>, s)
     | FHaveDst i result pe \<Rightarrow> read_process sc env i result pe (f, s)
     | FReadFailed pe \<Rightarrow>
         res_bind (PutEmptyPage sc env pe f s) (\<lambda>(put, s'). Inr (f\<lparr>fi_pc := FEnd\<rparr>, s'))
     | FReadBack i result pe \<Rightarrow>
         res_bind (PutValidPage sc env pe f s) (\<lambda>(put, s').
           Inr (f\<lparr>fi_pc := (if put then FRead (i + 1) result else FEnd)\<rparr>, s'))
     | FEnd \<Rightarrow> Inr (f\<lparr>fi_pages_copied := fi_loops f * int disk_pages, fi_status := True, fi_pc := FDone True\<rparr>, s)
     | FDone ok \<Rightarrow> Inr (f, s))"

end
