(* ===== verification/FileTest.thy ===== *)
theory FileTest
  imports FileThread
begin

text \<open>
  Correctness of the file worker. Tagging a page and validating it restores it; data written with another tag is counted sector by
  sector; and with a file that returns what was written, file workers and memory workers, in any interleaving, report no error and
  lose no page.
\<close>

section \<open>Sector tags\<close>

lemma word_to_tag_to_word [simp]: "word_to_tag (tag_to_word t) = t"
proof -
  have "ucast (tag_to_word t) = tg_magic t" "ucast (drop_bit 8 (tag_to_word t)) = tg_block t"
    "ucast (drop_bit 16 (tag_to_word t)) = tg_sector t" "ucast (drop_bit 24 (tag_to_word t)) = tg_pass t"
    by (rule bit_eqI; auto simp: tag_to_word_def bit_simps dest: bit_imp_le_length)+
  then show ?thesis by (simp add: word_to_tag_def)
qed

lemma set_low_simps [simp]: "l32_l (set_low x w) = x" "l32_h (set_low x w) = l32_h w" "set_low y (set_low x w) = set_low y w"
  "set_low (l32_l w) w = w"
  by (simp_all add: set_low_def)

text \<open>Changing the first word of the sectors from \<open>lo\<close> up to \<open>hi\<close>.\<close>

definition at_sectors :: "(nat \<Rightarrow> u64 \<Rightarrow> u64) \<Rightarrow> nat \<Rightarrow> nat \<Rightarrow> u64 list \<Rightarrow> u64 list" where
  "at_sectors g lo hi page = map (\<lambda>i. if i mod 64 = 0 \<and> lo \<le> i div 64 \<and> i div 64 < hi then g (i div 64) (page ! i) else page ! i) [0..<length page]"

lemma length_at_sectors [simp]: "length (at_sectors g lo hi page) = length page"
  by (simp add: at_sectors_def)

lemma nth_at_sectors:
  "i < length page \<Longrightarrow> at_sectors g lo hi page ! i = (if i mod 64 = 0 \<and> lo \<le> i div 64 \<and> i div 64 < hi then g (i div 64) (page ! i) else page ! i)"
  by (simp add: at_sectors_def)

lemma at_sectors_empty [simp]: "at_sectors g lo lo page = page"
  by (rule nth_equalityI) (auto simp: nth_at_sectors)

lemma at_sectors_step:
  assumes "64 * lo < length page" "lo < hi"
  shows "at_sectors g (Suc lo) hi (page[64 * lo := g lo (page ! (64 * lo))]) = at_sectors g lo hi page"
proof (rule nth_equalityI)
  fix i assume "i < length (at_sectors g (Suc lo) hi (page[64 * lo := g lo (page ! (64 * lo))]))"
  then have i: "i < length page" by simp
  show "at_sectors g (Suc lo) hi (page[64 * lo := g lo (page ! (64 * lo))]) ! i = at_sectors g lo hi page ! i"
  proof (cases "i = 64 * lo")
    case True
    then show ?thesis using assms by (simp add: nth_at_sectors)
  next
    case False
    then have "i mod 64 = 0 \<Longrightarrow> lo \<le> i div 64 \<Longrightarrow> Suc lo \<le> i div 64" by auto
    then show ?thesis using i False by (auto simp: nth_at_sectors)
  qed
qed simp

lemma tag_sectors_eq:
  "64 * (sec + n) \<le> length page \<Longrightarrow>
   tag_sectors f block n sec page = Inr (at_sectors (\<lambda>sec. set_low (tag_to_word (expected_tag f block sec))) sec (sec + n) page)"
proof (induction n arbitrary: sec page)
  case (Suc n)
  then show ?case using at_sectors_step [of sec page "sec + Suc n"] by simp
qed simp

definition bad_report :: "FileThread \<Rightarrow> PageRec \<Rightarrow> int \<Rightarrow> u64 list \<Rightarrow> nat \<Rightarrow> nat \<times> (u8 \<times> int \<times> u8 \<times> u64 \<times> u64)" where
  "bad_report f rec block page sec =
     (let tag = word_to_tag (l32_l (page ! (64 * sec)))
      in (sec, tg_block tag, tag_offset (expected_tag f block sec) tag sec, tg_sector tag, pr_src rec, pr_dst rec))"

definition bad_sector :: "FileThread \<Rightarrow> int \<Rightarrow> u64 list \<Rightarrow> nat \<Rightarrow> bool" where
  "bad_sector f block page sec \<longleftrightarrow> word_to_tag (l32_l (page ! (64 * sec))) \<noteq> expected_tag f block sec"

lemma validate_sectors_eq:
  "64 * (sec + n) \<le> length page \<Longrightarrow>
   validate_sectors f p rec block n sec page =
     Inr (map (bad_report f rec block page) (filter (bad_sector f block page) [sec..<sec + n]),
          at_sectors (\<lambda>sec. set_low (pattern p (of_nat (128 * sec)))) sec (sec + n) page)"
proof (induction n arbitrary: sec page)
  case (Suc n)
  let ?g = "\<lambda>sec. set_low (pattern p (of_nat (128 * sec)))"
  let ?page = "page[64 * sec := ?g sec (page ! (64 * sec))]"
  have same: "bad_report f rec block ?page k = bad_report f rec block page k" "bad_sector f block ?page k = bad_sector f block page k"
    if "k \<in> set [Suc sec..<sec + Suc n]" for k
    using that by (auto simp: bad_report_def bad_sector_def)
  have "map (bad_report f rec block ?page) (filter (bad_sector f block ?page) [Suc sec..<sec + Suc n]) =
      map (bad_report f rec block page) (filter (bad_sector f block page) [Suc sec..<sec + Suc n])"
    using same by (intro map_cong filter_cong) (auto simp del: upt_Suc)
  then have "validate_sectors f p rec block n (sec + 1) ?page =
      Inr (map (bad_report f rec block page) (filter (bad_sector f block page) [Suc sec..<sec + Suc n]), at_sectors ?g sec (sec + Suc n) page)"
    using Suc.IH [of "sec + 1" ?page] Suc.prems at_sectors_step [of sec page "sec + Suc n" ?g] by simp
  moreover have "[sec..<sec + Suc n] = sec # [Suc sec..<sec + Suc n]" by (simp add: upt_conv_Cons del: upt_Suc)
  ultimately show ?case
    using Suc.prems by (simp add: Let_def bad_sector_def [of f block page sec] bad_report_def [of f rec block page sec] del: upt_Suc)
qed simp

text \<open>The 32-bit words of a page; the words that are rewritten after a tag error.\<close>

definition half :: "u64 list \<Rightarrow> nat \<Rightarrow> u32" where
  "half page j = (if even j then l32_l (page ! (j div 2)) else l32_h (page ! (j div 2)))"

lemma nth_halves: "page ! k = l64_of (half page (2 * k)) (half page (2 * k + 1))"
  by (simp add: half_def)

lemma half_update:
  assumes "i div 2 < length page"
  shows "half (page[i div 2 := if even i then l64_of x (l32_h (page ! (i div 2))) else l64_of (l32_l (page ! (i div 2))) x]) j =
    (if j = i then x else half page j)"
proof (cases "j div 2 = i div 2")
  case True
  then have "j = i \<longleftrightarrow> (even j \<longleftrightarrow> even i)" by (auto elim!: evenE oddE)
  then show ?thesis using assms True by (simp add: half_def)
next
  case False
  then show ?thesis by (auto simp: half_def)
qed

lemma refill_words_eq:
  "i + n \<le> 2 * length page \<Longrightarrow> \<exists>page'. refill_words p n i page = Inr page' \<and> length page' = length page \<and>
     (\<forall>j. half page' j = (if i \<le> j \<and> j < i + n then pattern p (of_nat j) else half page j))"
proof (induction n arbitrary: i page)
  case (Suc n)
  have i: "i div 2 < length page" using Suc.prems by linarith
  let ?page = "page[i div 2 := if even i then l64_of (pattern p (of_nat i)) (l32_h (page ! (i div 2)))
    else l64_of (l32_l (page ! (i div 2))) (pattern p (of_nat i))]"
  have "\<exists>page'. refill_words p n (i + 1) ?page = Inr page' \<and> length page' = length page \<and>
     (\<forall>j. half page' j = (if i + 1 \<le> j \<and> j < i + 1 + n then pattern p (of_nat j) else half ?page j))"
    using Suc.IH [of "i + 1" ?page] Suc.prems by simp
  then obtain page' where r: "refill_words p n (i + 1) ?page = Inr page'" "length page' = length page"
    and h: "\<And>j. half page' j = (if i + 1 \<le> j \<and> j < i + 1 + n then pattern p (of_nat j) else if j = i then pattern p (of_nat i) else half page j)"
    unfolding half_update [OF i] by blast
  have "half page' j = (if i \<le> j \<and> j < i + Suc n then pattern p (of_nat j) else half page j)" for j
    using h [of j] by auto
  then show ?case using i r by (intro exI [of _ page']) simp
qed auto

lemma refill_words_page:
  assumes "length page = 2 * m"
  shows "refill_words p (2 * m) 0 page = Inr (map (\<lambda>k. if k < m then pattern_word p k else page ! k) [0..<2 * m])"
proof -
  obtain page' where r: "refill_words p (2 * m) 0 page = Inr page'" "length page' = length page"
    and h: "\<And>j. half page' j = (if j < 2 * m then pattern p (of_nat j) else half page j)"
    using refill_words_eq [of 0 "2 * m" page p] assms by auto
  have "page' ! k = (if k < m then pattern_word p k else page ! k)" for k
    using nth_halves [of page' k] nth_halves [of page k] h [of "2 * k"] h [of "2 * k + 1"] by (simp add: pattern_word_def)
  then have "page' = map (\<lambda>k. if k < m then pattern_word p k else page ! k) [0..<2 * m]"
    using r(2) assms by (intro nth_equalityI) auto
  then show ?thesis using r(1) by simp
qed

section \<open>A page through the file\<close>

definition tagged_data :: "settings \<Rightarrow> FileThread \<Rightarrow> int \<Rightarrow> u64 list \<Rightarrow> u64 list" where
  "tagged_data sc f block page = at_sectors (\<lambda>sec. set_low (tag_to_word (expected_tag f block sec))) 0 (sectors sc) page"

definition untagged :: "settings \<Rightarrow> Pattern \<Rightarrow> u64 list \<Rightarrow> u64 list" where
  "untagged sc p page = at_sectors (\<lambda>sec. set_low (pattern p (of_nat (128 * sec)))) 0 (sectors sc) page"

lemma sectors_le: "length page = page_words sc \<Longrightarrow> 64 * sectors sc \<le> length page"
  by (simp add: sectors_def page_words_def)

lemma SectorTagPage_eq:
  "length page = page_words sc \<Longrightarrow> SectorTagPage sc f block page = Inr (tagged_data sc f block page)"
  using tag_sectors_eq [of 0 "sectors sc" page f block] sectors_le [of page sc] by (simp add: SectorTagPage_def tagged_data_def)

lemma length_tagged [simp]: "length (tagged_data sc f block page) = length page" "length (untagged sc p page) = length page"
  by (simp_all add: tagged_data_def untagged_def)

abbreviation bad_sectors :: "settings \<Rightarrow> FileThread \<Rightarrow> int \<Rightarrow> u64 list \<Rightarrow> nat list" where
  "bad_sectors sc f block page \<equiv> filter (bad_sector f block page) [0..<sectors sc]"

text \<open>After a tag error only the first half of the page gets its pattern back.\<close>

definition half_restored :: "settings \<Rightarrow> Pattern \<Rightarrow> u64 list \<Rightarrow> u64 list" where
  "half_restored sc p page = map (\<lambda>i. if i < page_words sc div 2 then pattern_word p i else untagged sc p page ! i) [0..<page_words sc]"

lemma refill_bad_eq:
  assumes "length page = page_words sc" "even (page_words sc)" "0 < cf_page_length (sc_cfg sc)" "bad \<noteq> []" "hd bad \<le> last bad"
    "cf_page_length (sc_cfg sc) = 8 * int (page_words sc)"
  shows "refill_bad sc p block bad page =
    Inr (map (\<lambda>k. if k < page_words sc div 2 then pattern_word p k else page ! k) [0..<page_words sc])"
proof -
  have "(block * cf_page_length (sc_cfg sc) div 512 + int (hd bad)) * 512 div cf_page_length (sc_cfg sc)
      \<le> (block * cf_page_length (sc_cfg sc) div 512 + int (last bad)) * 512 div cf_page_length (sc_cfg sc)"
    using assms(3,5) by (intro zdiv_mono1) simp_all
  moreover have "nat (cf_page_length (sc_cfg sc)) div 8 = 2 * (page_words sc div 2)"
    using assms(2) by (simp add: page_words_def)
  moreover have "refill_words p (2 * (page_words sc div 2)) 0 page =
      Inr (map (\<lambda>k. if k < page_words sc div 2 then pattern_word p k else page ! k) [0..<page_words sc])"
    using refill_words_page [of page "page_words sc div 2" p] assms(1,2) by simp
  ultimately show ?thesis by (simp add: refill_bad_def Let_def)
qed

lemma sorted_hd_last: "sorted xs \<Longrightarrow> xs \<noteq> [] \<Longrightarrow> hd xs \<le> last (xs :: nat list)"
  by (cases xs) auto

definition after_tag_errors :: "settings \<Rightarrow> FileThread \<Rightarrow> PageRec \<Rightarrow> int \<Rightarrow> u64 list \<Rightarrow> FileThread" where
  "after_tag_errors sc f rec block page = f\<lparr>fi_errorcount := fi_errorcount f + int (length (bad_sectors sc f block page)),
     fi_tag_errors := fi_tag_errors f @ map (snd \<circ> bad_report f rec block page) (bad_sectors sc f block page)\<rparr>"

lemma SectorValidatePage_eq:
  assumes "length page = page_words sc" "even (page_words sc)" "0 < cf_page_length (sc_cfg sc)"
    "cf_page_length (sc_cfg sc) = 8 * int (page_words sc)" "\<not> sc_error_injection sc"
    and pat: "pattern_of (patterns (sat_patternlist s)) dst = Inr k"
  defines "p \<equiv> patterns (sat_patternlist s) ! k"
  shows "SectorValidatePage sc calls rec dst block page (f, s) =
    (if bad_sectors sc f block page = [] then Inr (untagged sc p page, f, s)
     else Inr (half_restored sc p page, after_tag_errors sc f rec block page,
               if cf_stop_on_error (sc_cfg sc) then s\<lparr>sat_shared := (sat_shared s)\<lparr>w_stop := True\<rparr>\<rparr> else s))"
proof -
  let ?bad = "bad_sectors sc f block page"
  have val: "validate_sectors f p rec block (sectors sc) 0 page = Inr (map (bad_report f rec block page) ?bad, untagged sc p page)"
    using validate_sectors_eq [of 0 "sectors sc" page] sectors_le [OF assms(1)] by (simp add: untagged_def)
  have fst: "map fst (map (bad_report f rec block page) ?bad) = ?bad"
    by (simp add: bad_report_def Let_def map_idI)
  show ?thesis
  proof (cases "?bad = []")
    case True
    then show ?thesis using val pat assms(5) unfolding p_def by (simp add: SectorValidatePage_def inject_tags_def Let_def)
  next
    case False
    have "sorted ?bad" by (simp add: sorted_wrt_filter)
    then have "refill_bad sc p block ?bad (untagged sc p page) = Inr (half_restored sc p page)"
      using refill_bad_eq [of "untagged sc p page" sc ?bad p block] assms(1-4) False sorted_hd_last [of ?bad]
      by (simp add: half_restored_def)
    then show ?thesis
      using val pat assms(5) False fst
      by (simp add: SectorValidatePage_def inject_tags_def Let_def after_tag_errors_def flip: p_def)
  qed
qed

lemma nth_tagged_sector:
  assumes "length page = page_words sc" "sec < sectors sc"
  shows "tagged_data sc f block page ! (64 * sec) = set_low (tag_to_word (expected_tag f block sec)) (page ! (64 * sec))"
  using assms sectors_le [OF assms(1)] by (simp add: tagged_data_def nth_at_sectors)

lemma bad_sector_tagged:
  assumes "length page = page_words sc" "sec < sectors sc"
  shows "bad_sector f block (tagged_data sc g block' page) sec \<longleftrightarrow> expected_tag g block' sec \<noteq> expected_tag f block sec"
  using nth_tagged_sector [OF assms] by (simp add: bad_sector_def)

lemma untagged_tagged:
  assumes "length page = page_words sc" "\<And>sec. sec < sectors sc \<Longrightarrow> l32_l (page ! (64 * sec)) = pattern p (of_nat (128 * sec))"
  shows "untagged sc p (tagged_data sc f block page) = page"
proof (rule nth_equalityI)
  fix i assume "i < length (untagged sc p (tagged_data sc f block page))"
  then have i: "i < length page" by simp
  show "untagged sc p (tagged_data sc f block page) ! i = page ! i"
  proof (cases "i mod 64 = 0 \<and> i div 64 < sectors sc")
    case True
    then have "64 * (i div 64) = i" by auto
    then have "l32_l (page ! i) = pattern p (of_nat (128 * (i div 64)))" using assms(2) [of "i div 64"] True by simp
    then have "set_low (pattern p (of_nat (128 * (i div 64)))) (page ! i) = page ! i" by (metis set_low_simps(4))
    then show ?thesis using i True by (simp add: untagged_def tagged_data_def nth_at_sectors)
  qed (auto simp: untagged_def tagged_data_def nth_at_sectors i)
qed simp

lemma plain_page_data:
  assumes "\<not> cf_tag_mode (sc_cfg sc)" "i < page_words sc"
  shows "page_data (sc_cfg sc) p a ! i = pattern_word p i"
  using assms by (simp add: page_data_def page_words_def fill_word_def)

lemma page_data_sector:
  assumes "\<not> cf_tag_mode (sc_cfg sc)" "sec < sectors sc"
  shows "l32_l (page_data (sc_cfg sc) p a ! (64 * sec)) = pattern p (of_nat (128 * sec))"
proof -
  have "64 * sec < page_words sc" using assms(2) sectors_le [OF length_page_data, of sc p a] by (simp add: length_page_data)
  then show ?thesis using plain_page_data [OF assms(1)] by (simp add: pattern_word_def)
qed

section \<open>The invariant of a file worker\<close>

fun file_held :: "file_pc \<Rightarrow> page_entry list" where
  "file_held (FHaveSrc i pe) = [pe]"
| "file_held (FWritten i ok pe) = [pe]"
| "file_held (FHaveDst i result pe) = [pe]"
| "file_held (FReadBack i result pe) = [pe]"
| "file_held _ = []"

definition file_offsets :: "FileThread \<Rightarrow> u64 multiset" where
  "file_offsets f = image_mset pe_offset (mset (file_held (fi_pc f)))"

text \<open>The page \<open>j\<close> of the file carries the recorded pattern under the tags of this worker, this block and this pass.\<close>

definition rec_ok :: "settings \<Rightarrow> Pattern list \<Rightarrow> FileThread \<Rightarrow> nat \<Rightarrow> bool" where
  "rec_ok sc pats f j \<longleftrightarrow> j < length (fi_file f) \<and> (\<exists>k<length pats. pr_pattern (fi_recs f ! j) = Some k \<and>
     fi_file f ! j = tagged_data sc f (int j) (page_data (sc_cfg sc) (pats ! k) 0))"

fun file_pc_ok :: "settings \<Rightarrow> nat \<Rightarrow> Pattern list \<Rightarrow> u64 list \<Rightarrow> FileThread \<Rightarrow> file_pc \<Rightarrow> bool" where
  "file_pc_ok sc n pats mem f (FWrite i) \<longleftrightarrow> i \<le> n \<and> (\<forall>j<i. rec_ok sc pats f j)"
| "file_pc_ok sc n pats mem f (FHaveSrc i pe) \<longleftrightarrow> i < n \<and> (\<forall>j<i. rec_ok sc pats f j) \<and> holds sc pats mem pe"
| "file_pc_ok sc n pats mem f (FWritten i ok pe) \<longleftrightarrow> i < n \<and> ok \<and> (\<forall>j\<le>i. rec_ok sc pats f j)"
| "file_pc_ok sc n pats mem f (FRead i result) \<longleftrightarrow> i \<le> n \<and> result \<and> (\<forall>j<n. rec_ok sc pats f j)"
| "file_pc_ok sc n pats mem f (FHaveDst i result pe) \<longleftrightarrow> i < n \<and> result \<and> (\<forall>j<n. rec_ok sc pats f j)"
| "file_pc_ok sc n pats mem f (FReadBack i result pe) \<longleftrightarrow> i < n \<and> result \<and> (\<forall>j<n. rec_ok sc pats f j) \<and> holds sc pats mem pe"
| "file_pc_ok sc n pats mem f (FCopyLocal i tmp) \<longleftrightarrow> False"
| "file_pc_ok sc n pats mem f (FPutBack i tmp src) \<longleftrightarrow> False"
| "file_pc_ok sc n pats mem f (FReadFailed pe) \<longleftrightarrow> False"
| "file_pc_ok sc n pats mem f _ \<longleftrightarrow> True"

definition file_ok :: "settings \<Rightarrow> nat \<Rightarrow> nat \<Rightarrow> Pattern list \<Rightarrow> u64 list \<Rightarrow> FileThread \<Rightarrow> bool" where
  "file_ok sc N n pats mem f \<longleftrightarrow> (fi_pc f \<noteq> FStart \<and> (\<forall>b. fi_pc f \<noteq> FDone b) \<longrightarrow> fi_page_io f \<and> length (fi_recs f) = n) \<and>
     (\<forall>pe \<in> set (file_held (fi_pc f)). mapped sc N pe) \<and> file_pc_ok sc n pats mem f (fi_pc f)"

text \<open>How many steps the worker has left when it is told to stop: it finishes its pass.\<close>

fun file_left :: "nat \<Rightarrow> file_pc \<Rightarrow> nat" where
  "file_left n (FDone b) = 0"
| "file_left n FEnd = 1"
| "file_left n FHead = 2"
| "file_left n (FRead i result) = 3 * (n - i) + 3"
| "file_left n (FReadBack i result pe) = 3 * (n - i) + 1"
| "file_left n (FHaveDst i result pe) = 3 * (n - i) + 2"
| "file_left n (FWrite i) = 3 * (n - i) + 3 * n + 4"
| "file_left n (FWritten i ok pe) = 3 * (n - i) + 3 * n + 2"
| "file_left n (FHaveSrc i pe) = 3 * (n - i) + 3 * n + 3"
| "file_left n FStart = 3"
| "file_left n _ = 0"

text \<open>
  The answers a sound system gives: the pages can be used for I/O, writes and reads are complete, and a read returns what was written
  at that position.
\<close>

definition file_io_ok :: "settings \<Rightarrow> FileThread \<Rightarrow> file_env \<Rightarrow> bool" where
  "file_io_ok sc f env \<longleftrightarrow> fe_normal_mem env \<and> fe_write env = cf_page_length (sc_cfg sc) \<and> fe_read env = cf_page_length (sc_cfg sc) \<and>
     (case fi_pc f of FHaveDst i result pe \<Rightarrow> fe_buffer env = fi_file f ! i | _ \<Rightarrow> True)"

definition file_pre :: "settings \<Rightarrow> nat \<Rightarrow> nat \<Rightarrow> u64 multiset \<Rightarrow> FileThread \<Rightarrow> sat \<Rightarrow> bool" where
  "file_pre sc N n Others f s \<longleftrightarrow> pool_inv (all_pages sc N) (sat_pool s) (file_offsets f + Others) \<and>
     shared_ok sc N False s \<and> file_ok sc N n (patterns (sat_patternlist s)) (sat_mem s) f"

definition file_frame :: "settings \<Rightarrow> nat \<Rightarrow> file_env \<Rightarrow> u64 multiset \<Rightarrow> FileThread \<Rightarrow> sat \<Rightarrow> FileThread \<Rightarrow> sat \<Rightarrow> bool" where
  "file_frame sc n env Others f s f' s' \<longleftrightarrow>
     (\<forall>pe. pe_offset pe \<in># Others \<longrightarrow> load_page sc pe (sat_mem s') = load_page sc pe (sat_mem s)) \<and>
     patterns (sat_patternlist s') = patterns (sat_patternlist s) \<and> sat_shared s' = sat_shared s \<and>
     fi_errorcount f' = fi_errorcount f \<and> fi_tag_errors f' = fi_tag_errors f \<and>
     (\<not> se_ready (fe_step env) \<longrightarrow> file_left n (fi_pc f') \<le> file_left n (fi_pc f) - 1)"

abbreviation file_good :: "settings \<Rightarrow> nat \<Rightarrow> nat \<Rightarrow> file_env \<Rightarrow> u64 multiset \<Rightarrow> FileThread \<Rightarrow> sat \<Rightarrow> (FileThread \<times> sat) res \<Rightarrow> bool" where
  "file_good sc N n env Others f s r \<equiv>
     \<exists>f' s'. r = Inr (f', s') \<and> file_pre sc N n Others f' s' \<and> file_frame sc n env Others f s f' s'"

lemmas file_defs = file_pre_def file_frame_def file_ok_def file_offsets_def

lemma rec_ok_cong:
  "fi_num g = fi_num f \<Longrightarrow> fi_pass g = fi_pass f \<Longrightarrow> fi_recs g = fi_recs f \<Longrightarrow> fi_file g = fi_file f \<Longrightarrow> rec_ok sc pats g = rec_ok sc pats f"
  by (simp add: rec_ok_def fun_eq_iff tagged_data_def expected_tag_def tag_magic_def)

lemma rec_ok_pc [simp]: "rec_ok sc pats (f\<lparr>fi_pc := pc\<rparr>) = rec_ok sc pats f"
  by (rule rec_ok_cong) simp_all

lemma file_pc_ok_pc [simp]: "file_pc_ok sc n pats mem (f\<lparr>fi_pc := pc'\<rparr>) pc = file_pc_ok sc n pats mem f pc"
  by (cases pc) simp_all

lemma plain_tagged_page: "\<not> cf_tag_mode (sc_cfg sc) \<Longrightarrow> tagged_page sc mem pe"
  by (simp add: tagged_page_def is_tag_def)

lemma file_check_good:
  assumes "shared_ok sc N False s" "mapped sc N pe" "holds sc (patterns (sat_patternlist s)) (sat_mem s) pe" "fi_page_io f"
  shows "file_check sc env phase pe (f, s) = Inr (0, f, s)"
proof -
  have geo: "geometry sc N (sat_mem s)" and pl: "pl_ok (sat_patternlist s)" using assms(1) by (simp_all add: shared_ok_def)
  note ok = holds_page_ok [OF geo assms(2) pl assms(3)]
  have "pe_offset pe \<in># all_pages sc N" using assms(2) by (simp add: mapped_def)
  note same = store_load_same [OF page_fits [OF geo this]]
  show ?thesis
    using CrcCheckPage_clean [of "now_cfg sc env" "patterns (sat_patternlist s)" pe "''file''" phase "file_worker f s"] ok same assms(4)
    by (simp add: file_check_def load_buf_def store_buf_def from_file_worker_def file_worker_def)
qed

lemma nth_file_put: "i \<le> length xs \<Longrightarrow> j \<le> i \<Longrightarrow> file_put i x xs ! j = (if j = i then x else xs ! j)"
  by (auto simp: file_put_def nth_append)

lemma length_file_put: "i \<le> length xs \<Longrightarrow> i < length (file_put i x xs)"
  by (simp add: file_put_def)

lemma page_data_plain: "\<not> cf_tag_mode cfg \<Longrightarrow> page_data cfg p a = page_data cfg p 0"
  by (simp add: page_data_def fill_word_def)

lemma tagged_data_cong: "fi_num g = fi_num f \<Longrightarrow> fi_pass g = fi_pass f \<Longrightarrow> tagged_data sc g = tagged_data sc f"
  by (simp add: tagged_data_def fun_eq_iff expected_tag_def tag_magic_def)

lemma tagged_data_update [simp]:
  "tagged_data sc (f\<lparr>fi_recs := recs\<rparr>) = tagged_data sc f" "tagged_data sc (f\<lparr>fi_file := file\<rparr>) = tagged_data sc f"
  "tagged_data sc (f\<lparr>fi_pc := pc\<rparr>) = tagged_data sc f"
  by (rule tagged_data_cong; simp)+

lemma write_process_good:
  assumes plain: "\<not> cf_tag_mode (sc_cfg sc)" and io: "fe_write env = cf_page_length (sc_cfg sc)"
    and pre: "file_pre sc N n Others f s" and pc: "fi_pc f = FHaveSrc i src"
  shows "file_good sc N n env Others f s (write_process sc env i src (f, s))"
proof -
  let ?pats = "patterns (sat_patternlist s)"
  have inv: "pool_inv (all_pages sc N) (sat_pool s) (add_mset (pe_offset src) Others)" and ok: "shared_ok sc N False s"
    and src: "mapped sc N src" "holds sc ?pats (sat_mem s) src" and i: "i < n" "\<forall>j<i. rec_ok sc ?pats f j"
    and f: "fi_page_io f" "length (fi_recs f) = n"
    using pre pc by (simp_all add: file_defs)
  obtain k where k: "k < length ?pats" "pe_pattern src = Some k"
    "load_page sc src (sat_mem s) = page_data (sc_cfg sc) (?pats ! k) (page_addr sc (pe_offset src))"
    using src(2) by (auto simp: holds_def)
  define data where "data = page_data (sc_cfg sc) (?pats ! k) 0"
  have data: "load_page sc src (sat_mem s) = data" "length data = page_words sc"
    using k(3) page_data_plain [OF plain] by (simp_all add: data_def length_page_data)
  define recs where "recs = (fi_recs f)[i := (fi_recs f ! i)\<lparr>pr_pattern := pe_pattern src, pr_src := pe_addr src\<rparr>]"
  define page where "page = tagged_data sc f (int i) data"
  define mem where "mem = store_page src page (sat_mem s)"
  define f' where "f' = f\<lparr>fi_recs := recs, fi_file := file_put i page (fi_file f), fi_pc := FWritten i True src\<rparr>"
  have page: "length page = page_words sc" using data by (simp add: page_def)
  note store = store_ok [OF inv ok page, folded mem_def]
  have check: "file_check sc (fe_step env) ''source_check'' src (f\<lparr>fi_recs := recs\<rparr>, s) = Inr (0, f\<lparr>fi_recs := recs\<rparr>, s)"
    using ok src f by (intro file_check_good) simp_all
  have tag: "SectorTagPage sc (f\<lparr>fi_recs := recs\<rparr>) (int i) data = Inr page"
    using SectorTagPage_eq [OF data(2), of "f\<lparr>fi_recs := recs\<rparr>"] by (simp add: page_def)
  have step: "write_process sc env i src (f, s) = Inr (f', s\<lparr>sat_mem := mem\<rparr>)"
    using i f check tag io data(1) store(3)
    by (simp add: write_process_def Let_def load_buf_def store_buf_def WritePageToFile_def f'_def recs_def [symmetric] flip: mem_def)
  have len: "i \<le> length (fi_file f)"
  proof (cases i)
    case (Suc j)
    then show ?thesis using i(2) by (auto simp: rec_ok_def)
  qed simp
  have "rec_ok sc ?pats f' j" if "j \<le> i" for j
  proof (cases "j = i")
    case True
    then show ?thesis
      using k i f len length_file_put [OF len] nth_file_put [OF len, of i]
      by (auto simp: rec_ok_def f'_def recs_def page_def data_def)
  next
    case False
    then have "rec_ok sc ?pats f j" using i(2) that by simp
    then show ?thesis
      using False that nth_file_put [OF len that] length_file_put [OF len, of page]
      by (auto simp: rec_ok_def f'_def recs_def)
  qed
  then have pre': "file_pre sc N n Others f' (s\<lparr>sat_mem := mem\<rparr>)"
    using inv store(1) src(1) f i by (simp add: file_defs) (simp add: f'_def recs_def)
  have "file_frame sc n env Others f s f' (s\<lparr>sat_mem := mem\<rparr>)"
    using store(4) pc i by (simp add: file_frame_def f'_def)
  then show ?thesis using step pre' by blast
qed

lemma bad_sectors_none:
  assumes "length page = page_words sc" "fi_num g = fi_num f" "fi_pass g = fi_pass f"
  shows "bad_sectors sc g block (tagged_data sc f block page) = []"
  using bad_sector_tagged [OF assms(1)] assms(2,3) by (auto simp: filter_empty_conv expected_tag_def tag_magic_def)

lemma read_process_good:
  assumes plain: "\<not> cf_tag_mode (sc_cfg sc)" and inj: "\<not> sc_error_injection sc" and io: "file_io_ok sc f env"
    and pre: "file_pre sc N n Others f s" and pc: "fi_pc f = FHaveDst i result pe"
  shows "file_good sc N n env Others f s (read_process sc env i result pe (f, s))"
proof -
  let ?pats = "patterns (sat_patternlist s)"
  have inv: "pool_inv (all_pages sc N) (sat_pool s) (add_mset (pe_offset pe) Others)" and ok: "shared_ok sc N False s"
    and pe: "mapped sc N pe" and i: "i < n" "\<forall>j<n. rec_ok sc ?pats f j" "result"
    and f: "fi_page_io f" "length (fi_recs f) = n"
    using pre pc by (simp_all add: file_defs)
  have geo: "geometry sc N (sat_mem s)" using ok by (simp add: shared_ok_def)
  obtain k where k: "k < length ?pats" "pr_pattern (fi_recs f ! i) = Some k"
    "fi_file f ! i = tagged_data sc f (int i) (page_data (sc_cfg sc) (?pats ! k) 0)"
    using i by (auto simp: rec_ok_def)
  define data where "data = page_data (sc_cfg sc) (?pats ! k) 0"
  have data: "length data = page_words sc" by (simp add: data_def length_page_data)
  define page where "page = tagged_data sc f (int i) data"
  have page: "length page = page_words sc" "fe_buffer env = page" using data io pc k(3) by (simp_all add: page_def file_io_ok_def data_def)
  define rec' where "rec' = (fi_recs f ! i)\<lparr>pr_dst := pe_addr pe\<rparr>"
  define dst where "dst = pe\<lparr>pe_pattern := Some k, pe_lastcpu := se_cpu (fe_step env), pe_write_dram_frequency := se_frequency (fe_step env)\<rparr>"
  define f1 where "f1 = f\<lparr>fi_recs := (fi_recs f)[i := rec']\<rparr>"
  have dst: "mapped sc N dst" "load_page sc dst = load_page sc pe" "store_page dst = store_page pe" "pe_offset dst = pe_offset pe" "pe_pattern dst = Some k"
    using pe by (simp_all add: dst_def mapped_def load_page_def store_page_def page_start_def fun_eq_iff)
  note store1 = store_ok [OF inv ok page(1)]
  define mem where "mem = store_page pe page (sat_mem s)"
  obtain h where h: "note_file_write sc (fe_step env) (pe_offset dst) (f1, s\<lparr>sat_mem := mem\<rparr>) = s\<lparr>sat_mem := mem, sat_history := h\<rparr>"
    by (cases "fi_page_io f1 \<and> sc_diag_block_history sc") (auto simp: note_file_write_def intro: that [of "sat_history s"])
  let ?s = "s\<lparr>sat_mem := mem, sat_history := h\<rparr>"
  have bytes: "even (page_words sc)" "0 < cf_page_length (sc_cfg sc)" "cf_page_length (sc_cfg sc) = 8 * int (page_words sc)"
    using geometry_bytes(1,3,4) [OF geo] by (auto intro: dvd_trans [of 2 8])
  have pat: "pattern_of (patterns (sat_patternlist ?s)) dst = Inr k" using k(1) dst(5) by (simp add: pattern_of_def)
  have none: "bad_sectors sc f1 (int i) page = []"
    unfolding page_def by (rule bad_sectors_none [OF data]) (simp_all add: f1_def)
  have clean: "untagged sc (?pats ! k) page = data"
    unfolding page_def using page_data_sector [OF plain] by (intro untagged_tagged [OF data]) (simp add: data_def)
  have val: "SectorValidatePage sc (fe_calls env) rec' dst (int i) page (f1, ?s) = Inr (data, f1, ?s)"
    using SectorValidatePage_eq [OF page(1) bytes inj pat, of "fe_calls env" rec' "int i" f1] none clean by simp
  define mem2 where "mem2 = store_page pe data mem"
  have inv': "pool_inv (all_pages sc N) (sat_pool (s\<lparr>sat_mem := mem\<rparr>)) (add_mset (pe_offset pe) Others)" using inv by simp
  have ok': "shared_ok sc N False (s\<lparr>sat_mem := mem\<rparr>)" using store1(1) by (simp add: mem_def)
  note store2 = store_ok [OF inv' ok' data]
  let ?s2 = "s\<lparr>sat_mem := mem2, sat_history := h\<rparr>"
  have ok2: "shared_ok sc N False ?s2" using store2(1) by (simp add: shared_ok_def mem2_def)
  have holds2: "holds sc ?pats mem2 dst"
    using store2(3) k(1) dst(2,5) page_data_plain [OF plain, of _ "page_addr sc (pe_offset dst)"]
    by (auto simp: holds_def mem2_def data_def)
  have check: "file_check sc (fe_step env) ''destination_check'' dst (f1, ?s2) = Inr (0, f1, ?s2)"
    using ok2 dst(1) holds2 f by (intro file_check_good [where N = N]) (simp_all add: f1_def)
  define f' where "f' = f1\<lparr>fi_pc := FReadBack i True dst\<rparr>"
  have "ReadPageFromFile sc env (pe\<lparr>pe_pattern := Some k, pe_lastcpu := se_cpu (fe_step env)\<rparr>) (f1, s) = (True, dst, f1, s\<lparr>sat_mem := mem\<rparr>)"
    using io page(2) f by (simp add: ReadPageFromFile_def store_buf_def f1_def file_io_ok_def dst_def mem_def store_page_def page_start_def)
  moreover have "load_buf sc dst (f1, ?s) = page" using f store1(3) dst(2) by (simp add: load_buf_def f1_def mem_def)
  moreover have "store_buf dst data (f1, ?s) = (f1, ?s2)" using f dst(3) by (simp add: store_buf_def f1_def mem2_def)
  ultimately have step: "read_process sc env i result pe (f, s) = Inr (f', ?s2)"
    using i f k(2) h val check
    by (simp add: read_process_def Let_def f'_def rec'_def [symmetric] f1_def [symmetric])
  have recs: "rec_ok sc ?pats f' j" if "j < n" for j
  proof -
    have "rec_ok sc ?pats f j" using i(2) that by simp
    then show ?thesis using f(2) that i(1)
      by (cases "j = i") (auto simp: rec_ok_def f'_def f1_def rec'_def)
  qed
  have "file_pre sc N n Others f' ?s2"
    using inv ok2 dst(1,4) holds2 recs f i by (simp add: file_defs) (simp add: f'_def f1_def)
  moreover have "file_frame sc n env Others f s f' ?s2"
    using store1(4) store2(4) pc by (simp add: file_frame_def f'_def f1_def mem_def mem2_def)
  ultimately show ?thesis using step by blast
qed

lemma pages_left: "i < n \<Longrightarrow> n - i = Suc (n - Suc i)"
  by simp

lemma file_step_good:
  assumes plain: "\<not> cf_tag_mode (sc_cfg sc)" and inj: "\<not> sc_error_injection sc" and io: "file_io_ok sc f env"
    and pre: "file_pre sc N n Others f s"
  shows "file_good sc N n env Others f s (file_step sc n env (f, s))"
proof -
  have ok: "shared_ok sc N False s" using pre by (simp add: file_pre_def)
  show ?thesis
  proof (cases "fi_pc f")
    case FStart
    then show ?thesis using io pre
      by (auto simp: file_step_def FileWork_start_def PagePrepare_def file_io_ok_def file_defs)
  next
    case FHead
    then show ?thesis using pre by (simp add: file_step_def file_defs)
  next
    case (FWrite i)
    have inv: "pool_inv (all_pages sc N) (sat_pool s) Others" using pre FWrite by (simp add: file_defs)
    show ?thesis
    proof (cases "i < n")
      case True
      show ?thesis
      proof (rule get_valid_ok [OF inv ok, of "fe_step env" kDontCareTag])
        fix p assume "get_valid sc (fe_step env) kDontCareTag s = Inr (None, s\<lparr>sat_pool := p\<rparr>)" "pool_inv (all_pages sc N) p Others"
          "shared_ok sc N False (s\<lparr>sat_pool := p\<rparr>)"
        then show ?thesis using pre FWrite True by (simp add: file_step_def file_defs)
      next
        fix pe p assume "get_valid sc (fe_step env) kDontCareTag s = Inr (Some pe, s\<lparr>sat_pool := p\<rparr>)"
          "pool_inv (all_pages sc N) p (add_mset (pe_offset pe) Others)" "shared_ok sc N False (s\<lparr>sat_pool := p\<rparr>)"
          "mapped sc N pe" "holds sc (patterns (sat_patternlist s)) (sat_mem s) pe"
        then show ?thesis using pre FWrite True by (simp add: file_step_def file_defs)
      qed
    next
      case False
      then show ?thesis using pre FWrite by (simp add: file_step_def file_defs)
    qed
  next
    case (FHaveSrc i pe)
    then show ?thesis using write_process_good [OF plain _ pre FHaveSrc] io by (simp add: file_step_def file_io_ok_def)
  next
    case (FWritten i b pe)
    have inv: "pool_inv (all_pages sc N) (sat_pool s) (add_mset (pe_offset pe) Others)" using pre FWritten by (simp add: file_defs)
    obtain p where "put_empty sc (fe_step env) pe s = Inr (True, s\<lparr>sat_pool := p\<rparr>)" "pool_inv (all_pages sc N) p Others"
      "shared_ok sc N False (s\<lparr>sat_pool := p\<rparr>)" by (rule put_empty_ok [OF inv ok plain_tagged_page [OF plain]])
    then show ?thesis using pre FWritten pages_left [of i n] by (simp add: file_step_def file_defs PutEmptyPage_def less_Suc_eq_le)
  next
    case (FRead i result)
    have inv: "pool_inv (all_pages sc N) (sat_pool s) Others" using pre FRead by (simp add: file_defs)
    show ?thesis
    proof (cases "i < n")
      case True
      show ?thesis
      proof (rule get_empty_ok [OF inv ok, of "fe_step env" kDontCareTag])
        fix p assume "get_empty sc (fe_step env) kDontCareTag s = Inr (None, s\<lparr>sat_pool := p\<rparr>)" "pool_inv (all_pages sc N) p Others"
          "shared_ok sc N False (s\<lparr>sat_pool := p\<rparr>)"
        then show ?thesis using pre FRead True by (simp add: file_step_def file_defs GetEmptyPage_def)
      next
        fix pe p assume "get_empty sc (fe_step env) kDontCareTag s = Inr (Some pe, s\<lparr>sat_pool := p\<rparr>)"
          "pool_inv (all_pages sc N) p (add_mset (pe_offset pe) Others)" "shared_ok sc N False (s\<lparr>sat_pool := p\<rparr>)"
          "mapped sc N pe"
        then show ?thesis using pre FRead True by (simp add: file_step_def file_defs GetEmptyPage_def)
      qed
    next
      case False
      then show ?thesis using pre FRead by (simp add: file_step_def file_defs)
    qed
  next
    case (FHaveDst i result pe)
    then show ?thesis using read_process_good [OF plain inj io pre FHaveDst] by (simp add: file_step_def)
  next
    case (FReadBack i result pe)
    have inv: "pool_inv (all_pages sc N) (sat_pool s) (add_mset (pe_offset pe) Others)"
      and h: "holds sc (patterns (sat_patternlist s)) (sat_mem s) pe" using pre FReadBack by (simp_all add: file_defs)
    obtain p where "put_valid sc (fe_step env) pe s = Inr (True, s\<lparr>sat_pool := p\<rparr>)" "pool_inv (all_pages sc N) p Others"
      "shared_ok sc N False (s\<lparr>sat_pool := p\<rparr>)" by (rule put_valid_ok [OF inv ok h])
    then show ?thesis using pre FReadBack pages_left [of i n] by (simp add: file_step_def file_defs PutValidPage_def)
  qed (use pre in \<open>simp_all add: file_step_def file_defs\<close>)
qed

section \<open>File and memory workers together\<close>

datatype worker_event = MemStep nat step_env | FileStep nat file_env

fun run_mixed :: "settings \<Rightarrow> nat \<Rightarrow> worker_event list \<Rightarrow> thread list \<times> FileThread list \<times> sat \<Rightarrow> (thread list \<times> FileThread list \<times> sat) res" where
  "run_mixed sc n [] x = Inr x"
| "run_mixed sc n (MemStep i env # es) (ths, fs, s) =
     (if i < length ths
      then res_bind (thread_step sc env (ths ! i, s)) (\<lambda>(th, s'). run_mixed sc n es (ths[i := th], fs, s'))
      else run_mixed sc n es (ths, fs, s))"
| "run_mixed sc n (FileStep i env # es) (ths, fs, s) =
     (if i < length fs
      then res_bind (file_step sc n env (fs ! i, s)) (\<lambda>(f, s'). run_mixed sc n es (ths, fs[i := f], s'))
      else run_mixed sc n es (ths, fs, s))"

text \<open>Along a run, every answer of the system to a file worker is sound.\<close>

fun io_faithful :: "settings \<Rightarrow> nat \<Rightarrow> worker_event list \<Rightarrow> thread list \<times> FileThread list \<times> sat \<Rightarrow> bool" where
  "io_faithful sc n [] x \<longleftrightarrow> True"
| "io_faithful sc n (MemStep i env # es) (ths, fs, s) \<longleftrightarrow>
     (if i < length ths
      then case thread_step sc env (ths ! i, s) of Inl e \<Rightarrow> True | Inr (th, s') \<Rightarrow> io_faithful sc n es (ths[i := th], fs, s')
      else io_faithful sc n es (ths, fs, s))"
| "io_faithful sc n (FileStep i env # es) (ths, fs, s) \<longleftrightarrow>
     (if i < length fs
      then file_io_ok sc (fs ! i) env \<and>
        (case file_step sc n env (fs ! i, s) of Inl e \<Rightarrow> True | Inr (f, s') \<Rightarrow> io_faithful sc n es (ths, fs[i := f], s'))
      else io_faithful sc n es (ths, fs, s))"

definition all_files :: "FileThread list \<Rightarrow> u64 multiset" where
  "all_files fs = sum_list (map file_offsets fs)"

definition mixed_ok :: "settings \<Rightarrow> nat \<Rightarrow> nat \<Rightarrow> thread list \<times> FileThread list \<times> sat \<Rightarrow> bool" where
  "mixed_ok sc N n = (\<lambda>(ths, fs, s). pool_inv (all_pages sc N) (sat_pool s) (all_held ths + all_files fs) \<and> shared_ok sc N False s \<and>
     (\<forall>th \<in> set ths. thread_ok sc N False (patterns (sat_patternlist s)) (sat_mem s) th) \<and>
     (\<forall>f \<in> set fs. file_ok sc N n (patterns (sat_patternlist s)) (sat_mem s) f))"

text \<open>The pages of a list of workers, all but one of them, and what the list says of the pages of others.\<close>

lemma split_sum:
  assumes "i < length xs"
  shows "sum_list (map g xs) = g (xs ! i) + sum_list (map g (take i xs @ drop (Suc i) xs) :: u64 multiset list)"
  using assms by (subst id_take_nth_drop [of i xs]) (simp_all add: ac_simps)

lemma rest_update: "take i (xs[i := x]) @ drop (Suc i) (xs[i := x]) = take i xs @ drop (Suc i) xs"
  by simp

lemma in_rest: "t \<in> set (take i xs @ drop (Suc i) xs) \<Longrightarrow> t \<in> set xs"
  using in_set_takeD [of t i xs] in_set_dropD [of t "Suc i" xs] by auto

lemma in_update: "t \<in> set (xs[i := x]) \<Longrightarrow> i < length xs \<Longrightarrow> t = x \<or> t \<in> set (take i xs @ drop (Suc i) xs)"
  by (auto simp: upd_conv_take_nth_drop)

lemma in_sum: "t \<in> set xs \<Longrightarrow> x \<in># g t \<Longrightarrow> x \<in># sum_list (map g xs :: u64 multiset list)"
  by (auto simp: set_mset_sum_list)

lemma thread_ok_frame:
  assumes "\<And>pe. pe_offset pe \<in># held_offsets th \<Longrightarrow> load_page sc pe mem' = load_page sc pe mem"
  shows "thread_ok sc N fillp pats mem' th = thread_ok sc N fillp pats mem th"
  using assms by (intro thread_ok_cong) (auto simp: held_offsets_def)

lemma file_ok_frame:
  assumes "\<And>pe. pe_offset pe \<in># file_offsets f \<Longrightarrow> load_page sc pe mem' = load_page sc pe mem"
  shows "file_ok sc N n pats mem' f = file_ok sc N n pats mem f"
  using assms by (cases "fi_pc f") (simp_all add: file_ok_def file_offsets_def holds_def)

lemma mixed_mem_step:
  assumes sc: "settings_ok sc" and ok: "mixed_ok sc N n (ths, fs, s)" and i: "i < length ths"
  obtains th s' where "thread_step sc env (ths ! i, s) = Inr (th, s')" "mixed_ok sc N n (ths[i := th], fs, s')"
    "th_errorcount th = th_errorcount (ths ! i)" "sat_shared s' = sat_shared s" "th_kind th = th_kind (ths ! i)"
    "stopping sc env (ths ! i) \<longrightarrow> thread_left th \<le> thread_left (ths ! i) - 1"
proof -
  let ?rest = "take i ths @ drop (Suc i) ths"
  let ?others = "all_held ?rest + all_files fs"
  have pre: "step_pre sc N False ?others (ths ! i) s"
    using ok i split_sum [OF i, of held_offsets] by (auto simp: mixed_ok_def step_pre_def all_held_def ac_simps)
  obtain th s' where step: "thread_step sc env (ths ! i, s) = Inr (th, s')" "step_pre sc N False ?others th s'"
    "step_frame sc env ?others (ths ! i) s th s'"
    using thread_step_good [OF _ pre, of env] sc by blast
  have same: "patterns (sat_patternlist s') = patterns (sat_patternlist s)"
    "\<And>pe. pe_offset pe \<in># ?others \<Longrightarrow> load_page sc pe (sat_mem s') = load_page sc pe (sat_mem s)"
    using step(3) unfolding step_frame_def by blast+
  have "thread_ok sc N False (patterns (sat_patternlist s')) (sat_mem s') t" if t: "t \<in> set ?rest" for t
  proof -
    have "load_page sc pe (sat_mem s') = load_page sc pe (sat_mem s)" if "pe_offset pe \<in># held_offsets t" for pe
      using in_sum [where g = held_offsets, OF t that] by (intro same(2)) (simp add: all_held_def)
    from thread_ok_frame [OF this] show ?thesis using in_rest [OF t] same(1) ok by (simp add: mixed_ok_def)
  qed
  moreover have "file_ok sc N n (patterns (sat_patternlist s')) (sat_mem s') f" if f: "f \<in> set fs" for f
  proof -
    have "load_page sc pe (sat_mem s') = load_page sc pe (sat_mem s)" if "pe_offset pe \<in># file_offsets f" for pe
      using in_sum [where g = file_offsets, OF f that] by (intro same(2)) (simp add: all_files_def)
    from file_ok_frame [OF this] show ?thesis using f same(1) ok by (simp add: mixed_ok_def)
  qed
  ultimately have "mixed_ok sc N n (ths[i := th], fs, s')"
    using step(2) i in_update [of _ ths i th] split_sum [of i "ths[i := th]" held_offsets]
    by (auto simp: mixed_ok_def step_pre_def all_held_def ac_simps)
  then show thesis using that [of th s'] step(1,3) unfolding step_frame_def by metis
qed

lemma mixed_file_step:
  assumes plain: "\<not> cf_tag_mode (sc_cfg sc)" and inj: "\<not> sc_error_injection sc" and ok: "mixed_ok sc N n (ths, fs, s)"
    and i: "i < length fs" and io: "file_io_ok sc (fs ! i) env"
  obtains f s' where "file_step sc n env (fs ! i, s) = Inr (f, s')" "mixed_ok sc N n (ths, fs[i := f], s')"
    "fi_errorcount f = fi_errorcount (fs ! i)" "fi_tag_errors f = fi_tag_errors (fs ! i)" "sat_shared s' = sat_shared s"
    "\<not> se_ready (fe_step env) \<longrightarrow> file_left n (fi_pc f) \<le> file_left n (fi_pc (fs ! i)) - 1"
proof -
  let ?rest = "take i fs @ drop (Suc i) fs"
  let ?others = "all_held ths + all_files ?rest"
  have pre: "file_pre sc N n ?others (fs ! i) s"
    using ok i split_sum [OF i, of file_offsets] by (auto simp: mixed_ok_def file_pre_def all_files_def ac_simps)
  obtain f s' where step: "file_step sc n env (fs ! i, s) = Inr (f, s')" "file_pre sc N n ?others f s'"
    "file_frame sc n env ?others (fs ! i) s f s'"
    using file_step_good [OF plain inj io pre] by blast
  have same: "patterns (sat_patternlist s') = patterns (sat_patternlist s)"
    "\<And>pe. pe_offset pe \<in># ?others \<Longrightarrow> load_page sc pe (sat_mem s') = load_page sc pe (sat_mem s)"
    using step(3) unfolding file_frame_def by blast+
  have "thread_ok sc N False (patterns (sat_patternlist s')) (sat_mem s') t" if t: "t \<in> set ths" for t
  proof -
    have "load_page sc pe (sat_mem s') = load_page sc pe (sat_mem s)" if "pe_offset pe \<in># held_offsets t" for pe
      using in_sum [where g = held_offsets, OF t that] by (intro same(2)) (simp add: all_held_def)
    from thread_ok_frame [OF this] show ?thesis using t same(1) ok by (simp add: mixed_ok_def)
  qed
  moreover have "file_ok sc N n (patterns (sat_patternlist s')) (sat_mem s') g" if g: "g \<in> set ?rest" for g
  proof -
    have "load_page sc pe (sat_mem s') = load_page sc pe (sat_mem s)" if "pe_offset pe \<in># file_offsets g" for pe
      using in_sum [where g = file_offsets, OF g that] by (intro same(2)) (simp add: all_files_def)
    from file_ok_frame [OF this] show ?thesis using in_rest [OF g] same(1) ok by (simp add: mixed_ok_def)
  qed
  ultimately have "mixed_ok sc N n (ths, fs[i := f], s')"
    using step(2) i in_update [of _ fs i f] split_sum [of i "fs[i := f]" file_offsets]
    by (auto simp: mixed_ok_def file_pre_def all_files_def ac_simps)
  then show thesis using that [of f s'] step(1,3) by (simp add: file_frame_def)
qed

text \<open>The steps of one worker in a run, and whether it is told to stop in all of them.\<close>

fun mem_event :: "nat \<Rightarrow> worker_event \<Rightarrow> bool" where
  "mem_event i (MemStep j env) \<longleftrightarrow> j = i"
| "mem_event i (FileStep j env) \<longleftrightarrow> False"

fun file_event :: "nat \<Rightarrow> worker_event \<Rightarrow> bool" where
  "file_event i (FileStep j env) \<longleftrightarrow> j = i"
| "file_event i (MemStep j env) \<longleftrightarrow> False"

fun event_ready :: "worker_event \<Rightarrow> bool" where
  "event_ready (MemStep i env) = se_ready env"
| "event_ready (FileStep i env) = se_ready (fe_step env)"

abbreviation count_events :: "(worker_event \<Rightarrow> bool) \<Rightarrow> worker_event list \<Rightarrow> nat" where
  "count_events P es \<equiv> length (filter P es)"

definition mixed_result :: "settings \<Rightarrow> nat \<Rightarrow> nat \<Rightarrow> worker_event list \<Rightarrow> thread list \<times> FileThread list \<times> sat \<Rightarrow>
    thread list \<times> FileThread list \<times> sat \<Rightarrow> bool" where
  "mixed_result sc N n es = (\<lambda>(ths, fs, s) (ths', fs', s'). mixed_ok sc N n (ths', fs', s') \<and>
     map th_errorcount ths' = map th_errorcount ths \<and> map th_kind ths' = map th_kind ths \<and>
     map fi_errorcount fs' = map fi_errorcount fs \<and> map fi_tag_errors fs' = map fi_tag_errors fs \<and> sat_shared s' = sat_shared s \<and>
     ((\<forall>e \<in> set es. \<not> event_ready e) \<longrightarrow>
        (\<forall>i<length ths. stops sc (th_kind (ths ! i)) \<longrightarrow> thread_left (ths' ! i) \<le> thread_left (ths ! i) - count_events (mem_event i) es) \<and>
        (\<forall>i<length fs. file_left n (fi_pc (fs' ! i)) \<le> file_left n (fi_pc (fs ! i)) - count_events (file_event i) es)))"

lemma mixed_result_refl: "mixed_ok sc N n x \<Longrightarrow> mixed_result sc N n [] x x"
  by (cases x) (simp add: mixed_result_def)

lemma mixed_result_step:
  assumes one: "mixed_result sc N n [e] x y" and rest: "mixed_result sc N n es y z"
  shows "mixed_result sc N n (e # es) x z"
proof -
  obtain ths fs s ths1 fs1 s1 ths2 fs2 s2 where [simp]: "x = (ths, fs, s)" "y = (ths1, fs1, s1)" "z = (ths2, fs2, s2)"
    by (cases x; cases y; cases z) auto
  have kinds: "map th_kind ths1 = map th_kind ths" "map fi_errorcount fs1 = map fi_errorcount fs"
    using one by (simp_all add: mixed_result_def)
  then have len: "length ths1 = length ths" "length fs1 = length fs" by (metis length_map)+
  have kind: "th_kind (ths1 ! i) = th_kind (ths ! i)" if "i < length ths" for i
    using kinds(1) that len(1) by (metis nth_map)
  have m: "thread_left (ths2 ! i) \<le> thread_left (ths ! i) - count_events (mem_event i) (e # es)"
    if "\<forall>e \<in> set (e # es). \<not> event_ready e" "i < length ths" "stops sc (th_kind (ths ! i))" for i
  proof -
    have "stops sc (th_kind (ths1 ! i))" using that(2,3) kind [of i] by simp
    then have "thread_left (ths1 ! i) \<le> thread_left (ths ! i) - count_events (mem_event i) [e]"
      "thread_left (ths2 ! i) \<le> thread_left (ths1 ! i) - count_events (mem_event i) es"
      using one rest that len by (simp_all add: mixed_result_def)
    then show ?thesis by (simp split: if_splits)
  qed
  have f: "file_left n (fi_pc (fs2 ! i)) \<le> file_left n (fi_pc (fs ! i)) - count_events (file_event i) (e # es)"
    if "\<forall>e \<in> set (e # es). \<not> event_ready e" "i < length fs" for i
  proof -
    have "file_left n (fi_pc (fs1 ! i)) \<le> file_left n (fi_pc (fs ! i)) - count_events (file_event i) [e]"
      "file_left n (fi_pc (fs2 ! i)) \<le> file_left n (fi_pc (fs1 ! i)) - count_events (file_event i) es"
      using one rest that len by (simp_all add: mixed_result_def)
    then show ?thesis by (simp split: if_splits)
  qed
  show ?thesis using one rest m f by (simp add: mixed_result_def)
qed

lemma map_update_same: "i < length xs \<Longrightarrow> g x = g (xs ! i) \<Longrightarrow> map g (xs[i := x]) = map g xs"
  by (metis list_update_id map_update)

lemma mem_event_result:
  assumes sc: "settings_ok sc" and ok: "mixed_ok sc N n (ths, fs, s)" and i: "i < length ths"
  obtains th s' where "thread_step sc env (ths ! i, s) = Inr (th, s')" "mixed_ok sc N n (ths[i := th], fs, s')"
    "mixed_result sc N n [MemStep i env] (ths, fs, s) (ths[i := th], fs, s')"
proof -
  obtain th s' where step: "thread_step sc env (ths ! i, s) = Inr (th, s')" "mixed_ok sc N n (ths[i := th], fs, s')"
    "th_errorcount th = th_errorcount (ths ! i)" "sat_shared s' = sat_shared s" "th_kind th = th_kind (ths ! i)"
    "stopping sc env (ths ! i) \<longrightarrow> thread_left th \<le> thread_left (ths ! i) - 1"
    by (rule mixed_mem_step [OF sc ok i, of env])
  have "thread_left (ths[i := th] ! j) \<le> thread_left (ths ! j) - count_events (mem_event j) [MemStep i env]"
    if "\<not> se_ready env" "j < length ths" "stops sc (th_kind (ths ! j))" for j
    using that step(6) i by (cases "j = i") (simp_all add: stopping_def)
  then have "mixed_result sc N n [MemStep i env] (ths, fs, s) (ths[i := th], fs, s')"
    using step(2-5) i by (simp add: mixed_result_def map_update_same)
  then show thesis using that step(1,2) by blast
qed

lemma file_event_result:
  assumes plain: "\<not> cf_tag_mode (sc_cfg sc)" and inj: "\<not> sc_error_injection sc" and ok: "mixed_ok sc N n (ths, fs, s)"
    and i: "i < length fs" and io: "file_io_ok sc (fs ! i) env"
  obtains f s' where "file_step sc n env (fs ! i, s) = Inr (f, s')" "mixed_ok sc N n (ths, fs[i := f], s')"
    "mixed_result sc N n [FileStep i env] (ths, fs, s) (ths, fs[i := f], s')"
proof -
  obtain f s' where step: "file_step sc n env (fs ! i, s) = Inr (f, s')" "mixed_ok sc N n (ths, fs[i := f], s')"
    "fi_errorcount f = fi_errorcount (fs ! i)" "fi_tag_errors f = fi_tag_errors (fs ! i)" "sat_shared s' = sat_shared s"
    "\<not> se_ready (fe_step env) \<longrightarrow> file_left n (fi_pc f) \<le> file_left n (fi_pc (fs ! i)) - 1"
    by (rule mixed_file_step [OF plain inj ok i io])
  have "file_left n (fi_pc (fs[i := f] ! j)) \<le> file_left n (fi_pc (fs ! j)) - count_events (file_event j) [FileStep i env]"
    if "\<not> se_ready (fe_step env)" "j < length fs" for j
    using that step(6) i by (cases "j = i") simp_all
  then have "mixed_result sc N n [FileStep i env] (ths, fs, s) (ths, fs[i := f], s')"
    using step(2-5) i by (simp add: mixed_result_def map_update_same)
  then show thesis using that step(1,2) by blast
qed

lemma mixed_result_skip:
  assumes "mixed_result sc N n es (ths, fs, s) y" "\<not> (\<exists>i<length ths. mem_event i e)" "\<not> (\<exists>i<length fs. file_event i e)"
  shows "mixed_result sc N n (e # es) (ths, fs, s) y"
  using assms by (cases y) (auto simp: mixed_result_def)

lemma run_mixed_ok:
  assumes sc: "settings_ok sc" and plain: "\<not> cf_tag_mode (sc_cfg sc)"
  shows "mixed_ok sc N n x \<Longrightarrow> io_faithful sc n es x \<Longrightarrow> \<exists>y. run_mixed sc n es x = Inr y \<and> mixed_result sc N n es x y"
proof (induction es arbitrary: x)
  case Nil
  then show ?case by (simp add: mixed_result_refl)
next
  case (Cons e es)
  have inj: "\<not> sc_error_injection sc" using sc by (simp add: settings_ok_def)
  obtain ths fs s where x: "x = (ths, fs, s)" by (cases x)
  show ?case
  proof (cases e)
    case (MemStep i env)
    show ?thesis
    proof (cases "i < length ths")
      case True
      obtain th s' where step: "thread_step sc env (ths ! i, s) = Inr (th, s')" "mixed_ok sc N n (ths[i := th], fs, s')"
        "mixed_result sc N n [MemStep i env] x (ths[i := th], fs, s')"
        using mem_event_result [OF sc Cons.prems(1) [unfolded x] True, of env] x by blast
      have "io_faithful sc n es (ths[i := th], fs, s')" using Cons.prems(2) x MemStep True step(1) by simp
      from Cons.IH [OF step(2) this] obtain y where "run_mixed sc n es (ths[i := th], fs, s') = Inr y"
        "mixed_result sc N n es (ths[i := th], fs, s') y" by blast
      then show ?thesis using step MemStep True x mixed_result_step [OF step(3)] by auto
    next
      case False
      then have "io_faithful sc n es x" using Cons.prems(2) x MemStep by simp
      from Cons.IH [OF Cons.prems(1) this] show ?thesis using mixed_result_skip x MemStep False by fastforce
    qed
  next
    case (FileStep i env)
    show ?thesis
    proof (cases "i < length fs")
      case True
      then have io: "file_io_ok sc (fs ! i) env" using Cons.prems(2) x FileStep by simp
      obtain f s' where step: "file_step sc n env (fs ! i, s) = Inr (f, s')" "mixed_ok sc N n (ths, fs[i := f], s')"
        "mixed_result sc N n [FileStep i env] x (ths, fs[i := f], s')"
        using file_event_result [OF plain inj Cons.prems(1) [unfolded x] True io] x by blast
      have "io_faithful sc n es (ths, fs[i := f], s')" using Cons.prems(2) x FileStep True step(1) by simp
      from Cons.IH [OF step(2) this] obtain y where "run_mixed sc n es (ths, fs[i := f], s') = Inr y"
        "mixed_result sc N n es (ths, fs[i := f], s') y" by blast
      then show ?thesis using step FileStep True x mixed_result_step [OF step(3)] by auto
    next
      case False
      then have "io_faithful sc n es x" using Cons.prems(2) x FileStep by simp
      from Cons.IH [OF Cons.prems(1) this] show ?thesis using mixed_result_skip x FileStep False by fastforce
    qed
  qed
qed

text \<open>The same run with sound answers: what a correct file system would have said.\<close>

definition sound_answer :: "settings \<Rightarrow> FileThread \<Rightarrow> file_env \<Rightarrow> file_env" where
  "sound_answer sc f env = env\<lparr>fe_normal_mem := True, fe_write := cf_page_length (sc_cfg sc), fe_read := cf_page_length (sc_cfg sc),
     fe_buffer := (case fi_pc f of FHaveDst i result pe \<Rightarrow> fi_file f ! i | _ \<Rightarrow> fe_buffer env)\<rparr>"

fun sound_run :: "settings \<Rightarrow> nat \<Rightarrow> worker_event list \<Rightarrow> thread list \<times> FileThread list \<times> sat \<Rightarrow> worker_event list" where
  "sound_run sc n [] x = []"
| "sound_run sc n (MemStep i env # es) (ths, fs, s) = MemStep i env #
     (if i < length ths
      then case thread_step sc env (ths ! i, s) of Inl e \<Rightarrow> [] | Inr (th, s') \<Rightarrow> sound_run sc n es (ths[i := th], fs, s')
      else sound_run sc n es (ths, fs, s))"
| "sound_run sc n (FileStep i env # es) (ths, fs, s) =
     (if i < length fs
      then let env' = sound_answer sc (fs ! i) env in FileStep i env' #
        (case file_step sc n env' (fs ! i, s) of Inl e \<Rightarrow> [] | Inr (f, s') \<Rightarrow> sound_run sc n es (ths, fs[i := f], s'))
      else FileStep i env # sound_run sc n es (ths, fs, s))"

lemma sound_run_faithful: "io_faithful sc n (sound_run sc n es x) x"
proof (induction sc n es x rule: sound_run.induct)
  case (3 sc n i env es ths fs s)
  then show ?case
    by (auto simp: Let_def file_io_ok_def sound_answer_def split: file_pc.splits sum.splits)
qed (auto split: sum.splits)

lemma run_mixed_append: "run_mixed sc n (es @ es') x = res_bind (run_mixed sc n es x) (run_mixed sc n es')"
proof (induction sc n es x rule: run_mixed.induct)
  case (2 sc n i env es ths fs s)
  then show ?case by (cases "thread_step sc env (ths ! i, s)") auto
next
  case (3 sc n i env es ths fs s)
  then show ?case by (cases "file_step sc n env (fs ! i, s)") auto
qed simp

lemma io_faithful_append:
  "run_mixed sc n es x = Inr y \<Longrightarrow> io_faithful sc n (es @ es') x \<longleftrightarrow> io_faithful sc n es x \<and> io_faithful sc n es' y"
proof (induction sc n es x rule: run_mixed.induct)
  case (2 sc n i env es ths fs s)
  then show ?case by (cases "thread_step sc env (ths ! i, s)") (auto split: if_splits)
next
  case (3 sc n i env es ths fs s)
  then show ?case by (cases "file_step sc n env (fs ! i, s)") (auto split: if_splits)
qed simp

lemma stops_run_kind: "stops sc kind \<Longrightarrow> run_kind kind"
  by (auto simp: stops_def run_kind_def)

lemma mixed_start:
  assumes "pool_inv (all_pages sc N) (sat_pool s) {#}" "shared_ok sc N False s"
    and "\<forall>th \<in> set ths. th_pc th = LoopHead \<and> run_kind (th_kind th)" "\<forall>f \<in> set fs. fi_pc f = FStart"
  shows "mixed_ok sc N n (ths, fs, s)"
proof -
  have "all_held ths = {#}" using assms(3) by (induction ths) (simp_all add: all_held_def held_offsets_def)
  moreover have "all_files fs = {#}" using assms(4) by (induction fs) (simp_all add: all_files_def file_offsets_def)
  ultimately show ?thesis using assms by (auto simp: mixed_ok_def thread_ok_def run_kind_def file_ok_def)
qed

lemma file_left_le: "file_pc_ok sc n pats mem f pc \<Longrightarrow> file_left n pc \<le> 6 * n + 4"
  by (cases pc) auto

lemma mixed_finished:
  assumes ok: "mixed_ok sc N n (ths, fs, s)" and left: "\<forall>th \<in> set ths. thread_left th = 0" "\<forall>f \<in> set fs. file_left n (fi_pc f) = 0"
  shows "(\<forall>th \<in> set ths. \<exists>b. th_pc th = Finished b) \<and> (\<forall>f \<in> set fs. \<exists>b. fi_pc f = FDone b) \<and>
    pool_inv (all_pages sc N) (sat_pool s) {#} \<and> shared_ok sc N False s"
proof -
  have "\<exists>b. fi_pc f = FDone b" if "f \<in> set fs" for f
  proof -
    have "file_left n (fi_pc f) = 0" "file_pc_ok sc n (patterns (sat_patternlist s)) (sat_mem s) f (fi_pc f)"
      using that ok left by (auto simp: mixed_ok_def file_ok_def)
    then show ?thesis by (cases "fi_pc f") auto
  qed
  note fin = this
  then have "file_offsets f = {#}" if "f \<in> set fs" for f using that by (fastforce simp: file_offsets_def)
  then have "all_files fs = {#}" unfolding all_files_def by (induction fs) auto
  then have "run_ok sc N False (ths, s)" using ok by (simp add: mixed_ok_def run_ok_def)
  from all_finished [OF this left(1)] show ?thesis using fin by blast
qed

section \<open>Properties\<close>

text \<open>
  C16. A page survives the trip through the file. Tag a page that holds its pattern, with any worker, block and pass; validating it with the
  same ones reports nothing and gives back the page, word for word.
\<close>

theorem sector_tags_roundtrip:
  assumes "\<not> cf_tag_mode (sc_cfg sc)" "\<not> sc_error_injection sc" "0 < cf_page_length (sc_cfg sc)" "64 dvd cf_page_length (sc_cfg sc)"
    and "pe_pattern dst = Some k" "k < length (patterns (sat_patternlist s))"
    and "page = page_data (sc_cfg sc) (patterns (sat_patternlist s) ! k) a"
    and "fi_num g = fi_num f" "fi_pass g = fi_pass f"
  shows "\<exists>written. SectorTagPage sc f block page = Inr written \<and>
    SectorValidatePage sc calls rec dst block written (g, s) = Inr (page, g, s)"
proof -
  let ?written = "tagged_data sc f block page" and ?p = "patterns (sat_patternlist s) ! k"
  obtain c where c: "cf_page_length (sc_cfg sc) = 64 * c" "0 < c" using assms(3,4) by (auto simp: zero_less_mult_iff)
  have bytes: "even (page_words sc)" "cf_page_length (sc_cfg sc) = 8 * int (page_words sc)"
    using c by (auto simp: page_words_def nat_mult_distrib)
  have len: "length page = page_words sc" using assms(7) by (simp add: length_page_data)
  then have wlen: "length ?written = page_words sc" by simp
  have "pattern_of (patterns (sat_patternlist s)) dst = Inr k" using assms(5,6) by (simp add: pattern_of_def)
  note val = SectorValidatePage_eq [OF wlen bytes(1) assms(3) bytes(2) assms(2) this, of calls rec block g]
  have "bad_sectors sc g block ?written = []" by (rule bad_sectors_none [OF len]) (simp_all add: assms(8,9))
  moreover have "untagged sc ?p ?written = page"
    using page_data_sector [OF assms(1)] by (intro untagged_tagged [OF len]) (simp add: assms(7))
  ultimately show ?thesis using val SectorTagPage_eq [OF len] by auto
qed

lemma byte_eq: "(of_int a :: u8) = of_int b \<longleftrightarrow> a mod 256 = b mod 256"
  by (simp add: word_of_int_eq_iff take_bit_eq_mod)

text \<open>
  C17. A wrong page is noticed in every sector. Whatever data \<open>page\<close> a worker \<open>g\<close> wrote as block \<open>b\<close>, when worker \<open>f\<close> reads it as block \<open>c\<close>,
  nothing is counted if number, block and pass agree modulo 256, and otherwise one error for each sector. Then the first half of the
  page has its pattern again, but of the second half only the first four bytes of each sector: the rest stays as it was read.
\<close>

theorem wrong_page_counted:
  fixes f g :: FileThread and b c :: int
  assumes "\<not> sc_error_injection sc" "0 < cf_page_length (sc_cfg sc)" "64 dvd cf_page_length (sc_cfg sc)"
    and "pe_pattern dst = Some k" "k < length (patterns (sat_patternlist s))" "length page = page_words sc"
    and "SectorTagPage sc g b page = Inr written"
  defines "same \<equiv> fi_num g mod 256 = fi_num f mod 256 \<and> b mod 256 = c mod 256 \<and> fi_pass g mod 256 = fi_pass f mod 256"
    and "p \<equiv> patterns (sat_patternlist s) ! k"
  shows "\<exists>page' f' s'. SectorValidatePage sc calls rec dst c written (f, s) = Inr (page', f', s') \<and>
    fi_errorcount f' = fi_errorcount f + (if same then 0 else int (sectors sc)) \<and>
    (\<not> same \<and> 0 < sectors sc \<longrightarrow> cf_stop_on_error (sc_cfg sc) \<longrightarrow> w_stop (sat_shared s')) \<and>
    (\<not> same \<and> 0 < sectors sc \<longrightarrow> (\<forall>i<page_words sc.
       page' ! i = (if i < page_words sc div 2 then pattern_word p i
                    else if i mod 64 = 0 \<and> i div 64 < sectors sc then l64_of (pattern p (of_nat (2 * i))) (l32_h (page ! i)) else page ! i)))"
proof -
  obtain m where m: "cf_page_length (sc_cfg sc) = 64 * m" "0 < m" using assms(2,3) by (auto simp: zero_less_mult_iff)
  have bytes: "even (page_words sc)" "cf_page_length (sc_cfg sc) = 8 * int (page_words sc)"
    using m by (auto simp: page_words_def nat_mult_distrib)
  have written: "written = tagged_data sc g b page" using SectorTagPage_eq [OF assms(6), of g b] assms(7) by simp
  then have len: "length written = page_words sc" using assms(6) by simp
  have "pattern_of (patterns (sat_patternlist s)) dst = Inr k" using assms(4,5) by (simp add: pattern_of_def)
  note val = SectorValidatePage_eq [OF len bytes(1) assms(2) bytes(2) assms(1) this, of calls rec c f, folded p_def]
  have "tag_magic g = tag_magic f \<longleftrightarrow> fi_num g mod 256 = fi_num f mod 256"
    unfolding tag_magic_def byte_eq by (simp add: mod_eq_dvd_iff)
  then have "bad_sector f c written sec \<longleftrightarrow> \<not> same" if "sec < sectors sc" for sec
    using bad_sector_tagged [OF assms(6) that] written byte_eq by (simp add: expected_tag_def same_def)
  then have bad: "bad_sectors sc f c written = (if same then [] else [0..<sectors sc])"
    by (auto simp: filter_empty_conv intro: filter_True)
  have words: "untagged sc p written ! i = (if i mod 64 = 0 \<and> i div 64 < sectors sc then l64_of (pattern p (of_nat (2 * i))) (l32_h (page ! i)) else page ! i)"
    if "i < page_words sc" for i
  proof (cases "i mod 64 = 0 \<and> i div 64 < sectors sc")
    case True
    then obtain q where "i = 64 * q" by auto
    then show ?thesis using True that assms(6)
      by (simp add: untagged_def written tagged_data_def nth_at_sectors set_low_def)
  next
    case False
    then show ?thesis using that assms(6) by (auto simp: untagged_def written tagged_data_def nth_at_sectors)
  qed
  show ?thesis
  proof (cases "same \<or> sectors sc = 0")
    case True
    then show ?thesis using val bad by auto
  next
    case False
    then have "[0..<sectors sc] \<noteq> []" by simp
    then show ?thesis using val bad False words by (auto simp: after_tag_errors_def half_restored_def)
  qed
qed

text \<open>
  C15. No false alarms with file workers. Any number of file workers and of copy, check and invert workers, in any interleaving on good
  memory, with files that return what was written: nothing fails, no worker counts an error, no tag error is reported, every page is always
  held by one worker or available in one pool, and the available valid pages hold the data of their pattern.
\<close>

theorem file_workers_no_false_alarm:
  fixes F :: "'f fp"
  assumes "\<not> sc_error_injection sc" "\<not> cf_tag_mode (sc_cfg sc)"
    and "sc_warm sc \<Longrightarrow> sc_warm_copy sc \<in> {AdlerMemcpyWarm False asm F, AdlerMemcpyAsm_sse2 xmm, AdlerMemcpyAsm_aarch64 v,
      AdlerMemcpyAsm_armv7 q}"
    and "pool_inv (all_pages sc N) (sat_pool s) {#}" "shared_ok sc N False s"
    and "\<forall>th \<in> set ths. th_pc th = LoopHead \<and> run_kind (th_kind th)" "\<forall>f \<in> set fs. fi_pc f = FStart"
    and "io_faithful sc n es (ths, fs, s)"
  shows "\<exists>ths' fs' s'. run_mixed sc n es (ths, fs, s) = Inr (ths', fs', s') \<and>
    map th_errorcount ths' = map th_errorcount ths \<and> map fi_errorcount fs' = map fi_errorcount fs \<and>
    map fi_tag_errors fs' = map fi_tag_errors fs \<and> sat_shared s' = sat_shared s \<and>
    (\<forall>pe \<in># pool_avail True (sat_pool s'). holds sc (patterns (sat_patternlist s')) (sat_mem s') pe) \<and>
    image_mset pe_offset (pool_avail True (sat_pool s')) + image_mset pe_offset (pool_avail False (sat_pool s')) +
      (all_held ths' + all_files fs') = all_pages sc N"
proof -
  have sc: "settings_ok sc" using settings_okI [OF assms(1,3)] by simp
  have "mixed_ok sc N n (ths, fs, s)" by (rule mixed_start [OF assms(4-7)])
  from run_mixed_ok [OF sc assms(2) this assms(8)] obtain ths' fs' s' where
    run: "run_mixed sc n es (ths, fs, s) = Inr (ths', fs', s')" "mixed_result sc N n es (ths, fs, s) (ths', fs', s')" by auto
  then have "pool_inv (all_pages sc N) (sat_pool s') (all_held ths' + all_files fs')" "shared_ok sc N False s'"
    by (simp_all add: mixed_result_def mixed_ok_def)
  then show ?thesis using run pools.partition [of "all_pages sc N" "sat_pool s'"] by (auto simp: shared_ok_def mixed_result_def)
qed


section \<open>Concrete instances\<close>

definition ex_file :: FileThread where
  "ex_file = FileThread_new 3 None"

definition ex_file_env :: "bool \<Rightarrow> file_env" where
  "ex_file_env ready = \<lparr>fe_step = ex_step ready, fe_normal_mem = True, fe_local = None, fe_opened = True, fe_write = 4096, fe_read = 4096,
     fe_buffer = [], fe_flush = True, fe_calls = 1, fe_entry = blank_pe\<rparr>"

lemma ex_sc_plain: "\<not> cf_tag_mode (sc_cfg ex_sc)" "\<not> sc_error_injection ex_sc" "\<not> sc_warm ex_sc" "cf_page_length (sc_cfg ex_sc) = 4096"
  "page_words ex_sc = 512" "sectors ex_sc = 8"
  by (simp_all add: ex_simps page_words_def sectors_def)

theorem sector_tags_roundtrip_witness:
  "\<exists>written. SectorTagPage ex_sc ex_file 5 ex_mem = Inr written \<and>
     SectorValidatePage ex_sc 1 \<lparr>pr_pattern = Some 3, pr_src = 0, pr_dst = 0\<rparr> (blank_pe\<lparr>pe_pattern := Some 3\<rparr>) 5 written
       (ex_file, ex_sat undefined ex_mem) = Inr (ex_mem, ex_file, ex_sat undefined ex_mem)"
proof -
  have "3 < length ex_pats" "ex_mem = page_data (sc_cfg ex_sc) (ex_pats ! 3) 0x10000" by (simp_all add: ex_mem_def ex_sc_def)
  then show ?thesis
    using sector_tags_roundtrip [where sc = ex_sc and f = ex_file and g = ex_file and block = 5 and page = ex_mem and calls = 1 and
        rec = "\<lparr>pr_pattern = Some 3, pr_src = 0, pr_dst = 0\<rparr>" and k = 3 and a = "0x10000" and
        dst = "blank_pe\<lparr>pe_pattern := Some 3\<rparr>" and s = "ex_sat undefined ex_mem"] ex_sc_plain
    by (simp add: ex_sat_def)
qed

theorem wrong_page_counted_witness:
  "\<exists>written page' f' s'. SectorTagPage ex_sc ex_file 5 ex_mem = Inr written \<and>
     SectorValidatePage ex_sc 1 \<lparr>pr_pattern = Some 3, pr_src = 0, pr_dst = 0\<rparr> (blank_pe\<lparr>pe_pattern := Some 3\<rparr>) 6 written
       (ex_file, ex_sat undefined ex_mem) = Inr (page', f', s') \<and> fi_errorcount f' = 8 \<and>
     fi_errorcount ex_file = 0"
proof -
  have k: "3 < length ex_pats" by simp
  have len: "length ex_mem = page_words ex_sc" by (simp add: length_ex_mem ex_sc_plain)
  have tag: "SectorTagPage ex_sc ex_file 5 ex_mem = Inr (tagged_data ex_sc ex_file 5 ex_mem)" by (rule SectorTagPage_eq [OF len])
  show ?thesis
    using wrong_page_counted [where sc = ex_sc and f = ex_file and g = ex_file and b = 5 and c = 6 and page = ex_mem and calls = 1 and
        rec = "\<lparr>pr_pattern = Some 3, pr_src = 0, pr_dst = 0\<rparr>" and k = 3 and
        dst = "blank_pe\<lparr>pe_pattern := Some 3\<rparr>" and s = "ex_sat undefined ex_mem" and written = "tagged_data ex_sc ex_file 5 ex_mem"]
      ex_sc_plain k len tag
    by (auto simp: ex_sat_def ex_file_def FileThread_new_def)
qed

definition ex_events :: "bool \<Rightarrow> worker_event list" where
  "ex_events ready = concat (replicate 10 [MemStep 0 (ex_step ready), FileStep 0 (ex_file_env ready)])"

theorem file_workers_no_false_alarm_witness:
  "\<exists>p es ths' fs' s'. pool_avail True p \<noteq> {#} \<and>
     io_faithful ex_sc 1 es ([ex_thread InvertThread], [ex_file], ex_sat p ex_mem) \<and>
     run_mixed ex_sc 1 es ([ex_thread InvertThread], [ex_file], ex_sat p ex_mem) = Inr (ths', fs', s') \<and>
     map th_errorcount ths' = [0] \<and> map fi_errorcount fs' = [0]"
proof -
  obtain p where p: "pool_inv (page_offsets 1 4096) p {#}" "pool_avail True p = {#ex_pe\<lparr>pe_addr := 0\<rparr>#}" "pool_avail False p = {#}"
    by (rule ex_pool)
  let ?x = "([ex_thread InvertThread], [ex_file], ex_sat p ex_mem)"
  let ?es = "sound_run ex_sc 1 (ex_events True) ?x"
  have io: "io_faithful ex_sc 1 ?es ?x" by (rule sound_run_faithful)
  have pool: "pool_inv (all_pages ex_sc 1) (sat_pool (ex_sat p ex_mem)) {#}" using p(1) ex_sc_plain by (simp add: ex_sat_def)
  have start: "\<forall>th \<in> set [ex_thread InvertThread]. th_pc th = LoopHead \<and> run_kind (th_kind th)" "\<forall>f \<in> set [ex_file]. fi_pc f = FStart"
    by (simp_all add: ex_simps run_kind_def ex_file_def FileThread_new_def)
  from file_workers_no_false_alarm [OF ex_sc_plain(2,1) _ pool ex_shared_ok [OF p(2,3)] start io] obtain ths' fs' s' where
    "run_mixed ex_sc 1 ?es ?x = Inr (ths', fs', s')" "map th_errorcount ths' = map th_errorcount [ex_thread InvertThread]"
    "map fi_errorcount fs' = map fi_errorcount [ex_file]"
    using ex_sc_plain(3) by blast
  then show ?thesis
    using io p(2) by (intro exI [of _ p] exI [of _ ?es] exI [of _ ths'] exI [of _ fs'] exI [of _ s'])
      (simp add: ex_simps ex_file_def FileThread_new_def)
qed

lemma sound_run_events:
  assumes "run_mixed sc n (sound_run sc n es x) x = Inr y"
  shows "length (filter (mem_event i) (sound_run sc n es x)) = length (filter (mem_event i) es)"
    "length (filter (file_event i) (sound_run sc n es x)) = length (filter (file_event i) es)"
    "(\<forall>e \<in> set (sound_run sc n es x). \<not> event_ready e) = (\<forall>e \<in> set es. \<not> event_ready e)"
  using assms
  by (induction sc n es x arbitrary: y rule: sound_run.induct)
    (auto simp: Let_def sound_answer_def split: sum.splits if_splits prod.splits)


end
