(* ===== verification/Spec2Isabelle.thy ===== *)
theory Spec2Isabelle
  imports MainProgram VmStats CacheCoherency FineLockThreads DramAddress DiskTest FileTest
begin

text \<open>
  \<^bold>\<open>stressapptest, the memory and disk test\<close>

  stressapptest fills the memory of a machine with known data patterns, lets many threads copy, invert and check the pages
  at once and reports every word that is not what was written; other threads write blocks to disks and files and read them back. This development models
  \<^verbatim>\<open>src/src\<close> from the checksum of a block up to the process: the command line, the allocation of the memory, the start, any number of interleaved workers
  on shared page pools beside the control loop, the final check, the verdict and the exit status.

  \<^bold>\<open>The program's parts and the theories\<close>

  \<^item> \<open>SatPrelude\<close>: machine words, the error type (\<open>Inl AssertFailed\<close> is a failed \<open>sat_assert\<close>, \<open>Inl OutOfBounds\<close> an access outside a
    buffer, \<open>Inl DivisionByZero\<close>, \<open>Inl UseAfterFree\<close>, \<open>Inl StillRunning\<close> a join that has not returned), \<open>res_bind\<close>.
  \<^item> \<open>Checksum\<close> and \<open>VectorCopy\<close>: \<^verbatim>\<open>adler32memcpy.cc\<close>. A buffer is a list of 64-bit words. The C routines are recursions over their
    loops; the assembly routines (x86 SSE2, AArch64 and ARMv7 NEON) work on vector registers as pairs of words. The floating-point
    work of the warm copy is a parameter (\<open>'f fp\<close>).
  \<^item> \<open>Patterns\<close>: \<^verbatim>\<open>pattern.cc\<close>, all tables, the variants of a pattern, weights, \<open>-P\<close> selection and the cyclic cursor.
  \<^item> \<open>PageQueue\<close>: \<^verbatim>\<open>queue.cc\<close>, the one-lock queue as its circular buffer.
  \<^item> \<open>Lcg\<close>, \<open>FineLock\<close>, \<open>FineLockThreads\<close>: \<^verbatim>\<open>finelock_queue.cc\<close>. \<open>Lcg\<close> chooses and analyses the linear congruential generator, \<open>FineLock\<close>
    has the operations, and \<open>FineLockThreads\<close> the single lock operations of any number of threads as a step relation.
  \<^item> \<open>Invert\<close>: \<^verbatim>\<open>invert_workload.h\<close> and the passes of \<open>InvertThread\<close>.
  \<^item> \<open>Diagnostics\<close> and \<open>VmStats\<close>: phase statistics, the block history, the summary of the phases and the VM statistics.
  \<^item> \<open>CacheCoherency\<close>: the counters and threads of \<open>--cc_test\<close> as interleaved loads and stores.
  \<^item> \<open>CheckRegion\<close>: \<open>WorkerThread::CheckRegion\<close> and \<open>ProcessError\<close>, with the queue of 128 errors, the restart when it overflows, the block-error
    report, the log budget and the repair of the words.
  \<^item> \<open>PageOps\<close> and \<open>PageCopy\<close>: \<open>FillPage\<close>, \<open>CrcCheckPage\<close>, \<open>CrcCopyPage\<close>, \<open>CrcWarmCopyPage\<close> and the tag-mode routines of \<^verbatim>\<open>worker.cc\<close>.
  \<^item> \<open>SatPool\<close>: the page pools of \<open>Sat\<close> (\<^verbatim>\<open>sat.cc\<close>) over either queue, with the mapping of test memory (\<^verbatim>\<open>os.cc\<close>).
  \<^item> \<open>Workers\<close>: \<open>FillThread::Work\<close>, \<open>CheckThread::Work\<close>, \<open>CopyThread::Work\<close> and \<open>InvertThread::Work\<close> as machines that interleave
    (\<open>run_threads\<close>). What the world answers in a step (random numbers, CPU, clock, \<open>IsReadyToRun\<close>) is the \<open>step_env\<close> of that step.
  \<^item> \<open>MemTest\<close> and \<open>FinalCheck\<close>: the correctness of the workers together.
  \<^item> \<open>Startup\<close> and \<open>StartupTest\<close>: \<open>Sat::InitializePages\<close> with the fill passes, the prefault loop, the check after the fill
    (\<open>PostFillCheckThread::Work\<close>), the split into valid and empty pages with their region tags, and the bitmap of physical pages.
  \<^item> \<open>PauseBarrier\<close>: \<open>WorkerStatus\<close> (\<^verbatim>\<open>worker.h\<close>, \<^verbatim>\<open>worker.cc\<close>), the status word and the barrier by which the control thread pauses, resumes and
    stops the workers, as a state machine of single steps.
  \<^item> \<open>DramAddress\<close>: \<^verbatim>\<open>sm8975_mapping.h\<close> and \<^verbatim>\<open>dram_address.h\<close>, from a physical address to the DRAM cells of the wrong bits.
  \<^item> \<open>DiskBlocks\<close>: \<^verbatim>\<open>disk_blocks.cc\<close>, the table of the blocks in use on a device, with pointers and deletion.
  \<^item> \<open>DiskThreads\<close> and \<open>DiskTest\<close>: \<open>DiskThread\<close> and \<open>RandomDiskThread\<close> of \<^verbatim>\<open>worker.cc\<close>; the device and the kernel calls answer from a
    \<open>disk_env\<close>.
  \<^item> \<open>FileThread\<close> and \<open>FileTest\<close>: \<open>FileThread\<close> of \<^verbatim>\<open>worker.cc\<close>, the sector tags and the passes over a temporary file, beside the memory workers.
  \<^item> \<open>ThreadSetup\<close>: \<open>Sat::InitializeThreads\<close> and \<open>SpawnThreads\<close>, the workers of every kind with their numbers, status objects, cores and tags.
  \<^item> \<open>RunControl\<close>: the control loop of \<open>Sat::Run\<close> with its schedules, the requests for a memory frequency, the deliberate error and \<open>PrintResults\<close>.
  \<^item> \<open>Supply\<close> and \<open>SatRun\<close>: \<open>Supply\<close> shows that no worker runs out of pages; \<open>SatRun\<close> has \<open>Sat::Run\<close>, \<open>JoinThreads\<close> with the final check, and the end of \<open>main\<close>.
  \<^item> \<open>Options\<close>: the members of \<open>Sat\<close> with their C types and defaults, \<open>ParseArgs\<close> with its tables of options, and \<open>PrepareDramMapArgs\<close> of \<^verbatim>\<open>main.cc\<close>.
  \<^item> \<open>OsMemory\<close>: the size of the memory to test, its allocation and release, and the module of an address (\<^verbatim>\<open>os.cc\<close>).
  \<^item> \<open>MainProgram\<close>: \<open>Sat::Initialize\<close> with \<open>CheckEnvironment\<close>, \<open>AllocateMemory\<close> and \<open>InitializePatterns\<close>, \<open>Cleanup\<close> and \<open>main\<close>: \<open>sat_main\<close> takes a
    \<open>machine\<close>, which has all answers of the kernel, and a command line to the verdict, the exit status and the memory objects that are kept.

  \<^bold>\<open>What is shown\<close>

  \<^item> The process: every accepted command line for memory workers gives \<open>PASS\<close> and status 0 on good memory with enough pages and threads
    (\<open>command_line_passes\<close>, \<open>good_memory_passes\<close>); wrong words at the final check give another verdict (\<open>faults_reported\<close>); the exit status is 0 exactly
    for \<open>PASS\<close> or a request for help (\<open>exit_status_truthful\<close>); accepted options are in the ranges the rest of the program needs (\<open>accepted_options\<close>); numbers survive printing and parsing
    (\<open>numbers_roundtrip\<close>); the test memory is freed, up to shared memory objects (\<open>test_memory_freed\<close>); the control loop ends (\<open>control_loop_ends\<close>); the
    workers have different numbers and are registered for pausing (\<open>workers_registered\<close>).
  \<^item> The test as a whole: from any memory contents the start fills every page once and leaves the wanted number of empty pages
    (\<open>initialize_pages_correct\<close>); from there to the end of the final check good memory raises no alarm, in any interleaving
    (\<open>whole_test_finds_nothing\<close>, \<open>no_false_alarm\<close>); the final check finds every wrong word (\<open>final_check_finds_all\<close>); told to stop, the workers do
    (\<open>workers_stop\<close>); no page is lost or held twice (\<open>pool_conserves\<close>); pausing is a rendezvous that ends (\<open>pause_barrier_safe\<close>,
    \<open>pause_returns\<close>, \<open>stop_terminates\<close>).
  \<^item> A page: filling, checking and copying agree on what a page must hold, and an error within the power of the checksum is reported
    and repaired (\<open>fill_then_check\<close>, \<open>CrcCheckPage_detects\<close>, \<open>copy_page_verified\<close>, \<open>CheckRegion_exact\<close>).
  \<^item> A block: all routines compute the same checksum, which detects any change of one word and is exact up to 512 KB.
  \<^item> The queues: the random probe visits every slot, finds a page if there is one, and no two threads own one slot.
  \<^item> The patterns: the stored checksum is right for every block, the choice follows the weights or the given sequence.
  \<^item> Files: file workers beside memory workers raise no alarm, stop, and a page with tags of another worker, block or pass is counted
    (\<open>file_workers_no_false_alarm\<close>, \<open>file_workers_stop\<close>, \<open>sector_tags_roundtrip\<close>, \<open>wrong_page_counted\<close>).
  \<^item> The disks: the workers fail no assertion and leak no block whatever the I/O does (\<open>disk_workers_safe\<close>), a validation ends, reads each part once
    and counts the wrong words (\<open>validate_reads_once\<close>, \<open>validate_exact\<close>); where the code reports a sound disk as failing is proved too.
  \<^item> Cache lines: coherent caches raise no alarm (\<open>coherency_no_false_alarm\<close>), and a lost increment is counted (\<open>sum_phase\<close>).
  \<^item> Addresses: decoding loses nothing (\<open>decode_injective\<close>), and a failing word is mapped to exactly its wrong cells.

  Interfaces are locales: \<open>adler_copier\<close> (a routine that copies a block and returns its checksum), \<open>page_copier\<close> (the pair of
  routines \<open>CrcCopyPage\<close> uses), \<open>page_pool\<close> (get and put of pages) and the queue interface of \<open>PageQueue\<close>, each interpreted on the model's own routines.

  \<^bold>\<open>Bounds\<close>

  A queue has at most $2^{20}$ pages and the test memory fewer than $2^{63}$ bytes; \<open>Lcg\<close> shows that the search for the generator's
  parameters succeeds in this range. Page sizes are multiples of 64 bytes. Loops that are not structural have
  termination proofs or a fuel that is shown to be enough. Test memory is statically mapped in the theorems about several
  workers, since tags are virtual addresses. Physical addresses are below $2^{60}$ where their region is computed.

  \<^bold>\<open>Not modelled\<close>

  Printing and its formats (\<^verbatim>\<open>logger.cc\<close>, the statistics tables, the help text) and the tree of reported errors (\<^verbatim>\<open>error_diag.cc\<close>), on which no
  verdict depends; cache flushes, PCI and MSR access (\<^verbatim>\<open>os.cc\<close>); the work of network, CPU stress and CPU frequency threads, which is
  I/O between machines, heat and timing (their creation is modelled); \<open>MemoryRegionThread\<close>, which nothing creates; the option of the build with test hooks. In the theorems about a
  whole run the workers are copy, check, invert and error poll workers; the injection of \<open>--force_errors_like_crazy\<close> is modelled but not interleaved with them. Reads of memory return what was last
  written: a fault of the hardware enters as a memory state with wrong words, not as a wrong read.
\<close>

section \<open>A whole test\<close>

lemma workers_from_start:
  assumes sc: "settings_ok sc" and inv: "pool_inv (all_pages sc N) (sat_pool s) {#}" and ok: "shared_ok sc N False s"
    and ths: "\<forall>th \<in> set ths. th_pc th = LoopHead \<and> run_kind (th_kind th)"
  obtains ths' s' where "run_threads sc es (ths, s) = Inr (ths', s')" "map th_errorcount ths' = map th_errorcount ths"
    "sat_shared s' = sat_shared s" "pool_inv (all_pages sc N) (sat_pool s') (all_held ths')" "shared_ok sc N False s'"
proof -
  have "run_ok sc N False (ths, s)" using start_ok [where fillp = False] inv ok ths by simp
  from run_threads_ok [OF disjI2 [OF sc] this, of es] show thesis using that by (auto simp: run_ok_def)
qed

lemma none_held:
  assumes "\<forall>th \<in> set ths. \<exists>b. th_pc th = Finished b"
  shows "all_held ths = {#}"
proof -
  have "map held_offsets ths = map (\<lambda>_. {#}) ths" using assms by (auto simp: held_offsets_def)
  then show ?thesis unfolding all_held_def by (simp only: sum_list_0)
qed

text \<open>
  C5. A whole test of good memory finds nothing. Whatever the memory held at the start: when \<open>InitializePages\<close> has succeeded,
  any copy, check and invert workers run in any interleaving without a failed assertion and without counting or logging an error; and when they have
  ended, any final check workers that run then find nothing either. All this time every available valid page holds the data of its pattern, and
  each page is held by one worker or available once.
\<close>

theorem whole_test_finds_nothing:
  fixes F :: "'f fp"
  assumes start: "fresh_start sc N fine st" "startup_ok su N" "0 \<le> needed_pages su" "physical_ok su" "schedule_ok su env True" "schedule_ok su env False"
    and init: "InitializePages sc su garbage env st = Inr (True, st')"
    and inject: "\<not> sc_error_injection sc"
    and warm: "sc_warm sc \<Longrightarrow> sc_warm_copy sc \<in> {AdlerMemcpyWarm False asm F, AdlerMemcpyAsm_sse2 xmm, AdlerMemcpyAsm_aarch64 v,
      AdlerMemcpyAsm_armv7 q}"
    and ths: "\<forall>th \<in> set ths. th_pc th = LoopHead \<and> run_kind (th_kind th)"
    and final: "\<forall>th \<in> set fs. th_pc th = LoopHead \<and> th_kind th = CheckThread ''final_check''"
  shows "is_errorcount st' = is_errorcount st \<and>
    (\<exists>ths' s'. run_threads sc es (ths, is_sat st') = Inr (ths', s') \<and> map th_errorcount ths' = map th_errorcount ths \<and>
       sat_shared s' = sat_shared (is_sat st) \<and>
       (\<forall>pe \<in># pool_avail True (sat_pool s'). holds sc (patterns (sat_patternlist s')) (sat_mem s') pe) \<and>
       image_mset pe_offset (pool_avail True (sat_pool s')) + image_mset pe_offset (pool_avail False (sat_pool s')) +
         all_held ths' = all_pages sc N \<and>
       ((\<forall>th \<in> set ths'. \<exists>b. th_pc th = Finished b) \<longrightarrow>
         (\<exists>fs' s''. run_threads sc es' (fs, s') = Inr (fs', s'') \<and> map th_errorcount fs' = map th_errorcount fs \<and>
            sat_shared s'' = sat_shared (is_sat st))))"
proof -
  have sc: "settings_ok sc" by (rule settings_okI [OF inject warm])
  have st': "is_errorcount st' = is_errorcount st" "sat_shared (is_sat st') = sat_shared (is_sat st)"
    "ready_to_run sc N (free_pages su fine) (is_sat st')" using InitializePages_ok [OF start, of garbage] init by auto
  then have inv: "pool_inv (all_pages sc N) (sat_pool (is_sat st')) {#}" and ok: "shared_ok sc N False (is_sat st')"
    by (simp_all add: ready_to_run_def)
  obtain ths' s' where run: "run_threads sc es (ths, is_sat st') = Inr (ths', s')" "map th_errorcount ths' = map th_errorcount ths"
    "sat_shared s' = sat_shared (is_sat st')" "pool_inv (all_pages sc N) (sat_pool s') (all_held ths')" "shared_ok sc N False s'"
    by (rule workers_from_start [OF sc inv ok ths])
  have "\<exists>fs' s''. run_threads sc es' (fs, s') = Inr (fs', s'') \<and> map th_errorcount fs' = map th_errorcount fs \<and>
      sat_shared s'' = sat_shared (is_sat st)" if "\<forall>th \<in> set ths'. \<exists>b. th_pc th = Finished b"
  proof -
    have inv': "pool_inv (all_pages sc N) (sat_pool s') {#}" using run(4) none_held [OF that] by simp
    have fs: "\<forall>th \<in> set fs. th_pc th = LoopHead \<and> run_kind (th_kind th)" using final by (auto simp: run_kind_def)
    show ?thesis by (rule workers_from_start [OF sc inv' run(5) fs, of es']) (use run(3) st'(2) in auto)
  qed
  then show ?thesis using st'(1,2) run pools.partition [OF run(4)] by (auto simp: shared_ok_def)
qed

section \<open>Concrete instances\<close>

theorem whole_test_finds_nothing_witness:
  "\<exists>st' ths' s' fs' s''. InitializePages ex_sc5 ex_su blank_pe ex_ie ex_init = Inr (True, st') \<and>
     run_threads ex_sc5 [(0, ex_step False)] ([ex_thread CopyThread], is_sat st') = Inr (ths', s') \<and> map th_errorcount ths' = [0] \<and>
     run_threads ex_sc5 (replicate 10 (0, ex_step True)) ([ex_thread (CheckThread ''final_check'')], s') = Inr (fs', s'') \<and> map th_errorcount fs' = [0]"
proof -
  obtain st' where st': "InitializePages ex_sc5 ex_su blank_pe ex_ie ex_init = Inr (True, st')"
    using InitializePages_ok [OF ex_start(1-4) ex_start(6) ex_start(6), of blank_pe] ex_start(5) ex_start(7) [of "is_sat ex_init"] by auto
  have run: "run_threads ex_sc5 [(0, ex_step False)] ([ex_thread CopyThread], is_sat st') =
      Inr ([(ex_thread CopyThread)\<lparr>th_pc := Finished True\<rparr>], is_sat st')"
    by (simp add: thread_step_def CopyThread_step_def ex_simps)
  from whole_test_finds_nothing [where ths = "[ex_thread CopyThread]" and fs = "[ex_thread (CheckThread ''final_check'')]" and
      es = "[(0, ex_step False)]" and es' = "replicate 10 (0, ex_step True)" and F = nat_fp, OF ex_start(1-4) ex_start(6) ex_start(6) st']
  show ?thesis using st' run by (auto simp: ex_sc5_def ex_simps run_kind_def)
qed

end
